(* ===== verification/Prelude.thy ===== *)
theory Prelude
  imports Main "HOL-Library.Word" "HOL-Library.List_Lexorder" "HOL-Library.Sublist"
begin

text \<open>
  The shared vocabulary of the development: the machine types of the Rust sources
  (\<open>u8\<close>, \<open>u16\<close>, \<open>u32\<close>, \<open>u64\<close>, byte vectors), the saturating and
  checked operations of the standard library, fallible operations that thread a state
  (\<open>Result\<close> values computed under an interior-mutable \<open>&self\<close>), little-endian
  codecs, byte-slice searches, and the generic lemmas that the component theories use.
\<close>

unbundle bit_operations_syntax

section \<open>Machine types\<close>

type_synonym byte = "8 word"
type_synonym bytes = "8 word list"
type_synonym u8 = "8 word"
type_synonym u16 = "16 word"
type_synonym u32 = "32 word"
type_synonym u64 = "64 word"

text \<open>Byte-string literals: \<open>b"abc"\<close> of the source is \<open>ascii ''abc''\<close>.\<close>

definition ascii :: "string \<Rightarrow> bytes" where
  "ascii s = map of_char s"

lemma ascii_simps [simp]:
  "ascii [] = []"
  "ascii (c # s) = of_char c # ascii s"
  by (simp_all add: ascii_def)

lemma length_ascii [simp]: "length (ascii s) = length s"
  by (simp add: ascii_def)

text \<open>Decimal rendering of a number, as the \<open>Display\<close> of unsigned integers.\<close>

definition digit_char :: "nat \<Rightarrow> char" where
  "digit_char d = char_of (48 + d)"

fun show_nat :: "nat \<Rightarrow> string" where
  "show_nat n = (if n < 10 then [digit_char n] else show_nat (n div 10) @ [digit_char (n mod 10)])"

declare show_nat.simps [simp del]

lemma show_nat_not_Nil [simp]: "show_nat n \<noteq> []"
  by (subst show_nat.simps) simp

section \<open>Saturating and checked arithmetic\<close>

definition sat_add :: "'a::len word \<Rightarrow> 'a word \<Rightarrow> 'a word" where
  "sat_add a b = (if unat a + unat b < 2 ^ LENGTH('a) then a + b else - 1)"

definition sat_sub :: "'a::len word \<Rightarrow> 'a word \<Rightarrow> 'a word" where
  "sat_sub a b = (if a < b then 0 else a - b)"

lemma unat_max_word [simp]: "unat (- 1 :: 'a::len word) = 2 ^ LENGTH('a) - 1"
  by (simp add: unsigned_minus_1_eq_mask mask_eq_exp_minus_1)

lemma unat_less_exp: "unat w < 2 ^ LENGTH('a)" for w :: "'a::len word"
  by (rule unsigned_less)

lemma unat_sat_add:
  "unat (sat_add a b) = min (unat a + unat b) (2 ^ LENGTH('a) - 1)" for a b :: "'a::len word"
  by (auto simp: sat_add_def min_def unat_word_ariths)

lemma unat_sat_sub: "unat (sat_sub a b) = unat a - unat b" for a b :: "'a::len word"
  by (auto simp: sat_sub_def word_less_nat_alt unat_sub word_le_nat_alt not_less)

text \<open>\<open>usize::try_from(n).unwrap_or(MAX)\<close> towards a narrower word.\<close>

definition clamp_word :: "nat \<Rightarrow> 'a::len word" where
  "clamp_word n = (if n < 2 ^ LENGTH('a) then of_nat n else - 1)"

lemma unat_clamp_word: "n < 2 ^ LENGTH('a) \<Longrightarrow> unat (clamp_word n :: 'a::len word) = n"
  by (simp add: clamp_word_def unat_of_nat)

lemma unat_of_nat64 [simp]: "n < 2 ^ 64 \<Longrightarrow> unat (of_nat n :: u64) = n"
  by (simp add: unat_of_nat)


section \<open>Fallible operations over a state\<close>

text \<open>
  A method that takes \<open>&self\<close>, reads or updates interior state and returns a
  \<open>Result\<close> is a function from the state to the result and the new state. The state
  change survives an error, as it does in the source. \<open>sbind\<close> is the \<open>?\<close>
  operator; \<open>smap_err\<close> is \<open>map_err\<close>.
\<close>

type_synonym ('s, 'e, 'a) sr = "'s \<Rightarrow> ('e + 'a) \<times> 's"

named_theorems sr_defs "unfolding of the fallible-operation combinators"
named_theorems sr_inv "inversion of successful and failed runs"

definition sreturn :: "'a \<Rightarrow> ('s, 'e, 'a) sr" where
  [sr_defs]: "sreturn x s = (Inr x, s)"

definition sraise :: "'e \<Rightarrow> ('s, 'e, 'a) sr" where
  [sr_defs]: "sraise e s = (Inl e, s)"

definition sbind :: "('s, 'e, 'a) sr \<Rightarrow> ('a \<Rightarrow> ('s, 'e, 'b) sr) \<Rightarrow> ('s, 'e, 'b) sr" where
  [sr_defs]: "sbind m k s = (case m s of (Inl e, s') \<Rightarrow> (Inl e, s') | (Inr x, s') \<Rightarrow> k x s')"

definition smap_err :: "('e \<Rightarrow> 'e) \<Rightarrow> ('s, 'e, 'a) sr \<Rightarrow> ('s, 'e, 'a) sr" where
  [sr_defs]: "smap_err f m s = (case m s of (Inl e, s') \<Rightarrow> (Inl (f e), s') | (Inr x, s') \<Rightarrow> (Inr x, s'))"

definition slift :: "'e + 'a \<Rightarrow> ('s, 'e, 'a) sr" where
  [sr_defs]: "slift r s = (r, s)"

definition sok :: "('s, 'e, 'a) sr \<Rightarrow> ('s, 'e, 'a option) sr" where
  [sr_defs]: "sok m s = (case m s of (Inl e, s') \<Rightarrow> (Inr None, s') | (Inr x, s') \<Rightarrow> (Inr (Some x), s'))"

text \<open>A result that the caller inspects instead of passing an error on.\<close>

definition sattempt :: "('s, 'e, 'a) sr \<Rightarrow> ('s, 'e, 'e + 'a) sr" where
  [sr_defs]: "sattempt m s = (case m s of (r, s') \<Rightarrow> (Inr r, s'))"

text \<open>\<open>ok_or_else\<close>: an absent value is the given error.\<close>

definition ok_or :: "'e \<Rightarrow> 'a option \<Rightarrow> 'e + 'a" where
  "ok_or e v = (case v of None \<Rightarrow> Inl e | Some x \<Rightarrow> Inr x)"

lemma ok_or_simps [simp]:
  "ok_or e None = Inl e"
  "ok_or e (Some x) = Inr x"
  by (simp_all add: ok_or_def)

lemma ok_or_Inr_iff [simp]: "ok_or e v = Inr x \<longleftrightarrow> v = Some x"
  by (cases v) auto

definition rbind :: "'e + 'a \<Rightarrow> ('a \<Rightarrow> 'e + 'b) \<Rightarrow> 'e + 'b" where
  "rbind r k = (case r of Inl e \<Rightarrow> Inl e | Inr x \<Rightarrow> k x)"

lemma rbind_simps [simp]:
  "rbind (Inl e) k = Inl e"
  "rbind (Inr x) k = k x"
  by (simp_all add: rbind_def)

lemma rbind_Inr_iff [sr_inv]: "rbind r k = Inr y \<longleftrightarrow> (\<exists>x. r = Inr x \<and> k x = Inr y)"
  by (cases r) auto

lemma sreturn_iff [sr_inv]: "sreturn x s = (r, t) \<longleftrightarrow> r = Inr x \<and> t = s"
  by (auto simp: sreturn_def)

lemma sraise_iff [sr_inv]: "sraise e s = (r, t) \<longleftrightarrow> r = Inl e \<and> t = s"
  by (auto simp: sraise_def)

lemma slift_iff [sr_inv]: "slift q s = (r, t) \<longleftrightarrow> r = q \<and> t = s"
  by (auto simp: slift_def)

lemma sbind_Inr_iff [sr_inv]:
  "sbind m k s = (Inr y, t) \<longleftrightarrow> (\<exists>x s'. m s = (Inr x, s') \<and> k x s' = (Inr y, t))"
  by (auto simp: sbind_def split: prod.splits sum.splits)

lemma sbind_Inl_iff [sr_inv]:
  "sbind m k s = (Inl e, t) \<longleftrightarrow>
    m s = (Inl e, t) \<or> (\<exists>x s'. m s = (Inr x, s') \<and> k x s' = (Inl e, t))"
  by (auto simp: sbind_def split: prod.splits sum.splits)

lemma smap_err_Inr_iff [sr_inv]: "smap_err f m s = (Inr y, t) \<longleftrightarrow> m s = (Inr y, t)"
  by (auto simp: smap_err_def split: prod.splits sum.splits)

lemma smap_err_Inl_iff [sr_inv]:
  "smap_err f m s = (Inl e, t) \<longleftrightarrow> (\<exists>e'. e = f e' \<and> m s = (Inl e', t))"
  by (auto simp: smap_err_def split: prod.splits sum.splits)

lemma sbind_cong [fundef_cong]:
  assumes "m s = m' s'" and "\<And>x t. m' s' = (Inr x, t) \<Longrightarrow> k x t = k' x t"
  shows "sbind m k s = sbind m' k' s'"
  using assms by (auto simp: sbind_def split: prod.splits sum.splits)

lemma sbind_assoc: "sbind (sbind m f) g = sbind m (\<lambda>x. sbind (f x) g)"
  by (rule ext) (simp add: sbind_def split: prod.splits sum.splits)

text \<open>A loop over a collection that stops at the first error: \<open>for x in xs { f(x)?; }\<close>.\<close>

fun sfold :: "('a \<Rightarrow> 'b \<Rightarrow> ('s, 'e, 'b) sr) \<Rightarrow> 'a list \<Rightarrow> 'b \<Rightarrow> ('s, 'e, 'b) sr" where
  "sfold f [] acc = sreturn acc"
| "sfold f (x # xs) acc = sbind (f x acc) (\<lambda>acc'. sfold f xs acc')"

lemma sfold_append: "sfold f (xs @ ys) acc = sbind (sfold f xs acc) (sfold f ys)"
proof (induction xs arbitrary: acc)
  case Nil
  then show ?case by (simp add: fun_eq_iff sbind_def sreturn_def)
next
  case (Cons x xs)
  then have "sfold f (xs @ ys) = (\<lambda>acc. sbind (sfold f xs acc) (sfold f ys))" by (rule ext)
  then show ?case by (simp add: sbind_assoc)
qed

section \<open>Little-endian codecs\<close>

fun le_bytes :: "nat \<Rightarrow> nat \<Rightarrow> bytes" where
  "le_bytes 0 v = []"
| "le_bytes (Suc n) v = of_nat (v mod 256) # le_bytes n (v div 256)"

fun le_nat :: "bytes \<Rightarrow> nat" where
  "le_nat [] = 0"
| "le_nat (b # bs) = unat b + 256 * le_nat bs"

lemma length_le_bytes [simp]: "length (le_bytes n v) = n"
  by (induction n arbitrary: v) auto

lemma unat_of_nat_mod_byte [simp]: "unat (of_nat (v mod 256) :: byte) = v mod 256"
  by (simp add: unat_of_nat)

lemma unat_byte_less: "unat (b :: byte) < 256"
  using unat_less_exp [of b] by simp

lemma le_nat_le_bytes: "le_nat (le_bytes n v) = v mod 256 ^ n"
proof (induction n arbitrary: v)
  case 0
  then show ?case by simp
next
  case (Suc n)
  have "v mod (256 * 256 ^ n) = 256 * (v div 256 mod 256 ^ n) + v mod 256"
    by (rule mod_mult2_eq)
  with Suc show ?case by simp
qed

lemma le_bytes_le_nat [simp]: "le_bytes (length bs) (le_nat bs) = bs"
proof (induction bs)
  case (Cons b bs)
  have "(unat b + 256 * le_nat bs) mod 256 = unat b"
    and "(unat b + 256 * le_nat bs) div 256 = le_nat bs"
    using unat_byte_less [of b] by (simp_all add: mod_mult_self2)
  with Cons show ?case by simp
qed simp

lemma le_nat_less: "le_nat bs < 256 ^ length bs"
proof (induction bs)
  case (Cons b bs)
  then have "Suc (le_nat bs) \<le> 256 ^ length bs" by simp
  then have "256 * Suc (le_nat bs) \<le> 256 * 256 ^ length bs" by (rule mult_le_mono2)
  then have "256 + 256 * le_nat bs \<le> 256 * 256 ^ length bs" by simp
  moreover have "unat b < 256" by (rule unat_byte_less)
  ultimately show ?case unfolding le_nat.simps length_Cons power_Suc by linarith
qed simp

text \<open>\<open>to_le_bytes\<close> and \<open>from_le_bytes(slice.try_into().ok()?)\<close> at the three widths.\<close>

definition u16_le :: "u16 \<Rightarrow> bytes" where "u16_le w = le_bytes 2 (unat w)"
definition u32_le :: "u32 \<Rightarrow> bytes" where "u32_le w = le_bytes 4 (unat w)"
definition u64_le :: "u64 \<Rightarrow> bytes" where "u64_le w = le_bytes 8 (unat w)"

lemma length_uN_le [simp]:
  "length (u16_le a) = 2" "length (u32_le b) = 4" "length (u64_le c) = 8"
  by (simp_all add: u16_le_def u32_le_def u64_le_def)

lemma of_nat_le_nat_uN [simp]:
  "of_nat (le_nat (u16_le a)) = a"
  "of_nat (le_nat (u32_le b)) = b"
  "of_nat (le_nat (u64_le c)) = c"
  using unat_less_exp [of a] unat_less_exp [of b] unat_less_exp [of c]
  by (simp_all add: u16_le_def u32_le_def u64_le_def le_nat_le_bytes)

lemma uN_le_of_nat:
  "length bs = 2 \<Longrightarrow> u16_le (of_nat (le_nat bs)) = bs"
  "length bs = 4 \<Longrightarrow> u32_le (of_nat (le_nat bs)) = bs"
  "length bs = 8 \<Longrightarrow> u64_le (of_nat (le_nat bs)) = bs"
  using le_nat_less [of bs] le_bytes_le_nat [of bs]
  by (simp_all add: u16_le_def u32_le_def u64_le_def unat_of_nat)

section \<open>Slices\<close>

text \<open>\<open>iter().position(p)\<close> and \<open>iter().rposition(p)\<close>.\<close>

fun position :: "('a \<Rightarrow> bool) \<Rightarrow> 'a list \<Rightarrow> nat option" where
  "position p [] = None"
| "position p (x # xs) = (if p x then Some 0 else map_option Suc (position p xs))"

definition rposition :: "('a \<Rightarrow> bool) \<Rightarrow> 'a list \<Rightarrow> nat option" where
  "rposition p xs = map_option (\<lambda>i. length xs - 1 - i) (position p (rev xs))"

lemma position_None_iff [simp]: "position p xs = None \<longleftrightarrow> (\<forall>x\<in>set xs. \<not> p x)"
  by (induction xs) auto

lemma position_Some_iff:
  "position p xs = Some i \<longleftrightarrow> i < length xs \<and> p (xs ! i) \<and> (\<forall>j<i. \<not> p (xs ! j))"
proof (induction xs arbitrary: i)
  case (Cons x xs)
  show ?case
    by (cases i) (auto simp: Cons.IH less_Suc_eq_0_disj nth_Cons split: nat.splits)
qed simp

lemma position_Some_less: "position p xs = Some i \<Longrightarrow> i < length xs"
  by (simp add: position_Some_iff)

lemma position_takeWhile: "position p xs = Some i \<Longrightarrow> take i xs = takeWhile (\<lambda>x. \<not> p x) xs"
  by (induction xs arbitrary: i) (auto split: if_splits)

text \<open>\<open>strip_prefix\<close> and \<open>starts_with\<close> (the library's \<open>prefix\<close>).\<close>

definition strip_prefix :: "'a list \<Rightarrow> 'a list \<Rightarrow> 'a list option" where
  "strip_prefix p xs = (if prefix p xs then Some (drop (length p) xs) else None)"

lemma strip_prefix_Some_iff: "strip_prefix p xs = Some r \<longleftrightarrow> xs = p @ r"
  by (auto simp: strip_prefix_def prefix_def)

text \<open>\<open>slice.split(|b| b == c)\<close>: the maximal runs between separators.\<close>

fun split_on :: "'a \<Rightarrow> 'a list \<Rightarrow> 'a list list" where
  "split_on c [] = [[]]"
| "split_on c (x # xs) =
    (if x = c then [] # split_on c xs
     else (x # hd (split_on c xs)) # tl (split_on c xs))"

fun join_with :: "'a \<Rightarrow> 'a list list \<Rightarrow> 'a list" where
  "join_with c [] = []"
| "join_with c [s] = s"
| "join_with c (s # t # ss) = s @ c # join_with c (t # ss)"

lemma split_on_not_Nil [simp]: "split_on c xs \<noteq> []"
  by (cases xs) auto

lemma split_on_eq_Cons: "split_on c xs = hd (split_on c xs) # tl (split_on c xs)"
  by simp

lemma join_with_Cons_ne: "ss \<noteq> [] \<Longrightarrow> join_with c (s # ss) = s @ c # join_with c ss"
  by (cases ss) auto

lemma join_with_hd: "ss \<noteq> [] \<Longrightarrow> join_with c ((x # hd ss) # tl ss) = x # join_with c ss"
  by (cases ss; cases "tl ss") auto

lemma join_split_on [simp]: "join_with c (split_on c xs) = xs"
  by (induction xs) (simp_all add: join_with_Cons_ne join_with_hd)

lemma split_on_no_sep: "s \<in> set (split_on c xs) \<Longrightarrow> c \<notin> set s"
proof (induction xs arbitrary: s)
  case (Cons x xs)
  from Cons.IH [of "hd (split_on c xs)"] have "c \<notin> set (hd (split_on c xs))" by simp
  moreover have "t \<in> set (tl (split_on c xs)) \<Longrightarrow> c \<notin> set t" for t
    by (rule Cons.IH) (metis list.set_sel(2) split_on_not_Nil)
  ultimately show ?case using Cons by (auto split: if_splits)
qed simp

lemma split_on_append: "c \<notin> set xs \<Longrightarrow> split_on c (xs @ c # ys) = xs # split_on c ys"
  by (induction xs) auto

lemma split_on_single: "c \<notin> set xs \<Longrightarrow> split_on c xs = [xs]"
  by (induction xs) auto

lemma split_join_with:
  "ss \<noteq> [] \<Longrightarrow> \<forall>s\<in>set ss. c \<notin> set s \<Longrightarrow> split_on c (join_with c ss) = ss"
  by (induction c ss rule: join_with.induct) (simp_all add: split_on_append split_on_single)

lemma length_split_on_le: "length (split_on c xs) \<le> Suc (length xs)"
  by (induction xs) (auto simp: Suc_le_eq)


section \<open>Text: UTF-8 validity and integer parsing\<close>

text \<open>
  \<open>std::str::from_utf8(b).is_ok()\<close>: well-formed UTF-8 without overlong forms,
  surrogates or values above \<open>10FFFF\<close>.
\<close>

definition utf8_cont :: "byte \<Rightarrow> bool" where
  "utf8_cont b \<longleftrightarrow> 128 \<le> unat b \<and> unat b < 192"

fun utf8_valid :: "bytes \<Rightarrow> bool" where
  "utf8_valid [] = True"
| "utf8_valid (a # r) =
    (let n = unat a in
     if n < 128 then utf8_valid r
     else if 194 \<le> n \<and> n \<le> 223 then
       (case r of b # r' \<Rightarrow> utf8_cont b \<and> utf8_valid r' | _ \<Rightarrow> False)
     else if 224 \<le> n \<and> n \<le> 239 then
       (case r of b # c # r' \<Rightarrow>
          utf8_cont b \<and> utf8_cont c \<and> (n = 224 \<longrightarrow> 160 \<le> unat b) \<and> (n = 237 \<longrightarrow> unat b < 160)
          \<and> utf8_valid r'
        | _ \<Rightarrow> False)
     else if 240 \<le> n \<and> n \<le> 244 then
       (case r of b # c # d # r' \<Rightarrow>
          utf8_cont b \<and> utf8_cont c \<and> utf8_cont d \<and> (n = 240 \<longrightarrow> 144 \<le> unat b)
          \<and> (n = 244 \<longrightarrow> unat b < 144) \<and> utf8_valid r'
        | _ \<Rightarrow> False)
     else False)"

lemma utf8_valid_ascii: "\<forall>b\<in>set bs. unat b < 128 \<Longrightarrow> utf8_valid bs"
  by (induction bs) (auto simp: Let_def)

text \<open>\<open>str::parse::<i64>\<close>: an optional sign, then decimal digits in range.\<close>

definition is_digit :: "byte \<Rightarrow> bool" where
  "is_digit b \<longleftrightarrow> 48 \<le> unat b \<and> unat b \<le> 57"

fun digits_value :: "nat \<Rightarrow> bytes \<Rightarrow> nat option" where
  "digits_value acc [] = Some acc"
| "digits_value acc (b # bs) =
    (if is_digit b then digits_value (10 * acc + (unat b - 48)) bs else None)"

definition parse_i64 :: "bytes \<Rightarrow> int option" where
  "parse_i64 bs =
    (let (neg, ds) = (case bs of b # r \<Rightarrow> if b = 45 then (True, r) else if b = 43 then (False, r)
                        else (False, bs) | [] \<Rightarrow> (False, []))
     in if ds = [] then None
        else (case digits_value 0 ds of None \<Rightarrow> None
              | Some n \<Rightarrow> let v = (if neg then - int n else int n)
                 in if - (2 ^ 63) \<le> v \<and> v < 2 ^ 63 then Some v else None))"

lemma parse_i64_range: "parse_i64 bs = Some v \<Longrightarrow> - (2 ^ 63) \<le> v \<and> v < 2 ^ 63"
  by (auto simp: parse_i64_def Let_def split: prod.splits if_splits option.splits list.splits)

text \<open>\<open>chunks\<close> of a slice.\<close>

function chunks :: "nat \<Rightarrow> 'a list \<Rightarrow> 'a list list" where
  "chunks n xs = (if xs = [] \<or> n = 0 then [] else take n xs # chunks n (drop n xs))"
  by pat_completeness auto
termination
  by (relation "measure (\<lambda>(n, xs). length xs)") auto

declare chunks.simps [simp del]

lemma concat_chunks: "0 < n \<Longrightarrow> concat (chunks n xs) = xs"
  by (induction n xs rule: chunks.induct) (subst chunks.simps, auto)

end
