(* ===== verification/Errors.thy ===== *)
theory Errors
  imports Prelude
begin

text \<open>
  The normalized error contract of \<open>error.rs\<close>: the stable codes with their names,
  the error value with its focused constructors, and the two identity types of
  \<open>object.rs\<close> (hash algorithm and object ID) that an error value carries. The
  operations on object IDs are in the theory \<open>Objects\<close>.
\<close>

section \<open>Identity types\<close>

datatype hash_kind = Sha1 | Sha256

text \<open>
  \<open>Oid { kind, bytes: [u8; 32] }\<close>. A single-constructor datatype rather than a record,
  so that the derived \<open>Ord\<close> of the source is an instance of the library's order class.
\<close>

datatype oid = Oid (oid_kind: hash_kind) (oid_raw: bytes)

instantiation hash_kind :: linorder
begin

definition less_eq_hash_kind :: "hash_kind \<Rightarrow> hash_kind \<Rightarrow> bool" where
  "less_eq_hash_kind a b \<longleftrightarrow> a = Sha1 \<or> b = Sha256"

definition less_hash_kind :: "hash_kind \<Rightarrow> hash_kind \<Rightarrow> bool" where
  "less_hash_kind a b \<longleftrightarrow> a = Sha1 \<and> b = Sha256"

instance
proof
  fix x y z :: hash_kind
  show "x < y \<longleftrightarrow> x \<le> y \<and> \<not> y \<le> x" "x \<le> x" "x \<le> y \<or> y \<le> x"
    by (cases x; cases y; simp add: less_eq_hash_kind_def less_hash_kind_def)+
  show "x \<le> y \<Longrightarrow> y \<le> z \<Longrightarrow> x \<le> z" "x \<le> y \<Longrightarrow> y \<le> x \<Longrightarrow> x = y"
    by (cases x; cases y; cases z; simp add: less_eq_hash_kind_def)+
qed

end

instantiation oid :: linorder
begin

definition less_eq_oid :: "oid \<Rightarrow> oid \<Rightarrow> bool" where
  "less_eq_oid a b \<longleftrightarrow> oid_kind a < oid_kind b \<or> oid_kind a = oid_kind b \<and> oid_raw a \<le> oid_raw b"

definition less_oid :: "oid \<Rightarrow> oid \<Rightarrow> bool" where
  "less_oid a b \<longleftrightarrow> oid_kind a < oid_kind b \<or> oid_kind a = oid_kind b \<and> oid_raw a < oid_raw b"

instance
  by standard (auto simp: less_eq_oid_def less_oid_def intro: oid.expand)

end

section \<open>Error codes\<close>

datatype error_code =
    InvalidArgument | InvalidOid | InvalidPath | InvalidCursor | UnsupportedHash
  | UnsupportedOperation | UnsupportedRegex | NotACommit | NotATree | NotABlob | RefNotFound
  | AmbiguousPrefix | NotFound | MissingObject | ShallowBoundary | MalformedObject
  | MalformedBundle | MalformedRef | HashMismatch | PackChecksumMismatch
  | IndexChecksumMismatch | ObjectTooLarge | BudgetExceeded | ResultTooLarge | Timeout
  | AwaitTimeout | Cancelled | Busy | Conflict | AuthenticationFailed | NetworkError
  | CleanupFailed | CredentialsUnavailable | ProviderDown | ProviderTimeout
  | ProviderProtocolError | BackendError | RuntimeMismatch | InternalError

text \<open>\<open>ErrorCode::all\<close>, in the order of the public list.\<close>

definition all_error_codes :: "error_code list" where
  "all_error_codes =
    [InvalidArgument, InvalidOid, InvalidPath, InvalidCursor, UnsupportedHash,
     UnsupportedOperation, UnsupportedRegex, NotACommit, NotATree, NotABlob,
     RefNotFound, AmbiguousPrefix, NotFound, MissingObject, ShallowBoundary,
     MalformedObject, MalformedBundle, MalformedRef, HashMismatch,
     PackChecksumMismatch, IndexChecksumMismatch, ObjectTooLarge, BudgetExceeded,
     ResultTooLarge, Timeout, AwaitTimeout, Cancelled, Busy, Conflict,
     AuthenticationFailed, NetworkError, CleanupFailed, CredentialsUnavailable,
     ProviderDown, ProviderTimeout, ProviderProtocolError, BackendError,
     RuntimeMismatch, InternalError]"

text \<open>\<open>ErrorCode::as_str\<close>.\<close>

fun code_as_str :: "error_code \<Rightarrow> string" where
  "code_as_str InvalidArgument = ''invalid_argument''"
| "code_as_str InvalidOid = ''invalid_oid''"
| "code_as_str InvalidPath = ''invalid_path''"
| "code_as_str InvalidCursor = ''invalid_cursor''"
| "code_as_str UnsupportedHash = ''unsupported_hash''"
| "code_as_str UnsupportedOperation = ''unsupported_operation''"
| "code_as_str UnsupportedRegex = ''unsupported_regex''"
| "code_as_str NotACommit = ''not_a_commit''"
| "code_as_str NotATree = ''not_a_tree''"
| "code_as_str NotABlob = ''not_a_blob''"
| "code_as_str RefNotFound = ''ref_not_found''"
| "code_as_str AmbiguousPrefix = ''ambiguous_prefix''"
| "code_as_str NotFound = ''not_found''"
| "code_as_str MissingObject = ''missing_object''"
| "code_as_str ShallowBoundary = ''shallow_boundary''"
| "code_as_str MalformedObject = ''malformed_object''"
| "code_as_str MalformedBundle = ''malformed_bundle''"
| "code_as_str MalformedRef = ''malformed_ref''"
| "code_as_str HashMismatch = ''hash_mismatch''"
| "code_as_str PackChecksumMismatch = ''pack_checksum_mismatch''"
| "code_as_str IndexChecksumMismatch = ''index_checksum_mismatch''"
| "code_as_str ObjectTooLarge = ''object_too_large''"
| "code_as_str BudgetExceeded = ''budget_exceeded''"
| "code_as_str ResultTooLarge = ''result_too_large''"
| "code_as_str Timeout = ''timeout''"
| "code_as_str AwaitTimeout = ''await_timeout''"
| "code_as_str Cancelled = ''cancelled''"
| "code_as_str Busy = ''busy''"
| "code_as_str Conflict = ''conflict''"
| "code_as_str AuthenticationFailed = ''authentication_failed''"
| "code_as_str NetworkError = ''network_error''"
| "code_as_str CleanupFailed = ''cleanup_failed''"
| "code_as_str CredentialsUnavailable = ''credentials_unavailable''"
| "code_as_str ProviderDown = ''provider_down''"
| "code_as_str ProviderTimeout = ''provider_timeout''"
| "code_as_str ProviderProtocolError = ''provider_protocol_error''"
| "code_as_str BackendError = ''backend_error''"
| "code_as_str RuntimeMismatch = ''runtime_mismatch''"
| "code_as_str InternalError = ''internal_error''"

lemma set_all_error_codes: "set all_error_codes = UNIV"
proof -
  have "c \<in> set all_error_codes" for c
    by (cases c) (simp_all add: all_error_codes_def)
  then show ?thesis by blast
qed

lemma distinct_code_names: "distinct (map code_as_str all_error_codes)"
  by (simp add: all_error_codes_def)

section \<open>Error values\<close>

datatype error_order = OrdTopological | OrdDate

fun order_as_str :: "error_order \<Rightarrow> string" where
  "order_as_str OrdTopological = ''topological''"
| "order_as_str OrdDate = ''date''"

datatype error_file = Shallow | Gitmodules

fun file_as_str :: "error_file \<Rightarrow> string" where
  "file_as_str Shallow = ''shallow''"
| "file_as_str Gitmodules = ''.gitmodules''"

datatype error_line = LineCount u32 | LineSource u32

record error =
  err_code :: error_code
  err_message :: string
  err_retryable :: bool
  err_limit :: "string option"
  err_layer :: "u64 option"
  err_object_oid :: "oid option"
  err_order :: "error_order option"
  err_file :: "error_file option"
  err_reason :: "string option"
  err_line :: "error_line option"

definition err_new :: "error_code \<Rightarrow> string \<Rightarrow> error" where
  "err_new c m = \<lparr>err_code = c, err_message = m, err_retryable = False, err_limit = None,
    err_layer = None, err_object_oid = None, err_order = None, err_file = None,
    err_reason = None, err_line = None\<rparr>"

definition err_retry :: "error_code \<Rightarrow> string \<Rightarrow> error" where
  "err_retry c m = \<lparr>err_code = c, err_message = m, err_retryable = True, err_limit = None,
    err_layer = None, err_object_oid = None, err_order = None, err_file = None,
    err_reason = None, err_line = None\<rparr>"

definition with_limit :: "string \<Rightarrow> error \<Rightarrow> error" where
  "with_limit l e = e\<lparr>err_limit := Some l\<rparr>"

definition with_layer :: "nat \<Rightarrow> error \<Rightarrow> error" where
  "with_layer i e = e\<lparr>err_layer := Some (of_nat i)\<rparr>"

definition with_oid :: "oid \<Rightarrow> error \<Rightarrow> error" where
  "with_oid x e = e\<lparr>err_object_oid := Some x\<rparr>"

definition with_oid_if_none :: "oid \<Rightarrow> error \<Rightarrow> error" where
  "with_oid_if_none x e =
    (case err_object_oid e of None \<Rightarrow> e\<lparr>err_object_oid := Some x\<rparr> | Some _ \<Rightarrow> e)"

definition with_order :: "error_order \<Rightarrow> error \<Rightarrow> error" where
  "with_order r e = e\<lparr>err_order := Some r\<rparr>"

definition with_file :: "error_file \<Rightarrow> error \<Rightarrow> error" where
  "with_file f e = e\<lparr>err_file := Some f\<rparr>"

definition with_reason :: "string \<Rightarrow> error \<Rightarrow> error" where
  "with_reason r e = e\<lparr>err_reason := Some r\<rparr>"

definition with_line_count :: "u32 \<Rightarrow> error \<Rightarrow> error" where
  "with_line_count n e = e\<lparr>err_line := Some (LineCount n)\<rparr>"

definition line_count_of :: "error \<Rightarrow> u32 option" where
  "line_count_of e = (case err_line e of Some (LineCount n) \<Rightarrow> Some n | _ \<Rightarrow> None)"

definition with_line :: "u32 \<Rightarrow> error \<Rightarrow> error" where
  "with_line n e = e\<lparr>err_line := Some (LineSource n)\<rparr>"

definition line_of :: "error \<Rightarrow> u32 option" where
  "line_of e = (case err_line e of Some (LineSource n) \<Rightarrow> Some n | _ \<Rightarrow> None)"

text \<open>\<open>Display for Error\<close>.\<close>

definition show_error :: "error \<Rightarrow> string" where
  "show_error e = err_message e @ '' ('' @ code_as_str (err_code e) @ '')''"

lemma err_new_sel [simp]:
  "err_code (err_new c m) = c"
  "err_message (err_new c m) = m"
  "err_retryable (err_new c m) = False"
  "err_limit (err_new c m) = None"
  "err_layer (err_new c m) = None"
  "err_object_oid (err_new c m) = None"
  "err_file (err_new c m) = None"
  "err_reason (err_new c m) = None"
  "err_line (err_new c m) = None"
  by (simp_all add: err_new_def)

lemma err_retry_sel [simp]:
  "err_code (err_retry c m) = c"
  "err_retryable (err_retry c m) = True"
  "err_object_oid (err_retry c m) = None"
  by (simp_all add: err_retry_def)

text \<open>No decoration changes the code of an error.\<close>

lemma err_code_with [simp]:
  "err_code (with_limit l e) = err_code e"
  "err_code (with_layer i e) = err_code e"
  "err_code (with_oid x e) = err_code e"
  "err_code (with_oid_if_none x e) = err_code e"
  "err_code (with_order r e) = err_code e"
  "err_code (with_file f e) = err_code e"
  "err_code (with_reason s e) = err_code e"
  "err_code (with_line_count n e) = err_code e"
  "err_code (with_line n e) = err_code e"
  by (simp_all add: with_limit_def with_layer_def with_oid_def with_oid_if_none_def
      with_order_def with_file_def with_reason_def with_line_count_def with_line_def
      split: option.split)

lemma err_limit_with [simp]:
  "err_limit (with_limit l e) = Some l"
  "err_limit (with_layer i e) = err_limit e"
  "err_limit (with_oid x e) = err_limit e"
  "err_limit (with_oid_if_none x e) = err_limit e"
  by (simp_all add: with_limit_def with_layer_def with_oid_def with_oid_if_none_def
      split: option.split)

lemma line_with_line [simp]:
  "line_of (with_line n e) = Some n" "line_count_of (with_line n e) = None"
  "line_count_of (with_line_count n e) = Some n" "line_of (with_line_count n e) = None"
  by (simp_all add: line_of_def line_count_of_def with_line_def with_line_count_def)

end
