(* ===== verification/Objects.thy ===== *)
theory Objects
  imports Errors
begin

text \<open>
  Object identity (\<open>object.rs\<close>) and independent object verification
  (\<open>verify.rs\<close>): hash algorithms and digests, hexadecimal parsing and printing of
  object IDs, object kinds and headers, and the content hash of
  \<open><type> <size>\0<payload>\<close>. The digest functions themselves belong to the crates
  \<open>sha1-checked\<close> and \<open>sha2\<close> and are a parameter.
\<close>

unbundle bit_operations_syntax

section \<open>Object IDs\<close>

fun digest_len :: "hash_kind \<Rightarrow> nat" where
  "digest_len Sha1 = 20"
| "digest_len Sha256 = 32"

definition MAX_DIGEST_LEN :: nat where
  "MAX_DIGEST_LEN = 32"

lemma digest_len_le [simp]: "digest_len k \<le> MAX_DIGEST_LEN"
  by (cases k) (simp_all add: MAX_DIGEST_LEN_def)

lemma digest_len_pos [simp]: "0 < digest_len k"
  by (cases k) simp_all

text \<open>The \<open>Debug\<close> rendering of the algorithm.\<close>

fun show_hash_kind :: "hash_kind \<Rightarrow> string" where
  "show_hash_kind Sha1 = ''Sha1''"
| "show_hash_kind Sha256 = ''Sha256''"

definition oid_new :: "hash_kind \<Rightarrow> bytes \<Rightarrow> error + oid" where
  "oid_new k d =
    (if length d \<noteq> digest_len k
     then Inl (err_new InvalidOid (show_hash_kind k @ '' digest must be '' @ show_nat (digest_len k)
            @ '' bytes, got '' @ show_nat (length d)))
     else Inr (Oid k (d @ replicate (MAX_DIGEST_LEN - length d) 0)))"

definition hex_val :: "byte \<Rightarrow> error + byte" where
  "hex_val c =
    (if 48 \<le> c \<and> c \<le> 57 then Inr (c - 48)
     else if 97 \<le> c \<and> c \<le> 102 then Inr (c - 97 + 10)
     else if 65 \<le> c \<and> c \<le> 70 then Inr (c - 65 + 10)
     else Inl (err_new InvalidOid ''object ID contains a non-hex character''))"

text \<open>The loop of \<open>parse_hex\<close> over \<open>chunks_exact(2)\<close>.\<close>

fun parse_hex_pairs :: "bytes \<Rightarrow> error + bytes" where
  "parse_hex_pairs (a # b # r) =
    rbind (hex_val a) (\<lambda>hi. rbind (hex_val b) (\<lambda>lo.
      rbind (parse_hex_pairs r) (\<lambda>d. Inr ((push_bit 4 hi OR lo) # d))))"
| "parse_hex_pairs _ = Inr []"

definition parse_hex :: "string \<Rightarrow> error + oid" where
  "parse_hex hex =
    (if length hex = 40 then rbind (parse_hex_pairs (ascii hex)) (oid_new Sha1)
     else if length hex = 64 then rbind (parse_hex_pairs (ascii hex)) (oid_new Sha256)
     else Inl (err_new InvalidOid ''expected a full 40- or 64-character hex object ID''))"

definition as_bytes :: "oid \<Rightarrow> bytes" where
  "as_bytes x = take (digest_len (oid_kind x)) (oid_raw x)"

definition hex_char :: "byte \<Rightarrow> char" where
  "hex_char d = (if unat d < 10 then char_of (48 + unat d) else char_of (87 + unat d))"

definition to_hex :: "oid \<Rightarrow> string" where
  "to_hex x = concat (map (\<lambda>b. [hex_char (drop_bit 4 b), hex_char (b AND 15)]) (as_bytes x))"

text \<open>What every ID built by \<open>Oid::new\<close> satisfies: 32 bytes, zero beyond the digest.\<close>

definition oid_wf :: "oid \<Rightarrow> bool" where
  "oid_wf x \<longleftrightarrow> length (oid_raw x) = MAX_DIGEST_LEN
    \<and> drop (digest_len (oid_kind x)) (oid_raw x)
        = replicate (MAX_DIGEST_LEN - digest_len (oid_kind x)) 0"

lemma oid_new_Inr_iff:
  "oid_new k d = Inr x \<longleftrightarrow>
    length d = digest_len k \<and> x = Oid k (d @ replicate (MAX_DIGEST_LEN - digest_len k) 0)"
  by (auto simp: oid_new_def)

lemma oid_new_wf: "oid_new k d = Inr x \<Longrightarrow> oid_wf x \<and> oid_kind x = k \<and> as_bytes x = d"
  by (auto simp: oid_new_Inr_iff oid_wf_def as_bytes_def)

lemma oid_new_as_bytes: "oid_wf x \<Longrightarrow> oid_new (oid_kind x) (as_bytes x) = Inr x"
  using append_take_drop_id [of "digest_len (oid_kind x)" "oid_raw x"]
  by (cases x) (simp add: oid_new_Inr_iff oid_wf_def as_bytes_def)

lemma length_as_bytes: "oid_wf x \<Longrightarrow> length (as_bytes x) = digest_len (oid_kind x)"
  by (simp add: oid_wf_def as_bytes_def)

lemma as_bytes_inj:
  "oid_wf x \<Longrightarrow> oid_wf y \<Longrightarrow> oid_kind x = oid_kind y \<Longrightarrow> as_bytes x = as_bytes y \<Longrightarrow> x = y"
  by (metis oid_new_as_bytes sum.inject(2))


subsection \<open>Hexadecimal round trips\<close>

lemma of_char_char_of_byte: "n < 256 \<Longrightarrow> (of_char (char_of n) :: byte) = of_nat n"
  using of_nat_of_char [of "char_of n", where ?'a = "8 word"] by (simp add: of_char_of)

lemma hex_val_hex_char: "unat d < 16 \<Longrightarrow> hex_val (of_char (hex_char d)) = Inr d"
proof (cases "unat d < 10")
  case True
  then have "of_char (hex_char d) = 48 + d"
    by (simp add: hex_char_def of_char_char_of_byte)
  moreover have "unat (48 + d) = 48 + unat d" using True by (simp add: unat_word_ariths)
  ultimately show ?thesis using True by (simp add: hex_val_def word_le_nat_alt)
next
  case False
  assume *: "unat d < 16"
  with False have "of_char (hex_char d) = 87 + d"
    by (simp add: hex_char_def of_char_char_of_byte)
  moreover have "unat (87 + d) = 87 + unat d" using * by (simp add: unat_word_ariths)
  ultimately show ?thesis using * False by (simp add: hex_val_def word_le_nat_alt)
qed

lemma byte_nibbles: "push_bit 4 (drop_bit 4 b) OR (b AND 15) = b" for b :: byte
proof -
  have *: "(15 :: byte) = mask 4" by (simp add: mask_eq_exp_minus_1)
  show ?thesis unfolding *
    by (intro bit_word_eqI) (auto simp: bit_simps)
qed

lemma nibble_bounds: "unat (drop_bit 4 b) < 16" "unat (b AND 15) < 16" for b :: byte
proof -
  show "unat (drop_bit 4 b) < 16"
    using unat_byte_less [of b] by (simp add: drop_bit_eq_div unat_div)
  have "unat (b AND 15) \<le> unat (15 :: byte)"
    by (rule word_and_le1 [THEN word_le_nat_alt [THEN iffD1]])
  then show "unat (b AND 15) < 16" by simp
qed

lemma parse_hex_pairs_printed:
  "parse_hex_pairs (ascii (concat (map (\<lambda>b. [hex_char (drop_bit 4 b), hex_char (b AND 15)]) ds)))
    = Inr ds"
  by (induction ds) (simp_all add: hex_val_hex_char nibble_bounds byte_nibbles)

lemma length_to_hex: "oid_wf x \<Longrightarrow> length (to_hex x) = 2 * digest_len (oid_kind x)"
  using length_as_bytes [of x]
  by (simp add: to_hex_def length_concat comp_def sum_list_triv)

lemma parse_hex_to_hex: "oid_wf x \<Longrightarrow> parse_hex (to_hex x) = Inr x"
  using length_to_hex [of x] oid_new_as_bytes [of x] parse_hex_pairs_printed [of "as_bytes x"]
  by (cases "oid_kind x") (simp_all add: parse_hex_def to_hex_def)

text \<open>ASCII lower-casing of a hexadecimal digit, for the converse direction.\<close>

definition lower_char :: "char \<Rightarrow> char" where
  "lower_char c = (if 65 \<le> (of_char c :: byte) \<and> (of_char c :: byte) \<le> 90
     then char_of (of_char c + 32 :: nat) else c)"

lemma hex_val_Inr:
  assumes "hex_val (of_char c) = Inr d"
  shows "unat d < 16 \<and> hex_char d = lower_char c"
proof -
  define n where "n = (of_char c :: nat)"
  have n: "n < 256" and c: "c = char_of n" and b: "unat (of_char c :: byte) = n"
    unfolding n_def using of_nat_of_char [of c, where ?'a = "8 word"]
    by (simp_all add: of_char_of unat_of_nat flip: of_nat_of_char [where ?'a = "8 word"])
  consider "48 \<le> n" "n \<le> 57" "d = of_char c - 48" | "97 \<le> n" "n \<le> 102" "d = of_char c - 97 + 10"
    | "65 \<le> n" "n \<le> 70" "d = of_char c - 65 + 10"
    using assms b by (auto simp: hex_val_def word_le_nat_alt split: if_splits)
  then show ?thesis
  proof cases
    case 1
    then have "unat d = n - 48" using b by (simp add: unat_sub word_le_nat_alt)
    with 1 b show ?thesis by (simp add: hex_char_def lower_char_def word_le_nat_alt c)
  next
    case 2
    then have "unat d = n - 97 + 10"
      using b by (simp add: unat_word_ariths unat_sub word_le_nat_alt)
    with 2 b show ?thesis by (simp add: hex_char_def lower_char_def word_le_nat_alt c) arith
  next
    case 3
    then have "unat d = n - 65 + 10"
      using b by (simp add: unat_word_ariths unat_sub word_le_nat_alt)
    with 3 b n show ?thesis
      by (simp add: hex_char_def lower_char_def word_le_nat_alt n_def [symmetric]) arith
  qed
qed


lemma nibbles_of_pair:
  fixes hi lo :: byte
  assumes "unat hi < 16" and "unat lo < 16"
  shows "drop_bit 4 (push_bit 4 hi OR lo) = hi" and "(push_bit 4 hi OR lo) AND 15 = lo"
proof -
  have small: "\<not> bit w n" if "unat w < 16" "4 \<le> n" for w :: byte and n
  proof -
    from that(1) have "take_bit 4 w = w" by (simp add: take_bit_eq_mod word_unat_eq_iff unat_mod)
    with that(2) show ?thesis by (metis bit_take_bit_iff not_less)
  qed
  show "drop_bit 4 (push_bit 4 hi OR lo) = hi"
    using small [OF assms(1)] small [OF assms(2)]
    by (intro bit_word_eqI) (auto simp: bit_simps, meson not_le)
  have *: "(15 :: byte) = mask 4" by (simp add: mask_eq_exp_minus_1)
  show "(push_bit 4 hi OR lo) AND 15 = lo"
    unfolding * using small [OF assms(2)]
    by (intro bit_word_eqI) (auto simp: bit_simps, meson not_le)
qed

lemma parse_hex_pairs_Inr:
  assumes "parse_hex_pairs (ascii s) = Inr ds" and "even (length s)"
  shows "length s = 2 * length ds
    \<and> concat (map (\<lambda>b. [hex_char (drop_bit 4 b), hex_char (b AND 15)]) ds) = map lower_char s"
  using assms
proof (induction s arbitrary: ds rule: induct_list012)
  case (3 a b s)
  from "3.prems" obtain hi lo d where "hex_val (of_char a) = Inr hi" "hex_val (of_char b) = Inr lo"
    "parse_hex_pairs (ascii s) = Inr d" "ds = (push_bit 4 hi OR lo) # d"
    by (auto simp: rbind_Inr_iff)
  with "3.IH" "3.prems" show ?case
    by (simp add: nibbles_of_pair hex_val_Inr del: drop_bit_or)
qed auto

lemma to_hex_parse_hex:
  assumes "parse_hex s = Inr x"
  shows "oid_wf x \<and> to_hex x = map lower_char s"
proof -
  from assms obtain ds where ds: "parse_hex_pairs (ascii s) = Inr ds"
    and new: "oid_new (oid_kind x) ds = Inr x" and even: "even (length s)"
    by (auto simp: parse_hex_def rbind_Inr_iff oid_new_Inr_iff split: if_splits)
  from parse_hex_pairs_Inr [OF ds even] oid_new_wf [OF new] show ?thesis
    by (simp add: to_hex_def)
qed

section \<open>Object kinds and headers\<close>

datatype object_kind = Commit | Tree | Blob | Tag

fun object_kind_as_str :: "object_kind \<Rightarrow> string" where
  "object_kind_as_str Commit = ''commit''"
| "object_kind_as_str Tree = ''tree''"
| "object_kind_as_str Blob = ''blob''"
| "object_kind_as_str Tag = ''tag''"

record object_header =
  hdr_kind :: object_kind
  hdr_size :: u64

section \<open>Verification\<close>

text \<open>
  The digest functions: \<open>he_sha1\<close> is \<open>sha1_checked\<close> over the accumulated input,
  \<open>None\<close> when its collision detector fires; \<open>he_sha256\<close> is \<open>sha2::Sha256\<close>.
\<close>

record hash_engine =
  he_sha1 :: "bytes \<Rightarrow> bytes option"
  he_sha256 :: "bytes \<Rightarrow> bytes"

text \<open>\<open>ContentHasher\<close>: the algorithm and the input absorbed so far.\<close>

datatype content_hasher = ContentHasher hash_kind bytes

definition hasher_new :: "hash_kind \<Rightarrow> content_hasher" where
  "hasher_new k = ContentHasher k []"

fun hasher_update :: "content_hasher \<Rightarrow> bytes \<Rightarrow> content_hasher" where
  "hasher_update (ContentHasher k acc) bs = ContentHasher k (acc @ bs)"

fun hasher_finalize :: "hash_engine \<Rightarrow> content_hasher \<Rightarrow> error + oid" where
  "hasher_finalize H (ContentHasher Sha1 acc) =
    (case he_sha1 H acc of
       Some d \<Rightarrow> oid_new Sha1 d
     | None \<Rightarrow> Inl (err_new HashMismatch ''SHA-1 collision attack detected while hashing object data''))"
| "hasher_finalize H (ContentHasher Sha256 acc) = oid_new Sha256 (he_sha256 H acc)"

definition object_id :: "hash_engine \<Rightarrow> hash_kind \<Rightarrow> object_kind \<Rightarrow> bytes \<Rightarrow> error + oid" where
  "object_id H hk ok payload =
    (let h0 = hasher_new hk;
         h1 = hasher_update h0 (ascii (object_kind_as_str ok));
         h2 = hasher_update h1 (ascii '' '');
         h3 = hasher_update h2 (ascii (show_nat (length payload)));
         h4 = hasher_update h3 [0];
         h5 = hasher_update h4 payload
     in hasher_finalize H h5)"

definition verify :: "hash_engine \<Rightarrow> oid \<Rightarrow> object_kind \<Rightarrow> bytes \<Rightarrow> error + unit" where
  "verify H x ok payload =
    rbind (object_id H (oid_kind x) ok payload) (\<lambda>actual.
      if actual \<noteq> x
      then Inl (err_new HashMismatch (''object hash mismatch: expected '' @ to_hex x
              @ '', computed '' @ to_hex actual))
      else Inr ())"

lemma verify_Inr_iff: "verify H x k p = Inr () \<longleftrightarrow> object_id H (oid_kind x) k p = Inr x"
  by (auto simp: verify_def rbind_Inr_iff)

subsection \<open>The addressed bytes determine the object\<close>

text \<open>The exact bytes that are hashed, and that they determine kind and payload.\<close>

definition preimage :: "object_kind \<Rightarrow> bytes \<Rightarrow> bytes" where
  "preimage ok payload =
    ascii (object_kind_as_str ok) @ 32 # ascii (show_nat (length payload)) @ 0 # payload"

definition digest_of :: "hash_engine \<Rightarrow> hash_kind \<Rightarrow> bytes \<Rightarrow> bytes option" where
  "digest_of H hk bs = (case hk of Sha1 \<Rightarrow> he_sha1 H bs | Sha256 \<Rightarrow> Some (he_sha256 H bs))"

lemma object_id_Inr:
  "object_id H hk k p = Inr x \<Longrightarrow>
    \<exists>d. digest_of H hk (preimage k p) = Some d \<and> oid_new hk d = Inr x"
  by (cases hk) (auto simp: object_id_def hasher_new_def preimage_def digest_of_def
      split: option.splits)

lemma object_id_wf: "object_id H hk k p = Inr x \<Longrightarrow> oid_wf x \<and> oid_kind x = hk"
  by (auto dest!: object_id_Inr oid_new_wf)

lemma of_char_digit: "d < 10 \<Longrightarrow> (of_char (digit_char d) :: byte) = of_nat (48 + d)"
  by (simp add: digit_char_def of_char_char_of_byte)

lemma show_nat_no_nul: "(0::byte) \<notin> set (ascii (show_nat n))"
proof (induction n rule: show_nat.induct)
  case (1 n)
  have "(of_char (digit_char d) :: byte) \<noteq> 0" if "d < 10" for d
    using that by (simp add: of_char_digit word_unat_eq_iff unat_word_ariths unat_of_nat)
  then show ?case
    using 1 by (subst show_nat.simps) (auto simp: ascii_def image_iff)
qed

lemma kind_str_no_space: "(32::byte) \<notin> set (ascii (object_kind_as_str k))"
  by (cases k) simp_all

lemma object_kind_as_str_inj: "object_kind_as_str a = object_kind_as_str b \<Longrightarrow> a = b"
  by (cases a; cases b) simp_all

lemma append_sep_inj:
  assumes "xs @ c # ys = xs' @ c # ys'" and "c \<notin> set xs" and "c \<notin> set xs'"
  shows "xs = xs' \<and> ys = ys'"
proof -
  have "takeWhile (\<lambda>x. x \<noteq> c) (as @ c # bs) = as" if "c \<notin> set as" for as bs :: "'a list"
    using that by (induction as) auto
  with assms have "xs = xs'" by metis
  with assms show ?thesis by simp
qed

lemma inj_of_char_byte: "inj (of_char :: char \<Rightarrow> byte)"
proof (rule injI)
  fix c d assume "(of_char c :: byte) = of_char d"
  then have "(of_nat (of_char c) :: byte) = of_nat (of_char d)"
    by (simp only: of_nat_of_char)
  then have "unat (of_nat (of_char c) :: byte) = unat (of_nat (of_char d) :: byte)"
    by (rule arg_cong)
  then have "(of_char c :: nat) = of_char d"
    by (simp add: unat_of_nat del: of_nat_of_char)
  then show "c = d" by simp
qed

lemma ascii_inj: "ascii s = ascii t \<Longrightarrow> s = t"
  unfolding ascii_def by (rule map_injective [OF _ inj_of_char_byte])

lemma preimage_inj:
  assumes "preimage k p = preimage k' p'"
  shows "k = k' \<and> p = p'"
proof -
  let ?rest = "\<lambda>p. ascii (show_nat (length p)) @ (0::byte) # p"
  from assms have "ascii (object_kind_as_str k) @ 32 # ?rest p
      = ascii (object_kind_as_str k') @ 32 # ?rest p'"
    by (simp add: preimage_def)
  from append_sep_inj [OF this kind_str_no_space kind_str_no_space]
  have "k = k'" and "?rest p = ?rest p'"
    by (auto dest: ascii_inj object_kind_as_str_inj)
  with append_sep_inj [of _ "0::byte", OF _ show_nat_no_nul show_nat_no_nul] show ?thesis
    by blast
qed

lemma oid_new_inj: "oid_new hk d = Inr x \<Longrightarrow> oid_new hk d' = Inr x \<Longrightarrow> d = d'"
  by (drule oid_new_wf)+ auto

lemma verify_collision:
  assumes "verify H x k p = Inr ()" and "verify H x k' p' = Inr ()"
  shows "(k, p) = (k', p') \<or> (preimage k p \<noteq> preimage k' p'
    \<and> digest_of H (oid_kind x) (preimage k p) = digest_of H (oid_kind x) (preimage k' p')
    \<and> digest_of H (oid_kind x) (preimage k p) \<noteq> None)"
proof -
  from assms obtain d d' where d: "digest_of H (oid_kind x) (preimage k p) = Some d" "oid_new (oid_kind x) d = Inr x"
    "digest_of H (oid_kind x) (preimage k' p') = Some d'" "oid_new (oid_kind x) d' = Inr x"
    unfolding verify_Inr_iff by (metis object_id_Inr)
  with oid_new_inj preimage_inj [of k p k' p'] show ?thesis by auto
qed

section \<open>Properties\<close>

text \<open>
  Object names and their hexadecimal form correspond: printing a well-formed name and
  parsing the digits gives the name back for both hash kinds, and every accepted digit string
  is the printed name up to the case of its digits.
\<close>

theorem oid_hex_roundtrip:
  "(oid_wf x \<longrightarrow> parse_hex (to_hex x) = Inr x)
   \<and> (parse_hex s = Inr y \<longrightarrow> oid_wf y \<and> to_hex y = map lower_char s)"
  using parse_hex_to_hex to_hex_parse_hex by blast

theorem oid_hex_roundtrip_witness:
  "parse_hex (to_hex (Oid Sha256 (replicate 32 171))) = Inr (Oid Sha256 (replicate 32 171))"
  using oid_hex_roundtrip [of "Oid Sha256 (replicate 32 171)"]
  by (simp add: oid_wf_def MAX_DIGEST_LEN_def)

text \<open>
  Verification is content addressing: two objects that verify under one name are the
  same kind and the same bytes, or their two different hashed byte strings have one digest.
\<close>

theorem verify_addresses_content:
  assumes "verify H x k p = Inr ()" and "verify H x k' p' = Inr ()"
  shows "(k, p) = (k', p') \<or> (preimage k p \<noteq> preimage k' p'
    \<and> digest_of H (oid_kind x) (preimage k p) = digest_of H (oid_kind x) (preimage k' p')
    \<and> digest_of H (oid_kind x) (preimage k p) \<noteq> None)"
  using assms by (rule verify_collision)

text \<open>A digest that tells inputs apart by their length, for concrete runs.\<close>

definition toy_engine :: hash_engine where
  "toy_engine = \<lparr>he_sha1 = (\<lambda>bs. Some (replicate 19 0 @ [of_nat (length bs)])),
     he_sha256 = (\<lambda>bs. replicate 31 0 @ [of_nat (length bs)])\<rparr>"

lemma verify_toy: "verify toy_engine (Oid Sha256 (replicate 31 0 @ [of_nat (length (preimage k p))])) k p = Inr ()"
  by (simp add: verify_Inr_iff object_id_def hasher_new_def preimage_def toy_engine_def oid_new_def
      MAX_DIGEST_LEN_def add_ac)

theorem verify_addresses_content_witness:
  "verify toy_engine (Oid Sha256 (replicate 31 0 @ [8])) Blob [1] = Inr ()
   \<and> verify toy_engine (Oid Sha256 (replicate 31 0 @ [8])) Blob [2] = Inr ()
   \<and> digest_of toy_engine Sha256 (preimage Blob [1]) = digest_of toy_engine Sha256 (preimage Blob [2])"
proof -
  have v: "verify toy_engine (Oid Sha256 (replicate 31 0 @ [8])) Blob [1] = Inr ()"
    "verify toy_engine (Oid Sha256 (replicate 31 0 @ [8])) Blob [2] = Inr ()"
    using verify_toy [of Blob "[1]"] verify_toy [of Blob "[2]"]
    by (simp_all add: preimage_def show_nat.simps)
  from verify_addresses_content [OF this] v show ?thesis by simp
qed

end
