(* ===== verification/Budget.thy ===== *)
theory Budget
  imports Objects
begin

text \<open>
  Per-operation resource budgets (\<open>budget.rs\<close>). A budget holds the ceilings, the spend
  counters (wrapping 64-bit atomics), the suspension depths used by graph reads, and the
  deadline. Cancellation and the clock belong to the environment: the \<open>n\<close>th look at
  them is \<open>b_env n\<close>, an arbitrary observation, and \<open>b_tick\<close> counts the looks. Every
  theorem therefore holds for every behaviour of the cancelling thread and of the clock.
\<close>

section \<open>Ceilings and the live budget\<close>

record budget_limits =
  max_objects :: u64
  max_object_bytes :: u64
  max_total_object_bytes :: u64
  max_provider_requests :: u64
  max_provider_bytes :: u64
  max_tree_entries :: u64
  max_delta_depth :: u32

definition default_limits :: budget_limits where
  "default_limits = \<lparr>max_objects = 100000, max_object_bytes = push_bit 20 4,
    max_total_object_bytes = push_bit 20 256, max_provider_requests = 500,
    max_provider_bytes = push_bit 20 256, max_tree_entries = 20000, max_delta_depth = 128\<rparr>"

record env_obs =
  obs_cancelled :: bool
  obs_now :: nat

record budget =
  b_limits :: budget_limits
  b_deadline :: "nat option"
  b_env :: "nat \<Rightarrow> env_obs"
  b_tick :: nat
  b_objects :: u64
  b_charge_suspensions :: u64
  b_duplicate_suspensions :: u64
  b_graph_reads :: "oid set"
  b_objects_read :: u64
  b_object_bytes :: u64
  b_provider_requests :: u64
  b_provider_bytes :: u64
  b_tree_entries :: u64
  b_cache_hits :: u64
  b_cache_misses :: u64

type_synonym 'a bop = "(budget, error, 'a) sr"

definition budget_new :: "budget_limits \<Rightarrow> nat option \<Rightarrow> (nat \<Rightarrow> env_obs) \<Rightarrow> budget" where
  "budget_new limits deadline env = \<lparr>b_limits = limits, b_deadline = deadline, b_env = env,
    b_tick = 0, b_objects = 0, b_charge_suspensions = 0, b_duplicate_suspensions = 0,
    b_graph_reads = {}, b_objects_read = 0, b_object_bytes = 0, b_provider_requests = 0,
    b_provider_bytes = 0, b_tree_entries = 0, b_cache_hits = 0, b_cache_misses = 0\<rparr>"

definition budget_unlimited :: "(nat \<Rightarrow> env_obs) \<Rightarrow> budget" where
  "budget_unlimited env = budget_new \<lparr>max_objects = - 1, max_object_bytes = - 1,
    max_total_object_bytes = - 1, max_provider_requests = - 1, max_provider_bytes = - 1,
    max_tree_entries = - 1, max_delta_depth = - 1\<rparr> None env"

section \<open>Checks and charges\<close>

definition cancelled_error :: error where
  "cancelled_error = err_new Cancelled ''operation cancelled''"

definition timeout_error :: error where
  "timeout_error = err_new Timeout ''operation budget expired''"

definition check :: "unit bop" where
  "check b =
    (let obs = b_env b (b_tick b); b' = b\<lparr>b_tick := Suc (b_tick b)\<rparr> in
     if obs_cancelled obs then (Inl cancelled_error, b')
     else (case b_deadline b of
         Some deadline \<Rightarrow> if deadline \<le> obs_now obs then (Inl timeout_error, b') else (Inr (), b')
       | None \<Rightarrow> (Inr (), b')))"

definition deadline_expired :: "budget \<Rightarrow> nat \<Rightarrow> bool" where
  "deadline_expired b now = (case b_deadline b of None \<Rightarrow> False | Some d \<Rightarrow> d \<le> now)"

text \<open>
  \<open>charge\<close>: one \<open>fetch_add\<close> (which wraps), then the comparison of the saturated sum.
  A failed charge stays in the counter.
\<close>

definition charge :: "u64 \<Rightarrow> u64 \<Rightarrow> u64 \<Rightarrow> string \<Rightarrow> (error + unit) \<times> u64" where
  "charge previous amount ceiling limit_name =
    (if ceiling < sat_add previous amount
     then Inl (with_limit limit_name (err_new BudgetExceeded (limit_name @ '' exceeded'')))
     else Inr (), previous + amount)"

definition charge_objects :: "unit bop" where
  "charge_objects b =
    (if b_charge_suspensions b = 0
     then (let (r, c) = charge (b_objects b) 1 (max_objects (b_limits b)) ''max_objects''
           in (r, b\<lparr>b_objects := c\<rparr>))
     else (Inr (), b))"

definition charge_total_bytes :: "u64 \<Rightarrow> unit bop" where
  "charge_total_bytes bytes b =
    (let (r, c) = charge (b_object_bytes b) bytes (max_total_object_bytes (b_limits b))
                    ''max_total_object_bytes''
     in (r, b\<lparr>b_object_bytes := c\<rparr>))"

definition object_too_large :: "u64 \<Rightarrow> u64 \<Rightarrow> error" where
  "object_too_large bytes maximum = with_limit ''max_object_bytes''
    (err_new ObjectTooLarge (''object of '' @ show_nat (unat bytes)
       @ '' bytes exceeds max_object_bytes '' @ show_nat (unat maximum)))"

definition charge_payload :: "u64 \<Rightarrow> unit bop" where
  "charge_payload bytes b =
    (if b_duplicate_suspensions b = 0
     then charge_total_bytes bytes (b\<lparr>b_objects_read := b_objects_read b + 1\<rparr>)
     else (Inr (), b))"

definition charge_object :: "u64 \<Rightarrow> unit bop" where
  "charge_object bytes = sbind check (\<lambda>_ b.
    if max_object_bytes (b_limits b) < bytes
    then (Inl (object_too_large bytes (max_object_bytes (b_limits b))), b)
    else sbind charge_objects (\<lambda>_. charge_payload bytes) b)"

definition charge_object_visit :: "unit bop" where
  "charge_object_visit = sbind check (\<lambda>_. charge_objects)"

definition charge_header :: "unit bop" where
  "charge_header = sbind check (\<lambda>_. charge_objects)"

definition charge_tree_entry :: "unit bop" where
  "charge_tree_entry = sbind check (\<lambda>_ b.
    let (r, c) = charge (b_tree_entries b) 1 (max_tree_entries (b_limits b)) ''max_tree_entries''
    in (r, b\<lparr>b_tree_entries := c\<rparr>))"

definition charge_integrity_bytes :: "u64 \<Rightarrow> unit bop" where
  "charge_integrity_bytes bytes = sbind check (\<lambda>_. charge_total_bytes bytes)"

definition charge_provider_request :: "unit bop" where
  "charge_provider_request = sbind check (\<lambda>_ b.
    let (r, c) = charge (b_provider_requests b) 1 (max_provider_requests (b_limits b))
                   ''max_provider_requests''
    in (r, b\<lparr>b_provider_requests := c\<rparr>))"

definition charge_provider_bytes :: "u64 \<Rightarrow> unit bop" where
  "charge_provider_bytes bytes = sbind check (\<lambda>_ b.
    let (r, c) = charge (b_provider_bytes b) bytes (max_provider_bytes (b_limits b))
                   ''max_provider_bytes''
    in (r, b\<lparr>b_provider_bytes := c\<rparr>))"

definition record_cache_hit :: "budget \<Rightarrow> budget" where
  "record_cache_hit b = b\<lparr>b_cache_hits := b_cache_hits b + 1\<rparr>"

definition record_cache_miss :: "budget \<Rightarrow> budget" where
  "record_cache_miss b = b\<lparr>b_cache_misses := b_cache_misses b + 1\<rparr>"

definition check_delta_depth :: "u32 \<Rightarrow> budget \<Rightarrow> error + unit" where
  "check_delta_depth depth b =
    (if max_delta_depth (b_limits b) < depth
     then Inl (with_limit ''max_delta_depth'' (err_new BudgetExceeded
            (''delta chain depth '' @ show_nat (unat depth) @ '' exceeds max_delta_depth ''
               @ show_nat (unat (max_delta_depth (b_limits b))))))
     else Inr ())"

definition spent :: "budget \<Rightarrow> u64 \<times> u64 \<times> u64 \<times> u64" where
  "spent b = (b_objects_read b, b_object_bytes b, b_provider_requests b, b_provider_bytes b)"

definition cache_spent :: "budget \<Rightarrow> u64 \<times> u64" where
  "cache_spent b = (b_cache_hits b, b_cache_misses b)"

section \<open>Suspended accounting\<close>

text \<open>
  Store operations run over the store's own state and the budget. \<open>on_budget\<close> runs a
  budget operation there; the two \<open>without_\<close> wrappers raise the suspension depths around
  a read and lower them afterwards, whatever the read returns.
\<close>

type_synonym ('w, 'a) op = "('w \<times> budget, error, 'a) sr"

definition on_budget :: "'a bop \<Rightarrow> ('w, 'a) op" where
  "on_budget m s = (case s of (w, b) \<Rightarrow> (case m b of (r, b') \<Rightarrow> (r, (w, b'))))"

definition without_object_charge :: "oid \<Rightarrow> ('w, 'a) op \<Rightarrow> ('w, 'a) op" where
  "without_object_charge x read s =
    (case s of (w, b) \<Rightarrow>
      let duplicate = x \<in> b_graph_reads b;
          b1 = b\<lparr>b_graph_reads := insert x (b_graph_reads b),
                 b_charge_suspensions := b_charge_suspensions b + 1\<rparr>;
          b2 = (if duplicate then b1\<lparr>b_duplicate_suspensions := b_duplicate_suspensions b1 + 1\<rparr> else b1)
      in (case read (w, b2) of (r, (w', b3)) \<Rightarrow>
        let b4 = b3\<lparr>b_charge_suspensions := b_charge_suspensions b3 - 1\<rparr>;
            b5 = (if duplicate then b4\<lparr>b_duplicate_suspensions := b_duplicate_suspensions b4 - 1\<rparr> else b4)
        in (r, (w', b5))))"

definition without_object_recharge :: "('w, 'a) op \<Rightarrow> ('w, 'a) op" where
  "without_object_recharge replay s =
    (case s of (w, b) \<Rightarrow>
      let b1 = b\<lparr>b_charge_suspensions := b_charge_suspensions b + 1,
                 b_duplicate_suspensions := b_duplicate_suspensions b + 1\<rparr>
      in (case replay (w, b1) of (r, (w', b2)) \<Rightarrow>
        (r, (w', b2\<lparr>b_charge_suspensions := b_charge_suspensions b2 - 1,
                   b_duplicate_suspensions := b_duplicate_suspensions b2 - 1\<rparr>))))"

section \<open>Sequences of budget operations\<close>

text \<open>
  The operations a job performs on its budget, run one after another; a refused operation
  does not end the run (callers that can truncate go on). \<open>run_ops\<close> returns the accepted
  operations.
\<close>

datatype budget_op =
    OpObject u64 | OpVisit | OpHeader | OpTreeEntry | OpIntegrity u64
  | OpProviderRequest | OpProviderBytes u64 | OpCacheHit | OpCacheMiss

fun run_op :: "budget_op \<Rightarrow> unit bop" where
  "run_op (OpObject n) = charge_object n"
| "run_op OpVisit = charge_object_visit"
| "run_op OpHeader = charge_header"
| "run_op OpTreeEntry = charge_tree_entry"
| "run_op (OpIntegrity n) = charge_integrity_bytes n"
| "run_op OpProviderRequest = charge_provider_request"
| "run_op (OpProviderBytes n) = charge_provider_bytes n"
| "run_op OpCacheHit = (\<lambda>b. (Inr (), record_cache_hit b))"
| "run_op OpCacheMiss = (\<lambda>b. (Inr (), record_cache_miss b))"

fun run_ops :: "budget_op list \<Rightarrow> budget \<Rightarrow> budget_op list \<times> budget" where
  "run_ops [] b = ([], b)"
| "run_ops (p # ps) b =
    (case run_op p b of (r, b') \<Rightarrow> (case run_ops ps b' of (done, b'') \<Rightarrow>
      ((case r of Inr _ \<Rightarrow> p # done | Inl _ \<Rightarrow> done), b'')))"

text \<open>No read is being wrapped: the state between the reads of a query.\<close>

definition active :: "budget \<Rightarrow> bool" where
  "active b \<longleftrightarrow> b_charge_suspensions b = 0 \<and> b_duplicate_suspensions b = 0"

lemmas charge_defs = check_def charge_object_def charge_object_visit_def charge_header_def
  charge_tree_entry_def charge_integrity_bytes_def charge_provider_request_def
  charge_provider_bytes_def charge_objects_def charge_payload_def charge_total_bytes_def
  record_cache_hit_def record_cache_miss_def

lemmas meter_defs = charge_defs sbind_def Let_def active_def

text \<open>What no charge changes.\<close>

definition same_config :: "budget \<Rightarrow> budget \<Rightarrow> bool" where
  "same_config b b' \<longleftrightarrow> b_limits b' = b_limits b \<and> b_deadline b' = b_deadline b \<and> b_env b' = b_env b
    \<and> b_charge_suspensions b' = b_charge_suspensions b
    \<and> b_duplicate_suspensions b' = b_duplicate_suspensions b
    \<and> b_graph_reads b' = b_graph_reads b"

lemma run_op_same_config: "run_op p b = (r, b') \<Longrightarrow> same_config b b'"
  by (cases p) (auto simp: charge_defs charge_def same_config_def sbind_def Let_def
      split: if_splits option.splits prod.splits)

lemma unat_add_le: "unat a + unat n < 2 ^ 64 \<Longrightarrow> unat (a + n) = unat a + unat n" for a n :: u64
  by (simp add: unat_word_ariths)

lemma charge_Inr: "charge c n l s = (Inr u, c') \<Longrightarrow> unat c + unat n < 2 ^ 64 \<Longrightarrow> unat c' = unat c + unat n \<and> unat c' \<le> unat l"
 by (auto simp: charge_def unat_add_le word_less_nat_alt unat_sat_add split: if_splits)

lemma charge_snd: "charge c n l s = (r, c') \<Longrightarrow> unat c + unat n < 2 ^ 64 \<Longrightarrow> unat c' = unat c + unat n"
 by (auto simp: charge_def unat_add_le)

text \<open>
  One countable resource: a counter of the budget, its ceiling and what each operation asks
  of it. The two laws say how the counter moves; the bound on the accepted operations is
  proved once and holds for each of the five resources.
\<close>

locale meter =
  fixes counter :: "budget \<Rightarrow> u64" and ceiling :: "budget_limits \<Rightarrow> u64" and demand :: "budget_op \<Rightarrow> nat"
  assumes grows: "active b \<Longrightarrow> run_op p b = (r, b') \<Longrightarrow> unat (counter b) + demand p < 2 ^ 64 \<Longrightarrow>
      unat (counter b) \<le> unat (counter b') \<and> unat (counter b') \<le> unat (counter b) + demand p"
    and paid: "active b \<Longrightarrow> run_op p b = (Inr (), b') \<Longrightarrow> unat (counter b) + demand p < 2 ^ 64 \<Longrightarrow>
      0 < demand p \<Longrightarrow> unat (counter b') = unat (counter b) + demand p \<and> unat (counter b') \<le> unat (ceiling (b_limits b))"
begin

lemma accepted_demand_bounded:
  assumes "active b" and "a \<le> unat (counter b)" and "a \<le> unat (ceiling (b_limits b))"
    and "unat (counter b) + sum_list (map demand ps) < 2 ^ 64"
  shows "a + sum_list (map demand (fst (run_ops ps b))) \<le> unat (ceiling (b_limits b))"
  using assms
proof (induction ps arbitrary: a b)
  case (Cons p ps)
  obtain r b1 where step: "run_op p b = (r, b1)" by fastforce
  from run_op_same_config [OF step] Cons.prems(1)
  have b1: "active b1" "b_limits b1 = b_limits b" by (auto simp: same_config_def active_def)
  let ?a = "case r of Inr _ \<Rightarrow> a + demand p | Inl _ \<Rightarrow> a"
  from grows [OF Cons.prems(1) step] paid [OF Cons.prems(1), of p b1] Cons.prems step
  have "?a \<le> unat (counter b1) \<and> ?a \<le> unat (ceiling (b_limits b1))
    \<and> unat (counter b1) + sum_list (map demand ps) < 2 ^ 64"
    using b1 by (cases "demand p") (auto split: sum.splits)
  with Cons.IH [OF b1(1)] have "?a + sum_list (map demand (fst (run_ops ps b1))) \<le> unat (ceiling (b_limits b1))"
    by blast
  then show ?case using step b1 by (auto split: sum.splits prod.splits)
qed simp

end

fun demand_objects :: "budget_op \<Rightarrow> nat" where
  "demand_objects (OpObject _) = 1" | "demand_objects OpVisit = 1" | "demand_objects OpHeader = 1"
| "demand_objects _ = 0"
fun demand_bytes :: "budget_op \<Rightarrow> nat" where
  "demand_bytes (OpObject n) = unat n" | "demand_bytes (OpIntegrity n) = unat n" | "demand_bytes _ = 0"
fun demand_entries :: "budget_op \<Rightarrow> nat" where
  "demand_entries OpTreeEntry = 1" | "demand_entries _ = 0"
fun demand_requests :: "budget_op \<Rightarrow> nat" where
  "demand_requests OpProviderRequest = 1" | "demand_requests _ = 0"
fun demand_provider_bytes :: "budget_op \<Rightarrow> nat" where
  "demand_provider_bytes (OpProviderBytes n) = unat n" | "demand_provider_bytes _ = 0"

text \<open>How one operation moves the five counters, for every counter at once.\<close>

lemma run_op_grows:
  assumes "active b" and "run_op p b = (r, b')"
  shows "unat (b_objects b) + demand_objects p < 2 ^ 64 \<Longrightarrow>
      unat (b_objects b) \<le> unat (b_objects b') \<and> unat (b_objects b') \<le> unat (b_objects b) + demand_objects p"
    and "unat (b_object_bytes b) + demand_bytes p < 2 ^ 64 \<Longrightarrow>
      unat (b_object_bytes b) \<le> unat (b_object_bytes b') \<and> unat (b_object_bytes b') \<le> unat (b_object_bytes b) + demand_bytes p"
    and "unat (b_tree_entries b) + demand_entries p < 2 ^ 64 \<Longrightarrow>
      unat (b_tree_entries b) \<le> unat (b_tree_entries b') \<and> unat (b_tree_entries b') \<le> unat (b_tree_entries b) + demand_entries p"
    and "unat (b_provider_requests b) + demand_requests p < 2 ^ 64 \<Longrightarrow>
      unat (b_provider_requests b) \<le> unat (b_provider_requests b') \<and> unat (b_provider_requests b') \<le> unat (b_provider_requests b) + demand_requests p"
    and "unat (b_provider_bytes b) + demand_provider_bytes p < 2 ^ 64 \<Longrightarrow>
      unat (b_provider_bytes b) \<le> unat (b_provider_bytes b') \<and> unat (b_provider_bytes b') \<le> unat (b_provider_bytes b) + demand_provider_bytes p"
  using assms
  by (cases p; auto simp: meter_defs dest: charge_snd
      split: if_splits option.splits prod.splits sum.splits)+

lemma run_op_paid:
  assumes "active b" and "run_op p b = (Inr (), b')"
  shows "unat (b_objects b) + demand_objects p < 2 ^ 64 \<Longrightarrow> 0 < demand_objects p \<Longrightarrow>
      unat (b_objects b') = unat (b_objects b) + demand_objects p \<and> unat (b_objects b') \<le> unat (max_objects (b_limits b))"
    and "unat (b_object_bytes b) + demand_bytes p < 2 ^ 64 \<Longrightarrow> 0 < demand_bytes p \<Longrightarrow>
      unat (b_object_bytes b') = unat (b_object_bytes b) + demand_bytes p \<and> unat (b_object_bytes b') \<le> unat (max_total_object_bytes (b_limits b))"
    and "unat (b_tree_entries b) + demand_entries p < 2 ^ 64 \<Longrightarrow> 0 < demand_entries p \<Longrightarrow>
      unat (b_tree_entries b') = unat (b_tree_entries b) + demand_entries p \<and> unat (b_tree_entries b') \<le> unat (max_tree_entries (b_limits b))"
    and "unat (b_provider_requests b) + demand_requests p < 2 ^ 64 \<Longrightarrow> 0 < demand_requests p \<Longrightarrow>
      unat (b_provider_requests b') = unat (b_provider_requests b) + demand_requests p \<and> unat (b_provider_requests b') \<le> unat (max_provider_requests (b_limits b))"
    and "unat (b_provider_bytes b) + demand_provider_bytes p < 2 ^ 64 \<Longrightarrow> 0 < demand_provider_bytes p \<Longrightarrow>
      unat (b_provider_bytes b') = unat (b_provider_bytes b) + demand_provider_bytes p \<and> unat (b_provider_bytes b') \<le> unat (max_provider_bytes (b_limits b))"
  using assms
  by (cases p; auto simp: meter_defs dest: charge_Inr
      split: if_splits option.splits prod.splits sum.splits)+

interpretation objects_meter: meter b_objects max_objects demand_objects
  by unfold_locales (rule run_op_grows(1) run_op_paid(1); assumption)+

interpretation bytes_meter: meter b_object_bytes max_total_object_bytes demand_bytes
  by unfold_locales (rule run_op_grows(2) run_op_paid(2); assumption)+

interpretation entries_meter: meter b_tree_entries max_tree_entries demand_entries
  by unfold_locales (rule run_op_grows(3) run_op_paid(3); assumption)+

interpretation requests_meter: meter b_provider_requests max_provider_requests demand_requests
  by unfold_locales (rule run_op_grows(4) run_op_paid(4); assumption)+

interpretation provider_bytes_meter: meter b_provider_bytes max_provider_bytes demand_provider_bytes
  by unfold_locales (rule run_op_grows(5) run_op_paid(5); assumption)+

subsection \<open>Racing charges on one counter\<close>

text \<open>
  Each charge is one atomic addition followed by a comparison of local values, so every
  interleaving of racing threads is a sequence of whole charges on the counter.
\<close>

fun accepted_charges :: "u64 \<Rightarrow> u64 \<Rightarrow> u64 list \<Rightarrow> u64 list" where
  "accepted_charges ceiling c [] = []"
| "accepted_charges ceiling c (n # ns) =
    (case charge c n ceiling ''limit'' of (r, c') \<Rightarrow>
       (case r of Inr _ \<Rightarrow> n # accepted_charges ceiling c' ns | Inl _ \<Rightarrow> accepted_charges ceiling c' ns))"

lemma accepted_charges_bounded:
  assumes "unat c + sum_list (map unat ns) < 2 ^ 64" and "a \<le> unat c" and "a \<le> unat ceiling"
  shows "a + sum_list (map unat (accepted_charges ceiling c ns)) \<le> unat ceiling"
  using assms
proof (induction ns arbitrary: a c)
  case (Cons n ns)
  obtain r c1 where step: "charge c n ceiling ''limit'' = (r, c1)" by fastforce
  from charge_snd [OF step] Cons.prems(1) have c1: "unat c1 = unat c + unat n" by simp
  let ?a = "case r of Inr _ \<Rightarrow> a + unat n | Inl _ \<Rightarrow> a"
  have "?a \<le> unat c1 \<and> ?a \<le> unat ceiling"
    using Cons.prems c1 step charge_Inr [of c n ceiling "''limit''"]
    by (cases r) auto
  with Cons.IH [of c1 ?a] Cons.prems(1) c1 step show ?case by (auto split: sum.splits)
qed simp

text \<open>
  Racing charges never pass the ceiling together: in every order in which concurrent
  charges reach the counter, the accepted amounts sum to at most the ceiling, as long as
  the attempted amounts do not overflow the 64-bit counter.
\<close>

theorem charge_race_bounded:
  assumes "sum_list (map unat amounts) < 2 ^ 64"
  shows "sum_list (map unat (accepted_charges ceiling 0 amounts)) \<le> unat ceiling"
  using accepted_charges_bounded [of 0 amounts 0 ceiling] assms by simp

theorem charge_race_bounded_witness:
  "accepted_charges 10 0 [6, 5, 4] = [6] \<and> sum_list (map unat (accepted_charges 10 0 [6, 5, 4])) \<le> 10"
proof -
  have "accepted_charges 10 0 [6, 5, 4] = [6]" by (simp add: charge_def sat_add_def)
  with charge_race_bounded [of "[6, 5, 4]" 10] show ?thesis by simp
qed

text \<open>The overflow proviso is needed: the counter wraps, and spending starts afresh.\<close>

lemma charge_wraps: "accepted_charges 10 0 [6, - 6, 10] = [6, 10]"
  by (simp add: charge_def sat_add_def)

text \<open>
  C1. The ceilings hold over any sequence of charges of a fresh budget, whatever the
  clock and the cancelling thread do: the accepted operations together ask for at most
  \<open>max_objects\<close> objects, \<open>max_total_object_bytes\<close> bytes, \<open>max_tree_entries\<close>
  entries, \<open>max_provider_requests\<close> requests and \<open>max_provider_bytes\<close> provider
  bytes, refused operations in between included. The counters are 64 bits wide and wrap, so
  this holds for fewer than \<open>2 ^ 64\<close> operations that ask, refused ones included, for
  fewer than \<open>2 ^ 64\<close> bytes and provider bytes in all; \<open>charge_wraps\<close> shows that the
  proviso is needed.
\<close>

theorem budget_ceilings_hold:
  assumes "length ops < 2 ^ 64"
    and "sum_list (map demand_bytes ops) < 2 ^ 64"
    and "sum_list (map demand_provider_bytes ops) < 2 ^ 64"
    and "run_ops ops (budget_new limits deadline env) = (accepted, b')"
  shows "sum_list (map demand_objects accepted) \<le> unat (max_objects limits)
    \<and> sum_list (map demand_bytes accepted) \<le> unat (max_total_object_bytes limits)
    \<and> sum_list (map demand_entries accepted) \<le> unat (max_tree_entries limits)
    \<and> sum_list (map demand_requests accepted) \<le> unat (max_provider_requests limits)
    \<and> sum_list (map demand_provider_bytes accepted) \<le> unat (max_provider_bytes limits)"
proof -
  let ?b = "budget_new limits deadline env"
  have start: "active ?b" "b_limits ?b = limits"
    and zero: "b_objects ?b = 0" "b_object_bytes ?b = 0" "b_tree_entries ?b = 0"
      "b_provider_requests ?b = 0" "b_provider_bytes ?b = 0"
    by (simp_all add: active_def budget_new_def)
  have unit_demand: "sum_list (map d ops) \<le> length ops" if "\<And>p. d p \<le> 1" for d :: "budget_op \<Rightarrow> nat"
    using that by (induction ops) (auto intro: order_trans [OF add_mono] simp: add_le_mono)
  have small: "demand_objects p \<le> 1" "demand_entries p \<le> 1" "demand_requests p \<le> 1" for p
    by (cases p; simp)+
  have sums: "sum_list (map demand_objects ops) < 2 ^ 64" "sum_list (map demand_entries ops) < 2 ^ 64"
    "sum_list (map demand_requests ops) < 2 ^ 64"
    using unit_demand [of demand_objects] unit_demand [of demand_entries] unit_demand [of demand_requests] small assms(1)
    by (meson le_less_trans)+
  from objects_meter.accepted_demand_bounded [of ?b 0 ops] bytes_meter.accepted_demand_bounded [of ?b 0 ops]
    entries_meter.accepted_demand_bounded [of ?b 0 ops] requests_meter.accepted_demand_bounded [of ?b 0 ops]
    provider_bytes_meter.accepted_demand_bounded [of ?b 0 ops]
  show ?thesis using assms start zero sums by simp
qed

theorem budget_ceilings_hold_witness:
  "fst (run_ops [OpObject 10, OpObject 10, OpHeader]
     (budget_new (default_limits\<lparr>max_objects := 2\<rparr>) None (\<lambda>_. \<lparr>obs_cancelled = False, obs_now = 0\<rparr>)))
   = [OpObject 10, OpObject 10]
   \<and> sum_list (map demand_objects [OpObject 10, OpObject 10]) \<le> 2"
proof -
  let ?run = "run_ops [OpObject 10, OpObject 10, OpHeader]
     (budget_new (default_limits\<lparr>max_objects := 2\<rparr>) None (\<lambda>_. \<lparr>obs_cancelled = False, obs_now = 0\<rparr>))"
  have run: "fst ?run = [OpObject 10, OpObject 10]"
    by (simp add: budget_new_def default_limits_def meter_defs charge_def sat_add_def)
  with budget_ceilings_hold [of "[OpObject 10, OpObject 10, OpHeader]" "default_limits\<lparr>max_objects := 2\<rparr>"
      None "\<lambda>_. \<lparr>obs_cancelled = False, obs_now = 0\<rparr>" "[OpObject 10, OpObject 10]" "snd ?run"]
  show ?thesis by (simp add: prod_eq_iff)
qed

text \<open>
  Graph reads are charged once per object: a read wrapped by
  \<open>without_object_charge\<close> never spends \<open>max_objects\<close>, restores both suspension
  depths, counts its payload the first time the object is read in the job, and leaves the
  payload counters unchanged when the object was read before.
\<close>

theorem graph_read_accounting:
  assumes "b_charge_suspensions b = 0" and "b_duplicate_suspensions b = 0"
    and "without_object_charge x (on_budget (charge_object n)) (w, b) = (r, (w', b'))"
  shows "b_objects b' = b_objects b \<and> active b' \<and> b_graph_reads b' = insert x (b_graph_reads b)
    \<and> (x \<in> b_graph_reads b \<longrightarrow>
         b_objects_read b' = b_objects_read b \<and> b_object_bytes b' = b_object_bytes b)
    \<and> (x \<notin> b_graph_reads b \<and> r = Inr () \<longrightarrow>
         b_objects_read b' = b_objects_read b + 1 \<and> b_object_bytes b' = b_object_bytes b + n)"
  using assms
  by (auto simp: without_object_charge_def on_budget_def meter_defs charge_def
      split: if_splits option.splits prod.splits)

theorem graph_read_accounting_witness:
  "\<exists>b'. without_object_charge (Oid Sha1 []) (on_budget (charge_object 7))
      ((), budget_new default_limits None (\<lambda>_. \<lparr>obs_cancelled = False, obs_now = 0\<rparr>)) = (Inr (), ((), b'))
    \<and> b_objects b' = 0 \<and> b_object_bytes b' = 7"
proof -
  let ?b = "budget_new default_limits None (\<lambda>_. \<lparr>obs_cancelled = False, obs_now = 0\<rparr>)"
  obtain b' where run: "without_object_charge (Oid Sha1 []) (on_budget (charge_object 7)) ((), ?b)
      = (Inr (), ((), b'))"
    by (simp add: without_object_charge_def on_budget_def meter_defs charge_def
        budget_new_def default_limits_def sat_add_def)
  from graph_read_accounting [OF _ _ run] run show ?thesis
    by (simp add: budget_new_def)
qed

end
