(* ===== verification/Lru.thy ===== *)
theory Lru
  imports Prelude "HOL-Library.AList" "HOL-Library.Monad_Syntax"
begin

text \<open>
  The weighted least-recently-used cache of \<open>lru.rs\<close>: a slab of nodes in an intrusive
  doubly-linked recency list, a free list and a hash index (an association list with
  distinct keys). \<open>expect\<close> on a dangling link panics in the source: each operation
  returns \<open>None\<close> there, and the refinement shows that this never happens. The
  specification is the list of resident entries from the least to the most recent.
\<close>

section \<open>The slab and its links\<close>

record ('k, 'v) node =
  n_key :: 'k
  n_value :: 'v
  n_weight :: u64
  n_previous :: "nat option"
  n_next :: "nat option"

record ('k, 'v) lru =
  lru_indices :: "('k \<times> nat) list"
  lru_nodes :: "('k, 'v) node option list"
  lru_free :: "nat list"
  least_recent :: "nat option"
  most_recent :: "nat option"
  lru_used :: u64
  lru_capacity :: u64

definition lru_new :: "u64 \<Rightarrow> ('k, 'v) lru" where
  "lru_new cap = \<lparr>lru_indices = [], lru_nodes = [], lru_free = [], least_recent = None,
    most_recent = None, lru_used = 0, lru_capacity = cap\<rparr>"

text \<open>\<open>node\<close> and \<open>node_mut\<close>: absent when the index is out of range or unoccupied.\<close>

definition node_at :: "('k, 'v) lru \<Rightarrow> nat \<Rightarrow> ('k, 'v) node option" where
  "node_at c i = (if i < length (lru_nodes c) then lru_nodes c ! i else None)"

definition node_mut :: "nat \<Rightarrow> (('k, 'v) node \<Rightarrow> ('k, 'v) node) \<Rightarrow> ('k, 'v) lru \<Rightarrow> ('k, 'v) lru option" where
  "node_mut i f c =
    (case node_at c i of None \<Rightarrow> None
     | Some nd \<Rightarrow> Some (c\<lparr>lru_nodes := (lru_nodes c)[i := Some (f nd)]\<rparr>))"

definition touch :: "nat \<Rightarrow> ('k, 'v) lru \<Rightarrow> ('k, 'v) lru option" where
  "touch i c =
    (if most_recent c = Some i then Some c
     else do {
       nd \<leftarrow> node_at c i;
       c1 \<leftarrow> (case n_previous nd of
               Some p \<Rightarrow> node_mut p (\<lambda>m. m\<lparr>n_next := n_next nd\<rparr>) c
             | None \<Rightarrow> Some (c\<lparr>least_recent := n_next nd\<rparr>));
       c2 \<leftarrow> (case n_next nd of
               Some q \<Rightarrow> node_mut q (\<lambda>m. m\<lparr>n_previous := n_previous nd\<rparr>) c1
             | None \<Rightarrow> Some c1);
       c3 \<leftarrow> node_mut i (\<lambda>m. m\<lparr>n_previous := most_recent c2, n_next := None\<rparr>) c2;
       c4 \<leftarrow> (case most_recent c2 of
               Some q \<Rightarrow> node_mut q (\<lambda>m. m\<lparr>n_next := Some i\<rparr>) c3
             | None \<Rightarrow> Some (c3\<lparr>least_recent := Some i\<rparr>));
       Some (c4\<lparr>most_recent := Some i\<rparr>)
     })"

definition remove_index :: "nat \<Rightarrow> ('k, 'v) lru \<Rightarrow> (('k, 'v) node option \<times> ('k, 'v) lru) option" where
  "remove_index i c =
    (case node_at c i of
       None \<Rightarrow> Some (None, c)
     | Some nd \<Rightarrow> do {
         let c0 = c\<lparr>lru_nodes := (lru_nodes c)[i := None]\<rparr>;
         c1 \<leftarrow> (case n_previous nd of
                 Some p \<Rightarrow> node_mut p (\<lambda>m. m\<lparr>n_next := n_next nd\<rparr>) c0
               | None \<Rightarrow> Some (c0\<lparr>least_recent := n_next nd\<rparr>));
         c2 \<leftarrow> (case n_next nd of
                 Some q \<Rightarrow> node_mut q (\<lambda>m. m\<lparr>n_previous := n_previous nd\<rparr>) c1
               | None \<Rightarrow> Some (c1\<lparr>most_recent := n_previous nd\<rparr>));
         Some (Some nd, c2\<lparr>lru_indices := AList.delete (n_key nd) (lru_indices c2),
                           lru_used := sat_sub (lru_used c2) (n_weight nd),
                           lru_free := lru_free c2 @ [i]\<rparr>)
       })"

section \<open>The public operations\<close>

definition lru_get :: "'k \<Rightarrow> ('k, 'v) lru \<Rightarrow> ('v option \<times> ('k, 'v) lru) option" where
  "lru_get k c =
    (case map_of (lru_indices c) k of
       None \<Rightarrow> Some (None, c)
     | Some i \<Rightarrow> do {
         c' \<leftarrow> touch i c;
         Some (map_option n_value (node_at c' i), c')
       })"

text \<open>The eviction loop, bounded by the number of resident entries.\<close>

fun evict_loop :: "nat \<Rightarrow> u64 \<Rightarrow> u64 \<Rightarrow> ('k, 'v) lru \<Rightarrow> (u64 \<times> ('k, 'v) lru) option" where
  "evict_loop fuel weight evictions c =
    (if lru_capacity c < sat_add (lru_used c) weight then
       (case least_recent c of
          None \<Rightarrow> Some (evictions, c)
        | Some i \<Rightarrow>
          (case fuel of
             0 \<Rightarrow> None
           | Suc fuel' \<Rightarrow> (case remove_index i c of
               None \<Rightarrow> None
             | Some (_, c') \<Rightarrow> evict_loop fuel' weight (sat_add evictions 1) c')))
     else Some (evictions, c))"

declare evict_loop.simps [simp del]

definition link_new :: "'k \<Rightarrow> 'v \<Rightarrow> u64 \<Rightarrow> ('k, 'v) lru \<Rightarrow> ('k, 'v) lru option" where
  "link_new k v w c = do {
     let (i, c1) = (case lru_free c of
          [] \<Rightarrow> (length (lru_nodes c), c\<lparr>lru_nodes := lru_nodes c @ [None]\<rparr>)
        | _ \<Rightarrow> (last (lru_free c), c\<lparr>lru_free := butlast (lru_free c)\<rparr>));
     let previous = most_recent c1;
     let c2 = c1\<lparr>lru_nodes := (lru_nodes c1)[i := Some \<lparr>n_key = k, n_value = v, n_weight = w,
                                 n_previous = previous, n_next = None\<rparr>]\<rparr>;
     c3 \<leftarrow> (case previous of
             Some p \<Rightarrow> node_mut p (\<lambda>m. m\<lparr>n_next := Some i\<rparr>) c2
           | None \<Rightarrow> Some (c2\<lparr>least_recent := Some i\<rparr>));
     Some (c3\<lparr>most_recent := Some i, lru_used := sat_add (lru_used c3) w,
              lru_indices := AList.update k i (lru_indices c3)\<rparr>)
   }"

definition insert_counting_evictions ::
    "'k \<Rightarrow> 'v \<Rightarrow> u64 \<Rightarrow> ('k, 'v) lru \<Rightarrow> (u64 \<times> ('k, 'v) lru) option" where
  "insert_counting_evictions k v w c = do {
     (_, c1) \<leftarrow> (case map_of (lru_indices c) k of
                  Some i \<Rightarrow> remove_index i c
                | None \<Rightarrow> Some (None, c));
     (if lru_capacity c1 = 0 \<or> lru_capacity c1 < w then Some (0, c1)
      else do {
        (evictions, c2) \<leftarrow> evict_loop (length (lru_indices c1)) w 0 c1;
        c3 \<leftarrow> link_new k v w c2;
        Some (evictions, c3)
      })
   }"

definition pop_lru :: "('k, 'v) lru \<Rightarrow> (('k \<times> 'v) option \<times> ('k, 'v) lru) option" where
  "pop_lru c =
    (case least_recent c of
       None \<Rightarrow> Some (None, c)
     | Some i \<Rightarrow> do {
         (nd, c') \<leftarrow> remove_index i c;
         Some (map_option (\<lambda>n. (n_key n, n_value n)) nd, c')
       })"

definition lru_remove :: "'k \<Rightarrow> ('k, 'v) lru \<Rightarrow> ('v option \<times> ('k, 'v) lru) option" where
  "lru_remove k c =
    (case map_of (lru_indices c) k of
       None \<Rightarrow> Some (None, c)
     | Some i \<Rightarrow> do {
         (nd, c') \<leftarrow> remove_index i c;
         Some (map_option n_value nd, c')
       })"

definition lru_clear :: "('k, 'v) lru \<Rightarrow> ('k, 'v) lru" where
  "lru_clear c = c\<lparr>lru_indices := [], lru_free := [0..<length (lru_nodes c)],
     lru_nodes := map (\<lambda>_. None) (lru_nodes c), least_recent := None, most_recent := None,
     lru_used := 0\<rparr>"

definition lru_len :: "('k, 'v) lru \<Rightarrow> nat" where
  "lru_len c = length (lru_indices c)"

definition lru_is_empty :: "('k, 'v) lru \<Rightarrow> bool" where
  "lru_is_empty c \<longleftrightarrow> lru_indices c = []"

section \<open>The recency list in the slab\<close>

definition hd_or :: "nat list \<Rightarrow> nat option \<Rightarrow> nat option" where
  "hd_or is n = (case is of [] \<Rightarrow> n | i # _ \<Rightarrow> Some i)"

definition last_or :: "nat option \<Rightarrow> nat list \<Rightarrow> nat option" where
  "last_or p is = (if is = [] then p else Some (last is))"

lemma hd_or_simps [simp]: "hd_or [] n = n" "hd_or (i # is) n = Some i"
  by (simp_all add: hd_or_def)

lemma hd_or_append: "hd_or (is @ js) n = hd_or is (hd_or js n)"
  by (cases "is") simp_all

lemma last_or_simps [simp]:
  "last_or p [] = p" "last_or p (is @ [i]) = Some i" "last_or p (i # is) = last_or (Some i) is"
  by (simp_all add: last_or_def)

lemma last_or_append: "last_or p (is @ js) = last_or (last_or p is) js"
  by (simp add: last_or_def)

primrec seg :: "('k, 'v) lru \<Rightarrow> nat option \<Rightarrow> nat list \<Rightarrow> nat option \<Rightarrow> bool" where
  "seg c p [] n \<longleftrightarrow> True"
| "seg c p (i # is) n \<longleftrightarrow>
    (\<exists>nd. node_at c i = Some nd \<and> n_previous nd = p \<and> n_next nd = hd_or is n) \<and> seg c (Some i) is n"

lemma seg_append: "seg c p (is @ js) n \<longleftrightarrow> seg c p is (hd_or js n) \<and> seg c (last_or p is) js n"
  by (induction "is" arbitrary: p) (auto simp: hd_or_append)

lemma seg_cong: "\<forall>i\<in>set is. node_at c' i = node_at c i \<Longrightarrow> seg c' p is n = seg c p is n"
  by (induction "is" arbitrary: p) auto

text \<open>What relinking keeps: the slab's size, and key, value and weight of every node.\<close>

definition node_payload :: "('k, 'v) node \<Rightarrow> 'k \<times> 'v \<times> u64" where
  "node_payload nd = (n_key nd, n_value nd, n_weight nd)"

definition relinked :: "nat set \<Rightarrow> ('k, 'v) lru \<Rightarrow> ('k, 'v) lru \<Rightarrow> bool" where
  "relinked S c c' \<longleftrightarrow> length (lru_nodes c') = length (lru_nodes c)
    \<and> (\<forall>j. map_option node_payload (node_at c' j) = map_option node_payload (node_at c j))
    \<and> (\<forall>j. j \<notin> S \<longrightarrow> node_at c' j = node_at c j)
    \<and> lru_indices c' = lru_indices c \<and> lru_free c' = lru_free c \<and> lru_used c' = lru_used c
    \<and> lru_capacity c' = lru_capacity c"

lemma node_at_upd: "node_at (c\<lparr>lru_nodes := (lru_nodes c)[i := x]\<rparr>) j
   = (if j = i \<and> i < length (lru_nodes c) then x else node_at c j)"
  by (simp add: node_at_def nth_list_update)

lemma node_at_Some_less: "node_at c i = Some nd \<Longrightarrow> i < length (lru_nodes c)"
  by (simp add: node_at_def split: if_splits)

lemma node_mut_Some:
  assumes "node_at c i = Some nd" and "node_payload (f nd) = node_payload nd"
  shows "\<exists>c'. node_mut i f c = Some c' \<and> relinked {i} c c' \<and> node_at c' i = Some (f nd)
    \<and> least_recent c' = least_recent c \<and> most_recent c' = most_recent c"
  using assms node_at_Some_less [OF assms(1)]
  by (auto simp: node_mut_def relinked_def node_at_upd)

text \<open>Repairing the left neighbour of a gap, and the right one.\<close>

lemma seg_last_node:
  "seg c p (is @ [i]) n \<Longrightarrow> \<exists>nd. node_at c i = Some nd \<and> n_previous nd = last_or p is"
  by (auto simp: seg_append)

lemma repair_left:
  assumes "seg c None is x" and "distinct is"
  shows "\<exists>c'. (case last_or None is of Some p \<Rightarrow> node_mut p (\<lambda>m. m\<lparr>n_next := n\<rparr>) c
                | None \<Rightarrow> Some (c\<lparr>least_recent := n\<rparr>)) = Some c'
    \<and> relinked (set is) c c' \<and> seg c' None is n
    \<and> least_recent c' = (if is = [] then n else least_recent c) \<and> most_recent c' = most_recent c"
proof (cases "is" rule: rev_cases)
  case Nil
  then show ?thesis by (simp add: relinked_def node_at_def)
next
  case (snoc js p)
  from assms(1) snoc obtain nd where nd: "node_at c p = Some nd" "n_previous nd = last_or None js"
    using seg_last_node by blast
  from node_mut_Some [OF nd(1), of "\<lambda>m. m\<lparr>n_next := n\<rparr>"] obtain c' where
    c': "node_mut p (\<lambda>m. m\<lparr>n_next := n\<rparr>) c = Some c'" "relinked {p} c c'"
      "node_at c' p = Some (nd\<lparr>n_next := n\<rparr>)"
      "least_recent c' = least_recent c" "most_recent c' = most_recent c"
    by (auto simp: node_payload_def)
  have "seg c' None js (Some p)"
    using assms snoc c'(2) by (subst seg_cong [of _ _ c]) (auto simp: seg_append relinked_def)
  then have "seg c' None is n" using nd c' snoc by (simp add: seg_append)
  with c' snoc show ?thesis by (auto simp: relinked_def)
qed

lemma repair_right:
  assumes "seg c x is None" and "distinct is" and "is \<noteq> []"
  shows "\<exists>c'. node_mut (hd is) (\<lambda>m. m\<lparr>n_previous := p\<rparr>) c = Some c'
    \<and> relinked (set is) c c' \<and> seg c' p is None
    \<and> least_recent c' = least_recent c \<and> most_recent c' = most_recent c"
proof -
  from assms(3) obtain q js where js: "is = q # js" by (cases "is") auto
  from assms(1) js obtain nd where nd: "node_at c q = Some nd" "n_next nd = hd_or js None" by auto
  from node_mut_Some [OF nd(1), of "\<lambda>m. m\<lparr>n_previous := p\<rparr>"] obtain c' where
    c': "node_mut q (\<lambda>m. m\<lparr>n_previous := p\<rparr>) c = Some c'" "relinked {q} c c'"
      "node_at c' q = Some (nd\<lparr>n_previous := p\<rparr>)"
      "least_recent c' = least_recent c" "most_recent c' = most_recent c"
    by (auto simp: node_payload_def)
  have "seg c' (Some q) js None"
    using assms js c'(2) by (subst seg_cong [of _ _ c]) (auto simp: relinked_def)
  with nd c' js show ?thesis by (auto simp: relinked_def)
qed

lemma hd_or_ne: "is \<noteq> [] \<Longrightarrow> hd_or is n = Some (hd is)"
  by (cases "is") simp_all

lemma relinked_trans: "relinked S c c1 \<Longrightarrow> relinked R c1 c2 \<Longrightarrow> relinked (S \<union> R) c c2"
  by (auto simp: relinked_def)

lemma relinked_seg: "relinked S c c' \<Longrightarrow> S \<inter> set is = {} \<Longrightarrow> seg c' p is n = seg c p is n"
  by (rule seg_cong) (auto simp: relinked_def)

text \<open>Closing the gap between two segments, as \<open>touch\<close> and \<open>remove_index\<close> do it.\<close>

lemma close_gap:
  assumes "seg c None as x" and "seg c y bs None" and "distinct (as @ bs)"
  obtains c1 c2 where
    "(case last_or None as of Some p \<Rightarrow> node_mut p (\<lambda>m. m\<lparr>n_next := hd_or bs None\<rparr>) c
      | None \<Rightarrow> Some (c\<lparr>least_recent := hd_or bs None\<rparr>)) = Some c1"
    "(case hd_or bs None of Some q \<Rightarrow> node_mut q (\<lambda>m. m\<lparr>n_previous := last_or None as\<rparr>) c1
      | None \<Rightarrow> Some c1) = Some c2"
    "relinked (set (as @ bs)) c c2" "seg c2 None (as @ bs) None"
    "least_recent c2 = (if as = [] then hd_or bs None else least_recent c)"
    "most_recent c2 = most_recent c"
proof -
  from repair_left [OF assms(1), of "hd_or bs None"] assms(3) obtain c1 where
    c1: "(case last_or None as of Some p \<Rightarrow> node_mut p (\<lambda>m. m\<lparr>n_next := hd_or bs None\<rparr>) c
      | None \<Rightarrow> Some (c\<lparr>least_recent := hd_or bs None\<rparr>)) = Some c1"
    "relinked (set as) c c1" "seg c1 None as (hd_or bs None)"
    "least_recent c1 = (if as = [] then hd_or bs None else least_recent c)"
    "most_recent c1 = most_recent c" by auto
  have seg_bs: "seg c1 y bs None" using assms c1(2) by (simp add: relinked_seg)
  show thesis
  proof (cases bs)
    case Nil
    with c1 show thesis by (intro that [of c1 c1]) (simp_all add: relinked_def)
  next
    case (Cons q qs)
    from repair_right [OF seg_bs, of "last_or None as"] assms(3) Cons obtain c2 where
      c2: "node_mut q (\<lambda>m. m\<lparr>n_previous := last_or None as\<rparr>) c1 = Some c2"
      "relinked (set bs) c1 c2" "seg c2 (last_or None as) bs None"
      "least_recent c2 = least_recent c1" "most_recent c2 = most_recent c1" by auto
    have "seg c2 None as (hd_or bs None)" using assms(3) c1(3) c2(2)
      by (subst relinked_seg [of "set bs" c1]) auto
    with c2(3) have "seg c2 None (as @ bs) None" by (simp add: seg_append)
    moreover have "relinked (set (as @ bs)) c c2" using relinked_trans [OF c1(2) c2(2)] by simp
    ultimately show thesis using c1 c2 Cons by (intro that [of c1 c2]) simp_all
  qed
qed

definition linked :: "('k, 'v) lru \<Rightarrow> nat list \<Rightarrow> bool" where
  "linked c is \<longleftrightarrow> seg c None is None \<and> distinct is
    \<and> least_recent c = hd_or is None \<and> most_recent c = last_or None is
    \<and> (\<forall>j. node_at c j \<noteq> None \<longleftrightarrow> j \<in> set is)"

lemma relinked_occupied: "relinked S c c' \<Longrightarrow> node_at c' j \<noteq> None \<longleftrightarrow> node_at c j \<noteq> None"
  unfolding relinked_def by (metis option.map_disc_iff)

lemma linkedD:
  assumes "linked c (as @ i # bs)"
  obtains nd where "node_at c i = Some nd" "n_previous nd = last_or None as" "n_next nd = hd_or bs None"
    "seg c None as (Some i)" "seg c (Some i) bs None" "distinct (as @ bs)" "i \<notin> set (as @ bs)"
    using assms by (auto simp: linked_def seg_append)

lemma touch_linked:
  assumes "linked c (as @ i # bs)"
  shows "\<exists>c'. touch i c = Some c' \<and> linked c' (as @ bs @ [i]) \<and> relinked UNIV c c'"
proof (cases "bs = []")
  case True
  with assms have "most_recent c = Some i" by (simp add: linked_def)
  with True assms show ?thesis by (simp add: touch_def relinked_def)
next
  case False
  from assms obtain nd where nd: "node_at c i = Some nd" "n_previous nd = last_or None as"
    "n_next nd = hd_or bs None" "seg c None as (Some i)" "seg c (Some i) bs None"
    "distinct (as @ bs)" "i \<notin> set (as @ bs)" by (rule linkedD)
  from nd(4-6) obtain c1 c2 where
    c1: "(case last_or None as of Some p \<Rightarrow> node_mut p (\<lambda>m. m\<lparr>n_next := hd_or bs None\<rparr>) c
      | None \<Rightarrow> Some (c\<lparr>least_recent := hd_or bs None\<rparr>)) = Some c1"
    and c2: "(case hd_or bs None of Some q \<Rightarrow> node_mut q (\<lambda>m. m\<lparr>n_previous := last_or None as\<rparr>) c1
      | None \<Rightarrow> Some c1) = Some c2" "relinked (set (as @ bs)) c c2" "seg c2 None (as @ bs) None"
    "least_recent c2 = (if as = [] then hd_or bs None else least_recent c)"
    "most_recent c2 = most_recent c" by (rule close_gap)
  from False assms have most: "most_recent c = last_or None (as @ bs)"
    by (cases bs) (simp_all add: linked_def last_or_append)
  have "most_recent c \<noteq> Some i" using nd(7) False unfolding most
    by (auto simp: last_or_def split: if_splits)
  have "node_at c2 i = Some nd" using c2(2) nd(1,7) by (simp add: relinked_def)
  from node_mut_Some [OF this, of "\<lambda>m. m\<lparr>n_previous := most_recent c2, n_next := None\<rparr>"]
  obtain c3 where c3: "node_mut i (\<lambda>m. m\<lparr>n_previous := most_recent c2, n_next := None\<rparr>) c2 = Some c3"
    "relinked {i} c2 c3" "node_at c3 i = Some (nd\<lparr>n_previous := most_recent c2, n_next := None\<rparr>)"
    "least_recent c3 = least_recent c2" "most_recent c3 = most_recent c2" by (auto simp: node_payload_def)
  have "seg c3 None (as @ bs) None" using c3(2) c2(3) nd(7) by (simp add: relinked_seg)
  from repair_left [OF this nd(6), of "Some i"] obtain c4 where
    c4: "(case last_or None (as @ bs) of Some p \<Rightarrow> node_mut p (\<lambda>m. m\<lparr>n_next := Some i\<rparr>) c3
                | None \<Rightarrow> Some (c3\<lparr>least_recent := Some i\<rparr>)) = Some c4"
    "relinked (set (as @ bs)) c3 c4" "seg c4 None (as @ bs) (Some i)"
    "least_recent c4 = least_recent c3" "most_recent c4 = most_recent c3" using False by auto
  let ?c = "c4\<lparr>most_recent := Some i\<rparr>"
  have same: "node_at ?c j = node_at c4 j" for j by (simp add: node_at_def)
  have "touch i c = Some ?c"
    using \<open>most_recent c \<noteq> Some i\<close> nd(1-3) c1 c2(1,5) c3(1) c4(1) most
    by (simp add: touch_def cong: option.case_cong)
  moreover have all: "relinked UNIV c ?c"
    using relinked_trans [OF relinked_trans [OF c2(2) c3(2)] c4(2)] same by (auto simp: relinked_def)
  moreover have "seg ?c None (as @ bs @ [i]) None"
  proof -
    have "node_at c4 i = node_at c3 i" using c4(2) nd(7) by (simp add: relinked_def)
    then have "seg c4 None ((as @ bs) @ [i]) None" using c4(3) c3(3) c2(5) most
      by (subst seg_append) simp
    then show ?thesis using seg_cong [of _ ?c c4] same by simp
  qed
  ultimately show ?thesis using assms nd(6,7) c2(4) c3(4) c4(4) False relinked_occupied [OF all]
    by (auto simp: linked_def last_or_append hd_or_append hd_or_ne)
qed


lemma remove_index_linked:
  assumes "linked c (as @ i # bs)" and "node_at c i = Some nd"
  shows "\<exists>c'. remove_index i c = Some (Some nd, c') \<and> linked c' (as @ bs)
    \<and> length (lru_nodes c') = length (lru_nodes c)
    \<and> (\<forall>j. j \<noteq> i \<longrightarrow> map_option node_payload (node_at c' j) = map_option node_payload (node_at c j))
    \<and> lru_indices c' = AList.delete (n_key nd) (lru_indices c)
    \<and> lru_free c' = lru_free c @ [i] \<and> lru_used c' = sat_sub (lru_used c) (n_weight nd)
    \<and> lru_capacity c' = lru_capacity c"
proof -
  from assms obtain nd where nd: "node_at c i = Some nd" "n_previous nd = last_or None as"
    "n_next nd = hd_or bs None" "seg c None as (Some i)" "seg c (Some i) bs None"
    "distinct (as @ bs)" "i \<notin> set (as @ bs)" by (auto elim: linkedD)
  let ?c0 = "c\<lparr>lru_nodes := (lru_nodes c)[i := None]\<rparr>"
  have c0: "node_at ?c0 j = (if j = i then None else node_at c j)" for j
    using node_at_Some_less [OF nd(1)] by (simp add: node_at_upd)
  have segs: "seg ?c0 None as (Some i)" "seg ?c0 (Some i) bs None"
    using nd(4,5,7) c0 seg_cong [of as ?c0 c] seg_cong [of bs ?c0 c] by auto
  obtain c1 c2 where
    c1: "(case last_or None as of Some p \<Rightarrow> node_mut p (\<lambda>m. m\<lparr>n_next := hd_or bs None\<rparr>) ?c0
      | None \<Rightarrow> Some (?c0\<lparr>least_recent := hd_or bs None\<rparr>)) = Some c1"
    and c2: "(case hd_or bs None of Some q \<Rightarrow> node_mut q (\<lambda>m. m\<lparr>n_previous := last_or None as\<rparr>) c1
      | None \<Rightarrow> Some c1) = Some c2" "relinked (set (as @ bs)) ?c0 c2" "seg c2 None (as @ bs) None"
    "least_recent c2 = (if as = [] then hd_or bs None else least_recent ?c0)"
    "most_recent c2 = most_recent ?c0" using close_gap [OF segs nd(6)] by metis
  let ?c3 = "c2\<lparr>most_recent := last_or None (as @ bs)\<rparr>"
  let ?c4 = "?c3\<lparr>lru_indices := AList.delete (n_key nd) (lru_indices c2),
      lru_used := sat_sub (lru_used c2) (n_weight nd), lru_free := lru_free c2 @ [i]\<rparr>"
  have "(case hd_or bs None of Some q \<Rightarrow> node_mut q (\<lambda>m. m\<lparr>n_previous := last_or None as\<rparr>) c1
      | None \<Rightarrow> Some (c1\<lparr>most_recent := last_or None as\<rparr>)) = Some ?c3"
    using c2(1,5) assms(1) by (cases bs) (auto simp: linked_def last_or_append)
  then have run: "remove_index i c = Some (Some nd, ?c4)"
    using nd(1-3) c1 by (simp add: remove_index_def cong: option.case_cong)
  have same: "node_at ?c4 j = node_at c2 j" for j by (simp add: node_at_def)
  have "linked ?c4 (as @ bs)"
    using assms(1) c2(3,4) nd(6) relinked_occupied [OF c2(2)] c0 same nd(7)
      seg_cong [of "as @ bs" ?c4 c2]
    by (auto simp: linked_def hd_or_append hd_or_ne)
  moreover have "length (lru_nodes c2) = length (lru_nodes c)"
    "\<forall>j. j \<noteq> i \<longrightarrow> map_option node_payload (node_at c2 j) = map_option node_payload (node_at c j)"
    "lru_indices c2 = lru_indices c" "lru_free c2 = lru_free c" "lru_used c2 = lru_used c"
    "lru_capacity c2 = lru_capacity c"
    using c2(2) c0 by (auto simp: relinked_def)
  ultimately show ?thesis using run same nd(1) assms(2) by auto
qed

section \<open>The specification: entries from the least to the most recent\<close>

type_synonym ('k, 'v) entry = "'k \<times> 'v \<times> u64"

definition entries :: "('k, 'v) lru \<Rightarrow> nat list \<Rightarrow> ('k, 'v) entry list" where
  "entries c is = map (\<lambda>i. node_payload (the (node_at c i))) is"

abbreviation weights :: "('k, 'v) entry list \<Rightarrow> nat" where
  "weights xs \<equiv> sum_list (map (\<lambda>(k, v, w). unat w) xs)"

definition stocked :: "('k, 'v) lru \<Rightarrow> nat list \<Rightarrow> bool" where
  "stocked c is \<longleftrightarrow> distinct (lru_free c)
    \<and> set (lru_free c) = {j. j < length (lru_nodes c) \<and> node_at c j = None}
    \<and> distinct (map fst (lru_indices c))
    \<and> (\<forall>k i. map_of (lru_indices c) k = Some i \<longleftrightarrow> (i \<in> set is \<and> fst (node_payload (the (node_at c i))) = k))
    \<and> unat (lru_used c) = weights (entries c is)
    \<and> lru_used c \<le> lru_capacity c \<and> lru_capacity c < - 1"

definition lru_repr :: "('k, 'v) lru \<Rightarrow> ('k, 'v) entry list \<Rightarrow> bool" where
  "lru_repr c xs \<longleftrightarrow> (\<exists>is. linked c is \<and> stocked c is \<and> xs = entries c is)"

lemma entries_simps [simp]:
  "entries c [] = []" "entries c (i # is) = node_payload (the (node_at c i)) # entries c is"
  "entries c (is @ js) = entries c is @ entries c js"
  by (simp_all add: entries_def)

lemma entries_cong: "(\<And>i. i \<in> set is \<Longrightarrow> map_option node_payload (node_at c' i) = map_option node_payload (node_at c i))
   \<Longrightarrow> (\<And>i. i \<in> set is \<Longrightarrow> node_at c i \<noteq> None) \<Longrightarrow> entries c' is = entries c is"
  by (fastforce simp: entries_def)

lemma node_payload_the_cong: "map_option node_payload (node_at c' i) = map_option node_payload (node_at c i)
   \<Longrightarrow> node_at c i \<noteq> None \<Longrightarrow> node_payload (the (node_at c' i)) = node_payload (the (node_at c i))"
  by auto

lemma touch_stocked:
  assumes "linked c (as @ i # bs)" and "stocked c (as @ i # bs)"
    and "relinked UNIV c c'"
  shows "stocked c' (as @ bs @ [i]) \<and> entries c' (as @ bs @ [i]) = entries c (as @ bs @ [i])"
proof -
  have occ: "node_at c j \<noteq> None" if "j \<in> set (as @ i # bs)" for j using assms(1) that by (auto simp: linked_def)
  have pay: "node_payload (the (node_at c' j)) = node_payload (the (node_at c j))" if "j \<in> set (as @ i # bs)" for j
    using node_payload_the_cong [of c' j c] occ [OF that] assms(3) by (simp add: relinked_def)
  have ent: "entries c' js = entries c js" if "set js \<subseteq> set (as @ i # bs)" for js
    unfolding entries_def using pay that by (intro map_cong) blast+
  have none: "node_at c' j = None \<longleftrightarrow> node_at c j = None" for j
    using relinked_occupied [OF assms(3), of j] by auto
  have same: "length (lru_nodes c') = length (lru_nodes c)" "lru_indices c' = lru_indices c"
    "lru_free c' = lru_free c" "lru_used c' = lru_used c" "lru_capacity c' = lru_capacity c"
    using assms(3) by (simp_all add: relinked_def)
  have keys: "(j \<in> set (as @ bs @ [i]) \<and> fst (node_payload (the (node_at c' j))) = k)
      \<longleftrightarrow> (j \<in> set (as @ i # bs) \<and> fst (node_payload (the (node_at c j))) = k)" for j k
    using pay [of j] by (cases "j \<in> set (as @ i # bs)") auto
  have "weights (entries c' (as @ bs @ [i])) = weights (entries c (as @ i # bs))"
    using ent [of as] ent [of bs] ent [of "[i]"] by (auto simp: subset_iff)
  then have "stocked c' (as @ bs @ [i])"
    using assms(2) unfolding stocked_def same none keys by (simp only: simp_thms)
  with ent [of as] ent [of bs] ent [of "[i]"] show ?thesis by (auto simp: subset_iff)
qed

lemma map_of_delete: "map_of (AList.delete k xs) = (map_of xs)(k := None)"
  by (rule delete_conv')

lemma remove_index_repr:
  assumes "linked c (as @ i # bs)" and "stocked c (as @ i # bs)"
  obtains nd c' where "node_at c i = Some nd" "remove_index i c = Some (Some nd, c')"
    "linked c' (as @ bs)" "stocked c' (as @ bs)"
    "entries c' (as @ bs) = entries c (as @ bs)" "lru_capacity c' = lru_capacity c"
    "length (lru_indices c') < length (lru_indices c)"
proof -
  from assms(1) obtain nd where nd: "node_at c i = Some nd" "i \<notin> set (as @ bs)" by (auto elim: linkedD)
  from remove_index_linked [OF assms(1) nd(1)] obtain c' where c':
    "remove_index i c = Some (Some nd, c')" "linked c' (as @ bs)"
    "length (lru_nodes c') = length (lru_nodes c)"
    "\<And>j. j \<noteq> i \<Longrightarrow> map_option node_payload (node_at c' j) = map_option node_payload (node_at c j)"
    "lru_indices c' = AList.delete (n_key nd) (lru_indices c)"
    "lru_free c' = lru_free c @ [i]" "lru_used c' = sat_sub (lru_used c) (n_weight nd)"
    "lru_capacity c' = lru_capacity c" by blast
  have occ: "node_at c j \<noteq> None \<longleftrightarrow> j \<in> set (as @ i # bs)"
    and occ': "node_at c' j \<noteq> None \<longleftrightarrow> j \<in> set (as @ bs)" for j
    using assms(1) c'(2) by (auto simp: linked_def)
  have pay: "node_payload (the (node_at c' j)) = node_payload (the (node_at c j))" if "j \<in> set (as @ bs)" for j
    using node_payload_the_cong [of c' j c] c'(4) [of j] occ [of j] that nd(2) by auto
  have ent: "entries c' (as @ bs) = entries c (as @ bs)" using pay by (auto simp: entries_def)
  have keys: "map_of (lru_indices c) k = Some j \<longleftrightarrow> (j \<in> set (as @ i # bs) \<and> fst (node_payload (the (node_at c j))) = k)" for k j
    using assms(2) unfolding stocked_def by blast
  have ki: "map_of (lru_indices c) (n_key nd) = Some i" using keys [of "n_key nd" i] nd(1) by (simp add: node_payload_def)
  have used: "unat (lru_used c') = weights (entries c (as @ bs))"
    using assms(2) nd(1) by (simp add: stocked_def c'(7) unat_sat_sub node_payload_def)
  have free: "set (lru_free c') = {j. j < length (lru_nodes c') \<and> node_at c' j = None}"
  proof -
    have "node_at c' j = None \<longleftrightarrow> node_at c j = None \<or> j = i" for j
      using occ [of j] occ' [of j] nd(2) by auto
    then show ?thesis
      using assms(2) c'(3,6) node_at_Some_less [OF nd(1)] by (auto simp: stocked_def)
  qed
  have dist: "distinct (lru_free c')" using assms(2) nd(1) c'(6) by (auto simp: stocked_def)
  have keys': "map_of (lru_indices c') k = Some j \<longleftrightarrow> (j \<in> set (as @ bs) \<and> fst (node_payload (the (node_at c' j))) = k)" for k j
    using keys [of k j] ki pay [of j] nd unfolding c'(5) map_of_delete by (auto simp: node_payload_def)
  have "unat (lru_used c) \<le> unat (lru_capacity c)"
    using assms(2) unfolding stocked_def word_le_nat_alt by blast
  then have le: "lru_used c' \<le> lru_capacity c'" using c'(7,8)
    by (simp add: word_le_nat_alt unat_sat_sub)
  have "stocked c' (as @ bs)"
    using assms(2) free dist used ent keys' le c'(5,8)
    by (auto simp: stocked_def distinct_delete)
  moreover have "length (lru_indices c') < length (lru_indices c)"
    using ki unfolding c'(5) AList.delete_eq by (intro length_filter_less) (auto dest: map_of_SomeD)
  ultimately show thesis using that nd(1) c'(1,2,8) ent by blast
qed


lemma node_at_append: "node_at (c\<lparr>lru_nodes := lru_nodes c @ [None]\<rparr>) j = node_at c j"
  by (auto simp: node_at_def nth_append)

text \<open>A free slot: the last one of the free list, or a new one at the end of the slab.\<close>

definition free_slot :: "('k, 'v) lru \<Rightarrow> nat \<times> ('k, 'v) lru" where
  "free_slot c = (case lru_free c of
      [] \<Rightarrow> (length (lru_nodes c), c\<lparr>lru_nodes := lru_nodes c @ [None]\<rparr>)
    | _ \<Rightarrow> (last (lru_free c), c\<lparr>lru_free := butlast (lru_free c)\<rparr>))"

lemma free_slot_stocked:
  assumes "linked c is" and "stocked c is" and "free_slot c = (i, c1)"
  shows "linked c1 is" "i \<notin> set is" "i < length (lru_nodes c1)" "distinct (lru_free c1)"
    "set (lru_free c1) = {j. j < length (lru_nodes c1) \<and> node_at c1 j = None} - {i}"
    "node_at c1 = node_at c" "lru_indices c1 = lru_indices c" "lru_used c1 = lru_used c"
    "lru_capacity c1 = lru_capacity c" "most_recent c1 = most_recent c"
proof -
  have same: "node_at c1 = node_at c" "lru_indices c1 = lru_indices c" "lru_used c1 = lru_used c"
    "lru_capacity c1 = lru_capacity c" "most_recent c1 = most_recent c" "least_recent c1 = least_recent c"
    using assms(3) by (auto simp: free_slot_def node_at_append node_at_def fun_eq_iff nth_append split: list.splits)
  have free: "distinct (lru_free c)" "set (lru_free c) = {j. j < length (lru_nodes c) \<and> node_at c j = None}"
    using assms(2) unfolding stocked_def by blast+
  have "i < length (lru_nodes c1) \<and> distinct (lru_free c1) \<and> node_at c i = None
    \<and> set (lru_free c1) = {j. j < length (lru_nodes c1) \<and> node_at c j = None} - {i}"
  proof (cases "lru_free c" rule: rev_cases)
    case Nil
    with assms(3) free show ?thesis by (auto simp: free_slot_def node_at_def less_Suc_eq)
  next
    case (snoc fs f)
    then have "i = f" "c1 = c\<lparr>lru_free := fs\<rparr>"
      using assms(3) by (cases fs; simp add: free_slot_def)+
    with snoc free show ?thesis by auto
  qed
  moreover have "linked c1 is"
    using assms(1) same seg_cong [of "is" c1 c] by (simp add: linked_def)
  moreover have "node_at c j \<noteq> None \<longleftrightarrow> j \<in> set is" if "j = i" for j using assms(1) by (simp add: linked_def)
  ultimately show "linked c1 is" "i \<notin> set is" "i < length (lru_nodes c1)" "distinct (lru_free c1)"
    "set (lru_free c1) = {j. j < length (lru_nodes c1) \<and> node_at c1 j = None} - {i}"
    "node_at c1 = node_at c" "lru_indices c1 = lru_indices c" "lru_used c1 = lru_used c"
    "lru_capacity c1 = lru_capacity c" "most_recent c1 = most_recent c"
    using same by auto
qed

lemma link_new_repr:
  assumes "linked c is" and "stocked c is" and "map_of (lru_indices c) k = None"
    and "unat (lru_used c) + unat w \<le> unat (lru_capacity c)"
  shows "\<exists>i c'. link_new k v w c = Some c' \<and> linked c' (is @ [i]) \<and> stocked c' (is @ [i])
    \<and> entries c' (is @ [i]) = entries c is @ [(k, v, w)] \<and> lru_capacity c' = lru_capacity c"
proof -
  obtain i c1 where slot: "free_slot c = (i, c1)" by fastforce
  note c1 = free_slot_stocked [OF assms(1,2) slot]
  let ?nd = "\<lparr>n_key = k, n_value = v, n_weight = w, n_previous = most_recent c1, n_next = None\<rparr>"
  let ?c2 = "c1\<lparr>lru_nodes := (lru_nodes c1)[i := Some ?nd]\<rparr>"
  have c2: "node_at ?c2 j = (if j = i then Some ?nd else node_at c j)" for j
    using c1(3) by (simp add: node_at_upd c1(6))
  have lk: "seg c1 None is None" "distinct is" "least_recent c1 = hd_or is None"
    "most_recent c1 = last_or None is" "\<And>j. node_at c1 j \<noteq> None \<longleftrightarrow> j \<in> set is"
    using c1(1) by (auto simp: linked_def)
  have "seg ?c2 None is None"
    using lk(1) c1(2,6) c2 seg_cong [of "is" ?c2 c1] by auto
  from repair_left [OF this lk(2), of "Some i"] obtain c3 where
    c3: "(case last_or None is of Some p \<Rightarrow> node_mut p (\<lambda>m. m\<lparr>n_next := Some i\<rparr>) ?c2
                | None \<Rightarrow> Some (?c2\<lparr>least_recent := Some i\<rparr>)) = Some c3"
    "relinked (set is) ?c2 c3" "seg c3 None is (Some i)"
    "least_recent c3 = (if is = [] then Some i else least_recent ?c2)" by auto
  let ?c = "c3\<lparr>most_recent := Some i, lru_used := sat_add (lru_used c3) w,
              lru_indices := AList.update k i (lru_indices c3)\<rparr>"
  have run: "link_new k v w c = Some ?c"
    using slot c3(1) lk(4) by (simp add: link_new_def free_slot_def [symmetric] Let_def cong: option.case_cong)
  have same: "node_at ?c j = node_at c3 j" for j by (simp add: node_at_def)
  have ndi: "node_at ?c i = Some ?nd" using c3(2) c1(2) c2 [of i] same by (simp add: relinked_def)
  have occ: "node_at ?c j \<noteq> None \<longleftrightarrow> j \<in> set (is @ [i])" for j
    using relinked_occupied [OF c3(2), of j] same [of j] c2 [of j] lk(5) [of j] c1(6) by auto
  have pay: "node_payload (the (node_at ?c j)) = node_payload (the (node_at c j))" if "j \<in> set is" for j
  proof -
    have "map_option node_payload (node_at c3 j) = map_option node_payload (node_at ?c2 j)"
      using c3(2) unfolding relinked_def by blast
    moreover have "j \<noteq> i" using that c1(2) by blast
    ultimately have "map_option node_payload (node_at c3 j) = map_option node_payload (node_at c j)"
      unfolding c2 by simp
    then show ?thesis using node_payload_the_cong [of c3 j c] lk(5) [of j] c1(6) that same [of j] by simp
  qed
  have ent: "entries ?c is = entries c is" using pay by (simp add: entries_def)
  have "seg ?c None (is @ [i]) None"
    using c3(3) ndi lk(4) seg_cong [of "is" ?c c3] same by (simp add: seg_append)
  then have linked: "linked ?c (is @ [i])"
    using occ lk c1(2) c3(4) by (auto simp: linked_def hd_or_append hd_or_ne)
  have keys: "map_of (lru_indices c) k' = Some j \<longleftrightarrow> (j \<in> set is \<and> fst (node_payload (the (node_at c j))) = k')" for k' j
    using assms(2) unfolding stocked_def by blast
  have keep: "lru_indices c3 = lru_indices c" "lru_free c3 = lru_free c1" "lru_used c3 = lru_used c"
    "lru_capacity c3 = lru_capacity c" "length (lru_nodes c3) = length (lru_nodes c1)"
    using c3(2) c1(7-9) by (simp_all add: relinked_def)
  have keys': "map_of (lru_indices ?c) k' = Some j \<longleftrightarrow> (j \<in> set (is @ [i]) \<and> fst (node_payload (the (node_at ?c j))) = k')" for k' j
  proof (cases "j = i")
    case True
    have "map_of (lru_indices ?c) k' = Some i \<longleftrightarrow> k = k'"
      using keys [of k' i] c1(2) by (auto simp: keep update_conv')
    then show ?thesis using ndi unfolding True by (simp add: node_payload_def)
  next
    case False
    then show ?thesis using keys [of k' j] pay [of j] assms(3) by (auto simp: keep update_conv')
  qed
  have bounded: "unat (lru_used c) + unat w < 2 ^ 64"
    using assms(4) unat_less_exp [of "lru_capacity c"] by simp
  have used: "unat (lru_used ?c) = weights (entries ?c (is @ [i]))" "lru_used ?c \<le> lru_capacity ?c"
    using assms(2,4) bounded ent ndi
    by (auto simp: keep unat_sat_add node_payload_def stocked_def word_le_nat_alt)
  have free: "distinct (lru_free ?c)"
    "set (lru_free ?c) = {j. j < length (lru_nodes ?c) \<and> node_at ?c j = None}"
  proof -
    have "node_at ?c j = None \<longleftrightarrow> node_at c1 j = None \<and> j \<noteq> i" for j
      using occ [of j] lk(5) [of j] by auto
    then show "distinct (lru_free ?c)"
      "set (lru_free ?c) = {j. j < length (lru_nodes ?c) \<and> node_at ?c j = None}"
      using c1(4,5) by (auto simp: keep)
  qed
  have "stocked ?c (is @ [i])"
    using assms(2) used free keys'
    unfolding stocked_def by (simp add: keep distinct_update)
  with linked ent ndi run keep(4) show ?thesis by (auto simp: node_payload_def)
qed


section \<open>The operations on the list of entries\<close>

definition a_lookup :: "'k \<Rightarrow> ('k, 'v) entry list \<Rightarrow> ('k, 'v) entry option" where
  "a_lookup k xs = find (\<lambda>e. fst e = k) xs"

definition a_drop :: "'k \<Rightarrow> ('k, 'v) entry list \<Rightarrow> ('k, 'v) entry list" where
  "a_drop k xs = filter (\<lambda>e. fst e \<noteq> k) xs"

text \<open>Evict from the old end until an entry of weight \<open>w\<close> fits.\<close>

fun a_evict :: "nat \<Rightarrow> nat \<Rightarrow> ('k, 'v) entry list \<Rightarrow> ('k, 'v) entry list" where
  "a_evict cap w [] = []"
| "a_evict cap w (x # xs) = (if cap < weights (x # xs) + w then a_evict cap w xs else x # xs)"

definition a_get :: "'k \<Rightarrow> ('k, 'v) entry list \<Rightarrow> 'v option \<times> ('k, 'v) entry list" where
  "a_get k xs = (case a_lookup k xs of None \<Rightarrow> (None, xs)
     | Some e \<Rightarrow> (Some (fst (snd e)), a_drop k xs @ [e]))"

definition a_insert :: "nat \<Rightarrow> 'k \<Rightarrow> 'v \<Rightarrow> u64 \<Rightarrow> ('k, 'v) entry list \<Rightarrow> nat \<times> ('k, 'v) entry list" where
  "a_insert cap k v w xs =
    (let ys = a_drop k xs; zs = a_evict cap (unat w) ys
     in if cap = 0 \<or> cap < unat w then (0, ys) else (length ys - length zs, zs @ [(k, v, w)]))"

definition a_pop :: "('k, 'v) entry list \<Rightarrow> ('k \<times> 'v) option \<times> ('k, 'v) entry list" where
  "a_pop xs = (case xs of [] \<Rightarrow> (None, []) | e # es \<Rightarrow> (Some (fst e, fst (snd e)), es))"

definition a_remove :: "'k \<Rightarrow> ('k, 'v) entry list \<Rightarrow> 'v option \<times> ('k, 'v) entry list" where
  "a_remove k xs = (map_option (\<lambda>e. fst (snd e)) (a_lookup k xs), a_drop k xs)"

lemma a_evict_suffix: "suffix (a_evict cap w xs) xs"
  by (induction xs) (auto simp: suffix_Cons)

lemma a_evict_fits: "w \<le> cap \<Longrightarrow> weights (a_evict cap w xs) + w \<le> cap"
  by (induction xs) auto

text \<open>Keys determine slots, so an entry's key occurs once.\<close>

lemma lookup_split:
  assumes "linked c is" and "stocked c is" and "map_of (lru_indices c) k = Some i"
  obtains as bs where "is = as @ i # bs" "fst (node_payload (the (node_at c i))) = k"
    "a_lookup k (entries c is) = Some (node_payload (the (node_at c i)))"
    "a_drop k (entries c is) = entries c (as @ bs)"
proof -
  have keys: "map_of (lru_indices c) k = Some j \<longleftrightarrow> (j \<in> set is \<and> fst (node_payload (the (node_at c j))) = k)" for j
    using assms(2) unfolding stocked_def by blast
  from keys [of i] assms(3) have i: "i \<in> set is" "fst (node_payload (the (node_at c i))) = k" by auto
  from i(1) obtain as bs where split: "is = as @ i # bs" by (auto simp: in_set_conv_decomp)
  have "i \<notin> set (as @ bs)" using assms(1) split by (auto simp: linked_def)
  then have others: "fst (node_payload (the (node_at c j))) \<noteq> k" if "j \<in> set (as @ bs)" for j
    using keys [of j] assms(3) that split by auto
  have drop: "a_drop k (entries c js) = entries c js" if "set js \<subseteq> set (as @ bs)" for js
    using others that by (induction js) (auto simp: a_drop_def)
  have find: "find (\<lambda>e. fst e = k) (entries c js @ e # es) = Some e" if "set js \<subseteq> set (as @ bs)" "fst e = k" for js e es
    using others that by (induction js) auto
  show thesis
    using drop [of as] drop [of bs] find [of as] i(2)
    by (intro that [OF split i(2)]) (auto simp: split a_drop_def a_lookup_def subset_iff)
qed

lemma lookup_absent:
  assumes "stocked c is" and "map_of (lru_indices c) k = None"
  shows "a_lookup k (entries c is) = None" "a_drop k (entries c is) = entries c is"
proof -
  have "map_of (lru_indices c) k = Some j \<longleftrightarrow> (j \<in> set is \<and> fst (node_payload (the (node_at c j))) = k)" for j
    using assms(1) unfolding stocked_def by blast
  with assms(2) have "fst e \<noteq> k" if "e \<in> set (entries c is)" for e
    using that by (auto simp: entries_def)
  then show "a_lookup k (entries c is) = None" "a_drop k (entries c is) = entries c is"
    unfolding a_lookup_def a_drop_def find_None_iff by (blast, simp)
qed

lemma lru_new_capacity [simp]: "lru_capacity (lru_new cap) = cap"
  by (simp add: lru_new_def)

lemma lru_new_repr: "cap < - 1 \<Longrightarrow> lru_repr (lru_new cap) []"
  unfolding lru_repr_def
  by (rule exI [of _ "[]"]) (simp add: linked_def stocked_def lru_new_def node_at_def)

lemma lru_clear_repr: "lru_repr c xs \<Longrightarrow> lru_repr (lru_clear c) []"
  unfolding lru_repr_def
  by (rule exI [of _ "[]"]) (auto simp: linked_def stocked_def lru_clear_def node_at_def)

lemma lru_get_refines:
  assumes "lru_repr c xs"
  shows "\<exists>c'. lru_get k c = Some (fst (a_get k xs), c') \<and> lru_repr c' (snd (a_get k xs))
    \<and> lru_capacity c' = lru_capacity c"
proof -
  from assms obtain "is" where is_: "linked c is" "stocked c is" "xs = entries c is"
    by (auto simp: lru_repr_def)
  show ?thesis
  proof (cases "map_of (lru_indices c) k")
    case None
    with lookup_absent [OF is_(2) None] assms is_(3) show ?thesis by (simp add: lru_get_def a_get_def)
  next
    case (Some i)
    from lookup_split [OF is_(1,2) Some] obtain as bs where
      s: "is = as @ i # bs" "fst (node_payload (the (node_at c i))) = k"
      "a_lookup k xs = Some (node_payload (the (node_at c i)))" "a_drop k xs = entries c (as @ bs)"
      using is_(3) by metis
    from touch_linked [of c as i bs] is_(1) s(1) obtain c' where
      c': "touch i c = Some c'" "linked c' (as @ bs @ [i])" "relinked UNIV c c'" by auto
    from touch_stocked [of c as i bs c'] is_ s(1) c'(3)
    have st: "stocked c' (as @ bs @ [i])" "entries c' (as @ bs @ [i]) = entries c (as @ bs @ [i])" by auto
    from c'(2) obtain nd where nd: "node_at c' i = Some nd" by (auto simp: linked_def)
    then have "node_payload (the (node_at c i)) = node_payload nd" using st(2) by simp
    then have "n_value nd = fst (snd (node_payload (the (node_at c i))))" by (simp add: node_payload_def)
    moreover have "lru_repr c' (a_drop k xs @ [node_payload (the (node_at c i))])"
      unfolding lru_repr_def using c'(2) st s(4) by (intro exI [of _ "as @ bs @ [i]"]) simp
    moreover have "lru_capacity c' = lru_capacity c" using c'(3) by (simp add: relinked_def)
    ultimately show ?thesis using Some c'(1) nd s(3) by (simp add: lru_get_def a_get_def)
  qed
qed

text \<open>\<open>remove_index\<close> at the slot of a key, in terms of the entries.\<close>

lemma remove_slot_refines:
  assumes "lru_repr c xs" and "map_of (lru_indices c) k = Some i"
  obtains nd c' where "remove_index i c = Some (Some nd, c')" "lru_repr c' (a_drop k xs)"
    "a_lookup k xs = Some (node_payload nd)" "lru_capacity c' = lru_capacity c"
    "map_of (lru_indices c') k = None"
proof -
  from assms(1) obtain "is" where is_: "linked c is" "stocked c is" "xs = entries c is"
    by (auto simp: lru_repr_def)
  from lookup_split [OF is_(1,2) assms(2)] obtain as bs where
    s: "is = as @ i # bs" "fst (node_payload (the (node_at c i))) = k"
    "a_lookup k xs = Some (node_payload (the (node_at c i)))" "a_drop k xs = entries c (as @ bs)"
    using is_(3) by metis
  from remove_index_repr [of c as i bs] is_ s(1) obtain nd c' where
    r: "node_at c i = Some nd" "remove_index i c = Some (Some nd, c')"
    "linked c' (as @ bs)" "stocked c' (as @ bs)" "entries c' (as @ bs) = entries c (as @ bs)"
    "lru_capacity c' = lru_capacity c" by metis
  have "map_of (lru_indices c') k = Some j \<longleftrightarrow> (j \<in> set (as @ bs) \<and> fst (node_payload (the (node_at c' j))) = k)" for j
    using r(4) unfolding stocked_def by blast
  moreover have "fst e \<noteq> k" if "e \<in> set (entries c (as @ bs))" for e
    using that unfolding s(4) [symmetric] by (simp add: a_drop_def)
  then have "j \<in> set (as @ bs) \<Longrightarrow> fst (node_payload (the (node_at c' j))) \<noteq> k" for j
    using r(5) unfolding entries_def by (metis (no_types, lifting) imageI list.set_map)
  ultimately have "map_of (lru_indices c') k = None" by (cases "map_of (lru_indices c') k") auto
  moreover have "lru_repr c' (a_drop k xs)"
    unfolding lru_repr_def using r(3-5) s(4) by (intro exI [of _ "as @ bs"]) simp
  ultimately show thesis using that r(1,2,6) s(3) by simp
qed

lemma lru_remove_refines:
  assumes "lru_repr c xs"
  shows "\<exists>c'. lru_remove k c = Some (fst (a_remove k xs), c') \<and> lru_repr c' (snd (a_remove k xs))
    \<and> lru_capacity c' = lru_capacity c"
proof (cases "map_of (lru_indices c) k")
  case None
  from assms obtain "is" where "linked c is" "stocked c is" "xs = entries c is"
    by (auto simp: lru_repr_def)
  with lookup_absent [of c "is" k] None assms show ?thesis
    by (simp add: lru_remove_def a_remove_def)
next
  case (Some i)
  from remove_slot_refines [OF assms Some] obtain nd c' where
    "remove_index i c = Some (Some nd, c')" "lru_repr c' (a_drop k xs)"
    "a_lookup k xs = Some (node_payload nd)" "lru_capacity c' = lru_capacity c" by metis
  with Some show ?thesis by (simp add: lru_remove_def a_remove_def node_payload_def)
qed

text \<open>Removing the least recent slot drops the first entry.\<close>

lemma remove_least:
  assumes "lru_repr c (x # xs)"
  obtains i nd c' where "least_recent c = Some i" "remove_index i c = Some (Some nd, c')"
    "lru_repr c' xs" "node_payload nd = x" "lru_capacity c' = lru_capacity c"
    "length (lru_indices c') < length (lru_indices c)"
    "\<And>k. map_of (lru_indices c) k = None \<Longrightarrow> map_of (lru_indices c') k = None"
proof -
  from assms obtain "is" where is_: "linked c is" "stocked c is" "entries c is = x # xs"
    by (auto simp: lru_repr_def)
  then obtain i bs where split: "is = [] @ i # bs" by (cases "is") auto
  from remove_index_repr [of c "[]" i bs] is_ split obtain nd c' where
    r: "node_at c i = Some nd" "remove_index i c = Some (Some nd, c')"
    "linked c' bs" "stocked c' bs" "entries c' bs = entries c bs" "lru_capacity c' = lru_capacity c"
    "length (lru_indices c') < length (lru_indices c)" by auto
  have "lru_repr c' xs" unfolding lru_repr_def using r(3-5) is_(3) split by auto
  moreover have "least_recent c = Some i" using is_(1) split by (simp add: linked_def)
  moreover have "map_of (lru_indices c') k = None" if "map_of (lru_indices c) k = None" for k
    using remove_index_linked [of c "[]" i bs nd] is_(1) split r(1,2) that
    by (auto simp: map_of_delete)
  ultimately show thesis using that r is_(3) split by auto
qed

lemma lru_repr_Nil: "lru_repr c [] \<Longrightarrow> least_recent c = None \<and> unat (lru_used c) = 0"
  unfolding lru_repr_def linked_def stocked_def entries_def by auto

lemma pop_lru_refines:
  assumes "lru_repr c xs"
  shows "\<exists>c'. pop_lru c = Some (fst (a_pop xs), c') \<and> lru_repr c' (snd (a_pop xs))
    \<and> lru_capacity c' = lru_capacity c"
proof (cases xs)
  case Nil
  with assms lru_repr_Nil [of c] show ?thesis by (auto simp: pop_lru_def a_pop_def)
next
  case (Cons x ys)
  with assms obtain i nd c' where "least_recent c = Some i" "remove_index i c = Some (Some nd, c')"
    "lru_repr c' ys" "node_payload nd = x" "lru_capacity c' = lru_capacity c" by (metis remove_least)
  with Cons show ?thesis by (auto simp: pop_lru_def a_pop_def node_payload_def)
qed


lemma lru_repr_used: "lru_repr c xs \<Longrightarrow> unat (lru_used c) = weights xs \<and> weights xs \<le> unat (lru_capacity c)
    \<and> unat (lru_capacity c) < 2 ^ 64 - 1"
  by (auto simp: lru_repr_def stocked_def word_le_nat_alt word_less_nat_alt)

lemma clamp_word_Suc: "sat_add (clamp_word n) 1 = (clamp_word (Suc n) :: u64)"
proof -
  have "unat (sat_add (clamp_word n) 1 :: u64) = unat (clamp_word (Suc n) :: u64)"
    by (simp add: unat_sat_add clamp_word_def unat_of_nat del: of_nat_Suc)
  then show ?thesis by (rule unsigned_word_eqI)
qed

lemma evict_loop_refines:
  assumes "lru_repr c xs" and "length (lru_indices c) \<le> fuel" and "unat w \<le> unat (lru_capacity c)"
    and "map_of (lru_indices c) k = None"
  shows "\<exists>c'. evict_loop fuel w (clamp_word n) c =
      Some (clamp_word (n + (length xs - length (a_evict (unat (lru_capacity c)) (unat w) xs))), c')
    \<and> lru_repr c' (a_evict (unat (lru_capacity c)) (unat w) xs) \<and> lru_capacity c' = lru_capacity c
    \<and> map_of (lru_indices c') k = None"
  using assms
proof (induction xs arbitrary: c fuel n)
  case Nil
  then show ?case using lru_repr_Nil [of c]
    by (subst evict_loop.simps) (auto split: if_splits)
next
  case (Cons x xs)
  note used = lru_repr_used [OF Cons.prems(1)]
  have full: "lru_capacity c < sat_add (lru_used c) w \<longleftrightarrow> unat (lru_capacity c) < weights (x # xs) + unat w"
    using used by (auto simp: word_less_nat_alt unat_sat_add)
  show ?case
  proof (cases "unat (lru_capacity c) < weights (x # xs) + unat w")
    case False
    with full Cons.prems show ?thesis by (subst evict_loop.simps) auto
  next
    case True
    from remove_least [OF Cons.prems(1)] obtain i nd c1 where
      c1: "least_recent c = Some i" "remove_index i c = Some (Some nd, c1)" "lru_repr c1 xs"
      "lru_capacity c1 = lru_capacity c" "length (lru_indices c1) < length (lru_indices c)"
      "map_of (lru_indices c1) k = None" using Cons.prems(4) by metis
    from c1(5) Cons.prems(2) obtain fuel' where fuel: "fuel = Suc fuel'" "length (lru_indices c1) \<le> fuel'"
      by (cases fuel) auto
    have "length (a_evict (unat (lru_capacity c)) (unat w) xs) \<le> length xs"
      using a_evict_suffix suffix_length_le by blast
    with Cons.IH [OF c1(3) fuel(2) _ c1(6), of "Suc n"] Cons.prems(3) c1 fuel(1) True full
    show ?thesis by (subst evict_loop.simps) (simp add: clamp_word_Suc Suc_diff_le)
  qed
qed

lemma insert_refines:
  assumes "lru_repr c xs"
  shows "\<exists>c'. insert_counting_evictions k v w c =
      Some (clamp_word (fst (a_insert (unat (lru_capacity c)) k v w xs)), c')
    \<and> lru_repr c' (snd (a_insert (unat (lru_capacity c)) k v w xs)) \<and> lru_capacity c' = lru_capacity c"
proof -
  obtain nd c1 where c1: "(case map_of (lru_indices c) k of
      Some i \<Rightarrow> remove_index i c | None \<Rightarrow> Some (None, c)) = Some (nd, c1)"
    "lru_repr c1 (a_drop k xs)" "lru_capacity c1 = lru_capacity c" "map_of (lru_indices c1) k = None"
  proof (cases "map_of (lru_indices c) k")
    case None
    from assms obtain "is" where "stocked c is" "xs = entries c is" by (auto simp: lru_repr_def)
    with lookup_absent [of c "is" k] None assms that [of None c] show thesis by simp
  next
    case (Some i)
    with remove_slot_refines [OF assms Some] that show thesis by (metis option.simps(5))
  qed
  let ?cap = "unat (lru_capacity c)"
  show ?thesis
  proof (cases "?cap = 0 \<or> ?cap < unat w")
    case True
    then have "lru_capacity c = 0 \<or> lru_capacity c < w" by (auto simp: word_less_nat_alt unat_eq_0)
    with c1 True show ?thesis
      by (simp add: insert_counting_evictions_def a_insert_def clamp_word_def)
  next
    case False
    then have fits: "\<not> (lru_capacity c = 0 \<or> lru_capacity c < w)" "unat w \<le> ?cap"
      by (auto simp: word_less_nat_alt)
    let ?zs = "a_evict ?cap (unat w) (a_drop k xs)"
    from evict_loop_refines [OF c1(2) order_refl, of w k 0] c1(3,4) fits(2) obtain c2 where
      c2: "evict_loop (length (lru_indices c1)) w 0 c1
          = Some (clamp_word (length (a_drop k xs) - length ?zs), c2)"
      "lru_repr c2 ?zs" "lru_capacity c2 = lru_capacity c" "map_of (lru_indices c2) k = None"
      by (auto simp: clamp_word_def [of 0])
    from c2(2) obtain "is" where is_: "linked c2 is" "stocked c2 is" "?zs = entries c2 is"
      by (auto simp: lru_repr_def)
    have "unat (lru_used c2) + unat w \<le> unat (lru_capacity c2)"
      using lru_repr_used [OF c2(2)] a_evict_fits [OF fits(2)] c2(3) by simp
    from link_new_repr [OF is_(1,2) c2(4) this, of v] obtain i c3 where
      c3: "link_new k v w c2 = Some c3" "linked c3 (is @ [i])" "stocked c3 (is @ [i])"
      "entries c3 (is @ [i]) = ?zs @ [(k, v, w)]" "lru_capacity c3 = lru_capacity c2"
      using is_(3) by auto
    have "lru_repr c3 (?zs @ [(k, v, w)])" unfolding lru_repr_def using c3(2-4) by metis
    with c1 c2 c3 fits False show ?thesis
      by (simp add: insert_counting_evictions_def a_insert_def Let_def)
  qed
qed


section \<open>The interface of a recency cache\<close>

datatype ('k, 'v) cache_op = CGet 'k | CInsert 'k 'v u64 | CRemove 'k | CPop | CClear

datatype ('k, 'v) cache_out = OValue "'v option" | OEvicted u64 | OPopped "('k \<times> 'v) option" | ODone

fun a_op :: "nat \<Rightarrow> ('k, 'v) cache_op \<Rightarrow> ('k, 'v) entry list \<Rightarrow> ('k, 'v) cache_out \<times> ('k, 'v) entry list" where
  "a_op cap (CGet k) xs = apfst OValue (a_get k xs)"
| "a_op cap (CInsert k v w) xs = apfst (\<lambda>n. OEvicted (clamp_word n)) (a_insert cap k v w xs)"
| "a_op cap (CRemove k) xs = apfst OValue (a_remove k xs)"
| "a_op cap CPop xs = apfst OPopped (a_pop xs)"
| "a_op cap CClear xs = (ODone, [])"

fun a_run :: "nat \<Rightarrow> ('k, 'v) cache_op list \<Rightarrow> ('k, 'v) entry list \<Rightarrow> ('k, 'v) cache_out list \<times> ('k, 'v) entry list" where
  "a_run cap [] xs = ([], xs)"
| "a_run cap (p # ps) xs = (let (r, ys) = a_op cap p xs; (rs, zs) = a_run cap ps ys in (r # rs, zs))"

text \<open>The same operations on the slab; \<open>None\<close> when a call panics.\<close>

fun lru_op :: "('k, 'v) cache_op \<Rightarrow> ('k, 'v) lru \<Rightarrow> (('k, 'v) cache_out \<times> ('k, 'v) lru) option" where
  "lru_op (CGet k) c = map_option (apfst OValue) (lru_get k c)"
| "lru_op (CInsert k v w) c = map_option (apfst OEvicted) (insert_counting_evictions k v w c)"
| "lru_op (CRemove k) c = map_option (apfst OValue) (lru_remove k c)"
| "lru_op CPop c = map_option (apfst OPopped) (pop_lru c)"
| "lru_op CClear c = Some (ODone, lru_clear c)"

fun lru_run :: "('k, 'v) cache_op list \<Rightarrow> ('k, 'v) lru \<Rightarrow> (('k, 'v) cache_out list \<times> ('k, 'v) lru) option" where
  "lru_run [] c = Some ([], c)"
| "lru_run (p # ps) c = do { (r, c1) \<leftarrow> lru_op p c; (rs, c2) \<leftarrow> lru_run ps c1; Some (r # rs, c2) }"

lemma a_lookup_Some: "a_lookup k xs = Some e \<Longrightarrow> e \<in> set xs \<and> fst e = k"
  by (induction xs) (auto simp: a_lookup_def split: if_splits)

lemma a_get_subset: "set (snd (a_get k xs)) \<subseteq> set xs"
  by (auto simp: a_get_def a_drop_def dest: a_lookup_Some split: option.splits)

lemma a_get_value: "fst (a_get k xs) = Some v \<Longrightarrow> \<exists>w. (k, v, w) \<in> set xs"
  by (cases "a_lookup k xs") (force simp: a_get_def dest: a_lookup_Some)+

lemma a_insert_subset: "set (snd (a_insert cap k v w xs)) \<subseteq> insert (k, v, w) (set xs)"
  using set_mono_suffix [OF a_evict_suffix [of cap "unat w" "a_drop k xs"]]
  by (auto simp: a_insert_def a_drop_def Let_def)

lemma a_lookup_append_absent: "(\<forall>e \<in> set xs. fst e \<noteq> k) \<Longrightarrow> a_lookup k (xs @ e # es) = a_lookup k (e # es)"
  by (induction xs) (auto simp: a_lookup_def)

lemma a_insert_lookup:
  assumes "0 < cap" and "unat w \<le> cap"
  shows "a_lookup k (snd (a_insert cap k v w xs)) = Some (k, v, w)"
proof -
  have "\<forall>e \<in> set (a_evict cap (unat w) (a_drop k xs)). fst e \<noteq> k"
    using set_mono_suffix [OF a_evict_suffix [of cap "unat w" "a_drop k xs"]] by (auto simp: a_drop_def)
  with assms show ?thesis
    by (simp add: a_insert_def Let_def a_lookup_append_absent) (simp add: a_lookup_def)
qed

text \<open>
  What a client of the cache relies on: every operation terminates normally, answers as the
  list of entries does and leaves a cache that represents the new list within its capacity.
\<close>

locale recency_cache =
  fixes repr :: "'c \<Rightarrow> ('k, 'v) entry list \<Rightarrow> bool" and capacity :: "'c \<Rightarrow> u64"
    and get :: "'k \<Rightarrow> 'c \<Rightarrow> ('v option \<times> 'c) option"
    and insert :: "'k \<Rightarrow> 'v \<Rightarrow> u64 \<Rightarrow> 'c \<Rightarrow> (u64 \<times> 'c) option"
  assumes get_law: "repr c xs \<Longrightarrow> \<exists>c'. get k c = Some (fst (a_get k xs), c')
      \<and> repr c' (snd (a_get k xs)) \<and> capacity c' = capacity c"
    and insert_law: "repr c xs \<Longrightarrow> \<exists>c'. insert k v w c =
        Some (clamp_word (fst (a_insert (unat (capacity c)) k v w xs)), c')
      \<and> repr c' (snd (a_insert (unat (capacity c)) k v w xs)) \<and> capacity c' = capacity c"
begin

text \<open>A property of all resident entries survives a lookup, and the answer has it.\<close>

lemma get_keeps:
  assumes "repr c xs" and "\<forall>(k, v, w) \<in> set xs. P k v"
  shows "\<exists>r c' ys. get k c = Some (r, c') \<and> repr c' ys \<and> (\<forall>(k, v, w) \<in> set ys. P k v)
    \<and> (\<forall>v. r = Some v \<longrightarrow> P k v) \<and> capacity c' = capacity c"
proof -
  have "\<forall>(k, v, w) \<in> set (snd (a_get k xs)). P k v"
    using assms(2) a_get_subset [of k xs] by blast
  moreover have "\<forall>v. fst (a_get k xs) = Some v \<longrightarrow> P k v"
  proof (intro allI impI)
    fix v assume "fst (a_get k xs) = Some v"
    then obtain w where "(k, v, w) \<in> set xs" using a_get_value by fastforce
    with assms(2) show "P k v" by auto
  qed
  moreover from get_law [OF assms(1), of k] obtain c' where
    "get k c = Some (fst (a_get k xs), c')" "repr c' (snd (a_get k xs))" "capacity c' = capacity c" by auto
  ultimately show ?thesis
    by (intro exI [of _ "fst (a_get k xs)"] exI [of _ c'] exI [of _ "snd (a_get k xs)"] conjI)
qed

lemma insert_keeps:
  assumes "repr c xs" and "\<forall>(k, v, w) \<in> set xs. P k v" and "P k v"
  shows "\<exists>n c' ys. insert k v w c = Some (n, c') \<and> repr c' ys \<and> (\<forall>(k, v, w) \<in> set ys. P k v)
    \<and> capacity c' = capacity c"
proof -
  have "\<forall>(k, v, w) \<in> set (snd (a_insert (unat (capacity c)) k v w xs)). P k v"
    using assms(2,3) a_insert_subset [of "unat (capacity c)" k v w xs] by blast
  with insert_law [OF assms(1), of k v w] show ?thesis by blast
qed

text \<open>An entry that fits is returned by the next lookup of its key.\<close>

lemma insert_get:
  assumes "repr c xs" and "0 < unat (capacity c)" and "w \<le> capacity c"
  shows "\<exists>n c1 c2. insert k v w c = Some (n, c1) \<and> get k c1 = Some (Some v, c2)"
proof -
  let ?ys = "snd (a_insert (unat (capacity c)) k v w xs)"
  have "fst (a_get k ?ys) = Some v"
    using a_insert_lookup [of "unat (capacity c)" w k v xs] assms(2,3)
    by (simp add: a_get_def word_le_nat_alt)
  with insert_law [OF assms(1), of k v w] get_law [of _ ?ys k] show ?thesis by metis
qed

end

interpretation slab: recency_cache lru_repr lru_capacity lru_get insert_counting_evictions
  by unfold_locales (blast intro: lru_get_refines insert_refines)+

lemma lru_op_refines:
  assumes "lru_repr c xs"
  shows "\<exists>c'. lru_op p c = Some (fst (a_op (unat (lru_capacity c)) p xs), c')
    \<and> lru_repr c' (snd (a_op (unat (lru_capacity c)) p xs)) \<and> lru_capacity c' = lru_capacity c"
proof (cases p)
  case (CGet k)
  with lru_get_refines [OF assms, of k] show ?thesis by auto
next
  case (CInsert k v w)
  with insert_refines [OF assms, of k v w] show ?thesis by auto
next
  case (CRemove k)
  with lru_remove_refines [OF assms, of k] show ?thesis by auto
next
  case CPop
  with pop_lru_refines [OF assms] show ?thesis by auto
next
  case CClear
  with lru_clear_repr [OF assms] show ?thesis by (simp add: lru_clear_def)
qed

lemma lru_run_refines:
  assumes "lru_repr c xs"
  shows "\<exists>c'. lru_run ps c = Some (fst (a_run (unat (lru_capacity c)) ps xs), c')
    \<and> lru_repr c' (snd (a_run (unat (lru_capacity c)) ps xs)) \<and> lru_capacity c' = lru_capacity c"
  using assms
proof (induction ps arbitrary: c xs)
  case (Cons p ps)
  from lru_op_refines [OF Cons.prems, of p] obtain c1 where
    c1: "lru_op p c = Some (fst (a_op (unat (lru_capacity c)) p xs), c1)"
    "lru_repr c1 (snd (a_op (unat (lru_capacity c)) p xs))" "lru_capacity c1 = lru_capacity c" by blast
  with Cons.IH [OF c1(2)] show ?case by (auto simp: case_prod_beta Let_def)
qed simp

text \<open>
  C2. The slab cache implements the least-recently-used policy: from an empty cache of any
  capacity below \<open>u64::MAX\<close>, every sequence of \<open>get\<close>, \<open>insert\<close>,
  \<open>remove\<close>, \<open>pop_lru\<close> and \<open>clear\<close> runs without a panic, answers
  exactly as the list of entries from the least to the most recent does (evictions counted),
  and \<open>used\<close> is the sum of the resident weights, never above the capacity.
\<close>

theorem lru_refines_recency_list:
  assumes "cap < - 1"
  shows "\<exists>c. lru_run ops (lru_new cap) = Some (fst (a_run (unat cap) ops []), c)
    \<and> unat (lru_used c) = weights (snd (a_run (unat cap) ops [])) \<and> lru_used c \<le> cap"
proof -
  from lru_run_refines [OF lru_new_repr [OF assms], of ops] obtain c where
    c: "lru_run ops (lru_new cap) = Some (fst (a_run (unat cap) ops []), c)"
    "lru_repr c (snd (a_run (unat cap) ops []))" "lru_capacity c = cap" by auto
  with lru_repr_used [OF c(2)] show ?thesis by (auto simp: word_le_nat_alt)
qed

theorem lru_refines_recency_list_witness:
  "\<exists>c. lru_run [CInsert 1 ''a'' 4, CInsert 2 ''b'' 4, CGet (1::nat), CInsert 3 ''c'' 4, CGet 2] (lru_new 10)
     = Some ([OEvicted 0, OEvicted 0, OValue (Some ''a''), OEvicted 1, OValue None], c)
    \<and> unat (lru_used c) = 8"
proof -
  let ?ops = "[CInsert 1 ''a'' 4, CInsert 2 ''b'' 4, CGet (1::nat), CInsert 3 ''c'' 4, CGet 2]"
  have "a_run 10 ?ops [] = ([OEvicted 0, OEvicted 0, OValue (Some ''a''), OEvicted 1, OValue None],
      [(1, ''a'', 4), (3, ''c'', 4)])"
    by (simp add: a_insert_def a_get_def a_lookup_def a_drop_def clamp_word_def)
  with lru_refines_recency_list [of 10 ?ops] show ?thesis by auto
qed

text \<open>
  The cache of size \<open>n\<close> keeps what was inserted last: an entry that fits is
  returned by the next lookup of its key, from every state a cache can be in.
\<close>

theorem lru_insert_then_get:
  assumes "lru_run ops (lru_new cap) = Some (outs, c)" and "cap < - 1" and "0 < cap" and "w \<le> cap"
  shows "\<exists>n c1 c2. insert_counting_evictions k v w c = Some (n, c1) \<and> lru_get k c1 = Some (Some v, c2)"
proof -
  from lru_run_refines [OF lru_new_repr [OF assms(2)], of ops] assms(1)
  have "lru_repr c (snd (a_run (unat cap) ops []))" "lru_capacity c = cap" by auto
  with slab.insert_get [of c _ w k v] assms(3,4) show ?thesis by (auto simp: word_less_nat_alt)
qed

theorem lru_insert_then_get_witness:
  "\<exists>outs c n c1 c2. lru_run [CInsert (7::nat) ''x'' 9] (lru_new 10) = Some (outs, c)
    \<and> insert_counting_evictions 8 ''y'' 3 c = Some (n, c1) \<and> lru_get 8 c1 = Some (Some ''y'', c2)"
proof -
  obtain outs c where run: "lru_run [CInsert (7::nat) ''x'' 9] (lru_new 10) = Some (outs, c)"
    using lru_run_refines [OF lru_new_repr, of 10 "[CInsert (7::nat) ''x'' 9]"] by auto
  with lru_insert_then_get [OF run, of 3 8 "''y''"] show ?thesis by auto
qed

end
