(* ===== verification/Cursor.thy ===== *)
theory Cursor
  imports Objects
begin

text \<open>
  Continuation cursors (\<open>cursor.rs\<close>): the frozen version 1 wire format, its CRC-32
  trailer and the FNV-1a option fingerprint. The lemmas characterise \<open>decode\<close> as the
  exact inverse of \<open>encode\<close> and show that no change of one byte is accepted.
\<close>

section \<open>The wire format\<close>

definition VERSION :: u8 where "VERSION = 1"
definition MAX_CURSOR_BYTES :: nat where "MAX_CURSOR_BYTES = 4096"
definition CRC_BYTES :: nat where "CRC_BYTES = 4"

definition OPERATION_LIST_TREE :: u8 where "OPERATION_LIST_TREE = 1"
definition OPERATION_SEARCH :: u8 where "OPERATION_SEARCH = 2"
definition OPERATION_LOG :: u8 where "OPERATION_LOG = 3"
definition OPERATION_HISTORY :: u8 where "OPERATION_HISTORY = 4"
definition OPERATION_REFS :: u8 where "OPERATION_REFS = 5"

record cursor_expected =
  exp_hash_kind :: hash_kind
  exp_snapshot_digest :: bytes
  exp_operation_tag :: u8
  exp_option_fingerprint :: u64

record cursor =
  cur_hash_kind :: hash_kind
  cur_snapshot_digest :: bytes
  cur_operation_tag :: u8
  cur_option_fingerprint :: u64
  cur_generation :: bytes
  cur_position :: bytes

definition hash_tag :: "hash_kind \<Rightarrow> u8" where
  "hash_tag k = (case k of Sha1 \<Rightarrow> 1 | Sha256 \<Rightarrow> 2)"

text \<open>One round of the inner loop of \<open>crc32\<close>, a byte, and the whole checksum.\<close>

definition crc_bit :: "u32 \<Rightarrow> u32" where
  "crc_bit crc = (let mask = 0 - (crc AND 1) in drop_bit 1 crc XOR (0xedb88320 AND mask))"

definition crc_byte :: "u32 \<Rightarrow> byte \<Rightarrow> u32" where
  "crc_byte crc b = (crc_bit ^^ 8) (crc XOR ucast b)"

definition crc32 :: "bytes \<Rightarrow> u32" where
  "crc32 bs = NOT (foldl crc_byte (- 1) bs)"

definition fnv1a_64 :: "bytes \<Rightarrow> u64" where
  "fnv1a_64 bs = foldl (\<lambda>hash b. (hash XOR ucast b) * 0x00000100000001b3) 0xcbf29ce484222325 bs"

definition encode_body :: "cursor \<Rightarrow> bytes" where
  "encode_body c =
    [VERSION] @ [hash_tag (cur_hash_kind c)] @ cur_snapshot_digest c @ [cur_operation_tag c]
    @ u64_le (cur_option_fingerprint c)
    @ u16_le (clamp_word (length (cur_generation c))) @ cur_generation c
    @ u16_le (clamp_word (length (cur_position c))) @ cur_position c"

definition encode :: "cursor \<Rightarrow> bytes" where
  "encode c = encode_body c @ u32_le (crc32 (encode_body c))"

section \<open>Decoding\<close>

definition invalid_cursor :: "string \<Rightarrow> error" where
  "invalid_cursor message = err_new InvalidCursor message"

text \<open>\<open>take\<close>: the slice and the new offset, absent when out of range.\<close>

definition take_at :: "bytes \<Rightarrow> nat \<Rightarrow> nat \<Rightarrow> (bytes \<times> nat) option" where
  "take_at bs offset n =
    (if offset + n \<le> length bs then Some (take n (drop offset bs), offset + n) else None)"

definition read_u16_le :: "bytes \<Rightarrow> u16 option" where
  "read_u16_le bs = (if length bs = 2 then Some (of_nat (le_nat bs)) else None)"
definition read_u32_le :: "bytes \<Rightarrow> u32 option" where
  "read_u32_le bs = (if length bs = 4 then Some (of_nat (le_nat bs)) else None)"
definition read_u64_le :: "bytes \<Rightarrow> u64 option" where
  "read_u64_le bs = (if length bs = 8 then Some (of_nat (le_nat bs)) else None)"

text \<open>A length-prefixed field: its two length bytes, then that many bytes.\<close>

definition take_field :: "string \<Rightarrow> bytes \<Rightarrow> nat \<Rightarrow> error + bytes \<times> nat" where
  "take_field message body offset =
    rbind (ok_or (invalid_cursor message)
      (Option.bind (take_at body offset 2) (\<lambda>(v, off). map_option (\<lambda>n. (unat n, off)) (read_u16_le v))))
    (\<lambda>(len, off). ok_or (invalid_cursor message) (take_at body off len))"

definition decode_body :: "bytes \<Rightarrow> cursor_expected \<Rightarrow> error + cursor" where
  "decode_body body e =
    (if body = [] \<or> hd body \<noteq> VERSION then
       Inl (invalid_cursor ''version check failed: unsupported cursor version'')
     else if \<not> (1 < length body \<and> body ! 1 = hash_tag (exp_hash_kind e)) then
       Inl (invalid_cursor ''hash kind check failed'')
     else if length (exp_snapshot_digest e) \<noteq> digest_len (exp_hash_kind e) then
       Inl (invalid_cursor ''snapshot digest check failed: expected digest is invalid'')
     else rbind (ok_or (invalid_cursor ''snapshot digest check failed: cursor is truncated'')
       (take_at body 2 (digest_len (exp_hash_kind e)))) (\<lambda>(digest, o1).
     if digest \<noteq> exp_snapshot_digest e then Inl (invalid_cursor ''snapshot digest check failed'')
     else rbind (ok_or (invalid_cursor ''operation tag check failed: cursor is truncated'')
       (Option.bind (take_at body o1 1) (\<lambda>(v, off). if v = [] then None else Some (hd v, off)))) (\<lambda>(tag, o2).
     if tag \<noteq> exp_operation_tag e then Inl (invalid_cursor ''operation tag check failed'')
     else rbind (ok_or (invalid_cursor ''option fingerprint check failed: cursor is truncated'')
       (Option.bind (take_at body o2 8) (\<lambda>(v, off). map_option (\<lambda>n. (n, off)) (read_u64_le v)))) (\<lambda>(fp, o3).
     if fp \<noteq> exp_option_fingerprint e then Inl (invalid_cursor ''option fingerprint check failed'')
     else rbind (take_field ''generation length check failed'' body o3) (\<lambda>(generation, o4).
     rbind (take_field ''position length check failed'' body o4) (\<lambda>(pos, o5).
     if o5 \<noteq> length body then Inl (invalid_cursor ''trailing data check failed'')
     else Inr \<lparr>cur_hash_kind = exp_hash_kind e, cur_snapshot_digest = digest, cur_operation_tag = tag,
                cur_option_fingerprint = fp, cur_generation = generation, cur_position = pos\<rparr>))))))"

definition decode :: "bytes \<Rightarrow> cursor_expected \<Rightarrow> error + cursor" where
  "decode bs e =
    (if MAX_CURSOR_BYTES < length bs then
       Inl (invalid_cursor ''length check failed: cursor exceeds 4096 bytes'')
     else if length bs < CRC_BYTES then Inl (invalid_cursor ''CRC check failed: cursor is too short'')
     else let body_len = length bs - CRC_BYTES; body = take body_len bs in
       rbind (ok_or (invalid_cursor ''CRC check failed: cursor checksum is truncated'')
         (read_u32_le (drop body_len bs))) (\<lambda>encoded_crc.
       if crc32 body \<noteq> encoded_crc then
         Inl (invalid_cursor ''CRC check failed: cursor checksum does not match'')
       else decode_body body e))"

section \<open>The checksum is sensitive to every byte\<close>

lemma and_one_bit: "crc AND 1 = (if bit crc 0 then 1 else 0)" for crc :: u32
  by (rule bit_word_eqI) (auto simp: bit_simps intro!: gr0I)

lemma bit_crc_bit: "n < 32 \<Longrightarrow> bit (crc_bit crc) n \<longleftrightarrow> bit crc (Suc n) \<noteq> (bit crc 0 \<and> bit (0xedb88320 :: u32) n)"
  by (simp add: crc_bit_def Let_def and_one_bit bit_simps)

lemma inj_crc_bit: "inj crc_bit"
proof (rule injI)
  fix a b :: u32
  assume eq: "crc_bit a = crc_bit b"
  have top: "bit (crc_bit c) 31 = bit c 0" for c
    using bit_crc_bit [of 31 c] bit_imp_le_length [of c 32] by auto
  have low: "bit a 0 = bit b 0" using eq top by metis
  show "a = b"
  proof (rule bit_word_eqI)
    fix n assume "n < LENGTH(32)"
    then show "bit a n = bit b n"
      using low eq bit_crc_bit [of "n - 1" a] bit_crc_bit [of "n - 1" b] by (cases n) auto
  qed
qed

lemma inj_crc_state: "inj (\<lambda>s. foldl crc_byte s bs)"
proof (induction bs)
  case Nil
  then show ?case by simp
next
  case (Cons b bs)
  have "inj (\<lambda>s. s XOR x)" for x :: u32
    by (rule injI) (metis xor.assoc xor.right_neutral xor_self_eq)
  then have "inj (\<lambda>s. crc_byte s b)"
    unfolding crc_byte_def by (intro inj_compose [OF inj_fn [OF inj_crc_bit], unfolded comp_def])
  with inj_compose [OF Cons this] show ?case by (simp add: comp_def)
qed

lemma inj_crc_byte: "inj (crc_byte s)"
proof (rule injI)
  fix a b :: byte
  assume "crc_byte s a = crc_byte s b"
  then have "s XOR ucast a = s XOR (ucast b :: u32)"
    unfolding crc_byte_def using inj_fn [OF inj_crc_bit] by (auto dest: injD)
  then have "s XOR (s XOR ucast a) = s XOR (s XOR (ucast b :: u32))" by (rule arg_cong)
  then have "unat (ucast a :: u32) = unat (ucast b :: u32)" by (simp flip: xor.assoc)
  moreover have "unat (ucast x :: u32) = unat x" for x :: byte
    using unat_byte_less [of x] by (simp add: unsigned_ucast_eq take_bit_nat_eq_self)
  ultimately have "unat a = unat b" by simp
  then show "a = b" by (rule unsigned_word_eqI)
qed

lemma crc32_one_byte:
  assumes "i < length bs" and "crc32 (bs[i := b]) = crc32 bs"
  shows "b = bs ! i"
proof -
  let ?s = "foldl crc_byte (- 1) (take i bs)"
  have "foldl crc_byte (crc_byte ?s b) (drop (Suc i) bs) = foldl crc_byte (crc_byte ?s (bs ! i)) (drop (Suc i) bs)"
    using assms(2) id_take_nth_drop [OF assms(1)] upd_conv_take_nth_drop [OF assms(1), of b]
    by (metis (no_types, lifting) bit.double_compl crc32_def foldl.simps(2) foldl_append)
  then have "crc_byte ?s b = crc_byte ?s (bs ! i)" by (rule injD [OF inj_crc_state])
  then show ?thesis by (rule injD [OF inj_crc_byte])
qed


section \<open>Decoding inverts encoding\<close>

definition cursor_wf :: "cursor \<Rightarrow> bool" where
  "cursor_wf c \<longleftrightarrow> length (cur_snapshot_digest c) = digest_len (cur_hash_kind c)
    \<and> length (encode c) \<le> MAX_CURSOR_BYTES"

definition expects :: "cursor_expected \<Rightarrow> cursor \<Rightarrow> bool" where
  "expects e c \<longleftrightarrow> cur_hash_kind c = exp_hash_kind e \<and> cur_snapshot_digest c = exp_snapshot_digest e
    \<and> cur_operation_tag c = exp_operation_tag e \<and> cur_option_fingerprint c = exp_option_fingerprint e"

lemma take_at_append: "take_at (xs @ ys @ zs) (length xs) (length ys) = Some (ys, length xs + length ys)"
  by (simp add: take_at_def)

lemma take_at_Some: "take_at bs off n = Some (v, off') \<longleftrightarrow>
    off + n \<le> length bs \<and> off' = off + n \<and> v = take n (drop off bs)"
  by (auto simp: take_at_def)

lemma length_encode_body: "length (encode_body c) = 15 + length (cur_snapshot_digest c)
    + length (cur_generation c) + length (cur_position c)"
  by (simp add: encode_body_def)

lemma cursor_wf_lengths:
  "cursor_wf c \<Longrightarrow> length (cur_generation c) < 2 ^ 16 \<and> length (cur_position c) < 2 ^ 16"
  by (auto simp: cursor_wf_def encode_def length_encode_body MAX_CURSOR_BYTES_def)

text \<open>Every successful read takes the bytes between two offsets of the body.\<close>

lemma take_upto: "off \<le> off' \<Longrightarrow> take off' bs = take off bs @ take (off' - off) (drop off bs)"
  by (metis le_add_diff_inverse take_add)

lemma take_field_Inr:
  "take_field m body off = Inr (v, off') \<longleftrightarrow>
    off' = off + 2 + length v \<and> off' \<le> length body \<and> length v < 2 ^ 16
    \<and> take off' body = take off body @ u16_le (clamp_word (length v)) @ v" (is "?l \<longleftrightarrow> ?r")
proof
  assume ?l
  then obtain len where len: "off + 2 \<le> length body" "len = (of_nat (le_nat (take 2 (drop off body))) :: u16)"
    "off + 2 + unat len \<le> length body" "off' = off + 2 + unat len" "v = take (unat len) (drop (off + 2) body)"
    by (auto simp: take_field_def rbind_Inr_iff take_at_Some read_u16_le_def split: if_splits Option.bind_splits)
  then have v: "length v = unat len" by simp
  have "u16_le len = take 2 (drop off body)" using len(1,2) by (simp add: uN_le_of_nat)
  moreover have "clamp_word (unat len) = len" using unat_less_exp [of len] by (simp add: clamp_word_def)
  moreover have "take off' body = take off body @ take 2 (drop off body) @ v"
    using take_upto [of off "off + 2" body] take_upto [of "off + 2" off' body] len v by simp
  ultimately show ?r using len v unat_less_exp [of len] by simp
next
  assume r: ?r
  then have b: "body = take off body @ u16_le (clamp_word (length v)) @ v @ drop off' body"
    by (metis append.assoc append_take_drop_id)
  let ?p = "take off body" and ?w = "clamp_word (length v) :: u16"
  have lp: "length ?p = off" using r by simp
  have w: "unat ?w = length v" using r by (simp add: unat_clamp_word)
  have "take_at (?p @ u16_le ?w @ v @ drop off' body) off 2 = Some (u16_le ?w, off + 2)"
    using take_at_append [of ?p "u16_le ?w" "v @ drop off' body"] lp by simp
  moreover have "take_at (?p @ u16_le ?w @ v @ drop off' body) (off + 2) (length v) = Some (v, off')"
    using take_at_append [of "?p @ u16_le ?w" v "drop off' body"] lp r by simp
  ultimately show ?l using b w
    by (simp add: take_field_def read_u16_le_def)
qed

lemma take_field_append: "length v < 2 ^ 16 \<Longrightarrow>
    take_field m (pre @ u16_le (clamp_word (length v)) @ v @ post) (length pre) = Inr (v, length pre + 2 + length v)"
  by (simp add: take_field_Inr)

text \<open>Guards and reads of the decoder as conditions, for a successful run.\<close>

lemma guard_Inr: "(if P then Inl x else r) = Inr y \<longleftrightarrow> \<not> P \<and> r = Inr y"
  by simp

lemma read_Inr: "rbind (ok_or x (if P then Some v else None)) k = Inr y \<longleftrightarrow> P \<and> k v = Inr y"
  by simp

lemma read_tag: "Option.bind (take_at body off 1) (\<lambda>(v, off). if v = [] then None else Some (hd v, off))
    = (if off + 1 \<le> length body then Some (body ! off, off + 1) else None)"
  by (auto simp: take_at_def take_Suc hd_drop_conv_nth)

lemma read_fingerprint: "Option.bind (take_at body off 8) (\<lambda>(v, off). map_option (\<lambda>n. (n, off)) (read_u64_le v))
    = (if off + 8 \<le> length body then Some (of_nat (le_nat (take 8 (drop off body))), off + 8) else None)"
  by (auto simp: take_at_def read_u64_le_def)

lemma decode_body_steps:
  "decode_body body e = Inr c \<longleftrightarrow>
    (let n = digest_len (exp_hash_kind e) in
     \<not> (body = [] \<or> hd body \<noteq> VERSION) \<and> (1 < length body \<and> body ! 1 = hash_tag (exp_hash_kind e))
     \<and> length (exp_snapshot_digest e) = n \<and> 2 + n \<le> length body
     \<and> take n (drop 2 body) = exp_snapshot_digest e
     \<and> 2 + n + 1 \<le> length body \<and> body ! (2 + n) = exp_operation_tag e
     \<and> 2 + n + 1 + 8 \<le> length body
     \<and> of_nat (le_nat (take 8 (drop (2 + n + 1) body))) = exp_option_fingerprint e
     \<and> (\<exists>g o4 p. take_field ''generation length check failed'' body (2 + n + 1 + 8) = Inr (g, o4)
         \<and> take_field ''position length check failed'' body o4 = Inr (p, length body)
         \<and> c = \<lparr>cur_hash_kind = exp_hash_kind e, cur_snapshot_digest = exp_snapshot_digest e,
                cur_operation_tag = exp_operation_tag e,
                cur_option_fingerprint = exp_option_fingerprint e, cur_generation = g, cur_position = p\<rparr>))"
  unfolding decode_body_def guard_Inr read_tag read_fingerprint
  unfolding take_at_def read_Inr Let_def case_prod_conv not_not rbind_Inr_iff guard_Inr
  by (auto simp: rbind_Inr_iff guard_Inr simp del: One_nat_def)

lemma decode_body_Inr:
  "decode_body body e = Inr c \<longleftrightarrow> body = encode_body c \<and> expects e c
    \<and> length (cur_snapshot_digest c) = digest_len (cur_hash_kind c)
    \<and> length (cur_generation c) < 2 ^ 16 \<and> length (cur_position c) < 2 ^ 16" (is "?l \<longleftrightarrow> ?r")
proof
  assume ?l
  let ?n = "digest_len (exp_hash_kind e)" and ?d = "exp_snapshot_digest e"
  from \<open>?l\<close> [unfolded decode_body_steps Let_def] obtain g o4 p where
    h: "body \<noteq> []" "hd body = VERSION" "1 < length body" "body ! 1 = hash_tag (exp_hash_kind e)"
    and d: "length ?d = ?n" "take ?n (drop 2 body) = ?d"
    and tag: "2 + ?n + 1 \<le> length body" "body ! (2 + ?n) = exp_operation_tag e"
    and fp: "2 + ?n + 1 + 8 \<le> length body"
      "of_nat (le_nat (take 8 (drop (2 + ?n + 1) body))) = exp_option_fingerprint e"
    and g: "take_field ''generation length check failed'' body (2 + ?n + 1 + 8) = Inr (g, o4)"
    and p: "take_field ''position length check failed'' body o4 = Inr (p, length body)"
    and c: "c = \<lparr>cur_hash_kind = exp_hash_kind e, cur_snapshot_digest = ?d, cur_operation_tag = exp_operation_tag e,
                cur_option_fingerprint = exp_option_fingerprint e, cur_generation = g, cur_position = p\<rparr>"
    by blast
  have "take 2 body = [VERSION, hash_tag (exp_hash_kind e)]"
    using h by (cases body; cases "tl body") auto
  moreover have "take 8 (drop (2 + ?n + 1) body) = u64_le (exp_option_fingerprint e)"
    using fp(1) by (simp add: uN_le_of_nat flip: fp(2))
  moreover have "take 1 (drop (2 + ?n) body) = [exp_operation_tag e]"
    using tag by (simp add: take_Suc hd_drop_conv_nth)
  then have "take (2 + ?n + 1 + 8) body
      = take 2 body @ ?d @ [exp_operation_tag e] @ take 8 (drop (2 + ?n + 1) body)"
    using take_upto [of 2 "2 + ?n" body] take_upto [of "2 + ?n" "2 + ?n + 1" body]
      take_upto [of "2 + ?n + 1" "2 + ?n + 1 + 8" body] d(2) by simp
  ultimately have "take o4 body = [VERSION, hash_tag (exp_hash_kind e)] @ ?d @ [exp_operation_tag e]
      @ u64_le (exp_option_fingerprint e) @ u16_le (clamp_word (length g)) @ g"
    using g unfolding take_field_Inr by (metis append.assoc append_Cons append_Nil)
  moreover have "body = take o4 body @ u16_le (clamp_word (length p)) @ p"
    using p unfolding take_field_Inr by simp
  ultimately have "body = encode_body c" unfolding c encode_body_def by simp
  with d g p c show ?r by (auto simp: expects_def take_field_Inr)
next
  assume ?r
  then have r: "body = encode_body c" "expects e c" "length (cur_snapshot_digest c) = digest_len (cur_hash_kind c)"
    "length (cur_generation c) < 2 ^ 16" "length (cur_position c) < 2 ^ 16" by auto
  let ?h = "[VERSION, hash_tag (cur_hash_kind c)]" and ?d = "cur_snapshot_digest c"
    and ?t = "[cur_operation_tag c]" and ?f = "u64_le (cur_option_fingerprint c)"
    and ?g = "u16_le (clamp_word (length (cur_generation c))) @ cur_generation c"
    and ?p = "u16_le (clamp_word (length (cur_position c))) @ cur_position c"
  let ?n = "digest_len (exp_hash_kind e)"
  have b: "body = ?h @ ?d @ ?t @ ?f @ ?g @ ?p" using r(1) by (simp add: encode_body_def)
  have n: "length ?d = ?n" "cur_hash_kind c = exp_hash_kind e" using r(2,3) by (simp_all add: expects_def)
  have slices: "take ?n (drop 2 body) = ?d" "body ! (2 + ?n) = cur_operation_tag c"
    "take 8 (drop (2 + ?n + 1) body) = ?f" "2 + ?n + 1 + 8 \<le> length body"
    unfolding b n(1) [symmetric] by (simp_all add: nth_append numeral_2_eq_2)
  have h: "body \<noteq> []" "hd body = VERSION" "1 < length body" "body ! 1 = hash_tag (exp_hash_kind e)"
    unfolding b n(2) by simp_all
  let ?o4 = "2 + ?n + 1 + 8 + 2 + length (cur_generation c)"
  have field1: "take_field m body (2 + ?n + 1 + 8) = Inr (cur_generation c, ?o4)" for m
    using take_field_append [OF r(4), of m "?h @ ?d @ ?t @ ?f" ?p] n(1) unfolding b by simp
  have field2: "take_field m body ?o4 = Inr (cur_position c, length body)" for m
    using take_field_append [OF r(5), of m "?h @ ?d @ ?t @ ?f @ ?g" "[]"] n(1) unfolding b by (simp add: add_ac)
  have "c = \<lparr>cur_hash_kind = exp_hash_kind e, cur_snapshot_digest = exp_snapshot_digest e,
      cur_operation_tag = exp_operation_tag e, cur_option_fingerprint = exp_option_fingerprint e,
      cur_generation = cur_generation c, cur_position = cur_position c\<rparr>"
    using r(2) by (simp add: expects_def)
  then show ?l unfolding decode_body_steps Let_def
    using h slices field1 field2 r(2) n by (auto simp: expects_def)
qed

lemma decode_Inr: "decode bs e = Inr c \<longleftrightarrow> bs = encode c \<and> cursor_wf c \<and> expects e c"
proof -
  have "decode bs e = Inr c \<longleftrightarrow> length bs \<le> MAX_CURSOR_BYTES \<and> 4 \<le> length bs
    \<and> crc32 (take (length bs - 4) bs) = of_nat (le_nat (drop (length bs - 4) bs))
    \<and> decode_body (take (length bs - 4) bs) e = Inr c"
    by (auto simp: decode_def CRC_BYTES_def Let_def read_u32_le_def)
  also have "\<dots> \<longleftrightarrow> length bs \<le> MAX_CURSOR_BYTES \<and> bs = encode c
    \<and> decode_body (encode_body c) e = Inr c" (is "?a \<longleftrightarrow> ?b")
  proof
    assume a: ?a
    then have "drop (length bs - 4) bs = u32_le (crc32 (take (length bs - 4) bs))"
      by (simp add: uN_le_of_nat)
    moreover have "take (length bs - 4) bs = encode_body c" using a by (simp add: decode_body_Inr)
    ultimately have "bs = encode c" unfolding encode_def by (metis append_take_drop_id)
    with a \<open>take (length bs - 4) bs = encode_body c\<close> show ?b by simp
  next
    assume ?b
    then show ?a by (auto simp: encode_def)
  qed
  also have "\<dots> \<longleftrightarrow> bs = encode c \<and> cursor_wf c \<and> expects e c"
    using cursor_wf_lengths [of c] by (auto simp: decode_body_Inr cursor_wf_def)
  finally show ?thesis .
qed

lemma decode_error_code: "decode bs e = Inl x \<Longrightarrow> err_code x = InvalidCursor"
  by (auto simp: decode_def decode_body_def take_field_def rbind_def ok_or_def invalid_cursor_def Let_def
      split: if_splits sum.splits option.splits prod.splits)

text \<open>
  C3. \<open>decode\<close> is the exact inverse of \<open>encode\<close>: a byte string decodes to a
  cursor if and only if it is that cursor's encoding, the encoding has at most 4096 bytes and
  a digest of the length of its hash kind, and the cursor carries the expected hash kind,
  snapshot digest, operation tag and option fingerprint.
\<close>

theorem cursor_decode_exact:
  "decode bs e = Inr c \<longleftrightarrow> bs = encode c \<and> cursor_wf c \<and> expects e c"
  by (rule decode_Inr)

text \<open>
  A cursor is protected against corruption of any one byte, in the body or in the
  checksum: after such a change decoding fails with \<open>invalid_cursor\<close>.
\<close>

theorem cursor_corruption_rejected:
  assumes "decode bs e = Inr c" and "i < length bs" and "b \<noteq> bs ! i"
  shows "\<exists>x. decode (bs[i := b]) e' = Inl x \<and> err_code x = InvalidCursor"
proof -
  from assms(1) have bs: "bs = encode c" by (simp add: decode_Inr)
  have "decode (bs[i := b]) e' \<noteq> Inr c'" for c'
  proof
    assume "decode (bs[i := b]) e' = Inr c'"
    then have upd: "bs[i := b] = encode c'" by (simp add: decode_Inr)
    let ?n = "length (encode_body c)"
    have len: "length (encode_body c') = ?n"
      using arg_cong [OF upd, of length] bs by (simp add: encode_def)
    show False
    proof (cases "i < ?n")
      case True
      then have body: "encode_body c' = (encode_body c)[i := b]"
        using arg_cong [OF upd, of "take ?n"] bs len by (simp add: encode_def take_update_swap)
      have "u32_le (crc32 (encode_body c')) = u32_le (crc32 (encode_body c))"
        using arg_cong [OF upd, of "drop ?n"] bs len True by (simp add: encode_def)
      then have "crc32 ((encode_body c)[i := b]) = crc32 (encode_body c)"
        unfolding body by (metis of_nat_le_nat_uN(2))
      with crc32_one_byte [OF True] have "b = encode_body c ! i" by blast
      with assms(3) bs True show False by (simp add: encode_def nth_append)
    next
      case False
      then have "encode_body c' = encode_body c"
        using arg_cong [OF upd, of "take ?n"] bs len by (simp add: encode_def)
      then have "bs[i := b] = bs" using upd bs by (simp add: encode_def)
      with assms(2,3) show False by (metis nth_list_update_eq)
    qed
  qed
  then obtain x where "decode (bs[i := b]) e' = Inl x" by (cases "decode (bs[i := b]) e'") auto
  with decode_error_code show ?thesis by blast
qed

definition sample_cursor :: cursor where
  "sample_cursor = \<lparr>cur_hash_kind = Sha1, cur_snapshot_digest = replicate 20 7, cur_operation_tag = 5,
     cur_option_fingerprint = 11, cur_generation = [], cur_position = [1, 2]\<rparr>"

theorem cursor_corruption_rejected_witness:
  "\<exists>x. decode ((encode sample_cursor)[3 := 9])
     \<lparr>exp_hash_kind = Sha1, exp_snapshot_digest = replicate 20 7, exp_operation_tag = 5,
      exp_option_fingerprint = 11\<rparr> = Inl x \<and> err_code x = InvalidCursor"
proof -
  let ?e = "\<lparr>exp_hash_kind = Sha1, exp_snapshot_digest = replicate 20 7, exp_operation_tag = 5,
      exp_option_fingerprint = 11\<rparr>"
  have "decode (encode sample_cursor) ?e = Inr sample_cursor"
    by (simp add: decode_Inr cursor_wf_def expects_def sample_cursor_def encode_def length_encode_body
        MAX_CURSOR_BYTES_def)
  moreover have "(9 :: byte) \<noteq> encode sample_cursor ! 3"
    by (simp add: encode_def encode_body_def sample_cursor_def nth_append numeral_3_eq_3)
  ultimately show ?thesis
    by (intro cursor_corruption_rejected [where c = sample_cursor])
       (simp_all add: encode_def length_encode_body sample_cursor_def)
qed

end
