(* ===== verification/Odb.thy ===== *)
theory Odb
  imports Budget
begin

text \<open>
  The object-database contract (\<open>odb.rs\<close>): a store is a record of operations over its
  own state \<open>'w\<close> and the caller's budget, with the default methods of the trait, and
  the immutable in-memory store (\<open>static_odb.rs\<close>). A payload buffer \<open>out\<close> is
  part of the result. The locale \<open>object_store\<close> states what a store promises: every
  answer is one its contents admit.
\<close>

section \<open>The contract\<close>

type_synonym object_read = "(object_kind \<times> bytes) option"

datatype header_provenance = Verified | UnverifiedProvider

record header_read =
  hr_header :: object_header
  hr_provenance :: header_provenance

record read_many_budget =
  rm_max_total_bytes :: "u64 option"

definition default_read_many :: read_many_budget where
  "default_read_many = \<lparr>rm_max_total_bytes = None\<rparr>"

record cache_stats =
  cs_bytes :: u64
  cs_entries :: u64
  cs_evictions :: u64

definition default_cache_stats :: cache_stats where
  "default_cache_stats = \<lparr>cs_bytes = 0, cs_entries = 0, cs_evictions = 0\<rparr>"

record 'w odb =
  db_hash_kind :: hash_kind
  db_shallow_roots :: "oid set option"
  db_try_header :: "oid \<Rightarrow> ('w, object_header option) op"
  db_try_header_with_provenance :: "oid \<Rightarrow> ('w, header_read option) op"
  db_try_find :: "oid \<Rightarrow> ('w, object_read) op"
  db_try_find_graph :: "oid \<Rightarrow> ('w, object_read) op"
  db_try_find_many_bounded :: "oid list \<Rightarrow> read_many_budget \<Rightarrow> ('w, object_read list) op"
  db_prefetch :: "oid list \<Rightarrow> ('w, unit) op"
  db_supports_prefetch :: bool
  db_cache_stats :: "'w \<Rightarrow> cache_stats"
  db_refresh :: "('w, unit) op"

definition enforce_read_many_budget :: "u64 \<Rightarrow> read_many_budget \<Rightarrow> error + unit" where
  "enforce_read_many_budget sum0 rb =
    (case rm_max_total_bytes rb of
       Some maximum \<Rightarrow>
         if maximum < sum0
         then Inl (with_limit ''max_total_bytes''
                (err_new ResultTooLarge ''object batch exceeds max_total_bytes''))
         else Inr ()
     | None \<Rightarrow> Inr ())"

text \<open>A panic of the source, as an error value.\<close>

definition panicked :: error where
  "panicked = err_new InternalError ''panic''"

definition byte_len :: "bytes \<Rightarrow> u64" where
  "byte_len bs = of_nat (length bs)"

section \<open>Default methods\<close>

definition default_header_with_provenance ::
    "(oid \<Rightarrow> ('w, object_header option) op) \<Rightarrow> oid \<Rightarrow> ('w, header_read option) op" where
  "default_header_with_provenance try_header x =
    sbind (try_header x) (\<lambda>h. sreturn (map_option (\<lambda>h. \<lparr>hr_header = h, hr_provenance = Verified\<rparr>) h))"

definition default_find_graph :: "(oid \<Rightarrow> ('w, object_read) op) \<Rightarrow> oid \<Rightarrow> ('w, object_read) op" where
  "default_find_graph try_find x = without_object_charge x (try_find x)"

fun find_many_loop ::
    "(oid \<Rightarrow> ('w, object_read) op) \<Rightarrow> read_many_budget \<Rightarrow> oid list \<Rightarrow> u64 \<Rightarrow> object_read list
      \<Rightarrow> ('w, object_read list) op" where
  "find_many_loop try_find rb [] sum0 results = sreturn results"
| "find_many_loop try_find rb (x # xs) sum0 results =
    sbind (try_find x) (\<lambda>value.
      case value of
        Some (kind, data) \<Rightarrow>
          (let sum' = sat_add sum0 (byte_len data) in
           sbind (slift (enforce_read_many_budget sum' rb)) (\<lambda>_.
             find_many_loop try_find rb xs sum' (results @ [Some (kind, data)])))
      | None \<Rightarrow> find_many_loop try_find rb xs sum0 (results @ [None]))"

definition default_find_many_bounded ::
    "(oid \<Rightarrow> ('w, object_read) op) \<Rightarrow> oid list \<Rightarrow> read_many_budget \<Rightarrow> ('w, object_read list) op" where
  "default_find_many_bounded try_find xs rb = find_many_loop try_find rb xs 0 []"

definition try_find_many :: "'w odb \<Rightarrow> oid list \<Rightarrow> ('w, object_read list) op" where
  "try_find_many db xs = db_try_find_many_bounded db xs default_read_many"

definition default_prefetch :: "oid list \<Rightarrow> ('w, unit) op" where
  "default_prefetch xs = sreturn ()"

definition default_refresh :: "('w, unit) op" where
  "default_refresh = sbind (on_budget check) (\<lambda>_.
    sraise (err_new UnsupportedOperation ''object store does not support refresh''))"

section \<open>The in-memory store\<close>

record static_odb =
  so_hash :: hash_kind
  so_objects :: "oid \<rightharpoonup> object_kind \<times> bytes"

definition ensure_hash :: "hash_kind \<Rightarrow> oid \<Rightarrow> error + unit" where
  "ensure_hash expected x =
    (if oid_kind x \<noteq> expected
     then Inl (err_new InvalidOid (''object ID uses '' @ show_hash_kind (oid_kind x)
            @ '', but the object store uses '' @ show_hash_kind expected))
     else Inr ())"

fun load_addressed :: "hash_engine \<Rightarrow> hash_kind \<Rightarrow> (oid \<times> object_kind \<times> bytes) list
    \<Rightarrow> (oid \<rightharpoonup> object_kind \<times> bytes) \<Rightarrow> error + (oid \<rightharpoonup> object_kind \<times> bytes)" where
  "load_addressed H hash [] loaded = Inr loaded"
| "load_addressed H hash ((x, kind, payload) # rest) loaded =
    rbind (ensure_hash hash x) (\<lambda>_. rbind (verify H x kind payload) (\<lambda>_.
      load_addressed H hash rest (loaded(x \<mapsto> (kind, payload)))))"

definition from_addressed_objects ::
    "hash_engine \<Rightarrow> hash_kind \<Rightarrow> (oid \<times> object_kind \<times> bytes) list \<Rightarrow> error + static_odb" where
  "from_addressed_objects H hash objects =
    rbind (load_addressed H hash objects Map.empty) (\<lambda>loaded.
      Inr \<lparr>so_hash = hash, so_objects = loaded\<rparr>)"

fun address_objects :: "hash_engine \<Rightarrow> hash_kind \<Rightarrow> (object_kind \<times> bytes) list
    \<Rightarrow> error + (oid \<times> object_kind \<times> bytes) list" where
  "address_objects H hash [] = Inr []"
| "address_objects H hash ((kind, payload) # rest) =
    rbind (object_id H hash kind payload) (\<lambda>x.
    rbind (address_objects H hash rest) (\<lambda>addressed. Inr ((x, kind, payload) # addressed)))"

definition from_objects :: "hash_engine \<Rightarrow> hash_kind \<Rightarrow> (object_kind \<times> bytes) list \<Rightarrow> error + static_odb" where
  "from_objects H hash objects =
    rbind (address_objects H hash objects) (from_addressed_objects H hash)"

definition static_try_header :: "static_odb \<Rightarrow> oid \<Rightarrow> ('w, object_header option) op" where
  "static_try_header so x =
    sbind (on_budget charge_header) (\<lambda>_.
    sbind (slift (ensure_hash (so_hash so) x)) (\<lambda>_.
      sreturn (map_option (\<lambda>(kind, payload). \<lparr>hdr_kind = kind, hdr_size = byte_len payload\<rparr>)
        (so_objects so x))))"

definition static_try_find :: "static_odb \<Rightarrow> oid \<Rightarrow> ('w, object_read) op" where
  "static_try_find so x =
    sbind (slift (ensure_hash (so_hash so) x)) (\<lambda>_.
      case so_objects so x of
        None \<Rightarrow> sbind (on_budget check) (\<lambda>_. sreturn None)
      | Some (kind, payload) \<Rightarrow>
          sbind (on_budget (charge_object (byte_len payload))) (\<lambda>_. sreturn (Some (kind, payload))))"

definition static_db :: "static_odb \<Rightarrow> 'w odb" where
  "static_db so = \<lparr>
    db_hash_kind = so_hash so,
    db_shallow_roots = None,
    db_try_header = static_try_header so,
    db_try_header_with_provenance = default_header_with_provenance (static_try_header so),
    db_try_find = static_try_find so,
    db_try_find_graph = default_find_graph (static_try_find so),
    db_try_find_many_bounded = default_find_many_bounded (static_try_find so),
    db_prefetch = default_prefetch,
    db_supports_prefetch = False,
    db_cache_stats = (\<lambda>_. default_cache_stats),
    db_refresh = default_refresh\<rparr>"

section \<open>What a store promises\<close>

text \<open>
  \<open>answers I P m\<close>: run from a state whose store part satisfies \<open>I\<close>, whatever the
  budget holds, \<open>m\<close> keeps \<open>I\<close> and every value it returns satisfies \<open>P\<close>. The
  rules below follow the structure of an operation.
\<close>

definition answers :: "('w \<Rightarrow> bool) \<Rightarrow> ('a \<Rightarrow> bool) \<Rightarrow> ('w, 'a) op \<Rightarrow> bool" where
  "answers I P m \<longleftrightarrow> (\<forall>w b r w' b'. I w \<longrightarrow> m (w, b) = (r, (w', b')) \<longrightarrow> I w' \<and> (\<forall>v. r = Inr v \<longrightarrow> P v))"

named_theorems answers_rules "structural rules of the answers judgement"

lemma answersI:
  assumes "\<And>w b r w' b'. I w \<Longrightarrow> m (w, b) = (r, (w', b')) \<Longrightarrow> I w'"
    and "\<And>w b v w' b'. I w \<Longrightarrow> m (w, b) = (Inr v, (w', b')) \<Longrightarrow> P v"
  shows "answers I P m"
  unfolding answers_def using assms by blast

lemma answers_run:
  assumes "answers I P m" and "I w" and "m (w, b) = (r, (w', b'))"
  shows "I w'" and "r = Inr v \<Longrightarrow> P v"
  using assms unfolding answers_def by blast+

lemma answersD: "answers I P m \<Longrightarrow> I (fst s) \<Longrightarrow> m s = (Inr v, s') \<Longrightarrow> P v"
  by (metis answers_run(2) prod.collapse)

lemma answers_keeps: "answers I P m \<Longrightarrow> I (fst s) \<Longrightarrow> m s = (r, s') \<Longrightarrow> I (fst s')"
  by (metis answers_run(1) prod.collapse)

lemma answers_conseq: "answers I Q m \<Longrightarrow> (\<And>v. Q v \<Longrightarrow> P v) \<Longrightarrow> answers I P m"
  by (rule answersI) (blast dest: answers_run)+

lemma answers_True: "answers (\<lambda>_. True) (\<lambda>_. True) m"
  by (simp add: answers_def)

lemma answers_sreturn [answers_rules]: "P v \<Longrightarrow> answers I P (sreturn v)"
  by (rule answersI) (auto simp: sreturn_def)

lemma answers_sraise [answers_rules]: "answers I P (sraise e)"
  by (rule answersI) (auto simp: sraise_def)

lemma answers_slift [answers_rules]: "(\<And>v. r = Inr v \<Longrightarrow> P v) \<Longrightarrow> answers I P (slift r)"
  by (rule answersI) (auto simp: slift_def)

lemma answers_sbind:
  assumes "answers I Q m" and "\<And>v. Q v \<Longrightarrow> answers I P (k v)"
  shows "answers I P (sbind m k)"
proof (rule answersI)
  fix w b r w' b'
  assume w: "I w" and run: "sbind m k (w, b) = (r, (w', b'))"
  obtain q w1 b1 where step: "m (w, b) = (q, (w1, b1))" by (metis prod.collapse)
  note first = answers_run [OF assms(1) w step]
  show "I w'"
  proof (cases q)
    case (Inl e)
    with run step first(1) show ?thesis by (simp add: sbind_def)
  next
    case (Inr v)
    with run step have "k v (w1, b1) = (r, (w', b'))" by (simp add: sbind_def)
    with first Inr assms(2) answers_run(1) show ?thesis by metis
  qed
next
  fix w b v w' b'
  assume w: "I w" and run: "sbind m k (w, b) = (Inr v, (w', b'))"
  then obtain u w1 b1 where step: "m (w, b) = (Inr u, (w1, b1))" "k u (w1, b1) = (Inr v, (w', b'))"
    by (auto simp: sbind_Inr_iff)
  note first = answers_run [OF assms(1) w step(1)]
  with assms(2) [of u] step(2) answers_run(2) show "P v" by metis
qed

lemmas any_step = answers_sbind [OF answers_True]

lemma answers_smap_err [answers_rules]: "answers I P m \<Longrightarrow> answers I P (smap_err f m)"
  by (rule answersI) (auto simp: smap_err_def split: prod.splits sum.splits dest: answers_run)

lemma answers_on_budget [answers_rules]: "(\<And>v. P v) \<Longrightarrow> answers I P (on_budget m)"
  by (rule answersI) (auto simp: on_budget_def split: prod.splits)

lemma answers_without_object_charge [answers_rules]:
  "answers I P m \<Longrightarrow> answers I P (without_object_charge x m)"
  by (rule answersI) (auto simp: without_object_charge_def Let_def split: prod.splits dest: answers_run)

lemma answers_sattempt [answers_rules]: "answers I P m \<Longrightarrow> answers I (\<lambda>r. \<forall>v. r = Inr v \<longrightarrow> P v) (sattempt m)"
  by (rule answersI) (auto simp: sattempt_def split: prod.splits dest: answers_run)

text \<open>
  \<open>admits x v\<close>: the answer \<open>v\<close> about \<open>x\<close> is one the store may give. \<open>I\<close> is
  the invariant of the store's own state.
\<close>

definition header_admitted :: "(oid \<Rightarrow> object_read \<Rightarrow> bool) \<Rightarrow> oid \<Rightarrow> header_read option \<Rightarrow> bool" where
  "header_admitted admits x h =
    (case h of
       None \<Rightarrow> admits x None
     | Some h \<Rightarrow> hr_provenance h = Verified \<longrightarrow>
         (\<exists>payload. admits x (Some (hdr_kind (hr_header h), payload))
           \<and> hdr_size (hr_header h) = byte_len payload))"

locale object_store =
  fixes db :: "'w odb" and I :: "'w \<Rightarrow> bool" and admits :: "oid \<Rightarrow> object_read \<Rightarrow> bool"
  assumes find_law: "answers I (admits x) (db_try_find db x)"
    and find_graph_law: "answers I (admits x) (db_try_find_graph db x)"
    and find_many_law: "answers I (list_all2 admits xs) (db_try_find_many_bounded db xs rb)"
    and header_law: "answers I (header_admitted admits x) (db_try_header_with_provenance db x)"
    and prefetch_law: "answers I (\<lambda>_. True) (db_prefetch db xs)"
    and refresh_law: "answers I (\<lambda>_. True) (db_refresh db)"
begin

text \<open>A batch read answers every position, and each answer is admitted.\<close>

lemma find_many_nth:
  assumes "I w" and "try_find_many db xs (w, b) = (Inr vs, s)" and "i < length xs"
  shows "length vs = length xs \<and> admits (xs ! i) (vs ! i)"
  using assms answersD [OF find_many_law, of "(w, b)" xs default_read_many vs s]
  by (auto simp: try_find_many_def list_all2_conv_all_nth)

end

text \<open>A store all of whose answers carry the object their name addresses.\<close>

definition verified_answer :: "hash_engine \<Rightarrow> oid \<Rightarrow> object_read \<Rightarrow> bool" where
  "verified_answer H x v = (case v of None \<Rightarrow> True | Some (kind, payload) \<Rightarrow> verify H x kind payload = Inr ())"

locale verified_store = object_store +
  fixes H :: hash_engine
  assumes verified: "admits x v \<Longrightarrow> verified_answer H x v"
begin

text \<open>Two reads of one name return the same object, or exhibit a digest collision.\<close>

lemma reads_agree:
  assumes "I (fst s)" and "db_try_find db x s = (Inr (Some (k, p)), s')"
    and "I (fst t)" and "db_try_find db x t = (Inr (Some (k', p')), t')"
  shows "(k, p) = (k', p') \<or> (preimage k p \<noteq> preimage k' p'
    \<and> digest_of H (oid_kind x) (preimage k p) = digest_of H (oid_kind x) (preimage k' p')
    \<and> digest_of H (oid_kind x) (preimage k p) \<noteq> None)"
proof -
  have "admits x (Some (k, p))" "admits x (Some (k', p'))"
    using assms answersD [OF find_law] by blast+
  then have "verify H x k p = Inr ()" "verify H x k' p' = Inr ()"
    using verified [of x "Some (k, p)"] verified [of x "Some (k', p')"]
    by (simp_all add: verified_answer_def)
  then show ?thesis by (rule verify_collision)
qed

end

section \<open>The default methods keep the promise\<close>

lemma find_many_loop_answers:
  assumes "\<And>x. answers I (admits x) (rd x)"
  shows "answers I (\<lambda>vs. \<exists>new. vs = results @ new \<and> list_all2 admits xs new) (find_many_loop rd rb xs sum0 results)"
proof (induction xs arbitrary: sum0 results)
  case Nil
  show ?case by (simp add: answers_sreturn)
next
  case (Cons x xs)
  have rest: "answers I (\<lambda>vs. \<exists>new. vs = results @ new \<and> list_all2 admits (x # xs) new)
      (find_many_loop rd rb xs sum1 (results @ [v]))" if "admits x v" for v sum1
    using that by (intro answers_conseq [OF Cons.IH [of "results @ [v]" sum1]]) auto
  have "answers I (\<lambda>vs. \<exists>new. vs = results @ new \<and> list_all2 admits (x # xs) new)
      (case v of Some (kind, data) \<Rightarrow>
          (let sum' = sat_add sum0 (byte_len data) in
           sbind (slift (enforce_read_many_budget sum' rb)) (\<lambda>_.
             find_many_loop rd rb xs sum' (results @ [Some (kind, data)])))
      | None \<Rightarrow> find_many_loop rd rb xs sum0 (results @ [None]))" if "admits x v" for v
    using rest that
    by (auto simp: Let_def split: option.split
        intro!: answers_sbind [where Q = "\<lambda>_. True"] answers_slift)
  then show ?case
    unfolding find_many_loop.simps by (rule answers_sbind [OF assms])
qed

lemma default_find_many_answers:
  assumes "\<And>x. answers I (admits x) (rd x)"
  shows "answers I (list_all2 admits xs) (default_find_many_bounded rd xs rb)"
  unfolding default_find_many_bounded_def
  using answers_conseq [OF find_many_loop_answers [OF assms, where results = "[]"]] by force

lemma default_find_graph_answers:
  "answers I (admits x) (rd x) \<Longrightarrow> answers I (admits x) (default_find_graph rd x)"
  unfolding default_find_graph_def by (rule answers_without_object_charge)

section \<open>The in-memory store\<close>

definition static_wf :: "hash_engine \<Rightarrow> static_odb \<Rightarrow> bool" where
  "static_wf H so \<longleftrightarrow> (\<forall>x k p. so_objects so x = Some (k, p) \<longrightarrow>
     oid_kind x = so_hash so \<and> verify H x k p = Inr ())"

lemma static_find_answers:
  "answers (\<lambda>_. static_wf H so) (\<lambda>v. static_wf H so \<and> v = so_objects so x) (static_try_find so x)"
proof -
  have "static_try_find so x (w, b) = (Inr v, s') \<Longrightarrow> v = so_objects so x" for w b v s'
    by (auto simp: static_try_find_def sr_inv split: option.splits)
  then show ?thesis by (auto simp: answers_def)
qed

lemma static_header_answers:
  "answers (\<lambda>_. static_wf H so) (header_admitted (\<lambda>x v. static_wf H so \<and> v = so_objects so x) x)
     (default_header_with_provenance (static_try_header so) x :: ('w, header_read option) op)"
proof -
  let ?h = "map_option (\<lambda>(kind, payload). \<lparr>hr_header = \<lparr>hdr_kind = kind, hdr_size = byte_len payload\<rparr>,
            hr_provenance = Verified\<rparr>) (so_objects so x)"
  have run: "default_header_with_provenance (static_try_header so) x s = (Inr h, s') \<Longrightarrow> h = ?h"
    for s s' :: "'w \<times> budget" and h
    by (cases "so_objects so x")
       (auto simp: default_header_with_provenance_def static_try_header_def sr_inv)
  have "header_admitted (\<lambda>x v. static_wf H so \<and> v = so_objects so x) x ?h" if "static_wf H so"
    using that by (cases "so_objects so x") (auto simp: header_admitted_def)
  then show ?thesis by (intro answersI) (simp, drule run, simp)
qed

interpretation static: verified_store "static_db so" "\<lambda>_. static_wf H so"
    "\<lambda>x v. static_wf H so \<and> v = so_objects so x" H for so H
proof unfold_locales
  let ?I = "\<lambda>_ :: 'w. static_wf H so" and ?admits = "\<lambda>x v. static_wf H so \<and> v = so_objects so x"
  fix x xs rb v
  note find = static_find_answers [of H so]
  show "answers ?I (?admits x) (db_try_find (static_db so) x)"
    using find by (simp add: static_db_def)
  show "answers ?I (?admits x) (db_try_find_graph (static_db so) x)"
    using default_find_graph_answers [of ?I ?admits x "static_try_find so", OF find] by (simp add: static_db_def)
  show "answers ?I (list_all2 ?admits xs) (db_try_find_many_bounded (static_db so) xs rb)"
    using default_find_many_answers [of ?I ?admits "static_try_find so", OF find] by (simp add: static_db_def)
  show "answers ?I (header_admitted ?admits x) (db_try_header_with_provenance (static_db so) x)"
    using static_header_answers by (simp add: static_db_def)
  show "answers ?I (\<lambda>_. True) (db_prefetch (static_db so) xs)"
    "answers ?I (\<lambda>_. True) (db_refresh (static_db so))"
    by (simp_all add: answers_def)
  show "?admits x v \<Longrightarrow> verified_answer H x v"
    by (auto simp: verified_answer_def static_wf_def split: option.splits)
qed

lemma load_addressed_Inr:
  "load_addressed H hash objs m = Inr m' \<longleftrightarrow>
    (\<forall>(x, k, p) \<in> set objs. oid_kind x = hash \<and> verify H x k p = Inr ())
    \<and> m' = m ++ map_of (rev objs)"
proof (induction objs arbitrary: m)
  case (Cons a objs)
  obtain x k p where a: "a = (x, k, p)" by (cases a)
  show ?case
    unfolding a load_addressed.simps rbind_Inr_iff Cons.IH
    by (auto simp: ensure_hash_def)
qed auto

lemma from_addressed_objects_Inr:
  "from_addressed_objects H hash objs = Inr so \<longleftrightarrow>
    (\<forall>(x, k, p) \<in> set objs. oid_kind x = hash \<and> verify H x k p = Inr ())
    \<and> so = \<lparr>so_hash = hash, so_objects = map_of (rev objs)\<rparr>"
  by (auto simp: from_addressed_objects_def rbind_Inr_iff load_addressed_Inr)

lemma from_addressed_objects_wf: "from_addressed_objects H hash objs = Inr so \<Longrightarrow> static_wf H so"
  by (auto simp: from_addressed_objects_Inr static_wf_def dest!: map_of_SomeD)

lemma address_objects_Inr:
  "address_objects H hash objs = Inr addressed \<Longrightarrow> (x, k, p) \<in> set addressed \<Longrightarrow>
    oid_kind x = hash \<and> verify H x k p = Inr ()"
proof (induction objs arbitrary: addressed)
  case (Cons a objs)
  obtain k0 p0 where a: "a = (k0, p0)" by (cases a)
  from Cons.prems(1) obtain y rest where "object_id H hash k0 p0 = Inr y"
    "address_objects H hash objs = Inr rest" "addressed = (y, k0, p0) # rest"
    unfolding a by (auto simp: rbind_Inr_iff)
  with Cons.IH [of rest] Cons.prems(2) object_id_wf [of H hash k0 p0 y] show ?case
    by (auto simp: verify_Inr_iff)
qed simp

text \<open>
  The in-memory store serves exactly the objects it was loaded with: loading succeeds
  when every object uses the store's hash kind and verifies under its name, the contents are
  then the loaded objects (the last one per name), and a successful read returns the stored
  object or its absence.
\<close>

theorem static_store_serves_loaded:
  "((\<exists>so. from_addressed_objects H hash objs = Inr so) \<longleftrightarrow>
     (\<forall>(x, k, p) \<in> set objs. oid_kind x = hash \<and> verify H x k p = Inr ()))
   \<and> (from_addressed_objects H hash objs = Inr so \<and> db_try_find (static_db so) x s = (Inr v, s') \<longrightarrow>
     v = map_of (rev objs) x)"
proof (intro conjI impI)
  show "(\<exists>so. from_addressed_objects H hash objs = Inr so) \<longleftrightarrow>
     (\<forall>(x, k, p) \<in> set objs. oid_kind x = hash \<and> verify H x k p = Inr ())"
    by (simp add: from_addressed_objects_Inr)
  assume run: "from_addressed_objects H hash objs = Inr so \<and> db_try_find (static_db so) x s = (Inr v, s')"
  then have load: "from_addressed_objects H hash objs = Inr so" by blast
  have "v = so_objects so x"
    using answersD [OF static.find_law [of H so x], of s v s'] from_addressed_objects_wf [OF load] run by simp
  with load show "v = map_of (rev objs) x" by (simp add: from_addressed_objects_Inr)
qed

definition idle :: "nat \<Rightarrow> env_obs" where
  "idle n = \<lparr>obs_cancelled = False, obs_now = 0\<rparr>"

definition toy_blob :: oid where
  "toy_blob = Oid Sha256 (replicate 31 0 @ [8])"

lemma verify_toy_blob: "verify toy_engine toy_blob Blob [b] = Inr ()"
  using verify_toy [of Blob "[b]"] by (simp add: toy_blob_def preimage_def show_nat.simps)

definition toy_store :: static_odb where
  "toy_store = \<lparr>so_hash = Sha256, so_objects = map_of [(toy_blob, (Blob, [5]))]\<rparr>"

lemma toy_store_load: "from_addressed_objects toy_engine Sha256 [(toy_blob, Blob, [5])] = Inr toy_store"
  by (simp add: from_addressed_objects_Inr verify_toy_blob toy_store_def) (simp add: toy_blob_def)

lemma toy_store_read:
  "\<exists>s'. db_try_find (static_db toy_store) toy_blob (w, budget_unlimited idle) = (Inr (Some (Blob, [5])), s')"
  by (simp add: static_db_def static_try_find_def toy_store_def toy_blob_def ensure_hash_def sbind_def slift_def
      sreturn_def on_budget_def charge_object_def check_def charge_objects_def charge_payload_def
      charge_total_bytes_def charge_def budget_unlimited_def budget_new_def idle_def byte_len_def sat_add_def)

theorem static_store_serves_loaded_witness:
  "\<exists>v s'. db_try_find (static_db toy_store) toy_blob ((), budget_unlimited idle) = (Inr v, s')
     \<and> v = Some (Blob, [5])"
proof -
  from toy_store_read [of "()"] obtain s' where
    run: "db_try_find (static_db toy_store) toy_blob ((), budget_unlimited idle) = (Inr (Some (Blob, [5])), s')" by blast
  from static_store_serves_loaded [of toy_engine Sha256 "[(toy_blob, Blob, [5])]" toy_store toy_blob
      "((), budget_unlimited idle)" "Some (Blob, [5])" s'] toy_store_load run
  have "Some (Blob, [5]) = map_of (rev [(toy_blob, Blob, [5 :: byte])]) toy_blob" by blast
  with run show ?thesis by blast
qed

text \<open>The same store without the verification of its contents: its answers are its map.\<close>

lemma static_exact: "object_store (static_db so) (\<lambda>_. True) (\<lambda>x v. v = so_objects so x)"
proof -
  let ?admits = "\<lambda>x v. v = so_objects so x"
  have find: "answers (\<lambda>_. True) (\<lambda>v. v = so_objects so x) (static_try_find so x)" for x
    by (rule answersI) (auto simp: static_try_find_def sr_inv split: option.splits)
  have hdr: "answers (\<lambda>_. True) (header_admitted (\<lambda>x v. v = so_objects so x) x)
      (default_header_with_provenance (static_try_header so) x)" for x
    by (rule answersI)
       (auto simp: default_header_with_provenance_def static_try_header_def sr_inv header_admitted_def
         split: option.splits)
  show ?thesis
    using find hdr default_find_graph_answers [of "\<lambda>_. True" ?admits _ "static_try_find so", OF find]
      default_find_many_answers [of "\<lambda>_. True" ?admits "static_try_find so", OF find]
    by unfold_locales (simp_all add: static_db_def answers_def [of _ "\<lambda>_. True"])
qed

lemmas static_eval = ensure_hash_def on_budget_def charge_object_def check_def charge_objects_def
  charge_payload_def charge_total_bytes_def charge_def budget_unlimited_def budget_new_def idle_def
  byte_len_def sat_add_def

text \<open>Under no ceiling, no deadline and no cancellation, nothing is refused.\<close>

definition unlimited :: "budget \<Rightarrow> bool" where
  "unlimited b \<longleftrightarrow> b_limits b = b_limits (budget_unlimited idle) \<and> b_deadline b = None \<and> b_env b = idle"

lemma unlimited_start [simp]: "unlimited (budget_unlimited idle)"
  by (simp add: unlimited_def budget_unlimited_def budget_new_def)

lemma not_max_less [simp]: "\<not> - 1 < (x :: 'a::len word)"
  using word_order.extremum [of x] by (simp add: not_less)

lemma check_unlimited: "unlimited b \<Longrightarrow> check b = (Inr (), b\<lparr>b_tick := Suc (b_tick b)\<rparr>) \<and> unlimited (b\<lparr>b_tick := Suc (b_tick b)\<rparr>)"
  by (simp add: check_def unlimited_def idle_def)

lemma charge_object_unlimited: "unlimited b \<Longrightarrow> \<exists>b'. charge_object n b = (Inr (), b') \<and> unlimited b'"
  using check_unlimited [of b]
  by (auto simp: charge_object_def sbind_def charge_objects_def charge_payload_def charge_total_bytes_def charge_def
      unlimited_def budget_unlimited_def budget_new_def)

lemma charge_tree_entry_unlimited: "unlimited b \<Longrightarrow> \<exists>b'. charge_tree_entry b = (Inr (), b') \<and> unlimited b'"
  using check_unlimited [of b]
  by (auto simp: charge_tree_entry_def sbind_def charge_def unlimited_def budget_unlimited_def budget_new_def)

lemma static_find_unlimited:
  assumes "unlimited b" and "oid_kind x = so_hash so"
  shows "\<exists>b'. static_try_find so x (w, b) = (Inr (so_objects so x), (w, b')) \<and> unlimited b'"
proof (cases "so_objects so x")
  case None
  with check_unlimited [OF assms(1)] assms(2) show ?thesis
    by (simp add: static_try_find_def sr_defs ensure_hash_def on_budget_def)
next
  case (Some v)
  from charge_object_unlimited [OF assms(1), of "byte_len (snd v)"] obtain b' where
    "charge_object (byte_len (snd v)) b = (Inr (), b')" "unlimited b'" by blast
  with Some assms(2) show ?thesis
    by (cases v) (simp add: static_try_find_def sr_defs ensure_hash_def on_budget_def)
qed

section \<open>Answers without ceilings\<close>

text \<open>A run that returns a value from a state without ceilings, and leaves the state without ceilings.\<close>

definition yields :: "('w, 'a) op \<Rightarrow> 'a \<Rightarrow> bool" where
  "yields m v \<longleftrightarrow> (\<forall>w b. unlimited b \<longrightarrow> (\<exists>b'. m (w, b) = (Inr v, (w, b')) \<and> unlimited b'))"

named_theorems yields_rules "runs without ceilings"

lemma yields_run: "yields m v \<Longrightarrow> unlimited b \<Longrightarrow> \<exists>b'. m (w, b) = (Inr v, (w, b')) \<and> unlimited b'"
  by (simp add: yields_def)

lemma yields_sreturn [yields_rules]: "yields (sreturn v) v"
  by (simp add: yields_def sreturn_def)

lemma yields_slift [yields_rules]: "r = Inr v \<Longrightarrow> yields (slift r) v"
  by (simp add: yields_def slift_def)

lemma yields_sbind: "yields m v \<Longrightarrow> yields (k v) u \<Longrightarrow> yields (sbind m k) u"
proof -
  assume m: "yields m v" and k: "yields (k v) u"
  have "\<exists>b'. sbind m k (w, b) = (Inr u, (w, b')) \<and> unlimited b'" if "unlimited b" for w b
  proof -
    from yields_run [OF m that] obtain b1 where b1: "m (w, b) = (Inr v, (w, b1))" "unlimited b1" by blast
    from yields_run [OF k b1(2)] b1(1) show ?thesis by (simp add: sbind_def)
  qed
  then show ?thesis by (simp add: yields_def)
qed

lemma yields_check [yields_rules]: "yields (on_budget check) ()"
  using check_unlimited by (fastforce simp: yields_def on_budget_def)

lemma yields_charge_tree_entry [yields_rules]: "yields (on_budget charge_tree_entry) ()"
  using charge_tree_entry_unlimited by (fastforce simp: yields_def on_budget_def)

lemma charge_header_unlimited: "unlimited b \<Longrightarrow> \<exists>b'. charge_header b = (Inr (), b') \<and> unlimited b'"
  using check_unlimited [of b]
  by (auto simp: charge_header_def sbind_def charge_objects_def charge_def unlimited_def budget_unlimited_def budget_new_def)

lemma yields_charge_header [yields_rules]: "yields (on_budget charge_header) ()"
  using charge_header_unlimited by (fastforce simp: yields_def on_budget_def)

lemma charge_provider_unlimited: "unlimited b \<Longrightarrow> \<exists>b'. charge_provider_bytes n b = (Inr (), b') \<and> unlimited b'"
  by (simp add: unlimited_def charge_provider_bytes_def check_def charge_def budget_unlimited_def budget_new_def idle_def sr_defs Let_def)

lemma yields_charge_provider [yields_rules]: "yields (on_budget (charge_provider_bytes n)) ()"
  unfolding yields_def
proof (intro allI impI)
  fix w b assume "unlimited b"
  from charge_provider_unlimited [OF this, of n] obtain b' where "charge_provider_bytes n b = (Inr (), b')" "unlimited b'" by blast
  then show "\<exists>b'. on_budget (charge_provider_bytes n) (w, b) = (Inr (), (w, b')) \<and> unlimited b'" by (simp add: on_budget_def)
qed

lemma yields_sattempt [yields_rules]:
  assumes "yields m v"
  shows "yields (sattempt m) (Inr v)"
proof -
  have "\<exists>b'. sattempt m (w, b) = (Inr (Inr v), (w, b')) \<and> unlimited b'" if "unlimited b" for w b
    using yields_run [OF assms that, of w] by (elim exE conjE) (simp add: sattempt_def)
  then show ?thesis by (simp add: yields_def)
qed

lemma yields_smap_err [yields_rules]: "yields m v \<Longrightarrow> yields (smap_err f m) v"
proof -
  assume m: "yields m v"
  have "\<exists>b'. smap_err f m (w, b) = (Inr v, (w, b')) \<and> unlimited b'" if "unlimited b" for w b
    using yields_run [OF m that, of w] by (elim exE conjE) (simp add: smap_err_def)
  then show ?thesis by (simp add: yields_def)
qed

lemma yields_charge_object_visit [yields_rules]: "yields (on_budget charge_object_visit) ()"
  using yields_charge_header by (simp add: charge_object_visit_def charge_header_def)

lemma yields_without_object_charge [yields_rules]:
  assumes "yields m v"
  shows "yields (without_object_charge x m) v"
proof -
  have "\<exists>b'. without_object_charge x m (w, b) = (Inr v, (w, b')) \<and> unlimited b'" if b: "unlimited b" for w b
  proof -
    let ?dup = "x \<in> b_graph_reads b"
    define b1 where "b1 = b\<lparr>b_graph_reads := insert x (b_graph_reads b), b_charge_suspensions := b_charge_suspensions b + 1\<rparr>"
    define b2 where "b2 = (if ?dup then b1\<lparr>b_duplicate_suspensions := b_duplicate_suspensions b1 + 1\<rparr> else b1)"
    have "unlimited b2" using b by (simp add: b1_def b2_def unlimited_def)
    from yields_run [OF assms this, of w] obtain b3 where b3: "m (w, b2) = (Inr v, (w, b3))" "unlimited b3" by blast
    define b4 where "b4 = b3\<lparr>b_charge_suspensions := b_charge_suspensions b3 - 1\<rparr>"
    define b5 where "b5 = (if ?dup then b4\<lparr>b_duplicate_suspensions := b_duplicate_suspensions b4 - 1\<rparr> else b4)"
    have "without_object_charge x m (w, b) = (Inr v, (w, b5))"
      unfolding without_object_charge_def prod.case Let_def b1_def [symmetric]
      unfolding b2_def [symmetric] b3(1) prod.case b4_def [symmetric] b5_def by (rule refl)
    moreover have "unlimited b5" using b3(2) by (simp add: b5_def b4_def unlimited_def)
    ultimately show ?thesis by blast
  qed
  then show ?thesis by (simp add: yields_def)
qed

lemma yields_static_find: "oid_kind x = so_hash so \<Longrightarrow> yields (db_try_find (static_db so) x) (so_objects so x)"
  using static_find_unlimited by (fastforce simp: yields_def static_db_def)

lemma yields_static_find_graph: "oid_kind x = so_hash so \<Longrightarrow> yields (db_try_find_graph (static_db so) x) (so_objects so x)"
  using yields_without_object_charge [OF yields_static_find, of x so x] by (simp add: static_db_def default_find_graph_def)

lemma yields_static_header:
  assumes "so_objects so x = Some (k, p)" and "oid_kind x = so_hash so"
  shows "yields (db_try_header_with_provenance (static_db so) x)
    (Some \<lparr>hr_header = \<lparr>hdr_kind = k, hdr_size = byte_len p\<rparr>, hr_provenance = Verified\<rparr>)"
  using assms
  by (auto simp: static_db_def default_header_with_provenance_def static_try_header_def ensure_hash_def
      intro!: yields_sbind [OF yields_sbind [OF yields_charge_header]] yields_sbind [OF yields_slift] yields_sreturn
      split: option.splits)

lemma static_db_fields [simp]:
  "db_hash_kind (static_db so) = so_hash so" "db_supports_prefetch (static_db so) = False"
  by (simp_all add: static_db_def)

end
