(* ===== verification/Layered.thy ===== *)
theory Layered
  imports Odb Lru
begin

text \<open>
  Read-through composition of object stores (\<open>layered_odb.rs\<close>): the bounded cache of
  verified payloads over the recency cache, and the ordered union of stores with one cache at
  a position of the order. The composition's own state is the cache; the stores share the
  state \<open>'w\<close>. A panic of the cache's slab is the error \<open>panicked\<close>; the contract
  proof shows that it does not arise.
\<close>

section \<open>The cache layer\<close>

record cache_options =
  co_max_bytes :: u64
  co_max_entries :: u64
  co_max_object_bytes :: u64

type_synonym cached_object = "object_kind \<times> bytes"

record cache_state =
  cst_objects :: "(hash_kind \<times> oid, cached_object) lru"
  cst_evictions :: u64

definition invalid_argument :: "string \<Rightarrow> error" where
  "invalid_argument message = err_new InvalidArgument message"

definition cache_new :: "cache_options \<Rightarrow> error + cache_state" where
  "cache_new options =
    (if co_max_bytes options = 0 then Inl (invalid_argument ''cache max_bytes must be greater than zero'')
     else if co_max_entries options = 0 then
       Inl (invalid_argument ''cache max_entries must be greater than zero'')
     else if co_max_object_bytes options = 0 then
       Inl (invalid_argument ''cache max_object_bytes must be greater than zero'')
     else Inr \<lparr>cst_objects = lru_new (co_max_bytes options), cst_evictions = 0\<rparr>)"

definition cache_get :: "oid \<Rightarrow> (cache_state \<times> 'w, cached_object option) op" where
  "cache_get x s = (case s of ((c, w), b) \<Rightarrow>
    (case lru_get (oid_kind x, x) (cst_objects c) of
       None \<Rightarrow> (Inl panicked, ((c, w), b))
     | Some (value, l) \<Rightarrow>
         (Inr value, ((c\<lparr>cst_objects := l\<rparr>, w),
            (if value = None then record_cache_miss b else record_cache_hit b)))))"

text \<open>The loop that makes room for one entry, bounded by the resident entries.\<close>

fun make_room :: "nat \<Rightarrow> cache_options \<Rightarrow> cache_state \<Rightarrow> cache_state option" where
  "make_room fuel options c =
    (if co_max_entries options \<le> of_nat (lru_len (cst_objects c)) then
       (case pop_lru (cst_objects c) of
          None \<Rightarrow> None
        | Some (None, l) \<Rightarrow> Some (c\<lparr>cst_objects := l\<rparr>)
        | Some (Some _, l) \<Rightarrow>
            (case fuel of
               0 \<Rightarrow> None
             | Suc fuel' \<Rightarrow> make_room fuel' options
                 (c\<lparr>cst_objects := l, cst_evictions := sat_add (cst_evictions c) 1\<rparr>)))
     else Some c)"

declare make_room.simps [simp del]

definition cache_insert ::
    "cache_options \<Rightarrow> oid \<Rightarrow> object_kind \<Rightarrow> bytes \<Rightarrow> cache_state \<Rightarrow> cache_state option" where
  "cache_insert options x kind data c =
    (if co_max_object_bytes options < byte_len data \<or> co_max_bytes options < byte_len data then Some c
     else do {
       let key = (oid_kind x, x);
       (old, l1) \<leftarrow> lru_remove key (cst_objects c);
       let c1 = c\<lparr>cst_objects := l1\<rparr>;
       c2 \<leftarrow> (if old = None then make_room (lru_len l1) options c1 else Some c1);
       (evictions, l3) \<leftarrow> insert_counting_evictions key (kind, data) (byte_len data) (cst_objects c2);
       Some (c2\<lparr>cst_objects := l3, cst_evictions := sat_add (cst_evictions c2) evictions\<rparr>)
     })"

definition cache_stats_of :: "cache_state \<Rightarrow> cache_stats" where
  "cache_stats_of c = \<lparr>cs_bytes = lru_used (cst_objects c), cs_entries = of_nat (lru_len (cst_objects c)),
     cs_evictions = cst_evictions c\<rparr>"

section \<open>The composition\<close>

record 'w layered =
  lo_hash :: hash_kind
  lo_layers :: "'w odb list"
  lo_cache :: "(nat \<times> cache_options) option"

definition layered_new ::
    "'w odb list \<Rightarrow> (nat \<times> cache_options) option \<Rightarrow> error + 'w layered \<times> cache_state option" where
  "layered_new layers cache =
    (case layers of
       [] \<Rightarrow> Inl (invalid_argument ''a layered object database requires at least one store'')
     | first # _ \<Rightarrow>
       (let hash = db_hash_kind first in
        if \<exists>layer \<in> set layers. db_hash_kind layer \<noteq> hash then
          Inl (err_new HashMismatch ''layered object stores use different hash algorithms'')
        else rbind
          (case cache of
             Some (index, options) \<Rightarrow>
               if index < length layers then rbind (cache_new options) (\<lambda>c. Inr (Some c))
               else Inl (invalid_argument ''a cache layer must precede at least one object store'')
           | None \<Rightarrow> Inr None)
          (\<lambda>c. Inr (\<lparr>lo_hash = hash, lo_layers = layers, lo_cache = cache\<rparr>, c))))"

definition ensure_oid :: "'w layered \<Rightarrow> oid \<Rightarrow> error + unit" where
  "ensure_oid L x =
    (if oid_kind x = lo_hash L then Inr ()
     else Inl (err_new InvalidOid ''object ID hash does not match the layered store''))"

definition cache_at :: "'w layered \<Rightarrow> nat \<Rightarrow> cache_options option" where
  "cache_at L store_index =
    (case lo_cache L of None \<Rightarrow> None | Some (index, options) \<Rightarrow> if index = store_index then Some options else None)"

definition cache_before :: "'w layered \<Rightarrow> nat \<Rightarrow> cache_options option" where
  "cache_before L store_index =
    (case lo_cache L of None \<Rightarrow> None | Some (index, options) \<Rightarrow> if index \<le> store_index then Some options else None)"

definition has_cache :: "'w layered \<Rightarrow> bool" where
  "has_cache L \<longleftrightarrow> lo_cache L \<noteq> None"

text \<open>An operation of a store, inside the composition.\<close>

definition in_layer :: "('w, 'a) op \<Rightarrow> (cache_state \<times> 'w, 'a) op" where
  "in_layer m s = (case s of ((c, w), b) \<Rightarrow> (case m (w, b) of (r, (w', b')) \<Rightarrow> (r, ((c, w'), b'))))"

definition on_cache :: "(cache_state \<Rightarrow> cache_state option) \<Rightarrow> (cache_state \<times> 'w, unit) op" where
  "on_cache f s = (case s of ((c, w), b) \<Rightarrow>
    (case f c of None \<Rightarrow> (Inl panicked, s) | Some c' \<Rightarrow> (Inr (), ((c', w), b))))"

definition short_batch_error :: error where
  "short_batch_error = err_new BackendError
     (''layer returned a short batch '' @ [CHR 0xE2, CHR 0x80, CHR 0x94] @ '' ObjectDb contract violation'')"

definition verified_header :: "object_kind \<Rightarrow> nat \<Rightarrow> header_read" where
  "verified_header kind n = \<lparr>hr_header = \<lparr>hdr_kind = kind, hdr_size = of_nat n\<rparr>, hr_provenance = Verified\<rparr>"

fun header_loop :: "'w layered \<Rightarrow> oid \<Rightarrow> nat \<Rightarrow> 'w odb list \<Rightarrow> (cache_state \<times> 'w, header_read option) op" where
  "header_loop L x index [] = sreturn None"
| "header_loop L x index (layer # layers) =
    sbind (if cache_at L index = None then sreturn None else cache_get x) (\<lambda>cached.
    case cached of
      Some (kind, data) \<Rightarrow>
        sbind (on_budget charge_header) (\<lambda>_. sreturn (Some (verified_header kind (length data))))
    | None \<Rightarrow>
        sbind (smap_err (with_layer index) (in_layer (db_try_header_with_provenance layer x))) (\<lambda>read.
        case read of Some h \<Rightarrow> sreturn (Some h) | None \<Rightarrow> header_loop L x (Suc index) layers))"

definition layered_header_with_provenance :: "'w layered \<Rightarrow> oid \<Rightarrow> (cache_state \<times> 'w, header_read option) op" where
  "layered_header_with_provenance L x =
    sbind (slift (ensure_oid L x)) (\<lambda>_. header_loop L x 0 (lo_layers L))"

definition layered_try_header :: "'w layered \<Rightarrow> oid \<Rightarrow> (cache_state \<times> 'w, object_header option) op" where
  "layered_try_header L x =
    sbind (layered_header_with_provenance L x) (\<lambda>h. sreturn (map_option hr_header h))"

text \<open>\<open>filter(|oid| seen.insert(*oid))\<close>: first appearances, in order.\<close>

fun first_appearances :: "oid set \<Rightarrow> oid list \<Rightarrow> oid list" where
  "first_appearances seen [] = []"
| "first_appearances seen (x # xs) =
    (if x \<in> seen then first_appearances seen xs else x # first_appearances (insert x seen) xs)"

record batch =
  bt_unresolved :: "oid list"
  bt_resolved :: "oid \<rightharpoonup> object_read"
  bt_bytes :: u64

text \<open>One pass over the unresolved names through the cache, and one through a store's answers.\<close>

fun cache_pass :: "read_many_budget \<Rightarrow> oid list \<Rightarrow> batch \<Rightarrow> (cache_state \<times> 'w, batch) op" where
  "cache_pass rb [] t = sreturn t"
| "cache_pass rb (x # xs) t =
    sbind (cache_get x) (\<lambda>cached.
    case cached of
      Some (kind, data) \<Rightarrow>
        sbind (on_budget (charge_object (byte_len data))) (\<lambda>_.
        let bytes = sat_add (bt_bytes t) (byte_len data) in
        sbind (slift (enforce_read_many_budget bytes rb)) (\<lambda>_.
        cache_pass rb xs (t\<lparr>bt_bytes := bytes, bt_resolved := (bt_resolved t)(x \<mapsto> Some (kind, data))\<rparr>)))
    | None \<Rightarrow> cache_pass rb xs (t\<lparr>bt_unresolved := bt_unresolved t @ [x]\<rparr>))"

fun store_pass :: "'w layered \<Rightarrow> nat \<Rightarrow> read_many_budget \<Rightarrow> (oid \<times> object_read) list \<Rightarrow> batch
    \<Rightarrow> (cache_state \<times> 'w, batch) op" where
  "store_pass L index rb [] t = sreturn t"
| "store_pass L index rb ((x, value) # rest) t =
    (case value of
       Some (kind, data) \<Rightarrow>
         (let bytes = sat_add (bt_bytes t) (byte_len data) in
          sbind (slift (enforce_read_many_budget bytes rb)) (\<lambda>_.
          sbind (case cache_before L index of
                   Some options \<Rightarrow> on_cache (cache_insert options x kind data)
                 | None \<Rightarrow> sreturn ()) (\<lambda>_.
          store_pass L index rb rest
            (t\<lparr>bt_bytes := bytes, bt_resolved := (bt_resolved t)(x \<mapsto> Some (kind, data))\<rparr>))))
     | None \<Rightarrow> store_pass L index rb rest (t\<lparr>bt_unresolved := bt_unresolved t @ [x]\<rparr>))"

fun layers_loop :: "'w layered \<Rightarrow> read_many_budget \<Rightarrow> nat \<Rightarrow> 'w odb list \<Rightarrow> batch
    \<Rightarrow> (cache_state \<times> 'w, batch) op" where
  "layers_loop L rb index [] t = sreturn t"
| "layers_loop L rb index (layer # layers) t =
    sbind (if cache_at L index = None then sreturn t
           else cache_pass rb (bt_unresolved t) (t\<lparr>bt_unresolved := []\<rparr>)) (\<lambda>t1.
    if bt_unresolved t1 = [] then sreturn t1
    else
      let remaining = \<lparr>rm_max_total_bytes =
            map_option (\<lambda>maximum. sat_sub maximum (bt_bytes t1)) (rm_max_total_bytes rb)\<rparr> in
      sbind (smap_err (with_layer index)
        (in_layer (db_try_find_many_bounded layer (bt_unresolved t1) remaining))) (\<lambda>values.
      if length values \<noteq> length (bt_unresolved t1) then sraise (with_layer index short_batch_error)
      else sbind (store_pass L index rb (zip (bt_unresolved t1) values) (t1\<lparr>bt_unresolved := []\<rparr>)) (\<lambda>t2.
        layers_loop L rb (Suc index) layers t2)))"

definition layered_find_many_bounded ::
    "'w layered \<Rightarrow> oid list \<Rightarrow> read_many_budget \<Rightarrow> (cache_state \<times> 'w, object_read list) op" where
  "layered_find_many_bounded L xs rb =
    sbind (sfold (\<lambda>x _. slift (ensure_oid L x)) xs ()) (\<lambda>_.
    sbind (layers_loop L rb 0 (lo_layers L)
       \<lparr>bt_unresolved = first_appearances {} xs, bt_resolved = Map.empty, bt_bytes = 0\<rparr>) (\<lambda>t.
    let resolved = foldl (\<lambda>m x. m(x \<mapsto> None)) (bt_resolved t) (bt_unresolved t) in
    sreturn (map (\<lambda>x. case resolved x of None \<Rightarrow> None | Some v \<Rightarrow> v) xs)))"

definition layered_find :: "'w layered \<Rightarrow> oid \<Rightarrow> (cache_state \<times> 'w, object_read) op" where
  "layered_find L x =
    sbind (layered_find_many_bounded L [x] default_read_many) (\<lambda>values.
    if length values \<noteq> 1 then sraise short_batch_error else sreturn (last values))"

text \<open>\<open>prefetch\<close> asks every layer and reports the first error.\<close>

fun prefetch_loop :: "'w odb list \<Rightarrow> oid list \<Rightarrow> error option \<Rightarrow> (cache_state \<times> 'w, unit) op" where
  "prefetch_loop [] xs first = slift (case first of None \<Rightarrow> Inr () | Some e \<Rightarrow> Inl e)"
| "prefetch_loop (layer # layers) xs first =
    (\<lambda>s. case in_layer (db_prefetch layer xs) s of
       (Inl e, s') \<Rightarrow> prefetch_loop layers xs (if first = None then Some e else first) s'
     | (Inr _, s') \<Rightarrow> prefetch_loop layers xs first s')"

definition layered_prefetch :: "'w layered \<Rightarrow> oid list \<Rightarrow> (cache_state \<times> 'w, unit) op" where
  "layered_prefetch L xs = prefetch_loop (lo_layers L) xs None"

definition layered_supports_prefetch :: "'w layered \<Rightarrow> bool" where
  "layered_supports_prefetch L \<longleftrightarrow> (\<exists>layer \<in> set (lo_layers L). db_supports_prefetch layer)"

text \<open>\<open>refresh\<close>: every layer is asked; a real failure wins over an acceptance, which
  wins over refusals.\<close>

fun refresh_loop :: "nat \<Rightarrow> 'w odb list \<Rightarrow> bool \<Rightarrow> error option \<Rightarrow> error option \<Rightarrow> (cache_state \<times> 'w, unit) op" where
  "refresh_loop index [] accepted unsupported first =
    slift (case first of
        Some e \<Rightarrow> Inl e
      | None \<Rightarrow> if accepted then Inr ()
          else Inl (case unsupported of
              Some e \<Rightarrow> e
            | None \<Rightarrow> err_new UnsupportedOperation ''no layer supports refresh''))"
| "refresh_loop index (layer # layers) accepted unsupported first =
    (\<lambda>s. case in_layer (db_refresh layer) s of
       (Inr _, s') \<Rightarrow> refresh_loop (Suc index) layers True unsupported first s'
     | (Inl e, s') \<Rightarrow>
         if err_code e = UnsupportedOperation then
           refresh_loop (Suc index) layers accepted
             (if unsupported = None then Some (with_layer index e) else unsupported) first s'
         else refresh_loop (Suc index) layers accepted unsupported
             (if first = None then Some (with_layer index e) else first) s')"

definition layered_refresh :: "'w layered \<Rightarrow> (cache_state \<times> 'w, unit) op" where
  "layered_refresh L = refresh_loop 0 (lo_layers L) False None None"

definition layered_cache_stats :: "'w layered \<Rightarrow> cache_state \<times> 'w \<Rightarrow> cache_stats" where
  "layered_cache_stats L s = (if lo_cache L = None then default_cache_stats else cache_stats_of (fst s))"

definition layered_db :: "'w layered \<Rightarrow> (cache_state \<times> 'w) odb" where
  "layered_db L = \<lparr>
    db_hash_kind = lo_hash L,
    db_shallow_roots = None,
    db_try_header = layered_try_header L,
    db_try_header_with_provenance = layered_header_with_provenance L,
    db_try_find = layered_find L,
    db_try_find_graph = default_find_graph (layered_find L),
    db_try_find_many_bounded = layered_find_many_bounded L,
    db_prefetch = layered_prefetch L,
    db_supports_prefetch = layered_supports_prefetch L,
    db_cache_stats = layered_cache_stats L,
    db_refresh = layered_refresh L\<rparr>"

section \<open>The cache holds what was put into it\<close>

text \<open>Every resident entry has the property \<open>P\<close>, and the slab is in order.\<close>

definition cache_holds :: "(hash_kind \<times> oid \<Rightarrow> cached_object \<Rightarrow> bool) \<Rightarrow> cache_state \<Rightarrow> bool" where
  "cache_holds P c \<longleftrightarrow> (\<exists>xs. lru_repr (cst_objects c) xs \<and> (\<forall>(k, v, w) \<in> set xs. P k v))"

lemma cache_new_holds:
  "cache_new options = Inr c \<Longrightarrow> co_max_bytes options < - 1 \<Longrightarrow> cache_holds P c"
  using lru_new_repr [of "co_max_bytes options"]
  by (auto simp: cache_new_def cache_holds_def split: if_splits)

lemma cache_get_answers:
  assumes "\<And>c w. I (c, w) \<longleftrightarrow> cache_holds P c \<and> J w"
  shows "answers I (\<lambda>r. \<forall>v. r = Some v \<longrightarrow> P (oid_kind x, x) v) (cache_get x)"
proof -
  have get: "\<exists>r l. lru_get (oid_kind x, x) (cst_objects c) = Some (r, l)
      \<and> cache_holds P (c\<lparr>cst_objects := l\<rparr>) \<and> (\<forall>v. r = Some v \<longrightarrow> P (oid_kind x, x) v)"
    if "cache_holds P c" for c
  proof -
    from that obtain xs where "lru_repr (cst_objects c) xs" "\<forall>(k, v, w) \<in> set xs. P k v"
      by (auto simp: cache_holds_def)
    from slab.get_keeps [OF this, of "(oid_kind x, x)"] obtain r l ys where
      "lru_get (oid_kind x, x) (cst_objects c) = Some (r, l)" "lru_repr l ys"
      "\<forall>(k, v, w) \<in> set ys. P k v" "\<forall>v. r = Some v \<longrightarrow> P (oid_kind x, x) v" by blast
    then show ?thesis unfolding cache_holds_def by auto
  qed
  show ?thesis
  proof (rule answersI)
    fix s :: "cache_state \<times> 'a" and b r s' b'
    assume s: "I s" and run: "cache_get x (s, b) = (r, (s', b'))"
    obtain c w where cw: "s = (c, w)" by (cases s)
    with s assms have "cache_holds P c" "J w" by auto
    with get [of c] run cw show "I s'" by (auto simp: cache_get_def assms)
  next
    fix s :: "cache_state \<times> 'a" and b r s' b'
    assume s: "I s" and run: "cache_get x (s, b) = (Inr r, (s', b'))"
    obtain c w where cw: "s = (c, w)" by (cases s)
    with s assms have "cache_holds P c" by auto
    with get [of c] run cw show "\<forall>v. r = Some v \<longrightarrow> P (oid_kind x, x) v" by (auto simp: cache_get_def)
  qed
qed

lemma cache_holdsI: "lru_repr (cst_objects c) xs \<Longrightarrow> \<forall>(k, v, w) \<in> set xs. P k v \<Longrightarrow> cache_holds P c"
  by (auto simp: cache_holds_def)

text \<open>The room-making loop ends, within the number of resident entries.\<close>

lemma lru_repr_length: "lru_repr c xs \<Longrightarrow> lru_len c = length xs"
proof -
  assume "lru_repr c xs"
  then obtain "is" where i: "linked c is" "stocked c is" "xs = entries c is" by (auto simp: lru_repr_def)
  have keys: "map_of (lru_indices c) k = Some j \<longleftrightarrow> (j \<in> set is \<and> fst (node_payload (the (node_at c j))) = k)" for k j
    using i(2) unfolding stocked_def by blast
  have dist: "distinct (map fst (lru_indices c))" using i(2) unfolding stocked_def by blast
  have "snd ` set (lru_indices c) = set is"
  proof (intro set_eqI iffI)
    fix j assume "j \<in> snd ` set (lru_indices c)"
    then obtain k where "(k, j) \<in> set (lru_indices c)" by auto
    with dist keys [of k j] show "j \<in> set is" by simp
  next
    fix j assume "j \<in> set is"
    with keys [of "fst (node_payload (the (node_at c j)))" j]
    have "(fst (node_payload (the (node_at c j))), j) \<in> set (lru_indices c)" by (auto dest: map_of_SomeD)
    then show "j \<in> snd ` set (lru_indices c)" by force
  qed
  moreover have "inj_on snd (set (lru_indices c))"
  proof (rule inj_onI)
    fix a b assume ab: "a \<in> set (lru_indices c)" "b \<in> set (lru_indices c)" "snd a = snd b"
    then have "map_of (lru_indices c) (fst a) = Some (snd a)" "map_of (lru_indices c) (fst b) = Some (snd b)"
      using dist by (metis map_of_eq_Some_iff prod.collapse)+
    then show "a = b" using keys ab(3) by (metis prod.collapse)
  qed
  ultimately have "length (map snd (lru_indices c)) = length is"
    using i(1) dist unfolding linked_def
    by (metis card_image distinct_card distinct_map length_map)
  then show ?thesis using i(3) by (simp add: lru_len_def entries_def)
qed

lemma make_room_holds:
  assumes "lru_repr (cst_objects c) xs" and "\<forall>(k, v, w) \<in> set xs. P k v" and "length xs \<le> fuel"
  shows "\<exists>c'. make_room fuel options c = Some c' \<and> cache_holds P c'"
  using assms
proof (induction xs arbitrary: c fuel)
  case Nil
  with pop_lru_refines [OF Nil.prems(1)] show ?case
    by (subst make_room.simps) (auto simp: a_pop_def cache_holds_def intro!: exI [of _ "[]"])
next
  case (Cons x xs)
  from pop_lru_refines [OF Cons.prems(1)] obtain l where
    l: "pop_lru (cst_objects c) = Some (Some (fst x, fst (snd x)), l)" "lru_repr l xs"
    by (auto simp: a_pop_def)
  from Cons.prems(3) obtain fuel' where fuel: "fuel = Suc fuel'" "length xs \<le> fuel'" by (cases fuel) auto
  let ?c = "c\<lparr>cst_objects := l, cst_evictions := sat_add (cst_evictions c) 1\<rparr>"
  have "\<exists>c'. make_room fuel' options ?c = Some c' \<and> cache_holds P c'"
    using Cons.prems(2) l(2) fuel(2) by (intro Cons.IH) auto
  moreover have "cache_holds P c" using Cons.prems(1,2) by (rule cache_holdsI)
  ultimately show ?case using l(1) fuel(1) by (subst make_room.simps) auto
qed

lemma cache_insert_holds:
  assumes "cache_holds P c" and "P (oid_kind x, x) (kind, data)"
  shows "\<exists>c'. cache_insert options x kind data c = Some c' \<and> cache_holds P c'"
proof (cases "co_max_object_bytes options < byte_len data \<or> co_max_bytes options < byte_len data")
  case True
  with assms(1) show ?thesis by (simp add: cache_insert_def)
next
  case False
  let ?key = "(oid_kind x, x)"
  from assms(1) obtain xs where xs: "lru_repr (cst_objects c) xs" "\<forall>(k, v, w) \<in> set xs. P k v"
    by (auto simp: cache_holds_def)
  from lru_remove_refines [OF xs(1), of ?key] obtain old l1 where
    l1: "lru_remove ?key (cst_objects c) = Some (old, l1)" "lru_repr l1 (a_drop ?key xs)"
    by (auto simp: a_remove_def)
  have P1: "\<forall>(k, v, w) \<in> set (a_drop ?key xs). P k v" using xs(2) by (auto simp: a_drop_def)
  let ?c1 = "c\<lparr>cst_objects := l1\<rparr>"
  from make_room_holds [of ?c1 "a_drop ?key xs" P "lru_len l1" options] l1(2) P1 lru_repr_length [OF l1(2)]
  obtain c2 where c2: "(if old = None then make_room (lru_len l1) options ?c1 else Some ?c1) = Some c2"
    "cache_holds P c2" using cache_holdsI [of ?c1] by (cases "old = None") auto
  then obtain ys where "lru_repr (cst_objects c2) ys" "\<forall>(k, v, w) \<in> set ys. P k v"
    by (auto simp: cache_holds_def)
  from slab.insert_keeps [OF this assms(2), of "byte_len data"] obtain n l3 where
    l3: "insert_counting_evictions ?key (kind, data) (byte_len data) (cst_objects c2) = Some (n, l3)"
    "cache_holds P (c2\<lparr>cst_objects := l3, cst_evictions := sat_add (cst_evictions c2) n\<rparr>)"
    by (auto simp: cache_holds_def)
  with False l1(1) c2(1) show ?thesis by (simp add: cache_insert_def Let_def)
qed


section \<open>The composition answers as the first store that knows\<close>

fun first_answer :: "(oid \<Rightarrow> object_read \<Rightarrow> bool) list \<Rightarrow> oid \<Rightarrow> object_read \<Rightarrow> bool" where
  "first_answer [] x v \<longleftrightarrow> v = None"
| "first_answer (a # as) x v \<longleftrightarrow> (v \<noteq> None \<and> a x v) \<or> (a x None \<and> first_answer as x v)"

text \<open>All stores before position \<open>i\<close>, from \<open>j\<close> on, have answered that they miss \<open>x\<close>.\<close>

definition missed :: "(oid \<Rightarrow> object_read \<Rightarrow> bool) list \<Rightarrow> nat \<Rightarrow> oid \<Rightarrow> bool" where
  "missed as i x \<longleftrightarrow> (\<forall>j \<le> i. \<forall>v. first_answer (drop i as) x v \<longrightarrow> first_answer (drop j as) x v)"

lemma missed_0 [simp]: "missed as 0 x"
  by (simp add: missed_def)

lemma missed_Suc: "i < length as \<Longrightarrow> missed as i x \<Longrightarrow> (as ! i) x None \<Longrightarrow> missed as (Suc i) x"
  unfolding missed_def by (auto simp: le_Suc_eq simp flip: Cons_nth_drop_Suc)

lemma missed_found:
  assumes "i < length as" and "missed as i x" and "(as ! i) x (Some v)" and "j \<le> i"
  shows "first_answer (drop j as) x (Some v)"
  using assms unfolding missed_def by (metis Cons_nth_drop_Suc first_answer.simps(2) option.distinct(1))

definition cached_answer :: "'w layered \<Rightarrow> (oid \<Rightarrow> object_read \<Rightarrow> bool) list \<Rightarrow> hash_kind \<times> oid \<Rightarrow> cached_object \<Rightarrow> bool" where
  "cached_answer L as k v =
    (case lo_cache L of None \<Rightarrow> True | Some (index, _) \<Rightarrow> first_answer (drop index as) (snd k) (Some v))"

definition layered_inv :: "'w layered \<Rightarrow> ('w \<Rightarrow> bool) \<Rightarrow> (oid \<Rightarrow> object_read \<Rightarrow> bool) list \<Rightarrow> cache_state \<times> 'w \<Rightarrow> bool" where
  "layered_inv L J as s \<longleftrightarrow>
    length as = length (lo_layers L) \<and> (\<forall>i < length as. object_store (lo_layers L ! i) J (as ! i))
    \<and> (lo_cache L \<noteq> None \<longrightarrow> cache_holds (cached_answer L as) (fst s)) \<and> J (snd s)"

text \<open>The part of the invariant that no operation can change.\<close>

definition layers_ok :: "'w layered \<Rightarrow> ('w \<Rightarrow> bool) \<Rightarrow> (oid \<Rightarrow> object_read \<Rightarrow> bool) list \<Rightarrow> bool" where
  "layers_ok L J as \<longleftrightarrow> length as = length (lo_layers L)
    \<and> (\<forall>i < length as. object_store (lo_layers L ! i) J (as ! i))"

lemma layered_inv_eq: "layers_ok L J as \<Longrightarrow>
   layered_inv L J as (c, w) \<longleftrightarrow> (lo_cache L \<noteq> None \<longrightarrow> cache_holds (cached_answer L as) c) \<and> J w"
  by (auto simp: layered_inv_def layers_ok_def)

lemma in_layer_answers:
  assumes "layers_ok L J as" and "answers J P m"
  shows "answers (layered_inv L J as) P (in_layer m)"
proof (rule answersI)
  fix s b r s' b'
  assume s: "layered_inv L J as s" and run: "in_layer m (s, b) = (r, (s', b'))"
  obtain c w where cw: "s = (c, w)" by (cases s)
  obtain w' where "m (w, b) = (r, (w', b'))" "s' = (c, w')"
    using run cw by (auto simp: in_layer_def split: prod.splits)
  with answers_run(1) [OF assms(2)] s cw show "layered_inv L J as s'"
    by (auto simp: layered_inv_eq [OF assms(1)])
next
  fix s b v s' b'
  assume s: "layered_inv L J as s" and run: "in_layer m (s, b) = (Inr v, (s', b'))"
  obtain c w where cw: "s = (c, w)" by (cases s)
  obtain w' where "m (w, b) = (Inr v, (w', b'))"
    using run cw by (auto simp: in_layer_def split: prod.splits)
  with answers_run(2) [OF assms(2)] s cw show "P v"
    by (auto simp: layered_inv_eq [OF assms(1)])
qed

lemma layered_cache_get:
  assumes "layers_ok L J as" and "lo_cache L = Some (index, options)"
  shows "answers (layered_inv L J as) (\<lambda>r. \<forall>v. r = Some v \<longrightarrow> first_answer (drop index as) x (Some v)) (cache_get x)"
  using answers_conseq [OF cache_get_answers [of "layered_inv L J as" "cached_answer L as" J x]] assms(2)
  by (simp add: layered_inv_eq [OF assms(1)] cached_answer_def)

lemma layered_cache_insert:
  assumes ok: "layers_ok L J as" and before: "cache_before L i = Some options"
    and found: "\<And>j. j \<le> i \<Longrightarrow> first_answer (drop j as) x (Some (kind, data))"
  shows "answers (layered_inv L J as) (\<lambda>_. True) (on_cache (cache_insert options x kind data))"
proof (rule answersI)
  from before obtain index where idx: "lo_cache L = Some (index, options)" "index \<le> i"
    by (auto simp: cache_before_def split: option.splits prod.splits if_splits)
  then have P: "cached_answer L as (oid_kind x, x) (kind, data)" using found by (simp add: cached_answer_def)
  fix s b r s' b'
  assume s: "layered_inv L J as s" and run: "on_cache (cache_insert options x kind data) (s, b) = (r, (s', b'))"
  obtain c w where cw: "s = (c, w)" by (cases s)
  from s cw idx have c: "cache_holds (cached_answer L as) c" "J w" by (simp_all add: layered_inv_eq [OF ok])
  from cache_insert_holds [OF c(1), of x kind data options] P obtain c' where
    "cache_insert options x kind data c = Some c'" "cache_holds (cached_answer L as) c'" by blast
  with run cw c(2) show "layered_inv L J as s'" by (auto simp: on_cache_def layered_inv_eq [OF ok])
qed simp

text \<open>What the batch loop keeps about names asked for, answered and still open.\<close>

definition batch_ok :: "(oid \<Rightarrow> object_read \<Rightarrow> bool) list \<Rightarrow> oid set \<Rightarrow> nat \<Rightarrow> oid set \<Rightarrow> batch \<Rightarrow> bool" where
  "batch_ok as X i pending t \<longleftrightarrow>
    X \<subseteq> pending \<union> set (bt_unresolved t) \<union> dom (bt_resolved t)
    \<and> (\<forall>x v. bt_resolved t x = Some v \<longrightarrow> first_answer as x v)
    \<and> (\<forall>x \<in> set (bt_unresolved t). missed as i x)"

lemma cache_pass_answers:
  assumes ok: "layers_ok L J as" and at: "cache_at L i \<noteq> None"
    and "batch_ok as X i (set xs) t" and "\<And>x. x \<in> set xs \<Longrightarrow> missed as i x"
  shows "answers (layered_inv L J as) (batch_ok as X i {}) (cache_pass rb xs t)"
  using assms(3,4)
proof (induction xs arbitrary: t)
  case Nil
  then show ?case by (simp add: answers_sreturn)
next
  case (Cons x xs)
  from at obtain options where idx: "lo_cache L = Some (i, options)"
    by (auto simp: cache_at_def split: option.splits prod.splits if_splits)
  have hit: "answers (layered_inv L J as) (batch_ok as X i {})
      (cache_pass rb xs (t\<lparr>bt_bytes := n, bt_resolved := (bt_resolved t)(x \<mapsto> Some v)\<rparr>))"
    if "first_answer (drop i as) x (Some v)" for n v
  proof (rule Cons.IH)
    have "first_answer as x (Some v)" using that Cons.prems(2) [of x] unfolding missed_def
      by (metis drop0 le0 list.set_intros(1))
    then show "batch_ok as X i (set xs) (t\<lparr>bt_bytes := n, bt_resolved := (bt_resolved t)(x \<mapsto> Some v)\<rparr>)"
      using Cons.prems(1) by (auto simp: batch_ok_def)
  qed (use Cons.prems(2) in auto)
  have miss: "answers (layered_inv L J as) (batch_ok as X i {})
      (cache_pass rb xs (t\<lparr>bt_unresolved := bt_unresolved t @ [x]\<rparr>))"
    using Cons.prems by (intro Cons.IH) (auto simp: batch_ok_def)
  show ?case
    unfolding cache_pass.simps
  proof (rule answers_sbind [OF layered_cache_get [OF ok idx]])
    fix cached
    assume c: "\<forall>v. cached = Some v \<longrightarrow> first_answer (drop i as) x (Some v)"
    then show "answers (layered_inv L J as) (batch_ok as X i {})
        (case cached of
          Some (kind, data) \<Rightarrow>
            sbind (on_budget (charge_object (byte_len data))) (\<lambda>_.
            let bytes = sat_add (bt_bytes t) (byte_len data) in
            sbind (slift (enforce_read_many_budget bytes rb)) (\<lambda>_.
            cache_pass rb xs (t\<lparr>bt_bytes := bytes, bt_resolved := (bt_resolved t)(x \<mapsto> Some (kind, data))\<rparr>)))
        | None \<Rightarrow> cache_pass rb xs (t\<lparr>bt_unresolved := bt_unresolved t @ [x]\<rparr>))"
      using hit miss
      by (auto simp: Let_def split: option.split intro!: answers_sbind [where Q = "\<lambda>_. True"] answers_on_budget answers_slift)
  qed
qed

lemma store_pass_answers:
  assumes ok: "layers_ok L J as" and i: "i < length as"
    and "batch_ok as X (Suc i) (fst ` set ps) t"
    and "\<And>x v. (x, v) \<in> set ps \<Longrightarrow> missed as i x \<and> (as ! i) x v"
  shows "answers (layered_inv L J as) (batch_ok as X (Suc i) {}) (store_pass L i rb ps t)"
  using assms(3,4)
proof (induction ps arbitrary: t)
  case Nil
  then show ?case by (simp add: answers_sreturn)
next
  case (Cons p ps)
  obtain x val where p: "p = (x, val)" by (cases p)
  from Cons.prems(2) [of x val] p have x: "missed as i x" "(as ! i) x val" by auto
  show ?case
  proof (cases val)
    case None
    with missed_Suc [OF i x(1)] x(2) have "missed as (Suc i) x" by simp
    then have "answers (layered_inv L J as) (batch_ok as X (Suc i) {})
        (store_pass L i rb ps (t\<lparr>bt_unresolved := bt_unresolved t @ [x]\<rparr>))"
      using Cons.prems p by (intro Cons.IH) (auto simp: batch_ok_def)
    with None p show ?thesis by simp
  next
    case (Some v)
    obtain kind data where v: "v = (kind, data)" by (cases v)
    have found: "first_answer (drop j as) x (Some (kind, data))" if "j \<le> i" for j
      using missed_found [OF i x(1) _ that] x(2) Some v by simp
    have rest: "answers (layered_inv L J as) (batch_ok as X (Suc i) {})
        (store_pass L i rb ps (t\<lparr>bt_bytes := n, bt_resolved := (bt_resolved t)(x \<mapsto> Some (kind, data))\<rparr>))" for n
      using Cons.prems p found [of 0] by (intro Cons.IH) (auto simp: batch_ok_def)
    have "answers (layered_inv L J as) (\<lambda>_. True)
        (case cache_before L i of Some options \<Rightarrow> on_cache (cache_insert options x kind data) | None \<Rightarrow> sreturn ())"
      using layered_cache_insert [OF ok _ found] by (auto split: option.split intro: answers_sreturn)
    then show ?thesis
      using rest unfolding p Some v
      by (auto simp: Let_def intro!: answers_sbind [where Q = "\<lambda>_. True"] answers_slift)
  qed
qed


lemma drop_layer: "l # ls = drop i xs \<Longrightarrow> i < length xs \<and> l = xs ! i \<and> ls = drop (Suc i) xs"
  by (metis Cons_nth_drop_Suc drop_eq_Nil2 linorder_not_le list.distinct(1) list.inject)

lemma layers_loop_answers:
  assumes ok: "layers_ok L J as" and "layers = drop i (lo_layers L)" and "i \<le> length as"
    and "batch_ok as X i {} t"
  shows "answers (layered_inv L J as)
    (\<lambda>t. batch_ok as X (length as) {} t) (layers_loop L rb i layers t)"
  using assms(2-4)
proof (induction layers arbitrary: i t)
  case Nil
  with ok have "i = length as" by (simp add: layers_ok_def)
  with Nil show ?case by (simp add: answers_sreturn)
next
  case (Cons layer layers)
  let ?I = "layered_inv L J as"
  have i: "i < length as" "layer = lo_layers L ! i" "layers = drop (Suc i) (lo_layers L)"
    using drop_layer [OF Cons.prems(1)] ok by (simp_all add: layers_ok_def)
  from ok i have store: "object_store layer J (as ! i)" by (simp add: layers_ok_def)
  have first: "answers ?I (batch_ok as X i {})
      (if cache_at L i = None then sreturn t else cache_pass rb (bt_unresolved t) (t\<lparr>bt_unresolved := []\<rparr>))"
    using Cons.prems(3) cache_pass_answers [OF ok, of i X "bt_unresolved t" "t\<lparr>bt_unresolved := []\<rparr>" rb]
    by (auto simp: batch_ok_def answers_sreturn)
  have rest: "answers ?I (batch_ok as X (length as) {})
      (let remaining = \<lparr>rm_max_total_bytes =
            map_option (\<lambda>maximum. sat_sub maximum (bt_bytes t1)) (rm_max_total_bytes rb)\<rparr> in
      sbind (smap_err (with_layer i)
        (in_layer (db_try_find_many_bounded layer (bt_unresolved t1) remaining))) (\<lambda>values.
      if length values \<noteq> length (bt_unresolved t1) then sraise (with_layer i short_batch_error)
      else sbind (store_pass L i rb (zip (bt_unresolved t1) values) (t1\<lparr>bt_unresolved := []\<rparr>)) (\<lambda>t2.
        layers_loop L rb (Suc i) layers t2)))" if t1: "batch_ok as X i {} t1" for t1
    unfolding Let_def
  proof (rule answers_sbind [OF answers_smap_err [OF in_layer_answers [OF ok object_store.find_many_law [OF store]]]])
    fix vals
    assume vals: "list_all2 (as ! i) (bt_unresolved t1) vals"
    then have len: "length vals = length (bt_unresolved t1)" by (simp add: list_all2_lengthD)
    have "answers ?I (batch_ok as X (Suc i) {})
        (store_pass L i rb (zip (bt_unresolved t1) vals) (t1\<lparr>bt_unresolved := []\<rparr>))"
    proof (rule store_pass_answers [OF ok i(1)])
      have "fst ` set (zip (bt_unresolved t1) vals) = set (bt_unresolved t1)"
        using len by (metis list.set_map map_fst_zip)
      then show "batch_ok as X (Suc i) (fst ` set (zip (bt_unresolved t1) vals)) (t1\<lparr>bt_unresolved := []\<rparr>)"
        using t1 by (auto simp: batch_ok_def)
      show "missed as i x \<and> (as ! i) x v" if "(x, v) \<in> set (zip (bt_unresolved t1) vals)" for x v
        using that t1 vals by (auto simp: batch_ok_def list_all2_iff dest: set_zip_leftD)
    qed
    with Cons.IH [OF i(3)] i(1) len show "answers ?I (batch_ok as X (length as) {})
      (if length vals \<noteq> length (bt_unresolved t1) then sraise (with_layer i short_batch_error)
      else sbind (store_pass L i rb (zip (bt_unresolved t1) vals) (t1\<lparr>bt_unresolved := []\<rparr>)) (\<lambda>t2.
        layers_loop L rb (Suc i) layers t2))"
      by (auto intro: answers_sbind)
  qed
  have stop: "batch_ok as X (length as) {} t1" if "batch_ok as X i {} t1" "bt_unresolved t1 = []" for t1
    using that by (simp add: batch_ok_def)
  show ?case
    unfolding layers_loop.simps
    by (rule answers_sbind [OF first]) (use rest stop in \<open>auto intro: answers_sreturn\<close>)
qed

lemma set_first_appearances: "set (first_appearances seen xs) \<union> seen = set xs \<union> seen"
proof (induction xs arbitrary: seen)
  case (Cons x xs)
  from Cons.IH [of seen] Cons.IH [of "insert x seen"] show ?case by auto
qed simp

lemma foldl_none: "foldl (\<lambda>m x. m(x \<mapsto> None)) m xs x = (if x \<in> set xs then Some None else m x)"
  by (induction xs arbitrary: m) auto

lemma layered_find_many_answers:
  assumes ok: "layers_ok L J as"
  shows "answers (layered_inv L J as) (list_all2 (first_answer as) xs) (layered_find_many_bounded L xs rb)"
proof -
  let ?I = "layered_inv L J as"
  have "batch_ok as (set xs) 0 {} \<lparr>bt_unresolved = first_appearances {} xs, bt_resolved = Map.empty, bt_bytes = 0\<rparr>"
    using set_first_appearances [of "{}" xs] by (simp add: batch_ok_def)
  from layers_loop_answers [OF ok _ _ this, of "lo_layers L" rb]
  have loop: "answers ?I (batch_ok as (set xs) (length as) {}) (layers_loop L rb 0 (lo_layers L)
     \<lparr>bt_unresolved = first_appearances {} xs, bt_resolved = Map.empty, bt_bytes = 0\<rparr>)" by simp
  have guard: "answers ?I (\<lambda>_. True) (sfold (\<lambda>x _. slift (ensure_oid L x)) xs ())"
    by (induction xs) (auto intro!: answers_sbind [where Q = "\<lambda>_. True"] answers_sreturn answers_slift)
  have final: "list_all2 (first_answer as) xs
      (map (\<lambda>x. case foldl (\<lambda>m x. m(x \<mapsto> None)) (bt_resolved t) (bt_unresolved t) x of None \<Rightarrow> None | Some v \<Rightarrow> v) xs)"
    if t: "batch_ok as (set xs) (length as) {} t" for t
  proof -
    have "first_answer as x (case foldl (\<lambda>m x. m(x \<mapsto> None)) (bt_resolved t) (bt_unresolved t) x of None \<Rightarrow> None | Some v \<Rightarrow> v)"
      if "x \<in> set xs" for x
    proof (cases "x \<in> set (bt_unresolved t)")
      case True
      with t have "missed as (length as) x" by (simp add: batch_ok_def)
      then have "first_answer (drop 0 as) x None" unfolding missed_def by fastforce
      with True show ?thesis by (simp add: foldl_none)
    next
      case False
      with t that obtain v where "bt_resolved t x = Some v" "first_answer as x v"
        unfolding batch_ok_def by blast
      with False show ?thesis by (simp add: foldl_none)
    qed
    then show ?thesis by (simp add: list_all2_conv_all_nth)
  qed
  show ?thesis
    unfolding layered_find_many_bounded_def Let_def
    by (rule answers_sbind [OF guard], rule answers_sbind [OF loop], rule answers_sreturn, rule final)
qed


lemma layered_find_answers:
  assumes ok: "layers_ok L J as"
  shows "answers (layered_inv L J as) (first_answer as x) (layered_find L x)"
  unfolding layered_find_def
  by (rule answers_sbind [OF layered_find_many_answers [OF ok]])
     (auto simp: list_all2_Cons1 intro: answers_sreturn)

lemma header_first_answer:
  assumes "i < length as" and "missed as i x" and "header_admitted (as ! i) x (Some h)"
  shows "header_admitted (first_answer as) x (Some h)"
  using assms(3) missed_found [OF assms(1,2), of _ 0] by (auto simp: header_admitted_def)

lemma header_loop_answers:
  assumes ok: "layers_ok L J as" and "layers = drop i (lo_layers L)" and "i \<le> length as" and "missed as i x"
  shows "answers (layered_inv L J as) (header_admitted (first_answer as) x) (header_loop L x i layers)"
  using assms(2-4)
proof (induction layers arbitrary: i)
  case Nil
  with ok have "i = length as" by (simp add: layers_ok_def)
  with Nil.prems(3) have "first_answer (drop 0 as) x None" unfolding missed_def by fastforce
  then show ?case by (simp add: header_admitted_def answers_sreturn)
next
  case (Cons layer layers)
  let ?I = "layered_inv L J as"
  have i: "i < length as" "layer = lo_layers L ! i" "layers = drop (Suc i) (lo_layers L)"
    using drop_layer [OF Cons.prems(1)] ok by (simp_all add: layers_ok_def)
  from ok i have store: "object_store layer J (as ! i)" by (simp add: layers_ok_def)
  have first: "answers ?I (\<lambda>r. \<forall>v. r = Some v \<longrightarrow> first_answer as x (Some v))
      (if cache_at L i = None then sreturn None else cache_get x)"
  proof (cases "cache_at L i")
    case (Some options)
    then have idx: "lo_cache L = Some (i, options)"
      by (auto simp: cache_at_def split: option.splits prod.splits if_splits)
    have "first_answer (drop i as) x (Some v) \<Longrightarrow> first_answer (drop 0 as) x (Some v)" for v
      using Cons.prems(3) unfolding missed_def by blast
    with answers_conseq [OF layered_cache_get [OF ok idx, of x]] Some show ?thesis by simp
  qed (simp add: answers_sreturn)
  have below: "answers ?I (header_admitted (first_answer as) x)
      (sbind (smap_err (with_layer i) (in_layer (db_try_header_with_provenance layer x))) (\<lambda>read.
        case read of Some h \<Rightarrow> sreturn (Some h) | None \<Rightarrow> header_loop L x (Suc i) layers))"
  proof (rule answers_sbind [OF answers_smap_err [OF in_layer_answers [OF ok object_store.header_law [OF store]]]])
    fix h
    assume h: "header_admitted (as ! i) x h"
    show "answers ?I (header_admitted (first_answer as) x)
        (case h of Some h \<Rightarrow> sreturn (Some h) | None \<Rightarrow> header_loop L x (Suc i) layers)"
    proof (cases h)
      case None
      with h missed_Suc [OF i(1) Cons.prems(3)] have "missed as (Suc i) x" by (simp add: header_admitted_def)
      with None Cons.IH [OF i(3)] i(1) show ?thesis by simp
    next
      case (Some h')
      with h header_first_answer [OF i(1) Cons.prems(3)] show ?thesis by (simp add: answers_sreturn)
    qed
  qed
  have hit: "header_admitted (first_answer as) x (Some (verified_header k (length d)))"
    if "first_answer as x (Some (k, d))" for k d
    using that by (auto simp: header_admitted_def verified_header_def byte_len_def)
  show ?case
    unfolding header_loop.simps
  proof (rule answers_sbind [OF first])
    fix cached
    assume "\<forall>v. cached = Some v \<longrightarrow> first_answer as x (Some v)"
    then show "answers ?I (header_admitted (first_answer as) x)
      (case cached of
        Some (kind, data) \<Rightarrow>
          sbind (on_budget charge_header) (\<lambda>_. sreturn (Some (verified_header kind (length data))))
      | None \<Rightarrow>
          sbind (smap_err (with_layer i) (in_layer (db_try_header_with_provenance layer x))) (\<lambda>read.
          case read of Some h \<Rightarrow> sreturn (Some h) | None \<Rightarrow> header_loop L x (Suc i) layers))"
      using below hit
      by (auto split: option.split intro!: answers_sbind [where Q = "\<lambda>_. True"] answers_on_budget answers_sreturn)
  qed
qed

lemma answers_case_run:
  assumes "answers I P m" and "\<And>r. answers I Q (k r)"
  shows "answers I Q (\<lambda>s. case m s of (r, s') \<Rightarrow> k r s')"
proof (rule answersI)
  fix w b r w' b'
  assume w: "I w" and run: "(case m (w, b) of (r, s') \<Rightarrow> k r s') = (r, (w', b'))"
  obtain q w1 b1 where step: "m (w, b) = (q, (w1, b1))" by (metis prod.collapse)
  with run answers_run(1) [OF assms(1) w step] answers_run(1) [OF assms(2)] show "I w'" by auto
next
  fix w b v w' b'
  assume w: "I w" and run: "(case m (w, b) of (r, s') \<Rightarrow> k r s') = (Inr v, (w', b'))"
  obtain q w1 b1 where step: "m (w, b) = (q, (w1, b1))" by (metis prod.collapse)
  with run answers_run(1) [OF assms(1) w step] answers_run(2) [OF assms(2)] show "Q v" by auto
qed

lemma prefetch_loop_answers:
  assumes "layers_ok L J as" and "\<And>layer. layer \<in> set layers \<Longrightarrow> answers J (\<lambda>_. True) (db_prefetch layer xs)"
  shows "answers (layered_inv L J as) (\<lambda>_. True) (prefetch_loop layers xs first)"
  using assms(2)
proof (induction layers arbitrary: first)
  case (Cons layer layers)
  have "answers (layered_inv L J as) (\<lambda>_. True)
      (\<lambda>s. case in_layer (db_prefetch layer xs) s of (r, s') \<Rightarrow>
         prefetch_loop layers xs (case r of Inl e \<Rightarrow> if first = None then Some e else first | Inr _ \<Rightarrow> first) s')"
    using Cons.IH Cons.prems
    by (intro answers_case_run [OF in_layer_answers [OF assms(1)]]) auto
  moreover have "prefetch_loop (layer # layers) xs first = (\<lambda>s. case in_layer (db_prefetch layer xs) s of (r, s') \<Rightarrow>
         prefetch_loop layers xs (case r of Inl e \<Rightarrow> if first = None then Some e else first | Inr _ \<Rightarrow> first) s')"
    by (rule ext) (simp split: prod.split sum.split)
  ultimately show ?case by simp
qed (simp add: answers_slift)

lemma refresh_loop_answers:
  assumes "layers_ok L J as" and "\<And>layer. layer \<in> set layers \<Longrightarrow> answers J (\<lambda>_. True) (db_refresh layer)"
  shows "answers (layered_inv L J as) (\<lambda>_. True) (refresh_loop i layers accepted unsupported first)"
  using assms(2)
proof (induction layers arbitrary: i accepted unsupported first)
  case (Cons layer layers)
  let ?k = "\<lambda>r. case r of
       Inr _ \<Rightarrow> refresh_loop (Suc i) layers True unsupported first
     | Inl e \<Rightarrow>
         if err_code e = UnsupportedOperation then
           refresh_loop (Suc i) layers accepted
             (if unsupported = None then Some (with_layer i e) else unsupported) first
         else refresh_loop (Suc i) layers accepted unsupported
             (if first = None then Some (with_layer i e) else first)"
  have "answers (layered_inv L J as) (\<lambda>_. True)
      (\<lambda>s. case in_layer (db_refresh layer) s of (r, s') \<Rightarrow> ?k r s')"
    using Cons.IH Cons.prems
    by (intro answers_case_run [OF in_layer_answers [OF assms(1), of "\<lambda>_. True"]]) (auto split: sum.split)
  moreover have "refresh_loop i (layer # layers) accepted unsupported first
      = (\<lambda>s. case in_layer (db_refresh layer) s of (r, s') \<Rightarrow> ?k r s')"
    by (rule ext) (simp split: prod.split sum.split)
  ultimately show ?case by simp
qed (simp add: answers_slift)

lemma answers_False: "answers (\<lambda>_. False) P m"
  by (simp add: answers_def)

interpretation layers: object_store "layered_db L" "layered_inv L J as" "first_answer as" for L J as
proof (cases "layers_ok L J as")
  case False
  then have "layered_inv L J as = (\<lambda>_. False)" by (auto simp: layered_inv_def layers_ok_def)
  then show "object_store (layered_db L) (layered_inv L J as) (first_answer as)"
    by (simp add: object_store_def answers_False)
next
  case ok: True
  then have stores: "\<exists>i. object_store layer J (as ! i)" if "layer \<in> set (lo_layers L)" for layer
    using that by (auto simp: layers_ok_def in_set_conv_nth)
  show "object_store (layered_db L) (layered_inv L J as) (first_answer as)"
  proof unfold_locales
    fix x xs rb
    show "answers (layered_inv L J as) (first_answer as x) (db_try_find (layered_db L) x)"
      using layered_find_answers [OF ok] by (simp add: layered_db_def)
    show "answers (layered_inv L J as) (first_answer as x) (db_try_find_graph (layered_db L) x)"
      using default_find_graph_answers [of _ "first_answer as" x "layered_find L", OF layered_find_answers [OF ok]]
      by (simp add: layered_db_def)
    show "answers (layered_inv L J as) (list_all2 (first_answer as) xs)
        (db_try_find_many_bounded (layered_db L) xs rb)"
      using layered_find_many_answers [OF ok] by (simp add: layered_db_def)
    show "answers (layered_inv L J as) (header_admitted (first_answer as) x)
        (db_try_header_with_provenance (layered_db L) x)"
      using header_loop_answers [OF ok, of "lo_layers L" 0 x]
      by (auto simp: layered_db_def layered_header_with_provenance_def
          intro!: answers_sbind [where Q = "\<lambda>_. True"] answers_slift)
    show "answers (layered_inv L J as) (\<lambda>_. True) (db_prefetch (layered_db L) xs)"
      using prefetch_loop_answers [OF ok, of "lo_layers L" xs] stores object_store.prefetch_law
      by (fastforce simp: layered_db_def layered_prefetch_def)
    show "answers (layered_inv L J as) (\<lambda>_. True) (db_refresh (layered_db L))"
      using refresh_loop_answers [OF ok, of "lo_layers L"] stores object_store.refresh_law
      by (fastforce simp: layered_db_def layered_refresh_def)
  qed
qed


section \<open>Properties\<close>

text \<open>Every state a store can be brought into by calls, under any budgets.\<close>

inductive served :: "'w odb \<Rightarrow> 'w \<Rightarrow> 'w \<Rightarrow> bool" for db w where
  served_start: "served db w w"
| served_find: "served db w w1 \<Longrightarrow> db_try_find db x (w1, b) = (r, (w2, b')) \<Longrightarrow> served db w w2"
| served_graph: "served db w w1 \<Longrightarrow> db_try_find_graph db x (w1, b) = (r, (w2, b')) \<Longrightarrow> served db w w2"
| served_many: "served db w w1 \<Longrightarrow> db_try_find_many_bounded db xs rb (w1, b) = (rs, (w2, b')) \<Longrightarrow> served db w w2"
| served_header: "served db w w1 \<Longrightarrow> db_try_header_with_provenance db x (w1, b) = (rh, (w2, b')) \<Longrightarrow> served db w w2"
| served_prefetch: "served db w w1 \<Longrightarrow> db_prefetch db xs (w1, b) = (ru, (w2, b')) \<Longrightarrow> served db w w2"
| served_refresh: "served db w w1 \<Longrightarrow> db_refresh db (w1, b) = (ru, (w2, b')) \<Longrightarrow> served db w w2"

context object_store
begin

lemma served_keeps: "served db w w' \<Longrightarrow> I w \<Longrightarrow> I w'"
proof (induction rule: served.induct)
qed (auto dest: answers_run(1) [OF find_law] answers_run(1) [OF find_graph_law]
  answers_run(1) [OF find_many_law] answers_run(1) [OF header_law]
  answers_run(1) [OF prefetch_law] answers_run(1) [OF refresh_law])

end

definition initial_cache :: "cache_state option \<Rightarrow> cache_state" where
  "initial_cache c = (case c of Some c \<Rightarrow> c | None \<Rightarrow> \<lparr>cst_objects = lru_new 0, cst_evictions = 0\<rparr>)"

lemma layered_new_inv:
  assumes "layered_new ls cache = Inr (L, c)" and "\<And>i options. cache = Some (i, options) \<Longrightarrow> co_max_bytes options < - 1"
    and "length as = length ls" and "\<And>i. i < length ls \<Longrightarrow> object_store (ls ! i) J (as ! i)" and "J w"
  shows "layered_inv L J as (initial_cache c, w)"
proof -
  from assms(1) have L: "lo_layers L = ls" "lo_cache L = cache"
    and c: "cache = None \<or> (\<exists>i options c'. cache = Some (i, options) \<and> cache_new options = Inr c' \<and> c = Some c')"
    by (auto simp: layered_new_def Let_def rbind_Inr_iff split: list.splits if_splits option.splits)
  then show ?thesis
    using assms(2-5) cache_new_holds by (auto simp: layered_inv_def initial_cache_def)
qed

text \<open>
  C4. A layered store is the ordered union of its stores: in every state reached by calls
  from a fresh composition, whatever the cache holds and whatever batch ceiling is set, a
  batch read that succeeds answers every name as the first store in order that has it, and
  \<open>None\<close> only where every store has answered that it misses the object.
\<close>

theorem layered_reads_first_store:
  assumes "layered_new ls cache = Inr (L, c)"
    and "\<forall>i options. cache = Some (i, options) \<longrightarrow> co_max_bytes options < - 1"
    and "length as = length ls" and "\<forall>i < length ls. object_store (ls ! i) J (as ! i)" and "J w"
    and "served (layered_db L) (initial_cache c, w) s"
    and "db_try_find_many_bounded (layered_db L) xs rb (s, b) = (Inr vs, t)"
  shows "list_all2 (first_answer as) xs vs"
proof -
  have "layered_inv L J as s"
    using layered_new_inv [OF assms(1), of as J w] assms(2-6) layers.served_keeps [of L "(initial_cache c, w)" s J as]
    by simp
  with answersD [OF layers.find_many_law [of L J as xs rb], of "(s, b)" vs t] assms(7) show ?thesis by simp
qed

lemma first_answer_exact: "first_answer (map (\<lambda>m x v. v = m x) ms) x v \<longleftrightarrow>
    v = (case filter (\<lambda>m. m x \<noteq> None) ms of [] \<Rightarrow> None | m # _ \<Rightarrow> m x)"
proof (induction ms)
  case (Cons m ms)
  then show ?case by (cases "m x") auto
qed simp

definition toy_options :: cache_options where
  "toy_options = \<lparr>co_max_bytes = 100, co_max_entries = 4, co_max_object_bytes = 50\<rparr>"

definition toy_layered :: "unit layered" where
  "toy_layered = \<lparr>lo_hash = Sha256, lo_layers = [static_db (toy_store\<lparr>so_objects := Map.empty\<rparr>), static_db toy_store],
     lo_cache = Some (1, toy_options)\<rparr>"

lemma toy_layered_new:
  "layered_new [static_db (toy_store\<lparr>so_objects := Map.empty\<rparr>), static_db toy_store] (Some (1, toy_options))
    = Inr (toy_layered, Some \<lparr>cst_objects = lru_new 100, cst_evictions = 0\<rparr>)"
  by (simp add: layered_new_def toy_layered_def cache_new_def toy_options_def static_db_def toy_store_def)

lemmas layered_eval = layered_db_def layered_find_many_bounded_def toy_layered_def ensure_oid_def
  cache_at_def cache_before_def in_layer_def on_cache_def static_db_def default_find_many_bounded_def
  static_try_find_def ensure_hash_def toy_store_def sr_defs on_budget_def charge_object_def check_def
  charge_objects_def charge_payload_def charge_total_bytes_def charge_def budget_unlimited_def
  budget_new_def idle_def byte_len_def sat_add_def enforce_read_many_budget_def default_read_many_def
  initial_cache_def Let_def record_cache_hit_def record_cache_miss_def

lemma toy_cache_miss: "lru_get k (lru_new 100) = Some (None, lru_new 100)"
  by (simp add: lru_get_def lru_new_def)

theorem layered_reads_first_store_witness:
  "\<exists>vs t. db_try_find_many_bounded (layered_db toy_layered) [toy_blob] default_read_many
      ((initial_cache (Some \<lparr>cst_objects = lru_new 100, cst_evictions = 0\<rparr>), ()), budget_unlimited idle)
      = (Inr vs, t) \<and> vs = [Some (Blob, [5])]"
proof -
  let ?c = "\<lparr>cst_objects = lru_new 100, cst_evictions = 0\<rparr> :: cache_state"
  let ?as = "map (\<lambda>m x v. v = m x) [Map.empty, so_objects toy_store]"
  obtain r t where run: "db_try_find_many_bounded (layered_db toy_layered) [toy_blob] default_read_many
      ((initial_cache (Some ?c), ()), budget_unlimited idle) = (r, t)" by (metis prod.collapse)
  have "\<exists>c'. cache_insert toy_options toy_blob Blob [5] ?c = Some c'"
  proof -
    have "cache_holds (\<lambda>_ _. True) ?c" by (rule cache_holdsI [where xs = "[]"]) (simp_all add: lru_new_repr)
    from cache_insert_holds [OF this] show ?thesis by blast
  qed
  then have "\<exists>vs. r = Inr vs"
    using run by (auto simp: layered_eval toy_cache_miss toy_blob_def cache_get_def)
  then obtain vs where vs: "r = Inr vs" by blast
  let ?ls = "[static_db (toy_store\<lparr>so_objects := Map.empty\<rparr>), static_db toy_store]"
  have stores: "\<forall>i < length ?ls. object_store (?ls ! i) (\<lambda>_ :: unit. True) (?as ! i)"
    using static_exact [of "toy_store\<lparr>so_objects := Map.empty\<rparr>"] static_exact [of toy_store]
    by (auto simp: less_Suc_eq)
  have "list_all2 (first_answer ?as) [toy_blob] vs"
    by (rule layered_reads_first_store [OF toy_layered_new _ _ stores, where w = "()"
          and s = "(initial_cache (Some ?c), ())"])
       (use run vs in \<open>simp_all add: toy_options_def served_start\<close>)
  then have "vs = [Some (Blob, [5])]"
    unfolding first_answer_exact by (auto simp: list_all2_Cons1 toy_store_def)
  with run vs show ?thesis by blast
qed


lemma first_answer_verified:
  "first_answer as x v \<Longrightarrow> \<forall>a \<in> set as. \<forall>u. a x u \<longrightarrow> verified_answer H x u \<Longrightarrow> verified_answer H x v"
  by (induction as) (auto simp: verified_answer_def)

text \<open>
  C5. No unverified bytes pass the layers or the cache: if every store of a composition only
  answers with objects that verify under the name asked for, then so does the composition, in
  every state reached by calls from a fresh one, for single, graph and batch reads, and the
  headers it reports as verified belong to objects that verify.
\<close>

theorem layered_serves_only_verified:
  assumes "layered_new ls cache = Inr (L, c)"
    and "\<forall>i options. cache = Some (i, options) \<longrightarrow> co_max_bytes options < - 1"
    and "\<forall>l \<in> set ls. object_store l J (verified_answer H)" and "J w"
    and "served (layered_db L) (initial_cache c, w) s"
  shows "(db_try_find (layered_db L) x (s, b) = (Inr v, t) \<longrightarrow> verified_answer H x v)
    \<and> (db_try_find_graph (layered_db L) x (s, b) = (Inr v, t) \<longrightarrow> verified_answer H x v)
    \<and> (db_try_find_many_bounded (layered_db L) xs rb (s, b) = (Inr vs, t) \<longrightarrow> list_all2 (verified_answer H) xs vs)
    \<and> (db_try_header_with_provenance (layered_db L) x (s, b) = (Inr (Some h), t) \<and> hr_provenance h = Verified \<longrightarrow>
         (\<exists>p. verify H x (hdr_kind (hr_header h)) p = Inr () \<and> hdr_size (hr_header h) = byte_len p))"
proof -
  let ?as = "replicate (length ls) (verified_answer H)"
  have inv: "layered_inv L J ?as s"
    using layered_new_inv [OF assms(1), of ?as J w] assms(2-5)
      layers.served_keeps [of L "(initial_cache c, w)" s J ?as] by simp
  have weaken: "verified_answer H y u" if "first_answer ?as y u" for y u
    using first_answer_verified [OF that] by simp
  show ?thesis
    using answersD [OF layers.find_law [of L J ?as x], of "(s, b)" v t]
      answersD [OF layers.find_graph_law [of L J ?as x], of "(s, b)" v t]
      answersD [OF layers.find_many_law [of L J ?as xs rb], of "(s, b)" vs t]
      answersD [OF layers.header_law [of L J ?as x], of "(s, b)" "Some h" t] inv
      weaken [of x v] list_all2_mono [of "first_answer ?as" xs vs "verified_answer H"] weaken
    by (auto simp: header_admitted_def) (fastforce simp: verified_answer_def dest: weaken)
qed

lemma object_store_mono:
  assumes store: "object_store db I a" and mono: "\<And>x v. a x v \<Longrightarrow> a' x v"
  shows "object_store db I a'"
proof unfold_locales
  fix x xs rb
  have hdr: "header_admitted a x h \<Longrightarrow> header_admitted a' x h" for h
    using mono by (fastforce simp: header_admitted_def split: option.splits)
  show "answers I (a' x) (db_try_find db x)" "answers I (a' x) (db_try_find_graph db x)"
    "answers I (list_all2 a' xs) (db_try_find_many_bounded db xs rb)"
    "answers I (header_admitted a' x) (db_try_header_with_provenance db x)"
    by (rule answers_conseq [OF object_store.find_law [OF store]] answers_conseq [OF object_store.find_graph_law [OF store]]
        answers_conseq [OF object_store.find_many_law [OF store]] answers_conseq [OF object_store.header_law [OF store]],
        auto intro: mono hdr list_all2_mono)+
qed (rule object_store.prefetch_law [OF store] object_store.refresh_law [OF store])+

lemma toy_store_verified: "object_store (static_db toy_store) (\<lambda>_. True) (verified_answer toy_engine)"
  by (rule object_store_mono [OF static_exact])
     (simp add: verified_answer_def toy_store_def verify_toy_blob split: option.splits)

theorem layered_serves_only_verified_witness:
  "\<exists>t. db_try_find (layered_db \<lparr>lo_hash = Sha256, lo_layers = [static_db toy_store], lo_cache = None\<rparr>) toy_blob
      ((initial_cache None, ()), budget_unlimited idle) = (Inr (Some (Blob, [5])), t)
    \<and> verified_answer toy_engine toy_blob (Some (Blob, [5]))"
proof -
  let ?L = "\<lparr>lo_hash = Sha256, lo_layers = [static_db toy_store], lo_cache = None\<rparr> :: unit layered"
  have new: "layered_new [static_db toy_store] None = Inr (?L, None)"
    by (simp add: layered_new_def static_db_def toy_store_def)
  obtain t where run: "db_try_find (layered_db ?L) toy_blob ((initial_cache None, ()), budget_unlimited idle)
      = (Inr (Some (Blob, [5])), t)"
    by (simp add: layered_eval layered_find_def toy_blob_def)
  from layered_serves_only_verified [OF new, of "\<lambda>_. True" toy_engine "()" "(initial_cache None, ())" toy_blob
      "budget_unlimited idle" "Some (Blob, [5])" t] run toy_store_verified
  show ?thesis by (auto simp: served_start)
qed

text \<open>
  A composition reports no shallow boundary, whatever its stores report: the trait's default
  answers for \<open>LayeredOdb\<close>.
\<close>

lemma layered_hides_shallow_roots:
  "db_shallow_roots (layered_db L) = None"
  by (simp add: layered_db_def)

end
