(* ===== verification/Decode.thy ===== *)
theory Decode
  imports Objects "HOL-Library.Multiset"
begin

text \<open>
  Decoding of object payloads (\<open>decode.rs\<close>). The syntax of commits, tags and tree
  entries is parsed by the \<open>gix_object\<close> crate, a parameter: \<open>gix\<close> holds its parsers
  for commits and tags, the parser of one tree entry, and the wildmatch function of
  \<open>gix_glob\<close> that the pathspec filters use. Everything the sources do around them
  (identities, embedded names, header grouping, mode checks, the iteration) is modelled.
\<close>

section \<open>The parsers of the engine\<close>

record commit_ref =
  cr_tree :: bytes
  cr_parents :: "bytes list"
  cr_author :: bytes
  cr_committer :: bytes
  cr_encoding :: "bytes option"
  cr_extra_headers :: "(bytes \<times> bytes) list"
  cr_message :: bytes

record tag_ref =
  tr_target :: bytes
  tr_target_kind :: object_kind
  tr_tagger :: "bytes option"
  tr_name :: bytes

text \<open>One parsed tree entry: mode, file name, the algorithm and digest of its name
  (\<open>None\<close> for an algorithm the sources do not know), and the bytes that follow it.\<close>

record entry_ref =
  er_mode :: u16
  er_filename :: bytes
  er_kind :: "hash_kind option"
  er_digest :: bytes
  er_rest :: bytes

record gix =
  gx_commit :: "bytes \<Rightarrow> hash_kind \<Rightarrow> commit_ref option"
  gx_tag :: "bytes \<Rightarrow> hash_kind \<Rightarrow> tag_ref option"
  gx_entry :: "bytes \<Rightarrow> hash_kind \<Rightarrow> entry_ref option"
  gx_wildmatch :: "bytes \<Rightarrow> bytes \<Rightarrow> bool"

section \<open>Identities\<close>

record identity =
  id_name :: bytes
  id_email :: bytes
  id_time :: int
  id_tz :: bytes

definition malformed :: "string \<Rightarrow> error" where
  "malformed message = err_new MalformedObject message"

definition is_ascii_whitespace :: "byte \<Rightarrow> bool" where
  "is_ascii_whitespace b \<longleftrightarrow> b \<in> {32, 9, 10, 12, 13}"

definition decode_identity :: "bytes \<Rightarrow> error + identity" where
  "decode_identity raw =
    rbind (ok_or (malformed ''identity is missing an opening angle bracket'') (position (\<lambda>b. b = 60) raw)) (\<lambda>left.
    rbind (ok_or (malformed ''identity is missing a closing angle bracket'')
      (map_option (\<lambda>offset. left + 1 + offset) (position (\<lambda>b. b = 62) (drop (left + 1) raw)))) (\<lambda>right.
    let name_end = (case rposition (\<lambda>b. \<not> is_ascii_whitespace b) (take left raw) of None \<Rightarrow> 0 | Some p \<Rightarrow> p + 1) in
    rbind (ok_or (malformed ''identity is missing its timestamp'') (strip_prefix [32] (drop (right + 1) raw))) (\<lambda>suffix.
    rbind (ok_or (malformed ''identity is missing its timezone'') (position (\<lambda>b. b = 32) suffix)) (\<lambda>sep.
    let time_bytes = take sep suffix; tz = drop (sep + 1) suffix in
    if time_bytes = [] \<or> tz = [] \<or> 32 \<in> set tz \<or> 9 \<in> set tz then
      Inl (malformed ''identity timestamp or timezone is malformed'')
    else rbind (ok_or (malformed ''identity timestamp is malformed'')
      (if utf8_valid time_bytes then parse_i64 time_bytes else None)) (\<lambda>time.
    Inr \<lparr>id_name = take name_end raw, id_email = take (right - (left + 1)) (drop (left + 1) raw),
         id_time = time, id_tz = tz\<rparr>)))))"

section \<open>Commits and tags\<close>

record commit =
  c_tree_oid :: oid
  c_parents :: "oid list"
  c_author :: identity
  c_committer :: identity
  c_message :: bytes
  c_signature_headers :: "(bytes \<times> bytes) list"
  c_extra_headers :: "(bytes \<times> bytes) list"

record tag =
  t_target_oid :: oid
  t_target_kind :: object_kind
  t_tagger :: "identity option"
  t_name :: bytes
  t_message :: bytes

text \<open>A hexadecimal field as text: bytes above 127 are never hexadecimal digits.\<close>

definition bytes_str :: "bytes \<Rightarrow> string" where
  "bytes_str bs = map (\<lambda>b. char_of (unat b)) bs"

definition parse_embedded_oid :: "bytes \<Rightarrow> hash_kind \<Rightarrow> string \<Rightarrow> error + oid" where
  "parse_embedded_oid raw kind field =
    (if length raw \<noteq> digest_len kind * 2 \<or> \<not> utf8_valid raw then
       Inl (malformed (field @ '' object ID is malformed''))
     else (case parse_hex (bytes_str raw) of
         Inl _ \<Rightarrow> Inl (malformed (field @ '' object ID is malformed''))
       | Inr x \<Rightarrow> if oid_kind x \<noteq> kind then Inl (malformed (field @ '' object ID uses the wrong hash algorithm''))
                  else Inr x))"

text \<open>\<open>collect::<Result<Vec<_>, _>>()\<close>: the values, or the first error.\<close>

fun collect_results :: "('e + 'a) list \<Rightarrow> 'e + 'a list" where
  "collect_results [] = Inr []"
| "collect_results (r # rs) = rbind r (\<lambda>x. rbind (collect_results rs) (\<lambda>xs. Inr (x # xs)))"

definition is_signature_header :: "bytes \<Rightarrow> bool" where
  "is_signature_header name \<longleftrightarrow> name = ascii ''gpgsig'' \<or> prefix (ascii ''gpgsig-'') name"

definition decode_commit :: "gix \<Rightarrow> bytes \<Rightarrow> hash_kind \<Rightarrow> error + commit" where
  "decode_commit G payload hk =
    rbind (ok_or (malformed ''commit payload is malformed'') (gx_commit G payload hk)) (\<lambda>parsed.
    rbind (parse_embedded_oid (cr_tree parsed) hk ''commit tree'') (\<lambda>tree_oid.
    rbind (collect_results (map (\<lambda>p. parse_embedded_oid p hk ''commit parent'') (cr_parents parsed))) (\<lambda>parents.
    rbind (decode_identity (cr_author parsed)) (\<lambda>author.
    rbind (decode_identity (cr_committer parsed)) (\<lambda>committer.
    let encoding = (case cr_encoding parsed of None \<Rightarrow> [] | Some e \<Rightarrow> [(ascii ''encoding'', e)])
    in Inr \<lparr>c_tree_oid = tree_oid, c_parents = parents, c_author = author, c_committer = committer,
            c_message = cr_message parsed,
            c_signature_headers = filter (\<lambda>(name, _). is_signature_header name) (cr_extra_headers parsed),
            c_extra_headers = encoding @ filter (\<lambda>(name, _). \<not> is_signature_header name) (cr_extra_headers parsed)\<rparr>)))))"

text \<open>\<open>payload.windows(2).position(|w| w == b"\n\n")\<close>: what follows the first blank line.\<close>

fun after_blank_line :: "bytes \<Rightarrow> bytes" where
  "after_blank_line (a # b # r) = (if a = 10 \<and> b = 10 then r else after_blank_line (b # r))"
| "after_blank_line _ = []"

definition decode_tag :: "gix \<Rightarrow> bytes \<Rightarrow> hash_kind \<Rightarrow> error + tag" where
  "decode_tag G payload hk =
    rbind (ok_or (malformed ''tag payload is malformed'') (gx_tag G payload hk)) (\<lambda>parsed.
    rbind (parse_embedded_oid (tr_target parsed) hk ''tag target'') (\<lambda>target_oid.
    rbind (case tr_tagger parsed of None \<Rightarrow> Inr None
           | Some raw \<Rightarrow> rbind (decode_identity raw) (\<lambda>i. Inr (Some i))) (\<lambda>tagger.
    Inr \<lparr>t_target_oid = target_oid, t_target_kind = tr_target_kind parsed, t_tagger = tagger,
         t_name = tr_name parsed, t_message = after_blank_line payload\<rparr>)))"

section \<open>Tree entries\<close>

record tree_entry =
  te_mode :: u32
  te_name :: bytes
  te_oid :: oid

definition valid_mode :: "bytes \<Rightarrow> bool" where
  "valid_mode remaining =
    (case position (\<lambda>b. b = 32) remaining of
       None \<Rightarrow> False
     | Some e \<Rightarrow> let mode = take e remaining in mode \<noteq> [] \<and> length mode \<le> 6 \<and> (\<exists>b \<in> set mode. b \<noteq> 48))"

definition entry_oid :: "entry_ref \<Rightarrow> error + oid" where
  "entry_oid e =
    (case er_kind e of
       None \<Rightarrow> Inl (malformed ''tree entry uses an unsupported hash algorithm'')
     | Some k \<Rightarrow> (case oid_new k (er_digest e) of
         Inl _ \<Rightarrow> Inl (malformed ''tree entry object ID is malformed'')
       | Inr x \<Rightarrow> Inr x))"

text \<open>
  All items of \<open>TreeIter\<close>. The engine's iterator ends on empty data and empties its
  data after an entry that does not parse; every parsed entry consumes bytes, so the length of
  the payload bounds the iteration.
\<close>

fun tree_items :: "gix \<Rightarrow> hash_kind \<Rightarrow> nat \<Rightarrow> bytes \<Rightarrow> (error + tree_entry) list" where
  "tree_items G hk 0 remaining = []"
| "tree_items G hk (Suc fuel) remaining =
    (if remaining = [] then []
     else if \<not> valid_mode remaining then [Inl (malformed ''tree entry mode is malformed'')]
     else (case gx_entry G remaining hk of
         None \<Rightarrow> [Inl (malformed ''tree payload is malformed'')]
       | Some e \<Rightarrow>
           rbind (entry_oid e) (\<lambda>x. Inr \<lparr>te_mode = ucast (er_mode e), te_name = er_filename e, te_oid = x\<rparr>)
           # tree_items G hk fuel (er_rest e)))"

definition decode_tree :: "gix \<Rightarrow> bytes \<Rightarrow> hash_kind \<Rightarrow> (error + tree_entry) list" where
  "decode_tree G payload hk = tree_items G hk (length payload) payload"

text \<open>The bound never cuts the iteration short when entries consume bytes.\<close>

lemma tree_items_fuel:
  assumes "\<And>bs e. gx_entry G bs hk = Some e \<Longrightarrow> length (er_rest e) < length bs"
    and "length bs \<le> fuel"
  shows "tree_items G hk fuel bs = tree_items G hk (length bs) bs"
  using assms(2)
proof (induction "length bs" arbitrary: bs fuel rule: less_induct)
  case less
  show ?case
  proof (cases bs)
    case Nil
    then show ?thesis by (cases fuel) simp_all
  next
    case (Cons b r)
    with less.prems obtain f where f: "fuel = Suc f" "length r \<le> f" by (cases fuel) auto
    have "tree_items G hk f (er_rest e) = tree_items G hk (length r) (er_rest e)"
      if "gx_entry G bs hk = Some e" for e
    proof -
      from assms(1) [OF that] Cons have "length (er_rest e) < length bs" "length (er_rest e) \<le> length r" by auto
      with less.hyps [of "er_rest e" f] less.hyps [of "er_rest e" "length r"] f(2) show ?thesis by simp
    qed
    then show ?thesis using Cons f(1) by (simp split: option.split)
  qed
qed

lemma collect_results_Inr: "collect_results rs = Inr xs \<longleftrightarrow> rs = map Inr xs"
  by (induction rs arbitrary: xs) (auto simp: rbind_Inr_iff)

text \<open>Each header of a commit is kept exactly once, in one of the two groups.\<close>

lemma mset_partition: "mset (filter P xs @ enc @ filter (\<lambda>x. \<not> P x) xs) = mset enc + mset xs"
  by (induction xs) auto

section \<open>Properties\<close>

lemma position_append_fresh: "\<forall>x \<in> set xs. \<not> p x \<Longrightarrow> p c \<Longrightarrow> position p (xs @ c # ys) = Some (length xs)"
  by (induction xs) auto

lemma rposition_trim:
  assumes "xs = [] \<or> p (last xs)" and "\<forall>x \<in> set ws. \<not> p x"
  shows "(case rposition p (xs @ ws) of None \<Rightarrow> 0 | Some i \<Rightarrow> i + 1) = length xs"
proof (cases xs rule: rev_cases)
  case Nil
  then show ?thesis unfolding rposition_def Nil append_Nil
    using position_None_iff [of p "rev ws"] assms(2) by (simp del: position_None_iff)
next
  case (snoc ys y)
  with assms have "position p (rev ws @ y # rev ys) = Some (length ws)"
    by (intro position_append_fresh [of "rev ws", simplified]) auto
  with snoc show ?thesis by (simp add: rposition_def)
qed

lemma digits_value_ascii: "digits_value acc bs = Some n \<Longrightarrow> \<forall>b \<in> set bs. is_digit b"
  by (induction acc bs rule: digits_value.induct) (auto split: if_splits)

lemma parse_i64_ascii:
  assumes "parse_i64 bs = Some v"
  shows "bs \<noteq> []" and "\<forall>b \<in> set bs. is_digit b \<or> b = 45 \<or> b = 43"
  using assms by (auto simp: parse_i64_def Let_def dest!: digits_value_ascii
      split: list.splits if_splits option.splits)

lemma decode_identity_roundtrip_lemma:
  assumes "60 \<notin> set name" and "name = [] \<or> \<not> is_ascii_whitespace (last name)"
    and "\<forall>b \<in> set blanks. is_ascii_whitespace b" and "62 \<notin> set email"
    and "parse_i64 time = Some t" and "tz \<noteq> []" and "32 \<notin> set tz" and "9 \<notin> set tz"
  shows "decode_identity (name @ blanks @ [60] @ email @ [62, 32] @ time @ [32] @ tz)
    = Inr \<lparr>id_name = name, id_email = email, id_time = t, id_tz = tz\<rparr>"
proof -
  let ?raw = "name @ blanks @ [60] @ email @ [62, 32] @ time @ [32] @ tz"
  let ?left = "length name + length blanks"
  note time = parse_i64_ascii [OF assms(5)]
  have blank: "60 \<notin> set blanks" using assms(3) by (auto simp: is_ascii_whitespace_def)
  have left: "position (\<lambda>b. b = 60) ?raw = Some ?left"
    using position_append_fresh [of "name @ blanks" "\<lambda>b. b = 60" 60 "email @ [62, 32] @ time @ [32] @ tz"]
      assms(1) blank by fastforce
  have after: "drop (?left + 1) ?raw = email @ 62 # 32 # time @ 32 # tz" by simp
  have right: "position (\<lambda>b. b = 62) (email @ 62 # 32 # time @ 32 # tz) = Some (length email)"
    using assms(4) by (intro position_append_fresh) auto
  have name_end: "(case rposition (\<lambda>b. \<not> is_ascii_whitespace b) (take ?left ?raw) of None \<Rightarrow> 0 | Some p \<Rightarrow> p + 1)
      = length name"
    using rposition_trim [of name "\<lambda>b. \<not> is_ascii_whitespace b" blanks] assms(2,3) by simp
  have rest: "drop (?left + 1 + length email + 1) ?raw = 32 # time @ 32 # tz"
  proof -
    have "drop (?left + 1 + length email + 1) ?raw = drop (length email + 1) (drop (?left + 1) ?raw)"
      unfolding drop_drop by (simp only: add_ac)
    then show ?thesis unfolding after by simp
  qed
  have "32 \<notin> set time" using time(2) by (auto simp: is_digit_def)
  then have sep: "position (\<lambda>b. b = 32) (time @ 32 # tz) = Some (length time)"
    by (intro position_append_fresh) auto
  have utf8: "utf8_valid time"
    using time(2) by (intro utf8_valid_ascii) (auto simp: is_digit_def)
  have strip: "strip_prefix [32] (32 # time @ 32 # tz) = Some (time @ 32 # tz)"
    by (simp add: strip_prefix_def)
  have cut: "take (length name) ?raw = name" "take (length email) (email @ 62 # 32 # time @ 32 # tz) = email"
    "take (length time) (time @ 32 # tz) = time" "drop (length time + 1) (time @ 32 # tz) = tz" by simp_all
  have "decode_identity ?raw = rbind (ok_or (malformed ''identity timestamp is malformed'')
      (if utf8_valid time then parse_i64 time else None))
      (\<lambda>t. Inr \<lparr>id_name = name, id_email = email, id_time = t, id_tz = tz\<rparr>)"
    unfolding decode_identity_def left ok_or_simps rbind_simps after
    unfolding right option.map Let_def ok_or_simps rbind_simps name_end rest strip sep cut add_diff_cancel_left'
    using time(1) assms(6-8) by simp
  with utf8 assms(5) show ?thesis by simp
qed

definition identity_typed :: "identity \<Rightarrow> bool" where
  "identity_typed i \<longleftrightarrow> - (2 ^ 63) \<le> id_time i \<and> id_time i < 2 ^ 63 \<and> id_tz i \<noteq> [] \<and> 32 \<notin> set (id_tz i) \<and> 62 \<notin> set (id_email i)"

lemma decode_identity_typed:
  assumes "decode_identity raw = Inr i"
  shows "identity_typed i"
proof -
  from assms obtain left off time where p: "position (\<lambda>b. b = 62) (drop (left + 1) raw) = Some off"
    "parse_i64 time = Some (id_time i)" "id_tz i \<noteq> []" "32 \<notin> set (id_tz i)"
    "id_email i = take off (drop (left + 1) raw)"
    unfolding decode_identity_def by (auto simp: rbind_Inr_iff Let_def split: if_splits)
  from position_takeWhile [OF p(1)] p(5) have "62 \<notin> set (id_email i)" by (auto dest: set_takeWhileD)
  with p(2-4) parse_i64_range [OF p(2)] show ?thesis by (simp add: identity_typed_def)
qed

lemma parse_embedded_typed: "parse_embedded_oid raw hk field = Inr x \<Longrightarrow> oid_wf x \<and> oid_kind x = hk"
  using to_hex_parse_hex by (auto simp: parse_embedded_oid_def split: if_splits sum.splits)

lemma tree_items_typed: "Inr e \<in> set (tree_items G hk fuel bs) \<Longrightarrow> oid_wf (te_oid e) \<and> unat (te_mode e) < 2 ^ 16"
proof (induction fuel arbitrary: bs)
  case (Suc fuel)
  have mode: "unat (ucast m :: u32) < 2 ^ 16" for m :: u16 using unsigned_less [of m, where ?'a = nat] by (simp add: unsigned_ucast_eq take_bit_eq_mod)
  from Suc show ?case
    by (auto simp: rbind_Inr_iff entry_oid_def mode [simplified] dest: oid_new_wf split: if_splits option.splits sum.splits)
qed simp


end
