(* ===== verification/Snapshot.thy ===== *)
theory Snapshot
  imports Odb Decode
begin

text \<open>
  Immutable commit snapshots (\<open>snapshot.rs\<close>): tag peeling with its bound of sixteen
  hops, and the three entry points. The lemmas relate each successful run to the objects the
  store holds.
\<close>

section \<open>Peeling\<close>

definition MAX_TAG_HOPS :: nat where "MAX_TAG_HOPS = 16"

datatype peel_target = ToCommit | ToTree | ToBlob

record snapshot =
  commit_oid :: oid
  tree_oid :: oid

definition missing :: "oid \<Rightarrow> error" where
  "missing x = err_new MissingObject (''object '' @ to_hex x @ '' is missing from the object store'')"

definition tag_hop_error :: error where
  "tag_hop_error = err_new MalformedObject ''annotated tag chain exceeds 16 hops''"

fun wrong_peel_target :: "peel_target \<Rightarrow> error" where
  "wrong_peel_target ToCommit = err_new NotACommit ''object cannot be peeled to a commit''"
| "wrong_peel_target ToTree = err_new NotATree ''object cannot be peeled to a tree''"
| "wrong_peel_target ToBlob = err_new NotABlob ''object cannot be peeled to a blob''"

definition ensure_compatible :: "'w odb \<Rightarrow> oid \<Rightarrow> string \<Rightarrow> error + unit" where
  "ensure_compatible db x operation =
    (if db_hash_kind db = Sha256 then Inl (err_new UnsupportedHash ''SHA-256 query execution not yet supported'')
     else if oid_kind x \<noteq> db_hash_kind db then
       Inl (err_new InvalidOid (operation @ '' object ID algorithm does not match the object store''))
     else Inr ())"

text \<open>\<open>hops\<close> is the number of tags that may still be followed.\<close>

fun peel_loop :: "gix \<Rightarrow> 'w odb \<Rightarrow> nat \<Rightarrow> oid \<Rightarrow> object_kind option
    \<Rightarrow> ('w, oid \<times> object_kind \<times> bytes) op" where
  "peel_loop G db hops current declared =
    sbind (db_try_find db current) (\<lambda>found.
    case found of
      None \<Rightarrow> sraise (missing current)
    | Some (kind, payload) \<Rightarrow>
        if declared \<noteq> None \<and> declared \<noteq> Some kind then
          sraise (err_new MalformedObject ''annotated tag target kind does not match its object'')
        else if kind \<noteq> Tag then sreturn (current, kind, payload)
        else (case hops of
            0 \<Rightarrow> sraise tag_hop_error
          | Suc rest \<Rightarrow>
              sbind (slift (decode_tag G payload (db_hash_kind db))) (\<lambda>t.
              peel_loop G db rest (t_target_oid t) (Some (t_target_kind t)))))"

declare peel_loop.simps [simp del]

definition peel_tag_chain :: "gix \<Rightarrow> 'w odb \<Rightarrow> oid \<Rightarrow> ('w, oid \<times> object_kind \<times> bytes) op" where
  "peel_tag_chain G db x = peel_loop G db MAX_TAG_HOPS x None"

definition peel :: "gix \<Rightarrow> 'w odb \<Rightarrow> oid \<Rightarrow> peel_target \<Rightarrow> ('w, oid) op" where
  "peel G db x target =
    sbind (slift (ensure_compatible db x ''peel'')) (\<lambda>_.
    sbind (peel_tag_chain G db x) (\<lambda>(current, kind, payload).
    if kind = Commit \<and> target = ToCommit then sreturn current
    else if kind = Commit \<and> target = ToTree then
      sbind (slift (decode_commit G payload (db_hash_kind db))) (\<lambda>c. sreturn (c_tree_oid c))
    else if kind = Tree \<and> target = ToTree then sreturn current
    else if kind = Blob \<and> target = ToBlob then sreturn current
    else sraise (wrong_peel_target target)))"

definition snapshot_open :: "gix \<Rightarrow> 'w odb \<Rightarrow> oid \<Rightarrow> ('w, snapshot) op" where
  "snapshot_open G db x =
    sbind (slift (ensure_compatible db x ''snapshot'')) (\<lambda>_.
    sbind (peel_tag_chain G db x) (\<lambda>(commit_id, kind, payload).
    if kind \<noteq> Commit then sraise (err_new NotACommit ''snapshot target is not a commit'')
    else sbind (slift (decode_commit G payload (db_hash_kind db))) (\<lambda>c.
      sreturn \<lparr>commit_oid = commit_id, tree_oid = c_tree_oid c\<rparr>)))"

definition snapshot_open_direct :: "gix \<Rightarrow> 'w odb \<Rightarrow> oid \<Rightarrow> ('w, snapshot) op" where
  "snapshot_open_direct G db x =
    sbind (slift (ensure_compatible db x ''snapshot'')) (\<lambda>_.
    sbind (db_try_find db x) (\<lambda>found.
    case found of
      None \<Rightarrow> sraise (missing x)
    | Some (kind, payload) \<Rightarrow>
        if kind \<noteq> Commit then sraise (err_new NotACommit ''snapshot target is not a direct commit'')
        else sbind (slift (decode_commit G payload (db_hash_kind db))) (\<lambda>c.
          sreturn \<lparr>commit_oid = x, tree_oid = c_tree_oid c\<rparr>)))"

section \<open>What a peeled object is\<close>

text \<open>\<open>n\<close> tags lead from \<open>x\<close> to the object \<open>r\<close> that is not a tag, each with
  the kind it declares.\<close>

fun tag_chain :: "gix \<Rightarrow> hash_kind \<Rightarrow> (oid \<Rightarrow> object_read) \<Rightarrow> nat \<Rightarrow> oid \<Rightarrow> oid \<times> object_kind \<times> bytes \<Rightarrow> bool" where
  "tag_chain G hk m 0 x r \<longleftrightarrow> fst r = x \<and> m x = Some (snd r) \<and> fst (snd r) \<noteq> Tag"
| "tag_chain G hk m (Suc n) x r \<longleftrightarrow>
    (\<exists>p t. m x = Some (Tag, p) \<and> decode_tag G p hk = Inr t
      \<and> map_option fst (m (t_target_oid t)) = Some (t_target_kind t)
      \<and> tag_chain G hk m n (t_target_oid t) r)"

lemma tag_chain_here: "m x = Some (k, p) \<Longrightarrow> k \<noteq> Tag \<Longrightarrow> \<exists>n \<le> h. tag_chain G hk m n x (x, k, p)"
  by (rule exI [of _ 0]) simp

lemma peel_loop_answers:
  assumes "object_store db I (\<lambda>x v. v = m x)"
  shows "answers I (\<lambda>r. (\<exists>n \<le> hops. tag_chain G (db_hash_kind db) m n x r)
      \<and> (\<forall>k. declared = Some k \<longrightarrow> map_option fst (m x) = Some k)) (peel_loop G db hops x declared)"
proof (induction hops arbitrary: x declared)
  case 0
  show ?case
    by (subst peel_loop.simps, rule answers_sbind [OF object_store.find_law [OF assms]])
       (auto intro!: answers_sraise answers_sreturn split: option.split)
next
  case (Suc hops)
  let ?hk = "db_hash_kind db"
  have follow: "answers I (\<lambda>r. (\<exists>n \<le> Suc hops. tag_chain G ?hk m n x r)
      \<and> (\<forall>k. declared = Some k \<longrightarrow> map_option fst (m x) = Some k))
      (sbind (slift (decode_tag G p ?hk)) (\<lambda>t. peel_loop G db hops (t_target_oid t) (Some (t_target_kind t))))"
    if p: "m x = Some (Tag, p)" and d: "declared = None \<or> declared = Some Tag" for p
  proof (rule answers_sbind [OF answers_slift])
    show "decode_tag G p ?hk = Inr t \<Longrightarrow> decode_tag G p ?hk = Inr t" for t .
    fix t assume t: "decode_tag G p ?hk = Inr t"
    show "answers I (\<lambda>r. (\<exists>n \<le> Suc hops. tag_chain G ?hk m n x r)
      \<and> (\<forall>k. declared = Some k \<longrightarrow> map_option fst (m x) = Some k))
      (peel_loop G db hops (t_target_oid t) (Some (t_target_kind t)))"
    proof (rule answers_conseq [OF Suc.IH])
      fix r
      assume "(\<exists>n \<le> hops. tag_chain G ?hk m n (t_target_oid t) r)
        \<and> (\<forall>k. Some (t_target_kind t) = Some k \<longrightarrow> map_option fst (m (t_target_oid t)) = Some k)"
      then obtain n where "n \<le> hops" "tag_chain G ?hk m (Suc n) x r" using p t by auto
      then show "(\<exists>n \<le> Suc hops. tag_chain G ?hk m n x r)
        \<and> (\<forall>k. declared = Some k \<longrightarrow> map_option fst (m x) = Some k)"
        using p d by (intro conjI exI [of _ "Suc n"]) auto
    qed
  qed
  show ?case
    by (subst peel_loop.simps, rule answers_sbind [OF object_store.find_law [OF assms]])
       (auto intro!: answers_sraise answers_sreturn tag_chain_here answers_conseq [OF follow]
         split: option.split)
qed

lemma tag_chain_unique:
  "tag_chain G hk m n x r \<Longrightarrow> tag_chain G hk m n' x r' \<Longrightarrow> n = n' \<and> r = r'"
proof (induction n arbitrary: x n')
  case 0
  then show ?case by (cases n') (auto simp: prod_eq_iff)
next
  case (Suc n)
  then show ?case by (cases n') auto
qed

text \<open>
  C34. Opening a snapshot pins the commit a tag chain names: over a store that answers from
  fixed contents, a successful open returns the commit reached from the given name through at
  most 16 annotated tags, each followed by an object of the kind it declares, and the root
  tree that commit records; the chain and the commit are the only ones the contents have.
\<close>

theorem snapshot_open_peels:
  assumes "object_store db I (\<lambda>x v. v = m x)" and "I w"
    and "snapshot_open G db x (w, b) = (Inr snap, s)"
  shows "\<exists>n p c. n \<le> 16 \<and> tag_chain G (db_hash_kind db) m n x (commit_oid snap, Commit, p)
    \<and> decode_commit G p (db_hash_kind db) = Inr c \<and> tree_oid snap = c_tree_oid c
    \<and> (\<forall>n' r'. tag_chain G (db_hash_kind db) m n' x r' \<longrightarrow> n' = n \<and> r' = (commit_oid snap, Commit, p))"
proof -
  let ?hk = "db_hash_kind db"
  have "answers I (\<lambda>snap. \<exists>n p c. n \<le> 16 \<and> tag_chain G ?hk m n x (commit_oid snap, Commit, p)
    \<and> decode_commit G p ?hk = Inr c \<and> tree_oid snap = c_tree_oid c) (snapshot_open G db x)"
    unfolding snapshot_open_def peel_tag_chain_def
  proof (rule answers_sbind [where Q = "\<lambda>_. True"])
    show "answers I (\<lambda>snap. \<exists>n p c. n \<le> 16 \<and> tag_chain G ?hk m n x (commit_oid snap, Commit, p)
      \<and> decode_commit G p ?hk = Inr c \<and> tree_oid snap = c_tree_oid c)
      (sbind (peel_loop G db MAX_TAG_HOPS x None) (\<lambda>(commit_id, kind, payload).
        if kind \<noteq> Commit then sraise (err_new NotACommit ''snapshot target is not a commit'')
        else sbind (slift (decode_commit G payload ?hk)) (\<lambda>c.
          sreturn \<lparr>commit_oid = commit_id, tree_oid = c_tree_oid c\<rparr>)))"
    proof (rule answers_sbind [OF peel_loop_answers [OF assms(1)]], clarify)
      fix a k p n
      assume chain: "n \<le> MAX_TAG_HOPS" "tag_chain G ?hk m n x (a, k, p)"
      show "answers I (\<lambda>snap. \<exists>n p c. n \<le> 16 \<and> tag_chain G ?hk m n x (commit_oid snap, Commit, p)
        \<and> decode_commit G p ?hk = Inr c \<and> tree_oid snap = c_tree_oid c)
        (if k \<noteq> Commit then sraise (err_new NotACommit ''snapshot target is not a commit'')
        else sbind (slift (decode_commit G p ?hk)) (\<lambda>c. sreturn \<lparr>commit_oid = a, tree_oid = c_tree_oid c\<rparr>))"
      proof (cases "k = Commit")
        case True
        have "answers I (\<lambda>snap. \<exists>n p c. n \<le> 16 \<and> tag_chain G ?hk m n x (commit_oid snap, Commit, p)
          \<and> decode_commit G p ?hk = Inr c \<and> tree_oid snap = c_tree_oid c)
          (sbind (slift (decode_commit G p ?hk)) (\<lambda>c. sreturn \<lparr>commit_oid = a, tree_oid = c_tree_oid c\<rparr>))"
          using chain unfolding True MAX_TAG_HOPS_def
          by (intro answers_sbind [OF answers_slift, of _ "\<lambda>c. decode_commit G p ?hk = Inr c"] answers_sreturn) auto
        with True show ?thesis by simp
      qed (simp add: answers_sraise)
    qed
  qed (simp add: answers_slift)
  from answersD [OF this, of "(w, b)" snap s] assms(2,3) show ?thesis
    using tag_chain_unique by (metis fst_conv)
qed

lemma unat_of_char: "unat (of_char c :: byte) = of_char c"
proof -
  have "unat (of_nat (of_char c) :: byte) = of_char c"
    using nat_of_char_less_256 [of c] by (simp add: unat_of_nat del: of_nat_of_char)
  then show ?thesis by (simp only: of_nat_of_char)
qed

lemma bytes_str_ascii: "bytes_str (ascii s) = s"
  by (induction s) (simp_all add: bytes_str_def unat_of_char)

lemma hex_char_ascii: "unat (of_char (hex_char d) :: byte) < 128 \<or> 16 \<le> unat d"
  by (auto simp: hex_char_def unat_of_char)

lemma to_hex_utf8: "utf8_valid (ascii (to_hex x))"
proof (rule utf8_valid_ascii, rule ballI)
  fix b assume "b \<in> set (ascii (to_hex x))"
  then obtain d :: byte where d: "b = of_char (hex_char (drop_bit 4 d)) \<or> b = of_char (hex_char (d AND 15))"
    by (auto simp: ascii_def to_hex_def)
  have "unat (drop_bit 4 d) < 16"
    unfolding unat_drop_bit_eq using unat_byte_less [of d] by (simp add: drop_bit_eq_div)
  moreover have "unat (d AND 15) < 16" using word_and_le1 [of d 15] by (simp add: word_le_nat_alt)
  ultimately have small: "unat (drop_bit 4 d) < 16" "unat (d AND 15) < 16" by simp_all
  from small d hex_char_ascii [of "drop_bit 4 d"] hex_char_ascii [of "d AND 15"] show "unat b < 128" by auto
qed

lemma parse_embedded_printed:
  assumes "oid_wf x"
  shows "parse_embedded_oid (ascii (to_hex x)) (oid_kind x) field = Inr x"
  using parse_hex_to_hex [OF assms] length_to_hex [OF assms]
  by (simp add: parse_embedded_oid_def bytes_str_ascii to_hex_utf8)

text \<open>An engine that reads every commit as one with a fixed root tree and no parents.\<close>

definition toy_oid :: "byte \<Rightarrow> oid" where
  "toy_oid b = Oid Sha1 (replicate 20 b @ replicate 12 0)"

lemma toy_oid_wf [simp]: "oid_wf (toy_oid b)" "oid_kind (toy_oid b) = Sha1"
  by (simp_all add: toy_oid_def oid_wf_def MAX_DIGEST_LEN_def)

definition toy_gix :: gix where
  "toy_gix = \<lparr>gx_commit = (\<lambda>payload _. Some \<lparr>cr_tree = ascii (to_hex (toy_oid 0)),
       cr_parents = map (\<lambda>b. ascii (to_hex (toy_oid b))) payload,
       cr_author = ascii ''A <a> 1 +0'', cr_committer = ascii ''A <a> 1 +0'', cr_encoding = None,
       cr_extra_headers = [], cr_message = []\<rparr>),
     gx_tag = (\<lambda>_ _. None), gx_entry = (\<lambda>_ _. None), gx_wildmatch = (\<lambda>_ _. False)\<rparr>"

lemma toy_identity: "\<exists>i. decode_identity (ascii ''A <a> 1 +0'') = Inr i"
  using decode_identity_roundtrip_lemma [of "ascii ''A''" "[32]" "ascii ''a''" "ascii ''1''" 1 "ascii ''+0''"]
  by (simp add: is_ascii_whitespace_def parse_i64_def is_digit_def)

lemma toy_commit:
  "\<exists>c. decode_commit toy_gix payload Sha1 = Inr c \<and> c_tree_oid c = toy_oid 0 \<and> c_parents c = map toy_oid payload"
proof -
  obtain i where "decode_identity (ascii ''A <a> 1 +0'') = Inr i" using toy_identity by blast
  moreover have "collect_results (map (\<lambda>p. parse_embedded_oid p Sha1 ''commit parent'')
      (map (\<lambda>b. ascii (to_hex (toy_oid b))) payload)) = Inr (map toy_oid payload)"
    using parse_embedded_printed [OF toy_oid_wf(1), of _ "''commit parent''"]
    by (simp add: collect_results_Inr del: ascii_simps)
  ultimately show ?thesis
    using parse_embedded_printed [OF toy_oid_wf(1), of 0 "''commit tree''"]
    by (simp add: decode_commit_def toy_gix_def del: ascii_simps)
qed


theorem snapshot_open_peels_witness:
  "\<exists>snap s. snapshot_open toy_gix
      (static_db \<lparr>so_hash = Sha1, so_objects = [toy_oid 1 \<mapsto> (Commit, [])]\<rparr>) (toy_oid 1)
      ((), budget_unlimited idle) = (Inr snap, s) \<and> tree_oid snap = toy_oid 0"
proof -
  let ?so = "\<lparr>so_hash = Sha1, so_objects = [toy_oid 1 \<mapsto> (Commit, [])]\<rparr>"
  let ?db = "static_db ?so :: unit odb"
  have store: "object_store ?db (\<lambda>_. True) (\<lambda>x v. v = so_objects ?so x)" by (rule static_exact)
  obtain c where c: "decode_commit toy_gix [] Sha1 = Inr c" "c_tree_oid c = toy_oid 0"
    using toy_commit [of "[]"] by blast
  have hk: "db_hash_kind ?db = Sha1" by (simp add: static_db_def)
  obtain snap s where run: "snapshot_open toy_gix ?db (toy_oid 1) ((), budget_unlimited idle) = (Inr snap, s)"
    using c(1) by (simp add: snapshot_open_def ensure_compatible_def peel_tag_chain_def peel_loop.simps
        static_db_def static_try_find_def static_eval sr_defs)
  from snapshot_open_peels [OF store _ run] obtain n p c' where r:
    "tag_chain toy_gix Sha1 (so_objects ?so) n (toy_oid 1) (commit_oid snap, Commit, p)"
    "decode_commit toy_gix p Sha1 = Inr c'" "tree_oid snap = c_tree_oid c'"
    unfolding hk by blast
  from r(1) have "p = []" by (cases n) auto
  with r c have "tree_oid snap = toy_oid 0" by simp
  with run show ?thesis by blast
qed

end
