(* ===== verification/Ancestry.thy ===== *)
theory Ancestry
  imports Layered Snapshot
begin

text \<open>
  Ancestry queries (\<open>ancestry.rs\<close>) and the object adapter they share with the engine's
  traversals (\<open>commit_graph.rs\<close>). The reachability search is an explicit stack and a set
  of seen names; it is run with a bound on its steps, and \<open>None\<close> marks a bound that was
  too small. The engine's merge-base traversal is a parameter that calls back into the adapter.
\<close>

section \<open>Reading commits for a graph\<close>

definition missing_commit :: "oid \<Rightarrow> error" where
  "missing_commit x = with_oid x (err_retry MissingObject
     (''commit object '' @ to_hex x @ '' is missing from the object store''))"

definition ensure_sha1 :: "'w odb \<Rightarrow> oid list \<Rightarrow> error + unit" where
  "ensure_sha1 db xs =
    (if db_hash_kind db = Sha256 then Inl (err_new UnsupportedHash ''SHA-256 query execution not yet supported'')
     else if \<exists>x \<in> set xs. oid_kind x \<noteq> db_hash_kind db then
       Inl (err_new InvalidOid ''commit object ID algorithm does not match the object store'')
     else Inr ())"

definition is_shallow :: "'w odb \<Rightarrow> oid \<Rightarrow> bool" where
  "is_shallow db x = (case db_shallow_roots db of None \<Rightarrow> False | Some roots \<Rightarrow> x \<in> roots)"

definition read_parents :: "gix \<Rightarrow> 'w odb \<Rightarrow> oid \<Rightarrow> bool \<Rightarrow> ('w, oid list) op" where
  "read_parents G db x is_input =
    sbind (smap_err (with_oid_if_none x) (db_try_find db x)) (\<lambda>found.
    case found of
      None \<Rightarrow> sraise (missing_commit x)
    | Some (kind, payload) \<Rightarrow>
        if kind \<noteq> Commit then
          sraise (with_oid x (err_new (if is_input then NotACommit else MalformedObject)
            (''object '' @ to_hex x @ '' reached by ancestry traversal is not a commit'')))
        else sbind (smap_err (with_oid_if_none x) (slift (decode_commit G payload (oid_kind x)))) (\<lambda>c.
          sreturn (if is_shallow db x then [] else c_parents c)))"

text \<open>The loop of \<open>is_ancestor\<close>: \<open>pending\<close> is popped at its end.\<close>

fun ancestor_loop :: "gix \<Rightarrow> 'w odb \<Rightarrow> oid \<Rightarrow> nat \<Rightarrow> oid list \<Rightarrow> oid set \<Rightarrow> ('w, bool option) op" where
  "ancestor_loop G db ancestor fuel pending seen =
    (if pending = [] then sreturn (Some False)
     else (case fuel of
         0 \<Rightarrow> sreturn None
       | Suc fuel' \<Rightarrow>
           sbind (on_budget check) (\<lambda>_.
           let x = last pending; rest = butlast pending in
           if x \<in> seen then ancestor_loop G db ancestor fuel' rest seen
           else if x = ancestor then sreturn (Some True)
           else sbind (read_parents G db x False) (\<lambda>parents.
             ancestor_loop G db ancestor fuel' (rest @ parents) (insert x seen)))))"

declare ancestor_loop.simps [simp del]

definition is_ancestor :: "nat \<Rightarrow> gix \<Rightarrow> 'w odb \<Rightarrow> oid \<Rightarrow> oid \<Rightarrow> ('w, bool option) op" where
  "is_ancestor fuel G db ancestor descendant =
    sbind (slift (ensure_sha1 db [ancestor, descendant])) (\<lambda>_.
    sbind (on_budget check) (\<lambda>_.
    sbind (read_parents G db ancestor True) (\<lambda>_.
    if ancestor = descendant then sreturn (Some True)
    else sbind (read_parents G db descendant True) (\<lambda>parents.
      ancestor_loop G db ancestor fuel parents {descendant}))))"

section \<open>The adapter for engine traversals\<close>

definition PAYLOAD_CACHE_BYTES :: u64 where "PAYLOAD_CACHE_BYTES = 4 * 1024 * 1024"

record find_state =
  fs_objects :: "(oid, object_kind \<times> bytes) lru"
  fs_first_error :: "error option"
  fs_current_oid :: "oid option"

definition find_new :: find_state where
  "find_new = \<lparr>fs_objects = lru_new PAYLOAD_CACHE_BYTES, fs_first_error = None, fs_current_oid = None\<rparr>"

text \<open>\<open>split_inclusive\<close>: the lines of a payload, each with its newline.\<close>

fun split_lines :: "bytes \<Rightarrow> bytes \<Rightarrow> bytes list" where
  "split_lines acc [] = (if acc = [] then [] else [acc])"
| "split_lines acc (b # bs) = (if b = 10 then (acc @ [b]) # split_lines [] bs else split_lines (acc @ [b]) bs)"

fun drop_parents :: "bool \<Rightarrow> bytes list \<Rightarrow> bytes" where
  "drop_parents in_headers [] = []"
| "drop_parents in_headers (line # rest) =
    (let in_headers' = (in_headers \<and> line \<noteq> [10]) in
     (if in_headers' \<and> prefix (ascii ''parent '') line then [] else line) @ drop_parents in_headers' rest)"

definition without_parent_headers :: "bytes \<Rightarrow> bytes" where
  "without_parent_headers payload = drop_parents True (split_lines [] payload)"

definition record_first_error :: "error \<Rightarrow> find_state \<Rightarrow> find_state" where
  "record_first_error e st = (case fs_first_error st of None \<Rightarrow> st\<lparr>fs_first_error := Some e\<rparr> | Some _ \<Rightarrow> st)"

definition find_object :: "'w odb \<Rightarrow> oid \<Rightarrow> (find_state \<times> 'w, object_kind \<times> bytes) op" where
  "find_object db x =
    sbind (on_budget check) (\<lambda>_ ((st0, w), b).
    let st = st0\<lparr>fs_current_oid := Some x\<rparr> in
    case lru_get x (fs_objects st) of
      None \<Rightarrow> (Inl panicked, ((st, w), b))
    | Some (Some v, l) \<Rightarrow> (Inr v, ((st\<lparr>fs_objects := l\<rparr>, w), b))
    | Some (None, l) \<Rightarrow>
        (case db_try_find db x (w, b) of
           (Inl e, (w', b')) \<Rightarrow>
             let e' = with_oid_if_none x e
             in (Inl e', ((record_first_error e' (st\<lparr>fs_objects := l\<rparr>), w'), b'))
         | (Inr None, (w', b')) \<Rightarrow>
             (Inl (missing_commit x), ((record_first_error (missing_commit x) (st\<lparr>fs_objects := l\<rparr>), w'), b'))
         | (Inr (Some (kind, payload)), (w', b')) \<Rightarrow>
             let payload' = (if kind = Commit \<and> is_shallow db x then without_parent_headers payload else payload) in
             (case insert_counting_evictions x (kind, payload') (byte_len payload') l of
                None \<Rightarrow> (Inl panicked, ((st\<lparr>fs_objects := l\<rparr>, w'), b'))
              | Some (_, l') \<Rightarrow> (Inr (kind, payload'), ((st\<lparr>fs_objects := l'\<rparr>, w'), b')))))"

definition validate_commit :: "'w odb \<Rightarrow> oid \<Rightarrow> (find_state \<times> 'w, unit) op" where
  "validate_commit db x =
    sbind (find_object db x) (\<lambda>(kind, _).
    if kind \<noteq> Commit then
      sraise (with_oid x (err_new NotACommit (''object '' @ to_hex x @ '' is not a commit'')))
    else sreturn ())"

definition clear_error_scope :: "find_state \<Rightarrow> find_state" where
  "clear_error_scope st = st\<lparr>fs_first_error := None, fs_current_oid := None\<rparr>"

definition take_error_or :: "error_code \<Rightarrow> string \<Rightarrow> find_state \<Rightarrow> error \<times> find_state" where
  "take_error_or code message st =
    (case fs_first_error st of
       Some e \<Rightarrow> (e, st\<lparr>fs_first_error := None\<rparr>)
     | None \<Rightarrow> ((case fs_current_oid st of Some x \<Rightarrow> with_oid x (err_new code message) | None \<Rightarrow> err_new code message),
                st\<lparr>fs_first_error := None\<rparr>))"

text \<open>
  \<open>merge_base\<close>: the engine's traversal \<open>mb\<close> is given the adapter and the two names
  and returns the best common ancestors, or fails.
\<close>

definition merge_base ::
    "((oid \<Rightarrow> (find_state \<times> 'w, object_kind \<times> bytes) op) \<Rightarrow> oid \<Rightarrow> oid \<Rightarrow> (find_state \<times> 'w, oid list option) op)
      \<Rightarrow> 'w odb \<Rightarrow> oid \<Rightarrow> oid \<Rightarrow> ('w, oid list) op" where
  "merge_base mb db left right =
    sbind (slift (ensure_sha1 db [left, right])) (\<lambda>_.
    sbind (on_budget check) (\<lambda>_ (w, b).
    case sbind (validate_commit db left) (\<lambda>_. validate_commit db right) ((find_new, w), b) of
      (Inl e, ((_, w1), b1)) \<Rightarrow> (Inl e, (w1, b1))
    | (Inr _, ((st1, w1), b1)) \<Rightarrow>
        (case mb (find_object db) left right ((clear_error_scope st1, w1), b1) of
           (Inl _, ((st2, w2), b2)) \<Rightarrow>
             (Inl (fst (take_error_or MalformedObject ''merge-base traversal could not decode a commit'' st2)), (w2, b2))
         | (Inr bases, ((_, w2), b2)) \<Rightarrow>
             sbind (on_budget check) (\<lambda>_.
               sreturn (rev (sort (case bases of None \<Rightarrow> [] | Some xs \<Rightarrow> xs)))) (w2, b2))))"

section \<open>The graph a store holds\<close>

definition parents_of :: "gix \<Rightarrow> 'w odb \<Rightarrow> (oid \<Rightarrow> object_read) \<Rightarrow> oid \<Rightarrow> oid list" where
  "parents_of G db m x =
    (if is_shallow db x then []
     else case m x of
       Some (Commit, payload) \<Rightarrow> (case decode_commit G payload (oid_kind x) of Inr c \<Rightarrow> c_parents c | Inl _ \<Rightarrow> [])
     | _ \<Rightarrow> [])"

definition parent_rel :: "gix \<Rightarrow> 'w odb \<Rightarrow> (oid \<Rightarrow> object_read) \<Rightarrow> (oid \<times> oid) set" where
  "parent_rel G db m = {(x, y). y \<in> set (parents_of G db m x)}"

lemma read_parents_answers:
  assumes "object_store db I (\<lambda>x v. v = m x)"
  shows "answers I (\<lambda>ps. ps = parents_of G db m x) (read_parents G db x is_input)"
  unfolding read_parents_def
  by (rule answers_sbind [OF answers_smap_err [OF object_store.find_law [OF assms]]])
     (auto simp: parents_of_def split: option.split
       intro!: answers_sraise answers_sreturn
         answers_sbind [OF answers_smap_err [OF answers_slift [where P = "\<lambda>c. decode_commit G _ (oid_kind x) = Inr c"]]])

text \<open>The search invariant: seen names are reachable and were compared, and their parents are
  seen or pending.\<close>

definition search_inv :: "(oid \<times> oid) set \<Rightarrow> oid \<Rightarrow> oid \<Rightarrow> oid list \<Rightarrow> oid set \<Rightarrow> bool" where
  "search_inv R a d pending seen \<longleftrightarrow> d \<in> seen \<and> a \<notin> seen
    \<and> (\<forall>x \<in> seen. \<forall>y. (x, y) \<in> R \<longrightarrow> y \<in> seen \<union> set pending)
    \<and> (\<forall>x \<in> seen \<union> set pending. (d, x) \<in> R\<^sup>*)"

lemma search_done: "search_inv R a d [] seen \<Longrightarrow> (d, a) \<notin> R\<^sup>*"
proof
  assume inv: "search_inv R a d [] seen" and "(d, a) \<in> R\<^sup>*"
  from this(2) have "a \<in> seen" using inv by (induction) (auto simp: search_inv_def)
  with inv show False by (simp add: search_inv_def)
qed

lemma search_skip: "search_inv R a d pending seen \<Longrightarrow> pending \<noteq> [] \<Longrightarrow> last pending \<in> seen \<Longrightarrow>
    search_inv R a d (butlast pending) seen"
  unfolding search_inv_def by (metis Un_iff append_butlast_last_id in_set_butlastD insertE list.simps(15)
      rotate1.simps(2) set_rotate1)

lemma search_visit:
  assumes "search_inv (parent_rel G db m) a d pending seen" and "pending \<noteq> []" and "last pending \<noteq> a"
  shows "search_inv (parent_rel G db m) a d (butlast pending @ parents_of G db m (last pending)) (insert (last pending) seen)"
proof -
  obtain ps p where pending: "pending = ps @ [p]" using assms(2) by (metis append_butlast_last_id)
  let ?R = "parent_rel G db m"
  have edges: "(p, y) \<in> ?R \<longleftrightarrow> y \<in> set (parents_of G db m p)" for y by (simp add: parent_rel_def)
  have reach: "(d, p) \<in> ?R\<^sup>*" using assms(1) by (simp add: search_inv_def pending)
  then have "(d, y) \<in> ?R\<^sup>*" if "y \<in> set (parents_of G db m p)" for y
    using that edges by (meson rtrancl.rtrancl_into_rtrancl)
  then show ?thesis using assms reach edges unfolding search_inv_def pending by auto
qed

lemma ancestor_loop_answers:
  assumes store: "object_store db I (\<lambda>x v. v = m x)"
    and "search_inv (parent_rel G db m) a d pending seen"
  shows "answers I (\<lambda>r. \<forall>v. r = Some v \<longrightarrow> v = ((d, a) \<in> (parent_rel G db m)\<^sup>*))
    (ancestor_loop G db a fuel pending seen)"
  using assms(2)
proof (induction fuel arbitrary: pending seen)
  case 0
  then show ?case using search_done by (subst ancestor_loop.simps) (auto intro!: answers_sreturn)
next
  case (Suc fuel)
  show ?case
  proof (cases "pending = []")
    case True
    with Suc.prems search_done show ?thesis by (subst ancestor_loop.simps) (auto intro!: answers_sreturn)
  next
    case False
    have hit: "(d, last pending) \<in> (parent_rel G db m)\<^sup>*"
      using Suc.prems False by (auto simp: search_inv_def)
    show ?thesis
      using False hit Suc.IH [OF search_skip [OF Suc.prems False]] Suc.IH [OF search_visit [OF Suc.prems False]]
      by (subst ancestor_loop.simps)
         (auto simp: Let_def intro!: answers_sreturn answers_on_budget
           answers_sbind [where Q = "\<lambda>_. True"] answers_sbind [OF read_parents_answers [OF store, of G "last pending"]])
  qed
qed

lemma ancestor_loop_total:
  assumes store: "object_store db I (\<lambda>x v. v = m x)" and "finite R"
    and closed: "\<And>x. x \<in> R \<Longrightarrow> set (parents_of G db m x) \<subseteq> R" and "set pending \<subseteq> R"
    and "length pending + (\<Sum>x \<in> R - seen. length (parents_of G db m x)) \<le> fuel"
  shows "answers I (\<lambda>r. r \<noteq> None) (ancestor_loop G db a fuel pending seen)"
  using assms(4,5)
proof (induction fuel arbitrary: pending seen)
  case 0
  then have "length pending = 0" by linarith
  then have "pending = []" by simp
  then show ?case by (subst ancestor_loop.simps) (auto intro!: answers_sreturn)
next
  case (Suc fuel)
  show ?case
  proof (cases "pending = []")
    case True
    then show ?thesis by (subst ancestor_loop.simps) (auto intro!: answers_sreturn)
  next
    case False
    let ?x = "last pending" and ?rest = "butlast pending" and ?ps = "parents_of G db m (last pending)"
    from False obtain rest x0 where split: "pending = rest @ [x0]" by (cases pending rule: rev_cases) auto
    have x: "?x \<in> R" "set ?rest \<subseteq> R" using Suc.prems(1) unfolding split by simp_all
    have len: "length pending = Suc (length ?rest)" unfolding split by simp
    have skip: "answers I (\<lambda>r. r \<noteq> None) (ancestor_loop G db a fuel ?rest seen)"
    proof (rule Suc.IH [OF x(2)])
      show "length ?rest + (\<Sum>x \<in> R - seen. length (parents_of G db m x)) \<le> fuel"
        using Suc.prems(2) len by linarith
    qed
    have visit: "answers I (\<lambda>r. r \<noteq> None) (ancestor_loop G db a fuel (?rest @ ?ps) (insert ?x seen))" if "?x \<notin> seen"
    proof (rule Suc.IH)
      have "R - seen - {?x} = R - insert ?x seen" by auto
      then have "(\<Sum>x \<in> R - seen. length (parents_of G db m x))
          = length ?ps + (\<Sum>x \<in> R - insert ?x seen. length (parents_of G db m x))"
        using \<open>finite R\<close> x(1) that sum.remove [of "R - seen" ?x "\<lambda>x. length (parents_of G db m x)"] by simp
      with Suc.prems(2) len have "length ?rest + length ?ps
          + (\<Sum>x \<in> R - insert ?x seen. length (parents_of G db m x)) \<le> fuel" by linarith
      then show "length (?rest @ ?ps) + (\<Sum>x \<in> R - insert ?x seen. length (parents_of G db m x)) \<le> fuel"
        by simp
      show "set (?rest @ ?ps) \<subseteq> R" using x(2) closed [OF x(1)] by simp
    qed
    have "answers I (\<lambda>r. r \<noteq> None) (sbind (read_parents G db ?x False) (\<lambda>parents.
        ancestor_loop G db a fuel (?rest @ parents) (insert ?x seen)))" if "?x \<notin> seen"
      using visit [OF that] by (intro answers_sbind [OF read_parents_answers [OF store, of G ?x]]) simp
    with False skip show ?thesis
      by (subst ancestor_loop.simps)
         (auto simp: Let_def intro!: answers_sreturn answers_on_budget answers_sbind [where Q = "\<lambda>_. True" and m = "on_budget _"])
  qed
qed

section \<open>Properties\<close>

text \<open>
  C35. \<open>is_ancestor\<close> decides reachability: over a store that answers from fixed
  contents, a run that returns a verdict returns whether the ancestor is reached from the
  descendant by following recorded parents, with the parents of shallow roots hidden.
\<close>

theorem is_ancestor_decides_reachability:
  assumes "object_store db I (\<lambda>x v. v = m x)" and "I w"
    and "is_ancestor fuel G db ancestor descendant (w, b) = (Inr (Some verdict), s)"
  shows "verdict \<longleftrightarrow> (descendant, ancestor) \<in> (parent_rel G db m)\<^sup>*"
proof -
  let ?R = "parent_rel G db m"
  have "search_inv ?R ancestor descendant (parents_of G db m descendant) {descendant}"
    if "ancestor \<noteq> descendant" using that by (auto simp: search_inv_def parent_rel_def)
  then have "answers I (\<lambda>r. \<forall>v. r = Some v \<longrightarrow> v = ((descendant, ancestor) \<in> ?R\<^sup>*))
      (is_ancestor fuel G db ancestor descendant)"
    unfolding is_ancestor_def
    by (auto intro!: answers_sreturn answers_on_budget answers_slift ancestor_loop_answers [OF assms(1)]
        answers_sbind [OF read_parents_answers [OF assms(1), of G descendant]]
        answers_sbind [OF read_parents_answers [OF assms(1), of G ancestor]]
        answers_sbind [where Q = "\<lambda>_. True" and m = "slift _"] answers_sbind [where Q = "\<lambda>_. True" and m = "on_budget _"])
  from answersD [OF this, of "(w, b)" "Some verdict" s] assms(2,3) show ?thesis by simp
qed

text \<open>
  The reachability search ends: when finitely many commits are reachable from the
  descendant, as many steps as they have parents in total are enough, so every run without an
  error returns a verdict.
\<close>

theorem is_ancestor_terminates:
  assumes "object_store db I (\<lambda>x v. v = m x)" and "I w"
    and "finite ((parent_rel G db m)\<^sup>* `` {descendant})"
    and "(\<Sum>x \<in> (parent_rel G db m)\<^sup>* `` {descendant}. length (parents_of G db m x)) \<le> fuel"
    and "is_ancestor fuel G db ancestor descendant (w, b) = (Inr r, s)"
  shows "r \<noteq> None"
proof -
  let ?R = "(parent_rel G db m)\<^sup>* `` {descendant}"
  have closed: "set (parents_of G db m x) \<subseteq> ?R" if "x \<in> ?R" for x
    using that by (auto simp: parent_rel_def intro: rtrancl.rtrancl_into_rtrancl)
  have d: "descendant \<in> ?R" by simp
  have "(\<Sum>x \<in> ?R. length (parents_of G db m x))
      = length (parents_of G db m descendant) + (\<Sum>x \<in> ?R - {descendant}. length (parents_of G db m x))"
    by (rule sum.remove [OF assms(3) d])
  then have loop: "answers I (\<lambda>r. r \<noteq> None) (ancestor_loop G db ancestor fuel (parents_of G db m descendant) {descendant})"
    using assms(3,4) closed [OF d] by (intro ancestor_loop_total [OF assms(1), of ?R]) (use closed in auto)
  then have "answers I (\<lambda>r. r \<noteq> None) (is_ancestor fuel G db ancestor descendant)"
    unfolding is_ancestor_def
    by (auto intro!: answers_sreturn answers_on_budget answers_slift
        answers_sbind [OF read_parents_answers [OF assms(1), of G descendant]]
        answers_sbind [OF read_parents_answers [OF assms(1), of G ancestor]]
        answers_sbind [where Q = "\<lambda>_. True" and m = "slift _"] answers_sbind [where Q = "\<lambda>_. True" and m = "on_budget _"])
  from answersD [OF this, of "(w, b)" r s] assms(2,5) show ?thesis by simp
qed

text \<open>Two commits, the second the parent of the first.\<close>

definition pair_store :: static_odb where
  "pair_store = \<lparr>so_hash = Sha1, so_objects = [toy_oid 1 \<mapsto> (Commit, [2]), toy_oid 2 \<mapsto> (Commit, [])]\<rparr>"

lemma toy_oid_inj [simp]: "toy_oid a = toy_oid b \<longleftrightarrow> a = b"
  by (simp add: toy_oid_def numeral_eq_Suc)

lemma pair_parents: "parents_of toy_gix (static_db pair_store) (so_objects pair_store) x
    = (if x = toy_oid 1 then [toy_oid 2] else [])"
proof -
  obtain c1 c2 where "decode_commit toy_gix [2] Sha1 = Inr c1" "c_parents c1 = [toy_oid 2]"
    "decode_commit toy_gix [] Sha1 = Inr c2" "c_parents c2 = []"
    using toy_commit [of "[2]"] toy_commit [of "[]"] by auto
  then show ?thesis by (auto simp: parents_of_def pair_store_def is_shallow_def static_db_def)
qed

lemma pair_run: "\<exists>s. is_ancestor 1 toy_gix (static_db pair_store) (toy_oid 2) (toy_oid 1) ((), budget_unlimited idle)
    = (Inr (Some True), s)"
proof -
  obtain c1 c2 where "decode_commit toy_gix [2] Sha1 = Inr c1" "c_parents c1 = [toy_oid 2]"
    "decode_commit toy_gix [] Sha1 = Inr c2" "c_parents c2 = []"
    using toy_commit [of "[2]"] toy_commit [of "[]"] by auto
  then show ?thesis
    by (simp add: is_ancestor_def ensure_sha1_def read_parents_def ancestor_loop.simps static_db_def
        pair_store_def static_try_find_def static_eval sr_defs is_shallow_def)
qed

theorem is_ancestor_decides_reachability_witness:
  "(\<exists>s. is_ancestor 1 toy_gix (static_db pair_store) (toy_oid 2) (toy_oid 1) ((), budget_unlimited idle)
     = (Inr (Some True), s))
   \<and> (toy_oid 1, toy_oid 2) \<in> (parent_rel toy_gix (static_db pair_store :: unit odb) (so_objects pair_store))\<^sup>*"
  using pair_run is_ancestor_decides_reachability [OF static_exact [of pair_store], where w = "()" and verdict = True
      and G = toy_gix and ancestor = "toy_oid 2" and descendant = "toy_oid 1"
      and b = "budget_unlimited idle" and fuel = 1] by blast

theorem is_ancestor_terminates_witness:
  "\<exists>r s. is_ancestor 1 toy_gix (static_db pair_store) (toy_oid 2) (toy_oid 1) ((), budget_unlimited idle) = (Inr r, s)
     \<and> r \<noteq> None"
proof -
  let ?db = "static_db pair_store :: unit odb" and ?m = "so_objects pair_store"
  obtain s where run: "is_ancestor 1 toy_gix ?db (toy_oid 2) (toy_oid 1) ((), budget_unlimited idle) = (Inr (Some True), s)"
    using pair_run by blast
  have rel: "parent_rel toy_gix ?db ?m = {(toy_oid 1, toy_oid 2)}"
    by (auto simp: parent_rel_def pair_parents split: if_splits)
  have reach: "(parent_rel toy_gix ?db ?m)\<^sup>* `` {toy_oid 1} = {toy_oid 1, toy_oid 2}"
    unfolding rel by (auto elim: rtranclE)
  have "Some True \<noteq> None"
    by (rule is_ancestor_terminates [OF static_exact _ _ _ run])
       (simp_all only: reach, simp_all add: pair_parents)
  with run show ?thesis by blast
qed

text \<open>What the adapter hands to the engine for a stored object.\<close>

definition grafted :: "'w odb \<Rightarrow> (oid \<Rightarrow> object_read) \<Rightarrow> oid \<Rightarrow> object_kind \<times> bytes \<Rightarrow> bool" where
  "grafted db m x v \<longleftrightarrow> (\<exists>p. m x = Some (fst v, p)
     \<and> snd v = (if fst v = Commit \<and> is_shallow db x then without_parent_headers p else p))"

definition find_inv :: "'w odb \<Rightarrow> ('w \<Rightarrow> bool) \<Rightarrow> (oid \<Rightarrow> object_read) \<Rightarrow> find_state \<times> 'w \<Rightarrow> bool" where
  "find_inv db J m s \<longleftrightarrow> J (snd s)
    \<and> (\<exists>xs. lru_repr (fs_objects (fst s)) xs \<and> (\<forall>(x, v, _) \<in> set xs. grafted db m x v))"

lemma find_inv_start: "J w \<Longrightarrow> find_inv db J m (find_new, w)"
  by (auto simp: find_inv_def find_new_def PAYLOAD_CACHE_BYTES_def intro!: exI [of _ "[]"] lru_new_repr)

lemma find_inv_errors:
  "find_inv db J m (record_first_error e st, w) = find_inv db J m (st, w)"
  "find_inv db J m (clear_error_scope st, w) = find_inv db J m (st, w)"
  by (auto simp: find_inv_def record_first_error_def clear_error_scope_def split: option.splits)

lemma find_object_keeps:
  assumes store: "object_store db J (\<lambda>x v. v = m x)" and inv: "find_inv db J m (st, w)"
    and run: "find_object db x ((st, w), b) = (r, ((st', w'), b'))"
  shows "find_inv db J m (st', w') \<and> (\<forall>v. r = Inr v \<longrightarrow> grafted db m x v)"
proof -
  from inv obtain xs where xs: "lru_repr (fs_objects st) xs" "\<forall>(x, v, _) \<in> set xs. grafted db m x v" and w: "J w"
    by (auto simp: find_inv_def)
  from slab.get_keeps [OF xs, of x] obtain c l ys where
    get: "lru_get x (fs_objects st) = Some (c, l)" "lru_repr l ys" "\<forall>(x, v, _) \<in> set ys. grafted db m x v"
      "\<forall>v. c = Some v \<longrightarrow> grafted db m x v" by blast
  have keep: "find_inv db J m (st\<lparr>fs_current_oid := Some x, fs_objects := l\<rparr>, v)" if "J v" for v
    using that get(2,3) by (auto simp: find_inv_def)
  obtain q b1 where chk: "check b = (q, b1)" by fastforce
  show ?thesis
  proof (cases q)
    case (Inl e)
    with run chk inv show ?thesis by (auto simp: find_object_def sbind_def on_budget_def)
  next
    case (Inr u)
    show ?thesis
    proof (cases c)
      case (Some v)
      with run chk Inr get(1,4) keep [OF w] show ?thesis by (auto simp: find_object_def sbind_def on_budget_def Let_def)
    next
      case None
      obtain a w1 b2 where find: "db_try_find db x (w, b1) = (a, (w1, b2))" by (metis prod.collapse)
      note w1 = answers_run [OF object_store.find_law [OF store] w find]
      show ?thesis
      proof (cases "\<exists>k p. a = Inr (Some (k, p))")
        case False
        with run chk Inr None get(1) find keep [OF w1(1)] show ?thesis
          by (cases a) (auto simp: find_object_def sbind_def on_budget_def Let_def find_inv_errors split: option.splits)
      next
        case True
        then obtain k p where a: "a = Inr (Some (k, p))" by blast
        let ?p = "if k = Commit \<and> is_shallow db x then without_parent_headers p else p"
        have g: "grafted db m x (k, ?p)" using w1(2) [OF a, symmetric] by (auto simp: grafted_def)
        from slab.insert_keeps [OF get(2,3) g, of "byte_len ?p"] obtain n l' zs where
          ins: "insert_counting_evictions x (k, ?p) (byte_len ?p) l = Some (n, l')" "lru_repr l' zs"
          "\<forall>(x, v, _) \<in> set zs. grafted db m x v" by blast
        then have "find_inv db J m (st\<lparr>fs_current_oid := Some x, fs_objects := l'\<rparr>, w1)"
          using w1(1) by (auto simp: find_inv_def)
        with run chk Inr None get(1) find a g ins(1) show ?thesis
          by (auto simp: find_object_def sbind_def on_budget_def Let_def)
      qed
    qed
  qed
qed

text \<open>
  Engine traversals see the shallow boundary: in every state the adapter reaches, each
  object it hands to the engine, from the store or from its payload cache, is the stored
  object, with the parent headers removed exactly when it is a commit at the boundary.
\<close>

theorem adapter_serves_grafted_objects:
  assumes "object_store db J (\<lambda>x v. v = m x)" and "find_inv db J m (st, w)"
    and "find_object db x ((st, w), b) = (r, ((st', w'), b'))"
  shows "find_inv db J m (st', w') \<and> (\<forall>v. r = Inr v \<longrightarrow> grafted db m x v)"
  using assms by (rule find_object_keeps)

theorem adapter_serves_grafted_objects_witness:
  "\<exists>st' b'. find_object (static_db pair_store) (toy_oid 1) ((find_new, ()), budget_unlimited idle)
      = (Inr (Commit, [2]), ((st', ()), b'))
    \<and> find_inv (static_db pair_store) (\<lambda>_ :: unit. True) (so_objects pair_store) (st', ())"
proof -
  let ?db = "static_db pair_store :: unit odb"
  have get: "lru_get x (lru_new PAYLOAD_CACHE_BYTES :: (oid, object_kind \<times> bytes) lru)
      = Some (None, lru_new PAYLOAD_CACHE_BYTES)" for x by (simp add: lru_get_def lru_new_def)
  obtain n l where ins: "insert_counting_evictions (toy_oid 1) (Commit, [2 :: byte]) 1 (lru_new PAYLOAD_CACHE_BYTES) = Some (n, l)"
    using insert_refines [OF lru_new_repr, of PAYLOAD_CACHE_BYTES "toy_oid 1" "(Commit, [2 :: byte])" 1]
    by (auto simp: PAYLOAD_CACHE_BYTES_def)
  have unlimited: "unlimited (budget_unlimited idle)" by simp
  note check = check_unlimited [OF this]
  obtain b2 where find: "db_try_find ?db (toy_oid 1) ((), (budget_unlimited idle)\<lparr>b_tick := Suc (b_tick (budget_unlimited idle))\<rparr>)
      = (Inr (Some (Commit, [2])), ((), b2))"
    using static_find_unlimited [OF check [THEN conjunct2], of "toy_oid 1" pair_store "()"]
    by (auto simp: static_db_def pair_store_def)
  have deep: "\<not> is_shallow ?db (toy_oid 1)" by (simp add: is_shallow_def static_db_def)
  obtain st' b' where run: "find_object ?db (toy_oid 1) ((find_new, ()), budget_unlimited idle)
      = (Inr (Commit, [2]), ((st', ()), b'))"
    using check [THEN conjunct1] find get ins deep
    by (simp add: find_object_def find_new_def sbind_def on_budget_def byte_len_def Let_def)
  from adapter_serves_grafted_objects [OF static_exact find_inv_start run] run show ?thesis by auto
qed

text \<open>\<open>merge_base\<close> reports the engine's bases in descending order of their names.\<close>

lemma merge_base_sorted:
  assumes "merge_base mb db left right s = (Inr bases, s')"
  shows "sorted_wrt (\<ge>) bases"
proof -
  from assms obtain w b where "(case sbind (validate_commit db left) (\<lambda>_. validate_commit db right) ((find_new, w), b) of
      (Inl e, ((_, w1), b1)) \<Rightarrow> (Inl e, (w1, b1))
    | (Inr _, ((st1, w1), b1)) \<Rightarrow>
        (case mb (find_object db) left right ((clear_error_scope st1, w1), b1) of
           (Inl _, ((st2, w2), b2)) \<Rightarrow>
             (Inl (fst (take_error_or MalformedObject ''merge-base traversal could not decode a commit'' st2)), (w2, b2))
         | (Inr bases, ((_, w2), b2)) \<Rightarrow>
             sbind (on_budget check) (\<lambda>_.
               sreturn (rev (sort (case bases of None \<Rightarrow> [] | Some xs \<Rightarrow> xs)))) (w2, b2))) = (Inr bases, s')"
    unfolding merge_base_def by (auto simp: sbind_Inr_iff)
  then have "\<exists>xs. bases = rev (sort xs)"
    by (auto simp: sbind_Inr_iff sreturn_iff split: prod.split_asm sum.split_asm)
  then show ?thesis by (auto simp: sorted_wrt_rev)
qed

subsection \<open>Layering a shallow store loses its boundary\<close>

text \<open>
  A shallow store: commit 1 records a parent 2 that was never fetched. It is the in-memory store
  with shallow roots, which stands for a local repository with a \<open>shallow\<close> file.
\<close>

definition shallow_db :: "unit odb" where
  "shallow_db = (static_db \<lparr>so_hash = Sha1, so_objects = [toy_oid 1 \<mapsto> (Commit, [2]), toy_oid 3 \<mapsto> (Commit, [])]\<rparr>)
     \<lparr>db_shallow_roots := Some {toy_oid 1}\<rparr>"

definition layered_shallow :: "unit layered" where
  "layered_shallow = \<lparr>lo_hash = Sha1, lo_layers = [shallow_db], lo_cache = None\<rparr>"

lemma layered_find_single:
  assumes "static_try_find so x (w, b) = (Inr v, (w, b'))" and "oid_kind x = lo_hash L"
    and "lo_layers L = [(static_db so)\<lparr>db_shallow_roots := r\<rparr>]" and "lo_cache L = None"
  shows "layered_find L x ((c, w), b) = (Inr v, ((c, w), b'))"
  using assms
  by (cases v) (auto simp: layered_find_def layered_find_many_bounded_def ensure_oid_def cache_at_def cache_before_def
      in_layer_def static_db_def default_find_many_bounded_def enforce_read_many_budget_def default_read_many_def
      sr_defs Let_def)

lemma ancestor_run_hit:
  assumes "db_try_find db x (w, b) = (Inr (Some (Commit, p)), (w, b'))" and "decode_commit G p (oid_kind x) = Inr c"
  shows "read_parents G db x is_input (w, b) = (Inr (if is_shallow db x then [] else c_parents c), (w, b'))"
  using assms by (simp add: read_parents_def sr_defs)

lemma ancestor_run_miss:
  assumes "db_try_find db x (w, b) = (Inr None, (w, b'))"
  shows "read_parents G db x is_input (w, b) = (Inl (missing_commit x), (w, b'))"
  using assms by (simp add: read_parents_def sr_defs)

text \<open>
  C38. A layered store does not report the shallow roots of its stores: over a store with a
  shallow boundary the ancestry query answers, and over the composition of that store alone
  the same query walks past the boundary and fails with a missing object.
\<close>

theorem layered_store_loses_shallow_boundary:
  "(\<exists>s. is_ancestor 2 toy_gix shallow_db (toy_oid 3) (toy_oid 1) ((), budget_unlimited idle) = (Inr (Some False), s))
   \<and> (\<exists>e s. is_ancestor 2 toy_gix (layered_db layered_shallow) (toy_oid 3) (toy_oid 1)
        ((initial_cache None, ()), budget_unlimited idle) = (Inl e, s) \<and> err_code e = MissingObject
        \<and> err_object_oid e = Some (toy_oid 2))"
proof -
  let ?so = "\<lparr>so_hash = Sha1, so_objects = [toy_oid 1 \<mapsto> (Commit, [2]), toy_oid 3 \<mapsto> (Commit, [])]\<rparr>"
  let ?b0 = "budget_unlimited idle" and ?L = "layered_db layered_shallow"
  let ?c0 = "(initial_cache None, ())"
  obtain c1 c2 where c: "decode_commit toy_gix [2] Sha1 = Inr c1" "c_parents c1 = [toy_oid 2]"
    "decode_commit toy_gix [] Sha1 = Inr c2" "c_parents c2 = []"
    using toy_commit [of "[2]"] toy_commit [of "[]"] by auto
  have check: "\<exists>b'. on_budget check (w, b) = (Inr (), (w, b')) \<and> unlimited b'" if "unlimited b" for w and b
    using check_unlimited [OF that] by (simp add: on_budget_def)
  have find: "\<exists>b'. db_try_find shallow_db x ((), b) = (Inr (so_objects ?so x), ((), b')) \<and> unlimited b'"
    if "unlimited b" "oid_kind x = Sha1" for b x
    using static_find_unlimited [OF that(1), of x ?so "()"] that(2) by (simp add: shallow_db_def static_db_def)
  have lfind: "\<exists>b'. db_try_find ?L x (?c0, b) = (Inr (so_objects ?so x), (?c0, b')) \<and> unlimited b'"
    if "unlimited b" "oid_kind x = Sha1" for b x
    using layered_find_single [of ?so x "()" b "so_objects ?so x" _ layered_shallow "Some {toy_oid 1}" "initial_cache None"]
      static_find_unlimited [OF that(1), of x ?so "()"] that(2)
    by (auto simp: layered_shallow_def shallow_db_def layered_db_def)
  have kinds: "ensure_sha1 shallow_db [toy_oid 3, toy_oid 1] = Inr ()" "ensure_sha1 ?L [toy_oid 3, toy_oid 1] = Inr ()"
    by (simp_all add: ensure_sha1_def shallow_db_def static_db_def layered_db_def layered_shallow_def)
  have roots: "is_shallow shallow_db (toy_oid 1)" "\<not> is_shallow shallow_db (toy_oid 3)" "\<not> is_shallow ?L x" for x
    by (simp_all add: is_shallow_def shallow_db_def layered_db_def)
  obtain b1 where b1: "on_budget check ((), ?b0) = (Inr (), ((), b1))" "unlimited b1" using check by force
  obtain b2 where b2: "db_try_find shallow_db (toy_oid 3) ((), b1) = (Inr (Some (Commit, [])), ((), b2))" "unlimited b2"
    using find [OF b1(2), of "toy_oid 3"] by auto
  obtain b3 where b3: "db_try_find shallow_db (toy_oid 1) ((), b2) = (Inr (Some (Commit, [2])), ((), b3))"
    using find [OF b2(2), of "toy_oid 1"] by auto
  have "is_ancestor 2 toy_gix shallow_db (toy_oid 3) (toy_oid 1) ((), ?b0) = (Inr (Some False), ((), b3))"
    using kinds(1) b1(1) ancestor_run_hit [OF b2(1), of toy_gix c2 True] ancestor_run_hit [OF b3, of toy_gix c1 True] c roots
    by (simp add: is_ancestor_def ancestor_loop.simps sr_defs)
  moreover
  obtain e1 where e1: "on_budget check (?c0, ?b0) = (Inr (), (?c0, e1))" "unlimited e1" using check by force
  obtain e2 where e2: "db_try_find ?L (toy_oid 3) (?c0, e1) = (Inr (Some (Commit, [])), (?c0, e2))" "unlimited e2"
    using lfind [OF e1(2), of "toy_oid 3"] by auto
  obtain e3 where e3: "db_try_find ?L (toy_oid 1) (?c0, e2) = (Inr (Some (Commit, [2])), (?c0, e3))" "unlimited e3"
    using lfind [OF e2(2), of "toy_oid 1"] by auto
  obtain e4 where e4: "on_budget check (?c0, e3) = (Inr (), (?c0, e4))" "unlimited e4" using check [OF e3(2)] by force
  obtain e5 where e5: "db_try_find ?L (toy_oid 2) (?c0, e4) = (Inr None, (?c0, e5))"
    using lfind [OF e4(2), of "toy_oid 2"] by auto
  have "is_ancestor 2 toy_gix ?L (toy_oid 3) (toy_oid 1) (?c0, ?b0) = (Inl (missing_commit (toy_oid 2)), (?c0, e5))"
    using kinds(2) e1(1) e4(1) ancestor_run_hit [OF e2(1), of toy_gix c2 True] ancestor_run_hit [OF e3(1), of toy_gix c1 True]
      ancestor_run_miss [OF e5, of toy_gix False] c roots
    by (simp add: is_ancestor_def ancestor_loop.simps [of _ _ _ "Suc (Suc 0)"] sr_defs numeral_2_eq_2 Let_def)
  ultimately show ?thesis by (auto simp: missing_commit_def with_oid_def)
qed

end
