(* ===== verification/Pathspec.thy ===== *)
theory Pathspec
  imports Decode
begin

text \<open>
  Byte-oriented pathspec filters (\<open>pathspec.rs\<close>). Wildcard patterns are decided by
  \<open>gix_glob::wildmatch\<close>, the component \<open>gx_wildmatch\<close> of the engine. The filters
  prune a tree walk by \<open>may_match_descendant\<close>; the lemmas say when pruning is safe and
  for which patterns, those with an escape in their fixed part, it is not.
\<close>

section \<open>Matching\<close>

definition is_meta :: "byte \<Rightarrow> bool" where
  "is_meta b \<longleftrightarrow> b = 42 \<or> b = 63 \<or> b = 91"

text \<open>The pattern without its \<open>:(glob)\<close> magic, and whether it carried it.\<close>

definition split_magic :: "bytes \<Rightarrow> bytes \<times> bool" where
  "split_magic pattern =
    (case strip_prefix (ascii '':(glob)'') pattern of None \<Rightarrow> (pattern, False) | Some rest \<Rightarrow> (rest, True))"

text \<open>\<open>left\<close> is \<open>right\<close> or one of the directories above it.\<close>

definition at_or_below :: "bytes \<Rightarrow> bytes \<Rightarrow> bool" where
  "at_or_below path dir \<longleftrightarrow> path = dir \<or> prefix (dir @ [47]) path"

definition path_prefixes_overlap :: "bytes \<Rightarrow> bytes \<Rightarrow> bool" where
  "path_prefixes_overlap left right \<longleftrightarrow> left = right
    \<or> (prefix right left \<and> length right < length left \<and> left ! length right = 47)
    \<or> (prefix left right \<and> length left < length right \<and> right ! length left = 47)"

definition pattern_matches :: "gix \<Rightarrow> bytes \<Rightarrow> bytes \<Rightarrow> bool" where
  "pattern_matches G pattern0 path =
    (let (pattern, force_glob) = split_magic pattern0 in
     if \<not> force_glob \<and> \<not> (\<exists>b \<in> set pattern. is_meta b) then
       path = pattern \<or> (prefix pattern path \<and> length pattern < length path \<and> path ! length pattern = 47)
     else gx_wildmatch G pattern path)"

definition pattern_may_match_descendant :: "bytes \<Rightarrow> bytes \<Rightarrow> bool" where
  "pattern_may_match_descendant pattern0 prefix_path =
    (let (pattern, force_glob) = split_magic pattern0; first_meta = position is_meta pattern in
     if \<not> force_glob \<and> first_meta = None then path_prefixes_overlap pattern prefix_path
     else
       let fixed = take (case first_meta of None \<Rightarrow> length pattern | Some i \<Rightarrow> i) pattern in
       (case rposition (\<lambda>b. b = 47) fixed of
          None \<Rightarrow> True
        | Some last_slash \<Rightarrow> path_prefixes_overlap (take last_slash fixed) prefix_path))"

definition matcher_matches :: "gix \<Rightarrow> bytes list \<Rightarrow> bytes \<Rightarrow> bool" where
  "matcher_matches G patterns path \<longleftrightarrow> patterns = [] \<or> (\<exists>pattern \<in> set patterns. pattern_matches G pattern path)"

definition may_match_descendant :: "bytes list \<Rightarrow> bytes \<Rightarrow> bool" where
  "may_match_descendant patterns prefix_path \<longleftrightarrow>
    patterns = [] \<or> (\<exists>pattern \<in> set patterns. pattern_may_match_descendant pattern prefix_path)"

section \<open>Overlap of a directory and a path\<close>

lemma overlap_iff: "path_prefixes_overlap l r \<longleftrightarrow> at_or_below l r \<or> at_or_below r l"
proof -
  have "prefix (d @ [47]) p \<longleftrightarrow> prefix d p \<and> length d < length p \<and> p ! length d = 47" for d p :: bytes
  proof
    assume "prefix (d @ [47]) p"
    then show "prefix d p \<and> length d < length p \<and> p ! length d = 47"
      by (auto simp: prefix_def nth_append)
  next
    assume r: "prefix d p \<and> length d < length p \<and> p ! length d = 47"
    then obtain s where "p = d @ s" by (auto simp: prefix_def)
    with r show "prefix (d @ [47]) p" by (cases s) auto
  qed
  then show ?thesis by (auto simp: path_prefixes_overlap_def at_or_below_def)
qed

lemma overlap_sym: "path_prefixes_overlap l r = path_prefixes_overlap r l"
  by (auto simp: overlap_iff)

lemma rposition_Some: "rposition p xs = Some i \<Longrightarrow> i < length xs \<and> p (xs ! i)"
  by (auto simp: rposition_def position_Some_iff rev_nth)

text \<open>Two directories above one path are above one another.\<close>

lemma common_descendant_overlap:
  assumes "at_or_below p l" and "at_or_below p r"
  shows "path_prefixes_overlap l r"
proof -
  have "prefix d p" if "at_or_below p d" for d
    using that by (auto simp: at_or_below_def dest: append_prefixD)
  with assms have "prefix l p" "prefix r p" by blast+
  then have total: "prefix l r \<or> prefix r l" by (rule prefix_same_cases)
  have key: "at_or_below b a" if "prefix a b" "at_or_below p a" "at_or_below p b" for a b
  proof (cases "a = b")
    case False
    with that(1) obtain c cs where b: "b = a @ c # cs" by (metis append_Nil2 neq_Nil_conv prefixE)
    with that(2,3) have "c = 47" by (auto simp: at_or_below_def prefix_def)
    with b show ?thesis by (simp add: at_or_below_def)
  qed (simp add: at_or_below_def)
  with total assms show ?thesis by (auto simp: overlap_iff)
qed

section \<open>Properties\<close>

text \<open>
  What the filters rely on of the wildcard matcher: the characters of a pattern before its
  first metacharacter are matched literally, so the fixed part is a prefix of every match.
\<close>

definition literal_prefix_law :: "gix \<Rightarrow> bytes \<Rightarrow> bool" where
  "literal_prefix_law G pattern \<longleftrightarrow>
    (\<forall>path. gx_wildmatch G pattern path \<longrightarrow> prefix (takeWhile (\<lambda>b. \<not> is_meta b) pattern) path)"

lemma pruning_safe:
  assumes law: "literal_prefix_law G (fst (split_magic pattern))" and "pattern_matches G pattern path"
    and "at_or_below path dir"
  shows "pattern_may_match_descendant pattern dir"
proof -
  obtain pat force where magic: "split_magic pattern = (pat, force)" by fastforce
  have lit: "at_or_below path pat" if "\<not> force" "\<not> (\<exists>b \<in> set pat. is_meta b)"
  proof -
    have "path_prefixes_overlap pat path \<and> \<not> at_or_below pat path \<or> path = pat \<or> at_or_below path pat"
      using assms(2) that magic by (auto simp: pattern_matches_def path_prefixes_overlap_def overlap_iff at_or_below_def prefix_def nth_append)
    then show ?thesis by (auto simp: overlap_iff at_or_below_def)
  qed
  have fixed: "take (case position is_meta pat of None \<Rightarrow> length pat | Some i \<Rightarrow> i) pat = takeWhile (\<lambda>b. \<not> is_meta b) pat"
  proof (cases "position is_meta pat")
    case None
    then have "\<forall>b \<in> set pat. \<not> is_meta b" by simp
    then have "takeWhile (\<lambda>b. \<not> is_meta b) pat = pat" by (simp add: takeWhile_eq_all_conv)
    then show ?thesis unfolding None option.case by (metis order_refl take_all)
  next
    case (Some i)
    with position_takeWhile [OF Some] show ?thesis by simp
  qed
  show ?thesis
  proof (cases "\<not> force \<and> position is_meta pat = None")
    case True
    then have "at_or_below path pat" by (intro lit) auto
    from common_descendant_overlap [OF this assms(3)] True magic show ?thesis
      by (simp add: pattern_may_match_descendant_def)
  next
    case False
    then have "gx_wildmatch G pat path" using assms(2) magic by (auto simp: pattern_matches_def)
    with law magic have pre: "prefix (takeWhile (\<lambda>b. \<not> is_meta b) pat) path" by (simp add: literal_prefix_law_def)
    let ?fixed = "takeWhile (\<lambda>b. \<not> is_meta b) pat"
    have "path_prefixes_overlap (take i ?fixed) dir" if "rposition (\<lambda>b. b = 47) ?fixed = Some i" for i
    proof -
      from that have i: "i < length ?fixed" "?fixed ! i = 47" by (auto dest: rposition_Some)
      then have "prefix (take i ?fixed @ [47]) ?fixed"
        by (metis take_Suc_conv_app_nth take_is_prefix)
      with pre have "at_or_below path (take i ?fixed)" by (auto simp: at_or_below_def intro: prefix_order.trans)
      from common_descendant_overlap [OF this assms(3)] show ?thesis .
    qed
    with False magic fixed show ?thesis
      by (auto simp: pattern_may_match_descendant_def Let_def split: option.split)
  qed
qed

text \<open>
  C36. Pruning is safe: when the wildcard matcher takes the characters before the first
  metacharacter of each pattern literally, every directory above or at a path the filter
  selects may be descended into, so a walk that prunes by \<open>may_match_descendant\<close> loses
  no selected path.
\<close>

theorem pruning_keeps_matches:
  assumes "\<forall>pattern \<in> set patterns. literal_prefix_law G (fst (split_magic pattern))"
    and "matcher_matches G patterns path" and "at_or_below path dir"
  shows "may_match_descendant patterns dir"
  using assms pruning_safe [of G _ path dir] unfolding matcher_matches_def may_match_descendant_def by blast

text \<open>A matcher that knows one wildcard pattern, \<open>a/*\<close>, for concrete runs.\<close>

definition star_gix :: gix where
  "star_gix = \<lparr>gx_commit = (\<lambda>_ _. None), gx_tag = (\<lambda>_ _. None), gx_entry = (\<lambda>_ _. None),
     gx_wildmatch = (\<lambda>pattern path. pattern = ascii ''a/*'' \<and> prefix (ascii ''a/'') path)\<rparr>"

theorem pruning_keeps_matches_witness:
  "matcher_matches star_gix [ascii ''a/*''] (ascii ''a/b'') \<and> may_match_descendant [ascii ''a/*''] (ascii ''a'')"
proof -
  have m: "matcher_matches star_gix [ascii ''a/*''] (ascii ''a/b'')"
    by (simp add: matcher_matches_def pattern_matches_def split_magic_def strip_prefix_def star_gix_def is_meta_def)
  have "literal_prefix_law star_gix (fst (split_magic (ascii ''a/*'')))"
    by (simp add: literal_prefix_law_def split_magic_def strip_prefix_def star_gix_def is_meta_def)
  with pruning_keeps_matches [of "[ascii ''a/*'']" star_gix "ascii ''a/b''" "ascii ''a''"] m show ?thesis
    by (simp add: at_or_below_def)
qed

section \<open>Escapes\<close>

text \<open>
  Git's wildmatch takes a character after a backslash literally, as well as every character
  that is neither a backslash nor a metacharacter, and a star at the end of a pattern matches
  any name. For a pattern with one escape: \<open>a\cb/*\<close> matches every name in the directory
  \<open>acb\<close>.
\<close>

definition plain :: "bytes \<Rightarrow> bool" where
  "plain bs \<longleftrightarrow> (\<forall>b \<in> set bs. \<not> is_meta b \<and> b \<noteq> 92)"

definition escaped_pattern :: "bytes \<Rightarrow> byte \<Rightarrow> bytes \<Rightarrow> bytes" where
  "escaped_pattern a c b = a @ 92 # c # b @ [47, 42]"

definition escape_law :: "gix \<Rightarrow> bool" where
  "escape_law G \<longleftrightarrow> (\<forall>a c b name. plain (a @ c # b) \<and> c \<noteq> 47 \<and> name \<noteq> [] \<and> 47 \<notin> set name \<longrightarrow>
     gx_wildmatch G (escaped_pattern a c b) (a @ c # b @ 47 # name))"

lemma escaped_pattern_selects:
  assumes "escape_law G" and "plain (a @ c # b)" and "c \<noteq> 47" and "fst (split_magic pattern) = escaped_pattern a c b"
    and "name \<noteq> []" and "47 \<notin> set name"
  shows "matcher_matches G [pattern] (a @ c # b @ 47 # name)"
proof -
  obtain force where magic: "split_magic pattern = (escaped_pattern a c b, force)" using assms(4) by (metis prod.collapse)
  have "\<exists>x \<in> set (escaped_pattern a c b). is_meta x" by (simp add: escaped_pattern_def is_meta_def)
  moreover have "gx_wildmatch G (escaped_pattern a c b) (a @ c # b @ 47 # name)" using assms(1-3,5,6) by (simp add: escape_law_def)
  ultimately show ?thesis by (auto simp: matcher_matches_def pattern_matches_def magic)
qed

text \<open>The pruning test compares the directory with the pattern's text, escape included.\<close>

lemma escaped_pattern_prunes:
  assumes "plain (a @ c # b)" and "fst (split_magic pattern) = escaped_pattern a c b"
  shows "\<not> may_match_descendant [pattern] (a @ c # b)"
proof -
  obtain force where magic: "split_magic pattern = (escaped_pattern a c b, force)" using assms(2) by (metis prod.collapse)
  define dir where "dir = a @ 92 # c # b"
  have pattern: "escaped_pattern a c b = (dir @ [47]) @ 42 # []" by (simp add: escaped_pattern_def dir_def)
  have first: "position is_meta (escaped_pattern a c b) = Some (length (dir @ [47]))"
    unfolding pattern by (rule position_append_fresh) (use assms(1) in \<open>auto simp: dir_def plain_def is_meta_def\<close>)
  have fixed: "take (length (dir @ [47])) (escaped_pattern a c b) = dir @ [47]" unfolding pattern by simp
  have slash: "rposition (\<lambda>x. x = 47) (dir @ [47]) = Some (length dir)" by (simp add: rposition_def)
  have "\<not> path_prefixes_overlap dir (a @ c # b)"
    using assms(1) by (auto simp: overlap_iff at_or_below_def plain_def prefix_def dir_def)
  then have "\<not> pattern_may_match_descendant pattern (a @ c # b)"
    unfolding pattern_may_match_descendant_def magic prod.case Let_def first option.case fixed slash by simp
  then show ?thesis by (simp add: may_match_descendant_def)
qed

end
