(* ===== verification/Tree.thy ===== *)
theory Tree
  imports Snapshot Pathspec Cursor
begin

text \<open>
  Snapshot tree resolution, traversal, filtering and pagination (\<open>tree.rs\<close>). The walker
  accumulates items beside the store's state, so that a page survives an exhausted budget, as
  it does in the source. Its loop runs with a bound on its steps; \<open>None\<close> marks a bound
  that was too small.
\<close>

section \<open>Options and results\<close>

datatype tree_item_kind = KBlob | KTree | KSymlink | KGitlink

type_synonym type_filter = u8

definition type_flag :: "tree_item_kind \<Rightarrow> u8" where
  "type_flag k = (case k of KBlob \<Rightarrow> 1 | KTree \<Rightarrow> 2 | KSymlink \<Rightarrow> 4 | KGitlink \<Rightarrow> 8)"

definition TYPES_ALL :: type_filter where "TYPES_ALL = 15"

definition type_contains :: "type_filter \<Rightarrow> tree_item_kind \<Rightarrow> bool" where
  "type_contains f k \<longleftrightarrow> f AND type_flag k \<noteq> 0"

record tree_options =
  to_path :: bytes
  to_recursive :: bool
  to_depth :: "u32 option"
  to_types :: type_filter
  to_pathspecs :: "bytes list"
  to_include_size :: bool
  to_limit :: nat
  to_cursor :: "bytes option"

definition default_tree_options :: tree_options where
  "default_tree_options = \<lparr>to_path = [], to_recursive = False, to_depth = None, to_types = TYPES_ALL,
     to_pathspecs = [], to_include_size = False, to_limit = 1000, to_cursor = None\<rparr>"

record tree_item =
  ti_path :: bytes
  ti_name :: bytes
  ti_oid :: oid
  ti_kind :: tree_item_kind
  ti_mode :: u32
  ti_size :: "u64 option"

record query_stats =
  qs_objects_read :: u64
  qs_bytes_read :: u64
  qs_entries_emitted :: u64
  qs_cache_hits :: u64
  qs_cache_misses :: u64
  qs_cache_bytes :: u64
  qs_cache_entries :: u64
  qs_cache_evictions :: u64
  qs_files_scanned :: u64
  qs_blobs_deduped :: u64
  qs_binary_skipped :: u64
  qs_oversize_skipped :: u64
  qs_payload_rereads :: u64
  qs_stopped_by :: "string option"

record tree_page =
  tp_entries :: "tree_item list"
  tp_next_cursor :: "bytes option"
  tp_truncated :: bool
  tp_stats :: query_stats

text \<open>The statistics every query reports: the budget's spend and the store's cache.\<close>

definition query_stats_of :: "'w odb \<Rightarrow> u64 \<Rightarrow> string option \<Rightarrow> 'w \<times> budget \<Rightarrow> query_stats" where
  "query_stats_of db emitted stopped_by s =
    (case s of (w, b) \<Rightarrow>
      let (objects_read, bytes_read, _, _) = spent b; (hits, misses) = cache_spent b; cs = db_cache_stats db w
      in \<lparr>qs_objects_read = objects_read, qs_bytes_read = bytes_read, qs_entries_emitted = emitted,
          qs_cache_hits = hits, qs_cache_misses = misses, qs_cache_bytes = cs_bytes cs,
          qs_cache_entries = cs_entries cs, qs_cache_evictions = cs_evictions cs, qs_files_scanned = 0,
          qs_blobs_deduped = 0, qs_binary_skipped = 0, qs_oversize_skipped = 0, qs_payload_rereads = 0,
          qs_stopped_by = stopped_by\<rparr>)"

section \<open>Paths and entries\<close>

definition dot_segment :: "bytes \<Rightarrow> bool" where
  "dot_segment s \<longleftrightarrow> s = [46] \<or> s = [46, 46]"

fun check_segments :: "bytes list \<Rightarrow> error + unit" where
  "check_segments [] = Inr ()"
| "check_segments (s # ss) =
    (if dot_segment s then Inl (err_new InvalidPath ''path contains a semantic dot segment'')
     else if s = [] then Inl (err_new InvalidPath ''path contains an empty segment'')
     else check_segments ss)"

definition validate_path :: "bytes \<Rightarrow> error + unit" where
  "validate_path path =
    (if 0 \<in> set path then Inl (err_new InvalidPath ''path contains a NUL byte'')
     else if path = [] then Inr ()
     else check_segments (split_on 47 path))"

definition validate_literal_path :: "bytes \<Rightarrow> string \<Rightarrow> error + unit" where
  "validate_literal_path path operation =
    rbind (validate_path path) (\<lambda>_.
    if prefix (ascii '':('') path \<or> (\<exists>b \<in> set path. is_meta b) then
      Inl (with_reason ''pathspec_not_literal''
        (err_new InvalidArgument (operation @ '' path must be literal, not a pathspec'')))
    else Inr ())"

definition ensure_query_compatible :: "'w odb \<Rightarrow> snapshot \<Rightarrow> error + unit" where
  "ensure_query_compatible db snap =
    (if db_hash_kind db = Sha256 then Inl (err_new UnsupportedHash ''SHA-256 query execution not yet supported'')
     else if oid_kind (commit_oid snap) \<noteq> db_hash_kind db \<or> oid_kind (tree_oid snap) \<noteq> db_hash_kind db then
       Inl (err_new InvalidOid ''snapshot object ID algorithm does not match the object store'')
     else Inr ())"

definition validate_tree_name :: "bytes \<Rightarrow> error + unit" where
  "validate_tree_name name =
    (if name = [] \<or> 0 \<in> set name \<or> 47 \<in> set name \<or> dot_segment name
     then Inl (err_new MalformedObject ''tree entry name is malformed'') else Inr ())"

text \<open>Octal rendering of a mode in the message of \<open>kind_from_mode\<close>.\<close>

fun show_octal :: "nat \<Rightarrow> string" where
  "show_octal n = (if n < 8 then [digit_char n] else show_octal (n div 8) @ [digit_char (n mod 8)])"

declare show_octal.simps [simp del]

definition kind_from_mode :: "u32 \<Rightarrow> error + tree_item_kind" where
  "kind_from_mode mode =
    (let fmt = mode AND 0xf000 in
     if fmt = 0x4000 then Inr KTree
     else if fmt = 0x8000 then Inr KBlob
     else if fmt = 0xa000 then Inr KSymlink
     else if fmt = 0xe000 then Inr KGitlink
     else Inl (err_new MalformedObject (''tree entry has unsupported mode '' @ show_octal (unat mode))))"

definition join_path :: "bytes \<Rightarrow> bytes \<Rightarrow> bytes" where
  "join_path pre name = (if pre = [] then name else pre @ [47] @ name)"

definition relative_to_scope :: "bytes \<Rightarrow> bytes \<Rightarrow> bytes" where
  "relative_to_scope path scope = (if scope = [] then path else drop (length scope + 1) path)"

definition missing_object :: "oid \<Rightarrow> string \<Rightarrow> error" where
  "missing_object x role = err_new MissingObject (role @ '' object '' @ to_hex x @ '' is missing from the object store'')"

definition path_not_found :: error where
  "path_not_found = err_new InvalidPath ''path does not exist in this snapshot''"

record owned_entry =
  oe_mode :: u32
  oe_name :: bytes
  oe_oid :: oid
  oe_kind :: tree_item_kind

definition owned_of :: "error + tree_entry \<Rightarrow> error + owned_entry" where
  "owned_of r = rbind r (\<lambda>e. rbind (validate_tree_name (te_name e)) (\<lambda>_. rbind (kind_from_mode (te_mode e)) (\<lambda>k.
     Inr \<lparr>oe_mode = te_mode e, oe_name = te_name e, oe_oid = te_oid e, oe_kind = k\<rparr>)))"

definition decode_owned_tree_entries :: "gix \<Rightarrow> bytes \<Rightarrow> hash_kind \<Rightarrow> error + owned_entry list" where
  "decode_owned_tree_entries G payload hk = collect_results (map owned_of (decode_tree G payload hk))"

text \<open>\<open>read_tree_entries\<close> and its graph variant differ in the read they issue.\<close>

definition entries_of_read :: "gix \<Rightarrow> hash_kind \<Rightarrow> oid \<Rightarrow> object_read \<Rightarrow> error + owned_entry list" where
  "entries_of_read G hk x found =
    (case found of
       None \<Rightarrow> Inl (missing_object x ''tree'')
     | Some (kind, payload) \<Rightarrow>
         if kind \<noteq> Tree then Inl (err_new NotATree (''tree object '' @ to_hex x @ '' is not a tree''))
         else decode_owned_tree_entries G payload hk)"

definition read_tree_entries :: "gix \<Rightarrow> 'w odb \<Rightarrow> oid \<Rightarrow> ('w, owned_entry list) op" where
  "read_tree_entries G db x =
    sbind (db_try_find db x) (\<lambda>found. slift (entries_of_read G (db_hash_kind db) x found))"

definition read_tree_entries_graph :: "gix \<Rightarrow> 'w odb \<Rightarrow> oid \<Rightarrow> ('w, owned_entry list) op" where
  "read_tree_entries_graph G db x =
    sbind (db_try_find_graph db x) (\<lambda>found. slift (entries_of_read G (db_hash_kind db) x found))"

definition prefetch_children :: "'w odb \<Rightarrow> owned_entry list \<Rightarrow> ('w, unit) op" where
  "prefetch_children db es =
    (let child_trees = map oe_oid (filter (\<lambda>e. oe_kind e = KTree) es) in
     if child_trees \<noteq> [] then db_prefetch db child_trees else sreturn ())"

definition read_tree_entries_for_walk :: "gix \<Rightarrow> 'w odb \<Rightarrow> oid \<Rightarrow> bool \<Rightarrow> ('w, owned_entry list) op" where
  "read_tree_entries_for_walk G db x want_prefetch =
    sbind (read_tree_entries G db x) (\<lambda>es.
    sbind (if want_prefetch \<and> db_supports_prefetch db then prefetch_children db es else sreturn ()) (\<lambda>_.
    sreturn es))"

definition read_tree_entries_for_graph_walk :: "gix \<Rightarrow> 'w odb \<Rightarrow> oid \<Rightarrow> ('w, owned_entry list) op" where
  "read_tree_entries_for_graph_walk G db x =
    sbind (read_tree_entries_graph G db x) (\<lambda>es.
    sbind (if db_supports_prefetch db then prefetch_children db es else sreturn ()) (\<lambda>_. sreturn es))"

section \<open>Path resolution\<close>

record resolved_entry =
  re_oid :: oid
  re_mode :: u32
  re_kind :: tree_item_kind

datatype resolved_path = RootTree oid | Entry resolved_entry

text \<open>The loop over the segments, for either way of reading a tree.\<close>

fun resolve_segments :: "(oid \<Rightarrow> ('w, owned_entry list) op) \<Rightarrow> oid \<Rightarrow> bytes list \<Rightarrow> ('w, resolved_path) op" where
  "resolve_segments rd tree [] = sraise path_not_found"
| "resolve_segments rd tree (segment # rest) =
    sbind (rd tree) (\<lambda>es.
    case find (\<lambda>e. oe_name e = segment) es of
      None \<Rightarrow> sraise path_not_found
    | Some e \<Rightarrow>
        if rest = [] then sreturn (Entry \<lparr>re_oid = oe_oid e, re_mode = oe_mode e, re_kind = oe_kind e\<rparr>)
        else if oe_kind e \<noteq> KTree then sraise path_not_found
        else resolve_segments rd (oe_oid e) rest)"

definition resolve_path :: "gix \<Rightarrow> 'w odb \<Rightarrow> snapshot \<Rightarrow> bytes \<Rightarrow> ('w, resolved_path) op" where
  "resolve_path G db snap path =
    sbind (slift (validate_path path)) (\<lambda>_.
    if path = [] then sreturn (RootTree (tree_oid snap))
    else resolve_segments (read_tree_entries G db) (tree_oid snap) (split_on 47 path))"

definition resolve_path_for_graph_walk :: "gix \<Rightarrow> 'w odb \<Rightarrow> snapshot \<Rightarrow> bytes \<Rightarrow> ('w, resolved_path) op" where
  "resolve_path_for_graph_walk G db snap path =
    sbind (slift (validate_path path)) (\<lambda>_.
    if path = [] then sreturn (RootTree (tree_oid snap))
    else resolve_segments (read_tree_entries_graph G db) (tree_oid snap) (split_on 47 path))"

section \<open>The walk\<close>

record frame =
  fr_entries :: "owned_entry list"
  fr_prefix :: bytes
  fr_depth :: u32

datatype walk_outcome = Complete | Stopped string

text \<open>The walker's items live beside the store's state; a store operation leaves them alone.\<close>

type_synonym 'w walking = "tree_item list \<times> 'w"

definition in_walk :: "('w, 'a) op \<Rightarrow> ('w walking, 'a) op" where
  "in_walk m s = (case s of ((items, w), b) \<Rightarrow> (case m (w, b) of (r, (w', b')) \<Rightarrow> (r, ((items, w'), b'))))"

definition push_item :: "tree_item \<Rightarrow> ('w walking, unit) op" where
  "push_item i s = (case s of ((items, w), b) \<Rightarrow> (Inr (), ((items @ [i], w), b)))"

definition item_count :: "('w walking, nat) op" where
  "item_count s = (Inr (length (fst (fst s))), s)"

definition should_descend :: "tree_options \<Rightarrow> u32 \<Rightarrow> bytes \<Rightarrow> u32 \<Rightarrow> owned_entry \<Rightarrow> bool" where
  "should_descend opts max_depth path depth e \<longleftrightarrow>
    oe_kind e = KTree \<and> to_recursive opts \<and> depth < max_depth
    \<and> may_match_descendant (to_pathspecs opts) (relative_to_scope path (to_path opts))"

definition should_emit :: "gix \<Rightarrow> tree_options \<Rightarrow> bytes \<Rightarrow> bytes \<Rightarrow> owned_entry \<Rightarrow> bool" where
  "should_emit G opts resume path e \<longleftrightarrow>
    type_contains (to_types opts) (oe_kind e)
    \<and> matcher_matches G (to_pathspecs opts) (relative_to_scope path (to_path opts))
    \<and> (resume = [] \<or> resume < path)"

definition entry_size :: "'w odb \<Rightarrow> tree_options \<Rightarrow> owned_entry \<Rightarrow> ('w, u64 option) op" where
  "entry_size db opts e =
    (if to_include_size opts \<and> (oe_kind e = KBlob \<or> oe_kind e = KSymlink) then
       sbind (db_try_header_with_provenance db (oe_oid e)) (\<lambda>h.
       case h of
         None \<Rightarrow> sraise (missing_object (oe_oid e) ''listed entry'')
       | Some h \<Rightarrow>
           if hdr_kind (hr_header h) \<noteq> Blob then
             sraise (case hr_provenance h of
                 UnverifiedProvider \<Rightarrow> err_new ProviderProtocolError ''provider header contradicts tree entry kind''
               | Verified \<Rightarrow> err_new MalformedObject
                   (''listed blob '' @ to_hex (oe_oid e) @ '' addresses a non-blob object''))
           else sreturn (Some (hdr_size (hr_header h))))
     else sreturn None)"

definition emit_item :: "'w odb \<Rightarrow> tree_options \<Rightarrow> bytes \<Rightarrow> owned_entry \<Rightarrow> ('w walking, unit) op" where
  "emit_item db opts path e =
    sbind (on_budget charge_tree_entry) (\<lambda>_.
    sbind (in_walk (entry_size db opts e)) (\<lambda>size.
    push_item \<lparr>ti_path = path, ti_name = oe_name e, ti_oid = oe_oid e, ti_kind = oe_kind e,
               ti_mode = oe_mode e, ti_size = size\<rparr>))"

text \<open>The stack's top is the head of the list.\<close>

fun walk_loop :: "gix \<Rightarrow> 'w odb \<Rightarrow> tree_options \<Rightarrow> bytes \<Rightarrow> u32 \<Rightarrow> nat \<Rightarrow> frame list
    \<Rightarrow> ('w walking, walk_outcome option) op" where
  "walk_loop G db opts resume max_depth fuel [] = sreturn (Some Complete)"
| "walk_loop G db opts resume max_depth 0 (f # fs) = sreturn None"
| "walk_loop G db opts resume max_depth (Suc fuel) (f # fs) =
    sbind (on_budget check) (\<lambda>_.
    case fr_entries f of
      [] \<Rightarrow> walk_loop G db opts resume max_depth fuel fs
    | e # rest \<Rightarrow>
        let path = join_path (fr_prefix f) (oe_name e); depth = fr_depth f; top = f\<lparr>fr_entries := rest\<rparr> in
        sbind item_count (\<lambda>n.
        if should_emit G opts resume path e \<and> n = to_limit opts then sreturn (Some (Stopped ''limit''))
        else
          sbind (if should_emit G opts resume path e then emit_item db opts path e else sreturn ()) (\<lambda>_.
          if should_descend opts max_depth path depth e then
            sbind (in_walk (read_tree_entries_for_walk G db (oe_oid e) (to_recursive opts))) (\<lambda>es.
            walk_loop G db opts resume max_depth fuel
              (\<lparr>fr_entries = es, fr_prefix = path, fr_depth = sat_add depth 1\<rparr> # top # fs))
          else walk_loop G db opts resume max_depth fuel (top # fs))))"

definition walk_tree :: "nat \<Rightarrow> gix \<Rightarrow> 'w odb \<Rightarrow> tree_options \<Rightarrow> bytes \<Rightarrow> u32 \<Rightarrow> oid \<Rightarrow> ('w walking, walk_outcome option) op" where
  "walk_tree fuel G db opts resume max_depth x =
    sbind (in_walk (read_tree_entries_for_walk G db x (to_recursive opts))) (\<lambda>es.
    walk_loop G db opts resume max_depth fuel [\<lparr>fr_entries = es, fr_prefix = to_path opts, fr_depth = 1\<rparr>])"

section \<open>A page\<close>

definition push_bytes :: "bytes \<Rightarrow> bytes" where
  "push_bytes bs = u32_le (clamp_word (length bs)) @ bs"

definition option_fingerprint :: "tree_options \<Rightarrow> u64" where
  "option_fingerprint opts =
    fnv1a_64 (ascii ''gitility:list_tree:options:v1'' @ [0] @ push_bytes (to_path opts)
      @ [if to_recursive opts then 1 else 0]
      @ (case to_depth opts of Some d \<Rightarrow> [1] @ u32_le d | None \<Rightarrow> [0])
      @ [to_types opts] @ u32_le (clamp_word (length (to_pathspecs opts)))
      @ concat (map push_bytes (to_pathspecs opts)) @ [if to_include_size opts then 1 else 0])"

definition validate_cursor_position :: "bytes \<Rightarrow> bytes \<Rightarrow> error + unit" where
  "validate_cursor_position pos base =
    (if pos = [] then Inr ()
     else case validate_path pos of
       Inl _ \<Rightarrow> Inl (invalid_cursor ''position path check failed'')
     | Inr _ \<Rightarrow>
       if base \<noteq> [] \<and> \<not> (prefix base pos \<and> length base < length pos \<and> pos ! length base = 47
                          \<and> length base + 1 < length pos)
       then Inl (invalid_cursor ''position path is outside the listed tree'')
       else Inr ())"

definition resume_of :: "snapshot \<Rightarrow> tree_options \<Rightarrow> error + bytes" where
  "resume_of snap opts =
    (case to_cursor opts of
       None \<Rightarrow> Inr []
     | Some bs \<Rightarrow>
         rbind (decode bs \<lparr>exp_hash_kind = oid_kind (commit_oid snap), exp_snapshot_digest = as_bytes (commit_oid snap),
                  exp_operation_tag = OPERATION_LIST_TREE, exp_option_fingerprint = option_fingerprint opts\<rparr>) (\<lambda>c.
         if cur_generation c \<noteq> [] then Inl (invalid_cursor ''generation check failed for this object store'')
         else rbind (validate_cursor_position (cur_position c) (to_path opts)) (\<lambda>_. Inr (cur_position c))))"

text \<open>Which errors of the walk end the page early instead of failing the query.\<close>

definition walk_result :: "error + walk_outcome option \<Rightarrow> error + walk_outcome option" where
  "walk_result r =
    (case r of
       Inr out \<Rightarrow> Inr out
     | Inl e \<Rightarrow>
         if err_code e = BudgetExceeded \<and> (err_limit e = Some ''max_provider_requests'' \<or> err_limit e = Some ''max_provider_bytes'')
         then Inl e
         else if err_code e = BudgetExceeded then
           Inr (Some (Stopped (case err_limit e of Some l \<Rightarrow> l | None \<Rightarrow> ''budget'')))
         else Inl e)"

definition page_of :: "'w odb \<Rightarrow> snapshot \<Rightarrow> tree_options \<Rightarrow> tree_item list \<Rightarrow> walk_outcome \<Rightarrow> 'w \<times> budget \<Rightarrow> error + tree_page" where
  "page_of db snap opts items out s =
    (let stopped_by = (case out of Complete \<Rightarrow> None | Stopped l \<Rightarrow> Some l); truncated = (stopped_by \<noteq> None) in
     if truncated \<and> items = [] then
       Inl (with_limit (the stopped_by) (err_new BudgetExceeded ''budget exhausted before any pagination progress''))
     else rbind
       (if truncated then
          let encoded = encode \<lparr>cur_hash_kind = oid_kind (commit_oid snap), cur_snapshot_digest = as_bytes (commit_oid snap),
                cur_operation_tag = OPERATION_LIST_TREE, cur_option_fingerprint = option_fingerprint opts,
                cur_generation = [], cur_position = ti_path (last items)\<rparr>
          in if MAX_CURSOR_BYTES < length encoded
             then Inl (err_new ResultTooLarge ''tree continuation path exceeds the cursor size limit'')
             else Inr (Some encoded)
        else Inr None) (\<lambda>next_cursor.
     Inr \<lparr>tp_entries = items, tp_next_cursor = next_cursor, tp_truncated = truncated,
          tp_stats = query_stats_of db (of_nat (length items)) stopped_by s\<rparr>))"

definition max_depth_of :: "tree_options \<Rightarrow> u32" where
  "max_depth_of opts = (if to_recursive opts then (case to_depth opts of None \<Rightarrow> - 1 | Some d \<Rightarrow> d) else 1)"

definition listed_tree :: "resolved_path \<Rightarrow> error + oid" where
  "listed_tree resolved =
    (case resolved of
       RootTree x \<Rightarrow> Inr x
     | Entry e \<Rightarrow> if re_kind e = KTree then Inr (re_oid e)
                 else Inl (err_new NotATree ''path does not resolve to a tree''))"

text \<open>The walk of a page, and the page made of what it collected.\<close>

definition page_walk :: "nat \<Rightarrow> gix \<Rightarrow> 'w odb \<Rightarrow> tree_options \<Rightarrow> bytes \<Rightarrow> oid \<Rightarrow> ('w walking, walk_outcome option) op" where
  "page_walk fuel G db opts resume tree =
    (if max_depth_of opts = 0 then sreturn (Some Complete)
     else walk_tree fuel G db opts resume (max_depth_of opts) tree)"

definition walk_page :: "nat \<Rightarrow> gix \<Rightarrow> 'w odb \<Rightarrow> snapshot \<Rightarrow> tree_options \<Rightarrow> bytes \<Rightarrow> oid \<Rightarrow> ('w, tree_page option) op" where
  "walk_page fuel G db snap opts resume tree s =
    (case s of (w, b) \<Rightarrow> case page_walk fuel G db opts resume tree (([], w), b) of
      (r, ((items, w'), b')) \<Rightarrow>
        (case walk_result r of
           Inl e \<Rightarrow> (Inl e, (w', b'))
         | Inr None \<Rightarrow> (Inr None, (w', b'))
         | Inr (Some out) \<Rightarrow> (rbind (page_of db snap opts items out (w', b')) (\<lambda>p. Inr (Some p)), (w', b'))))"

definition list_tree :: "nat \<Rightarrow> gix \<Rightarrow> 'w odb \<Rightarrow> snapshot \<Rightarrow> tree_options \<Rightarrow> ('w, tree_page option) op" where
  "list_tree fuel G db snap opts =
    sbind (slift (ensure_query_compatible db snap)) (\<lambda>_.
    sbind (slift (validate_path (to_path opts))) (\<lambda>_.
    if to_limit opts = 0 then sraise (err_new InvalidArgument ''tree page limit must be greater than zero'')
    else sbind (slift (resume_of snap opts)) (\<lambda>resume.
    sbind (resolve_path G db snap (to_path opts)) (\<lambda>resolved.
    sbind (slift (listed_tree resolved)) (\<lambda>tree.
    walk_page fuel G db snap opts resume tree)))))"

end
