(* ===== verification/TreeWalk.thy ===== *)
theory TreeWalk
  imports Tree
begin

text \<open>
  Correctness of the tree queries: what a listing should contain, that the walk with its
  explicit stack lists a prefix of it under any filter, limit and budget, that the bound on
  its steps is enough, that listing and path resolution agree, and how pages join.
\<close>

section \<open>What a walk should list\<close>

text \<open>
  The entries of a tree as the store holds it, and the listing of a tree in the order of a
  depth-first walk: an entry comes before the entries below it.
\<close>

definition entries_at :: "gix \<Rightarrow> hash_kind \<Rightarrow> (oid \<Rightarrow> object_read) \<Rightarrow> oid \<Rightarrow> owned_entry list option" where
  "entries_at G hk m x = (case entries_of_read G hk x (m x) of Inr es \<Rightarrow> Some es | Inl _ \<Rightarrow> None)"

inductive walk_list :: "(oid \<Rightarrow> owned_entry list option) \<Rightarrow> (bytes \<Rightarrow> u32 \<Rightarrow> owned_entry \<Rightarrow> bool)
    \<Rightarrow> bytes \<Rightarrow> u32 \<Rightarrow> owned_entry list \<Rightarrow> (bytes \<times> owned_entry) list \<Rightarrow> bool"
  for ents and down where
  walk_nil: "walk_list ents down pre d [] []"
| walk_leaf: "\<not> down (join_path pre (oe_name e)) d e \<Longrightarrow> walk_list ents down pre d es xs \<Longrightarrow>
    walk_list ents down pre d (e # es) ((join_path pre (oe_name e), e) # xs)"
| walk_down: "down (join_path pre (oe_name e)) d e \<Longrightarrow> ents (oe_oid e) = Some sub \<Longrightarrow>
    walk_list ents down (join_path pre (oe_name e)) (sat_add d 1) sub ys \<Longrightarrow> walk_list ents down pre d es xs \<Longrightarrow>
    walk_list ents down pre d (e # es) ((join_path pre (oe_name e), e) # ys @ xs)"

inductive_cases walk_list_NilE: "walk_list ents down pre d [] xs"
inductive_cases walk_list_ConsE: "walk_list ents down pre d (e # es) xs"

lemma walk_list_unique: "walk_list ents down pre d es xs \<Longrightarrow> walk_list ents down pre d es ys \<Longrightarrow> xs = ys"
proof (induction arbitrary: ys rule: walk_list.induct)
  case (walk_nil pre d)
  then show ?case by (auto elim: walk_list_NilE)
next
  case (walk_leaf pre e d es xs)
  from walk_leaf.prems show ?case using walk_leaf.hyps(1) walk_leaf.IH by (auto elim: walk_list_ConsE)
next
  case (walk_down pre e d sub ys0 es xs)
  from walk_down.prems walk_down.hyps(1,2) obtain ys1 xs1 where "ys = (join_path pre (oe_name e), e) # ys1 @ xs1"
    "walk_list ents down (join_path pre (oe_name e)) (sat_add d 1) sub ys1" "walk_list ents down pre d es xs1"
    by (auto elim: walk_list_ConsE)
  with walk_down.IH show ?case by blast
qed

text \<open>What the frames of the stack have left to list, the top first.\<close>

inductive stack_list :: "(oid \<Rightarrow> owned_entry list option) \<Rightarrow> (bytes \<Rightarrow> u32 \<Rightarrow> owned_entry \<Rightarrow> bool)
    \<Rightarrow> frame list \<Rightarrow> (bytes \<times> owned_entry) list \<Rightarrow> bool" for ents and down where
  stack_nil: "stack_list ents down [] []"
| stack_push: "walk_list ents down (fr_prefix f) (fr_depth f) (fr_entries f) xs \<Longrightarrow> stack_list ents down fs ys \<Longrightarrow>
    stack_list ents down (f # fs) (xs @ ys)"

inductive_cases stack_list_NilE: "stack_list ents down [] xs"
inductive_cases stack_list_ConsE: "stack_list ents down (f # fs) xs"

lemma stack_step:
  assumes "stack_list ents down (f # fs) xs" and "fr_entries f = e # rest"
  obtains (leaf) ys where "\<not> down (join_path (fr_prefix f) (oe_name e)) (fr_depth f) e"
    "xs = (join_path (fr_prefix f) (oe_name e), e) # ys" "stack_list ents down (f\<lparr>fr_entries := rest\<rparr> # fs) ys"
  | (down) sub ys where "down (join_path (fr_prefix f) (oe_name e)) (fr_depth f) e" "ents (oe_oid e) = Some sub"
    "xs = (join_path (fr_prefix f) (oe_name e), e) # ys"
    "stack_list ents down (\<lparr>fr_entries = sub, fr_prefix = join_path (fr_prefix f) (oe_name e),
        fr_depth = sat_add (fr_depth f) 1\<rparr> # f\<lparr>fr_entries := rest\<rparr> # fs) ys"
proof -
  from assms obtain us vs where split: "xs = us @ vs" "stack_list ents down fs vs"
    "walk_list ents down (fr_prefix f) (fr_depth f) (e # rest) us"
    by (auto elim: stack_list_ConsE)
  from split(3) show thesis
  proof (cases rule: walk_list.cases)
    case (walk_leaf ws)
    show thesis
      by (rule leaf [of "ws @ vs"]) (use walk_leaf split in \<open>auto intro: stack_push\<close>)
  next
    case (walk_down sub ws zs)
    show thesis
      using stack_push [of ents down "f\<lparr>fr_entries := rest\<rparr>" zs fs vs] walk_down split
        stack_push [of ents down "\<lparr>fr_entries = sub, fr_prefix = join_path (fr_prefix f) (oe_name e),
            fr_depth = sat_add (fr_depth f) 1\<rparr>" ws "f\<lparr>fr_entries := rest\<rparr> # fs" "zs @ vs"]
      by (intro down [of sub "ws @ zs @ vs"]) auto
  qed
qed

section \<open>One step of the walk\<close>

text \<open>A page item describes an entry of the listing; sizes are there exactly where they were asked for.\<close>

definition item_ok :: "tree_options \<Rightarrow> tree_item \<Rightarrow> bytes \<times> owned_entry \<Rightarrow> bool" where
  "item_ok opts i pe \<longleftrightarrow> ti_path i = fst pe \<and> ti_name i = oe_name (snd pe) \<and> ti_oid i = oe_oid (snd pe)
    \<and> ti_kind i = oe_kind (snd pe) \<and> ti_mode i = oe_mode (snd pe)
    \<and> (ti_size i \<noteq> None \<longleftrightarrow> to_include_size opts \<and> oe_kind (snd pe) \<in> {KBlob, KSymlink})"

lemma entry_size_answers:
  assumes "object_store db I admits"
  shows "answers I (\<lambda>sz. sz \<noteq> None \<longleftrightarrow> to_include_size opts \<and> oe_kind e \<in> {KBlob, KSymlink}) (entry_size db opts e)"
  unfolding entry_size_def
  by (auto intro!: answers_sbind [OF object_store.header_law [OF assms]] answers_sreturn answers_sraise
      split: option.splits)

lemma read_entries_answers:
  assumes "object_store db I (\<lambda>x v. v = m x)"
  shows "answers I (\<lambda>es. entries_at G (db_hash_kind db) m x = Some es) (read_tree_entries G db x)"
  unfolding read_tree_entries_def
  by (intro answers_sbind [OF object_store.find_law [OF assms]] answers_slift) (simp add: entries_at_def)

lemma read_entries_graph_answers:
  assumes "object_store db I (\<lambda>x v. v = m x)"
  shows "answers I (\<lambda>es. entries_at G (db_hash_kind db) m x = Some es) (read_tree_entries_graph G db x)"
  unfolding read_tree_entries_graph_def
  by (intro answers_sbind [OF object_store.find_graph_law [OF assms]] answers_slift) (simp add: entries_at_def)

lemma prefetch_answers:
  assumes "object_store db I admits"
  shows "answers I (\<lambda>_. True) (prefetch_children db es)"
  by (simp add: prefetch_children_def Let_def object_store.prefetch_law [OF assms] answers_sreturn)

lemma read_for_walk_answers:
  assumes "object_store db I (\<lambda>x v. v = m x)"
  shows "answers I (\<lambda>es. entries_at G (db_hash_kind db) m x = Some es) (read_tree_entries_for_walk G db x pf)"
  unfolding read_tree_entries_for_walk_def
  by (rule answers_sbind [OF read_entries_answers [OF assms]],
      rule answers_sbind [where Q = "\<lambda>_. True"])
     (simp_all add: prefetch_answers [OF assms] answers_sreturn)

lemma read_for_graph_walk_answers:
  assumes "object_store db I (\<lambda>x v. v = m x)"
  shows "answers I (\<lambda>es. entries_at G (db_hash_kind db) m x = Some es) (read_tree_entries_for_graph_walk G db x)"
  unfolding read_tree_entries_for_graph_walk_def
  by (rule answers_sbind [OF read_entries_graph_answers [OF assms]],
      rule answers_sbind [where Q = "\<lambda>_. True"])
     (simp_all add: prefetch_answers [OF assms] answers_sreturn)

lemma in_walk_run:
  assumes "answers I P m" and "I w" and "in_walk m ((items, w), b) = (r, s')"
  obtains w' b' where "s' = ((items, w'), b')" and "I w'" and "\<And>v. r = Inr v \<Longrightarrow> P v"
proof -
  obtain q w' b' where m: "m (w, b) = (q, (w', b'))" by (metis prod.collapse)
  with assms(3) have "r = q" "s' = ((items, w'), b')" by (auto simp: in_walk_def)
  with answers_run [OF assms(1,2) m] that show thesis by blast
qed

lemma emit_item_run:
  assumes "object_store db I admits" and "I w" and "emit_item db opts path e ((items, w), b) = (r, s')"
  obtains (pushed) i w' b' where "r = Inr ()" "s' = ((items @ [i], w'), b')" "I w'" "item_ok opts i (path, e)"
  | (failed) x w' b' where "r = Inl x" "s' = ((items, w'), b')" "I w'"
proof -
  obtain q b1 where charge: "charge_tree_entry b = (q, b1)" by fastforce
  obtain sz s2 where size: "in_walk (entry_size db opts e) ((items, w), b1) = (sz, s2)" by (metis surj_pair)
  obtain w2 b2 where s2: "s2 = ((items, w2), b2)" "I w2"
    "\<And>v. sz = Inr v \<Longrightarrow> (v \<noteq> None \<longleftrightarrow> to_include_size opts \<and> oe_kind e \<in> {KBlob, KSymlink})"
    using in_walk_run [OF entry_size_answers [OF assms(1)] assms(2) size] by blast
  show thesis
  proof (cases q)
    case (Inl x)
    with assms(2,3) charge show thesis
      by (intro failed [of x w b1]) (auto simp: emit_item_def sbind_def on_budget_def)
  next
    case q: (Inr u)
    show thesis
    proof (cases sz)
      case (Inl x)
      with assms(3) charge q size s2 show thesis
        by (intro failed [of x w2 b2]) (auto simp: emit_item_def sbind_def on_budget_def)
    next
      case (Inr v)
      with assms(3) charge q size s2 show thesis
        by (intro pushed [of "\<lparr>ti_path = path, ti_name = oe_name e, ti_oid = oe_oid e, ti_kind = oe_kind e,
               ti_mode = oe_mode e, ti_size = v\<rparr>" w2 b2])
           (auto simp: emit_item_def sbind_def on_budget_def push_item_def item_ok_def)
    qed
  qed
qed


section \<open>The whole walk\<close>

definition walk_post :: "('i \<Rightarrow> 'y \<Rightarrow> bool) \<Rightarrow> nat \<Rightarrow> 'i list \<Rightarrow> 'y list \<Rightarrow> bool
    \<Rightarrow> 'e + walk_outcome option \<Rightarrow> 'i list \<Rightarrow> bool" where
  "walk_post ok limit items ys enough r items' \<longleftrightarrow>
    (\<exists>new. items' = items @ new \<and> length items' \<le> limit \<and> length new \<le> length ys
      \<and> list_all2 ok new (take (length new) ys)
      \<and> (\<forall>out. r = Inr out \<longrightarrow> (case out of
            None \<Rightarrow> \<not> enough
          | Some Complete \<Rightarrow> length new = length ys
          | Some (Stopped l) \<Rightarrow> l = ''limit'' \<and> length items' = limit \<and> length new < length ys)))"

lemma walk_post_error: "length items \<le> limit \<Longrightarrow> walk_post ok limit items ys enough (Inl e) items"
  by (simp add: walk_post_def)

lemma walk_post_skip:
  "walk_post ok limit items ys enough r items' \<Longrightarrow> (enough' \<Longrightarrow> enough) \<Longrightarrow> walk_post ok limit items ys enough' r items'"
  by (auto simp: walk_post_def split: option.splits walk_outcome.splits)

lemma walk_post_emit:
  assumes "walk_post ok limit (items @ [i]) ys enough r items'" and "ok i y"
  shows "walk_post ok limit items (y # ys) enough r items'"
proof -
  from assms(1) obtain new where new: "items' = items @ i # new" "length items' \<le> limit" "length new \<le> length ys"
      "list_all2 ok new (take (length new) ys)"
      and out: "\<And>out. r = Inr out \<Longrightarrow> (case out of None \<Rightarrow> \<not> enough | Some Complete \<Rightarrow> length new = length ys
          | Some (Stopped l) \<Rightarrow> l = ''limit'' \<and> length items' = limit \<and> length new < length ys)"
    by (auto simp: walk_post_def)
  have "case out of None \<Rightarrow> \<not> enough | Some Complete \<Rightarrow> length (i # new) = length (y # ys)
      | Some (Stopped l) \<Rightarrow> l = ''limit'' \<and> length items' = limit \<and> length (i # new) < length (y # ys)"
    if "r = Inr out" for out
    using out [OF that] by (simp split: option.splits walk_outcome.splits)
  with new assms(2) show ?thesis unfolding walk_post_def by (intro exI [of _ "i # new"]) simp
qed

text \<open>The loop meets this for a bound on its steps; the lemmas below take it from one bound to the next.\<close>

definition walk_ok :: "gix \<Rightarrow> 'w odb \<Rightarrow> ('w \<Rightarrow> bool) \<Rightarrow> (oid \<Rightarrow> object_read) \<Rightarrow> tree_options \<Rightarrow> bytes \<Rightarrow> u32 \<Rightarrow> nat \<Rightarrow> bool" where
  "walk_ok G db I m opts resume max_depth fuel \<longleftrightarrow>
    (\<forall>fs xs items w b r items' w' b'.
      stack_list (entries_at G (db_hash_kind db) m) (should_descend opts max_depth) fs xs \<longrightarrow> I w
      \<longrightarrow> length items \<le> to_limit opts
      \<longrightarrow> walk_loop G db opts resume max_depth fuel fs ((items, w), b) = (r, ((items', w'), b'))
      \<longrightarrow> I w' \<and> walk_post (item_ok opts) (to_limit opts) items
        (filter (\<lambda>(p, e). should_emit G opts resume p e) xs) (2 * length xs + length fs \<le> fuel) r items')"

lemma walk_okD:
  assumes "walk_ok G db I m opts resume max_depth fuel"
    and "stack_list (entries_at G (db_hash_kind db) m) (should_descend opts max_depth) fs xs" and "I w"
    and "length items \<le> to_limit opts"
    and "walk_loop G db opts resume max_depth fuel fs ((items, w), b) = (r, ((items', w'), b'))"
    and "enough \<Longrightarrow> 2 * length xs + length fs \<le> fuel"
  shows "I w' \<and> walk_post (item_ok opts) (to_limit opts) items
      (filter (\<lambda>(p, e). should_emit G opts resume p e) xs) enough r items'"
  using assms(1) [unfolded walk_ok_def, rule_format, OF assms(2-5)] assms(6) by (blast intro: walk_post_skip)

text \<open>After an entry has been listed: the walk descends into it or goes on beside it.\<close>

lemma walk_after_entry:
  assumes store: "object_store db I (\<lambda>x v. v = m x)" and ok: "walk_ok G db I m opts resume max_depth fuel"
    and stack: "stack_list (entries_at G (db_hash_kind db) m) (should_descend opts max_depth) (f # fs) ((path, e) # ys)"
    and f: "fr_entries f = e # rest" and w: "I w" and items: "length items \<le> to_limit opts"
    and path: "path = join_path (fr_prefix f) (oe_name e)"
    and run: "(if should_descend opts max_depth path (fr_depth f) e then
          sbind (in_walk (read_tree_entries_for_walk G db (oe_oid e) (to_recursive opts))) (\<lambda>es.
          walk_loop G db opts resume max_depth fuel
            (\<lparr>fr_entries = es, fr_prefix = path, fr_depth = sat_add (fr_depth f) 1\<rparr> # f\<lparr>fr_entries := rest\<rparr> # fs))
        else walk_loop G db opts resume max_depth fuel (f\<lparr>fr_entries := rest\<rparr> # fs)) ((items, w), b)
      = (r, ((items', w'), b'))"
  shows "I w' \<and> walk_post (item_ok opts) (to_limit opts) items (filter (\<lambda>(p, e). should_emit G opts resume p e) ys)
      (2 * length ys + length fs + 2 \<le> fuel) r items'"
  using stack f
proof (cases rule: stack_step)
  case (leaf zs)
  with run path have "walk_loop G db opts resume max_depth fuel (f\<lparr>fr_entries := rest\<rparr> # fs) ((items, w), b)
      = (r, ((items', w'), b'))" by simp
  from walk_okD [OF ok leaf(3) w items this] leaf(2) show ?thesis by simp
next
  case (down sub zs)
  let ?rd = "read_tree_entries_for_walk G db (oe_oid e) (to_recursive opts)"
  obtain a s2 where read: "in_walk ?rd ((items, w), b) = (a, s2)" by (metis surj_pair)
  obtain w2 b3 where s2: "s2 = ((items, w2), b3)" "I w2"
    "\<And>es. a = Inr es \<Longrightarrow> entries_at G (db_hash_kind db) m (oe_oid e) = Some es"
    using in_walk_run [OF read_for_walk_answers [OF store] w read] by blast
  show ?thesis
  proof (cases a)
    case (Inl x)
    with run path down(1) read s2 items show ?thesis by (auto simp: sbind_def intro!: walk_post_error)
  next
    case (Inr es)
    with s2(3) down(2) have "es = sub" by simp
    with run path down(1) read s2(1) Inr have "walk_loop G db opts resume max_depth fuel
        (\<lparr>fr_entries = sub, fr_prefix = join_path (fr_prefix f) (oe_name e), fr_depth = sat_add (fr_depth f) 1\<rparr>
          # f\<lparr>fr_entries := rest\<rparr> # fs) ((items, w2), b3) = (r, ((items', w'), b'))"
      by (simp add: sbind_def)
    from walk_okD [OF ok down(4) s2(2) items this] down(3) show ?thesis by simp
  qed
qed

text \<open>One entry: it stops the page, or it is listed when it is selected, and the walk goes on.\<close>

lemma walk_entry:
  assumes store: "object_store db I (\<lambda>x v. v = m x)" and ok: "walk_ok G db I m opts resume max_depth fuel"
    and stack: "stack_list (entries_at G (db_hash_kind db) m) (should_descend opts max_depth) (f # fs) xs"
    and f: "fr_entries f = e # rest" and w: "I w" and items: "length items \<le> to_limit opts"
    and chk: "check b = (Inr (), b1)"
    and run: "walk_loop G db opts resume max_depth (Suc fuel) (f # fs) ((items, w), b) = (r, ((items', w'), b'))"
  shows "I w' \<and> walk_post (item_ok opts) (to_limit opts) items (filter (\<lambda>(p, e). should_emit G opts resume p e) xs)
      (2 * length xs + length fs \<le> fuel) r items'"
proof -
  let ?path = "join_path (fr_prefix f) (oe_name e)"
  let ?em = "should_emit G opts resume ?path e"
  obtain ys where xs: "xs = (?path, e) # ys" using stack_step [OF stack f] by metis
  note after = walk_after_entry [OF store ok stack [unfolded xs] f _ _ refl]
  consider (stop) "?em" "length items = to_limit opts" | (emit) "?em" "length items < to_limit opts" | (pass) "\<not> ?em"
    using items by linarith
  then show ?thesis
  proof cases
    case stop
    with run chk f have "r = Inr (Some (Stopped ''limit''))" "items' = items" "w' = w"
      by (auto simp: sbind_def on_budget_def item_count_def Let_def sreturn_def)
    with stop xs w show ?thesis by (auto simp: walk_post_def)
  next
    case pass
    from run chk f pass after [OF w items, of b1] xs show ?thesis
      by (simp add: sbind_def on_budget_def item_count_def Let_def sreturn_def)
  next
    case emit
    obtain a s2 where push: "emit_item db opts ?path e ((items, w), b1) = (a, s2)" by (metis surj_pair)
    from store w push show ?thesis
    proof (cases rule: emit_item_run)
      case (pushed i w1 b2)
      have "length (items @ [i]) \<le> to_limit opts" using emit(2) by simp
      from run chk f emit push pushed(1,2) after [OF pushed(3) this, of b2]
      have "I w' \<and> walk_post (item_ok opts) (to_limit opts) (items @ [i])
          (filter (\<lambda>(p, e). should_emit G opts resume p e) ys) (2 * length ys + length fs + 2 \<le> fuel) r items'"
        by (simp add: sbind_def on_budget_def item_count_def Let_def)
      with walk_post_emit [where ok = "item_ok opts" and i = i and y = "(?path, e)"] pushed(4) emit(1) xs
      show ?thesis by auto
    next
      case (failed x w1 b2)
      with run chk f emit push items show ?thesis
        by (auto simp: sbind_def on_budget_def item_count_def Let_def intro!: walk_post_error)
    qed
  qed
qed

lemma walk_loop_ok:
  assumes store: "object_store db I (\<lambda>x v. v = m x)"
  shows "walk_ok G db I m opts resume max_depth fuel"
proof (induction fuel)
  case 0
  have "I w' \<and> walk_post (item_ok opts) (to_limit opts) items
        (filter (\<lambda>(p, e). should_emit G opts resume p e) xs) (2 * length xs + length fs \<le> 0) r items'"
    if "stack_list (entries_at G (db_hash_kind db) m) (should_descend opts max_depth) fs xs" "I w"
      "length items \<le> to_limit opts"
      "walk_loop G db opts resume max_depth 0 fs ((items, w), b) = (r, ((items', w'), b'))"
    for fs xs items w b r items' w' b'
    using that by (cases fs) (auto simp: walk_post_def sreturn_def elim: stack_list_NilE)
  then show ?case unfolding walk_ok_def by blast
next
  case (Suc fuel)
  have "I w' \<and> walk_post (item_ok opts) (to_limit opts) items
        (filter (\<lambda>(p, e). should_emit G opts resume p e) xs) (2 * length xs + length fs \<le> Suc fuel) r items'"
    if stack: "stack_list (entries_at G (db_hash_kind db) m) (should_descend opts max_depth) fs xs" and w: "I w"
      and items: "length items \<le> to_limit opts"
      and run: "walk_loop G db opts resume max_depth (Suc fuel) fs ((items, w), b) = (r, ((items', w'), b'))"
    for fs xs items w b r items' w' b'
  proof (cases fs)
    case Nil
    with that show ?thesis by (auto simp: walk_post_def sreturn_def elim: stack_list_NilE)
  next
    case (Cons f fs')
    obtain q b1 where chk: "check b = (q, b1)" by fastforce
    show ?thesis
    proof (cases q)
      case (Inl x)
      with run chk w items Cons show ?thesis by (auto simp: sbind_def on_budget_def intro!: walk_post_error)
    next
      case q: (Inr u)
      show ?thesis
      proof (cases "fr_entries f")
        case Nil
        with stack have st: "stack_list (entries_at G (db_hash_kind db) m) (should_descend opts max_depth) fs' xs"
          unfolding Cons by (auto elim!: stack_list_ConsE walk_list_NilE)
        have "walk_loop G db opts resume max_depth fuel fs' ((items, w), b1) = (r, ((items', w'), b'))"
          using run chk q Nil Cons by (simp add: sbind_def on_budget_def)
        from walk_okD [OF Suc.IH st w items this] Cons show ?thesis by simp
      next
        case entry: (Cons e rest)
        from walk_entry [OF store Suc.IH stack [unfolded Cons] entry w items _ run [unfolded Cons], of b1] chk q Cons
        show ?thesis by simp
      qed
    qed
  qed
  then show ?case unfolding walk_ok_def by blast
qed


section \<open>Resolving a path\<close>

text \<open>Which entry a sequence of names leads to from a tree.\<close>

inductive leads_to :: "(oid \<Rightarrow> owned_entry list option) \<Rightarrow> oid \<Rightarrow> bytes list \<Rightarrow> owned_entry \<Rightarrow> bool" for ents where
  leads_here: "ents t = Some es \<Longrightarrow> find (\<lambda>e. oe_name e = s) es = Some e \<Longrightarrow> leads_to ents t [s] e"
| leads_below: "ents t = Some es \<Longrightarrow> find (\<lambda>e. oe_name e = s) es = Some e \<Longrightarrow> oe_kind e = KTree \<Longrightarrow>
    leads_to ents (oe_oid e) ss e' \<Longrightarrow> leads_to ents t (s # ss) e'"

inductive_cases leads_to_ConsE: "leads_to ents t (s # ss) e"
inductive_cases leads_to_NilE: "leads_to ents t [] e"

definition resolved_of :: "owned_entry \<Rightarrow> resolved_path" where
  "resolved_of e = Entry \<lparr>re_oid = oe_oid e, re_mode = oe_mode e, re_kind = oe_kind e\<rparr>"

lemma resolve_segments_answers:
  assumes "\<And>x. answers I (\<lambda>es. ents x = Some es) (rd x)"
  shows "answers I (\<lambda>p. \<exists>e. leads_to ents t ss e \<and> p = resolved_of e) (resolve_segments rd t ss)"
proof (induction ss arbitrary: t)
  case Nil
  show ?case by (simp add: answers_sraise)
next
  case (Cons s ss)
  have "answers I (\<lambda>p. \<exists>e. leads_to ents t (s # ss) e \<and> p = resolved_of e)
      (case find (\<lambda>e. oe_name e = s) es of None \<Rightarrow> sraise path_not_found
       | Some e \<Rightarrow> if ss = [] then sreturn (Entry \<lparr>re_oid = oe_oid e, re_mode = oe_mode e, re_kind = oe_kind e\<rparr>)
          else if oe_kind e \<noteq> KTree then sraise path_not_found else resolve_segments rd (oe_oid e) ss)"
    if "ents t = Some es" for es
  proof (cases "find (\<lambda>e. oe_name e = s) es")
    case None
    then show ?thesis by (simp add: answers_sraise)
  next
    case (Some e)
    with that have here: "leads_to ents t [s] e" by (rule leads_here)
    have below: "leads_to ents t (s # ss) e'" if "oe_kind e = KTree" "leads_to ents (oe_oid e) ss e'" for e'
      using leads_below [where ents = ents and s = s and e = e, OF \<open>ents t = Some es\<close> Some] that by blast
    from Some here show ?thesis
      by (auto intro!: answers_sraise answers_sreturn answers_conseq [OF Cons.IH] simp: resolved_of_def dest: below)
  qed
  with assms show ?case by (auto intro: answers_sbind)
qed

definition resolves :: "(oid \<Rightarrow> owned_entry list option) \<Rightarrow> snapshot \<Rightarrow> bytes \<Rightarrow> resolved_path \<Rightarrow> bool" where
  "resolves ents snap path p \<longleftrightarrow>
    (if path = [] then p = RootTree (tree_oid snap)
     else \<exists>e. leads_to ents (tree_oid snap) (split_on 47 path) e \<and> p = resolved_of e)"

lemma resolve_path_answers:
  assumes "object_store db I (\<lambda>x v. v = m x)"
  shows "answers I (resolves (entries_at G (db_hash_kind db) m) snap path) (resolve_path G db snap path)"
    and "answers I (resolves (entries_at G (db_hash_kind db) m) snap path) (resolve_path_for_graph_walk G db snap path)"
proof -
  let ?ents = "entries_at G (db_hash_kind db) m"
  note segments = resolve_segments_answers [where ents = ?ents and I = I]
  have walk: "answers I (resolves ?ents snap path)
      (sbind (slift (validate_path path)) (\<lambda>_. if path = [] then sreturn (RootTree (tree_oid snap))
        else resolve_segments rd (tree_oid snap) (split_on 47 path)))"
    if "\<And>x. answers I (\<lambda>es. ?ents x = Some es) (rd x)" for rd
    using answers_conseq [OF segments [OF that], where P = "resolves ?ents snap path" and t1 = "tree_oid snap"
        and ss1 = "split_on 47 path"]
    by (intro answers_sbind [OF answers_slift [where P = "\<lambda>_. True"]])
       (auto simp: resolves_def intro!: answers_sreturn)
  from walk [OF read_entries_answers [OF assms]] walk [OF read_entries_graph_answers [OF assms]]
  show "answers I (resolves ?ents snap path) (resolve_path G db snap path)"
    and "answers I (resolves ?ents snap path) (resolve_path_for_graph_walk G db snap path)"
    by (simp_all add: resolve_path_def resolve_path_for_graph_walk_def)
qed

lemma leads_to_Nil [simp]: "\<not> leads_to ents t [] e"
  by (auto elim: leads_to_NilE)

lemma leads_to_Cons: "leads_to ents t (s # ss) e \<longleftrightarrow>
    (\<exists>es e'. ents t = Some es \<and> find (\<lambda>e. oe_name e = s) es = Some e'
      \<and> (if ss = [] then e = e' else oe_kind e' = KTree \<and> leads_to ents (oe_oid e') ss e))"
proof
  assume "leads_to ents t (s # ss) e"
  then show "\<exists>es e'. ents t = Some es \<and> find (\<lambda>e. oe_name e = s) es = Some e'
      \<and> (if ss = [] then e = e' else oe_kind e' = KTree \<and> leads_to ents (oe_oid e') ss e)"
    by (cases rule: leads_to.cases) auto
qed (auto intro: leads_to.intros split: if_splits)

lemma leads_to_unique: "leads_to ents t ss e \<Longrightarrow> leads_to ents t ss e' \<Longrightarrow> e = e'"
  by (induction ss arbitrary: t) (auto simp: leads_to_Cons split: if_splits)


section \<open>Pages\<close>

definition scope_tree :: "(oid \<Rightarrow> owned_entry list option) \<Rightarrow> snapshot \<Rightarrow> bytes \<Rightarrow> oid \<Rightarrow> bool" where
  "scope_tree ents snap path t \<longleftrightarrow>
    (if path = [] then t = tree_oid snap
     else \<exists>e. leads_to ents (tree_oid snap) (split_on 47 path) e \<and> oe_kind e = KTree \<and> t = oe_oid e)"

definition listing :: "(oid \<Rightarrow> owned_entry list option) \<Rightarrow> tree_options \<Rightarrow> oid \<Rightarrow> (bytes \<times> owned_entry) list \<Rightarrow> bool" where
  "listing ents opts t xs \<longleftrightarrow>
    (if max_depth_of opts = 0 then xs = []
     else \<exists>es. ents t = Some es \<and> walk_list ents (should_descend opts (max_depth_of opts)) (to_path opts) 1 es xs)"

definition selection :: "gix \<Rightarrow> tree_options \<Rightarrow> bytes \<Rightarrow> (bytes \<times> owned_entry) list \<Rightarrow> (bytes \<times> owned_entry) list" where
  "selection G opts resume xs = filter (\<lambda>(p, e). should_emit G opts resume p e) xs"

lemma scope_tree_unique: "scope_tree ents snap path t \<Longrightarrow> scope_tree ents snap path t' \<Longrightarrow> t = t'"
  by (auto simp: scope_tree_def dest: leads_to_unique split: if_splits)

lemma page_walk_post:
  assumes store: "object_store db I (\<lambda>x v. v = m x)" and w: "I w"
    and list: "listing (entries_at G (db_hash_kind db) m) opts t xs"
    and run: "page_walk fuel G db opts resume t (([], w), b) = (r, ((items, w'), b'))"
  shows "I w' \<and> walk_post (item_ok opts) (to_limit opts) [] (selection G opts resume xs) (2 * length xs + 1 \<le> fuel) r items"
proof (cases "max_depth_of opts = 0")
  case True
  with run list w show ?thesis
    by (auto simp: page_walk_def listing_def sreturn_def walk_post_def selection_def)
next
  case False
  let ?ents = "entries_at G (db_hash_kind db) m" and ?down = "should_descend opts (max_depth_of opts)"
  from list False obtain es where es: "?ents t = Some es" "walk_list ?ents ?down (to_path opts) 1 es xs"
    by (auto simp: listing_def)
  obtain a s1 where read: "in_walk (read_tree_entries_for_walk G db t (to_recursive opts)) (([], w), b) = (a, s1)"
    by (metis surj_pair)
  obtain w1 b1 where s1: "s1 = (([], w1), b1)" "I w1" "\<And>es. a = Inr es \<Longrightarrow> ?ents t = Some es"
    using in_walk_run [OF read_for_walk_answers [OF store] w read] by blast
  show ?thesis
  proof (cases a)
    case (Inl e)
    with run read s1 False show ?thesis
      by (auto simp: page_walk_def walk_tree_def sbind_def intro!: walk_post_error)
  next
    case (Inr es')
    with s1(3) es(1) have "es' = es" by simp
    let ?f = "\<lparr>fr_entries = es, fr_prefix = to_path opts, fr_depth = 1\<rparr>"
    have stack: "stack_list ?ents ?down [?f] xs"
      using stack_push [of ?ents ?down ?f xs "[]" "[]"] es(2) stack_nil by simp
    from run read s1(1) False Inr \<open>es' = es\<close>
    have "walk_loop G db opts resume (max_depth_of opts) fuel [?f] (([], w1), b1) = (r, ((items, w'), b'))"
      by (simp add: page_walk_def walk_tree_def sbind_def)
    from walk_okD [OF walk_loop_ok [OF store] stack s1(2) _ this] show ?thesis by (simp add: selection_def)
  qed
qed

lemma list_tree_steps:
  assumes store: "object_store db I (\<lambda>x v. v = m x)" and w: "I w"
    and run: "list_tree fuel G db snap opts (w, b) = (Inr p, s')"
  obtains resume t w1 b1 r items w2 b2 where "resume_of snap opts = Inr resume"
    and "scope_tree (entries_at G (db_hash_kind db) m) snap (to_path opts) t" and "I w1"
    and "page_walk fuel G db opts resume t (([], w1), b1) = (r, ((items, w2), b2))"
    and "(case walk_result r of Inl e \<Rightarrow> Inl e | Inr None \<Rightarrow> Inr None
      | Inr (Some out) \<Rightarrow> rbind (page_of db snap opts items out (w2, b2)) (\<lambda>p. Inr (Some p))) = Inr p"
proof -
  have "to_limit opts \<noteq> 0" using run by (auto simp: list_tree_def sr_inv split: if_splits)
  with run obtain resume resolved t s1 where resume: "resume_of snap opts = Inr resume"
    and res: "resolve_path G db snap (to_path opts) (w, b) = (Inr resolved, s1)"
    and t: "listed_tree resolved = Inr t" and page: "walk_page fuel G db snap opts resume t s1 = (Inr p, s')"
    by (simp add: list_tree_def sbind_Inr_iff slift_iff) metis
  obtain w1 b1 where s1: "s1 = (w1, b1)" by (cases s1)
  note found = answers_run [OF resolve_path_answers(1) [OF store] w res [unfolded s1]]
  from found(2) [OF refl] t have scope: "scope_tree (entries_at G (db_hash_kind db) m) snap (to_path opts) t"
    by (auto simp: resolves_def scope_tree_def listed_tree_def resolved_of_def split: if_splits)
  obtain r items w2 b2 where walk: "page_walk fuel G db opts resume t (([], w1), b1) = (r, ((items, w2), b2))"
    by (metis prod.collapse)
  from page walk have "(case walk_result r of Inl e \<Rightarrow> Inl e | Inr None \<Rightarrow> Inr None
      | Inr (Some out) \<Rightarrow> rbind (page_of db snap opts items out (w2, b2)) (\<lambda>p. Inr (Some p))) = Inr p"
    unfolding walk_page_def s1 by (auto split: sum.splits option.splits)
  with that resume scope found(1) walk show thesis by blast
qed

text \<open>What a page promises about the selected part of a listing.\<close>

definition page_shows :: "snapshot \<Rightarrow> tree_options \<Rightarrow> tree_page \<Rightarrow> (bytes \<times> owned_entry) list \<Rightarrow> bool" where
  "page_shows snap opts page sel \<longleftrightarrow>
    (let n = length (tp_entries page) in
     n \<le> to_limit opts \<and> n \<le> length sel \<and> list_all2 (item_ok opts) (tp_entries page) (take n sel)
     \<and> (\<not> tp_truncated page \<longrightarrow> n = length sel \<and> tp_next_cursor page = None)
     \<and> (tp_truncated page \<longrightarrow> 0 < n \<and> tp_next_cursor page = Some (encode
          \<lparr>cur_hash_kind = oid_kind (commit_oid snap), cur_snapshot_digest = as_bytes (commit_oid snap),
           cur_operation_tag = OPERATION_LIST_TREE, cur_option_fingerprint = option_fingerprint opts,
           cur_generation = [], cur_position = fst (sel ! (n - 1))\<rparr>)))"

lemma walk_result_Some:
  "walk_result r = Inr (Some out) \<longleftrightarrow> r = Inr (Some out)
    \<or> (\<exists>e. r = Inl e \<and> err_code e = BudgetExceeded \<and> err_limit e \<noteq> Some ''max_provider_requests''
        \<and> err_limit e \<noteq> Some ''max_provider_bytes''
        \<and> out = Stopped (case err_limit e of Some l \<Rightarrow> l | None \<Rightarrow> ''budget''))"
  by (cases r) (auto simp: walk_result_def)

lemma walk_post_page:
  assumes post: "walk_post (item_ok opts) (to_limit opts) [] sel enough r items"
    and out: "walk_result r = Inr (Some out)" and page: "page_of db snap opts items out s = Inr page"
  shows "page_shows snap opts page sel"
proof -
  let ?n = "length items"
  from post have items: "?n \<le> to_limit opts" "?n \<le> length sel" "list_all2 (item_ok opts) items (take ?n sel)"
    by (auto simp: walk_post_def)
  have full: "?n = length sel" if "out = Complete"
    using post out that by (auto simp: walk_post_def walk_result_Some)
  have last: "ti_path (last items) = fst (sel ! (?n - 1))" if "items \<noteq> []"
    using that items list_all2_nthD [OF items(3), of "?n - 1"] by (simp add: last_conv_nth item_ok_def)
  from page items full last show ?thesis
    by (cases out) (auto simp: page_of_def Let_def rbind_Inr_iff page_shows_def split: if_splits)
qed

lemma list_tree_page:
  assumes "object_store db I (\<lambda>x v. v = m x)" and "I w"
    and "list_tree fuel G db snap opts (w, b) = (Inr (Some page), s)"
    and "scope_tree (entries_at G (db_hash_kind db) m) snap (to_path opts) t"
    and "listing (entries_at G (db_hash_kind db) m) opts t xs"
  shows "\<exists>resume. resume_of snap opts = Inr resume \<and> page_shows snap opts page (selection G opts resume xs)"
proof -
  from assms(1-3) obtain resume t' w1 b1 r items w2 b2 where steps: "resume_of snap opts = Inr resume"
    "scope_tree (entries_at G (db_hash_kind db) m) snap (to_path opts) t'" "I w1"
    "page_walk fuel G db opts resume t' (([], w1), b1) = (r, ((items, w2), b2))"
    "(case walk_result r of Inl e \<Rightarrow> Inl e | Inr None \<Rightarrow> Inr None
      | Inr (Some out) \<Rightarrow> rbind (page_of db snap opts items out (w2, b2)) (\<lambda>p. Inr (Some p))) = Inr (Some page)"
    by (rule list_tree_steps)
  have "t' = t" using scope_tree_unique steps(2) assms(4) by blast
  from steps(5) obtain out where out: "walk_result r = Inr (Some out)" "page_of db snap opts items out (w2, b2) = Inr page"
    by (auto simp: rbind_Inr_iff split: sum.splits option.splits)
  from page_walk_post [OF assms(1) steps(3) assms(5) steps(4) [unfolded \<open>t' = t\<close>]] walk_post_page out steps(1)
  show ?thesis by blast
qed

text \<open>
  C12. A page of a tree listing shows the beginning of the selected entries: over a store that
  answers from fixed contents, the entries of a page are in order the first entries that the
  walk of the listed tree meets and the type filter, the pathspecs and the cursor position
  select, at most as many as the limit; a page that is not truncated shows all of them, and a
  truncated page is not empty and carries the cursor of its last entry.
\<close>

theorem list_tree_shows_selection:
  assumes "object_store db I (\<lambda>x v. v = m x)" and "I w"
    and "list_tree fuel G db snap opts (w, b) = (Inr (Some page), s)"
    and "scope_tree (entries_at G (db_hash_kind db) m) snap (to_path opts) t"
    and "listing (entries_at G (db_hash_kind db) m) opts t xs"
  shows "\<exists>resume. resume_of snap opts = Inr resume \<and> page_shows snap opts page (selection G opts resume xs)"
  using assms by (rule list_tree_page)

text \<open>
  The tree walk ends: a bound of twice the listed entries and one more steps is enough for
  the query to return.
\<close>

theorem list_tree_terminates:
  assumes "object_store db I (\<lambda>x v. v = m x)" and "I w"
    and "list_tree fuel G db snap opts (w, b) = (Inr p, s)"
    and "scope_tree (entries_at G (db_hash_kind db) m) snap (to_path opts) t"
    and "listing (entries_at G (db_hash_kind db) m) opts t xs" and "2 * length xs + 1 \<le> fuel"
  shows "p \<noteq> None"
proof -
  from assms(1-3) obtain resume t' w1 b1 r items w2 b2 where steps: "resume_of snap opts = Inr resume"
    "scope_tree (entries_at G (db_hash_kind db) m) snap (to_path opts) t'" "I w1"
    "page_walk fuel G db opts resume t' (([], w1), b1) = (r, ((items, w2), b2))"
    "(case walk_result r of Inl e \<Rightarrow> Inl e | Inr None \<Rightarrow> Inr None
      | Inr (Some out) \<Rightarrow> rbind (page_of db snap opts items out (w2, b2)) (\<lambda>p. Inr (Some p))) = Inr p"
    by (rule list_tree_steps)
  have "t' = t" using scope_tree_unique steps(2) assms(4) by blast
  from page_walk_post [OF assms(1) steps(3) assms(5) steps(4) [unfolded \<open>t' = t\<close>]] assms(6)
  have "r \<noteq> Inr None" by (auto simp: walk_post_def)
  with steps(5) show ?thesis
    by (auto simp: walk_result_def rbind_Inr_iff split: sum.splits option.splits if_splits)
qed

end
