(* ===== verification/TreeAnswers.thy ===== *)
theory TreeAnswers
  imports TreeWalk
begin

text \<open>
  Tree queries that answer, pages that join, and listing against resolution: without
  ceilings the queries over a complete in-memory store return, consecutive pages of a listing
  in byte order lose and repeat nothing, and resolving a listed path finds the listed entry.
\<close>
section \<open>Tree queries answer\<close>

text \<open>Every object of the store uses its hash kind, as in a store that was loaded.\<close>

definition uniform :: "static_odb \<Rightarrow> bool" where
  "uniform so \<longleftrightarrow> (\<forall>x v. so_objects so x = Some v \<longrightarrow> oid_kind x = so_hash so)"

abbreviation static_entries :: "gix \<Rightarrow> static_odb \<Rightarrow> oid \<Rightarrow> owned_entry list option" where
  "static_entries G so \<equiv> entries_at G (so_hash so) (so_objects so)"

lemma yields_entries:
  assumes "uniform so" and "static_entries G so x = Some es"
  shows "yields (read_tree_entries G (static_db so) x) es"
proof -
  from assms(2) have es: "entries_of_read G (so_hash so) x (so_objects so x) = Inr es"
    by (simp add: entries_at_def split: sum.splits)
  then obtain v where "so_objects so x = Some v" by (cases "so_objects so x") (auto simp: entries_of_read_def)
  with assms(1) have "oid_kind x = so_hash so" by (simp add: uniform_def)
  with es show ?thesis
    unfolding read_tree_entries_def by (intro yields_sbind [OF yields_static_find] yields_slift) simp_all
qed

lemma yields_entries_for_walk:
  "uniform so \<Longrightarrow> static_entries G so x = Some es \<Longrightarrow> yields (read_tree_entries_for_walk G (static_db so) x pf) es"
  unfolding read_tree_entries_for_walk_def
  by (auto intro!: yields_sbind [OF yields_entries] yields_sbind [OF yields_sreturn] yields_sreturn)

lemma yields_segments:
  assumes "uniform so" and "leads_to (static_entries G so) t ss e"
  shows "yields (resolve_segments (read_tree_entries G (static_db so)) t ss) (resolved_of e)"
  using assms(2)
proof (induction rule: leads_to.induct)
  case (leads_here t es s e)
  then show ?case
    by (auto simp: resolved_of_def intro!: yields_sbind [OF yields_entries [OF assms(1)]] yields_sreturn)
next
  case (leads_below t es s e ss e')
  then have "ss \<noteq> []" by auto
  with leads_below show ?case by (auto intro!: yields_sbind [OF yields_entries [OF assms(1)]])
qed

text \<open>Sizes can be reported where they are asked for.\<close>

definition sizes_known :: "static_odb \<Rightarrow> tree_options \<Rightarrow> (bytes \<times> owned_entry) list \<Rightarrow> bool" where
  "sizes_known so opts xs \<longleftrightarrow> (\<forall>(p, e) \<in> set xs. to_include_size opts \<and> oe_kind e \<in> {KBlob, KSymlink} \<longrightarrow>
     (\<exists>payload. so_objects so (oe_oid e) = Some (Blob, payload)))"

lemma yields_entry_size:
  assumes "uniform so" and "sizes_known so opts ((p, e) # xs)"
  shows "\<exists>size. yields (entry_size (static_db so) opts e) size"
proof (cases "to_include_size opts \<and> (oe_kind e = KBlob \<or> oe_kind e = KSymlink)")
  case True
  with assms(2) obtain payload where obj: "so_objects so (oe_oid e) = Some (Blob, payload)"
    by (auto simp: sizes_known_def)
  with assms(1) have "oid_kind (oe_oid e) = so_hash so" by (auto simp: uniform_def)
  with True obj show ?thesis
    by (intro exI [of _ "Some (byte_len payload)"])
       (auto simp: entry_size_def intro!: yields_sbind [OF yields_static_header] yields_sreturn)
next
  case False
  then show ?thesis by (intro exI [of _ None]) (auto simp: entry_size_def yields_sreturn)
qed

lemma in_walk_yields:
  assumes "yields m v" and "unlimited b"
  shows "\<exists>b'. in_walk m ((items, w), b) = (Inr v, ((items, w), b')) \<and> unlimited b'"
  using yields_run [OF assms, of w] by (auto simp: in_walk_def)


lemma emit_item_answers:
  assumes "uniform so" and "sizes_known so opts ((p, e) # xs)" and "unlimited b"
  shows "\<exists>i b'. emit_item (static_db so) opts p e ((items, w :: 'w), b) = (Inr (), ((items @ [i], w), b')) \<and> unlimited b'"
proof -
  obtain size where size: "yields (entry_size (static_db so :: 'w odb) opts e) size" using yields_entry_size [OF assms(1,2)] by blast
  from charge_tree_entry_unlimited [OF assms(3)] obtain b1 where b1: "charge_tree_entry b = (Inr (), b1)" "unlimited b1"
    by blast
  from in_walk_yields [OF size b1(2), of items w] b1(1) show ?thesis
    by (auto simp: emit_item_def sbind_def on_budget_def push_item_def)
qed

lemma walk_loop_answers:
  assumes "uniform so" and "stack_list (static_entries G so) (should_descend opts max_depth) fs xs"
    and "sizes_known so opts xs" and "unlimited b" and "2 * length xs + length fs \<le> fuel"
  shows "\<exists>out items' b'. walk_loop G (static_db so) opts resume max_depth fuel fs ((items, w), b)
    = (Inr (Some out), ((items', w), b')) \<and> unlimited b'"
  using assms(2-)
proof (induction fuel arbitrary: fs xs items b)
  case (0 fs xs items b)
  then show ?case by (cases fs) (auto simp: sreturn_def)
next
  case (Suc fuel fs xs items b)
  show ?case
  proof (cases fs)
    case Nil
    with Suc.prems show ?thesis by (auto simp: sreturn_def)
  next
    case (Cons f fs')
    let ?loop = "walk_loop G (static_db so) opts resume max_depth fuel"
    obtain b1 where chk: "check b = (Inr (), b1)" "unlimited b1" using check_unlimited [OF Suc.prems(3)] by blast
    show ?thesis
    proof (cases "fr_entries f")
      case Nil
      with Suc.prems(1) have st: "stack_list (static_entries G so) (should_descend opts max_depth) fs' xs"
        unfolding Cons by (auto elim!: stack_list_ConsE walk_list_NilE)
      from Suc.IH [OF st Suc.prems(2) chk(2)] Suc.prems(4) Nil Cons chk(1) show ?thesis
        by (simp add: sbind_def on_budget_def)
    next
      case entry: (Cons e rest)
      let ?path = "join_path (fr_prefix f) (oe_name e)" and ?top = "f\<lparr>fr_entries := rest\<rparr>"
      let ?em = "should_emit G opts resume ?path e"
      obtain ys where xs: "xs = (?path, e) # ys" using stack_step [OF Suc.prems(1) [unfolded Cons] entry] by metis
      have ys: "sizes_known so opts ys" using Suc.prems(2) by (simp add: xs sizes_known_def)
      let ?after = "if should_descend opts max_depth ?path (fr_depth f) e then
          sbind (in_walk (read_tree_entries_for_walk G (static_db so) (oe_oid e) (to_recursive opts))) (\<lambda>es.
          ?loop (\<lparr>fr_entries = es, fr_prefix = ?path, fr_depth = sat_add (fr_depth f) 1\<rparr> # ?top # fs'))
        else ?loop (?top # fs')"
      have after: "\<exists>out items' b'. ?after ((items1, w), b2) = (Inr (Some out), ((items', w), b')) \<and> unlimited b'"
        if "unlimited b2" for items1 b2
        using Suc.prems(1) [unfolded Cons] entry
      proof (cases rule: stack_step)
        case (leaf zs)
        from Suc.IH [OF leaf(3) _ that, of items1] ys Suc.prems(4) leaf(1,2) xs Cons show ?thesis by simp
      next
        case (down sub zs)
        from in_walk_yields [OF yields_entries_for_walk [OF assms(1) down(2)] that, of "to_recursive opts" items1 w]
        obtain b3 where b3: "in_walk (read_tree_entries_for_walk G (static_db so) (oe_oid e) (to_recursive opts)) ((items1, w), b2)
            = (Inr sub, ((items1, w), b3))" "unlimited b3" by blast
        from Suc.IH [OF down(4) _ b3(2), of items1] ys Suc.prems(4) down(1,3) xs Cons b3(1) show ?thesis
          by (simp add: sbind_def)
      qed
      have step: "walk_loop G (static_db so) opts resume max_depth (Suc fuel) fs ((items, w), b) =
          (if ?em \<and> length items = to_limit opts then (Inr (Some (Stopped ''limit'')), ((items, w), b1))
           else sbind (if ?em then emit_item (static_db so) opts ?path e else sreturn ()) (\<lambda>_. ?after) ((items, w), b1))"
        using chk(1) entry Cons by (simp add: sbind_def on_budget_def item_count_def Let_def sreturn_def)
      show ?thesis
      proof (cases "?em \<and> length items = to_limit opts")
        case True
        then show ?thesis unfolding step using chk(2) by auto
      next
        case False
        from emit_item_answers [OF assms(1) Suc.prems(2) [unfolded xs] chk(2), of items w] obtain i b2 where
          "emit_item (static_db so) opts ?path e ((items, w), b1) = (Inr (), ((items @ [i], w), b2))" "unlimited b2"
          by blast
        with after [of b2 "items @ [i]"] after [OF chk(2), of items] show ?thesis
          unfolding step using False by (auto simp: sbind_def sreturn_def)
      qed
    qed
  qed
qed


lemma list_all2_in_set1: "list_all2 P xs ys \<Longrightarrow> x \<in> set xs \<Longrightarrow> \<exists>y \<in> set ys. P x y"
  by (induction rule: list_all2_induct) auto

text \<open>A page is built unless it is truncated after a path too long for a cursor.\<close>

lemma page_of_cases:
  assumes "\<And>l. out = Stopped l \<Longrightarrow> items \<noteq> []"
  shows "case page_of db snap opts items out s of
      Inr page \<Rightarrow> True
    | Inl e \<Rightarrow> err_code e = ResultTooLarge \<and> (\<exists>l. out = Stopped l) \<and> 4000 < length (ti_path (last items))"
proof (cases out)
  case Complete
  then show ?thesis by (simp add: page_of_def)
next
  case (Stopped l)
  have "digest_len k \<le> 32" for k by (cases k) simp_all
  then have "length (as_bytes (commit_oid snap)) \<le> 32"
    by (cases "commit_oid snap") (simp add: as_bytes_def min.coboundedI2)
  with Stopped assms show ?thesis by (auto simp: page_of_def encode_def length_encode_body MAX_CURSOR_BYTES_def)
qed

lemma page_walk_answers:
  assumes "uniform so" and "listing (static_entries G so) opts t xs" and "sizes_known so opts xs" and "unlimited b"
    and "2 * length xs + 1 \<le> fuel"
  shows "\<exists>out items b'. page_walk fuel G (static_db so) opts resume t (([], w), b)
    = (Inr (Some out), ((items, w), b')) \<and> unlimited b'"
proof (cases "max_depth_of opts = 0")
  case True
  with assms(4) show ?thesis by (simp add: page_walk_def sreturn_def)
next
  case False
  let ?down = "should_descend opts (max_depth_of opts)"
  from assms(2) False obtain es where es: "static_entries G so t = Some es"
    "walk_list (static_entries G so) ?down (to_path opts) 1 es xs" by (auto simp: listing_def)
  let ?f = "\<lparr>fr_entries = es, fr_prefix = to_path opts, fr_depth = 1\<rparr>"
  have stack: "stack_list (static_entries G so) ?down [?f] xs"
    using stack_push [of "static_entries G so" ?down ?f xs "[]" "[]"] es(2) stack_nil by simp
  from in_walk_yields [OF yields_entries_for_walk [OF assms(1) es(1)] assms(4), of "to_recursive opts" "[]" w]
  obtain b1 where b1: "in_walk (read_tree_entries_for_walk G (static_db so) t (to_recursive opts)) (([], w), b)
      = (Inr es, (([], w), b1))" "unlimited b1" by blast
  from walk_loop_answers [OF assms(1) stack assms(3) b1(2), of fuel resume "[]" w] assms(5) b1(1) False show ?thesis
    by (simp add: page_walk_def walk_tree_def sbind_def)
qed

lemma yields_resolve_path:
  assumes "uniform so" and "validate_path path = Inr ()" and "scope_tree (static_entries G so) snap path t"
  shows "\<exists>r. yields (resolve_path G (static_db so) snap path) r \<and> listed_tree r = Inr t"
proof (cases "path = []")
  case True
  with assms(3) have "yields (resolve_path G (static_db so) snap path) (RootTree t)"
    unfolding resolve_path_def scope_tree_def
    by (intro yields_sbind [OF yields_slift [OF assms(2)]]) (simp add: yields_sreturn)
  then show ?thesis by (auto simp: listed_tree_def)
next
  case False
  with assms(3) obtain e where e: "leads_to (static_entries G so) (tree_oid snap) (split_on 47 path) e"
    "oe_kind e = KTree" "t = oe_oid e" by (auto simp: scope_tree_def)
  with False have "yields (resolve_path G (static_db so) snap path) (resolved_of e)"
    unfolding resolve_path_def
    by (intro yields_sbind [OF yields_slift [OF assms(2)]]) (simp add: yields_segments [OF assms(1)])
  with e show ?thesis by (auto simp: listed_tree_def resolved_of_def)
qed

lemma list_tree_answers_cases:
  assumes "uniform so" and "ensure_query_compatible (static_db so :: 'w odb) snap = Inr ()" and "validate_path (to_path opts) = Inr ()"
    and "0 < to_limit opts" and "resume_of snap opts = Inr resume"
    and "scope_tree (static_entries G so) snap (to_path opts) t" and "listing (static_entries G so) opts t xs"
    and "sizes_known so opts xs" and "unlimited b" and "2 * length xs + 1 \<le> fuel"
  shows "\<exists>r s. list_tree fuel G (static_db so) snap opts (w :: 'w, b) = (r, s)
    \<and> (case r of
          Inr p \<Rightarrow> \<exists>page. p = Some page \<and> page_shows snap opts page (selection G opts resume xs)
            \<and> (tp_truncated page \<longleftrightarrow> to_limit opts < length (selection G opts resume xs))
        | Inl e \<Rightarrow> err_code e = ResultTooLarge \<and> to_limit opts < length (selection G opts resume xs)
            \<and> 4000 < length (fst (selection G opts resume xs ! (to_limit opts - 1))))"
proof -
  obtain r where yr: "yields (resolve_path G (static_db so) snap (to_path opts) :: ('w, resolved_path) op) r" "listed_tree r = Inr t"
    using yields_resolve_path [OF assms(1,3,6)] by blast
  from yields_run [OF yr(1) assms(9), of w] yr(2) obtain b1 where
    r: "resolve_path G (static_db so) snap (to_path opts) (w, b) = (Inr r, (w, b1))" "unlimited b1" "listed_tree r = Inr t"
    by blast
  from page_walk_answers [OF assms(1,7,8) r(2) assms(10), of resume w] obtain out items b2 where
    walk: "page_walk fuel G (static_db so) opts resume t (([], w), b1) = (Inr (Some out), ((items, w), b2))" by blast
  let ?sel = "selection G opts resume xs" and ?page = "page_of (static_db so) snap opts items out (w, b2)"
  have post: "walk_post (item_ok opts) (to_limit opts) [] ?sel (2 * length xs + 1 \<le> fuel)
      (Inr (Some out) :: error + walk_outcome option) items"
    using page_walk_post [OF static_exact _ _ walk] assms(7) by simp
  have stopped: "items \<noteq> [] \<and> length items = to_limit opts \<and> to_limit opts < length ?sel" if "out = Stopped l" for l
    using post that assms(4) by (auto simp: walk_post_def)
  have last_path: "ti_path (last items) = fst (?sel ! (to_limit opts - 1))" if "out = Stopped l" for l
  proof -
    from post have "list_all2 (item_ok opts) items (take (length items) ?sel)" by (auto simp: walk_post_def)
    with stopped [OF that] assms(4) have "item_ok opts (items ! (to_limit opts - 1)) (?sel ! (to_limit opts - 1))"
      by (auto dest!: list_all2_nthD [where p = "to_limit opts - 1"])
    with stopped [OF that] show ?thesis by (simp add: item_ok_def last_conv_nth)
  qed
  have run: "list_tree fuel G (static_db so) snap opts (w, b) = (rbind ?page (\<lambda>p. Inr (Some p)), (w, b2))"
    using assms(2-5) r(1,3) walk
    by (simp add: list_tree_def walk_page_def sr_defs walk_result_def split: sum.split)
  show ?thesis
  proof (cases ?page)
    case (Inl e)
    with page_of_cases [of out items "static_db so" snap opts "(w, b2)"] stopped last_path show ?thesis
      by (auto simp: run rbind_def)
  next
    case (Inr page)
    have "page_shows snap opts page ?sel"
      using walk_post_page [OF post _ Inr] by (simp add: walk_result_def)
    moreover have "tp_truncated page \<longleftrightarrow> to_limit opts < length ?sel"
      using Inr post by (cases out) (auto simp: page_of_def Let_def rbind_Inr_iff walk_post_def split: if_splits)
    ultimately show ?thesis by (simp add: run Inr)
  qed
qed

lemma list_tree_answers_short:
  assumes "uniform so" and "ensure_query_compatible (static_db so :: 'w odb) snap = Inr ()" and "validate_path (to_path opts) = Inr ()"
    and "0 < to_limit opts" and "resume_of snap opts = Inr resume"
    and "scope_tree (static_entries G so) snap (to_path opts) t" and "listing (static_entries G so) opts t xs"
    and "sizes_known so opts xs" and "unlimited b" and "2 * length xs + 1 \<le> fuel"
    and "\<forall>(p, e) \<in> set xs. length p \<le> 4000"
  shows "\<exists>page s. list_tree fuel G (static_db so) snap opts (w :: 'w, b) = (Inr (Some page), s)
    \<and> page_shows snap opts page (selection G opts resume xs)
    \<and> (tp_truncated page \<longleftrightarrow> to_limit opts < length (selection G opts resume xs))"
proof -
  have short: "length (fst (selection G opts resume xs ! (to_limit opts - 1))) \<le> 4000" if "to_limit opts < length (selection G opts resume xs)"
  proof -
    have "selection G opts resume xs ! (to_limit opts - 1) \<in> set (selection G opts resume xs)" using that by simp
    then have "selection G opts resume xs ! (to_limit opts - 1) \<in> set xs" by (simp add: selection_def)
    with assms(11) show ?thesis by auto
  qed
  from list_tree_answers_cases [OF assms(1-10)] obtain r s where run: "list_tree fuel G (static_db so) snap opts (w, b) = (r, s)"
    "case r of
          Inr p \<Rightarrow> \<exists>page. p = Some page \<and> page_shows snap opts page (selection G opts resume xs)
            \<and> (tp_truncated page \<longleftrightarrow> to_limit opts < length (selection G opts resume xs))
        | Inl e \<Rightarrow> err_code e = ResultTooLarge \<and> to_limit opts < length (selection G opts resume xs)
            \<and> 4000 < length (fst (selection G opts resume xs ! (to_limit opts - 1)))" by blast
  with short show ?thesis by (cases r) auto
qed

text \<open>
  C14. The listing of a complete in-memory store answers. With no ceilings, a snapshot of the store's hash kind, a valid path that resolves to a tree, a positive limit,
  an accepted cursor, the sizes known where they are asked for, and twice the listed entries and one more steps, the query returns a page that shows the
  beginning of the selected entries and is truncated exactly when there are more of them than the limit. It fails only with \<open>ResultTooLarge\<close>, and only when there are
  more selected entries than the limit and the path of the last entry that fits is longer than 4000 bytes, too long for a cursor.
\<close>

theorem list_tree_answers:
  assumes "uniform so" and "ensure_query_compatible (static_db so :: 'w odb) snap = Inr ()" and "validate_path (to_path opts) = Inr ()"
    and "0 < to_limit opts" and "resume_of snap opts = Inr resume"
    and "scope_tree (static_entries G so) snap (to_path opts) t" and "listing (static_entries G so) opts t xs"
    and "sizes_known so opts xs" and "unlimited b" and "2 * length xs + 1 \<le> fuel"
  shows "\<exists>r s. list_tree fuel G (static_db so) snap opts (w :: 'w, b) = (r, s)
    \<and> (case r of
          Inr p \<Rightarrow> \<exists>page. p = Some page \<and> page_shows snap opts page (selection G opts resume xs)
            \<and> (tp_truncated page \<longleftrightarrow> to_limit opts < length (selection G opts resume xs))
        | Inl e \<Rightarrow> err_code e = ResultTooLarge \<and> to_limit opts < length (selection G opts resume xs)
            \<and> 4000 < length (fst (selection G opts resume xs ! (to_limit opts - 1))))"
  using assms by (rule list_tree_answers_cases)

section \<open>Joining pages\<close>

definition valid_name :: "bytes \<Rightarrow> bool" where
  "valid_name name \<longleftrightarrow> name \<noteq> [] \<and> 0 \<notin> set name \<and> 47 \<notin> set name \<and> \<not> dot_segment name"

lemma entries_at_names: "entries_at G hk m x = Some es \<Longrightarrow> e \<in> set es \<Longrightarrow> valid_name (oe_name e)"
proof -
  assume "entries_at G hk m x = Some es" and e: "e \<in> set es"
  then obtain payload where "collect_results (map owned_of (decode_tree G payload hk)) = Inr es"
    by (auto simp: entries_at_def entries_of_read_def decode_owned_tree_entries_def split: sum.splits option.splits if_splits)
  then have "Inr e \<in> set (map owned_of (decode_tree G payload hk))" using e by (simp add: collect_results_Inr)
  then obtain r where "owned_of r = Inr e" by auto
  then show ?thesis by (auto simp: owned_of_def rbind_Inr_iff validate_tree_name_def valid_name_def split: if_splits)
qed

lemma join_path_ne: "valid_name name \<Longrightarrow> join_path pre name \<noteq> []"
  by (auto simp: join_path_def valid_name_def)

lemma walk_list_names:
  assumes "\<And>x es e. ents x = Some es \<Longrightarrow> e \<in> set es \<Longrightarrow> valid_name (oe_name e)"
    and "walk_list ents down pre d es xs" and "\<forall>e \<in> set es. valid_name (oe_name e)" and "(p, e) \<in> set xs"
  shows "p \<noteq> [] \<and> valid_name (oe_name e)"
  using assms(2-)
proof (induction rule: walk_list.induct)
  case (walk_down pre e' d sub ys es xs)
  then show ?case using assms(1) join_path_ne by auto
qed (auto simp: join_path_ne)

lemma listing_names:
  assumes "listing (entries_at G hk m) opts t xs" and "(p, e) \<in> set xs"
  shows "p \<noteq> [] \<and> valid_name (oe_name e)"
  using assms walk_list_names [of "entries_at G hk m"] entries_at_names
  unfolding listing_def by (metis list.distinct(1) list.set_cases)

text \<open>A path is listed below a directory only when the walk descended into that directory.\<close>

lemma join_path_join: "valid_name name \<Longrightarrow> join_path (join_path pre name) s = join_path pre (name @ 47 # s)"
  by (auto simp: join_path_def valid_name_def)

lemma join_path_cancel [simp]: "join_path pre s = join_path pre t \<longleftrightarrow> s = t"
  by (simp add: join_path_def)

lemma walk_list_under:
  assumes "\<And>x es e. ents x = Some es \<Longrightarrow> e \<in> set es \<Longrightarrow> valid_name (oe_name e)"
    and "walk_list ents down pre d es xs" and "\<forall>e \<in> set es. valid_name (oe_name e)" and "(p, e) \<in> set xs"
  shows "\<exists>s. p = join_path pre s"
  using assms(2-)
proof (induction rule: walk_list.induct)
  case (walk_down pre e' d sub ys es xs)
  then show ?case using assms(1) join_path_join [of "oe_name e'"] by auto
qed auto

lemma no_slash: "valid_name name \<Longrightarrow> dir @ 47 # s \<noteq> name"
  by (auto simp: valid_name_def)

lemma walk_list_descends:
  assumes names: "\<And>x es e. ents x = Some es \<Longrightarrow> e \<in> set es \<Longrightarrow> valid_name (oe_name e)"
    and "walk_list ents down pre d es xs" and "\<forall>e \<in> set es. valid_name (oe_name e)" and "(join_path pre (dir @ 47 # s), e) \<in> set xs"
  shows "\<exists>d e. down (join_path pre dir) d e"
  using assms(2-)
proof (induction arbitrary: dir rule: walk_list.induct)
  case (walk_leaf pre e' d es xs)
  then have "dir @ 47 # s \<noteq> oe_name e'" using no_slash by auto
  with walk_leaf show ?case by simp
next
  case (walk_down pre e' d sub ys es xs)
  let ?name = "oe_name e'"
  have name: "valid_name ?name" and sub: "\<forall>e \<in> set sub. valid_name (oe_name e)" using walk_down.prems(1) walk_down.hyps(2) names by auto
  then have slash: "47 \<notin> set ?name" by (simp add: valid_name_def)
  from walk_down.prems(2) no_slash [OF name] consider "(join_path pre (dir @ 47 # s), e) \<in> set ys" | "(join_path pre (dir @ 47 # s), e) \<in> set xs"
    by auto
  then show ?case
  proof cases
    case 1
    from walk_list_under [OF _ walk_down.hyps(3) sub 1] names obtain t where "dir @ 47 # s = ?name @ 47 # t"
      unfolding join_path_join [OF name] join_path_cancel by blast
    with slash consider "dir = ?name" | u where "dir = ?name @ 47 # u"
      by (auto simp: append_eq_append_conv2 append_eq_Cons_conv Cons_eq_append_conv no_slash [OF name])
    then show ?thesis
    proof cases
      case 2
      with walk_down.IH(1) [OF sub, of u] 1 show ?thesis by (simp add: join_path_join [OF name])
    qed (use walk_down.hyps(1) in blast)
  next
    case 2
    with walk_down.IH(2) walk_down.prems(1) show ?thesis by simp
  qed
qed simp

lemma shown_listed:
  assumes "page_shows snap opts page (selection G opts resume xs)" and "i \<in> set (tp_entries page)"
  shows "\<exists>e. (ti_path i, e) \<in> set xs"
proof -
  from assms(1) have "list_all2 (item_ok opts) (tp_entries page) (take (length (tp_entries page)) (selection G opts resume xs))"
    by (simp add: page_shows_def Let_def)
  from list_all2_in_set1 [OF this assms(2)] obtain pe
    where "item_ok opts i pe" "pe \<in> set (take (length (tp_entries page)) (selection G opts resume xs))" by blast
  then have "ti_path i = fst pe" "pe \<in> set xs" by (auto simp: item_ok_def selection_def dest: in_set_takeD)
  then show ?thesis by (metis prod.collapse)
qed

lemma sorted_after:
  fixes f :: "'a \<Rightarrow> 'b::linorder"
  assumes "sorted_wrt (<) (map f ys)" and "0 < n" and "n \<le> length ys"
  shows "filter (\<lambda>y. f (ys ! (n - 1)) < f y) ys = drop n ys"
proof -
  let ?P = "\<lambda>y. f (ys ! (n - 1)) < f y"
  have "\<not> ?P y" if y: "y \<in> set (take n ys)" for y
  proof -
    from y obtain i where i: "i < n" "y = ys ! i" using assms(3) by (auto simp: in_set_conv_nth)
    then show ?thesis
      using sorted_wrt_nth_less [OF assms(1), of i "n - 1"] assms by (cases "i = n - 1") (auto simp: not_less less_imp_le)
  qed
  moreover have "?P y" if "y \<in> set (drop n ys)" for y
  proof -
    from that obtain i where "i < length ys - n" "y = ys ! (n + i)" by (auto simp: in_set_conv_nth)
    then show ?thesis using sorted_wrt_nth_less [OF assms(1), of "n - 1" "n + i"] assms by simp
  qed
  ultimately have "filter ?P (take n ys) = []" "filter ?P (drop n ys) = drop n ys"
    by (auto simp: filter_empty_conv filter_id_conv)
  then show ?thesis by (metis append_take_drop_id filter_append self_append_conv2)
qed

lemma selection_after:
  assumes "sorted_wrt (<) (map fst xs)" and "\<forall>(p, e) \<in> set xs. p \<noteq> []"
    and "0 < n" and "n \<le> length (selection G opts resume xs)"
  shows "selection G opts (fst (selection G opts resume xs ! (n - 1))) xs = drop n (selection G opts resume xs)"
proof -
  let ?sel = "selection G opts resume xs" and ?last = "fst (selection G opts resume xs ! (n - 1))"
  have "?sel ! (n - 1) \<in> set ?sel" using assms(3,4) by simp
  then have last: "?last \<noteq> []" "resume = [] \<or> resume < ?last"
    using assms(2) by (auto simp: selection_def should_emit_def)
  have "sorted_wrt (<) (map fst ?sel)"
    using assms(1) by (simp add: selection_def sorted_wrt_map sorted_wrt_filter)
  then have "filter (\<lambda>y. ?last < fst y) ?sel = drop n ?sel" using assms(3,4) by (rule sorted_after)
  moreover have "filter (\<lambda>y. ?last < fst y) ?sel = selection G opts ?last xs"
    using last unfolding selection_def filter_filter
    by (intro filter_cong) (auto simp: should_emit_def)
  ultimately show ?thesis by simp
qed


abbreviation page_cursor :: "snapshot \<Rightarrow> tree_options \<Rightarrow> bytes \<Rightarrow> cursor" where
  "page_cursor snap opts pos \<equiv> \<lparr>cur_hash_kind = oid_kind (commit_oid snap), cur_snapshot_digest = as_bytes (commit_oid snap),
     cur_operation_tag = OPERATION_LIST_TREE, cur_option_fingerprint = option_fingerprint opts,
     cur_generation = [], cur_position = pos\<rparr>"

text \<open>The options of the next page: the cursor of the last one, and any limit.\<close>

definition next_options :: "tree_options \<Rightarrow> bytes \<Rightarrow> nat \<Rightarrow> tree_options" where
  "next_options opts c limit = opts\<lparr>to_cursor := Some c, to_limit := limit\<rparr>"

lemma next_options_same [simp]:
  "option_fingerprint (next_options opts c l) = option_fingerprint opts"
  "to_path (next_options opts c l) = to_path opts" "max_depth_of (next_options opts c l) = max_depth_of opts"
  "should_descend (next_options opts c l) = should_descend opts"
  "should_emit G (next_options opts c l) = should_emit G opts"
  "item_ok (next_options opts c l) = item_ok opts" "selection G (next_options opts c l) = selection G opts"
  by (auto simp: next_options_def option_fingerprint_def max_depth_of_def should_descend_def should_emit_def
      item_ok_def selection_def fun_eq_iff)

lemma next_options_listing [simp]: "listing ents (next_options opts c l) t xs = listing ents opts t xs"
  by (simp add: listing_def)

lemma next_options_fields [simp]:
  "to_cursor (next_options opts c l) = Some c" "to_limit (next_options opts c l) = l"
  "to_types (next_options opts c l) = to_types opts" "to_pathspecs (next_options opts c l) = to_pathspecs opts"
  "to_include_size (next_options opts c l) = to_include_size opts"
  by (simp_all add: next_options_def)

lemma resume_of_next:
  assumes "resume_of snap (next_options opts (encode (page_cursor snap opts pos)) l) = Inr r"
  shows "r = pos"
proof -
  let ?c = "page_cursor snap opts pos"
  let ?e = "\<lparr>exp_hash_kind = oid_kind (commit_oid snap), exp_snapshot_digest = as_bytes (commit_oid snap),
    exp_operation_tag = OPERATION_LIST_TREE, exp_option_fingerprint = option_fingerprint opts\<rparr>"
  from assms obtain c where c: "decode (encode ?c) ?e = Inr c" "r = cur_position c"
    by (auto simp: resume_of_def rbind_Inr_iff split: if_splits)
  then have dec: "encode ?c = encode c" "cursor_wf c" "expects ?e c" by (simp_all add: decode_Inr)
  then have "cursor_wf ?c" "expects ?e ?c" by (auto simp: cursor_wf_def expects_def)
  then have "decode (encode ?c) ?e = Inr ?c" by (simp add: decode_Inr)
  with c(1) have "c = ?c" by simp
  with c(2) show ?thesis by simp
qed

text \<open>
  C13. Pages join: when the paths of a listing are in ascending byte order, the entries of a
  truncated page followed by the entries of the page its cursor leads to are together the
  beginning of the selected entries, with none lost and none repeated, whatever the limit of
  the second page; if the second page is not truncated they are all of them.
\<close>

theorem pages_join:
  assumes "object_store db I (\<lambda>x v. v = m x)" and "I w" and "I w'"
    and "list_tree fuel G db snap opts (w, b) = (Inr (Some p1), s1)" and "tp_next_cursor p1 = Some c"
    and "list_tree fuel' G db snap (next_options opts c l) (w', b') = (Inr (Some p2), s2)"
    and "scope_tree (entries_at G (db_hash_kind db) m) snap (to_path opts) t"
    and "listing (entries_at G (db_hash_kind db) m) opts t xs" and "sorted_wrt (<) (map fst xs)"
  shows "\<exists>resume. resume_of snap opts = Inr resume \<and>
    (let sel = selection G opts resume xs; joined = tp_entries p1 @ tp_entries p2 in
     list_all2 (item_ok opts) joined (take (length joined) sel) \<and> length joined \<le> length sel
     \<and> (\<not> tp_truncated p2 \<longrightarrow> length joined = length sel))"
proof -
  let ?n = "length (tp_entries p1)"
  obtain resume where r: "resume_of snap opts = Inr resume" "page_shows snap opts p1 (selection G opts resume xs)"
    using list_tree_page [OF assms(1,2,4,7,8)] by blast
  let ?sel = "selection G opts resume xs"
  from r(2) assms(5) have first: "0 < ?n" "?n \<le> length ?sel" "list_all2 (item_ok opts) (tp_entries p1) (take ?n ?sel)"
    "c = encode (page_cursor snap opts (fst (?sel ! (?n - 1))))"
    by (auto simp: page_shows_def Let_def)
  obtain resume' where r': "resume_of snap (next_options opts c l) = Inr resume'"
    "page_shows snap (next_options opts c l) p2 (selection G opts resume' xs)"
    using list_tree_page [OF assms(1,3,6), of t xs] assms(7,8) by auto
  have "resume' = fst (?sel ! (?n - 1))" using r'(1) resume_of_next unfolding first(4) by blast
  then have "selection G opts resume' xs = drop ?n ?sel"
    using selection_after [OF assms(9) _ first(1,2)] listing_names [OF assms(8)] by auto
  with r'(2) have second: "length (tp_entries p2) \<le> length ?sel - ?n"
    "list_all2 (item_ok opts) (tp_entries p2) (take (length (tp_entries p2)) (drop ?n ?sel))"
    "\<not> tp_truncated p2 \<longrightarrow> length (tp_entries p2) = length ?sel - ?n"
    by (auto simp: page_shows_def Let_def)
  have "list_all2 (item_ok opts) (tp_entries p1 @ tp_entries p2) (take (length (tp_entries p1 @ tp_entries p2)) ?sel)"
    using list_all2_appendI [OF first(3) second(2)] by (simp add: take_add)
  with r(1) first(2) second(1,3) show ?thesis by (auto simp: Let_def)
qed


section \<open>Listing and resolution agree\<close>

lemma leads_to_append:
  "leads_to ents t ss d \<Longrightarrow> oe_kind d = KTree \<Longrightarrow> leads_to ents (oe_oid d) ss' e \<Longrightarrow> leads_to ents t (ss @ ss') e"
proof (induction rule: leads_to.induct)
  case (leads_here t es s d)
  then show ?case by (cases ss') (auto simp: leads_to_Cons)
next
  case (leads_below t es s d' ss d)
  then show ?case by (auto simp: leads_to_Cons)
qed

lemma split_on_snoc: "c \<notin> set ys \<Longrightarrow> split_on c (xs @ c # ys) = split_on c xs @ [ys]"
proof (induction xs)
  case (Cons x xs)
  then show ?case by (simp add: hd_append tl_append split: list.splits)
qed (simp add: split_on_single)

text \<open>The directory a path names, and its entries.\<close>

definition at_dir :: "(oid \<Rightarrow> owned_entry list option) \<Rightarrow> oid \<Rightarrow> bytes \<Rightarrow> owned_entry list \<Rightarrow> bool" where
  "at_dir ents root pre es \<longleftrightarrow>
    (if pre = [] then ents root = Some es
     else \<exists>d. leads_to ents root (split_on 47 pre) d \<and> oe_kind d = KTree \<and> ents (oe_oid d) = Some es)"

definition distinct_names :: "(oid \<Rightarrow> owned_entry list option) \<Rightarrow> bool" where
  "distinct_names ents \<longleftrightarrow> (\<forall>x es. ents x = Some es \<longrightarrow> distinct (map oe_name es))"

lemma find_by_name: "distinct (map oe_name es) \<Longrightarrow> e \<in> set es \<Longrightarrow> find (\<lambda>e'. oe_name e' = oe_name e) es = Some e"
  by (induction es) (auto simp: image_iff)

lemma at_dir_entry:
  assumes "distinct_names ents" and "at_dir ents root pre es" and "e \<in> set es" and "valid_name (oe_name e)"
  shows "leads_to ents root (split_on 47 (join_path pre (oe_name e))) e"
proof -
  have no_slash: "47 \<notin> set (oe_name e)" using assms(4) by (simp add: valid_name_def)
  have here: "leads_to ents x [oe_name e] e" if "ents x = Some es" for x
    using that find_by_name [OF _ assms(3)] assms(1) by (auto simp: leads_to_Cons distinct_names_def)
  show ?thesis
  proof (cases "pre = []")
    case True
    with assms(2) here no_slash show ?thesis by (simp add: at_dir_def join_path_def split_on_single)
  next
    case False
    with assms(2) obtain d where "leads_to ents root (split_on 47 pre) d" "oe_kind d = KTree" "ents (oe_oid d) = Some es"
      by (auto simp: at_dir_def)
    with leads_to_append here False no_slash show ?thesis by (fastforce simp: join_path_def split_on_snoc)
  qed
qed

lemma walk_list_resolves:
  assumes names: "\<And>x es e. ents x = Some es \<Longrightarrow> e \<in> set es \<Longrightarrow> valid_name (oe_name e)"
    and dist: "distinct_names ents" and down: "\<And>p d e. down p d e \<Longrightarrow> oe_kind e = KTree"
    and "walk_list ents down pre d es xs" and "at_dir ents root pre all" and "set es \<subseteq> set all" and "(p, e) \<in> set xs"
  shows "leads_to ents root (split_on 47 p) e"
  using assms(4-)
proof (induction arbitrary: all rule: walk_list.induct)
  case (walk_leaf pre e' d es xs)
  have "valid_name (oe_name e')" using walk_leaf.prems(1,2) names by (auto simp: at_dir_def split: if_splits)
  with at_dir_entry [OF dist walk_leaf.prems(1), of e'] walk_leaf.prems walk_leaf.IH [OF walk_leaf.prems(1)] show ?case by auto
next
  case (walk_down pre e' d sub ys es xs)
  have valid: "valid_name (oe_name e')" using walk_down.prems(1,2) names by (auto simp: at_dir_def split: if_splits)
  with at_dir_entry [OF dist walk_down.prems(1), of e'] walk_down.prems(2)
  have here: "leads_to ents root (split_on 47 (join_path pre (oe_name e'))) e'" by simp
  with down [OF walk_down.hyps(1)] walk_down.hyps(2) join_path_ne [OF valid]
  have "at_dir ents root (join_path pre (oe_name e')) sub" by (auto simp: at_dir_def)
  from walk_down.IH(1) [OF this subset_refl] walk_down.IH(2) [OF walk_down.prems(1)] walk_down.prems(2,3) here
  show ?case by auto
qed simp

lemma listing_resolves:
  assumes "distinct_names (entries_at G hk m)" and "scope_tree (entries_at G hk m) snap (to_path opts) t"
    and "listing (entries_at G hk m) opts t xs" and "(p, e) \<in> set xs"
  shows "leads_to (entries_at G hk m) (tree_oid snap) (split_on 47 p) e"
proof -
  from assms(3,4) obtain es where es: "entries_at G hk m t = Some es"
    "walk_list (entries_at G hk m) (should_descend opts (max_depth_of opts)) (to_path opts) 1 es xs"
    by (auto simp: listing_def split: if_splits)
  have "at_dir (entries_at G hk m) (tree_oid snap) (to_path opts) es"
    using assms(2) es(1) by (auto simp: scope_tree_def at_dir_def split: if_splits)
  from walk_list_resolves [OF entries_at_names assms(1) _ es(2) this _ assms(4)] show ?thesis
    by (simp add: should_descend_def)
qed

text \<open>
  Listing and resolution agree: in a store whose trees have distinct entry names, every
  entry of a page, however deep, is the entry that resolving its path finds, with the same
  name, mode and kind.
\<close>

theorem listed_entries_resolve:
  assumes "object_store db I (\<lambda>x v. v = m x)" and "I w" and "I w'"
    and "distinct_names (entries_at G (db_hash_kind db) m)"
    and "list_tree fuel G db snap opts (w, b) = (Inr (Some page), s)"
    and "scope_tree (entries_at G (db_hash_kind db) m) snap (to_path opts) t"
    and "listing (entries_at G (db_hash_kind db) m) opts t xs"
    and "i \<in> set (tp_entries page)" and "resolve_path G db snap (ti_path i) (w', b') = (Inr r, s')"
  shows "r = Entry \<lparr>re_oid = ti_oid i, re_mode = ti_mode i, re_kind = ti_kind i\<rparr>"
proof -
  let ?ents = "entries_at G (db_hash_kind db) m"
  obtain resume where "page_shows snap opts page (selection G opts resume xs)"
    using list_tree_page [OF assms(1,2,5,6,7)] by blast
  then have "list_all2 (item_ok opts) (tp_entries page)
      (take (length (tp_entries page)) (selection G opts resume xs))"
    by (simp add: page_shows_def Let_def)
  from list_all2_in_set1 [OF this assms(8)] obtain pe where pe: "item_ok opts i pe" "pe \<in> set (selection G opts resume xs)"
    using in_set_takeD by fast
  obtain p e where p: "pe = (p, e)" by (cases pe)
  with pe have mem: "(p, e) \<in> set xs" and item: "ti_path i = p" "ti_oid i = oe_oid e" "ti_mode i = oe_mode e" "ti_kind i = oe_kind e"
    by (auto simp: item_ok_def selection_def)
  have "resolves ?ents snap p r"
    using answersD [OF resolve_path_answers(1) [OF assms(1)], of "(w', b')"] assms(3,9) item(1) by simp
  moreover have "p \<noteq> []" using listing_names [OF assms(7) mem] by blast
  moreover have "leads_to ?ents (tree_oid snap) (split_on 47 p) e" using listing_resolves [OF assms(4,6,7) mem] .
  ultimately have "r = resolved_of e" unfolding resolves_def by (metis leads_to_unique)
  with item show ?thesis by (simp add: resolved_of_def)
qed

end
