(* ===== verification/TreeExamples.thy ===== *)
theory TreeExamples
  imports TreeAnswers
begin

text \<open>
  Concrete trees: an instance of the engine's parser for Git's tree format, a small store,
  the tree properties at that store, the listing order that pagination mishandles, and the
  pathspecs with an escape, whose directory every listing leaves out.
\<close>

section \<open>Trees in Git's format\<close>

text \<open>
  An instance of the engine's entry parser on the format of tree objects: the mode in octal, a
  space, the name, a zero byte and the digest.
\<close>

definition octal_value :: "bytes \<Rightarrow> nat" where
  "octal_value bs = foldl (\<lambda>n b. 8 * n + (unat b - 48)) 0 bs"

definition tree_gix :: gix where
  "tree_gix = \<lparr>gx_commit = (\<lambda>_ _. None), gx_tag = (\<lambda>_ _. None),
     gx_entry = (\<lambda>bs hk. case position (\<lambda>b. b = 32) bs of
         None \<Rightarrow> None
       | Some i \<Rightarrow> (case position (\<lambda>b. b = 0) (drop (Suc i) bs) of
           None \<Rightarrow> None
         | Some j \<Rightarrow> let rest = drop (Suc j) (drop (Suc i) bs); n = digest_len hk in
             if length rest < n then None
             else Some \<lparr>er_mode = of_nat (octal_value (take i bs)), er_filename = take j (drop (Suc i) bs),
                        er_kind = Some hk, er_digest = take n rest, er_rest = drop n rest\<rparr>)),
     gx_wildmatch = (\<lambda>_ _. False)\<rparr>"

definition print_entry :: "string \<times> string \<times> byte \<Rightarrow> bytes" where
  "print_entry e = (case e of (mode, name, x) \<Rightarrow> ascii mode @ 32 # ascii name @ 0 # replicate 20 x)"

definition printable :: "string \<times> string \<times> byte \<Rightarrow> bool" where
  "printable e = (case e of (mode, name, x) \<Rightarrow> 32 \<notin> set (ascii mode) \<and> mode \<noteq> [] \<and> length mode \<le> 6
     \<and> (\<exists>b \<in> set (ascii mode). b \<noteq> 48) \<and> 0 \<notin> set (ascii name))"

definition printed_entry :: "string \<times> string \<times> byte \<Rightarrow> tree_entry" where
  "printed_entry e = (case e of (mode, name, x) \<Rightarrow>
     \<lparr>te_mode = ucast (of_nat (octal_value (ascii mode)) :: u16), te_name = ascii name, te_oid = toy_oid x\<rparr>)"

lemma tree_gix_entry:
  assumes "printable (mode, name, x)"
  shows "gx_entry tree_gix (print_entry (mode, name, x) @ rest) Sha1
    = Some \<lparr>er_mode = of_nat (octal_value (ascii mode)), er_filename = ascii name, er_kind = Some Sha1,
        er_digest = replicate 20 x, er_rest = rest\<rparr>"
proof -
  have "position (\<lambda>b. b = 32) (print_entry (mode, name, x) @ rest) = Some (length mode)"
    using assms position_append_fresh [of "ascii mode" "\<lambda>b. b = 32" 32] by (auto simp: printable_def print_entry_def)
  moreover have "position (\<lambda>b. b = 0) (ascii name @ 0 # replicate 20 x @ rest) = Some (length name)"
    using assms position_append_fresh [of "ascii name" "\<lambda>b. b = 0" 0] by (auto simp: printable_def)
  ultimately show ?thesis by (simp add: tree_gix_def print_entry_def Let_def)
qed

lemma oid_new_toy: "oid_new Sha1 (replicate 20 x) = Inr (toy_oid x)"
  by (simp add: oid_new_def toy_oid_def MAX_DIGEST_LEN_def)

lemma tree_items_printed:
  assumes "\<forall>e \<in> set es. printable e" and "length es \<le> fuel"
  shows "tree_items tree_gix Sha1 fuel (concat (map print_entry es)) = map (\<lambda>e. Inr (printed_entry e)) es"
  using assms
proof (induction es arbitrary: fuel)
  case Nil
  then show ?case by (cases fuel) simp_all
next
  case (Cons e es)
  obtain mode name x where e: "e = (mode, name, x)" by (cases e)
  from Cons.prems obtain f where f: "fuel = Suc f" "length es \<le> f" by (cases fuel) auto
  have p: "printable (mode, name, x)" using Cons.prems(1) e by simp
  have pos: "position (\<lambda>b. b = 32) (print_entry (mode, name, x) @ concat (map print_entry es)) = Some (length mode)"
    using p position_append_fresh [of "ascii mode" "\<lambda>b. b = 32" 32] by (auto simp: printable_def print_entry_def)
  have "valid_mode (print_entry (mode, name, x) @ concat (map print_entry es))"
    unfolding valid_mode_def pos using p by (auto simp: print_entry_def printable_def)
  moreover have "print_entry (mode, name, x) \<noteq> []" by (simp add: print_entry_def)
  ultimately show ?case
    using Cons.IH [OF _ f(2)] Cons.prems(1) tree_gix_entry [OF p, of "concat (map print_entry es)"]
    by (simp add: e f(1) entry_oid_def oid_new_toy printed_entry_def)
qed

lemma entries_printed:
  assumes "\<forall>e \<in> set es. printable e" and "m x = Some (Tree, concat (map print_entry es))"
    and "map owned_of (map (\<lambda>e. Inr (printed_entry e)) es) = map Inr owned"
  shows "entries_at tree_gix Sha1 m x = Some owned"
proof -
  have "length es \<le> length (concat (map print_entry es))"
    by (induction es) (auto simp: print_entry_def)
  then have "decode_tree tree_gix (concat (map print_entry es)) Sha1 = map (\<lambda>e. Inr (printed_entry e)) es"
    using assms(1) by (simp add: decode_tree_def tree_items_printed)
  with assms(3) have "decode_owned_tree_entries tree_gix (concat (map print_entry es)) Sha1 = Inr owned"
    by (simp add: decode_owned_tree_entries_def collect_results_Inr)
  with assms(2) show ?thesis by (simp add: entries_at_def entries_of_read_def)
qed

section \<open>A small store\<close>

text \<open>
  Tree 1 holds the file \<open>a-b\<close> and the tree \<open>a\<close>, in Git's order, in which a tree sorts
  as if its name ended in a slash; tree 2, below \<open>a\<close>, holds \<open>x\<close>; tree 5 holds \<open>x\<close> and \<open>y\<close>.
\<close>

definition order_store :: static_odb where
  "order_store = \<lparr>so_hash = Sha1, so_objects =
     [toy_oid 1 \<mapsto> (Tree, concat (map print_entry [(''100644'', ''a-b'', 3), (''40000'', ''a'', 2)])),
      toy_oid 2 \<mapsto> (Tree, concat (map print_entry [(''100644'', ''x'', 4)])),
      toy_oid 5 \<mapsto> (Tree, concat (map print_entry [(''100644'', ''x'', 4), (''100644'', ''y'', 3)]))]\<rparr>"

definition blob_entry :: "string \<Rightarrow> byte \<Rightarrow> owned_entry" where
  "blob_entry name x = \<lparr>oe_mode = 33188, oe_name = ascii name, oe_oid = toy_oid x, oe_kind = KBlob\<rparr>"

definition tree_entry_a :: owned_entry where
  "tree_entry_a = \<lparr>oe_mode = 16384, oe_name = ascii ''a'', oe_oid = toy_oid 2, oe_kind = KTree\<rparr>"

lemma owned_printed:
  "name \<noteq> [] \<Longrightarrow> 0 \<notin> set (ascii name) \<Longrightarrow> 47 \<notin> set (ascii name) \<Longrightarrow> \<not> dot_segment (ascii name) \<Longrightarrow>
    owned_of (Inr (printed_entry (''100644'', name, x))) = Inr (blob_entry name x)"
  "owned_of (Inr (printed_entry (''40000'', ''a'', 2))) = Inr tree_entry_a"
  by (simp_all add: owned_of_def printed_entry_def validate_tree_name_def kind_from_mode_def blob_entry_def
      tree_entry_a_def octal_value_def dot_segment_def ascii_def)

lemma toy_oid_eq [simp]: "toy_oid a = toy_oid b \<longleftrightarrow> a = b"
  by (auto simp: toy_oid_def)

lemma order_entries:
  "static_entries tree_gix order_store (toy_oid 1) = Some [blob_entry ''a-b'' 3, tree_entry_a]"
  "static_entries tree_gix order_store (toy_oid 2) = Some [blob_entry ''x'' 4]"
  "static_entries tree_gix order_store (toy_oid 5) = Some [blob_entry ''x'' 4, blob_entry ''y'' 3]"
proof -
  have hash: "so_hash order_store = Sha1" by (simp add: order_store_def)
  show "static_entries tree_gix order_store (toy_oid 1) = Some [blob_entry ''a-b'' 3, tree_entry_a]"
    unfolding hash by (rule entries_printed [where es = "[(''100644'', ''a-b'', 3), (''40000'', ''a'', 2)]"])
      (simp_all add: printable_def owned_printed dot_segment_def order_store_def)
  show "static_entries tree_gix order_store (toy_oid 2) = Some [blob_entry ''x'' 4]"
    unfolding hash by (rule entries_printed [where es = "[(''100644'', ''x'', 4)]"])
      (simp_all add: printable_def owned_printed dot_segment_def order_store_def)
  show "static_entries tree_gix order_store (toy_oid 5) = Some [blob_entry ''x'' 4, blob_entry ''y'' 3]"
    unfolding hash by (rule entries_printed [where es = "[(''100644'', ''x'', 4), (''100644'', ''y'', 3)]"])
      (simp_all add: printable_def owned_printed dot_segment_def order_store_def)
qed

definition order_snap :: "byte \<Rightarrow> snapshot" where
  "order_snap x = \<lparr>commit_oid = toy_oid 0, tree_oid = toy_oid x\<rparr>"

definition order_options :: tree_options where
  "order_options = default_tree_options\<lparr>to_recursive := True, to_limit := 1\<rparr>"

definition order_list :: "(bytes \<times> owned_entry) list" where
  "order_list = [(ascii ''a-b'', blob_entry ''a-b'' 3), (ascii ''a'', tree_entry_a), (ascii ''a/x'', blob_entry ''x'' 4)]"

definition sorted_list :: "(bytes \<times> owned_entry) list" where
  "sorted_list = [(ascii ''x'', blob_entry ''x'' 4), (ascii ''y'', blob_entry ''y'' 3)]"

lemmas order_simps = order_options_def default_tree_options_def blob_entry_def tree_entry_a_def join_path_def
  should_descend_def may_match_descendant_def max_depth_of_def relative_to_scope_def

lemma one_less_max: "(1 :: u32) < - 1"
  by code_simp

lemma order_listing: "listing (static_entries tree_gix order_store) order_options (toy_oid 1) order_list"
proof -
  let ?ents = "static_entries tree_gix order_store" and ?down = "should_descend order_options (- 1)"
  have below: "walk_list ?ents ?down (ascii ''a'') (sat_add 1 1) [blob_entry ''x'' 4] [(ascii ''a/x'', blob_entry ''x'' 4)]"
    using walk_leaf [of ?down "ascii ''a''" "blob_entry ''x'' 4" "sat_add 1 1" ?ents "[]" "[]"] walk_nil
    by (simp add: order_simps)
  have "walk_list ?ents ?down [] 1 [tree_entry_a] ((ascii ''a'', tree_entry_a) # [(ascii ''a/x'', blob_entry ''x'' 4)] @ [])"
    using walk_down [of ?down "[]" tree_entry_a 1 ?ents "[blob_entry ''x'' 4]" "[(ascii ''a/x'', blob_entry ''x'' 4)]" "[]" "[]"]
      below walk_nil order_entries(2) one_less_max by (simp add: order_simps)
  then have "walk_list ?ents ?down [] 1 [blob_entry ''a-b'' 3, tree_entry_a] order_list"
    using walk_leaf [of ?down "[]" "blob_entry ''a-b'' 3" 1 ?ents "[tree_entry_a]"]
    by (simp add: order_list_def order_simps)
  moreover have "max_depth_of order_options = - 1" "to_path order_options = []" by (simp_all add: order_simps)
  ultimately show ?thesis using order_entries(1) by (simp add: listing_def)
qed

lemma sorted_listing: "listing (static_entries tree_gix order_store) order_options (toy_oid 5) sorted_list"
proof -
  let ?ents = "static_entries tree_gix order_store" and ?down = "should_descend order_options (- 1)"
  have "walk_list ?ents ?down [] 1 [blob_entry ''y'' 3] [(ascii ''y'', blob_entry ''y'' 3)]"
    using walk_leaf [of ?down "[]" "blob_entry ''y'' 3" 1 ?ents "[]" "[]"] walk_nil by (simp add: order_simps)
  then have "walk_list ?ents ?down [] 1 [blob_entry ''x'' 4, blob_entry ''y'' 3] sorted_list"
    using walk_leaf [of ?down "[]" "blob_entry ''x'' 4" 1 ?ents "[blob_entry ''y'' 3]"]
    by (simp add: sorted_list_def order_simps)
  moreover have "max_depth_of order_options = - 1" "to_path order_options = []" by (simp_all add: order_simps)
  ultimately show ?thesis using order_entries(3) by (simp add: listing_def)
qed

lemma order_uniform: "uniform order_store"
  by (simp add: uniform_def order_store_def)

lemma order_sizes: "to_include_size opts = False \<Longrightarrow> sizes_known so opts xs"
  by (simp add: sizes_known_def)

lemma order_scope: "scope_tree ents (order_snap x) [] (toy_oid x)"
  by (simp add: scope_tree_def order_snap_def)

lemma order_compatible: "ensure_query_compatible (static_db order_store) (order_snap x) = Inr ()"
  by (simp add: ensure_query_compatible_def order_snap_def order_store_def)

lemma order_paths: "xs = order_list \<or> xs = sorted_list \<Longrightarrow> \<forall>(p, e) \<in> set xs. length p \<le> 4000"
  by (auto simp: order_list_def sorted_list_def)

text \<open>The page of the store under given options, without ceilings.\<close>

lemma order_page:
  assumes "listing (static_entries tree_gix order_store) opts (toy_oid x) xs" and "xs = order_list \<or> xs = sorted_list"
    and "to_path opts = []" and "0 < to_limit opts" and "to_include_size opts = False"
    and "resume_of (order_snap x) opts = Inr resume"
  shows "\<exists>page s. list_tree 7 tree_gix (static_db order_store) (order_snap x) opts (w, budget_unlimited idle) = (Inr (Some page), s)
    \<and> page_shows (order_snap x) opts page (selection tree_gix opts resume xs)
    \<and> (tp_truncated page \<longleftrightarrow> to_limit opts < length (selection tree_gix opts resume xs))"
proof (rule list_tree_answers_short [where t = "toy_oid x"])
  show "2 * length xs + 1 \<le> 7" using assms(2) by (auto simp: order_list_def sorted_list_def)
qed (use assms order_uniform order_compatible order_scope order_sizes order_paths in \<open>auto simp: validate_path_def\<close>)

lemma order_select:
  "matcher_matches tree_gix [] p" "type_contains TYPES_ALL k"
  by (simp_all add: matcher_matches_def type_contains_def TYPES_ALL_def type_flag_def split: tree_item_kind.split)

lemma order_selection:
  "selection tree_gix order_options [] xs = xs"
  "selection tree_gix order_options (ascii ''a-b'') order_list = [(ascii ''a/x'', blob_entry ''x'' 4)]"
  by (auto simp: selection_def should_emit_def order_simps order_select order_list_def)

lemma order_first: "resume_of (order_snap x) order_options = Inr []"
  by (simp add: resume_of_def order_simps)

section \<open>The tree properties at the store\<close>

theorem list_tree_answers_witness:
  "\<exists>page s. list_tree 7 tree_gix (static_db order_store) (order_snap 1) order_options ((), budget_unlimited idle) = (Inr (Some page), s)
    \<and> page_shows (order_snap 1) order_options page order_list \<and> tp_truncated page"
proof -
  let ?sel = "selection tree_gix order_options [] order_list"
  have "\<exists>r s. list_tree 7 tree_gix (static_db order_store) (order_snap 1) order_options ((), budget_unlimited idle) = (r, s)
    \<and> (case r of
          Inr p \<Rightarrow> \<exists>page. p = Some page \<and> page_shows (order_snap 1) order_options page ?sel
            \<and> (tp_truncated page \<longleftrightarrow> to_limit order_options < length ?sel)
        | Inl e \<Rightarrow> err_code e = ResultTooLarge \<and> to_limit order_options < length ?sel
            \<and> 4000 < length (fst (?sel ! (to_limit order_options - 1))))"
  proof (rule list_tree_answers [where t = "toy_oid 1"])
    show "2 * length order_list + 1 \<le> 7" by (simp add: order_list_def)
  qed (use order_uniform order_compatible [of 1] order_scope [of _ 1] order_sizes order_first order_listing
      in \<open>auto simp: validate_path_def order_simps\<close>)
  moreover have "to_limit order_options < length order_list" "\<not> 4000 < length (fst (order_list ! (to_limit order_options - 1)))"
    by (simp_all add: order_list_def order_options_def)
  ultimately show ?thesis unfolding order_selection by (fastforce split: sum.splits)
qed

theorem list_tree_shows_selection_witness:
  "\<exists>page s. list_tree 7 tree_gix (static_db order_store) (order_snap 1) order_options ((), budget_unlimited idle) = (Inr (Some page), s)
    \<and> page_shows (order_snap 1) order_options page order_list"
proof -
  obtain page s where run: "list_tree 7 tree_gix (static_db order_store) (order_snap 1) order_options ((), budget_unlimited idle)
      = (Inr (Some page), s)"
    using order_page [OF order_listing _ _ _ _ order_first, of "()"] by (auto simp: order_simps)
  have "\<exists>resume. resume_of (order_snap 1) order_options = Inr resume
      \<and> page_shows (order_snap 1) order_options page (selection tree_gix order_options resume order_list)"
    by (rule list_tree_shows_selection [OF static_exact _ run, where t = "toy_oid 1"])
       (use order_scope [of _ 1] order_listing in \<open>simp_all add: order_options_def default_tree_options_def\<close>)
  then have "page_shows (order_snap 1) order_options page order_list" by (simp add: order_first order_selection)
  with run show ?thesis by blast
qed

theorem list_tree_terminates_witness:
  "\<exists>p s. list_tree 7 tree_gix (static_db order_store) (order_snap 1) order_options ((), budget_unlimited idle) = (Inr p, s) \<and> p \<noteq> None"
proof -
  obtain page s where run: "list_tree 7 tree_gix (static_db order_store) (order_snap 1) order_options ((), budget_unlimited idle)
      = (Inr (Some page), s)"
    using order_page [OF order_listing _ _ _ _ order_first, of "()"] by (auto simp: order_simps)
  have "Some page \<noteq> None"
    by (rule list_tree_terminates [OF static_exact _ run, where t = "toy_oid 1" and xs = order_list])
       (use order_scope [of _ 1] order_listing in \<open>simp_all add: order_options_def default_tree_options_def order_list_def\<close>)
  with run show ?thesis by blast
qed

text \<open>The paths of a page are the paths of what it shows.\<close>

lemma page_paths:
  assumes "page_shows snap opts page sel" and "tp_truncated page \<longleftrightarrow> to_limit opts < length sel"
    and "to_limit opts = 1 \<or> \<not> tp_truncated page"
  shows "map ti_path (tp_entries page) = map fst (if tp_truncated page then take 1 sel else sel)"
proof -
  let ?n = "length (tp_entries page)"
  have all: "list_all2 (item_ok opts) (tp_entries page) (take ?n sel)" and n: "?n \<le> to_limit opts"
    "\<not> tp_truncated page \<longrightarrow> ?n = length sel" "tp_truncated page \<longrightarrow> 0 < ?n"
    using assms(1) by (simp_all add: page_shows_def Let_def)
  have "map ti_path (tp_entries page) = map fst (take ?n sel)"
    using all by (auto simp: list_all2_conv_all_nth item_ok_def intro!: nth_equalityI)
  moreover have "?n = 1" if "tp_truncated page" using n(1) n(3) [rule_format, OF that] assms(3) that by linarith
  ultimately show ?thesis using n(2) by auto
qed

lemma resume_of_next_ok:
  assumes "cursor_wf (page_cursor snap opts pos)" and "validate_cursor_position pos (to_path opts) = Inr ()"
  shows "resume_of snap (next_options opts (encode (page_cursor snap opts pos)) l) = Inr pos"
proof -
  have "decode (encode (page_cursor snap opts pos))
      \<lparr>exp_hash_kind = oid_kind (commit_oid snap), exp_snapshot_digest = as_bytes (commit_oid snap),
       exp_operation_tag = OPERATION_LIST_TREE, exp_option_fingerprint = option_fingerprint opts\<rparr>
      = Inr (page_cursor snap opts pos)"
    using assms(1) by (simp add: decode_Inr expects_def)
  with assms(2) show ?thesis by (simp add: resume_of_def)
qed

lemma limit_listing: "listing ents (opts\<lparr>to_limit := l\<rparr>) t xs = listing ents opts t xs"
proof -
  have "should_descend (opts\<lparr>to_limit := l\<rparr>) = should_descend opts" by (simp add: should_descend_def fun_eq_iff)
  moreover have "max_depth_of (opts\<lparr>to_limit := l\<rparr>) = max_depth_of opts" by (simp add: max_depth_of_def)
  ultimately show ?thesis by (simp add: listing_def)
qed

lemma order_next:
  assumes "page_shows (order_snap x) order_options p1 sel" and "tp_truncated p1" and "length (fst (hd sel)) \<le> 4000"
    and "validate_path (fst (hd sel)) = Inr ()" and "sel \<noteq> []"
  shows "\<exists>c. tp_next_cursor p1 = Some c \<and> resume_of (order_snap x) (next_options order_options c l) = Inr (fst (hd sel))"
proof -
  have "0 < length (tp_entries p1)" "length (tp_entries p1) \<le> 1"
    using assms(1,2) by (simp_all add: page_shows_def Let_def order_options_def)
  then have "length (tp_entries p1) = 1" by linarith
  then have "tp_next_cursor p1 = Some (encode (page_cursor (order_snap x) order_options (fst (hd sel))))"
    using assms(1,2,5) by (simp add: page_shows_def Let_def hd_conv_nth)
  moreover have "cursor_wf (page_cursor (order_snap x) order_options (fst (hd sel)))"
    using assms(3) by (simp add: cursor_wf_def encode_def length_encode_body MAX_CURSOR_BYTES_def order_snap_def
        as_bytes_def toy_oid_def)
  then have "resume_of (order_snap x) (next_options order_options (encode (page_cursor (order_snap x) order_options (fst (hd sel)))) l)
      = Inr (fst (hd sel))"
    using assms(4) by (intro resume_of_next_ok)
      (simp_all add: validate_cursor_position_def order_options_def default_tree_options_def)
  ultimately show ?thesis by blast
qed

lemma first_page:
  assumes "listing (static_entries tree_gix order_store) order_options (toy_oid x) xs" and "xs = order_list \<or> xs = sorted_list"
  shows "\<exists>p1 s1 c. list_tree 7 tree_gix (static_db order_store) (order_snap x) order_options ((), budget_unlimited idle) = (Inr (Some p1), s1)
    \<and> map ti_path (tp_entries p1) = [fst (hd xs)] \<and> tp_next_cursor p1 = Some c
    \<and> (\<forall>l. resume_of (order_snap x) (next_options order_options c l) = Inr (fst (hd xs)))"
proof -
  obtain p1 s1 where p1: "list_tree 7 tree_gix (static_db order_store) (order_snap x) order_options ((), budget_unlimited idle)
      = (Inr (Some p1), s1)" "page_shows (order_snap x) order_options p1 xs"
    "tp_truncated p1 \<longleftrightarrow> to_limit order_options < length xs"
    using order_page [OF assms _ _ _ order_first, of "()"] unfolding order_selection by (auto simp: order_simps)
  have xs: "length xs > 1" "length (fst (hd xs)) \<le> 4000" "validate_path (fst (hd xs)) = Inr ()"
    using assms(2) by (auto simp: order_list_def sorted_list_def validate_path_def dot_segment_def)
  then have "tp_truncated p1" "xs \<noteq> []" using p1(3) by (auto simp: order_options_def)
  have "map ti_path (tp_entries p1) = [fst (hd xs)]"
    using page_paths [OF p1(2,3)] \<open>tp_truncated p1\<close> \<open>xs \<noteq> []\<close> by (cases xs) (simp_all add: order_options_def)
  moreover obtain c where "tp_next_cursor p1 = Some c"
    "\<forall>l. resume_of (order_snap x) (next_options order_options c l) = Inr (fst (hd xs))"
    using order_next [OF p1(2) \<open>tp_truncated p1\<close> xs(2,3) \<open>xs \<noteq> []\<close>] by (metis option.inject)
  ultimately show ?thesis using p1(1) by (intro exI [of _ p1] exI [of _ s1] exI [of _ c] conjI)
qed

text \<open>
  C37. Pagination follows byte order, listings follow Git's order: for a tree with the file
  \<open>a-b\<close> and the directory \<open>a\<close>, one large page lists \<open>a-b\<close>, \<open>a\<close> and \<open>a/x\<close>, but the page
  after the cursor of \<open>a-b\<close> lists only \<open>a/x\<close> and reports itself complete: the directory
  \<open>a\<close> is on no page.
\<close>

theorem pagination_loses_entries:
  "\<exists>p1 s1 c p2 s2 whole s. list_tree 7 tree_gix (static_db order_store) (order_snap 1) order_options ((), budget_unlimited idle)
      = (Inr (Some p1), s1)
    \<and> map ti_path (tp_entries p1) = [ascii ''a-b''] \<and> tp_next_cursor p1 = Some c
    \<and> list_tree 7 tree_gix (static_db order_store) (order_snap 1) (next_options order_options c 10) ((), budget_unlimited idle)
      = (Inr (Some p2), s2)
    \<and> map ti_path (tp_entries p2) = [ascii ''a/x''] \<and> \<not> tp_truncated p2
    \<and> list_tree 7 tree_gix (static_db order_store) (order_snap 1) (order_options\<lparr>to_limit := 10\<rparr>) ((), budget_unlimited idle)
      = (Inr (Some whole), s)
    \<and> map ti_path (tp_entries whole) = [ascii ''a-b'', ascii ''a'', ascii ''a/x'']"
proof -
  obtain p1 s1 c where p1: "list_tree 7 tree_gix (static_db order_store) (order_snap 1) order_options ((), budget_unlimited idle)
      = (Inr (Some p1), s1)" "map ti_path (tp_entries p1) = [ascii ''a-b'']" "tp_next_cursor p1 = Some c"
    "resume_of (order_snap 1) (next_options order_options c 10) = Inr (ascii ''a-b'')"
    using first_page [OF order_listing] by (auto simp: order_list_def)
  let ?next = "next_options order_options c 10" and ?whole = "order_options\<lparr>to_limit := 10\<rparr>"
  obtain p2 s2 where p2: "list_tree 7 tree_gix (static_db order_store) (order_snap 1) ?next ((), budget_unlimited idle)
      = (Inr (Some p2), s2)" "page_shows (order_snap 1) ?next p2 [(ascii ''a/x'', blob_entry ''x'' 4)]" "\<not> tp_truncated p2"
    using order_page [of ?next 1 order_list, OF _ _ _ _ _ p1(4), of "()"] order_listing
    unfolding next_options_same order_selection by (auto simp: order_options_def default_tree_options_def)
  have whole_sel: "selection tree_gix ?whole [] order_list = order_list"
    using order_selection(1) [of order_list] by (simp add: selection_def should_emit_def order_options_def)
  have whole_list: "listing (static_entries tree_gix order_store) ?whole (toy_oid 1) order_list"
    using order_listing by (simp add: limit_listing)
  obtain whole s where whole: "list_tree 7 tree_gix (static_db order_store) (order_snap 1) ?whole ((), budget_unlimited idle)
      = (Inr (Some whole), s)" "page_shows (order_snap 1) ?whole whole order_list" "\<not> tp_truncated whole"
    using order_page [OF whole_list, of "[]" "()"] unfolding whole_sel
    by (auto simp: order_options_def default_tree_options_def resume_of_def order_list_def)
  have "map ti_path (tp_entries p2) = [ascii ''a/x'']"
    using page_paths [OF p2(2)] p2(3) by simp
  moreover have "map ti_path (tp_entries whole) = [ascii ''a-b'', ascii ''a'', ascii ''a/x'']"
    using page_paths [OF whole(2)] whole(3) by (simp add: order_list_def)
  ultimately show ?thesis using p1(1-3) p2(1,3) whole(1)
    by (intro exI [of _ p1] exI [of _ s1] exI [of _ c] exI [of _ p2] exI [of _ s2] exI [of _ whole] exI [of _ s] conjI)
qed

section \<open>An escaped directory is lost\<close>

text \<open>
  C39. A backslash escape before the first metacharacter of a pathspec loses entries. Over any store that answers from fixed contents, and for any wildcard matcher that
  takes an escaped character literally, list a tree with the single pattern \<open>a\cb/*\<close>, with or without the \<open>:(glob)\<close> magic, where \<open>a\<close>, \<open>c\<close> and \<open>b\<close> have no
  metacharacter and no backslash. The filter selects every name in the directory \<open>acb\<close> of the scope, and no page of the listing has any of them.
\<close>

theorem escaped_directory_is_lost:
  assumes "escape_law G" and "plain (a @ c # b)" and "c \<noteq> 47"
    and "to_pathspecs opts = [pattern]" and "fst (split_magic pattern) = escaped_pattern a c b"
    and "name \<noteq> []" and "47 \<notin> set name"
    and "object_store db I (\<lambda>x v. v = m x)" and "I w"
    and "list_tree fuel G db snap opts (w, bud) = (Inr (Some page), s)"
    and "scope_tree (entries_at G (db_hash_kind db) m) snap (to_path opts) t"
    and "listing (entries_at G (db_hash_kind db) m) opts t xs"
  shows "matcher_matches G (to_pathspecs opts) (a @ c # b @ 47 # name)
    \<and> join_path (to_path opts) (a @ c # b @ 47 # name) \<notin> ti_path ` set (tp_entries page)"
proof -
  let ?ents = "entries_at G (db_hash_kind db) m" and ?path = "join_path (to_path opts) (a @ c # b @ 47 # name)"
  have "(?path, e) \<notin> set xs" for e
  proof
    assume listed: "(?path, e) \<in> set xs"
    with assms(12) obtain es where es: "?ents t = Some es"
      "walk_list ?ents (should_descend opts (max_depth_of opts)) (to_path opts) 1 es xs" by (auto simp: listing_def split: if_splits)
    have names: "\<forall>e \<in> set es. valid_name (oe_name e)" using entries_at_names [OF es(1)] by blast
    have "\<exists>d e'. should_descend opts (max_depth_of opts) (join_path (to_path opts) (a @ c # b)) d e'"
      by (rule walk_list_descends [OF _ es(2) names, where s = name and e = e]) (use listed in \<open>auto dest: entries_at_names\<close>)
    then have "may_match_descendant [pattern] (a @ c # b)"
      using assms(4) by (auto simp: should_descend_def relative_to_scope_def join_path_def split: if_splits)
    with escaped_pattern_prunes [OF assms(2,5)] show False by blast
  qed
  moreover obtain resume where "page_shows snap opts page (selection G opts resume xs)"
    using list_tree_page [OF assms(8-12)] by blast
  ultimately have "?path \<notin> ti_path ` set (tp_entries page)" by (fastforce dest: shown_listed)
  with escaped_pattern_selects [OF assms(1-3,5-7)] assms(4) show ?thesis by simp
qed

text \<open>A matcher of literal text with backslash escapes and a star at the end.\<close>

fun escape_match :: "bytes \<Rightarrow> bytes \<Rightarrow> bool" where
  "escape_match [] path \<longleftrightarrow> path = []"
| "escape_match (p # ps) path \<longleftrightarrow>
    (if p = 42 \<and> ps = [] then 47 \<notin> set path
     else if p = 92 then (case (ps, path) of (c # ps', x # xs) \<Rightarrow> c = x \<and> escape_match ps' xs | _ \<Rightarrow> False)
     else (case path of [] \<Rightarrow> False | x # xs \<Rightarrow> p = x \<and> escape_match ps xs))"

definition escape_gix :: gix where
  "escape_gix = tree_gix\<lparr>gx_wildmatch := escape_match\<rparr>"

lemma escape_match_plain: "plain a \<Longrightarrow> escape_match (a @ ps) (a @ xs) = escape_match ps xs"
  by (induction a) (auto simp: plain_def is_meta_def)

lemma escape_gix_law: "escape_law escape_gix"
proof -
  have "escape_match (a @ 92 # c # b @ [47, 42]) (a @ c # b @ 47 # name)" if "plain (a @ c # b)" "47 \<notin> set name" for a c b name
  proof -
    have "plain a" "plain b" "plain [47]" using that(1) by (auto simp: plain_def is_meta_def)
    then show ?thesis
      using escape_match_plain [of b "[47, 42]" "47 # name"] escape_match_plain [of "[47]" "[42]" name] that(2)
      by (simp add: escape_match_plain)
  qed
  then show ?thesis by (simp add: escape_law_def escape_gix_def escaped_pattern_def)
qed

lemma tree_items_wildmatch: "tree_items (G\<lparr>gx_wildmatch := f\<rparr>) hk fuel bs = tree_items G hk fuel bs"
  by (induction fuel arbitrary: bs) (simp_all split: option.split)

lemma decode_wildmatch: "decode_owned_tree_entries (G\<lparr>gx_wildmatch := f\<rparr>) payload hk = decode_owned_tree_entries G payload hk"
  by (simp add: decode_owned_tree_entries_def decode_tree_def tree_items_wildmatch)

lemma escape_entries: "static_entries escape_gix so = static_entries tree_gix so"
  unfolding fun_eq_iff escape_gix_def entries_at_def entries_of_read_def decode_wildmatch by simp

definition escape_options :: tree_options where
  "escape_options = order_options\<lparr>to_limit := 10, to_pathspecs := [escaped_pattern [] 97 []]\<rparr>"

lemma escape_split: "split_magic (escaped_pattern [] 97 []) = (escaped_pattern [] 97 [], False)"
  by (simp add: split_magic_def strip_prefix_def escaped_pattern_def)

lemma escape_listing:
  "listing (static_entries escape_gix order_store) escape_options (toy_oid 1) [(ascii ''a-b'', blob_entry ''a-b'' 3), (ascii ''a'', tree_entry_a)]"
proof -
  let ?ents = "static_entries tree_gix order_store" and ?down = "should_descend escape_options (- 1)"
  have "\<not> may_match_descendant [escaped_pattern [] 97 []] ([] @ 97 # [])"
    by (rule escaped_pattern_prunes) (simp_all add: escape_split plain_def is_meta_def)
  then have pruned: "\<not> ?down (ascii ''a'') d e" for d e
    by (simp add: should_descend_def escape_options_def order_options_def default_tree_options_def relative_to_scope_def)
  have "walk_list ?ents ?down [] 1 [tree_entry_a] [(ascii ''a'', tree_entry_a)]"
    using walk_leaf [of ?down "[]" tree_entry_a 1 ?ents "[]" "[]"] walk_nil pruned by (simp add: join_path_def tree_entry_a_def)
  then have "walk_list ?ents ?down [] 1 [blob_entry ''a-b'' 3, tree_entry_a] [(ascii ''a-b'', blob_entry ''a-b'' 3), (ascii ''a'', tree_entry_a)]"
    using walk_leaf [of ?down "[]" "blob_entry ''a-b'' 3" 1 ?ents "[tree_entry_a]"]
    by (simp add: join_path_def blob_entry_def should_descend_def)
  moreover have "max_depth_of escape_options = - 1" "to_path escape_options = []"
    by (simp_all add: escape_options_def order_options_def default_tree_options_def max_depth_of_def)
  ultimately show ?thesis using order_entries(1) by (simp add: listing_def escape_entries)
qed

theorem escaped_directory_is_lost_witness:
  "\<exists>page s. list_tree 7 escape_gix (static_db order_store) (order_snap 1) escape_options ((), budget_unlimited idle) = (Inr (Some page), s)
    \<and> (ascii ''a/x'', blob_entry ''x'' 4) \<in> set order_list
    \<and> matcher_matches escape_gix (to_pathspecs escape_options) (ascii ''a/x'') \<and> ascii ''a/x'' \<notin> ti_path ` set (tp_entries page)"
proof -
  let ?xs = "[(ascii ''a-b'', blob_entry ''a-b'' 3), (ascii ''a'', tree_entry_a)]"
  have opts: "to_path escape_options = []" "to_limit escape_options = 10" "to_include_size escape_options = False" "to_cursor escape_options = None"
    "to_pathspecs escape_options = [escaped_pattern [] 97 []]"
    by (simp_all add: escape_options_def order_options_def default_tree_options_def)
  have resume: "resume_of (order_snap 1) escape_options = Inr []" by (simp add: resume_of_def opts)
  have "\<exists>page s. list_tree 7 escape_gix (static_db order_store) (order_snap 1) escape_options ((), budget_unlimited idle) = (Inr (Some page), s)
    \<and> page_shows (order_snap 1) escape_options page (selection escape_gix escape_options [] ?xs)
    \<and> (tp_truncated page \<longleftrightarrow> to_limit escape_options < length (selection escape_gix escape_options [] ?xs))"
    by (rule list_tree_answers_short [where t = "toy_oid 1", OF order_uniform order_compatible _ _ resume _ escape_listing order_sizes unlimited_start])
      (use order_scope [of _ 1] in \<open>auto simp: opts validate_path_def\<close>)
  then obtain page s where run: "list_tree 7 escape_gix (static_db order_store) (order_snap 1) escape_options ((), budget_unlimited idle) = (Inr (Some page), s)"
    by blast
  have "matcher_matches escape_gix (to_pathspecs escape_options) ([] @ 97 # [] @ 47 # ascii ''x'')
    \<and> join_path (to_path escape_options) ([] @ 97 # [] @ 47 # ascii ''x'') \<notin> ti_path ` set (tp_entries page)"
    by (rule escaped_directory_is_lost [OF escape_gix_law _ _ opts(5) _ _ _ static_exact TrueI run, where t = "toy_oid 1"])
      (use escape_listing order_scope [of _ 1] in \<open>simp_all add: opts escape_split plain_def is_meta_def\<close>)
  with run show ?thesis by (intro exI [of _ page] exI [of _ s]) (simp add: order_list_def opts join_path_def)
qed

theorem pages_join_witness:
  "\<exists>p1 s1 c p2 s2. list_tree 7 tree_gix (static_db order_store) (order_snap 5) order_options ((), budget_unlimited idle)
      = (Inr (Some p1), s1) \<and> tp_next_cursor p1 = Some c
    \<and> list_tree 7 tree_gix (static_db order_store) (order_snap 5) (next_options order_options c 10) ((), budget_unlimited idle)
      = (Inr (Some p2), s2)
    \<and> length (tp_entries p1 @ tp_entries p2) \<le> length sorted_list
    \<and> list_all2 (item_ok order_options) (tp_entries p1 @ tp_entries p2)
        (take (length (tp_entries p1 @ tp_entries p2)) sorted_list)"
proof -
  obtain p1 s1 c where p1: "list_tree 7 tree_gix (static_db order_store) (order_snap 5) order_options ((), budget_unlimited idle)
      = (Inr (Some p1), s1)" "tp_next_cursor p1 = Some c"
    "resume_of (order_snap 5) (next_options order_options c 10) = Inr (ascii ''x'')"
    using first_page [OF sorted_listing] by (auto simp: sorted_list_def)
  let ?next = "next_options order_options c 10"
  obtain p2 s2 where p2: "list_tree 7 tree_gix (static_db order_store) (order_snap 5) ?next ((), budget_unlimited idle)
      = (Inr (Some p2), s2)"
    using order_page [of ?next 5 sorted_list, OF _ _ _ _ _ p1(3), of "()"] sorted_listing
    by (auto simp: order_options_def default_tree_options_def)
  have "\<exists>resume. resume_of (order_snap 5) order_options = Inr resume \<and>
    (let sel = selection tree_gix order_options resume sorted_list; joined = tp_entries p1 @ tp_entries p2 in
     list_all2 (item_ok order_options) joined (take (length joined) sel) \<and> length joined \<le> length sel
     \<and> (\<not> tp_truncated p2 \<longrightarrow> length joined = length sel))"
    by (rule pages_join [OF static_exact _ _ p1(1,2) p2, where t = "toy_oid 5"])
       (use order_scope [of _ 5] sorted_listing in
         \<open>simp_all add: order_options_def default_tree_options_def sorted_list_def\<close>)
  then have "length (tp_entries p1 @ tp_entries p2) \<le> length sorted_list"
    "list_all2 (item_ok order_options) (tp_entries p1 @ tp_entries p2)
        (take (length (tp_entries p1 @ tp_entries p2)) sorted_list)"
    by (simp_all add: order_first order_selection Let_def)
  with p1(1,2) p2 show ?thesis
    by (intro exI [of _ p1] exI [of _ s1] exI [of _ c] exI [of _ p2] exI [of _ s2] conjI)
qed

lemma order_distinct: "distinct_names (static_entries tree_gix order_store)"
proof -
  have "x = toy_oid 1 \<or> x = toy_oid 2 \<or> x = toy_oid 5" if "static_entries tree_gix order_store x = Some es" for x es
    using that by (auto simp: entries_at_def entries_of_read_def order_store_def split: if_splits option.splits)
  then have "distinct (map oe_name es)" if "static_entries tree_gix order_store x = Some es" for x es
    using that order_entries by (fastforce simp: blob_entry_def tree_entry_a_def)
  then show ?thesis by (simp add: distinct_names_def)
qed

theorem listed_entries_resolve_witness:
  "\<exists>page s r s'. list_tree 7 tree_gix (static_db order_store) (order_snap 1) order_options ((), budget_unlimited idle)
      = (Inr (Some page), s)
    \<and> resolve_path tree_gix (static_db order_store) (order_snap 1) (ti_path (hd (tp_entries page))) ((), budget_unlimited idle)
      = (Inr r, s')
    \<and> r = Entry \<lparr>re_oid = ti_oid (hd (tp_entries page)), re_mode = ti_mode (hd (tp_entries page)),
        re_kind = ti_kind (hd (tp_entries page))\<rparr>"
proof -
  obtain page s where run: "list_tree 7 tree_gix (static_db order_store) (order_snap 1) order_options ((), budget_unlimited idle)
      = (Inr (Some page), s)" "map ti_path (tp_entries page) = [ascii ''a-b'']"
    using first_page [OF order_listing] by (auto simp: order_list_def)
  then have hd: "hd (tp_entries page) \<in> set (tp_entries page)" "ti_path (hd (tp_entries page)) = ascii ''a-b''"
    by (cases "tp_entries page"; simp)+
  have "leads_to (static_entries tree_gix order_store) (toy_oid 1) (split_on 47 (ascii ''a-b'')) (blob_entry ''a-b'' 3)"
    using order_entries(1) by (simp add: leads_to_Cons blob_entry_def)
  then have "yields (resolve_path tree_gix (static_db order_store :: unit odb) (order_snap 1) (ascii ''a-b'')) (resolved_of (blob_entry ''a-b'' 3))"
    unfolding resolve_path_def using yields_segments [OF order_uniform]
    by (intro yields_sbind [OF yields_slift]) (simp_all add: validate_path_def dot_segment_def order_snap_def del: resolve_segments.simps)
  then obtain r s' where res: "resolve_path tree_gix (static_db order_store) (order_snap 1) (ti_path (hd (tp_entries page)))
      ((), budget_unlimited idle) = (Inr r, s')"
    unfolding hd(2) yields_def using unlimited_start by blast
  have "r = Entry \<lparr>re_oid = ti_oid (hd (tp_entries page)), re_mode = ti_mode (hd (tp_entries page)),
        re_kind = ti_kind (hd (tp_entries page))\<rparr>"
    by (rule listed_entries_resolve [OF static_exact _ _ _ run(1) _ _ hd(1) res, where t = "toy_oid 1" and xs = order_list])
       (use order_distinct order_scope [of _ 1] order_listing in \<open>simp_all add: order_options_def default_tree_options_def\<close>)
  with run(1) res show ?thesis by (intro exI [of _ page] exI [of _ s] exI [of _ r] exI [of _ s'] conjI)
qed

end
