(* ===== verification/FileRead.thy ===== *)
theory FileRead
  imports TreeWalk
begin

text \<open>
  Bounded file reads from a snapshot (\<open>file.rs\<close>): the classification of a blob, the
  slicing of its payload by bytes or by lines, and the recognition of Git LFS pointers. A
  slice access the source would panic on is the error \<open>slice_panic\<close>.
\<close>

section \<open>Options and results\<close>

definition BINARY_PROBE_BYTES :: nat where "BINARY_PROBE_BYTES = 8000"

record file_options =
  fo_lines :: "(u32 \<times> u32) option"
  fo_max_bytes :: nat

definition default_file_options :: file_options where
  "default_file_options = \<lparr>fo_lines = None, fo_max_bytes = 256000\<rparr>"

datatype file_kind = FText | FBinary | FSymlink | FGitlink

record lfs_pointer =
  lp_oid :: bytes
  lp_size :: u64

record file_read =
  rf_path :: bytes
  rf_blob_oid :: oid
  rf_mode :: u32
  rf_kind :: file_kind
  rf_data :: bytes
  rf_start_line :: "u32 option"
  rf_end_line :: "u32 option"
  rf_total_lines :: "u32 option"
  rf_truncated :: bool
  rf_lfs_pointer :: "lfs_pointer option"
  rf_stats :: query_stats

record sliced_payload =
  sp_data :: bytes
  sp_start_line :: "u32 option"
  sp_end_line :: "u32 option"
  sp_total_lines :: "u32 option"
  sp_truncated :: bool
  sp_stopped_by :: "string option"

definition missing_blob :: "oid \<Rightarrow> error" where
  "missing_blob x = err_new MissingObject (''blob object '' @ to_hex x @ '' is missing from the object store'')"

definition too_many_lines :: error where
  "too_many_lines = err_new ResultTooLarge ''file contains more lines than the result format can represent''"

definition slice_panic :: error where
  "slice_panic = err_new InternalError ''slice index out of range''"

section \<open>Lines\<close>

definition ends_with_newline :: "bytes \<Rightarrow> bool" where
  "ends_with_newline bs \<longleftrightarrow> bs \<noteq> [] \<and> last bs = 10"

text \<open>\<open>u32::try_from\<close> of a count.\<close>

definition line_number :: "nat \<Rightarrow> error + u32" where
  "line_number n = (if n < 2 ^ 32 then Inr (of_nat n) else Inl too_many_lines)"

definition line_count :: "bytes \<Rightarrow> error + u32" where
  "line_count bs = line_number (length (filter (\<lambda>b. b = 10) bs) + (if bs \<noteq> [] \<and> \<not> ends_with_newline bs then 1 else 0))"

text \<open>The loop of \<open>line_spans\<close>: the start of the current line, the current index, the bytes left.\<close>

fun spans_from :: "nat \<Rightarrow> nat \<Rightarrow> bytes \<Rightarrow> (nat \<times> nat) list" where
  "spans_from start index [] = (if start < index then [(start, index)] else [])"
| "spans_from start index (b # bs) =
    (if b = 10 then (start, index + 1) # spans_from (index + 1) (index + 1) bs
     else spans_from start (index + 1) bs)"

definition line_spans :: "bytes \<Rightarrow> (nat \<times> nat) list" where
  "line_spans bs = spans_from 0 0 bs"

definition slice :: "bytes \<Rightarrow> nat \<Rightarrow> nat \<Rightarrow> error + bytes" where
  "slice bs first end = (if first \<le> end \<and> end \<le> length bs then Inr (take (end - first) (drop first bs)) else Inl slice_panic)"

definition span_at :: "(nat \<times> nat) list \<Rightarrow> u32 \<Rightarrow> error + nat \<times> nat" where
  "span_at spans line = (if 0 < line \<and> unat line \<le> length spans then Inr (spans ! (unat line - 1)) else Inl slice_panic)"

section \<open>Slices of a payload\<close>

definition slice_bytes :: "bytes \<Rightarrow> nat \<Rightarrow> error + sliced_payload" where
  "slice_bytes payload scan_len =
    (let capped = scan_len < length payload; scanned = take scan_len payload;
         returned_len =
           (if capped \<and> scanned \<noteq> [] \<and> \<not> ends_with_newline scanned then
              (case rposition (\<lambda>b. b = 10) scanned of Some i \<Rightarrow> i + 1 | None \<Rightarrow> length scanned)
            else length scanned)
     in rbind (if capped then Inr None else rbind (line_count payload) (\<lambda>n. Inr (Some n))) (\<lambda>total_lines.
        Inr \<lparr>sp_data = take returned_len scanned, sp_start_line = None, sp_end_line = None,
             sp_total_lines = total_lines, sp_truncated = capped,
             sp_stopped_by = (if capped then Some ''max_bytes'' else None)\<rparr>))"

definition slice_whole_lines :: "bytes \<Rightarrow> u32 \<Rightarrow> u32 \<Rightarrow> error + sliced_payload" where
  "slice_whole_lines payload requested_start requested_end =
    (let spans = line_spans payload in
     if spans = [] then
       Inr \<lparr>sp_data = [], sp_start_line = None, sp_end_line = None, sp_total_lines = Some 0,
            sp_truncated = False, sp_stopped_by = None\<rparr>
     else rbind (line_number (length spans)) (\<lambda>total_lines.
       if total_lines < requested_start then
         Inr \<lparr>sp_data = [], sp_start_line = None, sp_end_line = None, sp_total_lines = Some total_lines,
              sp_truncated = False, sp_stopped_by = None\<rparr>
       else
         let end_line = min requested_end total_lines in
         rbind (span_at spans requested_start) (\<lambda>first.
         rbind (span_at spans end_line) (\<lambda>final.
         rbind (slice payload (fst first) (snd final)) (\<lambda>data.
         Inr \<lparr>sp_data = data, sp_start_line = Some requested_start, sp_end_line = Some end_line,
              sp_total_lines = Some total_lines, sp_truncated = False, sp_stopped_by = None\<rparr>)))))"

text \<open>The loop over the lines of the scanned prefix, from an index on.\<close>

fun collect_lines :: "bytes \<Rightarrow> bool \<Rightarrow> nat \<Rightarrow> u32 \<Rightarrow> u32 \<Rightarrow> nat \<Rightarrow> (nat \<times> nat) list
    \<Rightarrow> bytes \<times> u32 option \<times> u32 option \<Rightarrow> error + bytes \<times> u32 option \<times> u32 option" where
  "collect_lines scanned last_is_partial span_count lo hi index [] acc = Inr acc"
| "collect_lines scanned last_is_partial span_count lo hi index ((first, final) # spans) (data, start_line, end_line) =
    rbind (line_number (index + 1)) (\<lambda>line.
    if line < lo \<or> hi < line then collect_lines scanned last_is_partial span_count lo hi (index + 1) spans (data, start_line, end_line)
    else
      let incomplete = (last_is_partial \<and> index + 1 = span_count) in
      if incomplete \<and> start_line \<noteq> None then Inr (data, start_line, end_line)
      else rbind (slice scanned first final) (\<lambda>piece.
        let acc = (data @ piece, (case start_line of None \<Rightarrow> Some line | Some l \<Rightarrow> Some l), Some line) in
        if incomplete then Inr acc
        else collect_lines scanned last_is_partial span_count lo hi (index + 1) spans acc))"

definition slice_capped_lines :: "bytes \<Rightarrow> nat \<Rightarrow> u32 \<Rightarrow> u32 \<Rightarrow> error + sliced_payload" where
  "slice_capped_lines payload scan_len requested_start requested_end =
    (let scanned = take scan_len payload; spans = line_spans scanned;
         last_is_partial = (scanned \<noteq> [] \<and> \<not> ends_with_newline scanned);
         complete_lines = length spans - (if last_is_partial then 1 else 0);
         range_completed = (unat requested_end \<le> complete_lines)
     in rbind (collect_lines scanned last_is_partial (length spans) requested_start requested_end 0 spans ([], None, None))
        (\<lambda>(data, start_line, end_line).
        Inr \<lparr>sp_data = data, sp_start_line = start_line, sp_end_line = end_line, sp_total_lines = None,
             sp_truncated = (\<not> range_completed),
             sp_stopped_by = (if range_completed then None else Some ''max_bytes'')\<rparr>))"

definition slice_payload :: "bytes \<Rightarrow> file_options \<Rightarrow> error + sliced_payload" where
  "slice_payload payload opts =
    (let scan_len = min (length payload) (fo_max_bytes opts) in
     case fo_lines opts of
       None \<Rightarrow> slice_bytes payload scan_len
     | Some (requested_start, requested_end) \<Rightarrow>
         if \<not> scan_len < length payload then slice_whole_lines payload requested_start requested_end
         else slice_capped_lines payload scan_len requested_start requested_end)"

section \<open>Git LFS pointers\<close>

definition UNICODE_SPACES :: "bytes list" where
  "UNICODE_SPACES = [[0xc2, 0x85], [0xc2, 0xa0], [0xe1, 0x9a, 0x80],
     [0xe2, 0x80, 0x80], [0xe2, 0x80, 0x81], [0xe2, 0x80, 0x82], [0xe2, 0x80, 0x83], [0xe2, 0x80, 0x84],
     [0xe2, 0x80, 0x85], [0xe2, 0x80, 0x86], [0xe2, 0x80, 0x87], [0xe2, 0x80, 0x88], [0xe2, 0x80, 0x89],
     [0xe2, 0x80, 0x8a], [0xe2, 0x80, 0xa8], [0xe2, 0x80, 0xa9], [0xe2, 0x80, 0xaf], [0xe2, 0x81, 0x9f],
     [0xe3, 0x80, 0x80]]"

definition ascii_space :: "byte \<Rightarrow> bool" where
  "ascii_space b \<longleftrightarrow> (9 \<le> b \<and> b \<le> 13) \<or> b = 32"

definition leading_lfs_space :: "bytes \<Rightarrow> nat option" where
  "leading_lfs_space bs =
    (case bs of
       [] \<Rightarrow> None
     | b # _ \<Rightarrow> if ascii_space b then Some 1
                else map_option length (find (\<lambda>space. prefix space bs) UNICODE_SPACES))"

definition trailing_lfs_space :: "bytes \<Rightarrow> nat option" where
  "trailing_lfs_space bs =
    (if bs = [] then None
     else if ascii_space (last bs) then Some 1
     else map_option length (find (\<lambda>space. suffix space bs) UNICODE_SPACES))"

lemma UNICODE_SPACES_ne: "[] \<notin> set UNICODE_SPACES"
  by (simp add: UNICODE_SPACES_def)

lemma find_space: "find P UNICODE_SPACES = Some space \<Longrightarrow> P space \<and> 0 < length space"
  using UNICODE_SPACES_ne by (auto simp: find_Some_iff in_set_conv_nth)

lemma leading_lfs_space_less: "leading_lfs_space bs = Some n \<Longrightarrow> 0 < n \<and> n \<le> length bs"
  by (auto simp: leading_lfs_space_def split: list.splits if_splits dest!: find_space prefix_length_le)

lemma trailing_lfs_space_less: "trailing_lfs_space bs = Some n \<Longrightarrow> 0 < n \<and> n \<le> length bs"
  by (auto simp: trailing_lfs_space_def Suc_le_eq split: if_splits dest!: find_space suffix_length_le)

function trim_leading :: "bytes \<Rightarrow> bytes" where
  "trim_leading bs = (case leading_lfs_space bs of None \<Rightarrow> bs | Some n \<Rightarrow> trim_leading (drop n bs))"
  by pat_completeness auto
termination
  by (relation "measure length") (auto dest: leading_lfs_space_less)

function trim_trailing :: "bytes \<Rightarrow> bytes" where
  "trim_trailing bs = (case trailing_lfs_space bs of None \<Rightarrow> bs | Some n \<Rightarrow> trim_trailing (take (length bs - n) bs))"
  by pat_completeness auto
termination
  by (relation "measure length") (auto dest!: trailing_lfs_space_less)

declare trim_leading.simps [simp del] trim_trailing.simps [simp del]

definition trim_lfs_space :: "bytes \<Rightarrow> bytes" where
  "trim_lfs_space bs = trim_trailing (trim_leading bs)"

definition lfs_name_byte :: "byte \<Rightarrow> bool" where
  "lfs_name_byte b \<longleftrightarrow> (97 \<le> b \<and> b \<le> 122) \<or> (65 \<le> b \<and> b \<le> 90) \<or> (48 \<le> b \<and> b \<le> 57) \<or> b = 95"

definition lfs_extension_priority :: "bytes \<Rightarrow> u8 option" where
  "lfs_extension_priority key =
    (if length key < 7 \<or> \<not> prefix (ascii ''ext-'') key \<or> \<not> is_digit (key ! 4) \<or> key ! 5 \<noteq> 45 \<or> \<not> lfs_name_byte (key ! 6)
     then None else Some (key ! 4 - 48))"

record lfs_state =
  ls_previous :: "bytes option"
  ls_oid :: "bytes option"
  ls_size :: "u64 option"
  ls_priorities :: "u8 list"

definition lfs_digest :: "bytes \<Rightarrow> bytes option" where
  "lfs_digest v = Option.bind (strip_prefix (ascii ''sha256:'') v) (\<lambda>digest.
     if length digest \<noteq> 64 \<or> \<not> (\<forall>b \<in> set digest. (48 \<le> b \<and> b \<le> 57) \<or> (97 \<le> b \<and> b \<le> 102)) then None else Some digest)"

definition lfs_line :: "bytes \<Rightarrow> lfs_state \<Rightarrow> lfs_state option" where
  "lfs_line line st =
    Option.bind (position (\<lambda>b. b = 32) line) (\<lambda>separator.
    let key = take separator line; v = drop (separator + 1) line in
    if key = [] \<or> v = [] \<or> (case ls_previous st of None \<Rightarrow> False | Some prior \<Rightarrow> key \<le> prior) then None
    else
      let st = st\<lparr>ls_previous := Some key\<rparr> in
      if key = ascii ''oid'' then
        (if ls_oid st \<noteq> None then None
         else Option.bind (lfs_digest v) (\<lambda>digest. if utf8_valid digest then Some (st\<lparr>ls_oid := Some digest\<rparr>) else None))
      else if key = ascii ''size'' then
        (if ls_size st \<noteq> None then None
         else if \<not> utf8_valid v then None
         else Option.bind (parse_i64 v) (\<lambda>parsed. if parsed < 0 then None else Some (st\<lparr>ls_size := Some (of_int parsed)\<rparr>)))
      else
        Option.bind (lfs_extension_priority key) (\<lambda>priority.
        Option.bind (lfs_digest v) (\<lambda>_.
        if priority \<in> set (ls_priorities st) then None
        else Some (st\<lparr>ls_priorities := ls_priorities st @ [priority]\<rparr>))))"

fun lfs_lines :: "bytes list \<Rightarrow> lfs_state \<Rightarrow> lfs_state option" where
  "lfs_lines [] st = Some st"
| "lfs_lines (line # rest) st = Option.bind (lfs_line line st) (lfs_lines rest)"

definition strip_cr :: "bytes \<Rightarrow> bytes" where
  "strip_cr line = (if line \<noteq> [] \<and> last line = 13 then butlast line else line)"

definition LFS_VERSIONS :: "bytes list" where
  "LFS_VERSIONS = [ascii ''version https://git-lfs.github.com/spec/v1'', ascii ''version https://hawser.github.com/spec/v1'',
     ascii ''version http://git-media.io/v/2'']"

definition parse_lfs_pointer :: "bytes \<Rightarrow> lfs_pointer option" where
  "parse_lfs_pointer payload =
    (if 1024 < length payload then None
     else case filter (\<lambda>line. line \<noteq> []) (map strip_cr (split_on 10 (trim_lfs_space payload))) of
       [] \<Rightarrow> None
     | first # lines \<Rightarrow>
         if first \<notin> set LFS_VERSIONS then None
         else Option.bind (lfs_lines lines \<lparr>ls_previous = None, ls_oid = None, ls_size = None, ls_priorities = []\<rparr>) (\<lambda>st.
           Option.bind (ls_oid st) (\<lambda>x. Option.bind (ls_size st) (\<lambda>size. Some \<lparr>lp_oid = x, lp_size = size\<rparr>))))"

section \<open>Reading a file\<close>

definition check_lines :: "file_options \<Rightarrow> error + unit" where
  "check_lines opts =
    (case fo_lines opts of
       Some (first, final) \<Rightarrow>
         if first = 0 \<or> final = 0 \<or> final < first
         then Inl (err_new InvalidArgument ''line range must be 1-based and ordered'') else Inr ()
     | None \<Rightarrow> Inr ())"

definition file_entry :: "resolved_path \<Rightarrow> error + resolved_entry" where
  "file_entry resolved =
    (let not_a_blob = err_new NotABlob ''path resolves to a tree, not a blob'' in
     case resolved of
       RootTree _ \<Rightarrow> Inl not_a_blob
     | Entry e \<Rightarrow> if re_kind e = KTree then Inl not_a_blob else Inr e)"

definition classify :: "tree_item_kind \<Rightarrow> bytes \<Rightarrow> file_kind" where
  "classify k payload =
    (if k = KSymlink then FSymlink
     else if 0 \<in> set (take BINARY_PROBE_BYTES payload) \<or> \<not> utf8_valid payload then FBinary
     else FText)"

definition read_entry :: "'w odb \<Rightarrow> bytes \<Rightarrow> file_options \<Rightarrow> resolved_entry \<Rightarrow> ('w, file_read) op" where
  "read_entry db path opts e =
    (if re_kind e = KGitlink then
       (\<lambda>s. (Inr \<lparr>rf_path = path, rf_blob_oid = re_oid e, rf_mode = re_mode e, rf_kind = FGitlink, rf_data = [],
             rf_start_line = None, rf_end_line = None, rf_total_lines = None, rf_truncated = False,
             rf_lfs_pointer = None, rf_stats = query_stats_of db 0 None s\<rparr>, s))
     else
       sbind (db_try_find db (re_oid e)) (\<lambda>found.
       case found of
         None \<Rightarrow> sraise (missing_blob (re_oid e))
       | Some (kind, payload) \<Rightarrow>
           if kind \<noteq> Blob then sraise (err_new NotABlob (''file object '' @ to_hex (re_oid e) @ '' is not a blob''))
           else sbind (slift (slice_payload payload opts)) (\<lambda>sliced s.
             (Inr \<lparr>rf_path = path, rf_blob_oid = re_oid e, rf_mode = re_mode e, rf_kind = classify (re_kind e) payload,
               rf_data = sp_data sliced, rf_start_line = sp_start_line sliced, rf_end_line = sp_end_line sliced,
               rf_total_lines = sp_total_lines sliced, rf_truncated = sp_truncated sliced,
               rf_lfs_pointer = parse_lfs_pointer payload,
               rf_stats = query_stats_of db 0 (sp_stopped_by sliced) s\<rparr>, s))))"

definition read_file :: "gix \<Rightarrow> 'w odb \<Rightarrow> snapshot \<Rightarrow> bytes \<Rightarrow> file_options \<Rightarrow> ('w, file_read) op" where
  "read_file G db snap path opts =
    sbind (slift (ensure_query_compatible db snap)) (\<lambda>_.
    sbind (slift (check_lines opts)) (\<lambda>_.
    sbind (resolve_path G db snap path) (\<lambda>resolved.
    sbind (slift (file_entry resolved)) (\<lambda>e.
    read_entry db path opts e))))"

section \<open>The lines of a payload\<close>

text \<open>The lines with their newlines; the last one may lack it.\<close>

fun lines_from :: "bytes \<Rightarrow> bytes \<Rightarrow> bytes list" where
  "lines_from cur [] = (if cur = [] then [] else [cur])"
| "lines_from cur (b # bs) = (if b = 10 then (cur @ [b]) # lines_from [] bs else lines_from (cur @ [b]) bs)"

abbreviation file_lines :: "bytes \<Rightarrow> bytes list" where
  "file_lines \<equiv> lines_from []"

lemma concat_lines_from [simp]: "concat (lines_from cur bs) = cur @ bs"
  by (induction bs arbitrary: cur) auto

lemma lines_from_shape:
  "10 \<notin> set cur \<Longrightarrow> l \<in> set (lines_from cur bs) \<Longrightarrow> l \<noteq> [] \<and> 10 \<notin> set (butlast l)"
proof (induction bs arbitrary: cur)
  case (Cons b bs)
  show ?case using Cons.IH [of "[]"] Cons.IH [of "cur @ [b]"] Cons.prems by (auto split: if_splits)
qed (auto split: if_splits dest: in_set_butlastD)

lemma lines_from_Nil [simp]: "lines_from cur bs = [] \<longleftrightarrow> cur = [] \<and> bs = []"
  by (induction bs arbitrary: cur) auto

lemma lines_from_complete:
  "10 \<notin> set cur \<Longrightarrow> l \<in> set (butlast (lines_from cur bs)) \<Longrightarrow> last l = 10"
proof (induction bs arbitrary: cur)
  case (Cons b bs)
  show ?case using Cons.IH [of "[]"] Cons.IH [of "cur @ [b]"] Cons.prems by (auto split: if_splits)
qed (auto split: if_splits)

lemma last_lines_from: "lines_from cur bs \<noteq> [] \<Longrightarrow> last (last (lines_from cur bs)) = last (cur @ bs)"
proof (induction bs arbitrary: cur)
  case (Cons b bs)
  then show ?case by (cases "bs = []") auto
qed auto

text \<open>More bytes leave the complete lines as they are.\<close>

lemma lines_from_append:
  "lines_from cur (xs @ ys) =
    (if ends_with_newline xs \<or> (xs = [] \<and> cur = []) then lines_from cur xs @ file_lines ys
     else butlast (lines_from cur xs) @ lines_from (last (lines_from cur xs)) ys)"
proof (induction xs arbitrary: cur)
  case Nil
  show ?case by (auto simp: ends_with_newline_def)
next
  case (Cons b xs)
  show ?case
  proof (cases "xs = []")
    case True
    then show ?thesis by (auto simp: ends_with_newline_def)
  next
    case False
    then have "ends_with_newline (b # xs) = ends_with_newline xs" by (simp add: ends_with_newline_def)
    with Cons.IH False show ?thesis by auto
  qed
qed

section \<open>Spans\<close>

fun offsets :: "nat \<Rightarrow> bytes list \<Rightarrow> (nat \<times> nat) list" where
  "offsets start [] = []"
| "offsets start (l # ls) = (start, start + length l) # offsets (start + length l) ls"

lemma spans_from_offsets: "spans_from start (start + length cur) bs = offsets start (lines_from cur bs)"
proof (induction bs arbitrary: start cur)
  case (Cons b bs)
  show ?case using Cons.IH [of "start + length cur + 1" "[]"] Cons.IH [of start "cur @ [b]"] by simp
qed simp

lemma line_spans_offsets: "line_spans bs = offsets 0 (file_lines bs)"
  using spans_from_offsets [of 0 "[]" bs] by (simp add: line_spans_def)

lemma length_offsets [simp]: "length (offsets start ls) = length ls"
  by (induction ls arbitrary: start) auto

lemma offsets_Nil [simp]: "offsets start ls = [] \<longleftrightarrow> ls = []"
  by (cases ls) simp_all

lemma offsets_nth:
  "i < length ls \<Longrightarrow> offsets start ls ! i = (start + length (concat (take i ls)), start + length (concat (take (Suc i) ls)))"
proof (induction ls arbitrary: start i)
  case (Cons l ls)
  then show ?case by (cases i) simp_all
qed simp

lemma newline_count: "length (filter (\<lambda>b. b = 10) bs) + (if bs \<noteq> [] \<and> \<not> ends_with_newline bs then 1 else 0) = length (file_lines bs)"
proof -
  have "length (filter (\<lambda>b. b = 10) bs) + (if cur @ bs \<noteq> [] \<and> \<not> ends_with_newline (cur @ bs) then 1 else 0) = length (lines_from cur bs)"
    if "10 \<notin> set cur" for cur
    using that
  proof (induction bs arbitrary: cur)
    case Nil
    then have "cur \<noteq> [] \<Longrightarrow> last cur \<noteq> 10" by (metis last_in_set)
    then show ?case by (auto simp: ends_with_newline_def)
  next
    case (Cons b bs)
    show ?case
    proof (cases "b = 10")
      case True
      then show ?thesis using Cons.IH [of "[]"] by (cases "bs = []") (auto simp: ends_with_newline_def)
    next
      case False
      then show ?thesis using Cons.IH [of "cur @ [b]"] Cons.prems by simp
    qed
  qed
  from this [of "[]"] show ?thesis by simp
qed

lemma line_count_lines: "line_count bs = line_number (length (file_lines bs))"
  unfolding line_count_def newline_count ..

lemma slice_lines:
  assumes "bs = concat ls" and "a \<le> b" and "b < length ls"
  shows "slice bs (fst (offsets 0 ls ! a)) (snd (offsets 0 ls ! b)) = Inr (concat (take (Suc b - a) (drop a ls)))"
proof -
  let ?x = "concat (take a ls)" and ?y = "concat (take (Suc b - a) (drop a ls))" and ?z = "concat (drop (Suc b) ls)"
  have pre: "concat (take (Suc b) ls) = ?x @ ?y"
    using assms(2) by (metis Suc_diff_le concat_append le_SucI le_add_diff_inverse take_add)
  then have "bs = ?x @ ?y @ ?z" using assms(1) by (metis append_assoc append_take_drop_id concat_append)
  moreover have "fst (offsets 0 ls ! a) = length ?x" "snd (offsets 0 ls ! b) = length (?x @ ?y)"
    using assms(2,3) pre by (simp_all add: offsets_nth)
  ultimately show ?thesis by (simp add: slice_def)
qed

section \<open>Line ranges\<close>

text \<open>The lines with numbers from \<open>lo\<close> to \<open>hi\<close>, counting from the line after \<open>i\<close>.\<close>

fun pick :: "nat \<Rightarrow> nat \<Rightarrow> nat \<Rightarrow> 'a list \<Rightarrow> 'a list" where
  "pick i lo hi [] = []"
| "pick i lo hi (l # ls) = (if lo \<le> Suc i \<and> Suc i \<le> hi then l # pick (Suc i) lo hi ls else pick (Suc i) lo hi ls)"

lemma pick_append: "pick i lo hi (xs @ ys) = pick i lo hi xs @ pick (i + length xs) lo hi ys"
  by (induction xs arbitrary: i) auto

lemma pick_after: "hi \<le> i \<Longrightarrow> pick i lo hi ls = []"
  by (induction ls arbitrary: i) auto

lemma pick_before: "i + length ls < lo \<Longrightarrow> pick i lo hi ls = []"
  by (induction ls arbitrary: i) auto

lemma pick_all: "lo \<le> Suc i \<Longrightarrow> pick i lo hi ls = take (hi - i) ls"
proof (induction ls arbitrary: i)
  case (Cons l ls)
  show ?case
  proof (cases "Suc i \<le> hi")
    case True
    then have "hi - i = Suc (hi - Suc i)" by simp
    with Cons.IH [of "Suc i"] Cons.prems True show ?thesis by simp
  next
    case False
    then show ?thesis by (simp add: pick_after)
  qed
qed simp

lemma pick_range: "1 \<le> lo \<Longrightarrow> pick 0 lo hi ls = take (Suc hi - lo) (drop (lo - 1) ls)"
proof -
  assume lo: "1 \<le> lo"
  have "pick 0 lo hi ls = pick 0 lo hi (take (lo - 1) ls) @ pick (length (take (lo - 1) ls)) lo hi (drop (lo - 1) ls)"
    by (metis append_take_drop_id pick_append add_0)
  also have "pick 0 lo hi (take (lo - 1) ls) = []" using lo by (intro pick_before) simp
  finally show ?thesis using lo by (cases "lo - 1 < length ls") (auto simp: pick_all min_def)
qed

lemma length_concat_pick: "length (concat (pick i lo hi ls)) \<le> length (concat ls)"
proof (induction ls arbitrary: i)
  case (Cons l ls)
  show ?case using Cons.IH [of "Suc i"] by simp
qed simp

section \<open>What a slice returns\<close>

text \<open>The loop over the scanned lines, when the last line is complete and when it is not.\<close>

lemma slice_next:
  assumes "scanned = pre @ l @ rest"
  shows "slice scanned (length pre) (length pre + length l) = Inr l"
  using assms by (simp add: slice_def)

lemma unat_line: "line_number (Suc i) = Inr line \<Longrightarrow> unat line = Suc i"
  by (auto simp: line_number_def unat_of_nat simp del: of_nat_Suc split: if_splits)

lemma collect_complete:
  assumes "collect_lines scanned False n lo hi i (offsets (length pre) ls) (data, st, en) = Inr (data', st', en')"
    and "scanned = pre @ concat ls"
  shows "data' = data @ concat (pick i (unat lo) (unat hi) ls)"
  using assms
proof (induction ls arbitrary: i pre data st en)
  case (Cons l ls)
  from Cons.prems(1) obtain line where line: "line_number (Suc i) = Inr line" by (auto simp: rbind_Inr_iff)
  note ln = unat_line [OF line]
  have piece: "slice scanned (length pre) (length pre + length l) = Inr l" using Cons.prems(2) by (simp add: slice_next)
  have range: "(line < lo \<or> hi < line) = (\<not> (unat lo \<le> Suc i \<and> Suc i \<le> unat hi))"
    unfolding word_less_nat_alt ln by auto
  show ?case
  proof (cases "unat lo \<le> Suc i \<and> Suc i \<le> unat hi")
    case True
    with Cons.prems line piece range
      Cons.IH [of "Suc i" "pre @ l" "data @ l" "case st of None \<Rightarrow> Some line | Some l \<Rightarrow> Some l" "Some line"]
    show ?thesis by (simp add: Let_def)
  next
    case False
    with Cons.prems line range Cons.IH [of "Suc i" "pre @ l" data st en] show ?thesis by auto
  qed
qed simp

lemma collect_partial:
  assumes "collect_lines scanned True (i + length ls) lo hi i (offsets (length pre) ls) (data, st, en) = Inr (data', st', en')"
    and "scanned = pre @ concat ls" and "ls \<noteq> []"
  shows "data' = data @ concat (pick i (unat lo) (unat hi) (butlast ls))
    @ (if st = None \<and> pick i (unat lo) (unat hi) (butlast ls) = [] \<and> unat lo \<le> i + length ls \<and> i + length ls \<le> unat hi
       then last ls else [])"
  using assms
proof (induction ls arbitrary: i pre data st en)
  case (Cons l ls)
  from Cons.prems(1) obtain line where line: "line_number (Suc i) = Inr line" by (auto simp: rbind_Inr_iff)
  note ln = unat_line [OF line]
  have piece: "slice scanned (length pre) (length pre + length l) = Inr l" using Cons.prems(2) by (simp add: slice_next)
  have range: "(line < lo \<or> hi < line) = (\<not> (unat lo \<le> Suc i \<and> Suc i \<le> unat hi))"
    unfolding word_less_nat_alt ln by auto
  show ?case
  proof (cases "ls = []")
    case True
    with Cons.prems line piece range show ?thesis by (auto simp: Let_def split: if_splits option.splits)
  next
    case False
    note ih = Cons.IH [of "Suc i" "pre @ l", OF _ _ False]
    have last: "last (l # ls) = last ls" "butlast (l # ls) = l # butlast ls" using False by simp_all
    show ?thesis
    proof (cases "unat lo \<le> Suc i \<and> Suc i \<le> unat hi")
      case True
      with Cons.prems line piece range False last
        ih [of "data @ l" "case st of None \<Rightarrow> Some line | Some l \<Rightarrow> Some l" "Some line"]
      show ?thesis by (simp add: Let_def split: option.splits)
    next
      case out: False
      with Cons.prems line range last ih [of data st en] show ?thesis by (auto simp del: last.simps butlast.simps)
    qed
  qed
qed simp

lemma lines_from_extends: "cur \<noteq> [] \<Longrightarrow> \<exists>l ls. lines_from cur bs = l # ls \<and> prefix cur l"
proof (induction bs arbitrary: cur)
  case (Cons b bs)
  then show ?case using Cons.IH [of "cur @ [b]"] by (auto simp: prefix_def)
qed simp

text \<open>The lines a range asks for.\<close>

definition requested_lines :: "u32 \<Rightarrow> u32 \<Rightarrow> bytes \<Rightarrow> bytes" where
  "requested_lines lo hi payload = concat (take (Suc (unat hi) - unat lo) (drop (unat lo - 1) (file_lines payload)))"

lemma requested_pick: "0 < lo \<Longrightarrow> requested_lines lo hi payload = concat (pick 0 (unat lo) (unat hi) (file_lines payload))"
  unfolding requested_lines_def by (subst pick_range) (simp_all add: word_less_nat_alt Suc_le_eq)

lemma span_at_offsets:
  "0 < line \<Longrightarrow> unat line \<le> length ls \<Longrightarrow> span_at (offsets 0 ls) line = Inr (offsets 0 ls ! (unat line - 1))"
  by (simp add: span_at_def)

lemma unat_total: "line_number n = Inr t \<Longrightarrow> unat t = n"
  by (auto simp: line_number_def unat_of_nat split: if_splits)

lemma slice_whole_lines_result:
  assumes "slice_whole_lines payload lo hi = Inr r" and "0 < lo" and "lo \<le> hi"
  shows "sp_data r = requested_lines lo hi payload \<and> \<not> sp_truncated r"
proof (cases "file_lines payload = []")
  case True
  with assms(1) show ?thesis by (auto simp: slice_whole_lines_def line_spans_offsets requested_lines_def)
next
  case False
  let ?ls = "file_lines payload"
  from assms(1) False obtain t where t: "line_number (length ?ls) = Inr t"
    by (auto simp: slice_whole_lines_def line_spans_offsets Let_def rbind_Inr_iff)
  note total_lines = unat_total [OF t]
  have nonempty: "offsets 0 ?ls \<noteq> []" using False by simp
  show ?thesis
  proof (cases "t < lo")
    case True
    then have "requested_lines lo hi payload = []" using total_lines by (simp add: requested_lines_def word_less_nat_alt)
    with assms(1) t nonempty True show ?thesis by (auto simp: slice_whole_lines_def line_spans_offsets)
  next
    case False
    let ?e = "min hi t"
    have e: "0 < ?e" "lo \<le> ?e" "unat ?e \<le> length ?ls" "unat ?e = min (unat hi) (length ?ls)"
      using assms(2,3) False total_lines by (auto simp: min_def word_le_nat_alt word_less_nat_alt)
    have le: "unat lo \<le> unat ?e" "0 < unat lo" using e(2) assms(2) by (simp_all add: word_le_nat_alt word_less_nat_alt)
    have "slice payload (fst (offsets 0 ?ls ! (unat lo - 1))) (snd (offsets 0 ?ls ! (unat ?e - 1)))
        = Inr (concat (take (Suc (unat ?e - 1) - (unat lo - 1)) (drop (unat lo - 1) ?ls)))"
      using le e(3) by (intro slice_lines) auto
    also have "take (Suc (unat ?e - 1) - (unat lo - 1)) (drop (unat lo - 1) ?ls)
        = take (Suc (unat hi) - unat lo) (drop (unat lo - 1) ?ls)"
    proof (cases "unat hi \<le> length ?ls")
      case True
      then have "Suc (unat ?e - 1) - (unat lo - 1) = Suc (unat hi) - unat lo" using le e(4) by linarith
      then show ?thesis by simp
    next
      case False
      then show ?thesis using le e(4) by simp
    qed
    finally show ?thesis
      using assms(1,2) t nonempty False e le span_at_offsets [OF assms(2), of ?ls] span_at_offsets [OF e(1,3)]
      by (auto simp: slice_whole_lines_def line_spans_offsets requested_lines_def Let_def)
  qed
qed

lemma slice_capped_lines_result:
  assumes "slice_capped_lines payload n lo hi = Inr r" and "0 < lo" and "n < length payload"
  shows "prefix (sp_data r) (requested_lines lo hi payload) \<and> length (sp_data r) \<le> n
    \<and> (\<not> sp_truncated r \<longrightarrow> sp_data r = requested_lines lo hi payload)"
proof -
  let ?scanned = "take n payload" and ?rest = "drop n payload"
  let ?ls = "file_lines ?scanned" and ?lo = "unat lo" and ?hi = "unat hi"
  let ?part = "?scanned \<noteq> [] \<and> \<not> ends_with_newline ?scanned"
  from assms(1) obtain data st en where run:
    "collect_lines ?scanned ?part (length ?ls) lo hi 0 (offsets (length ([] :: bytes)) ?ls) ([], None, None) = Inr (data, st, en)"
    and r: "sp_data r = data" "sp_truncated r \<longleftrightarrow> \<not> ?hi \<le> length ?ls - (if ?part then 1 else 0)"
    by (auto simp: slice_capped_lines_def line_spans_offsets rbind_Inr_iff Let_def)
  have whole: "requested_lines lo hi payload = concat (pick 0 ?lo ?hi (file_lines (?scanned @ ?rest)))"
    by (simp add: requested_pick [OF assms(2)])
  show ?thesis
  proof (cases ?part)
    case False
    then have lines: "file_lines (?scanned @ ?rest) = ?ls @ file_lines ?rest"
      by (subst lines_from_append) auto
    have data: "data = concat (pick 0 ?lo ?hi ?ls)"
      using collect_complete [of ?scanned "length ?ls" lo hi 0 "[]" ?ls "[]" None None data st en]
        run [unfolded eq_False [THEN iffD2, OF False]] by simp
    then have "length data \<le> n" using length_concat_pick [of 0 ?lo ?hi ?ls] by simp
    moreover have "\<not> sp_truncated r \<longrightarrow> pick (length ?ls) ?lo ?hi (file_lines ?rest) = []"
      using r(2) False by (auto intro: pick_after)
    ultimately show ?thesis unfolding whole lines pick_append r(1) data by simp
  next
    case True
    then have ne: "?ls \<noteq> []" by simp
    define k where "k = length (butlast ?ls)"
    have len: "length ?ls = Suc k" using ne by (simp add: k_def)
    obtain l1 l2 where more: "lines_from (last ?ls) ?rest = l1 # l2" "prefix (last ?ls) l1"
    proof -
      have "last ?ls \<noteq> []" using lines_from_shape [of "[]" "last ?ls" ?scanned, OF _ last_in_set [OF ne]] by simp
      then have "\<exists>l1 l2. lines_from (last ?ls) ?rest = l1 # l2 \<and> prefix (last ?ls) l1"
        by (rule lines_from_extends)
      with that show thesis by blast
    qed
    have lines: "file_lines (?scanned @ ?rest) = butlast ?ls @ l1 # l2"
      by (subst lines_from_append) (use True more(1) in auto)
    have data: "data = concat (pick 0 ?lo ?hi (butlast ?ls))
        @ (if pick 0 ?lo ?hi (butlast ?ls) = [] \<and> ?lo \<le> Suc k \<and> Suc k \<le> ?hi then last ?ls else [])"
      using collect_partial [of ?scanned 0 ?ls lo hi "[]" "[]" None None data st en]
        run [unfolded eqTrueI [OF True]] ne len by simp
    have "length (concat (butlast ?ls)) + length (last ?ls) = length ?scanned"
      using arg_cong [OF append_butlast_last_id [OF ne], of "\<lambda>xs. length (concat xs)"]
      by (simp del: append_butlast_last_id)
    then have "length data \<le> n" using data length_concat_pick [of 0 ?lo ?hi "butlast ?ls"] by (auto split: if_splits)
    moreover have "\<not> sp_truncated r \<longrightarrow> ?hi \<le> k" using r(2) True len by auto
    moreover have "prefix data (concat (pick 0 ?lo ?hi (butlast ?ls @ l1 # l2)))"
      using more(2) unfolding data pick_append k_def [symmetric] by (auto simp: k_def prefix_def)
    moreover have "data = concat (pick 0 ?lo ?hi (butlast ?ls @ l1 # l2))" if "?hi \<le> k"
      using that pick_after [of ?hi k ?lo "l1 # l2"] unfolding data pick_append by (simp add: k_def)
    ultimately show ?thesis unfolding whole lines r(1) by blast
  qed
qed

lemma line_range_slice:
  assumes "slice_payload payload opts = Inr r" and "fo_lines opts = Some (lo, hi)" and "0 < lo" and "lo \<le> hi"
  shows "prefix (sp_data r) (requested_lines lo hi payload) \<and> length (sp_data r) \<le> fo_max_bytes opts
    \<and> (\<not> sp_truncated r \<longrightarrow> sp_data r = requested_lines lo hi payload)
    \<and> (sp_truncated r \<longrightarrow> fo_max_bytes opts < length payload)"
proof (cases "fo_max_bytes opts < length payload")
  case True
  with assms slice_capped_lines_result [of payload "fo_max_bytes opts" lo hi r] show ?thesis
    by (simp add: slice_payload_def min_def)
next
  case False
  with assms have r: "slice_whole_lines payload lo hi = Inr r" by (simp add: slice_payload_def)
  note result = slice_whole_lines_result [OF r assms(3,4)]
  have "requested_lines lo hi payload = concat (pick 0 (unat lo) (unat hi) (file_lines payload))"
    by (rule requested_pick [OF assms(3)])
  then have "length (requested_lines lo hi payload) \<le> length payload"
    using length_concat_pick [of 0 "unat lo" "unat hi" "file_lines payload"] by simp
  with result False show ?thesis by auto
qed

text \<open>
  C25. A line range reads exactly those lines: for an ordered range from line 1 on, the returned
  bytes begin the requested lines of the file and fit the byte cap; unless the result says it
  was truncated they are all of the requested lines, and it only says so when the cap is
  smaller than the file.
\<close>

theorem line_range_reads_lines:
  assumes "slice_payload payload opts = Inr r" and "fo_lines opts = Some (lo, hi)" and "0 < lo" and "lo \<le> hi"
  shows "prefix (sp_data r) (requested_lines lo hi payload) \<and> length (sp_data r) \<le> fo_max_bytes opts
    \<and> (\<not> sp_truncated r \<longrightarrow> sp_data r = requested_lines lo hi payload)
    \<and> (sp_truncated r \<longrightarrow> fo_max_bytes opts < length payload)"
  using assms by (rule line_range_slice)

lemma rposition_last:
  assumes "rposition (\<lambda>b. b = (10 :: byte)) bs = Some i"
  shows "i < length bs \<and> bs ! i = 10"
  using rposition_Some [OF assms] by blast

lemma byte_cap_slice:
  assumes "slice_payload payload opts = Inr r" and "fo_lines opts = None"
  shows "prefix (sp_data r) payload \<and> length (sp_data r) \<le> fo_max_bytes opts
    \<and> (sp_truncated r \<longleftrightarrow> fo_max_bytes opts < length payload)
    \<and> (\<not> sp_truncated r \<longrightarrow> sp_data r = payload \<and> map_option unat (sp_total_lines r) = Some (length (file_lines payload)))
    \<and> (sp_truncated r \<and> 10 \<in> set (take (fo_max_bytes opts) payload) \<longrightarrow> ends_with_newline (sp_data r))"
proof (cases "fo_max_bytes opts < length payload")
  case False
  with assms obtain n where "line_count payload = Inr n"
    "r = \<lparr>sp_data = payload, sp_start_line = None, sp_end_line = None, sp_total_lines = Some n, sp_truncated = False,
      sp_stopped_by = None\<rparr>"
    by (auto simp: slice_payload_def slice_bytes_def Let_def rbind_Inr_iff)
  with False show ?thesis using unat_total [of "length (file_lines payload)" n] by (auto simp: line_count_lines)
next
  case True
  define scanned where "scanned = take (fo_max_bytes opts) payload"
  define n where "n = (if scanned \<noteq> [] \<and> \<not> ends_with_newline scanned
    then (case rposition (\<lambda>b. b = 10) scanned of Some i \<Rightarrow> i + 1 | None \<Rightarrow> length scanned) else length scanned)"
  have "slice_bytes payload (fo_max_bytes opts) = Inr r" using True assms by (simp add: slice_payload_def min_def)
  then have r: "sp_data r = take n scanned" "sp_truncated r"
    using True unfolding slice_bytes_def Let_def scanned_def [symmetric] n_def by auto
  have "ends_with_newline (take n scanned)" if ten: "10 \<in> set scanned"
  proof (cases "ends_with_newline scanned")
    case False
    obtain z where "position (\<lambda>b. b = 10) (rev scanned) = Some z"
      using ten by (cases "position (\<lambda>b. b = 10) (rev scanned)") auto
    then obtain i where i: "rposition (\<lambda>b. b = 10) scanned = Some i" by (simp add: rposition_def)
    have "scanned \<noteq> []" using ten by auto
    with False i have "n = Suc i" by (simp add: n_def)
    then have "take n scanned = take i scanned @ [10]"
      using rposition_last [OF i] take_Suc_conv_app_nth [of i scanned] by simp
    then show ?thesis by (simp add: ends_with_newline_def)
  qed (simp add: n_def)
  moreover have "prefix (take n scanned) payload"
    unfolding scanned_def by (meson take_is_prefix prefix_order.trans)
  moreover have "length (take n scanned) \<le> fo_max_bytes opts" by (simp add: scanned_def)
  ultimately show ?thesis using r True by (simp add: scanned_def)
qed

text \<open>
  A read without a line range returns the beginning of the file within the byte cap: all of
  it, with the number of its lines, when it fits, and otherwise a prefix that ends at a line
  boundary whenever the cap covers one.
\<close>

theorem byte_cap_reads_prefix:
  assumes "slice_payload payload opts = Inr r" and "fo_lines opts = None"
  shows "prefix (sp_data r) payload \<and> length (sp_data r) \<le> fo_max_bytes opts
    \<and> (sp_truncated r \<longleftrightarrow> fo_max_bytes opts < length payload)
    \<and> (\<not> sp_truncated r \<longrightarrow> sp_data r = payload \<and> map_option unat (sp_total_lines r) = Some (length (file_lines payload)))
    \<and> (sp_truncated r \<and> 10 \<in> set (take (fo_max_bytes opts) payload) \<longrightarrow> ends_with_newline (sp_data r))"
  using assms by (rule byte_cap_slice)

lemma line_number_Inl: "line_number n = Inl e \<longleftrightarrow> e = too_many_lines \<and> 2 ^ 32 \<le> n"
  by (auto simp: line_number_def)

lemma collect_lines_Inl:
  assumes "collect_lines scanned part n lo hi i (offsets (length pre) ls) acc = Inl e" and "scanned = pre @ concat ls"
  shows "e = too_many_lines \<and> 2 ^ 32 \<le> i + length ls"
  using assms
proof (induction ls arbitrary: i pre acc)
  case (Cons l ls)
  obtain data st en where acc: "acc = (data, st, en)" by (cases acc)
  show ?case
  proof (cases "line_number (Suc i)")
    case (Inl e')
    with Cons.prems(1) show ?thesis by (simp add: acc line_number_Inl)
  next
    case (Inr line)
    have "slice scanned (length pre) (length pre + length l) = Inr l" using Cons.prems(2) by (simp add: slice_next)
    with Cons.prems Inr obtain acc' where
      "collect_lines scanned part n lo hi (Suc i) (offsets (length (pre @ l)) ls) acc' = Inl e"
      by (auto simp: acc Let_def split: if_splits)
    from Cons.IH [OF this] Cons.prems(2) show ?thesis by simp
  qed
qed simp

lemma lines_of_append: "length (file_lines xs) \<le> length (file_lines (xs @ ys))"
proof (cases "ends_with_newline xs \<or> xs = []")
  case True
  then show ?thesis by (auto simp: lines_from_append)
next
  case False
  then have ne: "file_lines xs \<noteq> []" by simp
  have "last (file_lines xs) \<noteq> []" using lines_from_shape [OF _ last_in_set [OF ne]] by simp
  then have "lines_from (last (file_lines xs)) ys \<noteq> []" by simp
  then have "1 \<le> length (lines_from (last (file_lines xs)) ys)" unfolding One_nat_def Suc_le_eq by (rule length_greater_0_conv [THEN iffD2])
  moreover have "length (file_lines (xs @ ys)) = length (file_lines xs) - 1 + length (lines_from (last (file_lines xs)) ys)"
    using False by (simp add: lines_from_append)
  ultimately show ?thesis by linarith
qed

lemma lines_of_prefix: "length (file_lines (take n payload)) \<le> length (file_lines payload)"
  using lines_of_append [of "take n payload" "drop n payload"] by simp

lemma slice_whole_lines_ok:
  assumes "0 < lo" and "lo \<le> hi" and "slice_whole_lines payload lo hi = Inl e"
  shows "e = too_many_lines \<and> 2 ^ 32 \<le> length (file_lines payload)"
proof (cases "line_number (length (file_lines payload))")
  case (Inl e')
  with assms(3) line_number_Inl [THEN iffD1, OF Inl] show ?thesis
    by (auto simp: slice_whole_lines_def line_spans_offsets Let_def split: if_splits)
next
  case (Inr t)
  let ?ls = "file_lines payload" and ?e = "min hi t"
  note total_lines = unat_total [OF Inr]
  have "payload \<noteq> []" "\<not> t < lo" using assms(3) Inr
    by (auto simp: slice_whole_lines_def line_spans_offsets Let_def split: if_splits)
  then have e: "0 < ?e" "lo \<le> ?e" "unat ?e \<le> length ?ls"
    using assms(1,2) total_lines by (auto simp: min_def word_le_nat_alt word_less_nat_alt)
  have le: "unat lo \<le> unat ?e" "0 < unat lo" using e(2) assms(1) by (simp_all add: word_le_nat_alt word_less_nat_alt)
  have "slice payload (fst (offsets 0 ?ls ! (unat lo - 1))) (snd (offsets 0 ?ls ! (unat ?e - 1)))
      = Inr (concat (take (Suc (unat ?e - 1) - (unat lo - 1)) (drop (unat lo - 1) ?ls)))"
    using le e(3) by (intro slice_lines) auto
  with assms(3) Inr \<open>payload \<noteq> []\<close> \<open>\<not> t < lo\<close> e le span_at_offsets [OF assms(1), of ?ls] span_at_offsets [OF e(1,3)]
  show ?thesis by (simp add: slice_whole_lines_def line_spans_offsets Let_def)
qed

text \<open>
  Slicing never runs outside the payload: with a range that \<open>read_file\<close> admits, or
  none, the only failure is a file with more lines than the result format can number.
\<close>

theorem slicing_never_panics:
  assumes "check_lines opts = Inr ()"
  shows "(\<exists>r. slice_payload payload opts = Inr r) \<or> (slice_payload payload opts = Inl too_many_lines
    \<and> 2 ^ 32 \<le> length (file_lines payload))"
proof (cases "slice_payload payload opts")
  case (Inl e)
  let ?n = "fo_max_bytes opts"
  consider (bytes) "fo_lines opts = None"
    | (whole) lo hi where "fo_lines opts = Some (lo, hi)" "\<not> ?n < length payload"
    | (capped) lo hi where "fo_lines opts = Some (lo, hi)" "?n < length payload"
    by (metis not_None_eq surj_pair)
  then have "e = too_many_lines \<and> 2 ^ 32 \<le> length (file_lines payload)"
  proof cases
    case bytes
    with Inl show ?thesis
      by (auto simp: slice_payload_def slice_bytes_def Let_def line_count_lines line_number_Inl rbind_def
          split: sum.splits if_splits)
  next
    case whole
    with assms Inl show ?thesis
      by (intro slice_whole_lines_ok [of lo hi]) (auto simp: check_lines_def slice_payload_def word_neq_0_conv split: if_splits)
  next
    case capped
    let ?s = "take ?n payload"
    from capped Inl have "collect_lines ?s (?s \<noteq> [] \<and> \<not> ends_with_newline ?s) (length (file_lines ?s)) lo hi 0
        (offsets (length ([] :: bytes)) (file_lines ?s)) ([], None, None) = Inl e"
      by (auto simp: slice_payload_def slice_capped_lines_def Let_def line_spans_offsets rbind_def min_def split: sum.splits)
    from collect_lines_Inl [OF this] lines_of_prefix [of ?n payload] show ?thesis by simp
  qed
  with Inl show ?thesis by blast
qed simp

theorem line_range_reads_lines_witness:
  "\<exists>r. slice_payload (ascii ''a'' @ 10 # ascii ''b'' @ 10 # ascii ''c'') \<lparr>fo_lines = Some (2, 3), fo_max_bytes = 4\<rparr> = Inr r
    \<and> sp_truncated r \<and> sp_data r = ascii ''b'' @ [10]
    \<and> prefix (sp_data r) (requested_lines 2 3 (ascii ''a'' @ 10 # ascii ''b'' @ 10 # ascii ''c''))"
proof -
  let ?p = "ascii ''a'' @ 10 # ascii ''b'' @ 10 # ascii ''c''" and ?o = "\<lparr>fo_lines = Some (2, 3), fo_max_bytes = 4\<rparr>"
  obtain r where r: "slice_payload ?p ?o = Inr r" "sp_truncated r" "sp_data r = ascii ''b'' @ [10]"
    by (simp add: slice_payload_def slice_capped_lines_def line_spans_def Let_def ends_with_newline_def line_number_def
        slice_def word_less_nat_alt)
  from line_range_reads_lines [OF r(1), of 2 3] r show ?thesis by (auto simp: word_less_nat_alt)
qed

theorem byte_cap_reads_prefix_witness:
  "\<exists>r. slice_payload (ascii ''ab'' @ 10 # ascii ''cd'') \<lparr>fo_lines = None, fo_max_bytes = 4\<rparr> = Inr r \<and> sp_truncated r
    \<and> prefix (sp_data r) (ascii ''ab'' @ 10 # ascii ''cd'') \<and> ends_with_newline (sp_data r)"
proof -
  let ?p = "ascii ''ab'' @ 10 # ascii ''cd''" and ?o = "\<lparr>fo_lines = None, fo_max_bytes = 4\<rparr>"
  obtain r where r: "slice_payload ?p ?o = Inr r"
    by (simp add: slice_payload_def slice_bytes_def Let_def)
  from byte_cap_reads_prefix [OF r] r show ?thesis by auto
qed

theorem slicing_never_panics_witness:
  "(\<exists>r. slice_payload [10, 65] \<lparr>fo_lines = Some (7, 9), fo_max_bytes = 10\<rparr> = Inr r)
    \<or> (slice_payload [10, 65] \<lparr>fo_lines = Some (7, 9), fo_max_bytes = 10\<rparr> = Inl too_many_lines
      \<and> 2 ^ 32 \<le> length (file_lines [10, 65]))"
  by (rule slicing_never_panics) (simp add: check_lines_def word_less_nat_alt)

end
