(* ===== verification/FileContent.thy ===== *)
theory FileContent
  imports FileRead TreeExamples
begin

text \<open>
  What a file read returns: the recognition of printed Git LFS pointers, and the composition
  of path resolution, the object store and slicing.
\<close>

section \<open>Pointers\<close>

lemma unicode_space_bytes: "space \<in> set UNICODE_SPACES \<Longrightarrow> 128 \<le> hd space \<and> 128 \<le> last space"
  by (auto simp: UNICODE_SPACES_def)

lemma find_space_in: "find P UNICODE_SPACES = Some space \<Longrightarrow> space \<in> set UNICODE_SPACES"
  by (auto simp: find_Some_iff)

lemma no_leading_space:
  assumes "\<not> ascii_space b" and "b < 128"
  shows "leading_lfs_space (b # bs) = None"
proof -
  have "find (\<lambda>space. prefix space (b # bs)) UNICODE_SPACES = None"
  proof (rule ccontr)
    assume "find (\<lambda>space. prefix space (b # bs)) UNICODE_SPACES \<noteq> None"
    then obtain space where s: "find (\<lambda>space. prefix space (b # bs)) UNICODE_SPACES = Some space" by auto
    then have "hd space = b" using find_space [OF s] by (cases space) auto
    with unicode_space_bytes [OF find_space_in [OF s]] assms(2) show False by (metis leD)
  qed
  with assms(1) show ?thesis by (simp add: leading_lfs_space_def)
qed

lemma no_trailing_space:
  assumes "\<not> ascii_space b" and "b < 128"
  shows "trailing_lfs_space (bs @ [b]) = None"
proof -
  have "find (\<lambda>space. suffix space (bs @ [b])) UNICODE_SPACES = None"
  proof (rule ccontr)
    assume "find (\<lambda>space. suffix space (bs @ [b])) UNICODE_SPACES \<noteq> None"
    then obtain space where s: "find (\<lambda>space. suffix space (bs @ [b])) UNICODE_SPACES = Some space" by auto
    then have "last space = b" using find_space [OF s] by (cases space rule: rev_cases) (auto simp: suffix_def)
    with unicode_space_bytes [OF find_space_in [OF s]] assms(2) show False by (metis leD)
  qed
  with assms(1) show ?thesis by (simp add: trailing_lfs_space_def)
qed

lemma trim_newline:
  assumes "\<not> ascii_space a" and "a < 128" and "\<not> ascii_space z" and "z < 128"
  shows "trim_lfs_space (a # bs @ [z, 10]) = a # bs @ [z]"
proof -
  have "trim_leading (a # bs @ [z, 10]) = a # bs @ [z, 10]"
    by (subst trim_leading.simps) (simp add: no_leading_space assms)
  moreover have "trailing_lfs_space ((a # bs @ [z]) @ [10]) = Some 1"
    by (simp add: trailing_lfs_space_def ascii_space_def)
  then have "trim_trailing ((a # bs @ [z]) @ [10]) = trim_trailing ((a # bs) @ [z])"
    by (subst trim_trailing.simps) simp
  moreover have "trim_trailing ((a # bs) @ [z]) = (a # bs) @ [z]"
    by (subst trim_trailing.simps) (simp only: no_trailing_space [OF assms(3,4)] option.case)
  ultimately show ?thesis by (simp add: trim_lfs_space_def)
qed

definition lower_hex :: "byte \<Rightarrow> bool" where
  "lower_hex b \<longleftrightarrow> (48 \<le> b \<and> b \<le> 57) \<or> (97 \<le> b \<and> b \<le> 102)"

definition print_lfs_pointer :: "bytes \<Rightarrow> bytes \<Rightarrow> bytes" where
  "print_lfs_pointer digest digits =
    hd LFS_VERSIONS @ [10] @ ascii ''oid sha256:'' @ digest @ [10] @ ascii ''size '' @ digits @ [10]"

lemma is_digit_bounds: "is_digit b \<Longrightarrow> b < 128 \<and> \<not> ascii_space b \<and> b \<noteq> 10 \<and> b \<noteq> 13"
  by (auto simp: is_digit_def ascii_space_def word_le_nat_alt word_less_nat_alt)

lemma lower_hex_bounds: "lower_hex b \<Longrightarrow> unat b < 128 \<and> b \<noteq> 10 \<and> b \<noteq> 13"
  by (auto simp: lower_hex_def word_le_nat_alt)

lemma lfs_oid_line:
  assumes "length digest = 64" and "\<forall>b \<in> set digest. lower_hex b"
  shows "lfs_line (ascii ''oid sha256:'' @ digest) \<lparr>ls_previous = None, ls_oid = None, ls_size = None, ls_priorities = []\<rparr>
    = Some \<lparr>ls_previous = Some (ascii ''oid''), ls_oid = Some digest, ls_size = None, ls_priorities = []\<rparr>"
proof -
  have "lfs_digest (ascii ''sha256:'' @ digest) = Some digest"
    using assms by (auto simp: lfs_digest_def lower_hex_def strip_prefix_def)
  moreover have "utf8_valid digest" using assms(2) lower_hex_bounds by (intro utf8_valid_ascii) blast
  ultimately show ?thesis by (simp add: lfs_line_def Let_def)
qed

lemma lfs_size_line:
  assumes "digits \<noteq> []" and "\<forall>b \<in> set digits. is_digit b" and "parse_i64 digits = Some n" and "0 \<le> n"
  shows "lfs_line (ascii ''size '' @ digits) \<lparr>ls_previous = Some (ascii ''oid''), ls_oid = x, ls_size = None, ls_priorities = []\<rparr>
    = Some \<lparr>ls_previous = Some (ascii ''size''), ls_oid = x, ls_size = Some (of_int n), ls_priorities = []\<rparr>"
proof -
  have "utf8_valid digits" using assms(2) by (intro utf8_valid_ascii) (auto simp: is_digit_def)
  with assms show ?thesis by (simp add: lfs_line_def Let_def)
qed

text \<open>
  Printed LFS pointers are recognised: a version line, a lower-case SHA-256 name and a
  size in decimal digits, each on its line, parse to that name and that size.
\<close>

theorem lfs_pointer_roundtrip:
  assumes "length digest = 64" and "\<forall>b \<in> set digest. lower_hex b"
    and "digits \<noteq> []" and "\<forall>b \<in> set digits. is_digit b" and "length digits \<le> 800"
    and "parse_i64 digits = Some n"
  shows "parse_lfs_pointer (print_lfs_pointer digest digits) = Some \<lparr>lp_oid = digest, lp_size = of_int n\<rparr>"
proof -
  let ?v = "hd LFS_VERSIONS" and ?o = "ascii ''oid sha256:'' @ digest" and ?z = "ascii ''size '' @ digits"
  have n: "0 \<le> n" using assms(3,4,6)
    by (cases digits) (auto simp: parse_i64_def is_digit_def Let_def split: if_splits option.splits)
  obtain ds d where d: "digits = ds @ [d]" "is_digit d" using assms(3,4) by (cases digits rule: rev_cases) auto
  obtain v where v: "?v = 118 # v" "10 \<notin> set v" "last (118 # v) \<noteq> 13" by (simp add: LFS_VERSIONS_def)
  have ten: "10 \<notin> set ?v" "10 \<notin> set ?o" "10 \<notin> set ?z"
    using v(1,2) assms(2,4) lower_hex_bounds is_digit_bounds by auto
  have "trim_lfs_space (print_lfs_pointer digest digits) = ?v @ 10 # ?o @ 10 # ?z"
    using trim_newline [of 118 d "v @ 10 # ?o @ 10 # ascii ''size '' @ ds"] is_digit_bounds [OF d(2)]
    by (simp add: print_lfs_pointer_def v(1) d(1) ascii_space_def)
  then have "split_on 10 (trim_lfs_space (print_lfs_pointer digest digits)) = [?v, ?o, ?z]"
    by (simp only: split_on_append [OF ten(1)] split_on_append [OF ten(2)] split_on_single [OF ten(3)])
  moreover have ne: "last digest \<noteq> 13" "digest \<noteq> []" using assms(1,2) lower_hex_bounds
    by (metis last_in_set list.size(3) zero_neq_numeral, auto)
  then have "strip_cr ?v = ?v" "strip_cr ?o = ?o" "strip_cr ?z = ?z"
    using v d is_digit_bounds [OF d(2)] by (simp_all add: strip_cr_def)
  moreover have "length (print_lfs_pointer digest digits) \<le> 1024"
    using assms(1,5) by (simp add: print_lfs_pointer_def LFS_VERSIONS_def)
  ultimately show ?thesis
    using lfs_oid_line [OF assms(1,2)] lfs_size_line [OF assms(3,4,6) n] v(1) ne(2) assms(3)
    by (simp add: parse_lfs_pointer_def LFS_VERSIONS_def del: ascii_simps)
qed

theorem lfs_pointer_roundtrip_witness:
  "parse_lfs_pointer (print_lfs_pointer (replicate 64 97) [49, 50]) = Some \<lparr>lp_oid = replicate 64 97, lp_size = 12\<rparr>"
  using lfs_pointer_roundtrip [of "replicate 64 97" "[49, 50]" 12]
  by (simp add: lower_hex_def is_digit_def parse_i64_def)

section \<open>The contents a read returns\<close>

text \<open>What a slice of a payload may contain, with and without a line range.\<close>

definition slice_admitted :: "file_options \<Rightarrow> bytes \<Rightarrow> bytes \<Rightarrow> bool \<Rightarrow> bool" where
  "slice_admitted opts payload data truncated \<longleftrightarrow>
    (let asked = (case fo_lines opts of None \<Rightarrow> payload | Some (lo, hi) \<Rightarrow> requested_lines lo hi payload) in
     prefix data asked \<and> length data \<le> fo_max_bytes opts \<and> (\<not> truncated \<longrightarrow> data = asked)
     \<and> (truncated \<longrightarrow> fo_max_bytes opts < length payload))"

lemma slice_payload_admitted:
  assumes "slice_payload payload opts = Inr r" and "check_lines opts = Inr ()"
  shows "slice_admitted opts payload (sp_data r) (sp_truncated r)"
proof (cases "fo_lines opts")
  case None
  with byte_cap_slice [OF assms(1)] show ?thesis by (auto simp: slice_admitted_def)
next
  case (Some range)
  then obtain lo hi where range: "fo_lines opts = Some (lo, hi)" by (cases range) auto
  then have "0 < lo" "lo \<le> hi" using assms(2) by (auto simp: check_lines_def word_neq_0_conv split: if_splits)
  with line_range_slice [OF assms(1) range] range show ?thesis by (auto simp: slice_admitted_def)
qed

lemma read_entry_run:
  assumes "object_store db I (\<lambda>x v. v = m x)" and "I w" and "read_entry db path opts e (w, b) = (Inr f, s)"
  shows "rf_blob_oid f = re_oid e \<and> rf_mode f = re_mode e \<and> rf_path f = path
    \<and> (if re_kind e = KGitlink then rf_kind f = FGitlink \<and> rf_data f = []
       else \<exists>payload sliced. m (re_oid e) = Some (Blob, payload) \<and> slice_payload payload opts = Inr sliced
         \<and> rf_kind f = classify (re_kind e) payload \<and> rf_lfs_pointer f = parse_lfs_pointer payload
         \<and> rf_data f = sp_data sliced \<and> rf_truncated f = sp_truncated sliced)"
proof (cases "re_kind e = KGitlink")
  case True
  with assms(3) show ?thesis by (auto simp: read_entry_def)
next
  case False
  with assms(3) obtain v s2 where v: "db_try_find db (re_oid e) (w, b) = (Inr v, s2)"
    by (auto simp: read_entry_def sbind_Inr_iff)
  have "v = m (re_oid e)" using answersD [OF object_store.find_law [OF assms(1)], of "(w, b)"] assms(2) v by simp
  with assms(3) v False show ?thesis
    by (cases "m (re_oid e)") (auto simp: read_entry_def sr_inv split: if_splits, metis)
qed

text \<open>
  C24. Reading a file returns what the path names: over a store that answers from fixed
  contents, a successful read reports the name and mode of the entry the path leads to, which
  is not a tree; a gitlink has no data, and any other entry is a stored blob whose requested
  bytes or lines the data begins, in full unless the result says it was truncated.
\<close>

theorem read_file_returns_content:
  assumes "object_store db I (\<lambda>x v. v = m x)" and "I w" and "read_file G db snap path opts (w, b) = (Inr f, s)"
  shows "\<exists>e. leads_to (entries_at G (db_hash_kind db) m) (tree_oid snap) (split_on 47 path) e
    \<and> oe_kind e \<noteq> KTree \<and> rf_blob_oid f = oe_oid e \<and> rf_mode f = oe_mode e
    \<and> (if oe_kind e = KGitlink then rf_kind f = FGitlink \<and> rf_data f = []
       else \<exists>payload. m (oe_oid e) = Some (Blob, payload) \<and> rf_kind f = classify (oe_kind e) payload
         \<and> rf_lfs_pointer f = parse_lfs_pointer payload
         \<and> slice_admitted opts payload (rf_data f) (rf_truncated f))"
proof -
  from assms(3) obtain resolved e s1 where lines: "check_lines opts = Inr ()"
    and res: "resolve_path G db snap path (w, b) = (Inr resolved, s1)" and e: "file_entry resolved = Inr e"
    and rest: "read_entry db path opts e s1 = (Inr f, s)"
    by (simp add: read_file_def sbind_Inr_iff slift_iff) metis
  obtain w1 b1 where s1: "s1 = (w1, b1)" by (cases s1)
  note found = answers_run [OF resolve_path_answers(1) [OF assms(1)] assms(2) res [unfolded s1]]
  from found(2) [OF refl] e obtain oe where oe: "leads_to (entries_at G (db_hash_kind db) m) (tree_oid snap) (split_on 47 path) oe"
    "oe_kind oe \<noteq> KTree" "re_oid e = oe_oid oe" "re_mode e = oe_mode oe" "re_kind e = oe_kind oe"
    by (auto simp: resolves_def file_entry_def resolved_of_def Let_def split: if_splits)
  note run = read_entry_run [OF assms(1) found(1) rest [unfolded s1]]
  show ?thesis
  proof (cases "oe_kind oe = KGitlink")
    case True
    with run oe show ?thesis by auto
  next
    case False
    with run oe obtain payload sliced where "m (oe_oid oe) = Some (Blob, payload)" "slice_payload payload opts = Inr sliced"
      "rf_kind f = classify (oe_kind oe) payload" "rf_lfs_pointer f = parse_lfs_pointer payload"
      "rf_data f = sp_data sliced" "rf_truncated f = sp_truncated sliced"
      by auto
    with False run oe slice_payload_admitted [OF _ lines] show ?thesis by (intro exI [of _ oe]) auto
  qed
qed

text \<open>A store with one file \<open>x\<close>, and its second line.\<close>

definition file_store :: static_odb where
  "file_store = \<lparr>so_hash = Sha1, so_objects =
     [toy_oid 1 \<mapsto> (Tree, concat (map print_entry [(''100644'', ''x'', 4)])), toy_oid 4 \<mapsto> (Blob, [65, 10, 66])]\<rparr>"

theorem read_file_returns_content_witness:
  "\<exists>f s. read_file tree_gix (static_db file_store) (order_snap 1) (ascii ''x'') \<lparr>fo_lines = Some (2, 2), fo_max_bytes = 100\<rparr>
      ((), budget_unlimited idle) = (Inr f, s)
    \<and> rf_blob_oid f = toy_oid 4 \<and> slice_admitted \<lparr>fo_lines = Some (2, 2), fo_max_bytes = 100\<rparr> [65, 10, 66] (rf_data f) (rf_truncated f)"
proof -
  let ?db = "static_db file_store :: unit odb" and ?o = "\<lparr>fo_lines = Some (2, 2), fo_max_bytes = 100\<rparr>"
  have uniform: "uniform file_store" by (simp add: uniform_def file_store_def)
  have hash: "so_hash file_store = Sha1" by (simp add: file_store_def)
  have "static_entries tree_gix file_store (toy_oid 1) = Some [blob_entry ''x'' 4]"
    unfolding hash by (rule entries_printed [where es = "[(''100644'', ''x'', 4)]"])
      (simp_all add: printable_def owned_printed dot_segment_def file_store_def)
  then have lead: "leads_to (static_entries tree_gix file_store) (toy_oid 1) (split_on 47 (ascii ''x'')) (blob_entry ''x'' 4)"
    by (simp add: leads_to_Cons blob_entry_def)
  have "yields (resolve_path tree_gix ?db (order_snap 1) (ascii ''x'')) (resolved_of (blob_entry ''x'' 4))"
    unfolding resolve_path_def using yields_segments [OF uniform lead]
    by (intro yields_sbind [OF yields_slift]) (simp_all add: validate_path_def dot_segment_def order_snap_def del: resolve_segments.simps)
  from yields_run [OF this unlimited_start] obtain b1 where res: "resolve_path tree_gix ?db (order_snap 1) (ascii ''x'')
      ((), budget_unlimited idle) = (Inr (resolved_of (blob_entry ''x'' 4)), ((), b1))" "unlimited b1" by blast
  from static_find_unlimited [OF res(2), of "toy_oid 4" file_store "()"] obtain b2 where
    find: "db_try_find ?db (toy_oid 4) ((), b1) = (Inr (Some (Blob, [65, 10, 66])), ((), b2))"
    by (auto simp: file_store_def static_db_def)
  obtain sliced where "slice_payload [65, 10, 66] ?o = Inr sliced"
    by (simp add: slice_payload_def slice_whole_lines_def line_spans_def Let_def line_number_def span_at_def slice_def
        word_less_nat_alt min_def word_le_nat_alt)
  then obtain f where run: "read_file tree_gix ?db (order_snap 1) (ascii ''x'') ?o ((), budget_unlimited idle) = (Inr f, ((), b2))"
    using res(1) find
    by (simp add: read_file_def read_entry_def ensure_query_compatible_def order_snap_def file_store_def check_lines_def
        file_entry_def resolved_of_def blob_entry_def sr_defs)
  from read_file_returns_content [OF static_exact _ run] obtain e where e:
    "leads_to (static_entries tree_gix file_store) (toy_oid 1) (split_on 47 (ascii ''x'')) e" "rf_blob_oid f = oe_oid e"
    "if oe_kind e = KGitlink then rf_kind f = FGitlink \<and> rf_data f = []
       else \<exists>payload. so_objects file_store (oe_oid e) = Some (Blob, payload) \<and> rf_kind f = classify (oe_kind e) payload
         \<and> rf_lfs_pointer f = parse_lfs_pointer payload \<and> slice_admitted ?o payload (rf_data f) (rf_truncated f)"
    by (auto simp: order_snap_def)
  have "e = blob_entry ''x'' 4" using leads_to_unique [OF e(1) lead] .
  with e(2,3) run show ?thesis by (auto simp: blob_entry_def file_store_def)
qed

end
