(* ===== verification/RefNames.thy ===== *)
theory RefNames
  imports Cursor
begin

text \<open>
  Reference names and their cursors (\<open>refs.rs\<close>): validation, and the compact form of long
  names, in which blocks of 32 symbols of the 215-letter alphabet of reference names are packed
  into 31 bytes by base conversion at 16 bits. Git's rules for the components of a name, the
  rendering of names in messages and the lossy conversion of paths to text come from other
  crates: they are the parameters \<open>ref_rules\<close>.
\<close>

section \<open>Names\<close>

record ref_rules =
  rr_valid :: "bytes \<Rightarrow> bool"
  rr_display :: "bytes \<Rightarrow> string"
  rr_lossy :: "bytes \<Rightarrow> bytes"

definition MAX_SYMBOLIC_REF_HOPS :: nat where "MAX_SYMBOLIC_REF_HOPS = 16"
definition MAX_REF_NAME_BYTES :: nat where "MAX_REF_NAME_BYTES = 4096"
definition COMPACT_CURSOR_GENERATION :: bytes where "COMPACT_CURSOR_GENERATION = [1]"
definition COMPACT_REF_BLOCK_SYMBOLS :: nat where "COMPACT_REF_BLOCK_SYMBOLS = 32"
definition COMPACT_REF_BLOCK_BYTES :: nat where "COMPACT_REF_BLOCK_BYTES = 31"
definition REF_NAME_ALPHABET_LEN :: u16 where "REF_NAME_ALPHABET_LEN = 215"

definition validate_full_ref_name :: "ref_rules \<Rightarrow> bytes \<Rightarrow> error + unit" where
  "validate_full_ref_name R name =
    (if MAX_REF_NAME_BYTES < length name then
       Inl (with_reason (''ref '' @ rr_display R name @ '' has length '' @ show_nat (length name)
              @ '' bytes (limit '' @ show_nat MAX_REF_NAME_BYTES @ '')'')
            (err_new MalformedRef ''reference name exceeds the 4096-byte limit''))
     else if \<not> (name = ascii ''HEAD'' \<or> prefix (ascii ''refs/'') name) \<or> \<not> rr_valid R name then
       Inl (with_reason (''ref '' @ rr_display R name)
            (err_new MalformedRef ''reference name is not a valid full ref name''))
     else Inr ())"

section \<open>The alphabet\<close>

definition is_forbidden_ref_byte :: "u8 \<Rightarrow> bool" where
  "is_forbidden_ref_byte b \<longleftrightarrow> b \<in> set (ascii ''*:?['') \<or> b = 92 \<or> b \<in> set (ascii ''^~'')"

definition ref_name_alphabet_rank :: "u8 \<Rightarrow> u8 option" where
  "ref_name_alphabet_rank b =
    (if 0x80 \<le> b then Some (87 + (b - 0x80))
     else if \<not> (0x21 \<le> b \<and> b \<le> 0x7e) \<or> is_forbidden_ref_byte b then None
     else Some (b - 0x21 - of_nat (length (filter (\<lambda>f. f < b) (ascii ''*:?['' @ [92] @ ascii ''^~'')))))"

fun alphabet_scan :: "u8 list \<Rightarrow> u8 \<Rightarrow> u8 \<Rightarrow> u8 option" where
  "alphabet_scan [] seen rank = None"
| "alphabet_scan (b # bs) seen rank =
    (if is_forbidden_ref_byte b then alphabet_scan bs seen rank
     else if seen = rank then Some b
     else alphabet_scan bs (seen + 1) rank)"

definition ref_name_alphabet_byte :: "u8 \<Rightarrow> u8 option" where
  "ref_name_alphabet_byte rank =
    (if 87 \<le> rank then (if rank \<le> 214 then Some (0x80 + (rank - 87)) else None)
     else alphabet_scan (map of_nat [0x21..<0x7f]) 0 rank)"

section \<open>The compact form\<close>

text \<open>One pass over the slots of a block: multiply by 215 and add.\<close>

fun pack_slots :: "u16 \<Rightarrow> u8 list \<Rightarrow> u8 list" where
  "pack_slots carry [] = []"
| "pack_slots carry (slot # slots) =
    (let v = ucast slot * REF_NAME_ALPHABET_LEN + carry in ucast v # pack_slots (drop_bit 8 v) slots)"

fun pack_symbols :: "bytes \<Rightarrow> u8 list \<Rightarrow> error + u8 list" where
  "pack_symbols [] packed = Inr packed"
| "pack_symbols (b # bs) packed =
    rbind (ok_or (invalid_cursor ''reference cursor position contains a forbidden byte'') (ref_name_alphabet_rank b)) (\<lambda>rank.
    pack_symbols bs (pack_slots (ucast rank) packed))"

definition pack_block :: "bytes \<Rightarrow> error + bytes" where
  "pack_block block = pack_symbols block (replicate COMPACT_REF_BLOCK_BYTES 0)"

text \<open>The blocks of the name in order, then its short tail as it is.\<close>

fun pack_blocks :: "nat \<Rightarrow> bytes \<Rightarrow> error + bytes" where
  "pack_blocks 0 pos = Inr pos"
| "pack_blocks (Suc n) pos =
    rbind (pack_block (take COMPACT_REF_BLOCK_SYMBOLS pos)) (\<lambda>packed.
    rbind (pack_blocks n (drop COMPACT_REF_BLOCK_SYMBOLS pos)) (\<lambda>rest. Inr (packed @ rest)))"

definition encode_compact_ref_position :: "bytes \<Rightarrow> error + bytes" where
  "encode_compact_ref_position pos =
    (if 2 ^ 16 \<le> length pos then
       Inl (err_new ResultTooLarge ''reference continuation name exceeds the compact cursor limit'')
     else rbind (pack_blocks (length pos div COMPACT_REF_BLOCK_SYMBOLS) pos) (\<lambda>packed.
       Inr (u16_le (of_nat (length pos)) @ packed)))"

text \<open>One pass from the highest slot down: divide by 215, keeping the remainder.\<close>

fun divide_slots :: "u16 \<Rightarrow> u8 list \<Rightarrow> u8 list \<times> u16" where
  "divide_slots remainder [] = ([], remainder)"
| "divide_slots remainder (slot # slots) =
    (let dividend = push_bit 8 remainder OR ucast slot;
         (rest, final) = divide_slots (dividend mod REF_NAME_ALPHABET_LEN) slots
     in (ucast (dividend div REF_NAME_ALPHABET_LEN) # rest, final))"

fun unpack_ranks :: "nat \<Rightarrow> u8 list \<Rightarrow> u8 list \<Rightarrow> u8 list \<times> u8 list" where
  "unpack_ranks 0 packed ranks = (ranks, packed)"
| "unpack_ranks (Suc n) packed ranks =
    (let (high_first, remainder) = divide_slots 0 (rev packed)
     in unpack_ranks n (rev high_first) (ucast remainder # ranks))"

fun ranks_to_bytes :: "u8 list \<Rightarrow> error + bytes" where
  "ranks_to_bytes [] = Inr []"
| "ranks_to_bytes (rank # ranks) =
    rbind (ok_or (invalid_cursor ''compact reference cursor rank is invalid'') (ref_name_alphabet_byte rank)) (\<lambda>b.
    rbind (ranks_to_bytes ranks) (\<lambda>bs. Inr (b # bs)))"

definition unpack_block :: "bytes \<Rightarrow> error + bytes" where
  "unpack_block block =
    (let (ranks, left) = unpack_ranks COMPACT_REF_BLOCK_SYMBOLS block [] in
     if \<exists>b \<in> set left. b \<noteq> 0 then
       Inl (invalid_cursor ''compact reference cursor block is outside the ref-name alphabet'')
     else ranks_to_bytes ranks)"

fun unpack_blocks :: "nat \<Rightarrow> bytes \<Rightarrow> error + bytes" where
  "unpack_blocks 0 encoded = Inr encoded"
| "unpack_blocks (Suc n) encoded =
    rbind (unpack_block (take COMPACT_REF_BLOCK_BYTES encoded)) (\<lambda>block.
    rbind (unpack_blocks n (drop COMPACT_REF_BLOCK_BYTES encoded)) (\<lambda>rest. Inr (block @ rest)))"

definition decode_compact_ref_position :: "bytes \<Rightarrow> error + bytes" where
  "decode_compact_ref_position encoded =
    (if length encoded < 2 then Inl (invalid_cursor ''compact reference cursor length is missing'')
     else
       let name_len = le_nat (take 2 encoded) in
       if MAX_REF_NAME_BYTES < name_len then Inl (invalid_cursor ''compact reference cursor name exceeds 4096 bytes'')
       else if length encoded \<noteq> 2 + name_len div COMPACT_REF_BLOCK_SYMBOLS * COMPACT_REF_BLOCK_BYTES
                 + name_len mod COMPACT_REF_BLOCK_SYMBOLS
         then Inl (invalid_cursor ''compact reference cursor payload length is invalid'')
       else unpack_blocks (name_len div COMPACT_REF_BLOCK_SYMBOLS) (drop 2 encoded))"

section \<open>Cursors of reference listings\<close>

definition ref_query_fingerprint :: "bytes option \<Rightarrow> u64" where
  "ref_query_fingerprint pre =
    fnv1a_64 (ascii ''refs-v1'' @ [0]
      @ (case pre of None \<Rightarrow> [0] | Some p \<Rightarrow> [1] @ u64_le (of_nat (length p)) @ p))"

definition cursor_identity :: "hash_kind \<Rightarrow> bytes" where
  "cursor_identity hash = replicate (digest_len hash) 0"

definition decode_ref_cursor :: "ref_rules \<Rightarrow> bytes \<Rightarrow> hash_kind \<Rightarrow> u64 \<Rightarrow> error + bytes" where
  "decode_ref_cursor R encoded hash fingerprint =
    rbind (decode encoded \<lparr>exp_hash_kind = hash, exp_snapshot_digest = cursor_identity hash,
             exp_operation_tag = OPERATION_REFS, exp_option_fingerprint = fingerprint\<rparr>) (\<lambda>decoded.
    rbind (if cur_generation decoded = [] then Inr (cur_position decoded)
           else if cur_generation decoded = COMPACT_CURSOR_GENERATION then decode_compact_ref_position (cur_position decoded)
           else Inl (invalid_cursor ''reference cursor generation is not recognized'')) (\<lambda>pos.
    case validate_full_ref_name R pos of
      Inl _ \<Rightarrow> Inl (invalid_cursor ''reference cursor position is not a full ref name'')
    | Inr _ \<Rightarrow> Inr pos))"

definition encode_ref_cursor :: "hash_kind \<Rightarrow> u64 \<Rightarrow> bytes \<Rightarrow> error + bytes" where
  "encode_ref_cursor hash fingerprint pos =
    (let plain = \<lparr>cur_hash_kind = hash, cur_snapshot_digest = cursor_identity hash, cur_operation_tag = OPERATION_REFS,
                  cur_option_fingerprint = fingerprint, cur_generation = [], cur_position = pos\<rparr>
     in rbind (if MAX_CURSOR_BYTES < length (encode plain)
               then rbind (encode_compact_ref_position pos) (\<lambda>compact.
                 Inr (encode (plain\<lparr>cur_generation := COMPACT_CURSOR_GENERATION, cur_position := compact\<rparr>)))
               else Inr (encode plain)) (\<lambda>encoded.
        if MAX_CURSOR_BYTES < length encoded
        then Inl (err_new ResultTooLarge ''reference continuation name exceeds the cursor size limit'')
        else Inr encoded))"

section \<open>Base conversion\<close>

lemma le_nat_append: "le_nat (xs @ ys) = le_nat xs + 256 ^ length xs * le_nat ys"
  by (induction xs) (simp_all add: algebra_simps)

lemma le_nat_zero: "le_nat bs = 0 \<longleftrightarrow> (\<forall>b \<in> set bs. b = 0)"
  by (induction bs) (auto simp: unat_eq_0)

lemma le_nat_replicate_zero [simp]: "le_nat (replicate n 0) = 0"
  by (simp add: le_nat_zero)

lemma digit_mod: "r < b \<Longrightarrow> r + b * (a mod m) = (r + b * a) mod (b * m)" for r b a m :: nat
  by (simp add: mod_mult2_eq)

lemma length_pack_slots [simp]: "length (pack_slots c ss) = length ss"
  by (induction ss arbitrary: c) (simp_all add: Let_def)

lemma pack_slots_value:
  "unat c < 256 \<Longrightarrow> le_nat (pack_slots c ss) = (215 * le_nat ss + unat c) mod 256 ^ length ss"
proof (induction ss arbitrary: c)
  case (Cons s ss)
  let ?v = "ucast s * REF_NAME_ALPHABET_LEN + c :: u16"
  have "unat s < 256" by (rule unat_byte_less)
  then have v: "unat ?v = unat s * 215 + unat c"
    using Cons.prems by (simp add: REF_NAME_ALPHABET_LEN_def unat_word_ariths unsigned_ucast_eq take_bit_eq_mod)
  have low: "unat (ucast ?v :: u8) = unat ?v mod 256" by (simp add: unsigned_ucast_eq take_bit_eq_mod)
  have high: "unat (drop_bit 8 ?v) = unat ?v div 256" by (simp add: drop_bit_eq_div unat_div)
  have "unat (drop_bit 8 ?v) < 256" unfolding high v using \<open>unat s < 256\<close> Cons.prems by simp
  note ih = Cons.IH [OF this]
  let ?M = "256 ^ length ss" and ?a = "215 * le_nat ss + unat ?v div 256"
  have "le_nat (pack_slots c (s # ss)) = unat ?v mod 256 + 256 * (?a mod ?M)"
    using ih low high by (simp add: Let_def)
  also have "\<dots> = (unat ?v mod 256 + 256 * ?a) mod (256 * ?M)"
    by (rule digit_mod) simp
  also have "unat ?v mod 256 + 256 * ?a = 215 * le_nat (s # ss) + unat c"
    using div_mult_mod_eq [of "unat ?v" 256] v by (simp add: algebra_simps)
  finally show ?case by simp
qed simp

lemma length_divide_slots: "divide_slots r ss = (q, f) \<Longrightarrow> length q = length ss"
  by (induction ss arbitrary: r q f) (auto simp: Let_def split: prod.splits)

lemma unat_shift_or: "unat r < 256 \<Longrightarrow> unat (push_bit 8 r OR ucast (s :: u8) :: u16) = 256 * unat r + unat s"
proof -
  assume r: "unat r < 256"
  have "push_bit 8 r OR ucast s = push_bit 8 r + (ucast s :: u16)"
    by (rule sym, rule disjunctive_add) (auto simp: bit_simps dest: bit_imp_le_length)
  moreover have "unat (push_bit 8 r) = 256 * unat r" using r by (simp add: push_bit_eq_mult unat_word_ariths)
  moreover have "unat (ucast s :: u16) = unat s" using unat_byte_less [of s] by (simp add: unsigned_ucast_eq take_bit_eq_mod)
  ultimately show ?thesis using r unat_byte_less [of s] by (simp add: unat_word_ariths)
qed

lemma divide_slots_value:
  assumes "unat r < 215" and "divide_slots r ss = (q, f)"
  shows "le_nat (rev q) = (unat r * 256 ^ length ss + le_nat (rev ss)) div 215
    \<and> unat f = (unat r * 256 ^ length ss + le_nat (rev ss)) mod 215"
  using assms
proof (induction ss arbitrary: r q f)
  case (Cons s ss)
  let ?d = "push_bit 8 r OR ucast s :: u16" and ?M = "256 ^ length ss" and ?B = "le_nat (rev ss)"
  have d: "unat ?d = 256 * unat r + unat s" using Cons.prems(1) by (intro unat_shift_or) simp
  have len: "unat (?d mod REF_NAME_ALPHABET_LEN) = unat ?d mod 215" "unat (?d div REF_NAME_ALPHABET_LEN) = unat ?d div 215"
    by (simp_all add: REF_NAME_ALPHABET_LEN_def unat_mod unat_div)
  have small: "unat ?d div 215 < 256" unfolding d using Cons.prems(1) unat_byte_less [of s] by simp
  obtain q' where q': "divide_slots (?d mod REF_NAME_ALPHABET_LEN) ss = (q', f)" "q = ucast (?d div REF_NAME_ALPHABET_LEN) # q'"
    using Cons.prems(2) by (auto simp: Let_def split: prod.splits)
  have ih: "le_nat (rev q') = (unat ?d mod 215 * ?M + ?B) div 215" "unat f = (unat ?d mod 215 * ?M + ?B) mod 215"
    using Cons.IH [OF _ q'(1)] by (simp_all add: len)
  have head: "unat (ucast (?d div REF_NAME_ALPHABET_LEN) :: u8) = unat ?d div 215"
    using small by (simp add: unsigned_ucast_eq take_bit_eq_mod len)
  have total: "unat r * 256 ^ length (s # ss) + le_nat (rev (s # ss)) = 215 * (unat ?d div 215 * ?M) + (unat ?d mod 215 * ?M + ?B)"
  proof -
    have "unat r * 256 ^ length (s # ss) + le_nat (rev (s # ss)) = unat ?d * ?M + ?B"
      by (simp add: le_nat_append d algebra_simps)
    also have "unat ?d * ?M = (215 * (unat ?d div 215) + unat ?d mod 215) * ?M" by simp
    finally show ?thesis by (simp only: algebra_simps)
  qed
  have "le_nat (rev q) = unat ?d div 215 * ?M + (unat ?d mod 215 * ?M + ?B) div 215"
    using ih(1) length_divide_slots [OF q'(1)] by (simp add: q'(2) le_nat_append head algebra_simps)
  then show ?case unfolding total using ih(2) by simp
qed simp

section \<open>Ranks\<close>

definition low_letters :: "u8 list" where
  "low_letters = filter (\<lambda>b. \<not> is_forbidden_ref_byte b) (map of_nat [0x21..<0x7f])"

lemma alphabet_scan_nth:
  "seen + length (filter (\<lambda>b. \<not> is_forbidden_ref_byte b) bs) \<le> 256 \<Longrightarrow> seen \<le> unat rank \<Longrightarrow>
   alphabet_scan bs (of_nat seen) rank =
     (let ls = filter (\<lambda>b. \<not> is_forbidden_ref_byte b) bs in
      if unat rank < seen + length ls then Some (ls ! (unat rank - seen)) else None)"
proof (induction bs arbitrary: seen)
  case (Cons b bs)
  let ?P = "\<lambda>b. \<not> is_forbidden_ref_byte b"
  show ?case
  proof (cases "is_forbidden_ref_byte b")
    case True
    then show ?thesis using Cons.IH [of seen] Cons.prems by simp
  next
    case False
    then have fits: "seen < 256" using Cons.prems(1) by simp
    have eq: "of_nat seen = rank \<longleftrightarrow> seen = unat rank"
      using fits by (auto simp: unat_of_nat)
    show ?thesis
    proof (cases "seen = unat rank")
      case True
      then show ?thesis using False by simp
    next
      case ne: False
      have "alphabet_scan bs (of_nat (Suc seen)) rank =
         (let ls = filter ?P bs in if unat rank < Suc seen + length ls then Some (ls ! (unat rank - Suc seen)) else None)"
        using Cons.prems False ne by (intro Cons.IH) auto
      moreover have "unat rank - seen = Suc (unat rank - Suc seen)" using Cons.prems(2) ne by simp
      ultimately show ?thesis using False ne eq by (simp add: Let_def add.commute)
    qed
  qed
qed simp

lemma low_letters_eval: "low_letters = map of_nat ([33..<42] @ [43..<58] @ [59..<63] @ [64..<91] @ [93] @ [95..<126])"
  unfolding low_letters_def is_forbidden_ref_byte_def
  by code_simp

lemma low_letters_rank: "list_all (\<lambda>(i, b). ref_name_alphabet_rank b = Some (of_nat i)) (enumerate 0 low_letters)"
  unfolding low_letters_eval
  by code_simp

lemma rank_high:
  assumes "0x80 \<le> b"
  shows "ref_name_alphabet_rank b = Some (b - 41)" and "unat (b - 41) = unat b - 41"
proof -
  show "ref_name_alphabet_rank b = Some (b - 41)" using assms by (simp add: ref_name_alphabet_rank_def)
  show "unat (b - 41) = unat b - 41" using assms by (subst unat_sub) (auto simp: word_le_nat_alt)
qed

lemma rank_low:
  assumes "ref_name_alphabet_rank b = Some r" and "\<not> 0x80 \<le> b"
  shows "unat r < 87 \<and> low_letters ! unat r = b"
proof -
  have "0x21 \<le> b" "b \<le> 0x7e" "\<not> is_forbidden_ref_byte b"
    using assms by (auto simp: ref_name_alphabet_rank_def split: if_splits)
  then have "b = of_nat (unat b)" "unat b \<in> {0x21..<0x7f}"
    using unat_mono [of b "0x7f"] by (auto simp: word_le_nat_alt)
  then have "b \<in> set low_letters"
    unfolding low_letters_def set_filter set_map set_upt
    using \<open>\<not> is_forbidden_ref_byte b\<close> by (intro CollectI conjI image_eqI [of b _ "unat b"])
  then obtain i where i: "i < length low_letters" "low_letters ! i = b" by (auto simp: in_set_conv_nth)
  then have "ref_name_alphabet_rank b = Some (of_nat i)"
    using low_letters_rank by (auto simp: list_all_iff in_set_enumerate_eq)
  moreover have "i < 87" using i(1) by (simp add: low_letters_eval)
  ultimately show ?thesis using assms(1) i(2) by (simp add: unat_of_nat)
qed

lemma rank_bound: "ref_name_alphabet_rank b = Some r \<Longrightarrow> unat r < 215"
  using rank_high [of b] rank_low [of b r] unat_byte_less [of b] by (cases "0x80 \<le> b") auto

lemma rank_byte: "ref_name_alphabet_rank b = Some r \<Longrightarrow> ref_name_alphabet_byte r = Some b"
proof (cases "0x80 \<le> b")
  case True
  assume "ref_name_alphabet_rank b = Some r"
  with rank_high [OF True] have r: "r = b - 41" "unat r = unat b - 41" by simp_all
  moreover have "128 \<le> unat b" using True by (simp add: word_le_nat_alt)
  ultimately have "87 \<le> r" "r \<le> 214" using unat_byte_less [of b] by (simp_all add: word_le_nat_alt)
  then show ?thesis unfolding ref_name_alphabet_byte_def by (simp add: r(1))
next
  case False
  assume "ref_name_alphabet_rank b = Some r"
  from rank_low [OF this False] have r: "unat r < 87" "low_letters ! unat r = b" by simp_all
  have len: "length low_letters = 87" by (simp add: low_letters_eval)
  have "\<not> 87 \<le> r" using r(1) by (simp add: word_le_nat_alt)
  moreover have "alphabet_scan (map of_nat [0x21..<0x7f]) 0 r = Some b"
    using alphabet_scan_nth [of 0 "map of_nat [0x21..<0x7f]" r] r len by (simp add: low_letters_def Let_def)
  ultimately show ?thesis by (simp add: ref_name_alphabet_byte_def)
qed


section \<open>Blocks\<close>

definition ref_letter :: "u8 \<Rightarrow> bool" where
  "ref_letter b \<longleftrightarrow> ref_name_alphabet_rank b \<noteq> None"

definition letter_rank :: "u8 \<Rightarrow> nat" where
  "letter_rank b = unat (the (ref_name_alphabet_rank b))"

definition rank_value :: "nat \<Rightarrow> nat list \<Rightarrow> nat" where
  "rank_value = foldl (\<lambda>v d. 215 * v + d)"

lemma rank_value_bound: "\<forall>d \<in> set ds. d < 215 \<Longrightarrow> rank_value v ds < (v + 1) * 215 ^ length ds"
proof (induction ds arbitrary: v)
  case (Cons d ds)
  have "rank_value v (d # ds) < (215 * v + d + 1) * 215 ^ length ds"
    using Cons by (simp add: rank_value_def)
  also have "\<dots> \<le> (215 * (v + 1)) * 215 ^ length ds" using Cons.prems by (intro mult_right_mono) auto
  finally show ?case by (simp add: algebra_simps)
qed (simp add: rank_value_def)

lemma pack_symbols_value:
  "\<forall>b \<in> set bs. ref_letter b \<Longrightarrow>
   \<exists>p. pack_symbols bs packed = Inr p \<and> length p = length packed
     \<and> le_nat p = rank_value (le_nat packed) (map letter_rank bs) mod 256 ^ length packed"
proof (induction bs arbitrary: packed)
  case Nil
  show ?case using le_nat_less [of packed] by (simp add: rank_value_def)
next
  case (Cons b bs)
  obtain r where r: "ref_name_alphabet_rank b = Some r" using Cons.prems by (auto simp: ref_letter_def)
  have small: "unat r < 215" using rank_bound [OF r] .
  let ?p = "pack_slots (ucast r) packed" and ?M = "256 ^ length packed"
  have u: "unat (ucast r :: u16) = unat r" using small by (simp add: unsigned_ucast_eq take_bit_eq_mod)
  have v: "le_nat ?p = (215 * le_nat packed + unat r) mod ?M"
    using pack_slots_value [of "ucast r" packed] small u by simp
  obtain p where p: "pack_symbols bs ?p = Inr p" "length p = length packed"
      "le_nat p = rank_value (le_nat ?p) (map letter_rank bs) mod ?M"
    using Cons.IH [of ?p] Cons.prems by auto
  have "rank_value (a mod ?M) ds mod ?M = rank_value a ds mod ?M" for a ds
  proof (induction ds arbitrary: a)
    case (Cons d ds)
    have "rank_value (a mod ?M) (d # ds) mod ?M = rank_value ((215 * (a mod ?M) + d) mod ?M) ds mod ?M"
      using Cons.IH by (simp add: rank_value_def)
    also have "(215 * (a mod ?M) + d) mod ?M = (215 * a + d) mod ?M"
      by (metis mod_add_left_eq mod_mult_right_eq)
    finally show ?case using Cons.IH by (simp add: rank_value_def)
  qed (simp add: rank_value_def)
  then have "le_nat p = rank_value (215 * le_nat packed + unat r) (map letter_rank bs) mod ?M"
    using p(3) v by simp
  moreover have "letter_rank b = unat r" using r by (simp add: letter_rank_def)
  ultimately show ?case using p r by (simp add: rank_value_def)
qed

lemma unpack_ranks_value:
  assumes "\<forall>d \<in> set ds. d < 215" and "le_nat packed = rank_value v ds"
  shows "\<exists>left. unpack_ranks (length ds) packed ranks = (map of_nat ds @ ranks, left) \<and> le_nat left = v"
  using assms
proof (induction ds arbitrary: packed ranks rule: rev_induct)
  case (snoc d ds)
  obtain q f where qf: "divide_slots 0 (rev packed) = (q, f)" by (meson surj_pair)
  have v: "le_nat packed = 215 * rank_value v ds + d" using snoc.prems(2) by (simp add: rank_value_def)
  have d: "d < 215" using snoc.prems(1) by simp
  have q: "le_nat (rev q) = rank_value v ds" "unat f = d"
    using divide_slots_value [OF _ qf] v d by simp_all
  have f: "ucast f = (of_nat d :: u8)" using q(2) by (metis of_nat_unat)
  show ?case using snoc.IH [OF _ q(1), of "of_nat d # ranks"] snoc.prems(1) by (simp add: qf f)
qed (simp add: rank_value_def)

lemma ranks_to_bytes_inverse: "\<forall>b \<in> set bs. ref_letter b \<Longrightarrow> ranks_to_bytes (map (of_nat \<circ> letter_rank) bs) = Inr bs"
  by (induction bs) (auto simp: ref_letter_def letter_rank_def rank_byte)

lemma block_roundtrip:
  assumes "\<forall>b \<in> set block. ref_letter b" and "length block = COMPACT_REF_BLOCK_SYMBOLS"
  shows "\<exists>p. pack_block block = Inr p \<and> length p = COMPACT_REF_BLOCK_BYTES \<and> unpack_block p = Inr block"
proof -
  let ?ds = "map letter_rank block"
  have ds: "\<forall>d \<in> set ?ds. d < 215"
    using assms(1) rank_bound by (auto simp: letter_rank_def ref_letter_def)
  have "rank_value 0 ?ds < 215 ^ 32"
    using rank_value_bound [OF ds, of 0] assms(2) by (simp add: COMPACT_REF_BLOCK_SYMBOLS_def)
  then have exact: "rank_value 0 ?ds mod 256 ^ 31 = rank_value 0 ?ds" by simp
  obtain p where p: "pack_block block = Inr p" "length p = COMPACT_REF_BLOCK_BYTES" "le_nat p = rank_value 0 ?ds"
    using pack_symbols_value [OF assms(1), of "replicate COMPACT_REF_BLOCK_BYTES 0"] exact
    unfolding pack_block_def COMPACT_REF_BLOCK_BYTES_def by auto
  obtain left where left: "unpack_ranks COMPACT_REF_BLOCK_SYMBOLS p [] = (map of_nat ?ds, left)" "le_nat left = 0"
    using unpack_ranks_value [OF ds p(3), of "[]"] assms(2) by auto
  then have "unpack_block p = Inr block"
    using ranks_to_bytes_inverse [OF assms(1)] by (simp add: unpack_block_def le_nat_zero comp_def)
  then show ?thesis using p by blast
qed


section \<open>The compact form\<close>

lemma blocks_roundtrip:
  assumes "\<forall>b \<in> set pos. ref_letter b" and "n * COMPACT_REF_BLOCK_SYMBOLS \<le> length pos"
  shows "\<exists>p. pack_blocks n pos = Inr p \<and> length p + n = length pos \<and> unpack_blocks n p = Inr pos"
  using assms
proof (induction n arbitrary: pos)
  case (Suc n)
  let ?h = "take COMPACT_REF_BLOCK_SYMBOLS pos" and ?t = "drop COMPACT_REF_BLOCK_SYMBOLS pos"
  obtain p where p: "pack_block ?h = Inr p" "length p = COMPACT_REF_BLOCK_BYTES" "unpack_block p = Inr ?h"
    using block_roundtrip [of ?h] Suc.prems by (auto dest: in_set_takeD)
  obtain q where q: "pack_blocks n ?t = Inr q" "length q + n = length ?t" "unpack_blocks n q = Inr ?t"
  proof -
    have "n * COMPACT_REF_BLOCK_SYMBOLS \<le> length ?t" using Suc.prems(2) by simp
    moreover have "\<forall>b \<in> set ?t. ref_letter b" using Suc.prems(1) by (auto dest: in_set_dropD)
    ultimately show ?thesis using that Suc.IH [of ?t] by blast
  qed
  have "length p + length q + Suc n = length pos"
    using p(2) q(2) Suc.prems(2) by (simp add: COMPACT_REF_BLOCK_SYMBOLS_def COMPACT_REF_BLOCK_BYTES_def)
  then show ?case using p q by simp
qed simp

lemma compact_roundtrip:
  assumes "\<forall>b \<in> set pos. ref_letter b" and "length pos \<le> MAX_REF_NAME_BYTES"
  shows "\<exists>p. encode_compact_ref_position pos = Inr p \<and> length p = 2 + length pos - length pos div 32
    \<and> decode_compact_ref_position p = Inr pos"
proof -
  let ?n = "length pos div COMPACT_REF_BLOCK_SYMBOLS"
  obtain p where p: "pack_blocks ?n pos = Inr p" "length p + ?n = length pos" "unpack_blocks ?n p = Inr pos"
    using blocks_roundtrip [OF assms(1), of ?n] by auto
  have small: "length pos < 65536" using assms(2) by (simp add: MAX_REF_NAME_BYTES_def)
  have "length pos = 32 * (length pos div 32) + length pos mod 32" by simp
  then have "2 + length p = 2 + ?n * COMPACT_REF_BLOCK_BYTES + length pos mod COMPACT_REF_BLOCK_SYMBOLS"
    using p(2) unfolding COMPACT_REF_BLOCK_SYMBOLS_def COMPACT_REF_BLOCK_BYTES_def by linarith
  then have "decode_compact_ref_position (u16_le (of_nat (length pos)) @ p) = Inr pos"
    using p small assms(2) unfolding decode_compact_ref_position_def
    by (simp add: u16_le_def le_nat_le_bytes unat_of_nat)
  then show ?thesis using p small unfolding encode_compact_ref_position_def
    by (auto simp: COMPACT_REF_BLOCK_SYMBOLS_def u16_le_def)
qed


section \<open>Cursors\<close>

lemma length_cursor: "length (encode c) = 19 + length (cur_snapshot_digest c) + length (cur_generation c) + length (cur_position c)"
  by (simp add: encode_def length_encode_body)

lemma ref_cursor_lemma:
  assumes "validate_full_ref_name R pos = Inr ()" and "\<forall>b \<in> set pos. ref_letter b"
  shows "\<exists>enc. encode_ref_cursor hash fingerprint pos = Inr enc \<and> length enc \<le> MAX_CURSOR_BYTES
    \<and> decode_ref_cursor R enc hash fingerprint = Inr pos"
proof -
  let ?e = "\<lparr>exp_hash_kind = hash, exp_snapshot_digest = cursor_identity hash,
             exp_operation_tag = OPERATION_REFS, exp_option_fingerprint = fingerprint\<rparr>"
  let ?plain = "\<lparr>cur_hash_kind = hash, cur_snapshot_digest = cursor_identity hash, cur_operation_tag = OPERATION_REFS,
                  cur_option_fingerprint = fingerprint, cur_generation = [], cur_position = pos\<rparr>"
  have n: "length pos \<le> MAX_REF_NAME_BYTES" using assms(1) by (auto simp: validate_full_ref_name_def split: if_splits)
  have id: "length (cursor_identity hash) = digest_len hash" "digest_len hash \<le> 32"
    by (simp_all add: cursor_identity_def) (cases hash; simp)
  show ?thesis
  proof (cases "MAX_CURSOR_BYTES < length (encode ?plain)")
    case False
    then have "decode (encode ?plain) ?e = Inr ?plain"
      unfolding decode_Inr cursor_wf_def expects_def using id by simp
    then show ?thesis using False assms(1) by (simp add: encode_ref_cursor_def decode_ref_cursor_def Let_def)
  next
    case True
    obtain p where p: "encode_compact_ref_position pos = Inr p" "length p = 2 + length pos - length pos div 32"
        "decode_compact_ref_position p = Inr pos"
      using compact_roundtrip [OF assms(2) n] by blast
    let ?c = "?plain\<lparr>cur_generation := COMPACT_CURSOR_GENERATION, cur_position := p\<rparr>"
    have "length p \<le> 3970" using p(2) n by (simp add: MAX_REF_NAME_BYTES_def)
    then have fits: "length (encode ?c) \<le> MAX_CURSOR_BYTES"
      using id by (simp add: length_cursor COMPACT_CURSOR_GENERATION_def MAX_CURSOR_BYTES_def)
    then have "decode (encode ?c) ?e = Inr ?c"
      unfolding decode_Inr cursor_wf_def expects_def using id by simp
    then have "decode_ref_cursor R (encode ?c) hash fingerprint = Inr pos"
      using p(3) assms(1) by (simp add: decode_ref_cursor_def COMPACT_CURSOR_GENERATION_def)
    moreover have "encode_ref_cursor hash fingerprint pos = Inr (encode ?c)"
      using True p(1) fits by (simp add: encode_ref_cursor_def Let_def)
    ultimately show ?thesis using fits by blast
  qed
qed


text \<open>
  Every valid reference name, up to the limit of 4096 bytes, has a continuation cursor that
  fits the 4096-byte envelope, and decoding that cursor gives the name back. Names too long for
  the plain form take the compact form. The hypothesis on \<open>gix_ref\<close> is that valid names use only
  the letters of the alphabet.
\<close>

theorem ref_cursor_roundtrip:
  assumes "\<And>name b. rr_valid R name \<Longrightarrow> b \<in> set name \<Longrightarrow> ref_name_alphabet_rank b \<noteq> None"
    and "validate_full_ref_name R pos = Inr ()"
  shows "\<exists>enc. encode_ref_cursor hash fingerprint pos = Inr enc \<and> length enc \<le> MAX_CURSOR_BYTES
    \<and> decode_ref_cursor R enc hash fingerprint = Inr pos"
proof (rule ref_cursor_lemma [OF assms(2)])
  show "\<forall>b \<in> set pos. ref_letter b"
    using assms by (auto simp: validate_full_ref_name_def ref_letter_def split: if_splits)
qed

definition letter_rules :: ref_rules where
  "letter_rules = \<lparr>rr_valid = (\<lambda>name. list_all (\<lambda>b. ref_name_alphabet_rank b \<noteq> None) name), rr_display = (\<lambda>_. ''''), rr_lossy = (\<lambda>p. p)\<rparr>"

definition longest_name :: bytes where
  "longest_name = ascii ''refs/heads/'' @ replicate 4085 0x61"

lemma longest_name_valid: "validate_full_ref_name letter_rules longest_name = Inr ()"
proof -
  have "list_all (\<lambda>b. ref_name_alphabet_rank b \<noteq> None) (ascii ''refs/heads/'')" "ref_name_alphabet_rank 0x61 \<noteq> None"
    by code_simp+
  then have "rr_valid letter_rules longest_name" by (auto simp: letter_rules_def longest_name_def list_all_iff)
  moreover have "length longest_name = 4096" by (simp add: longest_name_def ascii_def)
  moreover have "prefix (ascii ''refs/'') longest_name" by (simp add: longest_name_def ascii_def)
  ultimately show ?thesis by (simp add: validate_full_ref_name_def MAX_REF_NAME_BYTES_def)
qed

theorem ref_cursor_roundtrip_witness:
  "\<exists>enc. encode_ref_cursor Sha1 7 longest_name = Inr enc \<and> length enc \<le> MAX_CURSOR_BYTES
    \<and> decode_ref_cursor letter_rules enc Sha1 7 = Inr longest_name"
  by (rule ref_cursor_roundtrip [OF _ longest_name_valid]) (auto simp: letter_rules_def list_all_iff)

end
