(* ===== verification/Refs.thy ===== *)
theory Refs
  imports Snapshot RefNames "HOL-Library.List_Lexorder"
begin

text \<open>
  Reference stores (\<open>refs.rs\<close>): the contract \<open>RefDb\<close> with its default methods, symbolic
  resolution with its sixteen lookups and its cycle check, and the store over a local repository:
  targets with their peeled commits, lookups, and paginated listings. The file store of \<open>gix_ref\<close>
  is the parameter \<open>ref_files\<close>; what its calls read may change the world, so loose references
  may change between two calls.
\<close>

section \<open>Targets, queries and pages\<close>

datatype ref_target = Direct (rt_oid: oid) (rt_peeled: "oid option") | Symbolic (rt_name: bytes)

record ref_query =
  rq_prefix :: "bytes option"
  rq_limit :: nat
  rq_cursor :: "bytes option"

record ref_warning =
  rw_name :: bytes
  rw_message :: string

record ref_page =
  rp_refs :: "(bytes \<times> ref_target) list"
  rp_next_cursor :: "bytes option"
  rp_truncated :: bool
  rp_warnings :: "ref_warning list"

record 'w ref_db =
  rd_resolve :: "bytes \<Rightarrow> ('w, ref_target option) op"
  rd_list :: "ref_query \<Rightarrow> ('w, ref_page) op"
  rd_resolve_following :: "bytes \<Rightarrow> ('w, ref_target option) op"
  rd_refresh :: "('w, unit) op"

section \<open>Symbolic resolution\<close>

fun display_chain :: "ref_rules \<Rightarrow> bytes list \<Rightarrow> string" where
  "display_chain R [] = ''''"
| "display_chain R [name] = rr_display R name"
| "display_chain R (name # names) = rr_display R name @ '' -> '' @ display_chain R names"

definition symbolic_cycle :: "ref_rules \<Rightarrow> bytes list \<Rightarrow> error" where
  "symbolic_cycle R chain = with_reason (''symbolic cycle '' @ display_chain R chain)
    (err_new MalformedRef ''symbolic reference cycle detected'')"

definition hop_limit_error :: "ref_rules \<Rightarrow> bytes list \<Rightarrow> error" where
  "hop_limit_error R chain = with_reason (''symbolic chain '' @ display_chain R chain)
    (err_new MalformedRef ''symbolic reference exceeds the 16-hop limit'')"

definition symbolic_target :: "ref_rules \<Rightarrow> bytes \<Rightarrow> error + unit" where
  "symbolic_target R next =
    (case validate_full_ref_name R next of
       Inl _ \<Rightarrow> Inl (with_reason (''symbolic target '' @ rr_display R next)
         (err_new MalformedRef ''symbolic reference points to an invalid full ref name''))
     | Inr _ \<Rightarrow> Inr ())"

fun resolve_hops :: "ref_rules \<Rightarrow> (bytes \<Rightarrow> ('w, ref_target option) op) \<Rightarrow> nat \<Rightarrow> bytes \<Rightarrow> bytes set
    \<Rightarrow> bytes list \<Rightarrow> ('w, ref_target option) op" where
  "resolve_hops R resolve_one 0 current seen chain = sraise (hop_limit_error R chain)"
| "resolve_hops R resolve_one (Suc hops) current seen chain =
    sbind (on_budget check) (\<lambda>_.
    if current \<in> seen then sraise (symbolic_cycle R (chain @ [current]))
    else sbind (resolve_one current) (\<lambda>found.
      case found of
        None \<Rightarrow> sreturn None
      | Some (Direct x peeled) \<Rightarrow> sreturn (Some (Direct x peeled))
      | Some (Symbolic next) \<Rightarrow>
          sbind (slift (symbolic_target R next)) (\<lambda>_.
          resolve_hops R resolve_one hops next (insert current seen) (chain @ [current]))))"

definition resolve_with :: "ref_rules \<Rightarrow> bytes \<Rightarrow> (bytes \<Rightarrow> ('w, ref_target option) op) \<Rightarrow> ('w, ref_target option) op" where
  "resolve_with R name resolve_one =
    sbind (slift (validate_full_ref_name R name)) (\<lambda>_.
    resolve_hops R resolve_one MAX_SYMBOLIC_REF_HOPS name {} [])"

definition default_resolve_following :: "ref_rules \<Rightarrow> (bytes \<Rightarrow> ('w, ref_target option) op) \<Rightarrow> bytes \<Rightarrow> ('w, ref_target option) op" where
  "default_resolve_following R resolve_one name = resolve_with R name resolve_one"

definition default_ref_refresh :: "('w, unit) op" where
  "default_ref_refresh = on_budget check"

definition resolve_symbolic :: "'w ref_db \<Rightarrow> bytes \<Rightarrow> ('w, ref_target option) op" where
  "resolve_symbolic store name = rd_resolve_following store name"

section \<open>The local store\<close>

text \<open>What \<open>gix_ref\<close> returns: references, and the errors of its iterators with their text.\<close>

datatype gix_target = GixObject bytes | GixSymbolic bytes

record gix_reference =
  gr_name :: bytes
  gr_target :: gix_target
  gr_peeled :: "bytes option"

datatype iter_error_kind = ReferenceCreation bytes | ReadFileContents bytes | PackedReference bytes | Traversal

record iter_error =
  ie_kind :: iter_error_kind
  ie_text :: string

record ('w, 'p) ref_files =
  fs_try_find :: "bytes \<Rightarrow> 'w \<Rightarrow> (unit + gix_reference option) \<times> 'w"
  fs_cached_packed :: "'w \<Rightarrow> (unit + 'p) \<times> 'w"
  fs_try_find_packed :: "'p \<Rightarrow> bytes \<Rightarrow> 'w \<Rightarrow> (unit + gix_reference option) \<times> 'w"
  fs_iter :: "'w \<Rightarrow> (unit + 'p) \<times> 'w"
  fs_relative :: "bytes \<Rightarrow> bool"
  fs_items :: "'p \<Rightarrow> bytes option \<Rightarrow> 'w \<Rightarrow> (unit + (iter_error + gix_reference) list) \<times> 'w"

record ('w, 'p) local_refs =
  lr_hash :: hash_kind
  lr_git_dir :: bytes
  lr_objects :: "'w odb"
  lr_files :: "('w, 'p) ref_files"

text \<open>A call of the file store whose error becomes the given one.\<close>

definition on_files :: "error \<Rightarrow> ('w \<Rightarrow> (unit + 'a) \<times> 'w) \<Rightarrow> ('w, 'a) op" where
  "on_files e m s = (case s of (w, b) \<Rightarrow> (case m w of
      (Inl _, w') \<Rightarrow> (Inl e, (w', b))
    | (Inr v, w') \<Rightarrow> (Inr v, (w', b))))"

definition local_peeled :: "gix \<Rightarrow> ('w, 'p) local_refs \<Rightarrow> oid \<Rightarrow> bytes option \<Rightarrow> ('w, oid option) op" where
  "local_peeled G L x packed_peeled =
    (case Option.bind packed_peeled (\<lambda>d. case oid_new (lr_hash L) d of Inl _ \<Rightarrow> None | Inr p \<Rightarrow> Some p) of
       Some p \<Rightarrow> sreturn (Some p)
     | None \<Rightarrow> sbind (sattempt (db_try_header (lr_objects L) x)) (\<lambda>r.
         case r of
           Inr (Some h) \<Rightarrow> if hdr_kind h = Tag then sok (peel G (lr_objects L) x ToCommit) else sreturn None
         | _ \<Rightarrow> sreturn None))"

definition local_target :: "gix \<Rightarrow> ref_rules \<Rightarrow> ('w, 'p) local_refs \<Rightarrow> gix_reference \<Rightarrow> ('w, ref_target) op" where
  "local_target G R L r =
    (case gr_target r of
       GixSymbolic target \<Rightarrow> sreturn (Symbolic target)
     | GixObject d \<Rightarrow>
         (case oid_new (lr_hash L) d of
            Inl _ \<Rightarrow> sraise (with_reason (''ref '' @ rr_display R (gr_name r))
                      (err_new MalformedRef ''local reference contains an invalid object ID''))
          | Inr x \<Rightarrow> sbind (local_peeled G L x (gr_peeled r)) (\<lambda>peeled. sreturn (Direct x peeled))))"

definition optional_target :: "gix \<Rightarrow> ref_rules \<Rightarrow> ('w, 'p) local_refs \<Rightarrow> gix_reference option \<Rightarrow> ('w, ref_target option) op" where
  "optional_target G R L found =
    (case found of
       None \<Rightarrow> sreturn None
     | Some r \<Rightarrow> sbind (local_target G R L r) (\<lambda>t. sreturn (Some t)))"

definition malformed_name :: "ref_rules \<Rightarrow> bytes \<Rightarrow> error" where
  "malformed_name R name = with_reason (''ref '' @ rr_display R name)
    (err_new MalformedRef ''reference name is malformed'')"

definition undecodable :: "ref_rules \<Rightarrow> bytes \<Rightarrow> error" where
  "undecodable R name = with_reason (''ref '' @ rr_display R name)
    (err_new MalformedRef ''local reference could not be decoded'')"

definition local_resolve :: "gix \<Rightarrow> ref_rules \<Rightarrow> ('w, 'p) local_refs \<Rightarrow> bytes \<Rightarrow> ('w, ref_target option) op" where
  "local_resolve G R L name =
    sbind (on_budget check) (\<lambda>_.
    sbind (slift (validate_full_ref_name R name)) (\<lambda>_.
    if \<not> rr_valid R name then sraise (malformed_name R name)
    else sbind (on_files (undecodable R name) (fs_try_find (lr_files L) name)) (optional_target G R L)))"

definition packed_lookup :: "gix \<Rightarrow> ref_rules \<Rightarrow> ('w, 'p) local_refs \<Rightarrow> 'p \<Rightarrow> bytes \<Rightarrow> ('w, ref_target option) op" where
  "packed_lookup G R L packed current =
    (if \<not> rr_valid R current then sraise (malformed_name R current)
     else sbind (on_files (undecodable R current) (fs_try_find_packed (lr_files L) packed current)) (optional_target G R L))"

definition local_resolve_following :: "gix \<Rightarrow> ref_rules \<Rightarrow> ('w, 'p) local_refs \<Rightarrow> bytes \<Rightarrow> ('w, ref_target option) op" where
  "local_resolve_following G R L name =
    sbind (on_files (with_reason (''ref '' @ rr_display R name)
        (err_new MalformedRef ''local packed-refs could not be snapshotted'')) (fs_cached_packed (lr_files L))) (\<lambda>packed.
    resolve_with R name (packed_lookup G R L packed))"

section \<open>Listing\<close>

text \<open>
  \<open>Path::strip_prefix\<close> on the text of the paths that the traversal builds: component by
  component, without the separators in front of each.
\<close>

fun skip_separators :: "bytes \<Rightarrow> bytes" where
  "skip_separators (c # cs) =
    (if c = 47 then skip_separators cs
     else if c = 46 \<and> (cs = [] \<or> hd cs = 47) then skip_separators cs
     else c # cs)"
| "skip_separators [] = []"

fun strip_components :: "bytes list \<Rightarrow> bytes \<Rightarrow> bytes option" where
  "strip_components [] path = Some (skip_separators path)"
| "strip_components (c # cs) path =
    (let p = skip_separators path; rest = drop (length c) p in
     if prefix c p \<and> (rest = [] \<or> hd rest = 47) then strip_components cs rest else None)"

definition strip_path_prefix :: "bytes \<Rightarrow> bytes \<Rightarrow> bytes option" where
  "strip_path_prefix dir path =
    (if (dir \<noteq> [] \<and> hd dir = 47) = (path \<noteq> [] \<and> hd path = 47)
     then strip_components (filter (\<lambda>c. c \<noteq> [] \<and> c \<noteq> [46]) (split_on 47 dir)) path
     else None)"

fun after_space :: "bytes \<Rightarrow> bytes option" where
  "after_space [] = None"
| "after_space (c # cs) = (if c = 32 then Some cs else after_space cs)"

definition unknown_name :: bytes where "unknown_name = ascii ''<unknown>''"

definition iteration_warning :: "ref_rules \<Rightarrow> iter_error \<Rightarrow> bytes \<Rightarrow> ref_warning" where
  "iteration_warning R e git_dir =
    (let name = (case ie_kind e of
         ReferenceCreation relative_path \<Rightarrow> rr_lossy R relative_path
       | ReadFileContents path \<Rightarrow>
           rr_lossy R (case strip_path_prefix git_dir path of None \<Rightarrow> path | Some p \<Rightarrow> p)
       | PackedReference invalid_line \<Rightarrow>
           (case after_space invalid_line of None \<Rightarrow> unknown_name | Some name \<Rightarrow> name)
       | Traversal \<Rightarrow> unknown_name)
     in \<lparr>rw_name = name, rw_message = ''skipped malformed reference '' @ rr_display R name @ '': '' @ ie_text e\<rparr>)"

definition skipped_reference :: "ref_rules \<Rightarrow> bytes \<Rightarrow> error \<Rightarrow> ref_warning" where
  "skipped_reference R name e = \<lparr>rw_name = name,
    rw_message = ''skipped malformed reference '' @ rr_display R name @ '': '' @ err_message e
      @ (case err_reason e of None \<Rightarrow> '''' | Some reason \<Rightarrow> '' ('' @ reason @ '')'')\<rparr>"

definition resumed :: "bytes option \<Rightarrow> bytes \<Rightarrow> bool" where
  "resumed resume name = (case resume of None \<Rightarrow> False | Some pos \<Rightarrow> name \<le> pos)"

fun list_items :: "gix \<Rightarrow> ref_rules \<Rightarrow> ('w, 'p) local_refs \<Rightarrow> nat \<Rightarrow> bytes option \<Rightarrow> (iter_error + gix_reference) list
    \<Rightarrow> (bytes \<times> ref_target) list \<Rightarrow> ref_warning list \<Rightarrow> ('w, (bytes \<times> ref_target) list \<times> ref_warning list \<times> bool) op" where
  "list_items G R L limit resume [] refs warnings = sreturn (refs, warnings, False)"
| "list_items G R L limit resume (Inl e # items) refs warnings =
    sbind (on_budget check) (\<lambda>_.
    let warning = iteration_warning R e (lr_git_dir L);
        already_reported = resumed resume (rw_name warning) \<and> rw_name warning \<noteq> unknown_name
    in list_items G R L limit resume items refs (if already_reported then warnings else warnings @ [warning]))"
| "list_items G R L limit resume (Inr r # items) refs warnings =
    sbind (on_budget check) (\<lambda>_.
    let name = gr_name r in
    if resumed resume name then list_items G R L limit resume items refs warnings
    else case validate_full_ref_name R name of
        Inl e \<Rightarrow> list_items G R L limit resume items refs (warnings @ [skipped_reference R name e])
      | Inr _ \<Rightarrow>
          if length refs = limit then sreturn (refs, warnings, True)
          else sbind (sattempt (local_target G R L r)) (\<lambda>t.
            case t of
              Inr target \<Rightarrow> list_items G R L limit resume items (refs @ [(name, target)]) warnings
            | Inl e \<Rightarrow> list_items G R L limit resume items refs (warnings @ [skipped_reference R name e])))"

definition local_items :: "ref_rules \<Rightarrow> ('w, 'p) local_refs \<Rightarrow> bytes option \<Rightarrow> ('w, (iter_error + gix_reference) list) op" where
  "local_items R L pre =
    sbind (on_files (err_new MalformedRef ''local packed-refs could not be snapshotted'') (fs_iter (lr_files L))) (\<lambda>platform.
    sbind (slift (case pre of
        None \<Rightarrow> Inr ()
      | Some p \<Rightarrow> if fs_relative (lr_files L) p then Inr ()
          else Inl (with_reason (''prefix '' @ rr_display R p)
            (err_new MalformedRef ''reference prefix is not a valid relative path'')))) (\<lambda>_.
    on_files (err_new BackendError ''local references could not be enumerated'') (fs_items (lr_files L) platform pre)))"

definition decode_resume :: "ref_rules \<Rightarrow> hash_kind \<Rightarrow> ref_query \<Rightarrow> error + bytes option" where
  "decode_resume R hash q =
    (case rq_cursor q of
       None \<Rightarrow> Inr None
     | Some encoded \<Rightarrow> rbind (decode_ref_cursor R encoded hash (ref_query_fingerprint (rq_prefix q))) (\<lambda>pos. Inr (Some pos)))"

definition local_list :: "gix \<Rightarrow> ref_rules \<Rightarrow> ('w, 'p) local_refs \<Rightarrow> ref_query \<Rightarrow> ('w, ref_page) op" where
  "local_list G R L q =
    sbind (on_budget check) (\<lambda>_.
    if rq_limit q = 0 then sraise (err_new InvalidArgument ''reference page limit must be positive'')
    else let fingerprint = ref_query_fingerprint (rq_prefix q) in
    sbind (slift (decode_resume R (lr_hash L) q)) (\<lambda>resume.
    sbind (local_items R L (rq_prefix q)) (\<lambda>items.
    sbind (list_items G R L (rq_limit q) resume items [] []) (\<lambda>(refs, warnings, has_more).
    sbind (slift (if has_more
        then rbind (encode_ref_cursor (lr_hash L) fingerprint (fst (last refs))) (\<lambda>c. Inr (Some c))
        else Inr None)) (\<lambda>next_cursor.
    sreturn \<lparr>rp_refs = refs, rp_next_cursor = next_cursor, rp_truncated = has_more, rp_warnings = warnings\<rparr>)))))"

definition local_ref_db :: "gix \<Rightarrow> ref_rules \<Rightarrow> ('w, 'p) local_refs \<Rightarrow> 'w ref_db" where
  "local_ref_db G R L = \<lparr>rd_resolve = local_resolve G R L, rd_list = local_list G R L,
    rd_resolve_following = local_resolve_following G R L, rd_refresh = default_ref_refresh\<rparr>"


section \<open>Chains of symbolic references\<close>

text \<open>\<open>Q x r\<close>: looking up \<open>x\<close> gives \<open>r\<close>. After \<open>k\<close> symbolic references \<open>name\<close> ends in \<open>r\<close>.\<close>

fun chain_to :: "ref_rules \<Rightarrow> (bytes \<Rightarrow> ref_target option \<Rightarrow> bool) \<Rightarrow> nat \<Rightarrow> bytes \<Rightarrow> ref_target option \<Rightarrow> bool" where
  "chain_to R Q 0 name r \<longleftrightarrow> Q name r \<and> (\<forall>next. r \<noteq> Some (Symbolic next))"
| "chain_to R Q (Suc k) name r \<longleftrightarrow>
    (\<exists>next. Q name (Some (Symbolic next)) \<and> validate_full_ref_name R next = Inr () \<and> chain_to R Q k next r)"

lemma symbolic_target_ok: "symbolic_target R next = Inr () \<longleftrightarrow> validate_full_ref_name R next = Inr ()"
  by (simp add: symbolic_target_def split: sum.splits)

lemma resolve_hops_sound:
  assumes "\<And>x s r s'. lookup x s = (Inr r, s') \<Longrightarrow> Q x r"
  shows "resolve_hops R lookup n current seen chain s = (Inr r, s') \<Longrightarrow> \<exists>k < n. chain_to R Q k current r"
proof (induction n arbitrary: current seen chain s)
  case 0
  then show ?case by (simp add: sr_inv)
next
  case (Suc n)
  then obtain found s1 s2 where found: "lookup current s1 = (Inr found, s2)" "current \<notin> seen"
    and rest: "(case found of None \<Rightarrow> sreturn None | Some (Direct x peeled) \<Rightarrow> sreturn (Some (Direct x peeled))
      | Some (Symbolic next) \<Rightarrow> sbind (slift (symbolic_target R next)) (\<lambda>_.
          resolve_hops R lookup n next (insert current seen) (chain @ [current]))) s2 = (Inr r, s')"
    by (auto simp: sr_inv split: if_splits)
  show ?case
  proof (cases "\<exists>next. found = Some (Symbolic next)")
    case True
    then obtain nx where nx: "found = Some (Symbolic nx)" by blast
    from rest [unfolded nx] have "symbolic_target R nx = Inr ()"
        and "resolve_hops R lookup n nx (insert current seen) (chain @ [current]) s2 = (Inr r, s')"
      by (auto simp: sr_inv)
    then have "validate_full_ref_name R nx = Inr ()"
        "resolve_hops R lookup n nx (insert current seen) (chain @ [current]) s2 = (Inr r, s')" by (simp_all add: symbolic_target_ok)
    with Suc.IH obtain k where "k < n" "chain_to R Q k nx r" by blast
    with assms [OF found(1)] nx \<open>validate_full_ref_name R nx = Inr ()\<close> show ?thesis
      by (intro exI [of _ "Suc k"]) auto
  next
    case False
    with rest have "r = found" by (auto simp: sr_inv split: option.splits ref_target.splits)
    with False assms [OF found(1)] show ?thesis by (intro exI [of _ 0]) auto
  qed
qed

abbreviation mapped :: "(bytes \<Rightarrow> ref_target option) \<Rightarrow> bytes \<Rightarrow> ref_target option \<Rightarrow> bool" where
  "mapped T \<equiv> (\<lambda>x r. T x = r)"

lemma chain_to_unique:
  "chain_to R (mapped T) k x r \<Longrightarrow> chain_to R (mapped T) k' x r' \<Longrightarrow> k = k'"
proof (induction k arbitrary: k' x)
  case 0
  then show ?case by (cases k') auto
next
  case (Suc k)
  then show ?case by (cases k') fastforce+
qed

text \<open>The cycle check never rejects a chain that ends: every name seen is farther from the end.\<close>

lemma resolve_hops_complete:
  assumes "\<And>x. yields (lookup x) (T x)"
  shows "chain_to R (mapped T) k current r \<Longrightarrow> k < n \<Longrightarrow> \<forall>y \<in> seen. \<exists>k' > k. chain_to R (mapped T) k' y r
    \<Longrightarrow> yields (resolve_hops R lookup n current seen chain) r"
proof (induction k arbitrary: n current seen chain)
  case 0
  then obtain m where m: "n = Suc m" by (cases n) auto
  have fresh: "current \<notin> seen" using 0 chain_to_unique by blast
  have "yields (case T current of None \<Rightarrow> sreturn None | Some (Direct x peeled) \<Rightarrow> sreturn (Some (Direct x peeled))
      | Some (Symbolic next) \<Rightarrow> sbind (slift (symbolic_target R next)) (\<lambda>_.
          resolve_hops R lookup m next (insert current seen) (chain @ [current]))) r"
    using "0.prems"(1) by (auto simp: yields_sreturn split: option.splits ref_target.splits)
  then show ?case using fresh by (simp add: m yields_sbind [OF yields_check] yields_sbind [OF assms])
next
  case (Suc k)
  then obtain m where m: "n = Suc m" by (cases n) auto
  obtain nx where nx: "T current = Some (Symbolic nx)" "validate_full_ref_name R nx = Inr ()" "chain_to R (mapped T) k nx r"
    using Suc.prems(1) by auto
  have fresh: "current \<notin> seen" using Suc.prems(1,3) chain_to_unique by blast
  have "\<forall>y \<in> insert current seen. \<exists>k' > k. chain_to R (mapped T) k' y r"
    using Suc.prems(1,3) Suc_lessD by blast
  then have "yields (resolve_hops R lookup m nx (insert current seen) (chain @ [current])) r"
    using Suc.prems(2) m by (intro Suc.IH [OF nx(3)]) simp_all
  then have "yields (sbind (slift (symbolic_target R nx)) (\<lambda>_.
      resolve_hops R lookup m nx (insert current seen) (chain @ [current]))) r"
    using nx(2) by (intro yields_sbind [OF yields_slift]) (simp_all add: symbolic_target_ok)
  then show ?case using fresh nx(1) by (simp add: m yields_sbind [OF yields_check] yields_sbind [OF assms])
qed

lemma symbolic_target_code: "symbolic_target R next = Inl e \<Longrightarrow> err_code e = MalformedRef"
  by (auto simp: symbolic_target_def split: sum.splits)

lemma resolve_hops_exact:
  assumes "\<And>x. yields (lookup x) (T x)"
  shows "unlimited b \<Longrightarrow> case fst (resolve_hops R lookup n current seen chain (w, b)) of
      Inl e \<Rightarrow> err_code e = MalformedRef
    | Inr r \<Rightarrow> \<exists>k < n. chain_to R (mapped T) k current r"
proof (induction n arbitrary: current seen chain b)
  case 0
  then show ?case by (simp add: sraise_def hop_limit_error_def)
next
  case (Suc n)
  obtain b1 where b1: "on_budget check (w, b) = (Inr (), (w, b1))" "unlimited b1"
    using yields_run [OF yields_check Suc.prems, of w] by (elim exE conjE)
  obtain b2 where b2: "lookup current (w, b1) = (Inr (T current), (w, b2))" "unlimited b2"
    using yields_run [OF assms b1(2), of current w] by (elim exE conjE)
  show ?case
  proof (cases "current \<in> seen")
    case True
    then show ?thesis using b1(1) by (simp add: sbind_def sraise_def symbolic_cycle_def)
  next
    case False
    note run = b1(1) b2(1) False
    show ?thesis
    proof (cases "\<exists>nx. T current = Some (Symbolic nx)")
      case True
      then obtain nx where nx: "T current = Some (Symbolic nx)" by blast
      show ?thesis
      proof (cases "symbolic_target R nx")
        case (Inl x)
        with symbolic_target_code [OF Inl] show ?thesis by (simp add: sbind_def slift_def run nx)
      next
        case (Inr x)
        then have ok: "validate_full_ref_name R nx = Inr ()" by (simp flip: symbolic_target_ok)
        have "resolve_hops R lookup (Suc n) current seen chain (w, b)
            = resolve_hops R lookup n nx (insert current seen) (chain @ [current]) (w, b2)"
          using Inr by (simp add: sbind_def slift_def run nx)
        moreover have "\<exists>k < Suc n. chain_to R (mapped T) k current r" if "\<exists>k < n. chain_to R (mapped T) k nx r" for r
        proof -
          from that obtain k where "k < n" "chain_to R (mapped T) k nx r" by blast
          then have "Suc k < Suc n" "chain_to R (mapped T) (Suc k) current r" using nx ok by auto
          then show ?thesis by blast
        qed
        ultimately show ?thesis using Suc.IH [OF b2(2), of nx "insert current seen" "chain @ [current]"]
          by (cases "fst (resolve_hops R lookup n nx (insert current seen) (chain @ [current]) (w, b2))")
            (simp_all del: resolve_hops.simps)
      qed
    next
      case False
      then have "fst (resolve_hops R lookup (Suc n) current seen chain (w, b)) = Inr (T current)"
        by (auto simp: sbind_def sreturn_def run split: option.splits ref_target.splits)
      moreover have "chain_to R (mapped T) 0 current (T current)" using False by simp
      ultimately show ?thesis by auto
    qed
  qed
qed

text \<open>
  C26. Symbolic resolution is exact on a store that answers by a map, under a budget without
  ceilings, deadline and cancellation (every hop checks the budget, and any other budget may
  end the resolution with an error of its own): it returns what the name ends in after fewer
  than sixteen valid symbolic references, and fails with \<open>MalformedRef\<close> when the name
  is invalid, a target is invalid, the chain is longer, or it is a cycle.
\<close>

theorem symbolic_resolution_exact:
  assumes "\<And>x. yields (lookup x) (T x)" and "unlimited b"
  shows "case fst (resolve_with R name lookup (w, b)) of
      Inr r \<Rightarrow> validate_full_ref_name R name = Inr ()
        \<and> (\<exists>k < MAX_SYMBOLIC_REF_HOPS. chain_to R (\<lambda>x t. T x = t) k name r)
    | Inl e \<Rightarrow> err_code e = MalformedRef
        \<and> \<not> (validate_full_ref_name R name = Inr ()
            \<and> (\<exists>k < MAX_SYMBOLIC_REF_HOPS. \<exists>r. chain_to R (\<lambda>x t. T x = t) k name r))"
proof (cases "validate_full_ref_name R name")
  case (Inl e)
  then show ?thesis
    by (auto simp: resolve_with_def sbind_def slift_def validate_full_ref_name_def split: if_splits)
next
  case valid: (Inr u)
  let ?run = "resolve_hops R lookup MAX_SYMBOLIC_REF_HOPS name {} [] (w, b)"
  have run: "resolve_with R name lookup (w, b) = ?run" using valid by (simp add: resolve_with_def sbind_def slift_def)
  have complete: "fst ?run = Inr r" if "k < MAX_SYMBOLIC_REF_HOPS" "chain_to R (mapped T) k name r" for k r
    using yields_run [OF resolve_hops_complete [OF assms(1) that(2,1), of "{}" "[]"] assms(2), of w] by auto
  have exact: "case fst ?run of Inl e \<Rightarrow> err_code e = MalformedRef
      | Inr r \<Rightarrow> \<exists>k < MAX_SYMBOLIC_REF_HOPS. chain_to R (mapped T) k name r"
    by (rule resolve_hops_exact [OF assms])
  show ?thesis
  proof (cases "fst ?run")
    case (Inl e)
    then show ?thesis using exact complete unfolding run by fastforce
  next
    case (Inr r)
    then show ?thesis using exact valid unfolding run by simp
  qed
qed

section \<open>Pages\<close>

text \<open>A target without its best-effort peeled commit, and what a listing can show of the iterator's items.\<close>

fun ref_ident :: "ref_target \<Rightarrow> ref_target" where
  "ref_ident (Direct x peeled) = Direct x None"
| "ref_ident (Symbolic name) = Symbolic name"

definition listed_as :: "hash_kind \<Rightarrow> gix_reference \<Rightarrow> ref_target option" where
  "listed_as hash r =
    (case gr_target r of
       GixSymbolic target \<Rightarrow> Some (Symbolic target)
     | GixObject d \<Rightarrow> (case oid_new hash d of Inl _ \<Rightarrow> None | Inr x \<Rightarrow> Some (Direct x None)))"

fun listable :: "ref_rules \<Rightarrow> hash_kind \<Rightarrow> bytes option \<Rightarrow> (iter_error + gix_reference) list \<Rightarrow> (bytes \<times> ref_target) list" where
  "listable R hash resume [] = []"
| "listable R hash resume (Inl e # items) = listable R hash resume items"
| "listable R hash resume (Inr r # items) =
    (if resumed resume (gr_name r) \<or> validate_full_ref_name R (gr_name r) \<noteq> Inr () then listable R hash resume items
     else case listed_as hash r of
         None \<Rightarrow> listable R hash resume items
       | Some t \<Rightarrow> (gr_name r, t) # listable R hash resume items)"

definition page_idents :: "(bytes \<times> ref_target) list \<Rightarrow> (bytes \<times> ref_target) list" where
  "page_idents refs = map (\<lambda>(name, t). (name, ref_ident t)) refs"

lemma page_idents_append [simp]: "page_idents (xs @ ys) = page_idents xs @ page_idents ys"
  by (simp add: page_idents_def)

lemma length_page_idents [simp]: "length (page_idents xs) = length xs"
  by (simp add: page_idents_def)

lemma local_peeled_answers: "\<exists>p s'. local_peeled G L x d s = (Inr p, s')"
  by (auto simp: local_peeled_def sbind_def sattempt_def sreturn_def sok_def split: option.splits sum.splits prod.splits)

lemma local_target_ident:
  "listed_as (lr_hash L) r = (case fst (local_target G R L r s) of Inl _ \<Rightarrow> None | Inr t \<Rightarrow> Some (ref_ident t))"
proof (cases "gr_target r")
  case (GixObject d)
  show ?thesis
  proof (cases "oid_new (lr_hash L) d")
    case (Inr x)
    obtain p s' where "local_peeled G L x (gr_peeled r) s = (Inr p, s')" using local_peeled_answers by blast
    with GixObject Inr show ?thesis by (simp add: local_target_def listed_as_def sbind_def sreturn_def)
  qed (simp add: local_target_def listed_as_def sraise_def GixObject)
qed (simp add: local_target_def listed_as_def sreturn_def)

lemma sattempt_iff [sr_inv]: "sattempt m s = (r, t) \<longleftrightarrow> (\<exists>q. r = Inr q \<and> m s = (q, t))"
  by (auto simp: sattempt_def split: prod.splits)

lemma list_items_pages:
  "list_items G R L limit resume items refs warnings s = (Inr (refs', warnings', has_more), s') \<Longrightarrow> length refs \<le> limit \<Longrightarrow>
   page_idents refs' = page_idents refs @ take (limit - length refs) (listable R (lr_hash L) resume items)
   \<and> (if has_more then length refs' = limit
      else length refs + length (listable R (lr_hash L) resume items) \<le> limit)"
proof (induction items arbitrary: refs warnings s)
  case Nil
  then show ?case by (auto simp: sr_inv)
next
  case (Cons item items)
  show ?case
  proof (cases item)
    case (Inl e)
    with Cons.prems obtain ws s1 where "list_items G R L limit resume items refs ws s1 = (Inr (refs', warnings', has_more), s')"
      by (auto simp: sr_inv Let_def)
    from Cons.IH [OF this Cons.prems(2)] Inl show ?thesis by simp
  next
    case (Inr r)
    have skip: ?thesis if "list_items G R L limit resume items refs ws s1 = (Inr (refs', warnings', has_more), s')"
        "listable R (lr_hash L) resume (item # items) = listable R (lr_hash L) resume items" for ws s1
      using Cons.IH [OF that(1) Cons.prems(2)] that(2) by simp
    show ?thesis
    proof (cases "resumed resume (gr_name r) \<or> validate_full_ref_name R (gr_name r) \<noteq> Inr ()")
      case True
      with Cons.prems(1) obtain ws s1 where "list_items G R L limit resume items refs ws s1 = (Inr (refs', warnings', has_more), s')"
        by (auto simp: sr_inv Let_def Inr split: sum.splits if_splits)
      then show ?thesis using True Inr by (intro skip) simp_all
    next
      case False
      show ?thesis
      proof (cases "length refs = limit")
        case True
        with False Cons.prems(1) show ?thesis by (auto simp: sr_inv Let_def Inr)
      next
        case room: False
        obtain s1 t s2 where t: "local_target G R L r s1 = (t, s2)"
          and rest: "(case t of
              Inr target \<Rightarrow> list_items G R L limit resume items (refs @ [(gr_name r, target)]) warnings
            | Inl e \<Rightarrow> list_items G R L limit resume items refs (warnings @ [skipped_reference R (gr_name r) e])) s2
              = (Inr (refs', warnings', has_more), s')"
          using Cons.prems(1) False room by (auto simp: sr_inv Let_def Inr)
        show ?thesis
        proof (cases t)
          case (Inl e)
          then have "listed_as (lr_hash L) r = None" using local_target_ident [of L r G R s1] t by simp
          with rest Inl False Inr show ?thesis by (intro skip) simp_all
        next
          case (Inr target)
          then have as: "listed_as (lr_hash L) r = Some (ref_ident target)" using local_target_ident [of L r G R s1] t by simp
          have "listable R (lr_hash L) resume (item # items) = (gr_name r, ref_ident target) # listable R (lr_hash L) resume items"
            using as False \<open>item = Inr r\<close> by simp
          moreover have "length (refs @ [(gr_name r, target)]) \<le> limit" using room Cons.prems(2) by simp
          moreover have "limit - length refs = Suc (limit - Suc (length refs))" using room Cons.prems(2) by simp
          ultimately show ?thesis using Cons.IH [of "refs @ [(gr_name r, target)]" warnings s2] rest Inr
            by (cases has_more) (simp_all add: page_idents_def)
        qed
      qed
    qed
  qed
qed


lemma on_files_iff [sr_inv]: "on_files e m (w, b) = (Inr v, t) \<longleftrightarrow> (\<exists>w'. m w = (Inr v, w') \<and> t = (w', b))"
  by (auto simp: on_files_def split: prod.splits sum.splits)

lemma local_items_from: "local_items R L pre s = (Inr items, s') \<Longrightarrow> \<exists>p w w'. fs_items (lr_files L) p pre w = (Inr items, w')"
  by (cases s) (auto simp: local_items_def sr_inv)

lemma local_list_run:
  assumes "local_list G R L q s = (Inr page, s')"
  shows "\<exists>resume items refs warnings has_more s1 s2. 0 < rq_limit q \<and> decode_resume R (lr_hash L) q = Inr resume
    \<and> (\<exists>p w w'. fs_items (lr_files L) p (rq_prefix q) w = (Inr items, w'))
    \<and> list_items G R L (rq_limit q) resume items [] [] s1 = (Inr (refs, warnings, has_more), s2)
    \<and> rp_refs page = refs \<and> rp_truncated page = has_more
    \<and> (if has_more then \<exists>c. encode_ref_cursor (lr_hash L) (ref_query_fingerprint (rq_prefix q)) (fst (last refs)) = Inr c
          \<and> rp_next_cursor page = Some c
       else rp_next_cursor page = None)"
proof -
  from assms obtain resume items refs warnings has_more cur s1 s2 s3 s4 where
    r: "rq_limit q \<noteq> 0" "Inr resume = decode_resume R (lr_hash L) q"
      "local_items R L (rq_prefix q) s1 = (Inr items, s2)"
      "list_items G R L (rq_limit q) resume items [] [] s2 = (Inr (refs, warnings, has_more), s3)"
      "slift (if has_more then rbind (encode_ref_cursor (lr_hash L) (ref_query_fingerprint (rq_prefix q)) (fst (last refs))) (\<lambda>c. Inr (Some c))
        else Inr None) s3 = (Inr cur, s4)"
      "page = \<lparr>rp_refs = refs, rp_next_cursor = cur, rp_truncated = has_more, rp_warnings = warnings\<rparr>"
    unfolding local_list_def Let_def by (auto simp: sbind_Inr_iff sreturn_iff slift_iff sraise_iff split: if_splits)
  from r(5) have "if has_more then \<exists>c. encode_ref_cursor (lr_hash L) (ref_query_fingerprint (rq_prefix q)) (fst (last refs)) = Inr c \<and> cur = Some c
      else cur = None"
    by (cases "encode_ref_cursor (lr_hash L) (ref_query_fingerprint (rq_prefix q)) (fst (last refs))") (auto simp: slift_iff split: if_splits)
  with r local_items_from [OF r(3)] show ?thesis
    by (intro exI [of _ resume] exI [of _ items] exI [of _ refs] exI [of _ warnings] exI [of _ has_more] exI [of _ s2] exI [of _ s3]) simp
qed

lemma local_list_page:
  assumes "local_list G R L q s = (Inr page, s')"
  shows "\<exists>resume items. decode_resume R (lr_hash L) q = Inr resume
    \<and> (\<exists>p w w'. fs_items (lr_files L) p (rq_prefix q) w = (Inr items, w'))
    \<and> page_idents (rp_refs page) = take (rq_limit q) (listable R (lr_hash L) resume items)
    \<and> (if rp_truncated page
       then length (rp_refs page) = rq_limit q \<and> rp_refs page \<noteq> []
          \<and> (\<exists>c. encode_ref_cursor (lr_hash L) (ref_query_fingerprint (rq_prefix q)) (fst (last (rp_refs page))) = Inr c
              \<and> rp_next_cursor page = Some c)
       else page_idents (rp_refs page) = listable R (lr_hash L) resume items \<and> rp_next_cursor page = None)"
proof -
  from local_list_run [OF assms] obtain resume items refs warnings has_more s1 s2 where
    r: "0 < rq_limit q" "decode_resume R (lr_hash L) q = Inr resume"
      "\<exists>p w w'. fs_items (lr_files L) p (rq_prefix q) w = (Inr items, w')"
      "list_items G R L (rq_limit q) resume items [] [] s1 = (Inr (refs, warnings, has_more), s2)"
      "rp_refs page = refs" "rp_truncated page = has_more"
      "if has_more then \<exists>c. encode_ref_cursor (lr_hash L) (ref_query_fingerprint (rq_prefix q)) (fst (last refs)) = Inr c
          \<and> rp_next_cursor page = Some c else rp_next_cursor page = None"
    by blast
  from list_items_pages [OF r(4)] have "page_idents refs = take (rq_limit q) (listable R (lr_hash L) resume items)"
      "if has_more then length refs = rq_limit q else length (listable R (lr_hash L) resume items) \<le> rq_limit q"
    by (cases has_more; simp add: page_idents_def)+
  with r show ?thesis by (intro exI [of _ resume] exI [of _ items]) auto
qed

lemma listable_filter:
  "listable R hash resume items = filter (\<lambda>(name, _). \<not> resumed resume name) (listable R hash None items)"
proof (induction items)
  case (Cons item items)
  then show ?case by (cases item) (auto simp: resumed_def split: option.splits)
qed simp

lemma listable_valid: "(name, t) \<in> set (listable R hash resume items) \<Longrightarrow> validate_full_ref_name R name = Inr ()"
proof (induction items)
  case (Cons item items)
  then show ?case by (cases item) (auto split: if_splits option.splits)
qed simp

fun item_names :: "('e + gix_reference) list \<Rightarrow> bytes list" where
  "item_names [] = []"
| "item_names (Inl e # items) = item_names items"
| "item_names (Inr r # items) = gr_name r # item_names items"

lemma listable_sorted:
  "sorted_wrt (<) (item_names items) \<Longrightarrow> sorted_wrt (<) (map fst (listable R hash None items))
    \<and> set (map fst (listable R hash None items)) \<subseteq> set (item_names items)"
proof (induction items)
  case (Cons item items)
  then show ?case by (cases item) (auto simp: resumed_def split: option.splits)
qed simp

lemma filter_after_nth:
  fixes f :: "'a \<Rightarrow> 'b::linorder"
  assumes "sorted_wrt (<) (map f xs)" and "n < length xs"
  shows "filter (\<lambda>x. \<not> f x \<le> f (xs ! n)) xs = drop (Suc n) xs"
proof -
  have *: "f (xs ! i) < f (xs ! j)" if "i < j" "j < length xs" for i j
    using sorted_wrt_nth_less [OF assms(1), of i j] that by simp
  have "filter (\<lambda>x. \<not> f x \<le> f (xs ! n)) (take (Suc n) xs) = []"
    using * [of _ n] assms(2) by (auto simp: filter_empty_conv in_set_conv_nth less_Suc_eq order.strict_implies_order)
  moreover have "filter (\<lambda>x. \<not> f x \<le> f (xs ! n)) (drop (Suc n) xs) = drop (Suc n) xs"
    using * by (auto simp: filter_id_conv in_set_conv_nth not_le)
  ultimately show ?thesis by (metis append_take_drop_id filter_append append_Nil)
qed


lemma listable_after_page:
  assumes "sorted_wrt (<) (item_names items)" and "n < length (listable R hash resume items)"
  shows "listable R hash (Some (fst (listable R hash resume items ! n))) items = drop (Suc n) (listable R hash resume items)"
proof -
  let ?all = "listable R hash None items" and ?ls = "listable R hash resume items"
  let ?pos = "fst (?ls ! n)"
  have sorted: "sorted_wrt (<) (map fst ?ls)"
    using listable_sorted [OF assms(1), of R hash] unfolding listable_filter [of R hash resume]
    by (auto simp: sorted_wrt_map intro: sorted_wrt_filter)
  have "?ls ! n \<in> set ?ls" using assms(2) by simp
  then have "\<not> resumed resume ?pos" unfolding listable_filter [of R hash resume] by auto
  then have later: "\<not> resumed resume name" if "\<not> name \<le> ?pos" for name
    using that by (auto simp: resumed_def split: option.splits)
  have "listable R hash (Some ?pos) items = filter (\<lambda>x. \<not> fst x \<le> ?pos) ?all"
    by (simp add: listable_filter [of R hash "Some ?pos"] resumed_def case_prod_unfold)
  also have "\<dots> = filter (\<lambda>x. \<not> fst x \<le> ?pos) (filter (\<lambda>(name, _). \<not> resumed resume name) ?all)"
    using later by (auto intro!: filter_cong)
  also have "\<dots> = filter (\<lambda>x. \<not> fst x \<le> ?pos) ?ls" by (simp flip: listable_filter)
  also have "\<dots> = drop (Suc n) ?ls" by (rule filter_after_nth [OF sorted assms(2)])
  finally show ?thesis .
qed

lemma page_last:
  assumes "page_idents refs = take n ls" and "length refs = n" and "refs \<noteq> []"
  shows "n - 1 < length ls \<and> fst (last refs) = fst (ls ! (n - 1)) \<and> n = Suc (n - 1)"
proof -
  have len: "n \<le> length ls" "0 < n" using assms by (auto simp: page_idents_def dest: arg_cong [of _ _ length])
  have "fst (last refs) = fst (last (page_idents refs))"
    using assms(3) by (simp add: page_idents_def last_map case_prod_unfold)
  also have "\<dots> = fst (ls ! (n - 1))" unfolding assms(1) using len by (subst last_conv_nth) (auto simp: min_def)
  finally show ?thesis using len by simp
qed

text \<open>
  A page of references holds the first \<open>limit\<close> references after the cursor, in the
  iterator's order: those with a valid name and a well-formed target. A page that is not
  truncated holds all of them, a truncated one is full and carries a cursor.
\<close>

theorem ref_page_contents:
  assumes "local_list G R L q s = (Inr page, s')"
  shows "\<exists>resume items p w w'. decode_resume R (lr_hash L) q = Inr resume
    \<and> fs_items (lr_files L) p (rq_prefix q) w = (Inr items, w')
    \<and> page_idents (rp_refs page) = take (rq_limit q) (listable R (lr_hash L) resume items)
    \<and> (if rp_truncated page then length (rp_refs page) = rq_limit q \<and> rp_next_cursor page \<noteq> None
       else page_idents (rp_refs page) = listable R (lr_hash L) resume items \<and> rp_next_cursor page = None)"
proof -
  from local_list_page [OF assms] obtain resume items p w w' where *:
    "decode_resume R (lr_hash L) q = Inr resume" "fs_items (lr_files L) p (rq_prefix q) w = (Inr items, w')"
    "page_idents (rp_refs page) = take (rq_limit q) (listable R (lr_hash L) resume items)"
    "if rp_truncated page
       then length (rp_refs page) = rq_limit q \<and> rp_refs page \<noteq> []
          \<and> (\<exists>c. encode_ref_cursor (lr_hash L) (ref_query_fingerprint (rq_prefix q)) (fst (last (rp_refs page))) = Inr c
              \<and> rp_next_cursor page = Some c)
       else page_idents (rp_refs page) = listable R (lr_hash L) resume items \<and> rp_next_cursor page = None"
    by (elim exE conjE)
  show ?thesis
    by (rule exI [of _ resume], rule exI [of _ items], rule exI [of _ p], rule exI [of _ w], rule exI [of _ w'],
        cases "rp_truncated page") (use * in \<open>auto simp del: take_all_iff\<close>)
qed

text \<open>
  C27. Consecutive pages join: when the file store enumerates the same items in strictly ascending
  name order for both calls, a truncated page followed by the page at its cursor shows the first
  \<open>limit + limit'\<close> references, none lost and none repeated.
\<close>

theorem ref_pages_join:
  assumes "\<And>name b. rr_valid R name \<Longrightarrow> b \<in> set name \<Longrightarrow> ref_name_alphabet_rank b \<noteq> None"
    and "\<And>p w its w'. fs_items (lr_files L) p (rq_prefix q) w = (Inr its, w') \<Longrightarrow> its = items"
    and "sorted_wrt (<) (item_names items)"
    and "local_list G R L q s = (Inr page, s1)" and "rp_next_cursor page = Some c"
    and "local_list G R L (q\<lparr>rq_cursor := Some c, rq_limit := limit'\<rparr>) s2 = (Inr page', s3)"
    and "decode_resume R (lr_hash L) q = Inr resume"
  shows "page_idents (rp_refs page) @ page_idents (rp_refs page')
    = take (rq_limit q + limit') (listable R (lr_hash L) resume items)"
proof -
  let ?ls = "listable R (lr_hash L) resume items" and ?n = "rq_limit q"
  let ?fp = "ref_query_fingerprint (rq_prefix q)" and ?pos = "fst (last (rp_refs page))"
  have p1: "page_idents (rp_refs page) = take ?n ?ls" "length (rp_refs page) = ?n" "rp_refs page \<noteq> []"
      "encode_ref_cursor (lr_hash L) ?fp ?pos = Inr c"
    using local_list_page [OF assms(4)] assms(2,5,7) by (auto split: if_splits)
  note l = page_last [OF p1(1-3)]
  have valid: "validate_full_ref_name R ?pos = Inr ()"
    using l nth_mem [of "?n - 1" ?ls] listable_valid [of "fst (?ls ! (?n - 1))" "snd (?ls ! (?n - 1))" R "lr_hash L" resume items]
    by simp
  obtain enc where "encode_ref_cursor (lr_hash L) ?fp ?pos = Inr enc" "decode_ref_cursor R enc (lr_hash L) ?fp = Inr ?pos"
    using ref_cursor_lemma [OF valid, of "lr_hash L" ?fp] assms(1) valid
    by (fastforce simp: validate_full_ref_name_def ref_letter_def split: if_splits)
  then have dec: "decode_resume R (lr_hash L) (q\<lparr>rq_cursor := Some c, rq_limit := limit'\<rparr>) = Inr (Some ?pos)"
    using p1(4) by (simp add: decode_resume_def)
  have "page_idents (rp_refs page') = take limit' (listable R (lr_hash L) (Some ?pos) items)"
    using local_list_page [OF assms(6)] assms(2) dec by auto
  then show ?thesis using p1(1) l listable_after_page [OF assms(3), of "?n - 1" R "lr_hash L" resume]
    by (simp add: take_add)
qed


section \<open>Local resolution\<close>

definition file_answer :: "hash_kind \<Rightarrow> gix_reference option \<Rightarrow> ref_target option \<Rightarrow> bool" where
  "file_answer hash found t =
    (case found of None \<Rightarrow> t = None | Some r \<Rightarrow> \<exists>u. t = Some u \<and> listed_as hash r = Some (ref_ident u))"

lemma optional_target_answer:
  "optional_target G R L found s = (Inr t, s') \<Longrightarrow> file_answer (lr_hash L) found t"
  using local_target_ident [of L _ G R s]
  by (fastforce simp: optional_target_def file_answer_def sr_inv split: option.splits)

lemma packed_lookup_answer:
  assumes "\<And>p x w v w'. fs_try_find_packed (lr_files L) p x w = (Inr v, w') \<Longrightarrow> v = F x"
    and "packed_lookup G R L p x s = (Inr t, s')"
  shows "file_answer (lr_hash L) (F x) t"
proof -
  from assms(2) obtain v s1 where "on_files (undecodable R x) (fs_try_find_packed (lr_files L) p x) s = (Inr v, s1)"
      "optional_target G R L v s1 = (Inr t, s')"
    by (auto simp: packed_lookup_def sr_inv split: if_splits)
  moreover from this(1) have "v = F x" using assms(1) by (cases s) (auto simp: sr_inv)
  ultimately show ?thesis using optional_target_answer by blast
qed

text \<open>
  Resolution in a local repository follows the files: what it returns is, up to the peeled
  commit, the end of the chain of fewer than sixteen symbolic references that the loose and
  packed files hold, when these do not change during the call.
\<close>

theorem local_resolution_follows_files:
  assumes "\<And>p x w v w'. fs_try_find_packed (lr_files L) p x w = (Inr v, w') \<Longrightarrow> v = F x"
    and "local_resolve_following G R L name s = (Inr r, s')"
  shows "\<exists>k < MAX_SYMBOLIC_REF_HOPS. chain_to R (\<lambda>x t. file_answer (lr_hash L) (F x) t) k name r"
proof -
  from assms(2) obtain packed s1 where
    "resolve_hops R (packed_lookup G R L packed) MAX_SYMBOLIC_REF_HOPS name {} [] s1 = (Inr r, s')"
    by (auto simp: local_resolve_following_def resolve_with_def sr_inv)
  moreover have "file_answer (lr_hash L) (F x) t" if "packed_lookup G R L packed x s = (Inr t, s')" for x t s s'
    by (rule packed_lookup_answer [OF assms(1) that])
  ultimately show ?thesis by (rule resolve_hops_sound [rotated])
qed

section \<open>Examples\<close>

definition main_name :: bytes where "main_name = ascii ''refs/heads/main''"
definition head_oid :: oid where "head_oid = Oid Sha1 (replicate 32 0)"

definition head_map :: "bytes \<Rightarrow> ref_target option" where
  "head_map = [ascii ''HEAD'' \<mapsto> Symbolic main_name, main_name \<mapsto> Direct head_oid None]"

theorem symbolic_resolution_exact_witness:
  "fst (resolve_with letter_rules (ascii ''HEAD'') (\<lambda>x. sreturn (head_map x)) ((), budget_unlimited idle))
     = Inr (Some (Direct head_oid None))
   \<and> (\<exists>k < MAX_SYMBOLIC_REF_HOPS. chain_to letter_rules (\<lambda>x t. head_map x = t) k (ascii ''HEAD'') (Some (Direct head_oid None)))"
proof -
  have run: "fst (resolve_with letter_rules (ascii ''HEAD'') (\<lambda>x. sreturn (head_map x)) ((), budget_unlimited idle))
     = Inr (Some (Direct head_oid None))" by code_simp
  show ?thesis
    using symbolic_resolution_exact [of "\<lambda>x. sreturn (head_map x)" head_map "budget_unlimited idle" letter_rules "ascii ''HEAD''" "()"]
    by (simp only: run sum.case yields_sreturn unlimited_start)
qed


text \<open>A repository with two valid references and a malformed line between them.\<close>

definition name_a :: bytes where "name_a = ascii ''refs/a''"
definition name_b :: bytes where "name_b = ascii ''refs/b''"
definition name_c :: bytes where "name_c = ascii ''refs/c''"

definition demo_reference :: "bytes \<Rightarrow> gix_reference" where
  "demo_reference name = \<lparr>gr_name = name, gr_target = GixSymbolic main_name, gr_peeled = None\<rparr>"

definition bad_line :: iter_error where
  "bad_line = \<lparr>ie_kind = PackedReference (ascii ''x '' @ name_b), ie_text = ''invalid line''\<rparr>"

definition demo_items :: "(iter_error + gix_reference) list" where
  "demo_items = [Inr (demo_reference name_a), Inl bad_line, Inr (demo_reference name_c)]"

definition demo_files :: "(unit, unit) ref_files" where
  "demo_files = \<lparr>fs_try_find = (\<lambda>x w. (Inr None, w)), fs_cached_packed = (\<lambda>w. (Inr (), w)),
    fs_try_find_packed = (\<lambda>p x w. (Inr (if x = name_a then Some (demo_reference name_a) else None), w)),
    fs_iter = (\<lambda>w. (Inr (), w)), fs_relative = (\<lambda>p. True),
    fs_items = (\<lambda>p pre w. (Inr demo_items, w))\<rparr>"

definition demo_refs :: "(unit, unit) local_refs" where
  "demo_refs = \<lparr>lr_hash = Sha1, lr_git_dir = [],
    lr_objects = static_db \<lparr>so_hash = Sha1, so_objects = Map.empty\<rparr>, lr_files = demo_files\<rparr>"

definition demo_query :: "bytes option \<Rightarrow> ref_query" where
  "demo_query c = \<lparr>rq_prefix = None, rq_limit = 1, rq_cursor = c\<rparr>"

definition demo_warning :: ref_warning where
  "demo_warning = \<lparr>rw_name = name_b, rw_message = ''skipped malformed reference : invalid line''\<rparr>"

lemma yields_on_files: "(\<And>w. m w = (Inr v, w)) \<Longrightarrow> yields (on_files e m) v"
  by (simp add: yields_def on_files_def)

lemma demo_eval:
  "validate_full_ref_name letter_rules name_a = Inr ()"
  "validate_full_ref_name letter_rules name_c = Inr ()"
  "iteration_warning letter_rules bad_line [] = demo_warning"
  "name_a < name_c" "\<not> name_b \<le> name_a" "\<not> name_c \<le> name_a" "name_b \<noteq> unknown_name"
  by code_simp+

lemma demo_target: "local_target G R L (demo_reference n) = sreturn (Symbolic main_name)"
  by (simp add: local_target_def demo_reference_def fun_eq_iff)

lemma demo_fields [simp]: "lr_hash demo_refs = Sha1" "lr_git_dir demo_refs = []" "lr_files demo_refs = demo_files"
    "gr_name (demo_reference n) = n" "rw_name demo_warning = name_b"
    "fs_items demo_files p pre w = (Inr demo_items, w)" "fs_iter demo_files w = (Inr (), w)"
  by (simp_all add: demo_refs_def demo_reference_def demo_warning_def demo_files_def)

lemmas demo_intros = yields_sbind [OF yields_check] yields_sbind [OF yields_sattempt [OF yields_sreturn]] yields_sreturn

lemma demo_first_items:
  "yields (list_items G letter_rules demo_refs 1 None demo_items [] []) ([(name_a, Symbolic main_name)], [demo_warning], True)"
  by (auto simp: demo_items_def demo_target demo_eval resumed_def intro!: demo_intros)

lemma demo_second_items:
  "yields (list_items G letter_rules demo_refs 1 (Some name_a) demo_items [] []) ([(name_c, Symbolic main_name)], [demo_warning], False)"
  by (auto simp: demo_items_def demo_target demo_eval resumed_def intro!: demo_intros)

lemma demo_local_items: "yields (local_items R demo_refs None) demo_items"
  unfolding local_items_def
  by (intro yields_sbind [OF yields_on_files] yields_sbind [OF yields_slift] yields_on_files) simp_all

lemma demo_cursor:
  "\<exists>c. encode_ref_cursor Sha1 (ref_query_fingerprint None) name_a = Inr c
    \<and> decode_resume letter_rules Sha1 (demo_query (Some c)) = Inr (Some name_a)"
proof -
  have "\<forall>b \<in> set name_a. ref_letter b" unfolding ref_letter_def by code_simp
  from ref_cursor_lemma [OF demo_eval(1) this, of Sha1 "ref_query_fingerprint None"] show ?thesis
    by (auto simp: decode_resume_def demo_query_def)
qed

lemma demo_first_page:
  assumes "encode_ref_cursor Sha1 (ref_query_fingerprint None) name_a = Inr c"
  shows "yields (local_list G letter_rules demo_refs (demo_query None))
    \<lparr>rp_refs = [(name_a, Symbolic main_name)], rp_next_cursor = Some c, rp_truncated = True, rp_warnings = [demo_warning]\<rparr>"
  using assms unfolding local_list_def
  by (auto simp: demo_query_def decode_resume_def Let_def intro!: yields_sbind [OF yields_check] yields_sbind [OF yields_slift]
      yields_sbind [OF demo_local_items] yields_sbind [OF demo_first_items [unfolded One_nat_def]] yields_sreturn)

lemma demo_second_page:
  assumes "decode_resume letter_rules Sha1 (demo_query (Some c)) = Inr (Some name_a)"
  shows "yields (local_list G letter_rules demo_refs (demo_query (Some c)))
    \<lparr>rp_refs = [(name_c, Symbolic main_name)], rp_next_cursor = None, rp_truncated = False, rp_warnings = [demo_warning]\<rparr>"
  unfolding local_list_def using assms
  by (auto simp: demo_query_def Let_def intro!: yields_sbind [OF yields_check] yields_sbind [OF yields_slift]
      yields_sbind [OF demo_local_items] yields_sbind [OF demo_second_items [unfolded One_nat_def]] yields_sreturn)


definition demo_start :: "unit \<times> budget" where
  "demo_start = ((), budget_unlimited idle)"

text \<open>
  The malformed line between the two references is reported on the first page and again on the
  second, although it lies before the page break.
\<close>

lemma ref_warning_repeats:
  "\<exists>c page page' s1 s2. local_list toy_gix letter_rules demo_refs (demo_query None) demo_start = (Inr page, s1)
    \<and> rp_next_cursor page = Some c
    \<and> local_list toy_gix letter_rules demo_refs (demo_query (Some c)) demo_start = (Inr page', s2)
    \<and> rp_warnings page = [demo_warning] \<and> rp_warnings page' = [demo_warning]"
proof -
  obtain c where c: "encode_ref_cursor Sha1 (ref_query_fingerprint None) name_a = Inr c"
      "decode_resume letter_rules Sha1 (demo_query (Some c)) = Inr (Some name_a)"
    using demo_cursor by blast
  have run: "\<exists>s. m demo_start = (Inr v, s)" if "yields m v" for m :: "(unit, ref_page) op" and v
    using that unlimited_start unfolding yields_def demo_start_def by blast
  from run [OF demo_first_page [OF c(1), of toy_gix]] run [OF demo_second_page [OF c(2), of toy_gix]] show ?thesis
    by (elim exE) (rule exI [of _ c], auto)
qed

theorem ref_page_contents_witness:
  "\<exists>page s. local_list toy_gix letter_rules demo_refs (demo_query None) demo_start = (Inr page, s)
    \<and> (\<exists>resume items p w w'. decode_resume letter_rules (lr_hash demo_refs) (demo_query None) = Inr resume
    \<and> fs_items (lr_files demo_refs) p (rq_prefix (demo_query None)) w = (Inr items, w')
    \<and> page_idents (rp_refs page) = take (rq_limit (demo_query None)) (listable letter_rules (lr_hash demo_refs) resume items)
    \<and> (if rp_truncated page then length (rp_refs page) = rq_limit (demo_query None) \<and> rp_next_cursor page \<noteq> None
       else page_idents (rp_refs page) = listable letter_rules (lr_hash demo_refs) resume items \<and> rp_next_cursor page = None))"
proof -
  obtain page s where run: "local_list toy_gix letter_rules demo_refs (demo_query None) demo_start = (Inr page, s)"
    using ref_warning_repeats by (elim exE conjE)
  show ?thesis by (rule exI [of _ page], rule exI [of _ s], rule conjI [OF run]) (rule ref_page_contents [OF run])
qed

theorem ref_pages_join_witness:
  "\<exists>c page page' s1 s2. local_list toy_gix letter_rules demo_refs (demo_query None) demo_start = (Inr page, s1)
    \<and> rp_next_cursor page = Some c
    \<and> local_list toy_gix letter_rules demo_refs (demo_query (Some c)) demo_start = (Inr page', s2)
    \<and> page_idents (rp_refs page) @ page_idents (rp_refs page') = take 2 (listable letter_rules Sha1 None demo_items)"
proof -
  obtain c page page' s1 s2 where
    run: "local_list toy_gix letter_rules demo_refs (demo_query None) demo_start = (Inr page, s1)" "rp_next_cursor page = Some c"
      "local_list toy_gix letter_rules demo_refs (demo_query (Some c)) demo_start = (Inr page', s2)"
    using ref_warning_repeats by (elim exE conjE)
  have q: "(demo_query None)\<lparr>rq_cursor := Some c, rq_limit := 1\<rparr> = demo_query (Some c)" by (simp add: demo_query_def)
  have "page_idents (rp_refs page) @ page_idents (rp_refs page')
      = take (rq_limit (demo_query None) + 1) (listable letter_rules (lr_hash demo_refs) None demo_items)"
  proof (rule ref_pages_join [OF _ _ _ run(1,2)])
    show "local_list toy_gix letter_rules demo_refs ((demo_query None)\<lparr>rq_cursor := Some c, rq_limit := 1\<rparr>) demo_start = (Inr page', s2)"
      unfolding q by (rule run(3))
  qed (auto simp: letter_rules_def list_all_iff demo_items_def demo_eval decode_resume_def demo_query_def)
  then have "page_idents (rp_refs page) @ page_idents (rp_refs page') = take 2 (listable letter_rules Sha1 None demo_items)"
    by (simp add: demo_query_def numeral_2_eq_2)
  with run show ?thesis
    by (intro exI [of _ c] exI [of _ page] exI [of _ page'] exI [of _ s1] exI [of _ s2] conjI)
qed

theorem local_resolution_follows_files_witness:
  "\<exists>r s. local_resolve_following toy_gix letter_rules demo_refs name_a demo_start = (Inr r, s)
    \<and> (\<exists>k < MAX_SYMBOLIC_REF_HOPS. chain_to letter_rules
         (\<lambda>x t. file_answer Sha1 (if x = name_a then Some (demo_reference name_a) else None) t) k name_a r)"
proof -
  have "case fst (local_resolve_following toy_gix letter_rules demo_refs name_a demo_start) of Inr _ \<Rightarrow> True | Inl _ \<Rightarrow> False"
    by code_simp
  then obtain r s where run: "local_resolve_following toy_gix letter_rules demo_refs name_a demo_start = (Inr r, s)"
    by (cases "local_resolve_following toy_gix letter_rules demo_refs name_a demo_start") (auto split: sum.splits)
  have "\<exists>k < MAX_SYMBOLIC_REF_HOPS. chain_to letter_rules
      (\<lambda>x t. file_answer (lr_hash demo_refs) (if x = name_a then Some (demo_reference name_a) else None) t) k name_a r"
    by (rule local_resolution_follows_files [OF _ run]) (simp add: demo_files_def)
  with run show ?thesis by (simp only: demo_fields) blast
qed

end
