(* ===== verification/ThreadBudget.thy ===== *)
theory ThreadBudget
  imports Budget "HOL-Library.Multiset"
begin

text \<open>
  The process-wide thread budget (\<open>runtime/thread_budget.rs\<close>): a counter of live threads
  against a limit, reserved by a compare-and-exchange loop and released by dropping guards. The
  steps of concurrent callers interleave; a reading of the counter may be stale when it is used.
\<close>

section \<open>Reservations\<close>

record thread_budget =
  tb_limit :: u64
  tb_used :: u64

record budget_exhausted =
  be_requested :: u64
  be_used :: u64
  be_limit :: u64

definition thread_budget_new :: "u64 \<Rightarrow> thread_budget" where
  "thread_budget_new limit = \<lparr>tb_limit = limit, tb_used = 0\<rparr>"

datatype reserve_step = Exhausted budget_exhausted | Reserved thread_budget | Retry u64

text \<open>One turn of the loop of \<open>try_reserve\<close>; \<open>weak\<close> is a spurious failure of the exchange.\<close>

definition reserve_turn :: "bool \<Rightarrow> u64 \<Rightarrow> u64 \<Rightarrow> thread_budget \<Rightarrow> reserve_step" where
  "reserve_turn weak num used tb =
    (if sat_sub (tb_limit tb) used < num
     then Exhausted \<lparr>be_requested = num, be_used = used, be_limit = tb_limit tb\<rparr>
     else if tb_used tb = used \<and> \<not> weak then Reserved (tb\<lparr>tb_used := used + num\<rparr>)
     else Retry (tb_used tb))"

definition split_one :: "u64 \<Rightarrow> (u64 \<times> u64) option" where
  "split_one num = (if num = 0 then None else Some (num - 1, 1))"

definition drop_reservation :: "u64 \<Rightarrow> thread_budget \<Rightarrow> thread_budget" where
  "drop_reservation num tb = (if 0 < num then tb\<lparr>tb_used := tb_used tb - num\<rparr> else tb)"

text \<open>Callers inside \<open>try_reserve\<close> with the value they observed, and the live reservations.\<close>

record tb_state =
  ts_budget :: thread_budget
  ts_callers :: "(u64 \<times> u64) multiset"
  ts_live :: "u64 multiset"

inductive tb_move :: "tb_state \<Rightarrow> tb_state \<Rightarrow> bool" where
  tb_load: "tb_move s (s\<lparr>ts_callers := add_mset (num, tb_used (ts_budget s)) (ts_callers s)\<rparr>)"
| tb_exhausted: "(num, used) \<in># ts_callers s \<Longrightarrow> reserve_turn weak num used (ts_budget s) = Exhausted e \<Longrightarrow>
    tb_move s (s\<lparr>ts_callers := ts_callers s - {#(num, used)#}\<rparr>)"
| tb_reserved: "(num, used) \<in># ts_callers s \<Longrightarrow> reserve_turn weak num used (ts_budget s) = Reserved tb \<Longrightarrow>
    tb_move s (s\<lparr>ts_budget := tb, ts_callers := ts_callers s - {#(num, used)#}, ts_live := add_mset num (ts_live s)\<rparr>)"
| tb_retry: "(num, used) \<in># ts_callers s \<Longrightarrow> reserve_turn weak num used (ts_budget s) = Retry used' \<Longrightarrow>
    tb_move s (s\<lparr>ts_callers := add_mset (num, used') (ts_callers s - {#(num, used)#})\<rparr>)"
| tb_split: "num \<in># ts_live s \<Longrightarrow> split_one num = Some (rest, one) \<Longrightarrow>
    tb_move s (s\<lparr>ts_live := add_mset one (add_mset rest (ts_live s - {#num#}))\<rparr>)"
| tb_drop: "num \<in># ts_live s \<Longrightarrow>
    tb_move s (s\<lparr>ts_budget := drop_reservation num (ts_budget s), ts_live := ts_live s - {#num#}\<rparr>)"

definition tb_start :: "u64 \<Rightarrow> tb_state" where
  "tb_start limit = \<lparr>ts_budget = thread_budget_new limit, ts_callers = {#}, ts_live = {#}\<rparr>"

definition tb_inv :: "u64 \<Rightarrow> tb_state \<Rightarrow> bool" where
  "tb_inv limit s \<longleftrightarrow> tb_limit (ts_budget s) = limit
    \<and> unat (tb_used (ts_budget s)) = (\<Sum>n \<in># ts_live s. unat n) \<and> tb_used (ts_budget s) \<le> limit"

lemma live_member: "n \<in># M \<Longrightarrow> (\<Sum>m \<in># M. unat m) = unat n + (\<Sum>m \<in># M - {#n#}. unat m)" for n :: u64
  by (metis add_mset_add_single image_mset_add_mset insert_DiffM sum_mset.insert)

lemma tb_move_inv:
  assumes "tb_move s s'" and "tb_inv limit s"
  shows "tb_inv limit s'"
  using assms
proof (cases rule: tb_move.cases)
  case (tb_reserved num used weak tb)
  then have "\<not> sat_sub limit (tb_used (ts_budget s)) < num" "tb = (ts_budget s)\<lparr>tb_used := tb_used (ts_budget s) + num\<rparr>"
    using assms(2) by (auto simp: reserve_turn_def tb_inv_def split: if_splits)
  moreover from this(1) have "unat (tb_used (ts_budget s)) + unat num \<le> unat limit"
    using assms(2) by (auto simp: sat_sub_def tb_inv_def word_less_nat_alt word_le_nat_alt unat_sub split: if_splits)
  ultimately show ?thesis using assms(2) tb_reserved(1) unat_less_exp [of limit]
    by (simp add: tb_inv_def word_le_nat_alt unat_word_ariths)
next
  case (tb_split num rest one)
  then have "unat rest + unat one = unat num"
    using unat_eq_0 [of num] by (auto simp: split_one_def unat_minus_one split: if_splits)
  then show ?thesis using assms(2) tb_split live_member [of num "ts_live s"] by (simp add: tb_inv_def)
next
  case (tb_drop num)
  let ?u = "tb_used (ts_budget s)"
  have "unat ?u = unat num + (\<Sum>m \<in># ts_live s - {#num#}. unat m)"
    using assms(2) live_member [OF tb_drop(2)] by (simp add: tb_inv_def)
  moreover from this have "unat (?u - num) = unat ?u - unat num" by (intro unat_sub) (simp add: word_le_nat_alt)
  ultimately show ?thesis using assms(2) tb_drop(1)
    by (cases "num = 0") (auto simp: tb_inv_def drop_reservation_def word_le_nat_alt word_neq_0_conv)
qed (auto simp: tb_inv_def)

lemma tb_reachable_inv: "tb_move\<^sup>*\<^sup>* (tb_start limit) s \<Longrightarrow> tb_inv limit s"
proof (induction rule: rtranclp_induct)
  case base
  show ?case by (simp add: tb_start_def tb_inv_def thread_budget_new_def)
qed (rule tb_move_inv)

text \<open>
  C11. The thread budget is never exceeded: in every interleaving of reservations, with their
  exchange loops and spurious failures, of splits and of drops, the counter is the sum of the live
  reservations and stays within the limit.
\<close>

theorem thread_budget_never_exceeded:
  assumes "tb_move\<^sup>*\<^sup>* (tb_start limit) s"
  shows "(\<Sum>n \<in># ts_live s. unat n) = unat (tb_used (ts_budget s)) \<and> tb_used (ts_budget s) \<le> limit"
  using tb_reachable_inv [OF assms] by (simp add: tb_inv_def)

theorem thread_budget_never_exceeded_witness:
  "\<exists>s. tb_move\<^sup>*\<^sup>* (tb_start 5) s \<and> ts_live s = {#3#}
    \<and> (\<Sum>n \<in># ts_live s. unat n) = unat (tb_used (ts_budget s)) \<and> tb_used (ts_budget s) \<le> 5"
proof -
  let ?s0 = "tb_start 5"
  let ?s1 = "?s0\<lparr>ts_callers := add_mset (3, tb_used (ts_budget ?s0)) (ts_callers ?s0)\<rparr>"
  let ?tb = "\<lparr>tb_limit = 5, tb_used = 3\<rparr>"
  let ?s2 = "?s1\<lparr>ts_budget := ?tb, ts_callers := ts_callers ?s1 - {#(3, 0)#}, ts_live := add_mset 3 (ts_live ?s1)\<rparr>"
  have "tb_move ?s0 ?s1" by (rule tb_load)
  moreover have "tb_move ?s1 ?s2"
    by (rule tb_reserved [where weak = False]) (simp_all add: tb_start_def thread_budget_new_def reserve_turn_def sat_sub_def)
  ultimately have "tb_move\<^sup>*\<^sup>* ?s0 ?s2" by simp
  from this thread_budget_never_exceeded [OF this] show ?thesis
    by (intro exI [of _ ?s2]) (simp add: tb_start_def)
qed

end
