(* ===== verification/Runtime.thy ===== *)
theory Runtime
  imports Budget "HOL-Library.Multiset"
begin

text \<open>
  The job runtime (\<open>runtime/mod.rs\<close>). Threads are programs of pending atomic actions over one
  shared state: an action is one critical section of a mutex, one atomic access, or one call of code
  outside the runtime. A step executes the first action of some thread; its effect and the actions
  that replace it are functions of the shared state and of the environment's choice: the readings of
  the clock, the outcome of a task, the waiter that a notification wakes. Writing a result and
  changing the job's state is one action: the output lock is held across both, and the result is
  put back when the exchange fails. Job names are natural numbers where the source has 64 bits.
  The fields \<open>jb_notified\<close>, \<open>jb_runs\<close> and \<open>jb_taken\<close> count the calls of the observer, the
  executions of the task and the results handed out.
\<close>

section \<open>Jobs and the shared state\<close>

record runtime_config =
  rc_workers :: nat
  rc_max_queue :: nat
  rc_max_jobs_per_owner :: nat
  rc_retry_after_ms :: u64
  rc_shutdown_join_timeout_ms :: u64

definition default_config :: runtime_config where
  "default_config = \<lparr>rc_workers = 4, rc_max_queue = 1000, rc_max_jobs_per_owner = 16,
    rc_retry_after_ms = 100, rc_shutdown_join_timeout_ms = 5000\<rparr>"

datatype job_state = JQueued | JRunning | JCompleted | JFailed | JCancelled

fun is_terminal :: "job_state \<Rightarrow> bool" where
  "is_terminal JQueued = False"
| "is_terminal JRunning = False"
| "is_terminal JCompleted = True"
| "is_terminal JFailed = True"
| "is_terminal JCancelled = True"

datatype busy_reason = QueueFull | OwnerCeiling
datatype submit_error = Busy busy_reason u64 | ShuttingDown

record job_spec =
  js_limits :: budget_limits
  js_timeout_ms :: "u64 option"

record 'r job =
  jb_owner :: u64
  jb_state :: job_state
  jb_limits :: budget_limits
  jb_deadline :: "nat option"
  jb_cancel :: bool
  jb_task :: bool
  jb_output :: "(error + 'r) option"
  jb_notified :: nat
  jb_runs :: nat
  jb_taken :: nat

datatype shutdown_phase = NotStarted | InProgress | Complete

record 'r shared =
  sh_config :: runtime_config
  sh_queue :: "nat list"
  sh_active :: "nat set"
  sh_owners :: "u64 \<rightharpoonup> nat"
  sh_shutting_down :: bool
  sh_waiting :: "nat set"
  sh_jobs :: "nat \<rightharpoonup> 'r job"
  sh_next_job_id :: nat
  sh_submitted :: u64
  sh_completed :: u64
  sh_failed :: u64
  sh_cancelled :: u64
  sh_rejected :: u64
  sh_running :: u64
  sh_detached_workers :: u64
  sh_last_detach_reason :: "string option"
  sh_workers :: "nat list"
  sh_worker_ids :: "nat list"
  sh_phase :: shutdown_phase
  sh_request_complete :: bool
  sh_join_claimed :: bool
  sh_instant_max :: nat

definition shared_new :: "nat \<Rightarrow> runtime_config \<Rightarrow> 'r shared" where
  "shared_new instant_max config = \<lparr>sh_config = config, sh_queue = [], sh_active = {}, sh_owners = Map.empty,
    sh_shutting_down = False, sh_waiting = {}, sh_jobs = Map.empty, sh_next_job_id = 1, sh_submitted = 0,
    sh_completed = 0, sh_failed = 0, sh_cancelled = 0, sh_rejected = 0, sh_running = 0, sh_detached_workers = 0,
    sh_last_detach_reason = None, sh_workers = [], sh_worker_ids = [], sh_phase = NotStarted,
    sh_request_complete = False, sh_join_claimed = False, sh_instant_max = instant_max\<rparr>"

definition update_job :: "nat \<Rightarrow> ('r job \<Rightarrow> 'r job) \<Rightarrow> 'r shared \<Rightarrow> 'r shared" where
  "update_job j f s = s\<lparr>sh_jobs := (sh_jobs s)(j := map_option f (sh_jobs s j))\<rparr>"

definition job_in :: "'r shared \<Rightarrow> nat \<Rightarrow> job_state \<Rightarrow> bool" where
  "job_in s j st = (case sh_jobs s j of None \<Rightarrow> False | Some b \<Rightarrow> jb_state b = st)"

lemma job_in_iff: "job_in s j st \<longleftrightarrow> (\<exists>b. sh_jobs s j = Some b \<and> jb_state b = st)"
  by (simp add: job_in_def split: option.splits)

text \<open>The budget of a job, looked at once: its own cancel flag and deadline.\<close>

definition job_check :: "nat \<Rightarrow> 'r job \<Rightarrow> error + unit" where
  "job_check now b = fst (check (budget_new (jb_limits b) (jb_deadline b) (\<lambda>_. \<lparr>obs_cancelled = jb_cancel b, obs_now = now\<rparr>)))"

definition job_expired :: "nat \<Rightarrow> 'r shared \<Rightarrow> nat \<Rightarrow> bool" where
  "job_expired now s j = (case sh_jobs s j of
      None \<Rightarrow> False
    | Some b \<Rightarrow> deadline_expired (budget_new (jb_limits b) (jb_deadline b) (\<lambda>_. \<lparr>obs_cancelled = jb_cancel b, obs_now = now\<rparr>)) now)"

definition panic_error :: error where
  "panic_error = err_new BackendError (''internal engine panic '' @ [CHR 0xE2, CHR 0x80, CHR 0x94] @ '' this is a Gitility bug'')"

definition unavailable_task :: error where
  "unavailable_task = err_new BackendError ''job task was unavailable''"

section \<open>Actions\<close>

datatype 'r task_outcome = TaskOk 'r | TaskErr error | TaskPanic

record 'r choice =
  ch_clock :: "nat \<Rightarrow> nat"
  ch_outcome :: "'r task_outcome"
  ch_wake :: nat
  ch_join_expired :: bool

datatype 'r action =
    StoreCancel nat | LoadQueued nat | LockedUnqueue nat
  | Publish nat job_state job_state "error + 'r" bool
  | SubRunning job_state | CountTerminal job_state | Retire nat | Observe nat | DiscardTask nat
  | TakeOutput nat | TakeLocked nat
  | WorkerPoll | WorkerWait nat | TryStart nat | CountRunning nat | RunCheck nat | TakeTask nat | RunTask nat
  | FinalCheck nat 'r
  | SubmitPoll u64 job_spec nat | NotifyOne
  | RequestShutdown | BeginShutdown | NotifyAll | PublishRequest
  | ShutdownCall | AwaitShutdown | JoinWorkers | JoinPoll "nat list" | CompleteShutdown

section \<open>Terminal transitions\<close>

text \<open>
  \<open>publish_terminal\<close>: the exchange with the result, then the bookkeeping of
  \<open>record_terminal\<close> and the observer as further actions.
\<close>

definition record_terminal :: "nat \<Rightarrow> job_state \<Rightarrow> job_state \<Rightarrow> 'r action list" where
  "record_terminal j from terminal = [SubRunning from, CountTerminal terminal, Retire j]"

definition publish_terminal :: "nat \<Rightarrow> job_state \<Rightarrow> job_state \<Rightarrow> error + 'r \<Rightarrow> bool \<Rightarrow> 'r shared
    \<Rightarrow> 'r shared \<times> 'r action list" where
  "publish_terminal j from terminal result discard s =
    (if job_in s j from
     then (update_job j (\<lambda>b. b\<lparr>jb_output := Some result, jb_state := terminal\<rparr>) s,
           record_terminal j from terminal @ [Observe j] @ (if discard then [DiscardTask j] else []))
     else (s, []))"

definition sub_running :: "job_state \<Rightarrow> 'r shared \<Rightarrow> 'r shared" where
  "sub_running from s = (if from = JRunning then s\<lparr>sh_running := sh_running s - 1\<rparr> else s)"

fun count_terminal :: "job_state \<Rightarrow> 'r shared \<Rightarrow> 'r shared" where
  "count_terminal JCompleted s = s\<lparr>sh_completed := sh_completed s + 1\<rparr>"
| "count_terminal JFailed s = s\<lparr>sh_failed := sh_failed s + 1\<rparr>"
| "count_terminal JCancelled s = s\<lparr>sh_cancelled := sh_cancelled s + 1\<rparr>"
| "count_terminal JQueued s = s"
| "count_terminal JRunning s = s"

definition release_owner :: "u64 \<Rightarrow> (u64 \<rightharpoonup> nat) \<Rightarrow> (u64 \<rightharpoonup> nat)" where
  "release_owner owner owners = (case owners owner of
      None \<Rightarrow> owners
    | Some n \<Rightarrow> if n - 1 = 0 then owners(owner := None) else owners(owner \<mapsto> n - 1))"

definition retire :: "nat \<Rightarrow> 'r shared \<Rightarrow> 'r shared" where
  "retire j s =
    (if j \<in> sh_active s
     then s\<lparr>sh_active := sh_active s - {j},
            sh_owners := (case sh_jobs s j of None \<Rightarrow> sh_owners s | Some b \<Rightarrow> release_owner (jb_owner b) (sh_owners s))\<rparr>
     else s)"

definition discard_task :: "nat \<Rightarrow> 'r shared \<Rightarrow> 'r shared" where
  "discard_task j s = update_job j (\<lambda>b. b\<lparr>jb_task := False\<rparr>) s"

definition expire :: "nat \<Rightarrow> 'r action" where
  "expire j = Publish j JQueued JFailed (Inl timeout_error) True"

definition finish_running :: "nat \<Rightarrow> error + 'r \<Rightarrow> 'r action" where
  "finish_running j result = Publish j JRunning
    (case result of
       Inr _ \<Rightarrow> JCompleted
     | Inl e \<Rightarrow> if err_code e = Cancelled then JCancelled else JFailed) result False"

section \<open>Cancelling and running a job\<close>

definition cancel_call :: "nat \<Rightarrow> 'r action list" where
  "cancel_call j = [StoreCancel j]"

definition cancel_publish :: "nat \<Rightarrow> 'r action" where
  "cancel_publish j = Publish j JQueued JCancelled (Inl cancelled_error) True"

definition load_queued :: "nat \<Rightarrow> 'r shared \<Rightarrow> 'r action list" where
  "load_queued j s = [if job_in s j JQueued then LockedUnqueue j else cancel_publish j]"

definition locked_unqueue :: "nat \<Rightarrow> 'r shared \<Rightarrow> 'r shared" where
  "locked_unqueue j s = (if job_in s j JQueued then s\<lparr>sh_queue := remove1 j (sh_queue s)\<rparr> else s)"

definition take_output :: "nat \<Rightarrow> 'r shared \<Rightarrow> 'r action list" where
  "take_output j s = (case sh_jobs s j of
      None \<Rightarrow> []
    | Some b \<Rightarrow> if is_terminal (jb_state b) then [TakeLocked j] else [])"

definition take_locked :: "nat \<Rightarrow> 'r shared \<Rightarrow> 'r shared" where
  "take_locked j s = update_job j (\<lambda>b. b\<lparr>jb_output := None,
     jb_taken := jb_taken b + (if jb_output b = None then 0 else 1)\<rparr>) s"

definition try_start :: "nat \<Rightarrow> 'r shared \<Rightarrow> 'r shared \<times> 'r action list" where
  "try_start j s =
    (if job_in s j JQueued then (update_job j (\<lambda>b. b\<lparr>jb_state := JRunning\<rparr>) s, [CountRunning j])
     else (s, [DiscardTask j]))"

definition run_check :: "nat \<Rightarrow> nat \<Rightarrow> 'r shared \<Rightarrow> 'r action list" where
  "run_check now j s = (case sh_jobs s j of
      None \<Rightarrow> []
    | Some b \<Rightarrow> (case job_check now b of
        Inl e \<Rightarrow> [DiscardTask j, finish_running j (Inl e)]
      | Inr _ \<Rightarrow> [TakeTask j]))"

definition take_task :: "nat \<Rightarrow> 'r shared \<Rightarrow> 'r shared \<times> 'r action list" where
  "take_task j s = (case sh_jobs s j of
      None \<Rightarrow> (s, [])
    | Some b \<Rightarrow> (discard_task j s, [if jb_task b then RunTask j else finish_running j (Inl unavailable_task)]))"

definition run_task :: "'r task_outcome \<Rightarrow> nat \<Rightarrow> 'r shared \<Rightarrow> 'r shared \<times> 'r action list" where
  "run_task outcome j s =
    (update_job j (\<lambda>b. b\<lparr>jb_runs := Suc (jb_runs b)\<rparr>) s,
     [case outcome of
        TaskOk v \<Rightarrow> FinalCheck j v
      | TaskErr e \<Rightarrow> finish_running j (Inl e)
      | TaskPanic \<Rightarrow> finish_running j (Inl panic_error)])"

definition final_check :: "nat \<Rightarrow> nat \<Rightarrow> 'r \<Rightarrow> 'r shared \<Rightarrow> 'r action list" where
  "final_check now j v s = (case sh_jobs s j of
      None \<Rightarrow> []
    | Some b \<Rightarrow> [finish_running j (case job_check now b of Inl e \<Rightarrow> Inl e | Inr _ \<Rightarrow> Inr v)])"

section \<open>The queue\<close>

fun take_expired_queue_head :: "(nat \<Rightarrow> nat) \<Rightarrow> 'r shared \<Rightarrow> nat list \<Rightarrow> nat list \<times> nat list" where
  "take_expired_queue_head clock s [] = ([], [])"
| "take_expired_queue_head clock s (j # queue) =
    (if job_expired (clock 0) s j
     then (case take_expired_queue_head (\<lambda>k. clock (Suc k)) s queue of (expired, rest) \<Rightarrow> (j # expired, rest))
     else ([], j # queue))"

definition worker_poll :: "(nat \<Rightarrow> nat) \<Rightarrow> nat \<Rightarrow> 'r shared \<Rightarrow> 'r shared \<times> 'r action list" where
  "worker_poll clock t s =
    (case take_expired_queue_head clock s (sh_queue s) of (expired, rest) \<Rightarrow>
       if expired \<noteq> [] then (s\<lparr>sh_queue := rest\<rparr>, map expire expired @ [WorkerPoll])
       else (case sh_queue s of
           j # queue \<Rightarrow> (s\<lparr>sh_queue := queue\<rparr>, [TryStart j, WorkerPoll])
         | [] \<Rightarrow> if sh_shutting_down s then (s, [])
                 else (s\<lparr>sh_waiting := insert t (sh_waiting s)\<rparr>, [WorkerWait t])))"

definition job_deadline :: "nat \<Rightarrow> nat \<Rightarrow> u64 option \<Rightarrow> nat option" where
  "job_deadline instant_max submitted_at timeout_ms =
    Option.bind timeout_ms (\<lambda>ms.
      if submitted_at + unat ms * 1000000 \<le> instant_max then Some (submitted_at + unat ms * 1000000) else None)"

definition new_job :: "nat \<Rightarrow> u64 \<Rightarrow> job_spec \<Rightarrow> nat \<Rightarrow> 'r job" where
  "new_job instant_max owner spec submitted_at = \<lparr>jb_owner = owner, jb_state = JQueued, jb_limits = js_limits spec,
    jb_deadline = job_deadline instant_max submitted_at (js_timeout_ms spec), jb_cancel = False, jb_task = True,
    jb_output = None, jb_notified = 0, jb_runs = 0, jb_taken = 0\<rparr>"

definition owner_jobs :: "u64 \<Rightarrow> 'r shared \<Rightarrow> nat" where
  "owner_jobs owner s = (case sh_owners s owner of None \<Rightarrow> 0 | Some n \<Rightarrow> n)"

definition reject :: "'r shared \<Rightarrow> 'r shared" where
  "reject s = s\<lparr>sh_rejected := sh_rejected s + 1\<rparr>"

definition admit :: "u64 \<Rightarrow> job_spec \<Rightarrow> nat \<Rightarrow> 'r shared \<Rightarrow> (submit_error + nat) \<times> 'r shared" where
  "admit owner spec submitted_at s =
    (if sh_shutting_down s then (Inl ShuttingDown, reject s)
     else if rc_max_jobs_per_owner (sh_config s) \<le> owner_jobs owner s
       then (Inl (Busy OwnerCeiling (rc_retry_after_ms (sh_config s))), reject s)
     else if rc_max_queue (sh_config s) \<le> length (sh_queue s)
       then (Inl (Busy QueueFull (rc_retry_after_ms (sh_config s))), reject s)
     else let j = sh_next_job_id s in
       (Inr j, s\<lparr>sh_next_job_id := Suc j, sh_jobs := (sh_jobs s)(j \<mapsto> new_job (sh_instant_max s) owner spec submitted_at),
          sh_active := insert j (sh_active s), sh_owners := (sh_owners s)(owner \<mapsto> owner_jobs owner s + 1),
          sh_queue := sh_queue s @ [j], sh_submitted := sh_submitted s + 1\<rparr>))"

definition submit_poll :: "(nat \<Rightarrow> nat) \<Rightarrow> u64 \<Rightarrow> job_spec \<Rightarrow> nat \<Rightarrow> 'r shared \<Rightarrow> 'r shared \<times> 'r action list" where
  "submit_poll clock owner spec submitted_at s =
    (case take_expired_queue_head clock s (sh_queue s) of (expired, rest) \<Rightarrow>
       if expired \<noteq> [] then (s\<lparr>sh_queue := rest\<rparr>, map expire expired @ [SubmitPoll owner spec submitted_at])
       else (case admit owner spec submitted_at s of
           (Inl _, s') \<Rightarrow> (s', [])
         | (Inr _, s') \<Rightarrow> (s', [NotifyOne])))"

definition notify_one :: "nat \<Rightarrow> 'r shared \<Rightarrow> 'r shared" where
  "notify_one wake s =
    (if sh_waiting s = {} then s
     else s\<lparr>sh_waiting := sh_waiting s - {if wake \<in> sh_waiting s then wake else Min (sh_waiting s)}\<rparr>)"

section \<open>Shutdown\<close>

definition begin_shutdown :: "'r shared \<Rightarrow> 'r shared \<times> nat list" where
  "begin_shutdown s = (s\<lparr>sh_shutting_down := True, sh_queue := []\<rparr>, sorted_list_of_set (sh_active s))"

definition request_shutdown :: "'r shared \<Rightarrow> 'r shared \<times> 'r action list" where
  "request_shutdown s =
    (if sh_phase s = NotStarted then (s\<lparr>sh_phase := InProgress\<rparr>, [BeginShutdown]) else (s, []))"

definition drain_jobs :: "'r shared \<Rightarrow> 'r shared \<times> 'r action list" where
  "drain_jobs s = (case begin_shutdown s of (s', jobs) \<Rightarrow>
     (s', [NotifyAll] @ concat (map cancel_call jobs) @ [PublishRequest]))"

definition shutdown_call :: "nat \<Rightarrow> 'r shared \<Rightarrow> 'r action list" where
  "shutdown_call t s = [RequestShutdown] @ (if t \<in> set (sh_worker_ids s) then [] else [AwaitShutdown])"

definition wait_for_or_finish_shutdown :: "'r shared \<Rightarrow> 'r shared \<times> 'r action list" where
  "wait_for_or_finish_shutdown s =
    (if sh_phase s = Complete then (s, [])
     else if sh_request_complete s \<and> \<not> sh_join_claimed s
       then (s\<lparr>sh_join_claimed := True\<rparr>, [JoinWorkers, CompleteShutdown])
     else (s, [AwaitShutdown]))"

definition record_detached_worker :: "'r shared \<Rightarrow> nat \<Rightarrow> 'r shared" where
  "record_detached_worker s t = s\<lparr>sh_last_detach_reason := Some (''worker gitility-worker-'' @ show_nat t
      @ '' did not exit within shutdown_join_timeout_ms='' @ show_nat (unat (rc_shutdown_join_timeout_ms (sh_config s))) @ ''; detached''),
    sh_detached_workers := sh_detached_workers s + 1\<rparr>"

definition join_poll :: "(nat \<Rightarrow> bool) \<Rightarrow> bool \<Rightarrow> nat list \<Rightarrow> 'r shared \<Rightarrow> 'r shared \<times> 'r action list" where
  "join_poll finished expired handles s =
    (let still = filter (\<lambda>t. \<not> finished t) handles in
     if still = [] then (s, [])
     else if expired then (foldl record_detached_worker s still, [])
     else (s, [JoinPoll still]))"

section \<open>Steps\<close>

fun exec :: "nat \<Rightarrow> 'r choice \<Rightarrow> (nat \<Rightarrow> bool) \<Rightarrow> 'r action \<Rightarrow> 'r shared \<Rightarrow> 'r shared \<times> 'r action list" where
  "exec t ch fin (StoreCancel j) s = (update_job j (\<lambda>b. b\<lparr>jb_cancel := True\<rparr>) s, [LoadQueued j])"
| "exec t ch fin (LoadQueued j) s = (s, load_queued j s)"
| "exec t ch fin (LockedUnqueue j) s = (locked_unqueue j s, [cancel_publish j])"
| "exec t ch fin (Publish j from terminal result discard) s = publish_terminal j from terminal result discard s"
| "exec t ch fin (SubRunning from) s = (sub_running from s, [])"
| "exec t ch fin (CountTerminal terminal) s = (count_terminal terminal s, [])"
| "exec t ch fin (Retire j) s = (retire j s, [])"
| "exec t ch fin (Observe j) s = (update_job j (\<lambda>b. b\<lparr>jb_notified := Suc (jb_notified b)\<rparr>) s, [])"
| "exec t ch fin (DiscardTask j) s = (discard_task j s, [])"
| "exec t ch fin (TakeOutput j) s = (s, take_output j s)"
| "exec t ch fin (TakeLocked j) s = (take_locked j s, [])"
| "exec t ch fin WorkerPoll s = worker_poll (ch_clock ch) t s"
| "exec t ch fin (WorkerWait w) s = (s, [WorkerPoll])"
| "exec t ch fin (TryStart j) s = try_start j s"
| "exec t ch fin (CountRunning j) s = (s\<lparr>sh_running := sh_running s + 1\<rparr>, [RunCheck j])"
| "exec t ch fin (RunCheck j) s = (s, run_check (ch_clock ch 0) j s)"
| "exec t ch fin (TakeTask j) s = take_task j s"
| "exec t ch fin (RunTask j) s = run_task (ch_outcome ch) j s"
| "exec t ch fin (FinalCheck j v) s = (s, final_check (ch_clock ch 0) j v s)"
| "exec t ch fin (SubmitPoll owner spec submitted_at) s = submit_poll (ch_clock ch) owner spec submitted_at s"
| "exec t ch fin NotifyOne s = (notify_one (ch_wake ch) s, [])"
| "exec t ch fin RequestShutdown s = request_shutdown s"
| "exec t ch fin BeginShutdown s = drain_jobs s"
| "exec t ch fin NotifyAll s = (s\<lparr>sh_waiting := {}\<rparr>, [])"
| "exec t ch fin PublishRequest s = (s\<lparr>sh_request_complete := True\<rparr>, [])"
| "exec t ch fin ShutdownCall s = (s, shutdown_call t s)"
| "exec t ch fin AwaitShutdown s = wait_for_or_finish_shutdown s"
| "exec t ch fin JoinWorkers s = (s\<lparr>sh_workers := []\<rparr>, [JoinPoll (sh_workers s)])"
| "exec t ch fin (JoinPoll handles) s = join_poll fin (ch_join_expired ch) handles s"
| "exec t ch fin CompleteShutdown s = (s\<lparr>sh_phase := Complete\<rparr>, [])"

text \<open>
  A thread calls the interface when it has nothing to do, or from inside a task. A waiting worker
  goes on when it was notified, or spuriously.
\<close>

record 'r system =
  sy_shared :: "'r shared"
  sy_threads :: "'r action list list"

fun client_call :: "'r shared \<Rightarrow> 'r action \<Rightarrow> bool" where
  "client_call s (StoreCancel j) = (sh_jobs s j \<noteq> None)"
| "client_call s (TakeOutput j) = (sh_jobs s j \<noteq> None)"
| "client_call s (SubmitPoll owner spec submitted_at) = True"
| "client_call s RequestShutdown = True"
| "client_call s ShutdownCall = True"
| "client_call s _ = False"

definition may_call :: "'r action list \<Rightarrow> bool" where
  "may_call program \<longleftrightarrow> program = [] \<or> (\<exists>j rest. program = RunTask j # rest)"

definition exited :: "'r action list list \<Rightarrow> nat \<Rightarrow> bool" where
  "exited threads t = (threads ! t = [])"

inductive sys_step :: "'r system \<Rightarrow> 'r system \<Rightarrow> bool" where
  sys_exec: "t < length (sy_threads y) \<Longrightarrow> sy_threads y ! t = a # rest \<Longrightarrow>
    (case a of WorkerWait w \<Rightarrow> w \<notin> sh_waiting (sy_shared y) | _ \<Rightarrow> True) \<Longrightarrow>
    exec t ch (exited (sy_threads y)) a (sy_shared y) = (s', new) \<Longrightarrow>
    sys_step y \<lparr>sy_shared = s', sy_threads = (sy_threads y)[t := new @ rest]\<rparr>"
| sys_call: "t < length (sy_threads y) \<Longrightarrow> may_call (sy_threads y ! t) \<Longrightarrow> client_call (sy_shared y) c \<Longrightarrow>
    sys_step y (y\<lparr>sy_threads := (sy_threads y)[t := c # sy_threads y ! t]\<rparr>)"
| sys_spurious: "sys_step y (y\<lparr>sy_shared := (sy_shared y)\<lparr>sh_waiting := sh_waiting (sy_shared y) - {t}\<rparr>\<rparr>)"
| sys_thread: "sys_step y (y\<lparr>sy_threads := sy_threads y @ [[]]\<rparr>)"

text \<open>
  \<open>start_with_budget\<close> after the reservation: the workers that were spawned, and a starting
  thread that shuts the runtime down when a spawn failed.
\<close>

definition worker_count :: "runtime_config \<Rightarrow> nat" where
  "worker_count config = max 1 (rc_workers config)"

definition runtime_start :: "nat \<Rightarrow> runtime_config \<Rightarrow> nat \<Rightarrow> 'r system" where
  "runtime_start instant_max config spawned =
    (let n = min spawned (worker_count config); ids = [0..<n] in
     \<lparr>sy_shared = (shared_new instant_max config)\<lparr>sh_workers := ids, sh_worker_ids := ids\<rparr>,
      sy_threads = replicate n [WorkerPoll] @ [if n < worker_count config then [ShutdownCall] else []]\<rparr>)"

end
