(* ===== verification/RuntimeJobs.thy ===== *)
theory RuntimeJobs
  imports Runtime
begin

text \<open>
  Invariants of the job runtime. The safety properties depend on which actions are pending and
  not on the thread that holds them, so they are stated on the shared state and the multiset of all
  pending actions; every pending action is a token that its execution consumes.
\<close>

section \<open>Tokens\<close>

definition pending :: "'r system \<Rightarrow> 'r action multiset" where
  "pending y = mset (concat (sy_threads y))"

inductive token_step :: "'r shared \<Rightarrow> 'r action multiset \<Rightarrow> 'r shared \<Rightarrow> 'r action multiset \<Rightarrow> bool" where
  tok_exec: "exec t ch fin a s = (s', new) \<Longrightarrow> (\<And>w. a = WorkerWait w \<Longrightarrow> w \<notin> sh_waiting s) \<Longrightarrow>
    token_step s (add_mset a M) s' (mset new + M)"
| tok_call: "client_call s c \<Longrightarrow> token_step s M s (add_mset c M)"
| tok_spurious: "token_step s M (s\<lparr>sh_waiting := sh_waiting s - {t}\<rparr>) M"
| tok_idle: "token_step s M s M"

lemma concat_at:
  assumes "t < length xs"
  shows "mset (concat xs) = mset (xs ! t) + mset (concat (take t xs @ drop (Suc t) xs))"
    and "mset (concat (xs[t := p])) = mset p + mset (concat (take t xs @ drop (Suc t) xs))"
proof -
  have "concat xs = concat (take t xs) @ xs ! t @ concat (drop (Suc t) xs)"
    using arg_cong [OF id_take_nth_drop [OF assms], of concat] by simp
  then show "mset (concat xs) = mset (xs ! t) + mset (concat (take t xs @ drop (Suc t) xs))" by simp
  show "mset (concat (xs[t := p])) = mset p + mset (concat (take t xs @ drop (Suc t) xs))"
    using assms by (simp add: upd_conv_take_nth_drop)
qed

lemma sys_step_tokens:
  assumes "sys_step y y'"
  shows "token_step (sy_shared y) (pending y) (sy_shared y') (pending y')"
  using assms
proof (cases rule: sys_step.cases)
  case (sys_exec t a rest ch s' new)
  let ?M = "mset rest + mset (concat (take t (sy_threads y) @ drop (Suc t) (sy_threads y)))"
  have "pending y = add_mset a ?M" "pending y' = mset new + ?M"
    unfolding pending_def using concat_at [OF sys_exec(2)] sys_exec(1,3) by simp_all
  moreover have "w \<notin> sh_waiting (sy_shared y)" if "a = WorkerWait w" for w using sys_exec(4) that by simp
  ultimately show ?thesis using tok_exec [OF sys_exec(5), of ?M] sys_exec(1) by simp
next
  case (sys_call t c)
  have "pending y' = add_mset c (pending y)"
    unfolding pending_def using concat_at [OF sys_call(2)] sys_call(1) by simp
  then show ?thesis using tok_call [OF sys_call(4)] sys_call(1) by simp
next
  case (sys_spurious t)
  then show ?thesis using tok_spurious by (simp add: pending_def)
next
  case sys_thread
  then show ?thesis using tok_idle by (simp add: pending_def)
qed


section \<open>Invariants\<close>

definition num :: "('a \<Rightarrow> bool) \<Rightarrow> 'a multiset \<Rightarrow> nat" where
  "num P M = size (filter_mset P M)"

lemma num_simps [simp]:
  "num P {#} = 0"
  "num P (add_mset a M) = (if P a then Suc (num P M) else num P M)"
  "num P (M + N) = num P M + num P N"
  by (simp_all add: num_def)

lemma num_zero: "num P M = 0 \<longleftrightarrow> (\<forall>a \<in># M. \<not> P a)"
  by (auto simp: num_def filter_mset_eq_conv)

lemma num_map: "num P (mset (map f xs)) = length (filter (\<lambda>x. P (f x)) xs)"
  by (induction xs) auto

fun about :: "'r action \<Rightarrow> nat option" where
  "about (StoreCancel j) = Some j" | "about (LoadQueued j) = Some j" | "about (LockedUnqueue j) = Some j"
| "about (Publish j _ _ _ _) = Some j" | "about (Retire j) = Some j" | "about (Observe j) = Some j"
| "about (DiscardTask j) = Some j" | "about (TakeOutput j) = Some j" | "about (TakeLocked j) = Some j"
| "about (TryStart j) = Some j" | "about (CountRunning j) = Some j" | "about (RunCheck j) = Some j"
| "about (TakeTask j) = Some j" | "about (RunTask j) = Some j" | "about (FinalCheck j _) = Some j"
| "about _ = None"

text \<open>The actions that end in the job's one exit from \<open>JQueued\<close>, and from \<open>JRunning\<close>.\<close>

fun custody :: "nat \<Rightarrow> 'r action \<Rightarrow> bool" where
  "custody j (StoreCancel i) = (i = j)" | "custody j (LoadQueued i) = (i = j)" | "custody j (LockedUnqueue i) = (i = j)"
| "custody j (Publish i from _ _ _) = (i = j \<and> from = JQueued)" | "custody j (TryStart i) = (i = j)"
| "custody j _ = False"

fun held :: "nat \<Rightarrow> 'r action \<Rightarrow> bool" where
  "held j (Publish i from _ _ _) = (i = j \<and> from = JQueued)" | "held j (TryStart i) = (i = j)"
| "held j _ = False"

fun runner :: "nat \<Rightarrow> 'r action \<Rightarrow> bool" where
  "runner j (CountRunning i) = (i = j)" | "runner j (RunCheck i) = (i = j)" | "runner j (TakeTask i) = (i = j)"
| "runner j (RunTask i) = (i = j)" | "runner j (FinalCheck i _) = (i = j)"
| "runner j (Publish i from _ _ _) = (i = j \<and> from = JRunning)"
| "runner j _ = False"

fun sound_publish :: "'r action \<Rightarrow> bool" where
  "sound_publish (Publish _ from terminal _ _) = (\<not> is_terminal from \<and> is_terminal terminal)"
| "sound_publish _ = True"

definition of_bool_nat :: "bool \<Rightarrow> nat" where
  "of_bool_nat b = (if b then 1 else 0)"

definition names_inv :: "'r shared \<Rightarrow> 'r action multiset \<Rightarrow> bool" where
  "names_inv s M \<longleftrightarrow> dom (sh_jobs s) = {1..<sh_next_job_id s} \<and> 1 \<le> sh_next_job_id s
    \<and> (\<forall>a \<in># M. sound_publish a \<and> set_option (about a) \<subseteq> dom (sh_jobs s))
    \<and> sh_active s \<subseteq> dom (sh_jobs s)"

definition queue_inv :: "'r shared \<Rightarrow> 'r action multiset \<Rightarrow> bool" where
  "queue_inv s M \<longleftrightarrow> distinct (sh_queue s) \<and> (\<forall>j \<in> set (sh_queue s). job_in s j JQueued \<and> (\<forall>a \<in># M. \<not> held j a))"

definition job_inv :: "'r shared \<Rightarrow> 'r action multiset \<Rightarrow> nat \<Rightarrow> 'r job \<Rightarrow> bool" where
  "job_inv s M j b \<longleftrightarrow>
    num (runner j) M = of_bool_nat (jb_state b = JRunning)
    \<and> num (\<lambda>a. a = Observe j) M + jb_notified b = of_bool_nat (is_terminal (jb_state b))
    \<and> num (\<lambda>a. a = Retire j) M = of_bool_nat (j \<in> sh_active s \<and> is_terminal (jb_state b))
    \<and> (\<not> is_terminal (jb_state b) \<longrightarrow> j \<in> sh_active s)
    \<and> of_bool_nat (jb_output b \<noteq> None) + jb_taken b = of_bool_nat (is_terminal (jb_state b))
    \<and> num (\<lambda>a. a = RunTask j) M + jb_runs b \<le> of_bool_nat (\<not> jb_task b)
    \<and> (jb_state b = JQueued \<longrightarrow> j \<in> set (sh_queue s) \<or> 0 < num (custody j) M)"

definition jobs_inv :: "'r shared \<Rightarrow> 'r action multiset \<Rightarrow> bool" where
  "jobs_inv s M \<longleftrightarrow> (\<forall>j b. sh_jobs s j = Some b \<longrightarrow> job_inv s M j b)"

lemma update_job_simps [simp]:
  "sh_jobs (update_job j f s) = (sh_jobs s)(j := map_option f (sh_jobs s j))"
  "sh_config (update_job j f s) = sh_config s" "sh_queue (update_job j f s) = sh_queue s"
  "sh_active (update_job j f s) = sh_active s" "sh_owners (update_job j f s) = sh_owners s"
  "sh_shutting_down (update_job j f s) = sh_shutting_down s" "sh_waiting (update_job j f s) = sh_waiting s"
  "sh_next_job_id (update_job j f s) = sh_next_job_id s"
  "sh_submitted (update_job j f s) = sh_submitted s" "sh_completed (update_job j f s) = sh_completed s"
  "sh_failed (update_job j f s) = sh_failed s" "sh_cancelled (update_job j f s) = sh_cancelled s"
  "sh_running (update_job j f s) = sh_running s"
  by (simp_all add: update_job_def)

lemma split_queue:
  "take_expired_queue_head clock s q = (expired, rest) \<Longrightarrow> q = expired @ rest"
  by (induction clock s q arbitrary: expired rest rule: take_expired_queue_head.induct) (auto split: if_splits prod.splits)

lemma detach_simps [simp]:
  "sh_jobs (foldl record_detached_worker s ts) = sh_jobs s" "sh_queue (foldl record_detached_worker s ts) = sh_queue s"
  "sh_config (foldl record_detached_worker s ts) = sh_config s" 
  "sh_active (foldl record_detached_worker s ts) = sh_active s" "sh_owners (foldl record_detached_worker s ts) = sh_owners s"
  "sh_shutting_down (foldl record_detached_worker s ts) = sh_shutting_down s" "sh_waiting (foldl record_detached_worker s ts) = sh_waiting s"
  "sh_next_job_id (foldl record_detached_worker s ts) = sh_next_job_id s"
  "sh_submitted (foldl record_detached_worker s ts) = sh_submitted s" "sh_completed (foldl record_detached_worker s ts) = sh_completed s"
  "sh_failed (foldl record_detached_worker s ts) = sh_failed s" "sh_cancelled (foldl record_detached_worker s ts) = sh_cancelled s"
  "sh_running (foldl record_detached_worker s ts) = sh_running s"
  by (induction ts arbitrary: s) (simp_all add: record_detached_worker_def)

lemma count_terminal_simps [simp]:
  "sh_jobs (count_terminal st s) = sh_jobs s" "sh_queue (count_terminal st s) = sh_queue s"
  "sh_config (count_terminal st s) = sh_config s"
  "sh_active (count_terminal st s) = sh_active s" "sh_owners (count_terminal st s) = sh_owners s"
  "sh_shutting_down (count_terminal st s) = sh_shutting_down s" "sh_waiting (count_terminal st s) = sh_waiting s"
  "sh_next_job_id (count_terminal st s) = sh_next_job_id s" "sh_submitted (count_terminal st s) = sh_submitted s"
  "sh_running (count_terminal st s) = sh_running s"
  by (cases st; simp)+

lemma publish_tokens [simp]:
  "sound_publish (expire j)" "sound_publish (cancel_publish j)" "sound_publish (finish_running j r)"
  "about (expire j) = Some j" "about (cancel_publish j) = Some j" "about (finish_running j r) = Some j"
  "custody i (expire j) = (j = i)" "custody i (cancel_publish j) = (j = i)" "\<not> custody i (finish_running j r)"
  "held i (expire j) = (j = i)" "held i (cancel_publish j) = (j = i)" "\<not> held i (finish_running j r)"
  "\<not> runner i (expire j)" "\<not> runner i (cancel_publish j)" "runner i (finish_running j r) = (j = i)"
  by (auto simp: expire_def cancel_publish_def finish_running_def split: sum.splits)

lemma publish_distinct [simp]:
  "expire j \<noteq> Observe i" "cancel_publish j \<noteq> Observe i" "finish_running j r \<noteq> Observe i"
  "expire j \<noteq> Retire i" "cancel_publish j \<noteq> Retire i" "finish_running j r \<noteq> Retire i"
  "expire j \<noteq> RunTask i" "cancel_publish j \<noteq> RunTask i" "finish_running j r \<noteq> RunTask i"
  by (simp_all add: expire_def cancel_publish_def finish_running_def)

lemmas exec_defs = load_queued_def locked_unqueue_def publish_terminal_def record_terminal_def
  sub_running_def retire_def discard_task_def take_output_def take_locked_def worker_poll_def try_start_def run_check_def
  take_task_def run_task_def final_check_def submit_poll_def admit_def reject_def notify_one_def request_shutdown_def
  drain_jobs_def begin_shutdown_def cancel_call_def shutdown_call_def wait_for_or_finish_shutdown_def join_poll_def
  Let_def

lemma dom_update_job [simp]: "dom ((sh_jobs s)(j := map_option f (sh_jobs s j))) = dom (sh_jobs s)"
  by (auto split: if_splits)

lemma names_frame:
  assumes "names_inv s (add_mset a M)" and "dom (sh_jobs s') = dom (sh_jobs s)" and "sh_next_job_id s' = sh_next_job_id s"
    and "sh_active s' \<subseteq> sh_active s" and "\<forall>x \<in> set new. sound_publish x \<and> set_option (about x) \<subseteq> dom (sh_jobs s)"
  shows "names_inv s' (mset new + M)"
  using assms by (simp add: names_inv_def) blast

lemma exec_dom:
  assumes "exec t ch fin a s = (s', new)" and "\<nexists>owner spec submitted_at. a = SubmitPoll owner spec submitted_at"
  shows "dom (sh_jobs s') = dom (sh_jobs s)" "sh_next_job_id s' = sh_next_job_id s"
  using assms by (cases a; auto simp: exec_defs split: prod.splits if_splits list.splits option.splits sum.splits)+

lemma exec_active:
  assumes "exec t ch fin a s = (s', new)" and "\<nexists>owner spec submitted_at. a = SubmitPoll owner spec submitted_at"
  shows "sh_active s' \<subseteq> sh_active s"
  using assms by (cases a; auto simp: exec_defs split: prod.splits if_splits list.splits option.splits sum.splits)

lemma submit_cases:
  assumes "exec t ch fin (SubmitPoll owner spec submitted_at) s = (s', new)"
  obtains (expired) expired rest where "sh_queue s = expired @ rest" "s' = s\<lparr>sh_queue := rest\<rparr>"
      "new = map expire expired @ [SubmitPoll owner spec submitted_at]"
    | (rejected) "s' = reject s" "new = []"
    | (admitted) "\<not> sh_shutting_down s" "owner_jobs owner s < rc_max_jobs_per_owner (sh_config s)"
      "length (sh_queue s) < rc_max_queue (sh_config s)" "new = [NotifyOne]"
      "s' = s\<lparr>sh_next_job_id := Suc (sh_next_job_id s),
        sh_jobs := (sh_jobs s)(sh_next_job_id s \<mapsto> new_job (sh_instant_max s) owner spec submitted_at),
        sh_active := insert (sh_next_job_id s) (sh_active s), sh_owners := (sh_owners s)(owner \<mapsto> owner_jobs owner s + 1),
        sh_queue := sh_queue s @ [sh_next_job_id s], sh_submitted := sh_submitted s + 1\<rparr>"
proof -
  obtain expired rest where q: "take_expired_queue_head (ch_clock ch) s (sh_queue s) = (expired, rest)" by fastforce
  note that = expired rejected admitted
  show ?thesis
  proof (cases "expired = []")
    case False
    with assms q that(1) [OF split_queue [OF q]] show ?thesis by (simp add: submit_poll_def)
  next
    case True
    consider "sh_shutting_down s \<or> rc_max_jobs_per_owner (sh_config s) \<le> owner_jobs owner s \<or> rc_max_queue (sh_config s) \<le> length (sh_queue s)"
      | "\<not> sh_shutting_down s" "owner_jobs owner s < rc_max_jobs_per_owner (sh_config s)"
        "length (sh_queue s) < rc_max_queue (sh_config s)" by linarith
    then show ?thesis
    proof cases
      case 1
      with True assms q that(2) show ?thesis by (auto simp: submit_poll_def admit_def split: if_splits)
    next
      case 2
      with True assms q show ?thesis by (intro that(3)) (simp_all add: submit_poll_def admit_def Let_def)
    qed
  qed
qed

lemma poll_cases:
  assumes "exec t ch fin WorkerPoll s = (s', new)"
  obtains (expired) expired rest where "sh_queue s = expired @ rest" "s' = s\<lparr>sh_queue := rest\<rparr>" "new = map expire expired @ [WorkerPoll]"
    | (popped) j queue where "sh_queue s = j # queue" "s' = s\<lparr>sh_queue := queue\<rparr>" "new = [TryStart j, WorkerPoll]"
    | (exit) "sh_queue s = []" "sh_shutting_down s" "s' = s" "new = []"
    | (wait) "sh_queue s = []" "\<not> sh_shutting_down s" "s' = s\<lparr>sh_waiting := insert t (sh_waiting s)\<rparr>" "new = [WorkerWait t]"
proof -
  obtain expired rest where q: "take_expired_queue_head (ch_clock ch) s (sh_queue s) = (expired, rest)" by fastforce
  note that = expired popped exit wait
  show ?thesis
  proof (cases "expired = []")
    case False
    with assms q that(1) [OF split_queue [OF q]] show ?thesis by (simp add: worker_poll_def)
  next
    case True
    with assms q that(2-) show ?thesis by (auto simp: worker_poll_def split: list.splits if_splits)
  qed
qed

lemma exec_tokens:
  assumes "exec t ch fin a s = (s', new)" and "set (sh_queue s) \<subseteq> D" and "sh_active s \<subseteq> D" and "finite (sh_active s)"
    and "set_option (about a) \<subseteq> D"
  shows "\<forall>x \<in> set new. sound_publish x \<and> set_option (about x) \<subseteq> D"
proof (cases a)
  case WorkerPoll
  from assms(1) [unfolded WorkerPoll] assms(2) show ?thesis by (cases rule: poll_cases) (auto simp: subset_iff)
next
  case (SubmitPoll owner spec submitted_at)
  from assms(1) [unfolded SubmitPoll] assms(2) show ?thesis by (cases rule: submit_cases) (auto simp: subset_iff)
next
  case (Publish j st terminal result discard)
  then show ?thesis using assms(1,5) by (auto simp: publish_terminal_def record_terminal_def split: if_splits)
next
  case (RunTask j)
  then show ?thesis using assms(1,5) by (auto simp: run_task_def split: task_outcome.splits)
qed (use assms in \<open>auto simp: exec_defs subset_iff split: if_splits option.splits sum.splits\<close>)

lemma names_finite: "names_inv s M \<Longrightarrow> finite (sh_active s) \<and> finite (dom (sh_jobs s))"
  by (metis finite_atLeastLessThan finite_subset names_inv_def)

lemma names_parts:
  "names_inv s (add_mset a M) \<Longrightarrow> sound_publish a \<and> set_option (about a) \<subseteq> dom (sh_jobs s) \<and> sh_active s \<subseteq> dom (sh_jobs s)"
  by (auto simp: names_inv_def)

lemma names_step:
  assumes "exec t ch fin a s = (s', new)" and "names_inv s (add_mset a M)" and "set (sh_queue s) \<subseteq> dom (sh_jobs s)"
  shows "names_inv s' (mset new + M)"
proof (cases "\<exists>owner spec submitted_at. a = SubmitPoll owner spec submitted_at")
  case True
  then obtain owner spec submitted_at where a: "a = SubmitPoll owner spec submitted_at" by blast
  from assms(1) [unfolded a] show ?thesis
  proof (cases rule: submit_cases)
    case (expired expired rest)
    with assms(3) show ?thesis using names_frame [OF assms(2), of s' new] a by (simp add: subset_iff)
  next
    case rejected
    then show ?thesis using names_frame [OF assms(2), of s' new] by (simp add: reject_def)
  next
    case admitted
    then show ?thesis using assms(2) by (auto simp: names_inv_def subset_iff)
  qed
next
  case False
  have "finite (sh_active s)" using assms(2) names_finite by blast
  then have "\<forall>x \<in> set new. sound_publish x \<and> set_option (about x) \<subseteq> dom (sh_jobs s)"
    using names_parts [OF assms(2)] by (intro exec_tokens [OF assms(1,3)]) simp_all
  then show ?thesis by (rule names_frame [OF assms(2) exec_dom [OF assms(1) False] exec_active [OF assms(1) False]])
qed

lemma held_about: "held j a \<Longrightarrow> about a = Some j"
  by (cases a) auto

lemma fresh_tokens:
  assumes "names_inv s M" and "a \<in># M"
  shows "about a \<noteq> Some (sh_next_job_id s)"
proof -
  have "sh_next_job_id s \<notin> dom (sh_jobs s)" using assms(1) by (simp add: names_inv_def)
  then show ?thesis using assms by (auto simp: names_inv_def)
qed

lemma queue_frame:
  assumes "queue_inv s (add_mset a M)" and "set (sh_queue s') \<subseteq> set (sh_queue s)" and "distinct (sh_queue s')"
    and "\<And>j. j \<in> set (sh_queue s') \<Longrightarrow> job_in s j JQueued \<Longrightarrow> \<not> held j a \<Longrightarrow> job_in s' j JQueued"
    and "\<And>j x. j \<in> set (sh_queue s') \<Longrightarrow> x \<in> set new \<Longrightarrow> \<not> held j x"
  shows "queue_inv s' (mset new + M)"
  unfolding queue_inv_def
proof (intro conjI ballI assms(3))
  fix j assume j: "j \<in> set (sh_queue s')"
  with assms(1,2) have "job_in s j JQueued" "\<not> held j a" "\<And>x. x \<in># M \<Longrightarrow> \<not> held j x" by (auto simp: queue_inv_def)
  with j assms(4,5) show "job_in s' j JQueued" "\<And>x. x \<in># mset new + M \<Longrightarrow> \<not> held j x" by auto
qed

lemma job_in_update: "job_in (update_job j f s) i st \<longleftrightarrow> (if i = j then (\<exists>b. sh_jobs s j = Some b \<and> jb_state (f b) = st) else job_in s i st)"
  by (auto simp: job_in_iff)

lemma job_in_unique: "job_in s j st \<Longrightarrow> job_in s j st' \<Longrightarrow> st = st'"
  by (auto simp: job_in_iff)

text \<open>Actions that leave the queue and the job states alone.\<close>

fun quiet :: "'r action \<Rightarrow> bool" where
  "quiet WorkerPoll = False" | "quiet (SubmitPoll _ _ _) = False" | "quiet (Publish _ _ _ _ _) = False"
| "quiet (TryStart _) = False" | "quiet (LockedUnqueue _) = False" | "quiet (LoadQueued _) = False"
| "quiet BeginShutdown = False" | "quiet _ = True"

lemma job_in_same: "(\<And>b. jb_state (f b) = jb_state b) \<Longrightarrow> job_in (update_job j f s) = job_in s"
  by (intro ext) (auto simp: job_in_iff)

lemma job_in_fields: "sh_jobs s' = sh_jobs s \<Longrightarrow> job_in s' = job_in s"
  by (intro ext) (simp add: job_in_iff)

lemma exec_quiet:
  assumes "exec t ch fin a s = (s', new)" and "quiet a"
  shows "sh_queue s' = sh_queue s" and "job_in s' = job_in s" and "\<And>x j. x \<in> set new \<Longrightarrow> \<not> held j x"
proof -
  show "sh_queue s' = sh_queue s" using assms
    by (cases a) (auto simp: exec_defs split: if_splits option.splits)
  show "job_in s' = job_in s" using assms
    by (cases a) (auto simp: exec_defs job_in_same intro: job_in_fields split: if_splits option.splits)
  show "\<not> held j x" if "x \<in> set new" for x j using assms that
    by (cases a) (auto simp: exec_defs split: if_splits option.splits sum.splits task_outcome.splits)
qed

lemma queue_step:
  assumes "exec t ch fin a s = (s', new)" and "queue_inv s (add_mset a M)" and "names_inv s (add_mset a M)"
  shows "queue_inv s' (mset new + M)"
proof (cases a)
  case WorkerPoll
  from assms(1) [unfolded WorkerPoll] show ?thesis
    by (cases rule: poll_cases) (use assms(2) in \<open>auto simp: queue_inv_def job_in_iff\<close>)
next
  case (SubmitPoll owner spec submitted_at)
  from assms(1) [unfolded SubmitPoll] show ?thesis
  proof (cases rule: submit_cases)
    case admitted
    have "sh_next_job_id s \<notin> dom (sh_jobs s)" using assms(3) by (simp add: names_inv_def)
    moreover have "\<forall>a \<in># M. \<not> held (sh_next_job_id s) a"
      using fresh_tokens [OF assms(3)] held_about by fastforce
    ultimately show ?thesis using assms(2) admitted
      by (auto simp: queue_inv_def job_in_iff new_job_def domIff split: if_splits)
  qed (use assms(2) in \<open>auto simp: queue_inv_def job_in_iff reject_def\<close>)
next
  case (Publish j st terminal result discard)
  have "\<not> is_terminal st" using names_parts [OF assms(3)] Publish by simp
  then have "i \<noteq> j" if "i \<in> set (sh_queue s)" "job_in s j st" for i
    using assms(2) that Publish by (cases st) (auto simp: queue_inv_def dest: job_in_unique)
  then show ?thesis using assms(1,2) Publish
    by (intro queue_frame [OF assms(2)])
      (auto simp: publish_terminal_def record_terminal_def job_in_update queue_inv_def split: if_splits)
next
  case (TryStart j)
  then show ?thesis using assms(1,2)
    by (intro queue_frame [OF assms(2)]) (auto simp: try_start_def job_in_update queue_inv_def split: if_splits)
next
  case (LockedUnqueue j)
  have "distinct (sh_queue s)" using assms(2) by (simp add: queue_inv_def)
  then show ?thesis using assms(1,2) LockedUnqueue
    by (intro queue_frame [OF assms(2)]) (auto simp: locked_unqueue_def queue_inv_def job_in_iff split: if_splits)
next
  case (LoadQueued j)
  then show ?thesis using assms(1,2)
    by (intro queue_frame [OF assms(2)]) (auto simp: load_queued_def queue_inv_def split: if_splits)
next
  case BeginShutdown
  then show ?thesis using assms(1) by (auto simp: queue_inv_def drain_jobs_def begin_shutdown_def)
qed (use exec_quiet [OF assms(1)] queue_frame [OF assms(2), of s' new] assms(2) in \<open>simp add: queue_inv_def\<close>)+


section \<open>Jobs\<close>

fun owned :: "nat \<Rightarrow> 'r action \<Rightarrow> bool" where
  "owned j (Observe i) = (i = j)" | "owned j (Retire i) = (i = j)" | "owned j (RunTask i) = (i = j)"
| "owned j a = runner j a"

lemma not_owned: "\<not> owned j x \<Longrightarrow> \<not> runner j x \<and> x \<noteq> Observe j \<and> x \<noteq> Retire j \<and> x \<noteq> RunTask j"
  by (cases x) auto

lemma owned_publish [simp]: "\<not> owned i (expire j)" "\<not> owned i (cancel_publish j)" "owned i (finish_running j r) = (j = i)"
  by (simp_all add: expire_def cancel_publish_def finish_running_def)

lemma exec_other:
  assumes "exec t ch fin a s = (s', new)" and "about a \<noteq> Some j" and "sh_jobs s j = Some b"
    and "j \<noteq> sh_next_job_id s" and "finite (sh_active s)"
  shows "sh_jobs s' j = Some b" and "j \<in> sh_active s' \<longleftrightarrow> j \<in> sh_active s" and "\<And>x. x \<in> set new \<Longrightarrow> \<not> owned j x"
    and "j \<in> set (sh_queue s) \<Longrightarrow> j \<in> sh_active s \<Longrightarrow> j \<in> set (sh_queue s') \<or> (\<exists>x \<in> set new. custody j x)"
proof -
  have "sh_jobs s' j = Some b \<and> (j \<in> sh_active s' \<longleftrightarrow> j \<in> sh_active s) \<and> (\<forall>x \<in> set new. \<not> owned j x)
    \<and> (j \<in> set (sh_queue s) \<longrightarrow> j \<in> sh_active s \<longrightarrow> j \<in> set (sh_queue s') \<or> (\<exists>x \<in> set new. custody j x))"
  proof (cases a)
    case WorkerPoll
    from assms(1) [unfolded WorkerPoll] assms(3) show ?thesis by (cases rule: poll_cases) auto
  next
    case (SubmitPoll owner spec submitted_at)
    from assms(1) [unfolded SubmitPoll] assms(3,4) show ?thesis by (cases rule: submit_cases) (auto simp: reject_def)
  next
    case (RunTask i)
    then show ?thesis using assms by (auto simp: run_task_def split: task_outcome.splits)
  next
    case (LockedUnqueue i)
    then show ?thesis using assms by (auto simp: locked_unqueue_def split: if_splits)
  qed (use assms in \<open>auto simp: exec_defs split: if_splits option.splits sum.splits\<close>)
  then show "sh_jobs s' j = Some b" "j \<in> sh_active s' \<longleftrightarrow> j \<in> sh_active s" "\<And>x. x \<in> set new \<Longrightarrow> \<not> owned j x"
    "j \<in> set (sh_queue s) \<Longrightarrow> j \<in> sh_active s \<Longrightarrow> j \<in> set (sh_queue s') \<or> (\<exists>x \<in> set new. custody j x)" by blast+
qed


lemma num_none: "(\<And>x. x \<in> set xs \<Longrightarrow> \<not> P x) \<Longrightarrow> num P (mset xs) = 0"
  by (simp add: num_zero)

lemma num_some: "x \<in> set xs \<Longrightarrow> P x \<Longrightarrow> 0 < num P (mset xs)"
  using num_zero [of P "mset xs"] by fastforce

lemma about_tokens: "custody j a \<or> owned j a \<Longrightarrow> about a = Some j"
  by (cases a) auto

lemma job_other:
  assumes "exec t ch fin a s = (s', new)" and "about a \<noteq> Some j" and "sh_jobs s j = Some b"
    and "j \<noteq> sh_next_job_id s" and "finite (sh_active s)" and "job_inv s (add_mset a M) j b"
  shows "sh_jobs s' j = Some b \<and> job_inv s' (mset new + M) j b"
proof -
  note other = exec_other [OF assms(1-5)]
  have "\<not> owned j a" "\<not> custody j a" using assms(2) about_tokens by blast+
  note a = this(2) not_owned [OF this(1)]
  have none: "num (runner j) (mset new) = 0" "num (\<lambda>x. x = Observe j) (mset new) = 0"
      "num (\<lambda>x. x = Retire j) (mset new) = 0" "num (\<lambda>x. x = RunTask j) (mset new) = 0"
    using not_owned other(3) by (blast intro: num_none)+
  have "j \<in> set (sh_queue s') \<or> 0 < num (custody j) (mset new + M)" if "jb_state b = JQueued"
    using assms(6) that other(4) a num_some [of _ new "custody j"] by (auto simp: job_inv_def)
  then show ?thesis using assms(6) other(1,2) a none by (simp add: job_inv_def)
qed

lemma job_own:
  assumes "about a = Some j" and "sh_jobs s j = Some b" and "job_inv s (add_mset a M) j b" and "sound_publish a"
  shows "job_inv (fst (exec t ch fin a s)) (mset (snd (exec t ch fin a s)) + M) j (the (sh_jobs (fst (exec t ch fin a s)) j))"
proof (cases a)
  case (Publish i st terminal result discard)
  then have "st = JQueued \<or> st = JRunning" "is_terminal terminal" using assms(4) by (cases st; auto)+
  with assms Publish show ?thesis
    by (cases "jb_state b = st") (auto simp: job_inv_def publish_terminal_def record_terminal_def job_in_iff of_bool_nat_def split: if_splits)
next
  case (LoadQueued i)
  then show ?thesis using assms by (simp add: load_queued_def job_inv_def)
next
  case (LockedUnqueue i)
  then show ?thesis using assms by (simp add: locked_unqueue_def job_inv_def)
next
  case (Retire i)
  then show ?thesis using assms by (simp add: job_inv_def retire_def of_bool_nat_def split: if_splits)
next
  case (RunTask i)
  then show ?thesis using assms
    by (cases "ch_outcome ch") (simp_all add: run_task_def job_inv_def of_bool_nat_def split: if_splits)
next
  case (TakeTask i)
  then show ?thesis using assms
    by (cases "jb_task b") (simp_all add: take_task_def discard_task_def job_inv_def of_bool_nat_def split: if_splits)
next
  case (RunCheck i)
  then show ?thesis using assms
    by (cases "job_check (ch_clock ch 0) b") (simp_all add: run_check_def job_inv_def)
next
  case (TryStart i)
  then show ?thesis using assms
    by (cases "jb_state b = JQueued") (simp_all add: try_start_def job_in_iff discard_task_def job_inv_def of_bool_nat_def split: if_splits)
next
  case (TakeOutput i)
  then show ?thesis using assms by (simp add: take_output_def job_inv_def)
next
  case (TakeLocked i)
  then show ?thesis using assms by (simp add: take_locked_def job_inv_def of_bool_nat_def split: if_splits)
next
  case (FinalCheck i v)
  then show ?thesis using assms by (simp add: final_check_def job_inv_def)
next
  case (DiscardTask i)
  then show ?thesis using assms by (simp add: discard_task_def job_inv_def of_bool_nat_def split: if_splits)
next
  case (StoreCancel i)
  then show ?thesis using assms by (simp add: job_inv_def)
next
  case (Observe i)
  then show ?thesis using assms by (simp add: job_inv_def)
next
  case (CountRunning i)
  then show ?thesis using assms by (simp add: job_inv_def)
qed (use assms(1) in simp_all)

lemma jobs_step:
  assumes "exec t ch fin a s = (s', new)" and "jobs_inv s (add_mset a M)" and "names_inv s (add_mset a M)"
  shows "jobs_inv s' (mset new + M)"
  unfolding jobs_inv_def
proof (intro allI impI)
  fix j b' assume b': "sh_jobs s' j = Some b'"
  have fresh: "sh_jobs s (sh_next_job_id s) = None" using assms(3) by (auto simp: names_inv_def)
  show "job_inv s' (mset new + M) j b'"
  proof (cases "sh_jobs s j")
    case (Some b)
    then have inv: "job_inv s (add_mset a M) j b" using assms(2) by (simp add: jobs_inv_def)
    show ?thesis
    proof (cases "about a = Some j")
      case True
      from job_own [OF True Some inv, of t ch fin] names_parts [OF assms(3)] assms(1) b' show ?thesis by simp
    next
      case False
      have "j \<noteq> sh_next_job_id s" using fresh Some by auto
      from job_other [OF assms(1) False Some this _ inv] names_finite [OF assms(3)] b' show ?thesis by simp
    qed
  next
    case None
    have "\<exists>owner spec submitted_at. a = SubmitPoll owner spec submitted_at"
      using exec_dom(1) [OF assms(1)] None b' by blast
    then obtain owner spec submitted_at where a: "a = SubmitPoll owner spec submitted_at" by blast
    from assms(1) [unfolded a] show ?thesis
    proof (cases rule: submit_cases)
      case admitted
      have j: "j = sh_next_job_id s" using admitted(5) b' None by (auto split: if_splits)
      have z: "num P M = 0" if "\<And>x. P x \<Longrightarrow> about x = Some j" for P
        using fresh_tokens [OF assms(3)] that j by (fastforce simp: num_zero)
      have r: "runner j x \<Longrightarrow> about x = Some j" for x by (cases x) auto
      have "num (runner j) M = 0" "num (\<lambda>a. a = Observe j) M = 0" "num (\<lambda>a. a = Retire j) M = 0" "num (\<lambda>a. a = RunTask j) M = 0"
        by (rule z; simp add: r)+
      moreover have "b' = new_job (sh_instant_max s) owner spec submitted_at" using admitted(5) b' j by simp
      ultimately show ?thesis using admitted(4,5) j by (simp add: job_inv_def new_job_def of_bool_nat_def)
    qed (use None b' in \<open>simp_all add: reject_def\<close>)
  qed
qed

end
