(* ===== verification/RuntimeInv.thy ===== *)
theory RuntimeInv
  imports RuntimeJobs
begin

text \<open>
  Accounting, shutdown and wake-ups of the job runtime, the invariant of its reachable states, and
  the properties that follow from it.
\<close>

section \<open>Owners and bounds\<close>

definition owner_set :: "'r shared \<Rightarrow> u64 \<Rightarrow> nat set" where
  "owner_set s owner = {j \<in> sh_active s. map_option jb_owner (sh_jobs s j) = Some owner}"

definition owners_inv :: "'r shared \<Rightarrow> bool" where
  "owners_inv s \<longleftrightarrow> (\<forall>owner. owner_jobs owner s = card (owner_set s owner) \<and> sh_owners s owner \<noteq> Some 0
    \<and> card (owner_set s owner) \<le> rc_max_jobs_per_owner (sh_config s))
    \<and> length (sh_queue s) \<le> rc_max_queue (sh_config s)"

lemma exec_frame:
  assumes "exec t ch fin a s = (s', new)" and "\<nexists>owner spec submitted_at. a = SubmitPoll owner spec submitted_at" and "\<nexists>j. a = Retire j"
  shows "sh_active s' = sh_active s" "sh_owners s' = sh_owners s" "sh_config s' = sh_config s"
    "map_option jb_owner (sh_jobs s' j) = map_option jb_owner (sh_jobs s j)" "length (sh_queue s') \<le> length (sh_queue s)"
    "sh_submitted s' = sh_submitted s"
proof -
  show "sh_active s' = sh_active s" using assms
    by (cases a) (auto simp: exec_defs split: if_splits option.splits list.splits prod.splits)
  show "sh_owners s' = sh_owners s" using assms
    by (cases a) (auto simp: exec_defs split: if_splits option.splits list.splits prod.splits)
  show "sh_config s' = sh_config s" using assms
    by (cases a) (auto simp: exec_defs split: if_splits option.splits list.splits prod.splits)
  show "sh_submitted s' = sh_submitted s" using assms
    by (cases a) (auto simp: exec_defs split: if_splits option.splits list.splits prod.splits)
  show "map_option jb_owner (sh_jobs s' j) = map_option jb_owner (sh_jobs s j)" using assms
    by (cases a) (auto simp: exec_defs option.map_comp comp_def split: if_splits option.splits list.splits prod.splits)
  show "length (sh_queue s') \<le> length (sh_queue s)" using assms
    by (cases a) (auto simp: exec_defs length_remove1 split: if_splits option.splits list.splits prod.splits dest: split_queue)
qed

lemma owners_retire:
  assumes "owners_inv s" and "finite (sh_active s)" and "sh_active s \<subseteq> dom (sh_jobs s)"
  shows "owners_inv (retire j s)"
proof (cases "j \<in> sh_active s")
  case True
  then obtain b where b: "sh_jobs s j = Some b" using assms(3) by auto
  let ?o = "jb_owner b"
  have sets: "owner_set (retire j s) owner = owner_set s owner - {j}" for owner
    using True b by (auto simp: owner_set_def retire_def)
  have j: "j \<in> owner_set s owner \<longleftrightarrow> owner = ?o" for owner using True b by (auto simp: owner_set_def)
  have fin: "finite (owner_set s owner)" for owner using assms(2) by (simp add: owner_set_def)
  have pos: "0 < owner_jobs ?o s" using j fin assms(1) by (metis card_gt_0_iff empty_iff owners_inv_def)
  then obtain n where n: "sh_owners s ?o = Some n" "0 < n" by (auto simp: owner_jobs_def split: option.splits)
  have owners: "sh_owners (retire j s) = (sh_owners s)(?o := if n - 1 = 0 then None else Some (n - 1))"
    using True b n by (simp add: retire_def release_owner_def)
  have jobs: "owner_jobs owner (retire j s) = (if owner = ?o then owner_jobs owner s - 1 else owner_jobs owner s)" for owner
    using owners n by (simp add: owner_jobs_def)
  have "card (owner_set (retire j s) owner) = owner_jobs owner (retire j s)" for owner
    using assms(1) sets j fin jobs by (auto simp: owners_inv_def card_Diff_singleton_if)
  moreover have "sh_config (retire j s) = sh_config s" "sh_queue (retire j s) = sh_queue s" using True by (simp_all add: retire_def)
  moreover have "sh_owners (retire j s) owner \<noteq> Some 0" for owner using owners assms(1) by (simp add: owners_inv_def)
  moreover have "card (owner_set (retire j s) owner) \<le> rc_max_jobs_per_owner (sh_config s)" for owner
    unfolding sets using assms(1) card_Diff1_le [of "owner_set s owner" j] by (auto simp: owners_inv_def intro: le_trans)
  ultimately show ?thesis using assms(1) by (simp add: owners_inv_def)
qed (use assms(1) in \<open>simp add: retire_def\<close>)

lemma owners_step:
  assumes "exec t ch fin a s = (s', new)" and "owners_inv s" and "names_inv s (add_mset a M)"
  shows "owners_inv s'"
proof -
  have fin: "finite (sh_active s)" "sh_active s \<subseteq> dom (sh_jobs s)" using names_finite [OF assms(3)] names_parts [OF assms(3)] by auto
  consider (retire) j where "a = Retire j" | (submit) owner spec submitted_at where "a = SubmitPoll owner spec submitted_at"
    | (other) "\<nexists>owner spec submitted_at. a = SubmitPoll owner spec submitted_at" "\<nexists>j. a = Retire j" by blast
  then show ?thesis
  proof cases
    case retire
    then show ?thesis using assms(1) owners_retire [OF assms(2) fin] by auto
  next
    case other
    note frame = exec_frame [OF assms(1) other]
    have "owner_set s' = owner_set s" by (intro ext) (simp add: owner_set_def frame)
    moreover have "owner_jobs owner s' = owner_jobs owner s" for owner by (simp add: owner_jobs_def frame)
    ultimately show ?thesis using assms(2) frame(2,3,5) by (auto simp: owners_inv_def intro: le_trans)
  next
    case submit
    from assms(1) [unfolded submit] show ?thesis
    proof (cases rule: submit_cases)
      case (expired expired rest)
      then show ?thesis using assms(2) by (simp add: owners_inv_def owner_jobs_def owner_set_def)
    next
      case rejected
      then show ?thesis using assms(2) by (simp add: owners_inv_def owner_jobs_def owner_set_def reject_def)
    next
      case admitted
      have new: "sh_next_job_id s \<notin> sh_active s" "sh_next_job_id s \<notin> dom (sh_jobs s)"
        using assms(3) by (auto simp: names_inv_def)
      have sets: "owner_set s' x = (if x = owner then insert (sh_next_job_id s) (owner_set s x) else owner_set s x)" for x
        using new admitted(5) by (auto simp: owner_set_def new_job_def)
      have jobs: "owner_jobs x s' = (if x = owner then owner_jobs x s + 1 else owner_jobs x s)" for x
        using admitted(5) by (simp add: owner_jobs_def)
      have "card (owner_set s' x) = owner_jobs x s'" for x
        using assms(2) sets jobs new fin by (auto simp: owners_inv_def owner_set_def)
      moreover have "card (owner_set s' x) \<le> rc_max_jobs_per_owner (sh_config s')" for x
        using assms(2) sets admitted(2,5) new fin by (auto simp: owners_inv_def owner_set_def)
      ultimately show ?thesis using assms(2) admitted(3,5) by (auto simp: owners_inv_def)
    qed
  qed
qed


section \<open>Counters\<close>

definition in_state :: "'r shared \<Rightarrow> job_state \<Rightarrow> nat set" where
  "in_state s st = {j. job_in s j st}"

fun terminal_counter :: "job_state \<Rightarrow> 'r shared \<Rightarrow> u64" where
  "terminal_counter JCompleted s = sh_completed s"
| "terminal_counter JFailed s = sh_failed s"
| "terminal_counter JCancelled s = sh_cancelled s"
| "terminal_counter _ s = 0"

fun starting :: "'r action \<Rightarrow> bool" where
  "starting (CountRunning _) = True" | "starting _ = False"

text \<open>The counters are 64-bit words and wrap; the equations hold modulo \<open>2 ^ 64\<close>.\<close>

definition counters_inv :: "'r shared \<Rightarrow> 'r action multiset \<Rightarrow> bool" where
  "counters_inv s M \<longleftrightarrow> sh_submitted s = of_nat (sh_next_job_id s - 1)
    \<and> (\<forall>st. is_terminal st \<longrightarrow> terminal_counter st s + of_nat (num (\<lambda>a. a = CountTerminal st) M) = of_nat (card (in_state s st)))
    \<and> sh_running s + of_nat (num starting M) = of_nat (card (in_state s JRunning)) + of_nat (num (\<lambda>a. a = SubRunning JRunning) M)"

lemma in_state_finite: "names_inv s M \<Longrightarrow> finite (in_state s st)"
  by (rule finite_subset [of _ "dom (sh_jobs s)"]) (auto simp: in_state_def job_in_iff dest: names_finite)

lemma in_state_update:
  assumes "job_in s j st"
  shows "in_state (update_job j f s) st' = (if jb_state (f (the (sh_jobs s j))) = st' then insert j (in_state s st') else in_state s st' - {j})"
  using assms by (auto simp: in_state_def job_in_iff)

fun counting :: "'r action \<Rightarrow> bool" where
  "counting (Publish _ _ _ _ _) = True" | "counting (TryStart _) = True" | "counting (CountRunning _) = True"
| "counting (SubRunning _) = True" | "counting (CountTerminal _) = True" | "counting (SubmitPoll _ _ _) = True"
| "counting _ = False"

lemma exec_uncounted:
  assumes "exec t ch fin a s = (s', new)" and "\<not> counting a"
  shows "job_in s' = job_in s" "sh_next_job_id s' = sh_next_job_id s" "sh_submitted s' = sh_submitted s"
    "sh_running s' = sh_running s" "terminal_counter st s' = terminal_counter st s"
    "\<And>x. x \<in> set new \<Longrightarrow> \<not> starting x \<and> (\<forall>st. x \<noteq> SubRunning st \<and> x \<noteq> CountTerminal st)"
proof -
  show "job_in s' = job_in s" using assms
    by (cases a) (auto simp: exec_defs job_in_same intro: job_in_fields split: if_splits option.splits list.splits prod.splits)
  show "sh_next_job_id s' = sh_next_job_id s" using assms
    by (cases a) (auto simp: exec_defs split: if_splits option.splits list.splits prod.splits)
  show "sh_submitted s' = sh_submitted s" using assms
    by (cases a) (auto simp: exec_defs split: if_splits option.splits list.splits prod.splits)
  show "sh_running s' = sh_running s" using assms
    by (cases a) (auto simp: exec_defs split: if_splits option.splits list.splits prod.splits)
  show "terminal_counter st s' = terminal_counter st s" using assms
    by (cases a; cases st) (auto simp: exec_defs split: if_splits option.splits list.splits prod.splits)
  show "\<not> starting x \<and> (\<forall>st. x \<noteq> SubRunning st \<and> x \<noteq> CountTerminal st)" if "x \<in> set new" for x using assms that
    by (cases a) (auto simp: exec_defs expire_def cancel_publish_def finish_running_def
        split: if_splits option.splits list.splits prod.splits sum.splits task_outcome.splits)
qed

lemma counters_frame:
  assumes "counters_inv s (add_mset a M)" and "job_in s' = job_in s" "sh_next_job_id s' = sh_next_job_id s" "sh_submitted s' = sh_submitted s"
    "sh_running s' = sh_running s" "\<And>st. terminal_counter st s' = terminal_counter st s"
    "\<And>x. x \<in> set new \<Longrightarrow> \<not> starting x \<and> (\<forall>st. x \<noteq> SubRunning st \<and> x \<noteq> CountTerminal st)"
    "\<not> starting a \<and> (\<forall>st. a \<noteq> SubRunning st \<and> a \<noteq> CountTerminal st)"
  shows "counters_inv s' (mset new + M)"
proof -
  have "in_state s' = in_state s" by (intro ext) (simp add: in_state_def assms(2))
  moreover have "num starting (mset new) = 0" "num (\<lambda>a. a = SubRunning JRunning) (mset new) = 0"
      "\<And>st. num (\<lambda>a. a = CountTerminal st) (mset new) = 0"
    using assms(7) by (blast intro: num_none)+
  ultimately show ?thesis using assms(1,3-6,8) by (simp add: counters_inv_def)
qed

lemma in_state_publish:
  assumes "job_in s j st" and "names_inv s M" and "st \<noteq> terminal"
  shows "card (in_state (update_job j (\<lambda>b. b\<lparr>jb_output := Some result, jb_state := terminal\<rparr>) s) x) + of_bool_nat (x = st)
    = card (in_state s x) + of_bool_nat (x = terminal)"
proof -
  have fin: "finite (in_state s x)" by (rule in_state_finite [OF assms(2)])
  have states: "in_state (update_job j (\<lambda>b. b\<lparr>jb_output := Some result, jb_state := terminal\<rparr>) s) x
      = (if terminal = x then insert j (in_state s x) else in_state s x - {j})"
    by (simp add: in_state_update [OF assms(1)])
  have "j \<in> in_state s x \<longleftrightarrow> x = st" using assms(1) job_in_unique [of s j x st] by (auto simp: in_state_def)
  then show ?thesis unfolding states using fin assms(3) card_Suc_Diff1 [of "in_state s x" j]
    by (cases "x = st"; cases "x = terminal") (simp_all add: of_bool_nat_def)
qed

lemma counters_publish:
  assumes "counters_inv s (add_mset (Publish j st terminal result discard) M)" and "names_inv s M"
    and "\<not> is_terminal st" and "is_terminal terminal" and "publish_terminal j st terminal result discard s = (s', new)"
  shows "counters_inv s' (mset new + M)"
proof (cases "job_in s j st")
  case True
  let ?f = "\<lambda>b. b\<lparr>jb_output := Some result, jb_state := terminal\<rparr>"
  have s': "s' = update_job j ?f s" and "new = [SubRunning st, CountTerminal terminal, Retire j, Observe j] @ (if discard then [DiscardTask j] else [])"
    using assms(5) True by (simp_all add: publish_terminal_def record_terminal_def)
  then have new: "num starting (mset new) = 0" "num (\<lambda>a. a = SubRunning JRunning) (mset new) = of_bool_nat (JRunning = st)"
      "\<And>x. num (\<lambda>a. a = CountTerminal x) (mset new) = of_bool_nat (x = terminal)"
    by (simp_all add: of_bool_nat_def)
  have ne: "st \<noteq> terminal" using assms(3,4) by auto
  have card: "card (in_state s' x) + of_bool_nat (x = st) = card (in_state s x) + of_bool_nat (x = terminal)" for x
    unfolding s' by (rule in_state_publish [OF True assms(2) ne])
  have counter: "terminal_counter x s' = terminal_counter x s" for x by (cases x) (simp_all add: s')
  have "terminal_counter x s' + of_nat (num (\<lambda>a. a = CountTerminal x) (mset new + M)) = of_nat (card (in_state s' x))" if "is_terminal x" for x
  proof -
    have "card (in_state s' x) = card (in_state s x) + of_bool_nat (x = terminal)" using card [of x] that assms(3) by (cases "x = st") (auto simp: of_bool_nat_def)
    then show ?thesis using assms(1) that counter new(3) by (simp add: counters_inv_def)
  qed
  moreover have "sh_running s' + of_nat (num starting (mset new + M))
      = of_nat (card (in_state s' JRunning)) + of_nat (num (\<lambda>a. a = SubRunning JRunning) (mset new + M))"
  proof -
    have "card (in_state s' JRunning) + of_bool_nat (JRunning = st) = card (in_state s JRunning)"
      using card [of JRunning] assms(4) by (auto simp: of_bool_nat_def)
    then have "of_nat (card (in_state s JRunning)) = (of_nat (card (in_state s' JRunning)) + of_nat (of_bool_nat (JRunning = st)) :: u64)"
      by (metis of_nat_add)
    then show ?thesis using assms(1) new(1,2) by (simp add: counters_inv_def s' add.assoc)
  qed
  ultimately show ?thesis using assms(1) by (simp add: counters_inv_def s')
next
  case False
  then show ?thesis using assms(1,5) by (auto simp: publish_terminal_def counters_inv_def)
qed


lemma counters_start:
  assumes "counters_inv s (add_mset (TryStart j) M)" and "names_inv s M" and "try_start j s = (s', new)"
  shows "counters_inv s' (mset new + M)"
proof (cases "job_in s j JQueued")
  case True
  have s': "s' = update_job j (\<lambda>b. b\<lparr>jb_state := JRunning\<rparr>) s" "new = [CountRunning j]"
    using assms(3) True by (simp_all add: try_start_def)
  have fin: "finite (in_state s x)" for x by (rule in_state_finite [OF assms(2)])
  have only: "j \<in> in_state s x \<longleftrightarrow> x = JQueued" for x using True job_in_unique [of s j x JQueued] by (auto simp: in_state_def)
  have states: "in_state s' x = (if JRunning = x then insert j (in_state s x) else in_state s x - {j})" for x
    by (simp add: s' in_state_update [OF True])
  have "in_state s' x = in_state s x" if "is_terminal x" for x
  proof -
    have "x \<noteq> JRunning" "j \<notin> in_state s x" using that only [of x] by auto
    then show ?thesis using states [of x] by auto
  qed
  moreover have "card (in_state s' JRunning) = Suc (card (in_state s JRunning))"
    using states [of JRunning] only [of JRunning] fin by simp
  moreover have "terminal_counter x s' = terminal_counter x s" for x by (cases x) (simp_all add: s')
  ultimately show ?thesis using assms(1) by (simp add: counters_inv_def s' ac_simps)
next
  case False
  then have "s' = s" "new = [DiscardTask j]" using assms(3) by (auto simp: try_start_def)
  then show ?thesis using assms(1) by (simp add: counters_inv_def)
qed

lemma counters_count:
  assumes "counters_inv s (add_mset (CountTerminal st) M)"
  shows "counters_inv (count_terminal st s) M"
proof -
  have "in_state (count_terminal st s) = in_state s" by (intro ext) (simp add: in_state_def job_in_iff)
  moreover have "terminal_counter x (count_terminal st s) = terminal_counter x s + of_nat (of_bool_nat (x = st))" if "is_terminal x" for x
    using that by (cases x; cases st) (simp_all add: of_bool_nat_def)
  ultimately show ?thesis using assms by (auto simp: counters_inv_def of_bool_nat_def algebra_simps)
qed

lemma counters_running:
  assumes "job_in s' = job_in s" "\<And>x. terminal_counter x s' = terminal_counter x s"
    "sh_submitted s' = sh_submitted s" "sh_next_job_id s' = sh_next_job_id s"
    "counters_inv s M" and "\<And>st. num (\<lambda>a. a = CountTerminal st) M' = num (\<lambda>a. a = CountTerminal st) M"
    and "sh_running s' + of_nat (num starting M') + of_nat (num (\<lambda>a. a = SubRunning JRunning) M)
      = sh_running s + of_nat (num starting M) + of_nat (num (\<lambda>a. a = SubRunning JRunning) M')"
  shows "counters_inv s' M'"
proof -
  have "in_state s' = in_state s" by (intro ext) (simp add: in_state_def assms(1))
  moreover have "sh_running s' + of_nat (num starting M') = of_nat (card (in_state s JRunning)) + of_nat (num (\<lambda>a. a = SubRunning JRunning) M')"
    using assms(5,7) by (simp add: counters_inv_def algebra_simps)
  ultimately show ?thesis using assms(2-6) by (simp add: counters_inv_def)
qed

lemma counters_submit:
  assumes "exec t ch fin (SubmitPoll owner spec submitted_at) s = (s', new)"
    and "counters_inv s (add_mset (SubmitPoll owner spec submitted_at) M)" and "names_inv s M"
  shows "counters_inv s' (mset new + M)"
  using assms(1)
proof (cases rule: submit_cases)
  case (expired expired rest)
  have "terminal_counter st s' = terminal_counter st s" for st using expired(2) by (cases st) simp_all
  then show ?thesis using expired
    by (intro counters_frame [OF assms(2)]) (auto simp: expire_def intro!: job_in_fields)
next
  case rejected
  have "terminal_counter st s' = terminal_counter st s" for st using rejected by (cases st) (simp_all add: reject_def)
  then show ?thesis using rejected
    by (intro counters_frame [OF assms(2)]) (auto simp: reject_def intro!: job_in_fields)
next
  case admitted
  have fresh: "sh_jobs s (sh_next_job_id s) = None" "1 \<le> sh_next_job_id s" using assms(3) by (auto simp: names_inv_def)
  have states: "in_state s' st = in_state s st" if "st \<noteq> JQueued" for st
    using that admitted(5) fresh by (auto simp: in_state_def job_in_iff new_job_def)
  have "terminal_counter st s' = terminal_counter st s" for st using admitted(5) by (cases st) simp_all
  moreover have "sh_submitted s' = of_nat (sh_next_job_id s' - 1)"
    using assms(2) admitted(5) fresh(2) of_nat_Suc [of "sh_next_job_id s - 1", where 'a = u64] by (simp add: counters_inv_def)
  moreover have "in_state s' st = in_state s st" if "is_terminal st" for st using states [of st] that by (cases st) auto
  ultimately show ?thesis using assms(2) admitted(4,5) states [of JRunning] by (simp add: counters_inv_def)
qed

lemma counters_step:
  assumes "exec t ch fin a s = (s', new)" and "counters_inv s (add_mset a M)" and "names_inv s (add_mset a M)"
  shows "counters_inv s' (mset new + M)"
proof -
  have names: "names_inv s M" using assms(3) by (auto simp: names_inv_def)
  show ?thesis
  proof (cases "counting a")
    case False
    have token: "\<not> starting a \<and> (\<forall>st. a \<noteq> SubRunning st \<and> a \<noteq> CountTerminal st)" using False by (cases a) auto
    show ?thesis
      by (rule counters_frame [OF assms(2) _ _ _ _ _ _ token]) (erule exec_uncounted [OF assms(1) False] | rule exec_uncounted [OF assms(1) False])+
  next
    case True
    then show ?thesis
    proof (cases a)
      case (Publish j st terminal result discard)
      then show ?thesis using counters_publish [OF assms(2) [unfolded Publish] names] names_parts [OF assms(3)] assms(1) by simp
    next
      case (TryStart j)
      then show ?thesis using counters_start [OF assms(2) [unfolded TryStart] names] assms(1) by simp
    next
      case (CountRunning j)
      have s': "s' = s\<lparr>sh_running := sh_running s + 1\<rparr>" "new = [RunCheck j]" using assms(1) CountRunning by simp_all
      have "terminal_counter x s' = terminal_counter x s" for x by (cases x) (simp_all add: s')
      moreover have "job_in s' = job_in s" by (rule job_in_fields) (simp add: s')
      ultimately show ?thesis by (intro counters_running [OF _ _ _ _ assms(2)]) (simp_all add: s' CountRunning)
    next
      case (SubRunning st)
      have s': "s' = sub_running st s" "new = []" using assms(1) SubRunning by simp_all
      have "terminal_counter x s' = terminal_counter x s" for x by (cases x) (simp_all add: s' sub_running_def)
      moreover have "job_in s' = job_in s" by (rule job_in_fields) (simp add: s' sub_running_def)
      ultimately show ?thesis by (intro counters_running [OF _ _ _ _ assms(2)]) (simp_all add: s' sub_running_def SubRunning)
    next
      case (CountTerminal st)
      then show ?thesis using counters_count [OF assms(2) [unfolded CountTerminal]] assms(1) by simp
    next
      case (SubmitPoll owner spec submitted_at)
      then show ?thesis using counters_submit [OF assms(1) [unfolded SubmitPoll] assms(2) [unfolded SubmitPoll] names] by simp
    qed simp_all
  qed
qed

section \<open>Shutdown and wake-ups\<close>

definition shutdown_inv :: "'r shared \<Rightarrow> 'r action multiset \<Rightarrow> bool" where
  "shutdown_inv s M \<longleftrightarrow> (sh_shutting_down s \<longrightarrow> sh_queue s = []
    \<and> (\<forall>j b. sh_jobs s j = Some b \<longrightarrow> \<not> is_terminal (jb_state b) \<longrightarrow> jb_cancel b \<or> StoreCancel j \<in># M))"

definition wake_inv :: "'r shared \<Rightarrow> 'r action multiset \<Rightarrow> bool" where
  "wake_inv s M \<longleftrightarrow> finite (sh_waiting s) \<and> (\<forall>w \<in> sh_waiting s. WorkerWait w \<in># M)
    \<and> (\<not> sh_shutting_down s \<longrightarrow> WorkerPoll \<in># M \<or> (\<exists>w. WorkerWait w \<in># M))
    \<and> (sh_queue s \<noteq> [] \<longrightarrow> NotifyOne \<in># M \<or> WorkerPoll \<in># M \<or> (\<exists>w. WorkerWait w \<in># M \<and> w \<notin> sh_waiting s))
    \<and> (sh_shutting_down s \<longrightarrow> sh_waiting s \<noteq> {} \<longrightarrow> NotifyAll \<in># M)"


lemma exec_flags:
  assumes "exec t ch fin a s = (s', new)" and "\<nexists>owner spec submitted_at. a = SubmitPoll owner spec submitted_at" and "sound_publish a"
  shows "sh_queue s = [] \<Longrightarrow> sh_queue s' = []" and "a \<noteq> BeginShutdown \<Longrightarrow> sh_shutting_down s' = sh_shutting_down s"
    and "sh_jobs s' j = Some b' \<Longrightarrow> \<exists>b. sh_jobs s j = Some b \<and> (jb_cancel b \<or> a = StoreCancel j \<longrightarrow> jb_cancel b')
      \<and> (is_terminal (jb_state b) \<longrightarrow> is_terminal (jb_state b'))"
proof -
  show "sh_queue s' = []" if "sh_queue s = []" using assms that
    by (cases a) (auto simp: exec_defs split: if_splits option.splits list.splits prod.splits)
  show "sh_shutting_down s' = sh_shutting_down s" if "a \<noteq> BeginShutdown" using assms that
    by (cases a) (auto simp: exec_defs split: if_splits option.splits list.splits prod.splits)
  show "\<exists>b. sh_jobs s j = Some b \<and> (jb_cancel b \<or> a = StoreCancel j \<longrightarrow> jb_cancel b') \<and> (is_terminal (jb_state b) \<longrightarrow> is_terminal (jb_state b'))"
    if "sh_jobs s' j = Some b'" using assms that
    by (cases a) (auto simp: exec_defs job_in_iff split: if_splits option.splits list.splits prod.splits)
qed

lemma shutdown_step:
  assumes "exec t ch fin a s = (s', new)" and "shutdown_inv s (add_mset a M)" and "names_inv s (add_mset a M)"
    and "jobs_inv s (add_mset a M)"
  shows "shutdown_inv s' (mset new + M)"
proof (cases "\<exists>owner spec submitted_at. a = SubmitPoll owner spec submitted_at")
  case True
  then obtain owner spec submitted_at where a: "a = SubmitPoll owner spec submitted_at" by blast
  from assms(1) [unfolded a] show ?thesis
    by (cases rule: submit_cases) (use assms(2) in \<open>auto simp: shutdown_inv_def a reject_def\<close>)
next
  case False
  note flags = exec_flags [OF assms(1) False] names_parts [OF assms(3)]
  show ?thesis
  proof (cases "a = BeginShutdown")
    case True
    have "j \<in> sh_active s" if "sh_jobs s j = Some b" "\<not> is_terminal (jb_state b)" for j b
      using assms(4) that by (auto simp: jobs_inv_def job_inv_def)
    then show ?thesis using assms(1) True names_finite [OF assms(3)]
      by (auto simp: shutdown_inv_def drain_jobs_def begin_shutdown_def cancel_call_def)
  next
    case live: False
    have "jb_cancel b' \<or> StoreCancel j \<in># mset new + M"
      if down: "sh_shutting_down s'" and job: "sh_jobs s' j = Some b'" "\<not> is_terminal (jb_state b')" for j b'
    proof -
      obtain b where b: "sh_jobs s j = Some b" "jb_cancel b \<or> a = StoreCancel j \<longrightarrow> jb_cancel b'" "\<not> is_terminal (jb_state b)"
        using flags(3) [OF _ job(1)] flags(4) job(2) by blast
      then have "jb_cancel b \<or> StoreCancel j \<in># add_mset a M" using assms(2) down flags live by (auto simp: shutdown_inv_def)
      then show ?thesis using b by auto
    qed
    then show ?thesis using assms(2) flags live by (auto simp: shutdown_inv_def)
  qed
qed

fun wake_relevant :: "'r action \<Rightarrow> bool" where
  "wake_relevant WorkerPoll = True" | "wake_relevant (WorkerWait _) = True" | "wake_relevant NotifyOne = True"
| "wake_relevant NotifyAll = True" | "wake_relevant BeginShutdown = True" | "wake_relevant (SubmitPoll _ _ _) = True"
| "wake_relevant _ = False"

lemma exec_wake:
  assumes "exec t ch fin a s = (s', new)" and "\<not> wake_relevant a"
  shows "sh_waiting s' = sh_waiting s" "sh_shutting_down s' = sh_shutting_down s" "sh_queue s' \<noteq> [] \<Longrightarrow> sh_queue s \<noteq> []"
proof -
  show "sh_waiting s' = sh_waiting s" using assms
    by (cases a) (auto simp: exec_defs split: if_splits option.splits)
  show "sh_shutting_down s' = sh_shutting_down s" using assms
    by (cases a) (auto simp: exec_defs split: if_splits option.splits)
  show "sh_queue s \<noteq> []" if "sh_queue s' \<noteq> []" using assms that
    by (cases a) (auto simp: exec_defs split: if_splits option.splits)
qed

lemma wake_step:
  assumes "exec t ch fin a s = (s', new)" and "wake_inv s (add_mset a M)" and "shutdown_inv s (add_mset a M)"
    and "\<And>w. a = WorkerWait w \<Longrightarrow> w \<notin> sh_waiting s"
  shows "wake_inv s' (mset new + M)"
proof (cases a)
  case WorkerPoll
  from assms(1) [unfolded WorkerPoll] show ?thesis
    by (cases rule: poll_cases) (use assms(2) WorkerPoll in \<open>auto simp: wake_inv_def\<close>)
next
  case (SubmitPoll owner spec submitted_at)
  from assms(1) [unfolded SubmitPoll] show ?thesis
    by (cases rule: submit_cases) (use assms(2) SubmitPoll in \<open>auto simp: wake_inv_def reject_def\<close>)
next
  case (WorkerWait w)
  then show ?thesis using assms(1,2,4) by (auto simp: wake_inv_def)
next
  case NotifyAll
  then show ?thesis using assms(1,2) by (auto simp: wake_inv_def)
next
  case BeginShutdown
  then show ?thesis using assms(1,2) by (auto simp: wake_inv_def drain_jobs_def begin_shutdown_def)
next
  case NotifyOne
  have quiet: "\<not> sh_shutting_down s" if "sh_queue s \<noteq> []" using assms(3) that by (auto simp: shutdown_inv_def)
  show ?thesis
  proof (cases "sh_waiting s = {}")
    case True
    then show ?thesis using assms(1,2) NotifyOne quiet by (auto simp: wake_inv_def notify_one_def)
  next
    case False
    define w where "w = (if ch_wake ch \<in> sh_waiting s then ch_wake ch else Min (sh_waiting s))"
    have "w \<in> sh_waiting s" using False assms(2) by (simp add: w_def wake_inv_def)
    moreover have "s' = s\<lparr>sh_waiting := sh_waiting s - {w}\<rparr>" "new = []"
      using assms(1) NotifyOne False by (simp_all add: notify_one_def w_def)
    ultimately show ?thesis using assms(2) NotifyOne by (auto simp: wake_inv_def)
  qed
qed (use assms(2) exec_wake [OF assms(1)] in \<open>auto simp: wake_inv_def\<close>)


section \<open>Reachable states\<close>

definition runtime_inv :: "'r shared \<Rightarrow> 'r action multiset \<Rightarrow> bool" where
  "runtime_inv s M \<longleftrightarrow> names_inv s M \<and> queue_inv s M \<and> jobs_inv s M \<and> owners_inv s \<and> counters_inv s M \<and> shutdown_inv s M"

lemma queue_names: "queue_inv s M \<Longrightarrow> set (sh_queue s) \<subseteq> dom (sh_jobs s)"
  by (auto simp: queue_inv_def job_in_iff)

lemma runtime_exec:
  assumes "exec t ch fin a s = (s', new)" and "runtime_inv s (add_mset a M)"
  shows "runtime_inv s' (mset new + M)"
proof -
  have inv: "names_inv s (add_mset a M)" "queue_inv s (add_mset a M)" "jobs_inv s (add_mset a M)" "owners_inv s"
      "counters_inv s (add_mset a M)" "shutdown_inv s (add_mset a M)"
    using assms(2) by (simp_all add: runtime_inv_def)
  show ?thesis unfolding runtime_inv_def
    using names_step [OF assms(1) inv(1) queue_names [OF inv(2)]] queue_step [OF assms(1) inv(2,1)] jobs_step [OF assms(1) inv(3,1)]
      owners_step [OF assms(1) inv(4,1)] counters_step [OF assms(1) inv(5,1)] shutdown_step [OF assms(1) inv(6,1,3)] by blast
qed

lemma call_token:
  assumes "client_call s c"
  shows "\<not> held j c" "\<not> owned j c" "sound_publish c" "set_option (about c) \<subseteq> dom (sh_jobs s)" "\<not> starting c"
    "c \<noteq> SubRunning st" "c \<noteq> CountTerminal st" "c \<noteq> Retire j" "c \<noteq> WorkerWait w"
  using assms by (cases c; auto)+

lemma runtime_call:
  assumes "client_call s c" and "runtime_inv s M"
  shows "runtime_inv s (add_mset c M)"
proof -
  note c = call_token [OF assms(1)]
  have "job_inv s (add_mset c M) j b" if "job_inv s M j b" for j b
    using that not_owned [OF c(2)] by (simp add: job_inv_def)
  moreover have "names_inv s (add_mset c M)" using assms(2) c(3,4) by (auto simp: runtime_inv_def names_inv_def)
  ultimately show ?thesis using assms(2) c(1,5-7)
    by (auto simp: runtime_inv_def queue_inv_def jobs_inv_def counters_inv_def shutdown_inv_def)
qed

lemma runtime_waiting:
  "runtime_inv (s\<lparr>sh_waiting := W\<rparr>) M \<longleftrightarrow> runtime_inv s M"
proof -
  have "terminal_counter st (s\<lparr>sh_waiting := W\<rparr>) = terminal_counter st s" for st by (cases st) simp_all
  moreover have "job_in (s\<lparr>sh_waiting := W\<rparr>) = job_in s" by (rule job_in_fields) simp
  ultimately show ?thesis
    by (simp add: runtime_inv_def names_inv_def queue_inv_def jobs_inv_def job_inv_def owners_inv_def owner_jobs_def owner_set_def
        counters_inv_def in_state_def shutdown_inv_def)
qed

lemma token_step_inv: "token_step s M s' M' \<Longrightarrow> runtime_inv s M \<Longrightarrow> runtime_inv s' M'"
  by (induction rule: token_step.induct) (simp_all add: runtime_exec runtime_call runtime_waiting)

lemma start_pending:
  "pending (runtime_start imax config spawned) = replicate_mset (min spawned (worker_count config)) WorkerPoll
    + (if min spawned (worker_count config) < worker_count config then {#ShutdownCall#} else {#})"
  by (auto simp: pending_def runtime_start_def Let_def mset_concat map_replicate_const)

lemma num_start: "\<not> P WorkerPoll \<Longrightarrow> \<not> P ShutdownCall \<Longrightarrow> num P (pending (runtime_start imax config spawned)) = 0"
  by (auto simp: start_pending num_zero split: if_splits)

lemma start_fields:
  "sh_jobs (sy_shared (runtime_start imax config spawned)) = Map.empty" "sh_queue (sy_shared (runtime_start imax config spawned)) = []"
  "sh_active (sy_shared (runtime_start imax config spawned)) = {}" "sh_owners (sy_shared (runtime_start imax config spawned)) = Map.empty"
  "sh_next_job_id (sy_shared (runtime_start imax config spawned)) = 1" "sh_submitted (sy_shared (runtime_start imax config spawned)) = 0"
  "sh_running (sy_shared (runtime_start imax config spawned)) = 0" "\<not> sh_shutting_down (sy_shared (runtime_start imax config spawned))"
  "sh_waiting (sy_shared (runtime_start imax config spawned)) = {}"
  "terminal_counter st (sy_shared (runtime_start imax config spawned)) = 0"
  "sh_config (sy_shared (runtime_start imax config spawned)) = config"
  by (simp_all add: runtime_start_def Let_def shared_new_def) (cases st; simp)

lemma start_inv: "runtime_inv (sy_shared (runtime_start imax config spawned)) (pending (runtime_start imax config spawned))"
proof -
  let ?y = "runtime_start imax config spawned"
  have "sound_publish a \<and> about a = None" if "a \<in># pending ?y" for a
    using that by (auto simp: start_pending split: if_splits)
  then show ?thesis
    by (auto simp: runtime_inv_def names_inv_def queue_inv_def jobs_inv_def owners_inv_def owner_jobs_def owner_set_def
        counters_inv_def in_state_def job_in_iff shutdown_inv_def start_fields num_start)
qed

lemma reachable_inv: "sys_step\<^sup>*\<^sup>* (runtime_start imax config spawned) y \<Longrightarrow> runtime_inv (sy_shared y) (pending y)"
proof (induction rule: rtranclp_induct)
  case base
  show ?case by (rule start_inv)
qed (blast intro: token_step_inv sys_step_tokens)

lemma token_step_wake: "token_step s M s' M' \<Longrightarrow> runtime_inv s M \<Longrightarrow> wake_inv s M \<Longrightarrow> wake_inv s' M'"
proof (induction rule: token_step.induct)
  case (tok_exec t ch fin a s s' new M)
  then show ?case using wake_step [OF tok_exec(1) tok_exec(4) _ tok_exec(2)] by (simp add: runtime_inv_def)
qed (auto simp: wake_inv_def)

lemma reachable_wake:
  fixes y :: "'r system"
  assumes "1 \<le> spawned"
  shows "sys_step\<^sup>*\<^sup>* (runtime_start imax config spawned) y \<Longrightarrow> wake_inv (sy_shared y) (pending y)"
proof (induction rule: rtranclp_induct)
  case base
  have "WorkerPoll \<in># pending (runtime_start imax config spawned :: 'r system)"
    using assms by (auto simp: start_pending worker_count_def)
  then show ?case by (simp add: wake_inv_def start_fields)
qed (blast intro: token_step_wake sys_step_tokens reachable_inv)


section \<open>Properties\<close>

definition resting :: "'r system \<Rightarrow> bool" where
  "resting y \<longleftrightarrow> sh_queue (sy_shared y) = [] \<and> (\<forall>a \<in># pending y. a = WorkerPoll \<or> (\<exists>w. a = WorkerWait w))"

text \<open>
  C7. In every interleaving of workers, clients, cancellations, deadlines and shutdown, each job
  is safe: its observer is called at most once and only after it reached a terminal state, its task
  runs at most once, its result is handed out at most once, and it has no result before the end. The
  count kept for each owner is the number of that owner's unfinished jobs and stays within the
  ceiling, and the queue stays within its bound.
\<close>

theorem runtime_jobs_safe:
  assumes "sys_step\<^sup>*\<^sup>* (runtime_start imax config spawned) y"
  shows "(\<forall>j b. sh_jobs (sy_shared y) j = Some b \<longrightarrow>
      jb_notified b \<le> of_bool_nat (is_terminal (jb_state b)) \<and> jb_runs b \<le> of_bool_nat (\<not> jb_task b)
      \<and> of_bool_nat (jb_output b \<noteq> None) + jb_taken b = of_bool_nat (is_terminal (jb_state b)))
    \<and> (\<forall>owner. owner_jobs owner (sy_shared y) = card (owner_set (sy_shared y) owner)
      \<and> owner_jobs owner (sy_shared y) \<le> rc_max_jobs_per_owner (sh_config (sy_shared y)))
    \<and> length (sh_queue (sy_shared y)) \<le> rc_max_queue (sh_config (sy_shared y))"
proof -
  have inv: "jobs_inv (sy_shared y) (pending y)" "owners_inv (sy_shared y)"
    using reachable_inv [OF assms] by (simp_all add: runtime_inv_def)
  have "jb_notified b \<le> of_bool_nat (is_terminal (jb_state b)) \<and> jb_runs b \<le> of_bool_nat (\<not> jb_task b)
      \<and> of_bool_nat (jb_output b \<noteq> None) + jb_taken b = of_bool_nat (is_terminal (jb_state b))"
    if "sh_jobs (sy_shared y) j = Some b" for j b
  proof -
    have "job_inv (sy_shared y) (pending y) j b" using inv(1) that by (simp add: jobs_inv_def)
    then show ?thesis unfolding job_inv_def by linarith
  qed
  then show ?thesis using inv(2) by (simp add: owners_inv_def)
qed

lemma resting_jobs:
  assumes "jobs_inv s M" and "sh_queue s = []" and "\<And>P. \<not> P WorkerPoll \<Longrightarrow> (\<And>w. \<not> P (WorkerWait w)) \<Longrightarrow> num P M = 0"
    and "sh_jobs s j = Some b"
  shows "is_terminal (jb_state b) \<and> jb_notified b = 1 \<and> of_bool_nat (jb_output b \<noteq> None) + jb_taken b = 1 \<and> j \<notin> sh_active s"
proof -
  have inv: "job_inv s M j b" using assms(1,4) by (simp add: jobs_inv_def)
  have "num (runner j) M = 0" "num (custody j) M = 0" "num (\<lambda>a. a = Observe j) M = 0" "num (\<lambda>a. a = Retire j) M = 0"
    by (rule assms(3); simp)+
  with inv assms(2) show ?thesis by (cases "jb_state b") (auto simp: job_inv_def of_bool_nat_def split: if_splits)
qed

lemma all_terminal_states:
  assumes "names_inv s M" and "\<And>j b. sh_jobs s j = Some b \<Longrightarrow> is_terminal (jb_state b)"
  shows "sh_next_job_id s - 1 = card (in_state s JCompleted) + card (in_state s JFailed) + card (in_state s JCancelled)"
    and "in_state s JRunning = {}"
proof -
  have "dom (sh_jobs s) = in_state s JCompleted \<union> in_state s JFailed \<union> in_state s JCancelled"
  proof (intro equalityI subsetI)
    fix j assume "j \<in> dom (sh_jobs s)"
    then obtain b where "sh_jobs s j = Some b" by auto
    with assms(2) [OF this] show "j \<in> in_state s JCompleted \<union> in_state s JFailed \<union> in_state s JCancelled"
      by (cases "jb_state b") (auto simp: in_state_def job_in_iff)
  qed (auto simp: in_state_def job_in_iff)
  moreover have "finite (in_state s st)" for st by (rule in_state_finite [OF assms(1)])
  moreover have "in_state s st \<inter> in_state s st' = {}" if "st \<noteq> st'" for st st'
    using that by (auto simp: in_state_def dest: job_in_unique)
  moreover have "card (dom (sh_jobs s)) = sh_next_job_id s - 1" using assms(1) by (simp add: names_inv_def)
  ultimately show "sh_next_job_id s - 1 = card (in_state s JCompleted) + card (in_state s JFailed) + card (in_state s JCancelled)"
    by (simp add: card_Un_disjoint Int_Un_distrib2)
  show "in_state s JRunning = {}" using assms(2) by (fastforce simp: in_state_def job_in_iff)
qed

lemma runtime_resting:
  assumes "runtime_inv s M" and "sh_queue s = []" and "\<forall>a \<in># M. a = WorkerPoll \<or> (\<exists>w. a = WorkerWait w)"
  shows "(\<forall>j b. sh_jobs s j = Some b \<longrightarrow>
      is_terminal (jb_state b) \<and> jb_notified b = 1 \<and> of_bool_nat (jb_output b \<noteq> None) + jb_taken b = 1)
    \<and> sh_active s = {} \<and> (\<forall>owner. owner_jobs owner s = 0) \<and> sh_running s = 0
    \<and> sh_submitted s = sh_completed s + sh_failed s + sh_cancelled s"
proof -
  have inv: "names_inv s M" "jobs_inv s M" "owners_inv s" "counters_inv s M" using assms(1) by (simp_all add: runtime_inv_def)
  have none: "num P M = 0" if "\<not> P WorkerPoll" "\<And>w. \<not> P (WorkerWait w)" for P
    using assms(3) that by (auto simp: num_zero)
  note jobs = resting_jobs [OF inv(2) assms(2) none]
  have active: "sh_active s = {}" using inv(1) jobs by (auto simp: names_inv_def)
  then have "owner_jobs owner s = 0" for owner using inv(3) by (simp add: owners_inv_def owner_set_def)
  moreover have counters: "terminal_counter st s = of_nat (card (in_state s st))" if "is_terminal st" for st
  proof -
    have "terminal_counter st s + of_nat (num (\<lambda>a. a = CountTerminal st) M) = of_nat (card (in_state s st))"
      using inv(4) that unfolding counters_inv_def by blast
    then show ?thesis using none [of "\<lambda>a. a = CountTerminal st"] by simp
  qed
  have "sh_submitted s = of_nat (card (in_state s JCompleted) + card (in_state s JFailed) + card (in_state s JCancelled))"
    using inv(4) all_terminal_states(1) [OF inv(1)] jobs by (simp add: counters_inv_def)
  then have "sh_submitted s = sh_completed s + sh_failed s + sh_cancelled s"
    using counters [of JCompleted] counters [of JFailed] counters [of JCancelled] by simp
  moreover have "sh_running s = 0"
    using inv(4) none [of starting] none [of "\<lambda>a. a = SubRunning JRunning"] all_terminal_states(2) [OF inv(1)] jobs
    by (simp add: counters_inv_def)
  ultimately show ?thesis using jobs active by blast
qed

text \<open>
  C8. No job is stranded: when every thread is idle or a worker looking for work, and the queue
  is empty, all submitted jobs have ended, each observer was called exactly once, each result is
  there or was handed out, no owner is charged for a job, nothing counts as running, and the
  counters of outcomes add up to the submissions.
\<close>

theorem runtime_rests_complete:
  assumes "sys_step\<^sup>*\<^sup>* (runtime_start imax config spawned) y" and "resting y"
  shows "(\<forall>j b. sh_jobs (sy_shared y) j = Some b \<longrightarrow>
      is_terminal (jb_state b) \<and> jb_notified b = 1 \<and> of_bool_nat (jb_output b \<noteq> None) + jb_taken b = 1)
    \<and> sh_active (sy_shared y) = {} \<and> (\<forall>owner. owner_jobs owner (sy_shared y) = 0) \<and> sh_running (sy_shared y) = 0
    \<and> sh_submitted (sy_shared y) = sh_completed (sy_shared y) + sh_failed (sy_shared y) + sh_cancelled (sy_shared y)"
  using runtime_resting [OF reachable_inv [OF assms(1)]] assms(2) by (simp add: resting_def)

text \<open>
  No wake-up is lost: while the queue holds a job, a notification is on its way or a worker
  is awake. Once shutdown began, the queue is empty, every unfinished job is cancelled or about to
  be, and no worker keeps waiting without a notification on its way.
\<close>

theorem runtime_no_lost_wakeup:
  assumes "sys_step\<^sup>*\<^sup>* (runtime_start imax config spawned) y" and "1 \<le> spawned"
  shows "(sh_queue (sy_shared y) \<noteq> [] \<longrightarrow> NotifyOne \<in># pending y \<or> WorkerPoll \<in># pending y
      \<or> (\<exists>w. WorkerWait w \<in># pending y \<and> w \<notin> sh_waiting (sy_shared y)))
    \<and> (sh_shutting_down (sy_shared y) \<longrightarrow> sh_queue (sy_shared y) = []
      \<and> (sh_waiting (sy_shared y) \<noteq> {} \<longrightarrow> NotifyAll \<in># pending y)
      \<and> (\<forall>j b. sh_jobs (sy_shared y) j = Some b \<longrightarrow> \<not> is_terminal (jb_state b) \<longrightarrow> jb_cancel b \<or> StoreCancel j \<in># pending y))"
  using reachable_wake [OF assms(2,1)] reachable_inv [OF assms(1)] by (simp add: wake_inv_def runtime_inv_def shutdown_inv_def)


section \<open>A run\<close>

text \<open>Schedules: the thread that moves, with the environment's choice or with the call it makes.\<close>

datatype 'r move = Exec nat "'r choice" | Call nat "'r action"

fun blocked :: "'r shared \<Rightarrow> 'r action \<Rightarrow> bool" where
  "blocked s (WorkerWait w) = (w \<in> sh_waiting s)"
| "blocked s _ = False"

fun do_move :: "'r move \<Rightarrow> 'r system \<Rightarrow> 'r system option" where
  "do_move (Exec t ch) y =
    (if t < length (sy_threads y) then
       (case sy_threads y ! t of
          [] \<Rightarrow> None
        | a # rest \<Rightarrow> if blocked (sy_shared y) a then None
            else (case exec t ch (exited (sy_threads y)) a (sy_shared y) of (s', new) \<Rightarrow>
              Some \<lparr>sy_shared = s', sy_threads = (sy_threads y)[t := new @ rest]\<rparr>))
     else None)"
| "do_move (Call t c) y =
    (if t < length (sy_threads y) \<and> sy_threads y ! t = [] \<and> client_call (sy_shared y) c
     then Some (y\<lparr>sy_threads := (sy_threads y)[t := c # sy_threads y ! t]\<rparr>) else None)"

fun do_moves :: "'r move list \<Rightarrow> 'r system \<Rightarrow> 'r system option" where
  "do_moves [] y = Some y"
| "do_moves (m # ms) y = Option.bind (do_move m y) (do_moves ms)"

lemma do_move_step: "do_move m y = Some y' \<Longrightarrow> sys_step y y'"
proof (induction m y rule: do_move.induct)
  case (1 t ch y)
  then obtain a rest s' new where t: "t < length (sy_threads y)" "sy_threads y ! t = a # rest" "\<not> blocked (sy_shared y) a"
      "exec t ch (exited (sy_threads y)) a (sy_shared y) = (s', new)"
      "y' = \<lparr>sy_shared = s', sy_threads = (sy_threads y)[t := new @ rest]\<rparr>"
    by (auto split: if_splits list.splits prod.splits)
  from t(3) have "case a of WorkerWait w \<Rightarrow> w \<notin> sh_waiting (sy_shared y) | _ \<Rightarrow> True" by (cases a) auto
  then show ?case unfolding t(5) by (rule sys_exec [OF t(1,2) _ t(4)])
next
  case (2 t c y)
  then show ?case using sys_call [of t y c] by (auto simp: may_call_def split: if_splits)
qed

lemma do_moves_reach: "do_moves ms y = Some y' \<Longrightarrow> sys_step\<^sup>*\<^sup>* y y'"
  by (induction ms arbitrary: y) (auto split: Option.bind_splits dest: do_move_step intro: converse_rtranclp_into_rtranclp)

definition one_worker :: runtime_config where
  "one_worker = default_config\<lparr>rc_workers := 1\<rparr>"

definition plain_choice :: "nat choice" where
  "plain_choice = \<lparr>ch_clock = (\<lambda>_. 0), ch_outcome = TaskOk 5, ch_wake = 0, ch_join_expired = False\<rparr>"

definition demo_submit :: "nat action" where
  "demo_submit = SubmitPoll 7 \<lparr>js_limits = default_limits, js_timeout_ms = None\<rparr> 0"

definition demo_moves :: "nat move list" where
  "demo_moves = [Call 1 demo_submit, Exec 1 plain_choice, Exec 1 plain_choice] @ replicate 12 (Exec 0 plain_choice)"

definition demo_end :: "nat system option" where
  "demo_end = do_moves demo_moves (runtime_start 0 one_worker 1)"

lemma demo_end_eval:
  "map_option (\<lambda>y. (sh_queue (sy_shared y), sh_submitted (sy_shared y), sh_completed (sy_shared y), sy_threads y)) demo_end
    = Some ([], 1, 1, [[WorkerPoll], []])"
  by code_simp


lemma demo_run:
  obtains y :: "nat system" where "sys_step\<^sup>*\<^sup>* (runtime_start 0 one_worker 1) y" "resting y" "sh_submitted (sy_shared y) = 1"
    "sh_completed (sy_shared y) = 1" "sh_queue (sy_shared y) = []"
proof -
  from demo_end_eval obtain y where y: "demo_end = Some y" "sh_queue (sy_shared y) = []" "sh_submitted (sy_shared y) = 1"
      "sh_completed (sy_shared y) = 1" "sy_threads y = [[WorkerPoll], []]"
    by auto
  have "sys_step\<^sup>*\<^sup>* (runtime_start 0 one_worker 1) y" using y(1) unfolding demo_end_def by (rule do_moves_reach)
  moreover have "resting y" using y(2,5) by (simp add: resting_def pending_def)
  ultimately show thesis using y(3,4,2) by (rule that)
qed

theorem runtime_jobs_safe_witness:
  "\<exists>y :: nat system. sys_step\<^sup>*\<^sup>* (runtime_start 0 one_worker 1) y \<and> sh_submitted (sy_shared y) = 1
    \<and> owner_jobs 7 (sy_shared y) = card (owner_set (sy_shared y) 7)
    \<and> length (sh_queue (sy_shared y)) \<le> rc_max_queue (sh_config (sy_shared y))"
proof -
  obtain y :: "nat system" where y: "sys_step\<^sup>*\<^sup>* (runtime_start 0 one_worker 1) y" "sh_submitted (sy_shared y) = 1"
    using demo_run by metis
  with runtime_jobs_safe [OF y(1)] show ?thesis by metis
qed

theorem runtime_rests_complete_witness:
  "\<exists>y :: nat system. sys_step\<^sup>*\<^sup>* (runtime_start 0 one_worker 1) y \<and> resting y \<and> sh_completed (sy_shared y) = 1
    \<and> sh_active (sy_shared y) = {} \<and> sh_running (sy_shared y) = 0
    \<and> sh_submitted (sy_shared y) = sh_completed (sy_shared y) + sh_failed (sy_shared y) + sh_cancelled (sy_shared y)"
proof -
  obtain y :: "nat system" where y: "sys_step\<^sup>*\<^sup>* (runtime_start 0 one_worker 1) y" "resting y" "sh_completed (sy_shared y) = 1"
    using demo_run by metis
  with runtime_rests_complete [OF y(1,2)] show ?thesis by metis
qed

text \<open>After the submission and before its notification, a job is queued and the notification is pending.\<close>

definition demo_queued :: "nat system option" where
  "demo_queued = do_moves [Call 1 demo_submit, Exec 1 plain_choice] (runtime_start 0 one_worker 1)"

lemma demo_queued_eval:
  "map_option (\<lambda>y. (sh_queue (sy_shared y), sh_shutting_down (sy_shared y))) demo_queued = Some ([1], False)"
  by code_simp

theorem runtime_no_lost_wakeup_witness:
  "\<exists>y :: nat system. sys_step\<^sup>*\<^sup>* (runtime_start 0 one_worker 1) y \<and> sh_queue (sy_shared y) = [1]
    \<and> (NotifyOne \<in># pending y \<or> WorkerPoll \<in># pending y
      \<or> (\<exists>w. WorkerWait w \<in># pending y \<and> w \<notin> sh_waiting (sy_shared y)))"
proof -
  from demo_queued_eval obtain y where y: "demo_queued = Some y" "sh_queue (sy_shared y) = [1]" by auto
  have reach: "sys_step\<^sup>*\<^sup>* (runtime_start 0 one_worker 1) y" using y(1) unfolding demo_queued_def by (rule do_moves_reach)
  from runtime_no_lost_wakeup [OF this] y(2) reach show ?thesis by (intro exI [of _ y]) simp
qed

end
