(* ===== verification/CommitLog.thy ===== *)
theory CommitLog
  imports Ancestry TreeWalk "HOL-Library.Product_Lexorder" "HOL-Library.Multiset"
begin

text \<open>
  Commit logs (\<open>log.rs\<close>): the byte-level reading of commit headers, the three commit
  walks, and the paginated query over them. Times are 64-bit integers of the source as
  \<open>int\<close>; sequence and discovery numbers keep their width. The library's binary heap is a
  list from which the greatest entry is taken, and its hash map of nodes an association list in
  the order of insertion; no result depends on their iteration order. The two loops run with a
  bound on their steps, and \<open>None\<close> marks a bound that was too small.
\<close>

section \<open>Options and results\<close>

definition SUBJECT_BYTES :: nat where "SUBJECT_BYTES = 1024"
definition MESSAGE_BYTES :: nat where "MESSAGE_BYTES = 64 * 1024"

datatype log_order = Chronological | Topological | DateOrder

record log_options =
  lo_order :: log_order
  lo_first_parent :: bool
  lo_since :: "int option"
  lo_until :: "int option"
  lo_limit :: nat
  lo_cursor :: "bytes option"

definition default_log_options :: log_options where
  "default_log_options = \<lparr>lo_order = Chronological, lo_first_parent = False, lo_since = None, lo_until = None,
     lo_limit = 1000, lo_cursor = None\<rparr>"

record log_identity =
  li_name :: bytes
  li_email :: bytes
  li_time :: int
  li_tz :: bytes
  li_tz_offset_minutes :: "int option"

record log_commit =
  lc_id :: oid
  lc_parents :: "oid list"
  lc_tree_id :: oid
  lc_author :: log_identity
  lc_committer :: log_identity
  lc_subject :: bytes
  lc_subject_truncated :: bool
  lc_message_raw :: bytes
  lc_message_truncated :: bool
  lc_signature_headers :: "bytes list"
  lc_encoding :: "bytes option"

record log_page =
  lp_commits :: "log_commit list"
  lp_next_cursor :: "bytes option"
  lp_truncated :: bool
  lp_stats :: query_stats

section \<open>Reading a commit's bytes\<close>

definition malformed_for :: "oid \<Rightarrow> string \<Rightarrow> error" where
  "malformed_for x message = with_oid x (err_new MalformedObject message)"

text \<open>\<open>windows(2).position(|w| w == b"\n\n")\<close>.\<close>

fun blank_line :: "bytes \<Rightarrow> nat option" where
  "blank_line (a # b # r) = (if a = 10 \<and> b = 10 then Some 0 else map_option Suc (blank_line (b # r)))"
| "blank_line _ = None"

definition split_commit :: "bytes \<Rightarrow> error + bytes \<times> bytes" where
  "split_commit payload =
    rbind (ok_or (err_new MalformedObject ''commit payload has no message separator'') (blank_line payload)) (\<lambda>separator.
    Inr (take separator payload, drop (separator + 2) payload))"

definition split_header :: "bytes \<Rightarrow> error + bytes \<times> bytes" where
  "split_header line =
    rbind (ok_or (err_new MalformedObject ''commit header is malformed'') (position (\<lambda>b. b = 32) line)) (\<lambda>separator.
    if separator = 0 \<or> length line \<le> separator + 1 then Inl (err_new MalformedObject ''commit header is malformed'')
    else Inr (take separator line, drop (separator + 1) line))"

definition identity_time :: "bytes \<Rightarrow> error + int" where
  "identity_time raw =
    rbind (ok_or (err_new MalformedObject ''commit identity is malformed'') (rposition (\<lambda>b. b = 62) raw)) (\<lambda>right.
    rbind (ok_or (err_new MalformedObject ''commit identity is missing its timestamp'')
      (strip_prefix [32] (drop (right + 1) raw))) (\<lambda>suffix.
    let value = hd (split_on 32 suffix) in
    ok_or (err_new MalformedObject ''commit identity timestamp is malformed'')
      (if value \<noteq> [] \<and> utf8_valid value then parse_i64 value else None)))"

definition parse_oid :: "bytes \<Rightarrow> hash_kind \<Rightarrow> string \<Rightarrow> oid \<Rightarrow> error + oid" where
  "parse_oid raw kind field obj =
    (if \<not> utf8_valid raw then Inl (malformed_for obj field)
     else case parse_hex (bytes_str raw) of
       Inl _ \<Rightarrow> Inl (malformed_for obj field)
     | Inr x \<Rightarrow> if oid_kind x \<noteq> kind then Inl (malformed_for obj field) else Inr x)"

definition map_err :: "('e \<Rightarrow> 'e) \<Rightarrow> 'e + 'a \<Rightarrow> 'e + 'a" where
  "map_err f r = (case r of Inl e \<Rightarrow> Inl (f e) | Inr x \<Rightarrow> Inr x)"

text \<open>The loop over the header lines in \<open>read_meta\<close>.\<close>

fun meta_lines :: "oid \<Rightarrow> bytes list \<Rightarrow> oid list \<Rightarrow> int option \<Rightarrow> error + oid list \<times> int option" where
  "meta_lines x [] parents time = Inr (parents, time)"
| "meta_lines x (line # rest) parents time =
    (if prefix [32] line then meta_lines x rest parents time
     else rbind (map_err (with_oid_if_none x) (split_header line)) (\<lambda>(name, val).
       if name = ascii ''parent'' then
         rbind (parse_oid val (oid_kind x) ''commit parent'' x) (\<lambda>p. meta_lines x rest (parents @ [p]) time)
       else if name = ascii ''committer'' then
         rbind (map_err (with_oid_if_none x) (identity_time val)) (\<lambda>t. meta_lines x rest parents (Some t))
       else meta_lines x rest parents time))"

record commit_meta =
  cm_parents :: "oid list"
  cm_time :: int

definition meta_from_payload :: "'w odb \<Rightarrow> log_options \<Rightarrow> oid \<Rightarrow> bytes \<Rightarrow> error + commit_meta" where
  "meta_from_payload db opts x payload =
    rbind (map_err (with_oid_if_none x) (split_commit payload)) (\<lambda>(headers, _).
    rbind (meta_lines x (split_on 10 headers) [] None) (\<lambda>(parents, time).
    rbind (ok_or (with_oid x (err_new MalformedObject ''commit payload is missing its committer header'')) time) (\<lambda>time.
    let parents = (if lo_first_parent opts then take 1 parents else parents);
        cut = (case lo_since opts of None \<Rightarrow> False | Some since \<Rightarrow> time < since) \<or> is_shallow db x
    in Inr \<lparr>cm_parents = (if cut then [] else parents), cm_time = time\<rparr>)))"

definition read_payload :: "'w odb \<Rightarrow> oid \<Rightarrow> bool \<Rightarrow> ('w, bytes) op" where
  "read_payload db x is_input =
    sbind (smap_err (with_oid_if_none x) (db_try_find_graph db x)) (\<lambda>found.
    case found of
      None \<Rightarrow> sraise (missing_commit x)
    | Some (kind, payload) \<Rightarrow>
        if kind \<noteq> Commit then
          sraise (with_oid x (err_new (if is_input then NotACommit else MalformedObject)
            (''object '' @ to_hex x @ '' reached by commit traversal is not a commit'')))
        else sreturn payload)"

definition read_meta :: "'w odb \<Rightarrow> log_options \<Rightarrow> oid \<Rightarrow> bool \<Rightarrow> ('w, commit_meta) op" where
  "read_meta db opts x is_input =
    sbind (read_payload db x is_input) (\<lambda>payload. slift (meta_from_payload db opts x payload))"

definition timezone_offset_minutes :: "bytes \<Rightarrow> int option" where
  "timezone_offset_minutes tz =
    (case tz of
       [sign, h1, h2, m1, m2] \<Rightarrow>
         if sign \<noteq> 43 \<and> sign \<noteq> 45 then None
         else if \<not> (\<forall>d \<in> set [h1, h2, m1, m2]. is_digit d) then None
         else
           let hours = (uint h1 - 48) * 10 + (uint h2 - 48); minutes = (uint m1 - 48) * 10 + (uint m2 - 48) in
           if 24 \<le> hours \<or> 60 \<le> minutes then None
           else Some (if sign = 45 then - (hours * 60 + minutes) else hours * 60 + minutes)
     | _ \<Rightarrow> None)"

definition log_identity_of :: "identity \<Rightarrow> log_identity" where
  "log_identity_of i = \<lparr>li_name = id_name i, li_email = id_email i, li_time = id_time i, li_tz = id_tz i,
     li_tz_offset_minutes = timezone_offset_minutes (id_tz i)\<rparr>"

text \<open>What the loop of \<open>decode_log_commit\<close> collects from the header lines.\<close>

record header_fields =
  hf_tree :: "oid option"
  hf_parents :: "oid list"
  hf_author :: "identity option"
  hf_committer :: "identity option"
  hf_signatures :: "bytes list"
  hf_encoding :: "bytes option"

definition header_line :: "oid \<Rightarrow> bytes \<Rightarrow> bytes \<Rightarrow> header_fields \<Rightarrow> error + header_fields" where
  "header_line x name val f =
    (if name = ascii ''tree'' then
       rbind (parse_oid val (oid_kind x) ''commit tree'' x) (\<lambda>t. Inr (f\<lparr>hf_tree := Some t\<rparr>))
     else if name = ascii ''parent'' then
       rbind (parse_oid val (oid_kind x) ''commit parent'' x) (\<lambda>p. Inr (f\<lparr>hf_parents := hf_parents f @ [p]\<rparr>))
     else if name = ascii ''author'' then
       rbind (map_err (with_oid_if_none x) (decode_identity val)) (\<lambda>i. Inr (f\<lparr>hf_author := Some i\<rparr>))
     else if name = ascii ''committer'' then
       rbind (map_err (with_oid_if_none x) (decode_identity val)) (\<lambda>i. Inr (f\<lparr>hf_committer := Some i\<rparr>))
     else if name = ascii ''encoding'' then Inr (f\<lparr>hf_encoding := Some val\<rparr>)
     else if is_signature_header name then Inr (f\<lparr>hf_signatures := hf_signatures f @ [name]\<rparr>)
     else Inr f)"

fun header_lines :: "oid \<Rightarrow> bytes list \<Rightarrow> header_fields \<Rightarrow> error + header_fields" where
  "header_lines x [] f = Inr f"
| "header_lines x (line # rest) f =
    (if prefix [32] line then header_lines x rest f
     else rbind (map_err (with_oid_if_none x) (split_header line)) (\<lambda>(name, val).
       rbind (header_line x name val f) (header_lines x rest)))"

definition no_fields :: header_fields where
  "no_fields = \<lparr>hf_tree = None, hf_parents = [], hf_author = None, hf_committer = None, hf_signatures = [],
     hf_encoding = None\<rparr>"

definition decode_log_commit :: "oid \<Rightarrow> bytes \<Rightarrow> bool \<Rightarrow> error + log_commit" where
  "decode_log_commit x payload shallow =
    rbind (map_err (with_oid_if_none x) (split_commit payload)) (\<lambda>(headers, message).
    let subject_len = (case position (\<lambda>b. b = 10) message of None \<Rightarrow> length message | Some i \<Rightarrow> i) in
    rbind (header_lines x (split_on 10 headers) no_fields) (\<lambda>f.
    rbind (ok_or (malformed_for x ''commit payload is missing its tree'') (hf_tree f)) (\<lambda>tree_id.
    rbind (ok_or (malformed_for x ''commit payload is missing its author'') (hf_author f)) (\<lambda>author.
    rbind (ok_or (malformed_for x ''commit payload is missing its committer'') (hf_committer f)) (\<lambda>committer.
    Inr \<lparr>lc_id = x, lc_parents = (if shallow then [] else hf_parents f), lc_tree_id = tree_id,
         lc_author = log_identity_of author, lc_committer = log_identity_of committer,
         lc_subject = take (min subject_len SUBJECT_BYTES) message,
         lc_subject_truncated = (SUBJECT_BYTES < subject_len),
         lc_message_raw = take (min (length message) MESSAGE_BYTES) message,
         lc_message_truncated = (MESSAGE_BYTES < length message),
         lc_signature_headers = hf_signatures f, lc_encoding = hf_encoding f\<rparr>)))))"

section \<open>Chronological walk\<close>

text \<open>
  The order of the heap's entries (\<open>Ord for TimedCommit\<close> and \<open>TimedOid\<close>): by time, then
  the lower sequence number first. \<open>pop_max\<close> takes the greatest entry.
\<close>

definition heap_less :: "int \<times> u64 \<Rightarrow> int \<times> u64 \<Rightarrow> bool" where
  "heap_less p q \<longleftrightarrow> fst p < fst q \<or> (fst p = fst q \<and> snd q < snd p)"

fun pop_max :: "('a \<Rightarrow> int \<times> u64) \<Rightarrow> 'a list \<Rightarrow> ('a \<times> 'a list) option" where
  "pop_max key [] = None"
| "pop_max key (x # xs) =
    (case pop_max key xs of
       None \<Rightarrow> Some (x, [])
     | Some (y, ys) \<Rightarrow> if heap_less (key x) (key y) then Some (y, x # ys) else Some (x, y # ys))"

record timed_commit =
  tc_id :: oid
  tc_meta :: commit_meta
  tc_sequence :: u64

definition commit_key :: "timed_commit \<Rightarrow> int \<times> u64" where
  "commit_key t = (cm_time (tc_meta t), tc_sequence t)"

record walked_commit =
  wc_id :: oid
  wc_time :: int

definition within_time_bounds :: "int \<Rightarrow> log_options \<Rightarrow> bool" where
  "within_time_bounds time opts \<longleftrightarrow>
    (case lo_since opts of None \<Rightarrow> True | Some since \<Rightarrow> since \<le> time)
    \<and> (case lo_until opts of None \<Rightarrow> True | Some until \<Rightarrow> time \<le> until)"

record chronological_walk =
  cw_queue :: "timed_commit list"
  cw_seen :: "oid set"
  cw_next_sequence :: u64
  cw_pending_error :: "error option"

definition chronological_new :: "'w odb \<Rightarrow> log_options \<Rightarrow> oid \<Rightarrow> ('w, chronological_walk) op" where
  "chronological_new db opts start =
    sbind (read_meta db opts start True) (\<lambda>meta.
    sreturn \<lparr>cw_queue = [\<lparr>tc_id = start, tc_meta = meta, tc_sequence = 0\<rparr>], cw_seen = {start},
             cw_next_sequence = 1, cw_pending_error = None\<rparr>)"

definition push_commit :: "oid \<Rightarrow> commit_meta \<Rightarrow> chronological_walk \<Rightarrow> chronological_walk" where
  "push_commit x meta cw =
    cw\<lparr>cw_queue := \<lparr>tc_id = x, tc_meta = meta, tc_sequence = cw_next_sequence cw\<rparr> # cw_queue cw,
       cw_next_sequence := sat_add (cw_next_sequence cw) 1\<rparr>"

text \<open>The loop over the parents of a walked commit: it ends at the first read that fails.\<close>

fun push_parents :: "'w odb \<Rightarrow> log_options \<Rightarrow> oid list \<Rightarrow> chronological_walk \<Rightarrow> ('w, chronological_walk) op" where
  "push_parents db opts [] cw = sreturn cw"
| "push_parents db opts (p # ps) cw =
    (if p \<in> cw_seen cw then push_parents db opts ps cw
     else let cw1 = cw\<lparr>cw_seen := insert p (cw_seen cw)\<rparr> in
       sbind (sattempt (read_meta db opts p False)) (\<lambda>r.
       case r of
         Inr meta \<Rightarrow> push_parents db opts ps (push_commit p meta cw1)
       | Inl e \<Rightarrow> sreturn (cw1\<lparr>cw_pending_error := Some e\<rparr>)))"

definition chronological_next :: "'w odb \<Rightarrow> log_options \<Rightarrow> bool \<Rightarrow> chronological_walk
    \<Rightarrow> ('w, (error + walked_commit) option \<times> chronological_walk) op" where
  "chronological_next db opts charge_visit cw =
    (case cw_pending_error cw of
       Some e \<Rightarrow> sreturn (Some (Inl e), cw\<lparr>cw_pending_error := None\<rparr>)
     | None \<Rightarrow>
       (case pop_max commit_key (cw_queue cw) of
          None \<Rightarrow> sreturn (None, cw)
        | Some (current, queue) \<Rightarrow>
            sbind (sattempt (on_budget (if charge_visit then charge_object_visit else check))) (\<lambda>r.
            case r of
              Inl e \<Rightarrow> sreturn (Some (Inl e), cw\<lparr>cw_queue := queue\<rparr>)
            | Inr _ \<Rightarrow>
                sbind (push_parents db opts (cm_parents (tc_meta current)) (cw\<lparr>cw_queue := queue\<rparr>)) (\<lambda>cw'.
                sreturn (Some (Inr \<lparr>wc_id = tc_id current, wc_time = cm_time (tc_meta current)\<rparr>), cw')))))"

section \<open>Ordered walks\<close>

record ordered_node =
  on_meta :: commit_meta
  on_discovery :: u64

record timed_oid =
  to_id :: oid
  to_time :: int
  to_sequence :: u64

definition oid_key :: "timed_oid \<Rightarrow> int \<times> u64" where
  "oid_key t = (to_time t, to_sequence t)"

datatype ordered_queue = TopologicalQueue "oid list" | DateQueue "timed_oid list"

record ordered_walk =
  ow_nodes :: "(oid \<times> ordered_node) list"
  ow_child_counts :: "oid \<Rightarrow> nat option"
  ow_queue :: ordered_queue
  ow_next_sequence :: u64
  ow_emitted :: "oid set"
  ow_residue :: "oid list"

definition log_error_order :: "log_order \<Rightarrow> error_order" where
  "log_error_order order = (if order = DateOrder then OrdDate else OrdTopological)"

definition ordered_prepass_error :: "log_order \<Rightarrow> error \<Rightarrow> error" where
  "ordered_prepass_error order e =
    (if err_code e = BudgetExceeded \<and> err_limit e = Some ''max_objects'' then
       with_order (log_error_order order) (with_limit ''max_objects'' (err_new BudgetExceeded
         ('':'' @ order_as_str (log_error_order order)
           @ '' order requires limits.max_objects at or above the reachable commit count'')))
     else e)"

text \<open>The pre-pass: \<open>pending\<close> is popped at its end, and a name with a node is passed over.\<close>

fun prepass :: "nat \<Rightarrow> 'w odb \<Rightarrow> log_options \<Rightarrow> oid \<Rightarrow> oid list \<Rightarrow> (oid \<times> ordered_node) list \<Rightarrow> u64
    \<Rightarrow> ('w, (oid \<times> ordered_node) list option) op" where
  "prepass fuel db opts start pending nodes discovery =
    (if pending = [] then sreturn (Some nodes)
     else (case fuel of
         0 \<Rightarrow> sreturn None
       | Suc fuel' \<Rightarrow>
           let x = last pending; rest = butlast pending in
           if x \<in> fst ` set nodes then prepass fuel' db opts start rest nodes discovery
           else
             sbind (smap_err (ordered_prepass_error (lo_order opts)) (on_budget charge_object_visit)) (\<lambda>_.
             sbind (read_meta db opts x (x = start)) (\<lambda>meta.
             prepass fuel' db opts start (rest @ filter (\<lambda>p. p \<notin> fst ` set nodes) (rev (cm_parents meta)))
               (nodes @ [(x, \<lparr>on_meta = meta, on_discovery = discovery\<rparr>)]) (sat_add discovery 1)))))"

declare prepass.simps [simp del]

definition count_child :: "oid \<Rightarrow> (oid \<Rightarrow> nat option) \<Rightarrow> (oid \<Rightarrow> nat option)" where
  "count_child p counts = (case counts p of None \<Rightarrow> counts | Some n \<Rightarrow> counts(p \<mapsto> n + 1))"

definition child_counts_of :: "(oid \<times> ordered_node) list \<Rightarrow> (oid \<Rightarrow> nat option)" where
  "child_counts_of nodes =
    fold (\<lambda>(_, n). fold count_child (cm_parents (on_meta n))) nodes (map_of (map (\<lambda>(x, _). (x, 0)) nodes))"

definition node_key :: "(oid \<times> ordered_node) list \<Rightarrow> oid \<Rightarrow> int \<times> u64" where
  "node_key nodes x = (let n = the (map_of nodes x) in (cm_time (on_meta n), on_discovery n))"

definition initial_of :: "(oid \<times> ordered_node) list \<Rightarrow> oid list" where
  "initial_of nodes = sort_key (node_key nodes) (filter (\<lambda>x. child_counts_of nodes x = Some 0) (map fst nodes))"

text \<open>\<open>push_ready\<close>; the index \<open>self.nodes[&id]\<close> panics for a name without a node.\<close>

definition no_node :: error where
  "no_node = err_new InternalError ''no node for a ready commit''"

definition no_count :: error where
  "no_count = err_new InternalError ''reachable parents have pre-pass child counts''"

definition push_ready :: "oid \<Rightarrow> ordered_walk \<Rightarrow> error + ordered_walk" where
  "push_ready x ow =
    (case ow_queue ow of
       TopologicalQueue q \<Rightarrow> Inr (ow\<lparr>ow_queue := TopologicalQueue (q @ [x])\<rparr>)
     | DateQueue q \<Rightarrow>
         (case map_of (ow_nodes ow) x of
            None \<Rightarrow> Inl no_node
          | Some n \<Rightarrow> Inr (ow\<lparr>ow_queue := DateQueue (\<lparr>to_id = x, to_time = cm_time (on_meta n),
                to_sequence = ow_next_sequence ow\<rparr> # q), ow_next_sequence := sat_add (ow_next_sequence ow) 1\<rparr>)))"

definition pop_ready :: "ordered_queue \<Rightarrow> (oid \<times> ordered_queue) option" where
  "pop_ready q =
    (case q of
       TopologicalQueue xs \<Rightarrow> if xs = [] then None else Some (last xs, TopologicalQueue (butlast xs))
     | DateQueue ts \<Rightarrow> map_option (\<lambda>(t, ts'). (to_id t, DateQueue ts')) (pop_max oid_key ts))"

fun push_all_ready :: "oid list \<Rightarrow> ordered_walk \<Rightarrow> error + ordered_walk" where
  "push_all_ready [] ow = Inr ow"
| "push_all_ready (x # xs) ow = rbind (push_ready x ow) (push_all_ready xs)"

definition ordered_of_nodes :: "log_options \<Rightarrow> (oid \<times> ordered_node) list \<Rightarrow> error + ordered_walk" where
  "ordered_of_nodes opts nodes =
    (let ow = \<lparr>ow_nodes = nodes, ow_child_counts = child_counts_of nodes, ow_queue = DateQueue [],
               ow_next_sequence = 0, ow_emitted = {}, ow_residue = []\<rparr>;
         initial = initial_of nodes
     in if lo_order opts = Topological then Inr (ow\<lparr>ow_queue := TopologicalQueue initial\<rparr>)
        else push_all_ready (rev initial) ow)"

definition ordered_new :: "nat \<Rightarrow> 'w odb \<Rightarrow> log_options \<Rightarrow> oid \<Rightarrow> ('w, ordered_walk option) op" where
  "ordered_new fuel db opts start =
    sbind (prepass fuel db opts start [start] [] 0) (\<lambda>r.
    case r of
      None \<Rightarrow> sreturn None
    | Some nodes \<Rightarrow> sbind (slift (ordered_of_nodes opts nodes)) (\<lambda>ow. sreturn (Some ow)))"

definition pop_residue :: "ordered_walk \<Rightarrow> oid option \<times> ordered_walk" where
  "pop_residue ow =
    (let residue = (if ow_residue ow = [] \<and> card (ow_emitted ow) < length (ow_nodes ow)
           then sort (filter (\<lambda>x. x \<notin> ow_emitted ow) (map fst (ow_nodes ow))) else ow_residue ow)
     in if residue = [] then (None, ow\<lparr>ow_residue := []\<rparr>)
        else (Some (last residue), ow\<lparr>ow_residue := butlast residue\<rparr>))"

fun release_parents :: "oid list \<Rightarrow> ordered_walk \<Rightarrow> error + ordered_walk" where
  "release_parents [] ow = Inr ow"
| "release_parents (p # ps) ow =
    (case ow_child_counts ow p of
       None \<Rightarrow> Inl no_count
     | Some n \<Rightarrow>
         let ow1 = ow\<lparr>ow_child_counts := (ow_child_counts ow)(p \<mapsto> n - 1)\<rparr> in
         rbind (if n - 1 = 0 then push_ready p ow1 else Inr ow1) (release_parents ps))"

definition next_id :: "ordered_walk \<Rightarrow> (oid \<times> bool) option \<times> ordered_walk" where
  "next_id ow =
    (case pop_ready (ow_queue ow) of
       Some (x, q) \<Rightarrow> (Some (x, False), ow\<lparr>ow_queue := q\<rparr>)
     | None \<Rightarrow> (case pop_residue ow of (x, ow') \<Rightarrow> (map_option (\<lambda>x. (x, True)) x, ow')))"

definition ordered_next :: "ordered_walk \<Rightarrow> (error + walked_commit) option \<times> ordered_walk" where
  "ordered_next ow =
    (case next_id ow of
       (None, ow1) \<Rightarrow> (None, ow1)
     | (Some (x, is_residue), ow1) \<Rightarrow>
         (case map_of (ow_nodes ow1) x of
            None \<Rightarrow> (Some (Inl no_node), ow1)
          | Some n \<Rightarrow>
              let ow2 = ow1\<lparr>ow_emitted := insert x (ow_emitted ow1)\<rparr>;
                  walked = \<lparr>wc_id = x, wc_time = cm_time (on_meta n)\<rparr>
              in if is_residue then (Some (Inr walked), ow2)
                 else (case release_parents (cm_parents (on_meta n)) ow2 of
                     Inl e \<Rightarrow> (Some (Inl e), ow2)
                   | Inr ow3 \<Rightarrow> (Some (Inr walked), ow3))))"

definition ordered_has_matching :: "log_options \<Rightarrow> ordered_walk \<Rightarrow> bool" where
  "ordered_has_matching opts ow \<longleftrightarrow>
    (\<exists>(x, n) \<in> set (ow_nodes ow). x \<notin> ow_emitted ow \<and> within_time_bounds (cm_time (on_meta n)) opts)"

section \<open>A page of the log\<close>

datatype walk = ChronologicalWalk chronological_walk | OrderedWalk ordered_walk

definition walk_new :: "nat \<Rightarrow> 'w odb \<Rightarrow> log_options \<Rightarrow> oid \<Rightarrow> ('w, walk option) op" where
  "walk_new fuel db opts start =
    (if lo_order opts = Chronological then
       sbind (chronological_new db opts start) (\<lambda>cw. sreturn (Some (ChronologicalWalk cw)))
     else sbind (ordered_new fuel db opts start) (\<lambda>r. sreturn (map_option OrderedWalk r)))"

fun walk_next :: "'w odb \<Rightarrow> log_options \<Rightarrow> bool \<Rightarrow> walk \<Rightarrow> ('w, (error + walked_commit) option \<times> walk) op" where
  "walk_next db opts charge_visit (ChronologicalWalk cw) =
    sbind (chronological_next db opts charge_visit cw) (\<lambda>(r, cw'). sreturn (r, ChronologicalWalk cw'))"
| "walk_next db opts charge_visit (OrderedWalk ow) =
    (case ordered_next ow of (r, ow') \<Rightarrow> sreturn (r, OrderedWalk ow'))"

fun take_pending_error :: "walk \<Rightarrow> error option \<times> walk" where
  "take_pending_error (ChronologicalWalk cw) = (cw_pending_error cw, ChronologicalWalk (cw\<lparr>cw_pending_error := None\<rparr>))"
| "take_pending_error (OrderedWalk ow) = (None, OrderedWalk ow)"

fun has_matching :: "log_options \<Rightarrow> walk \<Rightarrow> bool" where
  "has_matching opts (ChronologicalWalk cw) \<longleftrightarrow> cw_pending_error cw \<noteq> None
    \<or> (\<exists>t \<in> set (cw_queue cw). within_time_bounds (cm_time (tc_meta t)) opts)"
| "has_matching opts (OrderedWalk ow) = ordered_has_matching opts ow"

definition push_optional_i64 :: "int option \<Rightarrow> bytes" where
  "push_optional_i64 v = (case v of Some v \<Rightarrow> [1] @ le_bytes 8 (nat (v mod 2 ^ 64)) | None \<Rightarrow> [0])"

definition log_fingerprint :: "log_options \<Rightarrow> u64" where
  "log_fingerprint opts = fnv1a_64 (ascii ''log-v1'' @ [0]
    @ [case lo_order opts of Chronological \<Rightarrow> 0 | Topological \<Rightarrow> 1 | DateOrder \<Rightarrow> 2]
    @ [if lo_first_parent opts then 1 else 0]
    @ push_optional_i64 (lo_since opts) @ push_optional_i64 (lo_until opts))"

definition truncatable :: "error \<Rightarrow> bool" where
  "truncatable e \<longleftrightarrow> err_code e = BudgetExceeded
    \<and> \<not> (err_limit e = Some ''max_provider_requests'' \<or> err_limit e = Some ''max_provider_bytes'')"

definition stop_name :: "error \<Rightarrow> string" where
  "stop_name e = (case err_limit e of Some l \<Rightarrow> l | None \<Rightarrow> ''budget'')"

definition decode_resume :: "snapshot \<Rightarrow> log_options \<Rightarrow> bytes \<Rightarrow> error + oid" where
  "decode_resume snap opts bs =
    rbind (decode bs \<lparr>exp_hash_kind = oid_kind (commit_oid snap), exp_snapshot_digest = as_bytes (commit_oid snap),
             exp_operation_tag = OPERATION_LOG, exp_option_fingerprint = log_fingerprint opts\<rparr>) (\<lambda>c.
    if cur_generation c \<noteq> [] then Inl (invalid_cursor ''generation check failed for this object store'')
    else map_err (\<lambda>_. invalid_cursor ''position check failed: commit digest has the wrong length'')
           (oid_new (oid_kind (commit_oid snap)) (cur_position c)))"

text \<open>
  The loop of \<open>log\<close>. Its result is whether the cursor's commit was met, the commits
  collected, and what stopped the page early.
\<close>

type_synonym log_run = "bool \<times> log_commit list \<times> string option"

definition stop_or_fail :: "bool \<Rightarrow> log_commit list \<Rightarrow> error \<Rightarrow> ('w, log_run option) op" where
  "stop_or_fail found commits e =
    (if truncatable e \<and> commits \<noteq> [] then sreturn (Some (found, commits, Some (stop_name e))) else sraise e)"

text \<open>The part of a turn that shows a commit; \<open>go_on\<close> is the next turn.\<close>

definition show_commit :: "'w odb \<Rightarrow> log_options \<Rightarrow> (log_commit list \<Rightarrow> walk \<Rightarrow> ('w, log_run option) op)
    \<Rightarrow> log_commit list \<Rightarrow> walked_commit \<Rightarrow> walk \<Rightarrow> ('w, log_run option) op" where
  "show_commit db opts go_on commits walked walk1 =
    sbind (sattempt (read_payload db (wc_id walked) False)) (\<lambda>p.
    case p of
      Inl e \<Rightarrow> stop_or_fail True commits e
    | Inr payload \<Rightarrow>
        sbind (slift (decode_log_commit (wc_id walked) payload (is_shallow db (wc_id walked)))) (\<lambda>c.
        let commits1 = commits @ [c] in
        (case take_pending_error walk1 of
           (Some e, _) \<Rightarrow> stop_or_fail True commits1 e
         | (None, walk2) \<Rightarrow>
             if length commits1 = lo_limit opts \<and> has_matching opts walk2
             then sreturn (Some (True, commits1, Some ''limit''))
             else go_on commits1 walk2)))"

definition log_turn :: "'w odb \<Rightarrow> log_options \<Rightarrow> oid option \<Rightarrow> (bool \<Rightarrow> log_commit list \<Rightarrow> walk \<Rightarrow> ('w, log_run option) op)
    \<Rightarrow> bool \<Rightarrow> log_commit list \<Rightarrow> (error + walked_commit) option \<times> walk \<Rightarrow> ('w, log_run option) op" where
  "log_turn db opts resume go_on found commits step =
    (case step of
       (None, _) \<Rightarrow> sreturn (Some (found, commits, None))
     | (Some (Inl e), _) \<Rightarrow> stop_or_fail found commits e
     | (Some (Inr walked), walk1) \<Rightarrow>
         if \<not> found then go_on (Some (wc_id walked) = resume) commits walk1
         else if \<not> within_time_bounds (wc_time walked) opts then go_on found commits walk1
         else if length commits = lo_limit opts then sreturn (Some (found, commits, Some ''limit''))
         else show_commit db opts (go_on True) commits walked walk1)"

fun log_loop :: "nat \<Rightarrow> 'w odb \<Rightarrow> log_options \<Rightarrow> oid option \<Rightarrow> bool \<Rightarrow> log_commit list \<Rightarrow> walk
    \<Rightarrow> ('w, log_run option) op" where
  "log_loop 0 db opts resume found commits walk = sreturn None"
| "log_loop (Suc fuel) db opts resume found commits walk =
    sbind (on_budget check) (\<lambda>_.
    sbind (walk_next db opts found walk) (\<lambda>step.
    log_turn db opts resume (\<lambda>found1 commits1 walk1. log_loop fuel db opts resume found1 commits1 walk1) found commits step))"

definition log_cursor :: "snapshot \<Rightarrow> log_options \<Rightarrow> oid \<Rightarrow> cursor" where
  "log_cursor snap opts x = \<lparr>cur_hash_kind = oid_kind (commit_oid snap),
     cur_snapshot_digest = as_bytes (commit_oid snap), cur_operation_tag = OPERATION_LOG,
     cur_option_fingerprint = log_fingerprint opts, cur_generation = [], cur_position = as_bytes x\<rparr>"

definition log_page_of :: "'w odb \<Rightarrow> snapshot \<Rightarrow> log_options \<Rightarrow> log_run \<Rightarrow> 'w \<times> budget \<Rightarrow> error + log_page" where
  "log_page_of db snap opts run s =
    (case run of (found, commits, stopped_by) \<Rightarrow>
     if \<not> found then Inl (invalid_cursor ''position check failed: commit is not in this traversal'')
     else
       let truncated = (stopped_by \<noteq> None) in
       if truncated \<and> commits = [] then
         Inl (with_limit (the stopped_by)
           (err_new BudgetExceeded ''budget exhausted before any commit-log pagination progress''))
       else rbind
         (if truncated then
            let encoded = encode (log_cursor snap opts (lc_id (last commits))) in
            if MAX_CURSOR_BYTES < length encoded
            then Inl (err_new ResultTooLarge ''commit log cursor exceeds the cursor size limit'')
            else Inr (Some encoded)
          else Inr None) (\<lambda>next_cursor.
       Inr \<lparr>lp_commits = commits, lp_next_cursor = next_cursor, lp_truncated = truncated,
            lp_stats = query_stats_of db (of_nat (length commits)) stopped_by s\<rparr>))"

definition resume_commit :: "snapshot \<Rightarrow> log_options \<Rightarrow> error + oid option" where
  "resume_commit snap opts = (case lo_cursor opts of
     None \<Rightarrow> Inr None
   | Some bs \<Rightarrow> rbind (decode_resume snap opts bs) (\<lambda>x. Inr (Some x)))"

definition commit_log :: "nat \<Rightarrow> 'w odb \<Rightarrow> snapshot \<Rightarrow> log_options \<Rightarrow> ('w, log_page option) op" where
  "commit_log fuel db snap opts =
    sbind (slift (ensure_sha1 db [commit_oid snap, tree_oid snap])) (\<lambda>_.
    if lo_limit opts = 0 then sraise (err_new InvalidArgument ''commit log page limit must be greater than zero'')
    else sbind (on_budget check) (\<lambda>_.
    sbind (slift (resume_commit snap opts)) (\<lambda>resume.
    sbind (walk_new fuel db opts (commit_oid snap)) (\<lambda>w.
    case w of
      None \<Rightarrow> sreturn None
    | Some walk \<Rightarrow>
        sbind (log_loop fuel db opts resume (resume = None) [] walk) (\<lambda>r s.
        case r of
          None \<Rightarrow> (Inr None, s)
        | Some run \<Rightarrow> (rbind (log_page_of db snap opts run s) (\<lambda>p. Inr (Some p)), s))))))"

end
