(* ===== verification/LogWalks.thy ===== *)
theory LogWalks
  imports CommitLog
begin

text \<open>
  The walks of the commit log as sequences of commits. The laws of the ready queues and of a
  walk are stated as locales; the chronological and the two ordered walks are shown to meet
  them, so that each walk visits every reachable commit exactly once, and the ordered ones a
  commit only after all its children.
\<close>

section \<open>Queues of ready commits\<close>

locale work_queue =
  fixes pop :: "'q \<Rightarrow> ('x \<times> 'q) option" and items :: "'q \<Rightarrow> 'x multiset"
  assumes pop_None: "pop q = None \<longleftrightarrow> items q = {#}"
    and pop_Some: "pop q = Some (x, q') \<Longrightarrow> items q = add_mset x (items q')"
begin

lemma pop_set:
  assumes "items q = mset_set A" and "finite A" and "pop q = Some (x, q')"
  shows "x \<in> A" and "items q' = mset_set (A - {x})"
proof -
  from pop_Some [OF assms(3)] assms(1) have eq: "mset_set A = add_mset x (items q')" by simp
  then have "x \<in># mset_set A" by simp
  then show "x \<in> A" using assms(2) by simp
  with assms(2) have "mset_set A = add_mset x (mset_set (A - {x}))" by (rule mset_set.remove)
  with eq show "items q' = mset_set (A - {x})" by simp
qed

end

locale greatest_first = work_queue +
  fixes before :: "'x \<Rightarrow> 'x \<Rightarrow> bool"
  assumes pop_greatest: "pop q = Some (x, q') \<Longrightarrow> y \<in># items q' \<Longrightarrow> \<not> before x y"

lemma heap_less_trans: "heap_less p q \<Longrightarrow> heap_less q r \<Longrightarrow> heap_less p r"
  by (auto simp: heap_less_def)

lemma heap_less_total: "\<not> heap_less p q \<Longrightarrow> \<not> heap_less q r \<Longrightarrow> \<not> heap_less p r"
  by (auto simp: heap_less_def)

lemma heap_less_asym: "heap_less p q \<Longrightarrow> \<not> heap_less q p"
  by (auto simp: heap_less_def)

lemma pop_max_None [simp]: "pop_max key xs = None \<longleftrightarrow> xs = []"
  by (cases xs) (auto split: option.splits)

lemma pop_max_mset: "pop_max key xs = Some (x, ys) \<Longrightarrow> mset xs = add_mset x (mset ys)"
  by (induction xs arbitrary: x ys) (auto split: option.splits if_splits)

lemma pop_max_greatest: "pop_max key xs = Some (x, ys) \<Longrightarrow> y \<in> set ys \<Longrightarrow> \<not> heap_less (key x) (key y)"
proof (induction xs arbitrary: x ys y)
  case (Cons a xs)
  show ?case
  proof (cases "pop_max key xs")
    case None
    with Cons.prems show ?thesis by auto
  next
    case (Some p)
    then obtain z zs where z: "pop_max key xs = Some (z, zs)" by (cases p) auto
    note IH = Cons.IH [OF z]
    show ?thesis
    proof (cases "heap_less (key a) (key z)")
      case True
      with Cons.prems z have "x = z" "ys = a # zs" by auto
      with Cons.prems(2) IH heap_less_asym [OF True] show ?thesis by auto
    next
      case False
      with Cons.prems z have "x = a" "ys = z # zs" by auto
      with Cons.prems(2) IH False heap_less_total [OF False, of "key y"] show ?thesis by auto
    qed
  qed
qed simp

interpretation heap: greatest_first "pop_max key" mset "\<lambda>x y. heap_less (key x) (key y)" for key
  by unfold_locales (auto simp: pop_max_mset dest: pop_max_greatest)

fun ready_ids :: "ordered_queue \<Rightarrow> oid multiset" where
  "ready_ids (TopologicalQueue xs) = mset xs"
| "ready_ids (DateQueue ts) = image_mset to_id (mset ts)"

interpretation ready: work_queue pop_ready ready_ids
proof unfold_locales
  show "pop_ready q = None \<longleftrightarrow> ready_ids q = {#}" for q
    by (cases q) (auto simp: pop_ready_def)
  show "ready_ids q = add_mset x (ready_ids q')" if "pop_ready q = Some (x, q')" for q x q'
  proof (cases q)
    case (TopologicalQueue xs)
    with that show ?thesis
      by (cases xs rule: rev_cases) (auto simp: pop_ready_def)
  next
    case (DateQueue ts)
    with that obtain t ts' where "pop_max oid_key ts = Some (t, ts')" "x = to_id t" "q' = DateQueue ts'"
      by (auto simp: pop_ready_def)
    with DateQueue heap.pop_Some [of oid_key ts t ts'] show ?thesis by simp
  qed
qed

section \<open>What a walk promises\<close>

inductive walks :: "('q \<Rightarrow> (walked_commit \<times> 'q) option) \<Rightarrow> 'q \<Rightarrow> walked_commit list \<Rightarrow> bool" for step where
  walks_done: "step q = None \<Longrightarrow> walks step q []"
| walks_step: "step q = Some (v, q') \<Longrightarrow> walks step q' vs \<Longrightarrow> walks step q (v # vs)"

inductive_cases walks_NilE: "walks step q []"
inductive_cases walks_ConsE: "walks step q (v # vs)"
inductive_simps walks_simps: "walks step q vs"

lemma walks_unique: "walks step q vs \<Longrightarrow> walks step q us \<Longrightarrow> vs = us"
proof (induction arbitrary: us rule: walks.induct)
  case (walks_done q)
  then show ?case by (auto elim: walks.cases)
next
  case (walks_step q v q' vs)
  from walks_step.prems walks_step.hyps(1) obtain us' where "us = v # us'" "walks step q' us'"
    by (cases rule: walks.cases) auto
  with walks_step.IH show ?case by simp
qed

text \<open>
  \<open>inv D q\<close>: from the state \<open>q\<close> the commits of \<open>universe\<close> outside \<open>D\<close> are
  still to be walked.
\<close>

locale walk_order =
  fixes step :: "'q \<Rightarrow> (walked_commit \<times> 'q) option" and inv :: "oid set \<Rightarrow> 'q \<Rightarrow> bool"
    and "universe" :: "oid set" and time :: "oid \<Rightarrow> int"
  assumes step_some: "inv D q \<Longrightarrow> step q = Some (v, q') \<Longrightarrow>
      wc_id v \<in> universe - D \<and> wc_time v = time (wc_id v) \<and> inv (insert (wc_id v) D) q'"
    and step_none: "inv D q \<Longrightarrow> step q = None \<Longrightarrow> universe \<subseteq> D"
begin

lemma walks_all:
  assumes "walks step q vs" and "inv D q"
  shows "distinct (map wc_id vs) \<and> wc_id ` set vs = universe - D \<and> (\<forall>v \<in> set vs. wc_time v = time (wc_id v))"
  using assms
proof (induction arbitrary: D rule: walks.induct)
  case (walks_done q)
  with step_none show ?case by auto
next
  case (walks_step q v q' vs)
  note v = step_some [OF walks_step.prems walks_step.hyps(1)]
  with walks_step.IH [of "insert (wc_id v) D"] show ?case by auto
qed

lemma walks_exists:
  assumes "finite universe" and "inv D q"
  shows "\<exists>vs. walks step q vs"
  using assms(2)
proof (induction "card (universe - D)" arbitrary: D q rule: less_induct)
  case less
  show ?case
  proof (cases "step q")
    case None
    then have "walks step q []" by (rule walks_done)
    then show ?thesis ..
  next
    case (Some p)
    then obtain v q' where step: "step q = Some (v, q')" by (cases p) auto
    note v = step_some [OF less.prems step]
    then have "card (universe - insert (wc_id v) D) < card (universe - D)"
      using assms(1) by (intro psubset_card_mono) auto
    from less.hyps [OF this] v obtain vs where "walks step q' vs" by blast
    with step have "walks step q (v # vs)" by (rule walks_step)
    then show ?thesis ..
  qed
qed

end

locale topological_walk = walk_order +
  fixes rel :: "(oid \<times> oid) set"
  assumes children_first: "inv D q \<Longrightarrow> step q = Some (v, q') \<Longrightarrow> (x, wc_id v) \<in> rel \<Longrightarrow> x \<in> universe \<Longrightarrow> x \<in> D"
begin

lemma walks_ordered:
  assumes "walks step q vs" and "inv D q"
  shows "sorted_wrt (\<lambda>u v. (wc_id v, wc_id u) \<notin> rel) vs"
  using assms
proof (induction arbitrary: D rule: walks.induct)
  case (walks_step q v q' vs)
  note v = step_some [OF walks_step.prems walks_step.hyps(1)]
  with walks_all [OF walks_step.hyps(2), of "insert (wc_id v) D"]
  have "wc_id ` set vs = universe - insert (wc_id v) D" by simp
  then have "u \<in> set vs \<Longrightarrow> wc_id u \<in> universe - insert (wc_id v) D" for u by blast
  with children_first [OF walks_step.prems walks_step.hyps(1)] walks_step.IH [of "insert (wc_id v) D"] v
  show ?case by auto
qed simp

end

section \<open>The graph of commits\<close>

text \<open>
  What \<open>read_meta\<close> reads from fixed contents. A commit that cannot be read has no parents
  here; a walk that meets one fails instead of using this value.
\<close>

definition meta_at :: "'w odb \<Rightarrow> log_options \<Rightarrow> (oid \<Rightarrow> object_read) \<Rightarrow> oid \<Rightarrow> commit_meta" where
  "meta_at db opts m x =
    (case m x of
       Some (Commit, payload) \<Rightarrow>
         (case meta_from_payload db opts x payload of Inr meta \<Rightarrow> meta | Inl _ \<Rightarrow> \<lparr>cm_parents = [], cm_time = 0\<rparr>)
     | _ \<Rightarrow> \<lparr>cm_parents = [], cm_time = 0\<rparr>)"

type_synonym graph = "oid \<Rightarrow> commit_meta"

definition history_rel :: "graph \<Rightarrow> (oid \<times> oid) set" where
  "history_rel N = {(x, y). y \<in> set (cm_parents (N x))}"

definition log_reach :: "graph \<Rightarrow> oid \<Rightarrow> oid set" where
  "log_reach N start = (history_rel N)\<^sup>* `` {start}"

lemma log_reach_start [simp]: "start \<in> log_reach N start"
  by (simp add: log_reach_def)

lemma log_reach_parent: "x \<in> log_reach N start \<Longrightarrow> p \<in> set (cm_parents (N x)) \<Longrightarrow> p \<in> log_reach N start"
  by (auto simp: log_reach_def history_rel_def intro: rtrancl.rtrancl_into_rtrancl)

lemma log_reach_least:
  assumes "start \<in> A" and "\<And>x. x \<in> A \<Longrightarrow> set (cm_parents (N x)) \<subseteq> A"
  shows "log_reach N start \<subseteq> A"
proof
  fix y
  assume "y \<in> log_reach N start"
  then have "(start, y) \<in> (history_rel N)\<^sup>*" by (simp add: log_reach_def)
  then show "y \<in> A" by induction (use assms in \<open>auto simp: history_rel_def\<close>)
qed

section \<open>The chronological walk\<close>

fun push_known :: "graph \<Rightarrow> oid list \<Rightarrow> chronological_walk \<Rightarrow> chronological_walk" where
  "push_known N [] cw = cw"
| "push_known N (p # ps) cw =
    (if p \<in> cw_seen cw then push_known N ps cw
     else push_known N ps (push_commit p (N p) (cw\<lparr>cw_seen := insert p (cw_seen cw)\<rparr>)))"

definition walked_of :: "timed_commit \<Rightarrow> walked_commit" where
  "walked_of t = \<lparr>wc_id = tc_id t, wc_time = cm_time (tc_meta t)\<rparr>"

definition chron_step :: "graph \<Rightarrow> chronological_walk \<Rightarrow> (walked_commit \<times> chronological_walk) option" where
  "chron_step N cw =
    (case pop_max commit_key (cw_queue cw) of
       None \<Rightarrow> None
     | Some (t, q) \<Rightarrow> Some (walked_of t, push_known N (cm_parents (tc_meta t)) (cw\<lparr>cw_queue := q\<rparr>)))"

definition chron_inv :: "graph \<Rightarrow> oid \<Rightarrow> oid set \<Rightarrow> chronological_walk \<Rightarrow> bool" where
  "chron_inv N start D cw \<longleftrightarrow> cw_pending_error cw = None
    \<and> start \<in> cw_seen cw \<and> cw_seen cw \<subseteq> log_reach N start
    \<and> distinct (map tc_id (cw_queue cw)) \<and> tc_id ` set (cw_queue cw) = cw_seen cw - D \<and> D \<subseteq> cw_seen cw
    \<and> (\<forall>t \<in> set (cw_queue cw). tc_meta t = N (tc_id t))
    \<and> (\<forall>x \<in> D. set (cm_parents (N x)) \<subseteq> cw_seen cw)"

lemma push_known_inv:
  assumes "D \<subseteq> cw_seen cw" and "tc_id ` set (cw_queue cw) = cw_seen cw - D" and "distinct (map tc_id (cw_queue cw))"
    and "\<forall>t \<in> set (cw_queue cw). tc_meta t = N (tc_id t)"
  shows "cw_seen (push_known N ps cw) = cw_seen cw \<union> set ps
    \<and> tc_id ` set (cw_queue (push_known N ps cw)) = cw_seen cw \<union> set ps - D
    \<and> distinct (map tc_id (cw_queue (push_known N ps cw)))
    \<and> (\<forall>t \<in> set (cw_queue (push_known N ps cw)). tc_meta t = N (tc_id t))
    \<and> cw_pending_error (push_known N ps cw) = cw_pending_error cw"
  using assms
proof (induction ps arbitrary: cw)
  case (Cons p ps)
  show ?case
  proof (cases "p \<in> cw_seen cw")
    case True
    then have "push_known N (p # ps) cw = push_known N ps cw" "cw_seen cw \<union> set (p # ps) = cw_seen cw \<union> set ps" by auto
    with Cons.IH [OF Cons.prems] show ?thesis by presburger
  next
    case False
    let ?cw = "push_commit p (N p) (cw\<lparr>cw_seen := insert p (cw_seen cw)\<rparr>)"
    have queue: "cw_seen ?cw = insert p (cw_seen cw)" "cw_pending_error ?cw = cw_pending_error cw"
      "map tc_id (cw_queue ?cw) = p # map tc_id (cw_queue cw)"
      "set (cw_queue ?cw) = insert \<lparr>tc_id = p, tc_meta = N p, tc_sequence = cw_next_sequence cw\<rparr> (set (cw_queue cw))"
      by (simp_all add: push_commit_def)
    have "p \<notin> tc_id ` set (cw_queue cw)" "p \<notin> D" using Cons.prems False by auto
    then have *: "D \<subseteq> cw_seen ?cw" "tc_id ` set (cw_queue ?cw) = cw_seen ?cw - D" "distinct (map tc_id (cw_queue ?cw))"
      "\<forall>t \<in> set (cw_queue ?cw). tc_meta t = N (tc_id t)"
      unfolding queue using Cons.prems by (blast, simp add: insert_Diff_if, simp, simp)
    have "push_known N (p # ps) cw = push_known N ps ?cw" using False by simp
    with Cons.IH [OF *] show ?thesis unfolding queue(1,2) by (metis Un_insert_left Un_insert_right list.simps(15))
  qed
qed auto

lemma chron_step_some:
  assumes inv: "chron_inv N start D cw" and step: "chron_step N cw = Some (v, cw')"
  shows "wc_id v \<in> log_reach N start - D \<and> wc_time v = cm_time (N (wc_id v)) \<and> chron_inv N start (insert (wc_id v) D) cw'"
proof -
  from step obtain t q where pop: "pop_max commit_key (cw_queue cw) = Some (t, q)"
    and v: "v = walked_of t" and cw': "cw' = push_known N (cm_parents (tc_meta t)) (cw\<lparr>cw_queue := q\<rparr>)"
    by (auto simp: chron_step_def split: option.splits)
  have ms: "mset (cw_queue cw) = add_mset t (mset q)" by (rule heap.pop_Some [OF pop])
  then have sets: "set (cw_queue cw) = insert t (set q)" by (metis set_mset_mset set_mset_add_mset_insert)
  have "mset (map tc_id (cw_queue cw)) = mset (tc_id t # map tc_id q)" using ms by simp
  then have dist: "distinct (tc_id t # map tc_id q)"
    using inv by (metis chron_inv_def mset_eq_imp_distinct_iff)
  let ?D = "insert (tc_id t) D" and ?ps = "cm_parents (N (tc_id t))"
  have meta: "tc_meta t = N (tc_id t)" using inv sets by (auto simp: chron_inv_def)
  have x: "tc_id t \<in> cw_seen cw" "tc_id t \<notin> D" using inv sets by (auto simp: chron_inv_def)
  have "?D \<subseteq> cw_seen cw" "tc_id ` set q = cw_seen cw - ?D"
    using inv dist x by (simp_all add: chron_inv_def sets) (metis Diff_insert Diff_insert_absorb)
  with push_known_inv [of ?D "cw\<lparr>cw_queue := q\<rparr>" N ?ps] dist inv sets
  have push: "cw_seen cw' = cw_seen cw \<union> set ?ps" "tc_id ` set (cw_queue cw') = cw_seen cw' - ?D"
    "distinct (map tc_id (cw_queue cw'))" "\<forall>t \<in> set (cw_queue cw'). tc_meta t = N (tc_id t)"
    "cw_pending_error cw' = None"
    by (auto simp: chron_inv_def cw' meta)
  have reach: "cw_seen cw' \<subseteq> log_reach N start"
    using inv x(1) log_reach_parent [of "tc_id t" N start] push(1) by (auto simp: chron_inv_def)
  with inv push x show ?thesis by (auto simp: chron_inv_def v walked_of_def meta)
qed

lemma chron_step_none:
  assumes "chron_inv N start D cw" and "chron_step N cw = None"
  shows "log_reach N start \<subseteq> D"
proof -
  have "cw_queue cw = []" using assms(2) by (auto simp: chron_step_def split: option.splits)
  with assms(1) have seen: "cw_seen cw = D" by (auto simp: chron_inv_def)
  show ?thesis
  proof (rule log_reach_least)
    show "start \<in> D" using assms(1) seen by (simp add: chron_inv_def)
    show "set (cm_parents (N x)) \<subseteq> D" if "x \<in> D" for x using assms(1) seen that by (simp add: chron_inv_def)
  qed
qed

interpretation chron: walk_order "chron_step N" "chron_inv N start" "log_reach N start" "\<lambda>x. cm_time (N x)" for N start
  using chron_step_some chron_step_none by unfold_locales blast+

text \<open>When no commit is newer than its child, the walk is by time: its queue holds nothing newer
  than what it walked.\<close>

definition monotone_times :: "graph \<Rightarrow> oid \<Rightarrow> bool" where
  "monotone_times N start \<longleftrightarrow> (\<forall>x \<in> log_reach N start. \<forall>p \<in> set (cm_parents (N x)). cm_time (N p) \<le> cm_time (N x))"

lemma push_known_queue: "t \<in> set (cw_queue (push_known N ps cw)) \<Longrightarrow>
    t \<in> set (cw_queue cw) \<or> tc_id t \<in> set ps \<and> tc_meta t = N (tc_id t)"
proof (induction ps arbitrary: cw)
  case (Cons p ps)
  show ?case
  proof (cases "p \<in> cw_seen cw")
    case True
    with Cons show ?thesis by auto
  next
    case False
    with Cons.prems Cons.IH [of "push_commit p (N p) (cw\<lparr>cw_seen := insert p (cw_seen cw)\<rparr>)"]
    show ?thesis by (auto simp: push_commit_def)
  qed
qed simp

lemma chron_newest_first:
  assumes "walks (chron_step N) cw vs" and "chron_inv N start D cw" and "monotone_times N start"
    and "\<forall>t \<in> set (cw_queue cw). cm_time (tc_meta t) \<le> bound"
  shows "sorted_wrt (\<lambda>u v. wc_time v \<le> wc_time u) vs \<and> (\<forall>v \<in> set vs. wc_time v \<le> bound)"
  using assms(1,2,4)
proof (induction arbitrary: D bound rule: walks.induct)
  case (walks_step cw v cw' vs)
  note v = chron_step_some [OF walks_step.prems(1) walks_step.hyps(1)]
  from walks_step.hyps(1) obtain t q where pop: "pop_max commit_key (cw_queue cw) = Some (t, q)"
    and vt: "v = walked_of t" and cw': "cw' = push_known N (cm_parents (tc_meta t)) (cw\<lparr>cw_queue := q\<rparr>)"
    by (auto simp: chron_step_def split: option.splits)
  have "set (cw_queue cw) = insert t (set q)"
    using heap.pop_Some [OF pop] by (metis set_mset_mset set_mset_add_mset_insert)
  with walks_step.prems have t: "cm_time (tc_meta t) \<le> bound" "tc_meta t = N (tc_id t)" "tc_id t \<in> log_reach N start"
    by (auto simp: chron_inv_def)
  have q: "cm_time (tc_meta u) \<le> cm_time (tc_meta t)" if "u \<in> set q" for u
    using heap.pop_greatest [OF pop, of u] that by (auto simp: heap_less_def commit_key_def)
  have "cm_time (tc_meta u) \<le> cm_time (tc_meta t)" if u: "u \<in> set (cw_queue cw')" for u
    using push_known_queue [OF u [unfolded cw']] q t assms(3) by (auto simp: monotone_times_def)
  with walks_step.IH [of "insert (wc_id v) D" "cm_time (tc_meta t)"] v
  have "sorted_wrt (\<lambda>u v. wc_time v \<le> wc_time u) vs \<and> (\<forall>u \<in> set vs. wc_time u \<le> cm_time (tc_meta t))" by blast
  with t(1) show ?case by (auto simp: vt walked_of_def intro: order_trans)
qed simp

section \<open>The ordered walks\<close>

text \<open>The nodes a pre-pass collects, and how many children of a commit outside \<open>D\<close> name it.\<close>

definition nodes_ok :: "graph \<Rightarrow> oid \<Rightarrow> (oid \<times> ordered_node) list \<Rightarrow> bool" where
  "nodes_ok N start nodes \<longleftrightarrow> distinct (map fst nodes) \<and> fst ` set nodes = log_reach N start
    \<and> (\<forall>(x, n) \<in> set nodes. on_meta n = N x)"

definition open_children :: "graph \<Rightarrow> oid \<Rightarrow> oid set \<Rightarrow> oid \<Rightarrow> nat" where
  "open_children N start D p = (\<Sum>x \<in> log_reach N start - D. count_list (cm_parents (N x)) p)"

lemma nodes_ok_finite: "nodes_ok N start nodes \<Longrightarrow> finite (log_reach N start)"
  by (metis List.finite_set finite_imageI nodes_ok_def)

lemma nodes_ok_card: "nodes_ok N start nodes \<Longrightarrow> length nodes = card (log_reach N start)"
  by (metis distinct_card length_map nodes_ok_def set_map)

lemma nodes_ok_node:
  assumes "nodes_ok N start nodes" and "x \<in> log_reach N start"
  shows "\<exists>n. map_of nodes x = Some n \<and> on_meta n = N x"
proof -
  from assms have "x \<in> fst ` set nodes" by (simp add: nodes_ok_def)
  then obtain n where n: "map_of nodes x = Some n" by (metis domD dom_map_of_conv_image_fst)
  from map_of_SomeD [OF n] assms(1) have "on_meta n = N x" by (auto simp: nodes_ok_def)
  with n show ?thesis by blast
qed

lemma open_children_0:
  "finite (log_reach N start) \<Longrightarrow> open_children N start D p = 0 \<longleftrightarrow> (\<forall>x \<in> log_reach N start - D. (x, p) \<notin> history_rel N)"
  by (auto simp: open_children_def history_rel_def count_list_0_iff)

lemma open_children_insert:
  assumes "finite (log_reach N start)" and "x \<in> log_reach N start - D"
  shows "open_children N start D p = open_children N start (insert x D) p + count_list (cm_parents (N x)) p"
proof -
  have "log_reach N start - insert x D = log_reach N start - D - {x}" by auto
  with sum.remove [OF _ assms(2), of "\<lambda>x. count_list (cm_parents (N x)) p"] assms(1)
  show ?thesis by (simp add: open_children_def)
qed

text \<open>Counting the children.\<close>

lemma count_child_fold:
  assumes "\<forall>p \<in> A. counts p = Some (c p)" and "set ps \<subseteq> A" and "dom counts = A"
  shows "(\<forall>p \<in> A. fold count_child ps counts p = Some (c p + count_list ps p)) \<and> dom (fold count_child ps counts) = A"
  using assms
proof (induction ps arbitrary: counts c)
  case (Cons p ps)
  then have p: "counts p = Some (c p)" by simp
  have "\<forall>q \<in> A. count_child p counts q = Some ((c(p := c p + 1)) q)" "dom (count_child p counts) = A"
    using Cons.prems p by (auto simp: count_child_def)
  from Cons.IH [OF this(1) _ this(2)] Cons.prems(2) show ?case by (auto split: if_splits)
qed auto

lemma child_counts_fold:
  assumes "\<forall>p \<in> A. counts p = Some (c p)" and "dom counts = A"
    and "\<forall>(x, n) \<in> set ns. on_meta n = N x \<and> set (cm_parents (N x)) \<subseteq> A"
  shows "\<forall>p \<in> A. fold (\<lambda>(_, n). fold count_child (cm_parents (on_meta n))) ns counts p
    = Some (c p + sum_list (map (\<lambda>(x, _). count_list (cm_parents (N x)) p) ns))"
  using assms
proof (induction ns arbitrary: counts c)
  case (Cons a ns)
  obtain x n where a: "a = (x, n)" by (cases a)
  with Cons.prems(3) have n: "on_meta n = N x" "set (cm_parents (N x)) \<subseteq> A" by auto
  note count_child_fold [OF Cons.prems(1) n(2) Cons.prems(2)]
  with Cons.IH [of "fold count_child (cm_parents (N x)) counts" "\<lambda>p. c p + count_list (cm_parents (N x)) p"] Cons.prems(3)
  show ?case by (simp add: a n(1) add.assoc)
qed simp

lemma child_counts_ok:
  assumes "nodes_ok N start nodes" and "p \<in> log_reach N start"
  shows "child_counts_of nodes p = Some (open_children N start {} p)"
proof -
  let ?A = "log_reach N start" and ?zero = "map_of (map (\<lambda>(x, _). (x, 0 :: nat)) nodes)"
  have ids: "fst ` set nodes = ?A" using assms(1) by (simp add: nodes_ok_def)
  have keys: "map fst (map (\<lambda>(x, _). (x, 0 :: nat)) nodes) = map fst nodes" by (simp add: case_prod_beta comp_def)
  have "set (map (\<lambda>(x, _). (x, 0 :: nat)) nodes) = (\<lambda>x. (x, 0)) ` ?A" unfolding ids [symmetric] by force
  then have zero: "\<forall>p \<in> ?A. ?zero p = Some 0"
    using assms(1) keys by (metis (no_types, lifting) imageI map_of_is_SomeI nodes_ok_def)
  have dom: "dom ?zero = ?A" using keys ids by (metis dom_map_of_conv_image_fst list.set_map)
  have "\<forall>(x, n) \<in> set nodes. on_meta n = N x \<and> set (cm_parents (N x)) \<subseteq> ?A"
    using assms(1) ids log_reach_parent by (fastforce simp: nodes_ok_def)
  from child_counts_fold [OF zero dom this] assms(2)
  have "child_counts_of nodes p = Some (sum_list (map (\<lambda>(x, _). count_list (cm_parents (N x)) p) nodes))"
    by (simp add: child_counts_of_def)
  also have "map (\<lambda>(x, _). count_list (cm_parents (N x)) p) nodes = map (\<lambda>x. count_list (cm_parents (N x)) p) (map fst nodes)"
    by (simp add: case_prod_beta comp_def)
  also have "sum_list \<dots> = (\<Sum>x \<in> ?A. count_list (cm_parents (N x)) p)"
    using assms(1) ids by (metis (no_types, lifting) nodes_ok_def set_map sum_list_distinct_conv_sum_set)
  finally show ?thesis by (simp add: open_children_def)
qed

text \<open>Ready commits: what pushing and releasing does.\<close>

lemma push_ready_ok:
  assumes "nodes_ok N start (ow_nodes ow)" and "x \<in> log_reach N start"
  shows "\<exists>ow'. push_ready x ow = Inr ow' \<and> ready_ids (ow_queue ow') = add_mset x (ready_ids (ow_queue ow))
    \<and> ow_nodes ow' = ow_nodes ow \<and> ow_child_counts ow' = ow_child_counts ow \<and> ow_emitted ow' = ow_emitted ow
    \<and> ow_residue ow' = ow_residue ow"
  using nodes_ok_node [OF assms] by (cases "ow_queue ow") (auto simp: push_ready_def)

lemma mset_set_new: "finite A \<Longrightarrow> x \<notin> A \<Longrightarrow> B = insert x A \<Longrightarrow> mset_set B = add_mset x (mset_set A)"
  by simp

lemma release_parents_ok:
  assumes "nodes_ok N start (ow_nodes ow)" and "\<forall>p \<in> log_reach N start. ow_child_counts ow p = Some (c p)"
    and "set ps \<subseteq> log_reach N start - D" and "\<forall>p. count_list ps p \<le> c p"
    and "ready_ids (ow_queue ow) = mset_set {y \<in> log_reach N start - D. c y = 0}"
  shows "\<exists>ow'. release_parents ps ow = Inr ow' \<and> ow_nodes ow' = ow_nodes ow \<and> ow_emitted ow' = ow_emitted ow
    \<and> ow_residue ow' = ow_residue ow \<and> (\<forall>p \<in> log_reach N start. ow_child_counts ow' p = Some (c p - count_list ps p))
    \<and> ready_ids (ow_queue ow') = mset_set {y \<in> log_reach N start - D. c y - count_list ps y = 0}"
  using assms
proof (induction ps arbitrary: ow c)
  case (Cons p ps)
  let ?A = "log_reach N start" and ?c = "c(p := c p - 1)"
  let ?ow = "ow\<lparr>ow_child_counts := (ow_child_counts ow)(p \<mapsto> c p - 1)\<rparr>"
  have p: "p \<in> ?A" "p \<notin> D" "ow_child_counts ow p = Some (c p)" using Cons.prems by auto
  have pos: "Suc (count_list ps p) \<le> c p" using Cons.prems(4) [rule_format, of p] by simp
  have step: "\<exists>ow1. (if c p - 1 = 0 then push_ready p ?ow else Inr ?ow) = Inr ow1
      \<and> ow_nodes ow1 = ow_nodes ow \<and> ow_emitted ow1 = ow_emitted ow \<and> ow_residue ow1 = ow_residue ow
      \<and> ow_child_counts ow1 = (ow_child_counts ow)(p \<mapsto> c p - 1)
      \<and> ready_ids (ow_queue ow1) = mset_set {y \<in> ?A - D. ?c y = 0}"
  proof (cases "c p - 1 = 0")
    case True
    have "{y \<in> ?A - D. ?c y = 0} = insert p {y \<in> ?A - D. c y = 0}" using True p by auto
    then have "mset_set {y \<in> ?A - D. ?c y = 0} = add_mset p (mset_set {y \<in> ?A - D. c y = 0})"
      using pos nodes_ok_finite [OF Cons.prems(1)] by (intro mset_set_new) auto
    with push_ready_ok [of N start ?ow p] Cons.prems(1,5) p(1) True show ?thesis by auto
  next
    case False
    then have "{y \<in> ?A - D. ?c y = 0} = {y \<in> ?A - D. c y = 0}" using pos by auto
    with False Cons.prems(5) show ?thesis by simp
  qed
  then obtain ow1 where ow1: "(if c p - 1 = 0 then push_ready p ?ow else Inr ?ow) = Inr ow1"
      "ow_nodes ow1 = ow_nodes ow" "ow_emitted ow1 = ow_emitted ow" "ow_residue ow1 = ow_residue ow"
      "ow_child_counts ow1 = (ow_child_counts ow)(p \<mapsto> c p - 1)"
      "ready_ids (ow_queue ow1) = mset_set {y \<in> ?A - D. ?c y = 0}" by blast
  have eq: "?c y - count_list ps y = c y - count_list (p # ps) y" for y by simp
  have "release_parents (p # ps) ow = release_parents ps ow1" using p(3) ow1(1)
    by (simp only: release_parents.simps option.case Let_def rbind_simps)
  moreover have "\<forall>q. count_list ps q \<le> ?c q" using Cons.prems(4) pos by (auto split: if_splits)
  ultimately show ?case
    using Cons.IH [of ow1 ?c] Cons.prems ow1 by (simp add: eq [symmetric] del: count_list.simps) 
qed simp


text \<open>
  While commits are ready, the counts are those of the open children and the queue holds the
  commits without any; when the queue runs dry before all commits were walked, the rest is taken
  in descending order of names.
\<close>

definition ordered_ready :: "graph \<Rightarrow> oid \<Rightarrow> oid set \<Rightarrow> ordered_walk \<Rightarrow> bool" where
  "ordered_ready N start D ow \<longleftrightarrow> nodes_ok N start (ow_nodes ow) \<and> ow_emitted ow = D \<and> D \<subseteq> log_reach N start
    \<and> ow_residue ow = []
    \<and> (\<forall>p \<in> log_reach N start. ow_child_counts ow p = Some (open_children N start D p))
    \<and> ready_ids (ow_queue ow) = mset_set {x \<in> log_reach N start - D. open_children N start D x = 0}
    \<and> (\<forall>x \<in> D. open_children N start D x = 0)"

definition ordered_drained :: "graph \<Rightarrow> oid \<Rightarrow> oid set \<Rightarrow> ordered_walk \<Rightarrow> bool" where
  "ordered_drained N start D ow \<longleftrightarrow> nodes_ok N start (ow_nodes ow) \<and> ow_emitted ow = D \<and> D \<subseteq> log_reach N start
    \<and> ready_ids (ow_queue ow) = {#} \<and> distinct (ow_residue ow) \<and> set (ow_residue ow) = log_reach N start - D"

definition ordered_inv :: "graph \<Rightarrow> oid \<Rightarrow> oid set \<Rightarrow> ordered_walk \<Rightarrow> bool" where
  "ordered_inv N start D ow \<longleftrightarrow> ordered_ready N start D ow \<or> ordered_drained N start D ow"

definition ordered_step :: "ordered_walk \<Rightarrow> (walked_commit \<times> ordered_walk) option" where
  "ordered_step ow = (case ordered_next ow of (Some (Inr v), ow') \<Rightarrow> Some (v, ow') | _ \<Rightarrow> None)"

lemma ready_step:
  assumes inv: "ordered_ready N start D ow" and pop: "pop_ready (ow_queue ow) = Some (x, q)"
  shows "\<exists>ow'. ordered_next ow = (Some (Inr \<lparr>wc_id = x, wc_time = cm_time (N x)\<rparr>), ow')
    \<and> ordered_ready N start (insert x D) ow' \<and> x \<in> log_reach N start - D \<and> open_children N start D x = 0"
proof -
  let ?A = "log_reach N start" and ?R = "{x \<in> log_reach N start - D. open_children N start D x = 0}" and ?D = "insert x D"
  have nodes: "nodes_ok N start (ow_nodes ow)" using inv by (simp add: ordered_ready_def)
  note fin = nodes_ok_finite [OF nodes]
  have q: "ready_ids (ow_queue ow) = mset_set ?R" "finite ?R" using inv fin by (auto simp: ordered_ready_def)
  note x = ready.pop_set [OF q pop]
  then have xA: "x \<in> ?A - D" "open_children N start D x = 0" by auto
  from nodes_ok_node [OF nodes, of x] xA obtain n where n: "map_of (ow_nodes ow) x = Some n" "on_meta n = N x" by auto
  define ow2 where "ow2 = ow\<lparr>ow_queue := q, ow_emitted := ?D\<rparr>"
  have ow2: "ow_nodes ow2 = ow_nodes ow" "ow_emitted ow2 = ?D" "ow_residue ow2 = []"
    "ow_child_counts ow2 = ow_child_counts ow" "ow_queue ow2 = q"
    using inv by (simp_all add: ow2_def ordered_ready_def)
  let ?ps = "cm_parents (N x)" and ?c = "open_children N start D"
  have split: "?c p = open_children N start ?D p + count_list ?ps p" for p
    by (rule open_children_insert [OF fin xA(1)])
  have zero: "p \<notin> set ?ps" if "?c p = 0" for p using split [of p] that by (simp add: count_list_0_iff)
  have parents: "set ?ps \<subseteq> ?A - ?D"
  proof
    fix p
    assume p: "p \<in> set ?ps"
    then have "p \<in> ?A" using log_reach_parent xA by blast
    moreover have "p \<noteq> x" "p \<notin> D" using p zero xA(2) inv by (auto simp: ordered_ready_def)
    ultimately show "p \<in> ?A - ?D" by simp
  qed
  have "?R - {x} = {y \<in> ?A - ?D. ?c y = 0}" by auto
  then have queue: "ready_ids (ow_queue ow2) = mset_set {y \<in> ?A - ?D. ?c y = 0}" using x(2) ow2(5) by simp
  have "\<forall>p. count_list ?ps p \<le> ?c p" "\<forall>p \<in> ?A. ow_child_counts ow2 p = Some (?c p)"
    using split inv ow2(4) by (auto simp: ordered_ready_def)
  from release_parents_ok [OF nodes [folded ow2(1)] this(2) parents this(1) queue]
  obtain ow3 where ow3: "release_parents ?ps ow2 = Inr ow3" "ow_nodes ow3 = ow_nodes ow" "ow_emitted ow3 = ?D"
    "ow_residue ow3 = []" "\<forall>p \<in> ?A. ow_child_counts ow3 p = Some (?c p - count_list ?ps p)"
    "ready_ids (ow_queue ow3) = mset_set {y \<in> ?A - ?D. ?c y - count_list ?ps y = 0}"
    by (auto simp: ow2)
  have less: "?c p - count_list ?ps p = open_children N start ?D p" for p using split [of p] by simp
  have "open_children N start ?D y = 0" if "y \<in> ?D" for y
    using that split [of y] xA(2) inv by (auto simp: ordered_ready_def)
  then have "ordered_ready N start ?D ow3"
    using ow3 nodes xA(1) inv unfolding ordered_ready_def less by auto
  moreover have "ordered_next ow = (Some (Inr \<lparr>wc_id = x, wc_time = cm_time (N x)\<rparr>), ow3)"
    using pop n ow3(1) inv by (simp add: ordered_next_def next_id_def ow2_def Let_def ordered_ready_def)
  ultimately show ?thesis using xA by blast
qed

lemma residue_step:
  assumes nodes: "nodes_ok N start (ow_nodes ow)" and emitted: "ow_emitted ow = D" "D \<subseteq> log_reach N start"
    and none: "pop_ready (ow_queue ow) = None"
    and residue: "ow_residue ow = [] \<or> distinct (ow_residue ow) \<and> set (ow_residue ow) = log_reach N start - D"
  shows "if D = log_reach N start then fst (ordered_next ow) = None
    else \<exists>x ow'. ordered_next ow = (Some (Inr \<lparr>wc_id = x, wc_time = cm_time (N x)\<rparr>), ow')
      \<and> ordered_drained N start (insert x D) ow' \<and> x \<in> log_reach N start - D"
proof -
  let ?A = "log_reach N start"
  note fin = nodes_ok_finite [OF nodes]
  define res where "res = (if ow_residue ow = [] \<and> card (ow_emitted ow) < length (ow_nodes ow)
    then sort (filter (\<lambda>x. x \<notin> ow_emitted ow) (map fst (ow_nodes ow))) else ow_residue ow)"
  have "card D < length (ow_nodes ow) \<longleftrightarrow> D \<noteq> ?A"
    using nodes_ok_card [OF nodes] fin emitted(2) by (metis card_subset_eq linorder_neqE_nat psubset_card_mono
        psubsetI less_irrefl)
  then have res: "distinct res \<and> set res = ?A - D"
    using residue nodes emitted by (auto simp: res_def nodes_ok_def)
  have pop: "next_id ow = (if res = [] then (None, ow\<lparr>ow_residue := []\<rparr>)
      else (Some (last res, True), ow\<lparr>ow_residue := butlast res\<rparr>))"
    using none by (simp add: next_id_def pop_residue_def res_def [symmetric] Let_def)
  show ?thesis
  proof (cases "D = ?A")
    case True
    with res pop show ?thesis by (simp add: ordered_next_def)
  next
    case False
    with res emitted(2) have ne: "res \<noteq> []" by auto
    define x where "x = last res"
    define rest where "rest = butlast res"
    have split: "res = rest @ [x]" using ne by (simp add: x_def rest_def)
    with res have x: "x \<in> ?A - D" "distinct rest" "set rest = ?A - insert x D" by auto
    from nodes_ok_node [OF nodes, of x] x(1) obtain n where n: "map_of (ow_nodes ow) x = Some n" "on_meta n = N x" by auto
    let ?ow = "ow\<lparr>ow_residue := rest, ow_emitted := insert x D\<rparr>"
    have "ordered_next ow = (Some (Inr \<lparr>wc_id = x, wc_time = cm_time (N x)\<rparr>), ?ow)"
      using pop ne n emitted(1) by (simp add: ordered_next_def x_def [symmetric] rest_def [symmetric] Let_def)
    moreover have "ordered_drained N start (insert x D) ?ow"
      using nodes x emitted none ready.pop_None [of "ow_queue ow"] by (simp add: ordered_drained_def)
    ultimately show ?thesis using x(1) False by auto
  qed
qed

lemma ordered_next_ok:
  assumes "ordered_inv N start D ow"
  shows "if D = log_reach N start then fst (ordered_next ow) = None
    else \<exists>x ow'. ordered_next ow = (Some (Inr \<lparr>wc_id = x, wc_time = cm_time (N x)\<rparr>), ow')
      \<and> ordered_inv N start (insert x D) ow' \<and> x \<in> log_reach N start - D"
proof (cases "pop_ready (ow_queue ow)")
  case None
  have "nodes_ok N start (ow_nodes ow)" "ow_emitted ow = D" "D \<subseteq> log_reach N start"
    "ow_residue ow = [] \<or> distinct (ow_residue ow) \<and> set (ow_residue ow) = log_reach N start - D"
    using assms by (auto simp: ordered_inv_def ordered_ready_def ordered_drained_def)
  from residue_step [OF this(1,2,3) None this(4)] show ?thesis by (auto simp: ordered_inv_def split: if_splits)
next
  case (Some p)
  then obtain x q where pop: "pop_ready (ow_queue ow) = Some (x, q)" by (cases p) auto
  have "\<not> ordered_drained N start D ow"
    using ready.pop_None [of "ow_queue ow"] Some by (auto simp: ordered_drained_def)
  with assms have "ordered_ready N start D ow" by (simp add: ordered_inv_def)
  from ready_step [OF this pop] show ?thesis by (auto simp: ordered_inv_def)
qed

interpretation ordered: walk_order ordered_step "ordered_inv N start" "log_reach N start" "\<lambda>x. cm_time (N x)" for N start
proof unfold_locales
  show "wc_id v \<in> log_reach N start - D \<and> wc_time v = cm_time (N (wc_id v)) \<and> ordered_inv N start (insert (wc_id v) D) ow'"
    if "ordered_inv N start D ow" and "ordered_step ow = Some (v, ow')" for D ow v ow'
    using ordered_next_ok [OF that(1)] that(2)
    by (auto simp: ordered_step_def split: if_splits option.splits sum.splits prod.splits)
  show "log_reach N start \<subseteq> D" if "ordered_inv N start D ow" and "ordered_step ow = None" for D ow
    using ordered_next_ok [OF that(1)] that(2)
    by (auto simp: ordered_step_def split: if_splits option.splits sum.splits prod.splits)
qed

text \<open>In a history without cycles some commit is always ready, so children come first.\<close>

lemma acyclic_ready:
  assumes "acyclic (history_rel N)" and "finite (log_reach N start)" and "D \<subset> log_reach N start"
  shows "\<exists>x \<in> log_reach N start - D. open_children N start D x = 0"
proof -
  let ?B = "log_reach N start - D"
  let ?r = "{(x, y). x \<in> ?B \<and> y \<in> ?B \<and> (x, y) \<in> history_rel N}"
  have "finite ?r" by (rule finite_subset [of _ "?B \<times> ?B"]) (use assms(2) in auto)
  moreover have "acyclic ?r" by (rule acyclic_subset [OF assms(1)]) auto
  ultimately have "wf ?r" by (rule finite_acyclic_wf)
  from assms(3) obtain b where b: "b \<in> ?B" by auto
  obtain x where x: "x \<in> ?B" "\<And>y. (y, x) \<in> ?r \<Longrightarrow> y \<notin> ?B" by (rule wfE_min [OF \<open>wf ?r\<close> b]) (rule that)
  have "(y, x) \<notin> history_rel N" if "y \<in> ?B" for y using x(1) x(2) [of y] that by auto
  then have "open_children N start D x = 0" using open_children_0 [OF assms(2)] by simp
  with x(1) show ?thesis by (rule bexI [rotated])
qed

definition topo_inv :: "graph \<Rightarrow> oid \<Rightarrow> oid set \<Rightarrow> ordered_walk \<Rightarrow> bool" where
  "topo_inv N start D ow \<longleftrightarrow> acyclic (history_rel N) \<and> ordered_ready N start D ow"

lemma topo_next:
  assumes "topo_inv N start D ow"
  shows "if D = log_reach N start then ordered_step ow = None
    else \<exists>x ow'. ordered_step ow = Some (\<lparr>wc_id = x, wc_time = cm_time (N x)\<rparr>, ow')
      \<and> topo_inv N start (insert x D) ow' \<and> x \<in> log_reach N start - D \<and> open_children N start D x = 0"
proof (cases "pop_ready (ow_queue ow)")
  case None
  have inv: "ordered_ready N start D ow" "acyclic (history_rel N)" using assms by (auto simp: topo_inv_def)
  then have fin: "finite (log_reach N start)" using nodes_ok_finite by (auto simp: ordered_ready_def)
  have "{x \<in> log_reach N start - D. open_children N start D x = 0} = {}"
    using inv(1) None ready.pop_None [of "ow_queue ow"] fin by (auto simp: ordered_ready_def mset_set_empty_iff)
  then have "\<not> D \<subset> log_reach N start" using acyclic_ready [OF inv(2) fin, of D] by blast
  moreover have "D \<subseteq> log_reach N start" using inv(1) by (simp add: ordered_ready_def)
  ultimately have D: "D = log_reach N start" by blast
  from ordered_next_ok [of N start D ow] inv(1) D have "fst (ordered_next ow) = None" by (simp add: ordered_inv_def)
  with D show ?thesis by (auto simp: ordered_step_def split: prod.splits)
next
  case (Some p)
  then obtain x q where pop: "pop_ready (ow_queue ow) = Some (x, q)" by (cases p) auto
  have "ordered_ready N start D ow" "acyclic (history_rel N)" using assms by (simp_all add: topo_inv_def)
  with ready_step [OF this(1) pop] show ?thesis by (auto simp: topo_inv_def ordered_step_def)
qed

interpretation topo: topological_walk ordered_step "topo_inv N start" "log_reach N start" "\<lambda>x. cm_time (N x)" "history_rel N" for N start
proof unfold_locales
  show "wc_id v \<in> log_reach N start - D \<and> wc_time v = cm_time (N (wc_id v)) \<and> topo_inv N start (insert (wc_id v) D) ow'"
    if "topo_inv N start D ow" and "ordered_step ow = Some (v, ow')" for D ow v ow'
    using topo_next [OF that(1)] that(2) by (auto split: if_splits)
  show "log_reach N start \<subseteq> D" if "topo_inv N start D ow" and "ordered_step ow = None" for D ow
    using topo_next [OF that(1)] that(2) by (auto split: if_splits)
  show "x \<in> D" if inv: "topo_inv N start D ow" and step: "ordered_step ow = Some (v, ow')"
      and x: "(x, wc_id v) \<in> history_rel N" "x \<in> log_reach N start" for D ow v ow' x
  proof -
    have "finite (log_reach N start)" using inv nodes_ok_finite by (auto simp: topo_inv_def ordered_ready_def)
    moreover have "open_children N start D (wc_id v) = 0" using topo_next [OF inv] step by (auto split: if_splits)
    ultimately show "x \<in> D" using x open_children_0 by blast
  qed
qed

section \<open>Starting a walk\<close>

definition chron_start :: "graph \<Rightarrow> oid \<Rightarrow> chronological_walk" where
  "chron_start N start = \<lparr>cw_queue = [\<lparr>tc_id = start, tc_meta = N start, tc_sequence = 0\<rparr>], cw_seen = {start},
     cw_next_sequence = 1, cw_pending_error = None\<rparr>"

lemma chron_start_inv: "chron_inv N start {} (chron_start N start)"
  by (simp add: chron_inv_def chron_start_def)

text \<open>The pre-pass over known commits.\<close>

fun known_nodes :: "nat \<Rightarrow> graph \<Rightarrow> oid list \<Rightarrow> (oid \<times> ordered_node) list \<Rightarrow> u64 \<Rightarrow> (oid \<times> ordered_node) list option" where
  "known_nodes fuel N pending nodes discovery =
    (if pending = [] then Some nodes
     else (case fuel of
         0 \<Rightarrow> None
       | Suc fuel' \<Rightarrow>
           let x = last pending; rest = butlast pending in
           if x \<in> fst ` set nodes then known_nodes fuel' N rest nodes discovery
           else known_nodes fuel' N (rest @ filter (\<lambda>p. p \<notin> fst ` set nodes) (rev (cm_parents (N x))))
                  (nodes @ [(x, \<lparr>on_meta = N x, on_discovery = discovery\<rparr>)]) (sat_add discovery 1)))"

declare known_nodes.simps [simp del]

lemma known_nodes_Nil [simp]: "known_nodes fuel N [] nodes d = Some nodes"
  by (subst known_nodes.simps) simp

lemma known_nodes_0 [simp]: "known_nodes 0 N (rest @ [x]) nodes d = None"
  by (subst known_nodes.simps) simp

lemma known_nodes_snoc [simp]: "known_nodes (Suc fuel) N (rest @ [x]) nodes d =
    (if x \<in> fst ` set nodes then known_nodes fuel N rest nodes d
     else known_nodes fuel N (rest @ filter (\<lambda>p. p \<notin> fst ` set nodes) (rev (cm_parents (N x))))
            (nodes @ [(x, \<lparr>on_meta = N x, on_discovery = d\<rparr>)]) (sat_add d 1))"
  by (subst known_nodes.simps) (simp add: Let_def)

lemma known_nodes_unique:
  "known_nodes f N pending nodes d = Some a \<Longrightarrow> known_nodes g N pending nodes d = Some b \<Longrightarrow> a = b"
proof (induction f arbitrary: g pending nodes d)
  case 0
  then show ?case by (cases pending rule: rev_cases) simp_all
next
  case (Suc f)
  then show ?case
    by (cases pending rule: rev_cases; cases g) (simp_all split: if_splits)
qed

text \<open>The invariant of the pre-pass: parents of nodes are nodes or pending, and everything is reachable.\<close>

definition prepass_inv :: "graph \<Rightarrow> oid \<Rightarrow> oid list \<Rightarrow> (oid \<times> ordered_node) list \<Rightarrow> bool" where
  "prepass_inv N start pending nodes \<longleftrightarrow> distinct (map fst nodes) \<and> (\<forall>(x, n) \<in> set nodes. on_meta n = N x)
    \<and> start \<in> fst ` set nodes \<union> set pending \<and> fst ` set nodes \<union> set pending \<subseteq> log_reach N start
    \<and> (\<forall>x \<in> fst ` set nodes. set (cm_parents (N x)) \<subseteq> fst ` set nodes \<union> set pending)"

lemma prepass_inv_done: "prepass_inv N start [] nodes \<Longrightarrow> nodes_ok N start nodes"
  using log_reach_least [of start "fst ` set nodes" N] unfolding prepass_inv_def nodes_ok_def
  by (metis Un_empty_right list.set(1) subset_antisym)

lemma prepass_inv_skip:
  "prepass_inv N start (rest @ [x]) nodes \<Longrightarrow> x \<in> fst ` set nodes \<Longrightarrow> prepass_inv N start rest nodes"
proof -
  assume "prepass_inv N start (rest @ [x]) nodes" and x: "x \<in> fst ` set nodes"
  moreover have "fst ` set nodes \<union> set (rest @ [x]) = fst ` set nodes \<union> set rest" using x by auto
  ultimately show ?thesis unfolding prepass_inv_def by metis
qed

lemma prepass_inv_visit:
  assumes "prepass_inv N start (rest @ [x]) nodes" and "x \<notin> fst ` set nodes"
  shows "prepass_inv N start (rest @ filter (\<lambda>p. p \<notin> fst ` set nodes) (rev (cm_parents (N x))))
    (nodes @ [(x, \<lparr>on_meta = N x, on_discovery = d\<rparr>)])"
proof -
  have "set (cm_parents (N x)) \<subseteq> log_reach N start"
    using assms(1) log_reach_parent [of x N start] by (auto simp: prepass_inv_def)
  with assms show ?thesis unfolding prepass_inv_def by (auto 0 3)
qed

lemma known_nodes_ok:
  "prepass_inv N start pending nodes \<Longrightarrow> known_nodes fuel N pending nodes d = Some r \<Longrightarrow> nodes_ok N start r"
proof (induction fuel arbitrary: pending nodes d)
  case 0
  then show ?case by (cases pending rule: rev_cases) (simp_all add: prepass_inv_done)
next
  case (Suc fuel)
  show ?case
  proof (cases pending rule: rev_cases)
    case Nil
    with Suc.prems show ?thesis by (simp add: prepass_inv_done)
  next
    case (snoc rest x)
    note prems = Suc.prems [unfolded snoc]
    show ?thesis
      using prems(2) Suc.IH [OF prepass_inv_skip [OF prems(1)]] Suc.IH [OF prepass_inv_visit [OF prems(1)]]
      by (simp split: if_splits)
  qed
qed

lemma known_nodes_enough:
  assumes "finite R" and "\<And>x. x \<in> R \<Longrightarrow> set (cm_parents (N x)) \<subseteq> R"
    and "set pending \<subseteq> R"
    and "length pending + (\<Sum>x \<in> R - fst ` set nodes. length (cm_parents (N x))) \<le> fuel"
  shows "known_nodes fuel N pending nodes d \<noteq> None"
  using assms(3,4)
proof (induction fuel arbitrary: pending nodes d)
  case 0
  then show ?case by simp
next
  case (Suc fuel)
  show ?case
  proof (cases pending rule: rev_cases)
    case Nil
    then show ?thesis by simp
  next
    case (snoc rest x)
    let ?s = "\<lambda>A. \<Sum>x \<in> R - A. length (cm_parents (N x))" and ?ids = "fst ` set nodes"
    have x: "x \<in> R" "set rest \<subseteq> R" "length rest + ?s ?ids \<le> fuel" using Suc.prems unfolding snoc by auto
    have "known_nodes fuel N (rest @ filter (\<lambda>p. p \<notin> ?ids) (rev (cm_parents (N x))))
        (nodes @ [(x, \<lparr>on_meta = N x, on_discovery = d\<rparr>)]) (sat_add d 1) \<noteq> None" if "x \<notin> ?ids"
    proof (rule Suc.IH)
      show "set (rest @ filter (\<lambda>p. p \<notin> ?ids) (rev (cm_parents (N x)))) \<subseteq> R" using x(2) assms(2) [OF x(1)] by auto
      have "R - insert x ?ids = R - ?ids - {x}" by auto
      then have "?s ?ids = length (cm_parents (N x)) + ?s (insert x ?ids)"
        using sum.remove [of "R - ?ids" x "\<lambda>x. length (cm_parents (N x))"] assms(1) x(1) that by simp
      then show "length (rest @ filter (\<lambda>p. p \<notin> ?ids) (rev (cm_parents (N x))))
          + ?s (fst ` set (nodes @ [(x, \<lparr>on_meta = N x, on_discovery = d\<rparr>)])) \<le> fuel"
        using x(3) length_filter_le [of "\<lambda>p. p \<notin> ?ids" "rev (cm_parents (N x))"] by simp
    qed
    with Suc.IH [OF x(2,3)] show ?thesis unfolding snoc by simp
  qed
qed

lemma prepass_answers:
  assumes "\<And>x i. answers I (\<lambda>meta. meta = N x) (read_meta db opts x i)"
  shows "answers I (\<lambda>r. r = known_nodes fuel N pending nodes d) (prepass fuel db opts start pending nodes d)"
proof (induction fuel arbitrary: pending nodes d)
  case 0
  show ?case by (subst prepass.simps, subst known_nodes.simps) (auto intro!: answers_sreturn)
next
  case (Suc fuel)
  show ?case
    by (subst prepass.simps, subst known_nodes.simps)
       (auto simp: Let_def intro!: answers_sreturn Suc.IH answers_smap_err answers_on_budget
         answers_sbind [OF assms] answers_sbind [where Q = "\<lambda>_. True" and m = "smap_err _ _"])
qed

lemma push_all_ready_ok:
  assumes "nodes_ok N start (ow_nodes ow)" and "set xs \<subseteq> log_reach N start"
  shows "\<exists>ow'. push_all_ready xs ow = Inr ow' \<and> ready_ids (ow_queue ow') = mset xs + ready_ids (ow_queue ow)
    \<and> ow_nodes ow' = ow_nodes ow \<and> ow_child_counts ow' = ow_child_counts ow \<and> ow_emitted ow' = ow_emitted ow
    \<and> ow_residue ow' = ow_residue ow"
  using assms
proof (induction xs arbitrary: ow)
  case (Cons x xs)
  from push_ready_ok [OF Cons.prems(1), of x] Cons.prems(2) obtain ow1 where ow1: "push_ready x ow = Inr ow1"
    "ready_ids (ow_queue ow1) = add_mset x (ready_ids (ow_queue ow))" "ow_nodes ow1 = ow_nodes ow"
    "ow_child_counts ow1 = ow_child_counts ow" "ow_emitted ow1 = ow_emitted ow" "ow_residue ow1 = ow_residue ow"
    by auto
  with Cons.IH [of ow1] Cons.prems show ?case by simp
qed simp

lemma initial_of_ok:
  assumes "nodes_ok N start nodes"
  shows "mset (initial_of nodes) = mset_set {x \<in> log_reach N start. open_children N start {} x = 0}"
proof -
  have ids: "distinct (map fst nodes)" "set (map fst nodes) = log_reach N start"
    using assms by (simp_all add: nodes_ok_def)
  let ?f = "filter (\<lambda>x. child_counts_of nodes x = Some 0) (map fst nodes)"
  have "mset (initial_of nodes) = mset ?f" by (simp add: initial_of_def)
  also have "\<dots> = mset_set (set ?f)" using ids(1) by (intro mset_set_set [symmetric] distinct_filter)
  also have "set ?f = {x \<in> log_reach N start. open_children N start {} x = 0}"
    unfolding set_filter ids(2) using child_counts_ok [OF assms] by auto
  finally show ?thesis .
qed

lemma ordered_of_nodes_ok:
  assumes "nodes_ok N start nodes"
  shows "\<exists>ow. ordered_of_nodes opts nodes = Inr ow \<and> ordered_ready N start {} ow"
proof -
  let ?ow = "\<lparr>ow_nodes = nodes, ow_child_counts = child_counts_of nodes, ow_queue = DateQueue [],
    ow_next_sequence = 0, ow_emitted = {}, ow_residue = []\<rparr>"
  note initial = initial_of_ok [OF assms]
  have "set_mset (mset (initial_of nodes)) \<subseteq> log_reach N start"
    unfolding initial using nodes_ok_finite [OF assms] by simp
  then have "set (rev (initial_of nodes)) \<subseteq> log_reach N start" by simp
  from push_all_ready_ok [of N start ?ow, OF _ this] assms obtain ow where "push_all_ready (rev (initial_of nodes)) ?ow = Inr ow"
    "ready_ids (ow_queue ow) = mset (initial_of nodes)" "ow_nodes ow = nodes" "ow_child_counts ow = child_counts_of nodes"
    "ow_emitted ow = {}" "ow_residue ow = []" by auto
  with assms initial child_counts_ok [OF assms] show ?thesis
    by (cases "lo_order opts = Topological") (auto simp: ordered_of_nodes_def Let_def ordered_ready_def)
qed

section \<open>The sequence of a log\<close>

fun spec_step :: "graph \<Rightarrow> walk \<Rightarrow> (walked_commit \<times> walk) option" where
  "spec_step N (ChronologicalWalk cw) = map_option (map_prod id ChronologicalWalk) (chron_step N cw)"
| "spec_step N (OrderedWalk ow) = map_option (map_prod id OrderedWalk) (ordered_step ow)"

fun walk_inv :: "graph \<Rightarrow> oid \<Rightarrow> oid set \<Rightarrow> walk \<Rightarrow> bool" where
  "walk_inv N start D (ChronologicalWalk cw) = chron_inv N start D cw"
| "walk_inv N start D (OrderedWalk ow) = ordered_inv N start D ow"

interpretation walk: walk_order "spec_step N" "walk_inv N start" "log_reach N start" "\<lambda>x. cm_time (N x)" for N start
proof unfold_locales
  show "wc_id v \<in> log_reach N start - D \<and> wc_time v = cm_time (N (wc_id v)) \<and> walk_inv N start (insert (wc_id v) D) w'"
    if "walk_inv N start D w" and "spec_step N w = Some (v, w')" for D w v w'
    using that chron.step_some [of N start D] ordered.step_some [of N start D] by (cases w) auto
  show "log_reach N start \<subseteq> D" if "walk_inv N start D w" and "spec_step N w = None" for D w
    using that chron.step_none [of N start D] ordered.step_none [of N start D] by (cases w) auto
qed

definition walk_start :: "nat \<Rightarrow> graph \<Rightarrow> log_options \<Rightarrow> oid \<Rightarrow> walk option" where
  "walk_start fuel N opts start =
    (if lo_order opts = Chronological then Some (ChronologicalWalk (chron_start N start))
     else case known_nodes fuel N [start] [] 0 of
       None \<Rightarrow> None
     | Some nodes \<Rightarrow> (case ordered_of_nodes opts nodes of Inr ow \<Rightarrow> Some (OrderedWalk ow) | Inl _ \<Rightarrow> None))"

text \<open>The commits a log lists, before time bounds, cursor and limit.\<close>

definition log_sequence :: "graph \<Rightarrow> log_options \<Rightarrow> oid \<Rightarrow> walked_commit list \<Rightarrow> bool" where
  "log_sequence N opts start vs \<longleftrightarrow> (\<exists>fuel w. walk_start fuel N opts start = Some w \<and> walks (spec_step N) w vs)"

lemma start_prepass_inv: "prepass_inv N start [start] []"
  by (simp add: prepass_inv_def)

lemma walk_start_unique: "walk_start f N opts start = Some v \<Longrightarrow> walk_start g N opts start = Some w \<Longrightarrow> v = w"
  by (auto simp: walk_start_def split: if_splits option.splits sum.splits dest: known_nodes_unique)

lemma log_sequence_unique: "log_sequence N opts start vs \<Longrightarrow> log_sequence N opts start us \<Longrightarrow> vs = us"
  using walk_start_unique walks_unique unfolding log_sequence_def by metis

lemma walk_start_ordered:
  assumes "walk_start fuel N opts start = Some w" and "lo_order opts \<noteq> Chronological"
  shows "\<exists>ow. w = OrderedWalk ow \<and> ordered_ready N start {} ow"
proof -
  from assms obtain nodes ow where nodes: "known_nodes fuel N [start] [] 0 = Some nodes"
    and ow: "ordered_of_nodes opts nodes = Inr ow" "w = OrderedWalk ow"
    by (auto simp: walk_start_def split: option.splits sum.splits)
  from ordered_of_nodes_ok [OF known_nodes_ok [OF start_prepass_inv nodes], of opts] ow show ?thesis by simp
qed

lemma walk_start_inv: "walk_start fuel N opts start = Some w \<Longrightarrow> walk_inv N start {} w"
  using walk_start_ordered [of fuel N opts start w] chron_start_inv [of N start]
  by (cases "lo_order opts = Chronological") (auto simp: walk_start_def ordered_inv_def)

lemma walk_start_enough:
  assumes "finite (log_reach N start)" and "1 + (\<Sum>x \<in> log_reach N start. length (cm_parents (N x))) \<le> fuel"
  shows "walk_start fuel N opts start \<noteq> None"
proof -
  have "known_nodes fuel N [start] [] 0 \<noteq> None"
    using assms log_reach_parent [of _ N start] by (intro known_nodes_enough [of "log_reach N start"]) auto
  then obtain nodes where nodes: "known_nodes fuel N [start] [] 0 = Some nodes" by blast
  from ordered_of_nodes_ok [OF known_nodes_ok [OF start_prepass_inv nodes], of opts] nodes show ?thesis
    by (auto simp: walk_start_def)
qed

lemma log_sequence_exists:
  assumes "finite (log_reach N start)"
  shows "\<exists>vs. log_sequence N opts start vs"
proof -
  obtain w where w: "walk_start (1 + (\<Sum>x \<in> log_reach N start. length (cm_parents (N x)))) N opts start = Some w"
    using walk_start_enough [OF assms order.refl] by blast
  from walk.walks_exists [OF assms walk_start_inv [OF this]] w show ?thesis unfolding log_sequence_def by blast
qed

lemma log_sequence_all:
  assumes "log_sequence N opts start vs"
  shows "distinct (map wc_id vs)" and "wc_id ` set vs = log_reach N start" and "v \<in> set vs \<Longrightarrow> wc_time v = cm_time (N (wc_id v))"
proof -
  from assms obtain fuel w where "walk_start fuel N opts start = Some w" "walks (spec_step N) w vs"
    by (auto simp: log_sequence_def)
  with walk.walks_all [OF this(2) walk_start_inv [OF this(1)]]
  show "distinct (map wc_id vs)" "wc_id ` set vs = log_reach N start" "v \<in> set vs \<Longrightarrow> wc_time v = cm_time (N (wc_id v))"
    by auto
qed

lemma walks_ordered_step: "walks (spec_step N) (OrderedWalk ow) vs \<Longrightarrow> walks ordered_step ow vs"
proof (induction "OrderedWalk ow" vs arbitrary: ow rule: walks.induct)
  case (walks_done ow)
  then show ?case by (auto intro: walks.walks_done)
next
  case (walks_step v q' vs ow)
  then show ?case by (auto intro: walks.walks_step)
qed

lemma walks_chron_step: "walks (spec_step N) (ChronologicalWalk cw) vs \<Longrightarrow> walks (chron_step N) cw vs"
proof (induction "ChronologicalWalk cw" vs arbitrary: cw rule: walks.induct)
  case (walks_done cw)
  then show ?case by (auto intro: walks.walks_done)
next
  case (walks_step v q' vs cw)
  then show ?case by (auto intro: walks.walks_step)
qed

lemma log_sequence_topological:
  assumes "log_sequence N opts start vs" and "lo_order opts \<noteq> Chronological" and "acyclic (history_rel N)"
  shows "sorted_wrt (\<lambda>u v. (wc_id v, wc_id u) \<notin> history_rel N) vs"
proof -
  from assms(1) obtain fuel w where w: "walk_start fuel N opts start = Some w" "walks (spec_step N) w vs"
    by (auto simp: log_sequence_def)
  from walk_start_ordered [OF w(1) assms(2)] obtain ow where ow: "w = OrderedWalk ow" "ordered_ready N start {} ow" by blast
  have "walks ordered_step ow vs" using walks_ordered_step w(2) ow(1) by simp
  from topo.walks_ordered [OF this, of N start "{}"] ow(2) assms(3) show ?thesis by (simp add: topo_inv_def)
qed

lemma log_sequence_newest_first:
  assumes "log_sequence N opts start vs" and "lo_order opts = Chronological" and "monotone_times N start"
  shows "sorted_wrt (\<lambda>u v. wc_time v \<le> wc_time u) vs"
proof -
  from assms(1,2) have "walks (spec_step N) (ChronologicalWalk (chron_start N start)) vs"
    by (auto simp: log_sequence_def walk_start_def)
  from chron_newest_first [OF walks_chron_step [OF this] chron_start_inv assms(3), of "cm_time (N start)"]
  show ?thesis by (simp add: chron_start_def)
qed

text \<open>A walk that knows of a matching commit will meet one.\<close>

fun untroubled :: "walk \<Rightarrow> bool" where
  "untroubled (ChronologicalWalk cw) \<longleftrightarrow> cw_pending_error cw = None"
| "untroubled (OrderedWalk ow) \<longleftrightarrow> True"

lemma has_matching_ahead:
  assumes "walk_inv N start D w" and "has_matching opts w" and "walks (spec_step N) w vs"
  shows "\<exists>v \<in> set vs. within_time_bounds (wc_time v) opts"
proof -
  have "\<exists>x \<in> log_reach N start - D. within_time_bounds (cm_time (N x)) opts"
  proof (cases w)
    case (ChronologicalWalk cw)
    with assms(1,2) obtain t where t: "t \<in> set (cw_queue cw)" "within_time_bounds (cm_time (tc_meta t)) opts"
      by (auto simp: chron_inv_def)
    have inv: "chron_inv N start D cw" using assms(1) ChronologicalWalk by simp
    from t(1) inv have "tc_id t \<in> cw_seen cw - D" "tc_meta t = N (tc_id t)" unfolding chron_inv_def by blast+
    moreover have "cw_seen cw \<subseteq> log_reach N start" using inv by (simp add: chron_inv_def)
    ultimately show ?thesis using t(2) by (intro bexI [of _ "tc_id t"]) auto
  next
    case (OrderedWalk ow)
    with assms(1) have ow: "nodes_ok N start (ow_nodes ow)" "ow_emitted ow = D"
      by (auto simp: ordered_inv_def ordered_ready_def ordered_drained_def)
    from assms(2) OrderedWalk obtain x n where x: "(x, n) \<in> set (ow_nodes ow)" "x \<notin> D"
      "within_time_bounds (cm_time (on_meta n)) opts" by (auto simp: ordered_has_matching_def ow(2))
    from x(1) ow(1) have "x \<in> fst ` set (ow_nodes ow)" "on_meta n = N x" by (force simp: nodes_ok_def)+
    with x ow(1) show ?thesis by (intro bexI [of _ x]) (auto simp: nodes_ok_def)
  qed
  moreover have "wc_id ` set vs = log_reach N start - D" "\<forall>v \<in> set vs. wc_time v = cm_time (N (wc_id v))"
    using walk.walks_all [OF assms(3,1)] by auto
  ultimately show ?thesis by (metis imageE)
qed

end
