(* ===== verification/LogDecode.thy ===== *)
theory LogDecode
  imports CommitLog
begin

text \<open>
  The two readers of commit headers in the log: the one that drives the walk and the one that
  fills a page agree on parents and times, and both read back what a commit was printed from.
\<close>

section \<open>The two readers agree\<close>

lemma rposition_split:
  assumes "rposition p xs = Some i"
  shows "\<exists>ys x zs. xs = ys @ x # zs \<and> p x \<and> (\<forall>z \<in> set zs. \<not> p z) \<and> i = length ys"
proof -
  from assms obtain k where k: "position p (rev xs) = Some k" "i = length xs - 1 - k" by (auto simp: rposition_def)
  from k(1) have k': "k < length (rev xs)" "p (rev xs ! k)" by (simp_all add: position_Some_iff)
  have "take k (rev xs) = takeWhile (\<lambda>x. \<not> p x) (rev xs)" by (rule position_takeWhile [OF k(1)])
  then have none: "\<forall>z \<in> set (take k (rev xs)). \<not> p z" by (metis set_takeWhileD)
  have "rev xs = take k (rev xs) @ rev xs ! k # drop (Suc k) (rev xs)" using k'(1) by (rule id_take_nth_drop)
  then have "xs = rev (drop (Suc k) (rev xs)) @ rev xs ! k # rev (take k (rev xs))"
    by (metis append_Cons append_Nil append_assoc rev.simps(2) rev_append rev_rev_ident)
  moreover have "i = length (rev (drop (Suc k) (rev xs)))" using k(2) by simp
  ultimately show ?thesis using k'(2) none by (metis set_rev)
qed

lemma decode_identity_shape:
  assumes "decode_identity raw = Inr i"
  shows "\<exists>pre time. raw = pre @ 62 # 32 # time @ 32 # id_tz i \<and> parse_i64 time = Some (id_time i)
    \<and> 32 \<notin> set (id_tz i) \<and> 32 \<notin> set time"
proof -
  from assms obtain left off suffix sep t where p: "position (\<lambda>b. b = 62) (drop (left + 1) raw) = Some off"
    "drop (left + 1 + off + 1) raw = 32 # suffix" "position (\<lambda>b. b = 32) suffix = Some sep"
    "32 \<notin> set (drop (sep + 1) suffix)" "parse_i64 (take sep suffix) = Some t" "id_time i = t" "id_tz i = drop (sep + 1) suffix"
    unfolding decode_identity_def by (auto simp: rbind_Inr_iff Let_def strip_prefix_Some_iff split: if_splits)
  let ?right = "left + 1 + off"
  have off: "off < length (drop (left + 1) raw)" "drop (left + 1) raw ! off = 62"
    using p(1) by (simp_all add: position_Some_iff)
  then have right: "?right < length raw" "raw ! ?right = 62" using nth_drop [of "left + 1" raw off] by simp_all
  have sep: "sep < length suffix" "suffix ! sep = 32" using p(3) by (simp_all add: position_Some_iff)
  have "take sep suffix = takeWhile (\<lambda>b. b \<noteq> 32) suffix" by (rule position_takeWhile [OF p(3)])
  then have no: "32 \<notin> set (take sep suffix)" by (auto dest: set_takeWhileD)
  have suffix: "suffix = take sep suffix @ 32 # id_tz i" using id_take_nth_drop [OF sep(1)] sep(2) p(7) by simp
  have "raw = take ?right raw @ raw ! ?right # drop (Suc ?right) raw" by (rule id_take_nth_drop [OF right(1)])
  then have "raw = take ?right raw @ 62 # 32 # suffix" unfolding right(2) using p(2) by simp
  then have "raw = take ?right raw @ 62 # 32 # take sep suffix @ 32 # id_tz i" unfolding suffix [symmetric] .
  with no p(4-7) show ?thesis by (intro exI [of _ "take ?right raw"] exI [of _ "take sep suffix"] conjI) simp_all
qed

lemma identity_time_shape:
  assumes "identity_time raw = Inr t"
  shows "\<exists>pre suffix. raw = pre @ 62 # 32 # suffix \<and> 62 \<notin> set suffix \<and> parse_i64 (hd (split_on 32 suffix)) = Some t"
proof -
  from assms obtain r suffix where r: "rposition (\<lambda>b. b = 62) raw = Some r"
    "drop (r + 1) raw = 32 # suffix" "parse_i64 (hd (split_on 32 suffix)) = Some t"
    by (auto simp: identity_time_def rbind_Inr_iff Let_def strip_prefix_Some_iff split: if_splits)
  from rposition_split [OF r(1)] obtain pre zs where "raw = pre @ 62 # zs" "62 \<notin> set zs" "r = length pre" by auto
  with r(2,3) show ?thesis by auto
qed

lemma identity_time_agrees:
  assumes "decode_identity raw = Inr i" and "identity_time raw = Inr t"
  shows "t = id_time i"
proof -
  from decode_identity_shape [OF assms(1)] obtain pre time where d: "raw = pre @ 62 # 32 # time @ 32 # id_tz i"
    "parse_i64 time = Some (id_time i)" "32 \<notin> set (id_tz i)" "32 \<notin> set time" by blast
  from identity_time_shape [OF assms(2)] obtain pre' suffix where t: "raw = pre' @ 62 # 32 # suffix"
    "62 \<notin> set suffix" "parse_i64 (hd (split_on 32 suffix)) = Some t" by blast
  have digits: "62 \<notin> set time" using parse_i64_ascii(2) [OF d(2)] by (auto simp: is_digit_def)
  have "pre @ (62 # 32 # time @ 32 # id_tz i) = pre' @ (62 # 32 # suffix)" using d(1) t(1) by simp
  then obtain us where us: "pre = pre' @ us \<and> us @ 62 # 32 # time @ 32 # id_tz i = 62 # 32 # suffix
      \<or> pre @ us = pre' \<and> 62 # 32 # time @ 32 # id_tz i = us @ 62 # 32 # suffix"
    by (auto simp: append_eq_append_conv2)
  have "suffix = time @ 32 # id_tz i"
  proof (cases us)
    case Nil
    with us show ?thesis by auto
  next
    case (Cons u us')
    from us show ?thesis
    proof
      assume "pre = pre' @ us \<and> us @ 62 # 32 # time @ 32 # id_tz i = 62 # 32 # suffix"
      then have "us' @ 62 # 32 # time @ 32 # id_tz i = 32 # suffix" by (simp add: Cons)
      then have "62 \<in> set (32 # suffix)" by (metis in_set_conv_decomp)
      with t(2) show ?thesis by simp
    next
      assume "pre @ us = pre' \<and> 62 # 32 # time @ 32 # id_tz i = us @ 62 # 32 # suffix"
      then have eq: "(32 # time @ [32]) @ id_tz i = us' @ 62 # 32 # suffix" by (simp add: Cons)
      then obtain vs where "32 # time @ [32] = us' @ vs \<and> vs @ id_tz i = 62 # 32 # suffix
          \<or> (32 # time @ [32]) @ vs = us' \<and> id_tz i = vs @ 62 # 32 # suffix"
        unfolding append_eq_append_conv2 by blast
      then show ?thesis
      proof
        assume vs: "32 # time @ [32] = us' @ vs \<and> vs @ id_tz i = 62 # 32 # suffix"
        show ?thesis
        proof (cases vs)
          case Nil
          with vs d(3) show ?thesis by simp
        next
          case (Cons v vs')
          with vs have "62 \<in> set (32 # time @ [32])" by (metis append_Cons in_set_conv_decomp list.inject)
          with digits show ?thesis by simp
        qed
      next
        assume "(32 # time @ [32]) @ vs = us' \<and> id_tz i = vs @ 62 # 32 # suffix"
        with d(3) show ?thesis by simp
      qed
    qed
  qed
  with t(3) d(2,4) show ?thesis by (simp add: split_on_append)
qed

text \<open>Over the header lines of one commit.\<close>

lemma readers_agree_lines:
  assumes "header_lines x ls f = Inr f'" and "meta_lines x ls (hf_parents f) (map_option id_time (hf_committer f)) = Inr (ps, t)"
  shows "ps = hf_parents f' \<and> t = map_option id_time (hf_committer f')"
  using assms
proof (induction ls arbitrary: f)
  case (Cons line rest)
  show ?case
  proof (cases "prefix [32] line")
    case True
    with Cons show ?thesis by simp
  next
    case False
    from Cons.prems(1) False obtain name val f1 where h: "map_err (with_oid_if_none x) (split_header line) = Inr (name, val)"
      "header_line x name val f = Inr f1" "header_lines x rest f1 = Inr f'" by (auto simp: rbind_Inr_iff)
    have agree: "t = id_time i" if "map_err g (decode_identity val) = Inr i" "map_err g' (identity_time val) = Inr t" for g g' i t
      using that identity_time_agrees by (auto simp: map_err_def split: sum.splits)
    have "meta_lines x rest (hf_parents f1) (map_option id_time (hf_committer f1)) = Inr (ps, t)"
      using Cons.prems(2) False h(1,2) agree
      by (auto simp: rbind_Inr_iff header_line_def split: if_splits)
    from Cons.IH [OF h(3) this] show ?thesis .
  qed
qed simp

text \<open>The committer time that orders and bounds a log is the one its pages show.\<close>

lemma readers_agree:
  assumes "meta_from_payload db opts x payload = Inr meta" and "decode_log_commit x payload shallow = Inr c"
  shows "li_time (lc_committer c) = cm_time meta"
proof -
  from assms obtain headers ps t f i where "meta_lines x (split_on 10 headers) [] None = Inr (ps, Some t)" "cm_time meta = t"
    "header_lines x (split_on 10 headers) no_fields = Inr f" "hf_committer f = Some i" "lc_committer c = log_identity_of i"
    by (auto simp: meta_from_payload_def decode_log_commit_def rbind_Inr_iff Let_def)
  with readers_agree_lines [of x "split_on 10 headers" no_fields f ps "Some t"] show ?thesis
    by (simp add: no_fields_def log_identity_of_def)
qed

section \<open>Printed commits are read back\<close>

definition header_of :: "string \<Rightarrow> bytes \<Rightarrow> bytes" where
  "header_of name val = ascii name @ 32 # val"

definition commit_headers :: "oid \<Rightarrow> oid list \<Rightarrow> bytes \<Rightarrow> bytes \<Rightarrow> bytes list" where
  "commit_headers tree parents author committer = header_of ''tree'' (ascii (to_hex tree))
    # map (\<lambda>p. header_of ''parent'' (ascii (to_hex p))) parents
    @ [header_of ''author'' author, header_of ''committer'' committer]"

definition print_commit :: "oid \<Rightarrow> oid list \<Rightarrow> bytes \<Rightarrow> bytes \<Rightarrow> bytes \<Rightarrow> bytes" where
  "print_commit tree parents author committer message =
    join_with 10 (commit_headers tree parents author committer) @ 10 # 10 # message"

lemma blank_line_after: "10 \<notin> set l \<Longrightarrow> blank_line (l @ 10 # b # r)
    = (if b = 10 then Some (length l) else map_option (\<lambda>n. length l + 1 + n) (blank_line (b # r)))"
proof (induction l)
  case (Cons a l)
  then show ?case by (cases l) (auto simp: option.map_comp comp_def)
next
  case Nil
  then show ?case by (cases "blank_line (b # r)") auto
qed

lemma blank_line_join:
  "ls \<noteq> [] \<Longrightarrow> \<forall>l \<in> set ls. l \<noteq> [] \<and> 10 \<notin> set l \<Longrightarrow> blank_line (join_with 10 ls @ 10 # 10 # msg) = Some (length (join_with 10 ls))"
proof (induction "10 :: byte" ls rule: join_with.induct)
  case (3 s t ss)
  from "3.prems" obtain b r where br: "join_with 10 (t # ss) = b # r" "b \<noteq> 10" by (cases t; cases ss) auto
  with "3" blank_line_after [of s b "r @ 10 # 10 # msg"] show ?case by simp
qed (simp_all add: blank_line_after)

lemma split_commit_print:
  assumes "\<forall>l \<in> set ls. l \<noteq> [] \<and> 10 \<notin> set l" and "ls \<noteq> []"
  shows "split_commit (join_with 10 ls @ 10 # 10 # msg) = Inr (join_with 10 ls, msg)"
  using blank_line_join [OF assms(2,1)] by (simp add: split_commit_def)

lemma split_header_of:
  assumes "32 \<notin> set (ascii name)" and "name \<noteq> []" and "val \<noteq> []"
  shows "split_header (header_of name val) = Inr (ascii name, val)"
proof -
  have "position (\<lambda>b. b = 32) (ascii name @ 32 # val) = Some (length (ascii name))"
    by (rule position_append_fresh) (use assms(1) in auto)
  then show ?thesis using assms(2,3) by (simp add: split_header_def header_of_def)
qed

lemma parse_oid_print: "oid_wf x \<Longrightarrow> parse_oid (ascii (to_hex x)) (oid_kind x) field obj = Inr x"
  by (simp add: parse_oid_def to_hex_utf8 bytes_str_ascii parse_hex_to_hex)

lemma header_of_plain [simp]:
  "\<not> prefix [32] (header_of ''tree'' v)" "\<not> prefix [32] (header_of ''parent'' v)"
  "\<not> prefix [32] (header_of ''author'' v)" "\<not> prefix [32] (header_of ''committer'' v)"
  by (simp_all add: header_of_def)

lemma split_header_names [simp]:
  "v \<noteq> [] \<Longrightarrow> split_header (header_of ''tree'' v) = Inr (ascii ''tree'', v)"
  "v \<noteq> [] \<Longrightarrow> split_header (header_of ''parent'' v) = Inr (ascii ''parent'', v)"
  "v \<noteq> [] \<Longrightarrow> split_header (header_of ''author'' v) = Inr (ascii ''author'', v)"
  "v \<noteq> [] \<Longrightarrow> split_header (header_of ''committer'' v) = Inr (ascii ''committer'', v)"
  by (simp_all add: split_header_of)

lemma to_hex_ne: "oid_wf x \<Longrightarrow> ascii (to_hex x) \<noteq> []"
  using length_to_hex [of x] by (cases "oid_kind x") (auto simp: ascii_def)

text \<open>The walk's reader on printed headers.\<close>

lemma meta_lines_parents:
  assumes "\<forall>p \<in> set parents. oid_wf p \<and> oid_kind p = oid_kind x"
  shows "meta_lines x (map (\<lambda>p. header_of ''parent'' (ascii (to_hex p))) parents @ ls) ps t = meta_lines x ls (ps @ parents) t"
  using assms
proof (induction parents arbitrary: ps)
  case (Cons p parents)
  then have p: "parse_oid (ascii (to_hex p)) (oid_kind x) ''commit parent'' x = Inr p" "ascii (to_hex p) \<noteq> []"
    using parse_oid_print [of p] to_hex_ne [of p] by auto
  then show ?case using Cons by (simp add: map_err_def)
qed simp

lemma meta_lines_print:
  assumes "\<forall>p \<in> set (tree # parents). oid_wf p \<and> oid_kind p = oid_kind x" and "author \<noteq> []" and "committer \<noteq> []"
    and "identity_time committer = Inr t"
  shows "meta_lines x (commit_headers tree parents author committer) [] None = Inr (parents, Some t)"
  using assms to_hex_ne [of tree] by (simp add: commit_headers_def meta_lines_parents map_err_def)

text \<open>The page's reader on printed headers.\<close>

lemma header_lines_parents:
  assumes "\<forall>p \<in> set parents. oid_wf p \<and> oid_kind p = oid_kind x"
  shows "header_lines x (map (\<lambda>p. header_of ''parent'' (ascii (to_hex p))) parents @ ls) f
    = header_lines x ls (f\<lparr>hf_parents := hf_parents f @ parents\<rparr>)"
  using assms
proof (induction parents arbitrary: f)
  case (Cons p parents)
  then have p: "parse_oid (ascii (to_hex p)) (oid_kind x) ''commit parent'' x = Inr p" "ascii (to_hex p) \<noteq> []"
    using parse_oid_print [of p] to_hex_ne [of p] by auto
  then show ?case using Cons by (simp add: map_err_def header_line_def)
qed simp

lemma header_lines_print:
  assumes "\<forall>p \<in> set (tree # parents). oid_wf p \<and> oid_kind p = oid_kind x" and "author \<noteq> []" and "committer \<noteq> []"
    and "decode_identity author = Inr a" and "decode_identity committer = Inr c"
  shows "header_lines x (commit_headers tree parents author committer) no_fields = Inr
    (no_fields\<lparr>hf_tree := Some tree, hf_parents := parents, hf_author := Some a, hf_committer := Some c\<rparr>)"
  using assms to_hex_ne [of tree] parse_oid_print [of tree]
  by (simp add: commit_headers_def header_lines_parents map_err_def header_line_def no_fields_def)

lemma to_hex_no_newline: "10 \<notin> set (ascii (to_hex x))"
proof
  assume "10 \<in> set (ascii (to_hex x))"
  then obtain d :: byte where d: "10 = (of_char (hex_char (drop_bit 4 d)) :: byte) \<or> 10 = (of_char (hex_char (d AND 15)) :: byte)"
    by (auto simp: ascii_def to_hex_def) blast+
  have "unat (drop_bit 4 d) < 16"
    unfolding unat_drop_bit_eq using unat_byte_less [of d] by (simp add: drop_bit_eq_div)
  moreover have "unat (d AND 15) < 16" using word_and_le1 [of d 15] by (simp add: word_le_nat_alt)
  moreover have "(of_char (hex_char e) :: byte) \<noteq> 10" if "unat e < 16" for e
  proof
    assume "(of_char (hex_char e) :: byte) = 10"
    then have "unat (of_char (hex_char e) :: byte) = 10" by simp
    with that show False by (auto simp: unat_of_char hex_char_def split: if_splits)
  qed
  ultimately show False using d by metis
qed

lemma commit_headers_lines:
  assumes "10 \<notin> set author" and "10 \<notin> set committer"
  shows "\<forall>l \<in> set (commit_headers tree parents author committer). l \<noteq> [] \<and> 10 \<notin> set l"
  using assms to_hex_no_newline by (auto simp: commit_headers_def header_of_def)

lemma split_printed:
  assumes "10 \<notin> set author" and "10 \<notin> set committer"
  shows "split_commit (print_commit tree parents author committer message)
      = Inr (join_with 10 (commit_headers tree parents author committer), message)"
    and "split_on 10 (join_with 10 (commit_headers tree parents author committer)) = commit_headers tree parents author committer"
proof -
  have ne: "commit_headers tree parents author committer \<noteq> []" by (simp add: commit_headers_def)
  note lines = commit_headers_lines [OF assms, of tree parents]
  show "split_commit (print_commit tree parents author committer message)
      = Inr (join_with 10 (commit_headers tree parents author committer), message)"
    unfolding print_commit_def by (rule split_commit_print [OF lines ne])
  show "split_on 10 (join_with 10 (commit_headers tree parents author committer)) = commit_headers tree parents author committer"
    using lines by (intro split_join_with [OF ne]) blast
qed

text \<open>A printed commit in full: what the walk and what a page read from it.\<close>

definition good_commit :: "oid \<Rightarrow> oid \<Rightarrow> oid list \<Rightarrow> bytes \<Rightarrow> bytes \<Rightarrow> identity \<Rightarrow> identity \<Rightarrow> bool" where
  "good_commit x tree parents author committer a c \<longleftrightarrow>
    (\<forall>p \<in> set (tree # parents). oid_wf p \<and> oid_kind p = oid_kind x)
    \<and> 10 \<notin> set author \<and> 10 \<notin> set committer \<and> decode_identity author = Inr a \<and> decode_identity committer = Inr c
    \<and> identity_time committer = Inr (id_time c)"

lemma decode_identity_ne: "decode_identity raw = Inr i \<Longrightarrow> raw \<noteq> []"
  by (auto simp: decode_identity_def)

lemma meta_printed:
  assumes "good_commit x tree parents author committer a c"
  shows "meta_from_payload db opts x (print_commit tree parents author committer message) = Inr
    \<lparr>cm_parents = (if (case lo_since opts of None \<Rightarrow> False | Some since \<Rightarrow> id_time c < since) \<or> is_shallow db x then []
       else if lo_first_parent opts then take 1 parents else parents), cm_time = id_time c\<rparr>"
proof -
  from assms have g: "\<forall>p \<in> set (tree # parents). oid_wf p \<and> oid_kind p = oid_kind x" "10 \<notin> set author" "10 \<notin> set committer"
    "author \<noteq> []" "committer \<noteq> []" "identity_time committer = Inr (id_time c)"
    unfolding good_commit_def by (auto dest: decode_identity_ne)
  from meta_lines_print [OF g(1,4,5,6)] show ?thesis
    by (simp add: meta_from_payload_def split_printed [OF g(2,3)] map_err_def Let_def)
qed

lemma log_commit_printed:
  assumes "good_commit x tree parents author committer a c"
  shows "decode_log_commit x (print_commit tree parents author committer message) shallow = Inr
    \<lparr>lc_id = x, lc_parents = (if shallow then [] else parents), lc_tree_id = tree,
      lc_author = log_identity_of a, lc_committer = log_identity_of c,
      lc_subject = take SUBJECT_BYTES (takeWhile (\<lambda>b. b \<noteq> 10) message),
      lc_subject_truncated = (SUBJECT_BYTES < length (takeWhile (\<lambda>b. b \<noteq> 10) message)),
      lc_message_raw = take MESSAGE_BYTES message, lc_message_truncated = (MESSAGE_BYTES < length message),
      lc_signature_headers = [], lc_encoding = None\<rparr>"
proof -
  from assms have g: "\<forall>p \<in> set (tree # parents). oid_wf p \<and> oid_kind p = oid_kind x" "10 \<notin> set author" "10 \<notin> set committer"
    "author \<noteq> []" "committer \<noteq> []" "decode_identity author = Inr a" "decode_identity committer = Inr c"
    unfolding good_commit_def by (auto dest: decode_identity_ne)
  let ?len = "case position (\<lambda>b. b = 10) message of None \<Rightarrow> length message | Some i \<Rightarrow> i"
  have len: "?len = length (takeWhile (\<lambda>b. b \<noteq> 10) message) \<and> take ?len message = takeWhile (\<lambda>b. b \<noteq> 10) message"
  proof (cases "position (\<lambda>b. b = 10) message")
    case None
    then have all: "takeWhile (\<lambda>b. b \<noteq> 10) message = message" by (simp add: takeWhile_eq_all_conv)
    show ?thesis unfolding None option.case all by simp
  next
    case (Some i)
    have tw: "take i message = takeWhile (\<lambda>b. b \<noteq> 10) message" by (rule position_takeWhile [OF Some])
    have "length (take i message) = i" using position_Some_less [OF Some] by simp
    then show ?thesis unfolding Some option.case tw by simp
  qed
  have "take (min ?len SUBJECT_BYTES) message = take SUBJECT_BYTES (take ?len message)" by (simp only: take_take min.commute)
  then have "take (min ?len SUBJECT_BYTES) message = take SUBJECT_BYTES (takeWhile (\<lambda>b. b \<noteq> 10) message)"
    by (simp only: conjunct2 [OF len])
  moreover have "take (min (length message) MESSAGE_BYTES) message = take MESSAGE_BYTES message"
    by (simp add: min_def)
  ultimately show ?thesis
    unfolding decode_log_commit_def split_printed(1) [OF g(2,3)] map_err_def sum.case rbind_simps prod.case
      split_printed(2) [OF g(2,3)] header_lines_print [OF g(1,4,5,6,7)] Let_def
    using len by (simp add: no_fields_def)
qed

text \<open>
  Commits survive printing: for a tree and parents of the commit's own hash kind, identities
  without newlines and any message, the reader of the log returns exactly the printed parents,
  tree and identities, the message up to 64 KiB and the first line of it up to 1 KiB with flags
  for what was cut, and the walk reads the same committer time and the parents that the options
  let it follow.
\<close>

theorem log_commit_roundtrip:
  assumes "good_commit x tree parents author committer a c"
  shows "decode_log_commit x (print_commit tree parents author committer message) False = Inr
    \<lparr>lc_id = x, lc_parents = parents, lc_tree_id = tree,
      lc_author = log_identity_of a, lc_committer = log_identity_of c,
      lc_subject = take SUBJECT_BYTES (takeWhile (\<lambda>b. b \<noteq> 10) message),
      lc_subject_truncated = (SUBJECT_BYTES < length (takeWhile (\<lambda>b. b \<noteq> 10) message)),
      lc_message_raw = take MESSAGE_BYTES message, lc_message_truncated = (MESSAGE_BYTES < length message),
      lc_signature_headers = [], lc_encoding = None\<rparr>
    \<and> meta_from_payload db opts x (print_commit tree parents author committer message) = Inr
    \<lparr>cm_parents = (if (case lo_since opts of None \<Rightarrow> False | Some since \<Rightarrow> id_time c < since) \<or> is_shallow db x then []
       else if lo_first_parent opts then take 1 parents else parents), cm_time = id_time c\<rparr>"
  using log_commit_printed [OF assms, of message False] by (intro conjI meta_printed [OF assms]) simp

lemma ascii_append: "ascii (s @ t) = ascii s @ ascii t"
  by (simp add: ascii_def)

lemma identity_time_printed:
  assumes "parse_i64 time = Some t" and "62 \<notin> set tz"
  shows "identity_time (pre @ 62 # 32 # time @ 32 # tz) = Inr t"
proof -
  note ascii_time = parse_i64_ascii [OF assms(1)]
  let ?raw = "pre @ 62 # 32 # time @ 32 # tz"
  have "position (\<lambda>b. b = 62) (rev (32 # time @ 32 # tz) @ 62 # rev pre) = Some (length (rev (32 # time @ 32 # tz)))"
    by (rule position_append_fresh) (use ascii_time assms(2) in \<open>auto simp: is_digit_def\<close>)
  then have pos: "rposition (\<lambda>b. b = 62) ?raw = Some (length pre)" by (simp add: rposition_def)
  have "32 \<notin> set time" using ascii_time(2) by (auto simp: is_digit_def)
  then have split: "split_on 32 (time @ 32 # tz) = time # split_on 32 tz" by (rule split_on_append)
  have utf8: "utf8_valid time" using ascii_time(2) by (intro utf8_valid_ascii) (auto simp: is_digit_def)
  show ?thesis unfolding identity_time_def pos using ascii_time(1) assms(1) utf8
    by (simp add: strip_prefix_def split Let_def)
qed

definition demo_oid :: "byte \<Rightarrow> oid" where
  "demo_oid b = Oid Sha1 (replicate 19 0 @ b # replicate 12 0)"

lemma demo_oid_wf [simp]: "oid_wf (demo_oid b)" "oid_kind (demo_oid b) = Sha1"
  by (simp_all add: demo_oid_def oid_wf_def MAX_DIGEST_LEN_def)

lemma demo_oid_eq [simp]: "demo_oid a = demo_oid b \<longleftrightarrow> a = b"
  by (simp add: demo_oid_def)

definition demo_identity :: "string \<Rightarrow> bytes" where
  "demo_identity time = ascii (''A U <a@x> '' @ time @ '' +0130'')"

definition demo_id :: "int \<Rightarrow> identity" where
  "demo_id t = \<lparr>id_name = ascii ''A U'', id_email = ascii ''a@x'', id_time = t, id_tz = ascii ''+0130''\<rparr>"

lemma demo_identity_decodes:
  assumes "parse_i64 (ascii time) = Some t"
  shows "decode_identity (demo_identity time) = Inr (demo_id t)" and "identity_time (demo_identity time) = Inr t"
    and "10 \<notin> set (demo_identity time)"
proof -
  note time = parse_i64_ascii(2) [OF assms]
  have raw: "demo_identity time = ascii ''A U'' @ [32] @ [60] @ ascii ''a@x'' @ [62, 32] @ ascii time @ [32] @ ascii ''+0130''"
    by (simp add: demo_identity_def ascii_append)
  show "decode_identity (demo_identity time) = Inr (demo_id t)"
    unfolding raw demo_id_def
    by (rule decode_identity_roundtrip_lemma) (use assms in \<open>simp_all add: is_ascii_whitespace_def\<close>)
  show "10 \<notin> set (demo_identity time)" using time by (auto simp: raw is_digit_def)
  have "identity_time ((ascii ''A U'' @ [32] @ [60] @ ascii ''a@x'') @ 62 # 32 # ascii time @ 32 # ascii ''+0130'') = Inr t"
    by (rule identity_time_printed) (use assms time in \<open>auto simp: is_digit_def\<close>)
  then show "identity_time (demo_identity time) = Inr t" by (simp add: raw)
qed

theorem log_commit_roundtrip_witness:
  "decode_log_commit (demo_oid 3) (print_commit (demo_oid 9) [demo_oid 1, demo_oid 2] (demo_identity ''5'') (demo_identity ''7'')
      (ascii ''fix'' @ [10] @ ascii ''more'')) False = Inr
    \<lparr>lc_id = demo_oid 3, lc_parents = [demo_oid 1, demo_oid 2], lc_tree_id = demo_oid 9,
      lc_author = log_identity_of (demo_id 5), lc_committer = log_identity_of (demo_id 7), lc_subject = ascii ''fix'',
      lc_subject_truncated = False, lc_message_raw = ascii ''fix'' @ [10] @ ascii ''more'', lc_message_truncated = False,
      lc_signature_headers = [], lc_encoding = None\<rparr>
   \<and> li_tz_offset_minutes (log_identity_of (demo_id 7)) = Some 90"
proof -
  have "good_commit (demo_oid 3) (demo_oid 9) [demo_oid 1, demo_oid 2] (demo_identity ''5'') (demo_identity ''7'') (demo_id 5) (demo_id 7)"
    using demo_identity_decodes [of "''5''" 5] demo_identity_decodes [of "''7''" 7]
    by (simp add: good_commit_def parse_i64_def is_digit_def) (simp add: demo_id_def)
  from conjunct1 [OF log_commit_roundtrip [OF this, of "ascii ''fix'' @ [10] @ ascii ''more''"]]
  show ?thesis by (simp add: SUBJECT_BYTES_def MESSAGE_BYTES_def log_identity_of_def demo_id_def timezone_offset_minutes_def is_digit_def)
qed

end
