(* ===== verification/LogPages.thy ===== *)
theory LogPages
  imports LogWalks
begin

text \<open>
  Pages of the commit log against the sequence of its walk: what a page shows, that pages join,
  that the loops end, and that over a complete store without ceilings a page is returned.
\<close>

section \<open>The walks over a store\<close>

lemma read_payload_answers:
  assumes "object_store db I (\<lambda>x v. v = m x)"
  shows "answers I (\<lambda>p. m x = Some (Commit, p)) (read_payload db x i)"
  unfolding read_payload_def
  by (rule answers_sbind [OF answers_smap_err [OF object_store.find_graph_law [OF assms]]])
     (auto split: option.split intro!: answers_sraise answers_sreturn)

lemma read_meta_answers:
  assumes "object_store db I (\<lambda>x v. v = m x)"
  shows "answers I (\<lambda>meta. meta = meta_at db opts m x) (read_meta db opts x i)"
  unfolding read_meta_def
  by (rule answers_sbind [OF read_payload_answers [OF assms]])
     (auto simp: meta_at_def intro!: answers_slift)

lemma push_parents_answers:
  assumes "object_store db I (\<lambda>x v. v = m x)"
  shows "answers I (\<lambda>cw'. cw_pending_error cw' = None \<longrightarrow> cw' = push_known (meta_at db opts m) ps cw)
    (push_parents db opts ps cw)"
proof (induction ps arbitrary: cw)
  case (Cons p ps)
  show ?case
    by (auto simp: Let_def intro!: Cons.IH answers_sbind [OF answers_sattempt [OF read_meta_answers [OF assms]]]
        answers_sreturn split: sum.splits)
qed (auto intro: answers_sreturn)

definition stepped :: "('q \<Rightarrow> bool) \<Rightarrow> (walked_commit \<times> 'q) option \<Rightarrow> (error + walked_commit) option \<times> 'q \<Rightarrow> bool" where
  "stepped fine spec r \<longleftrightarrow>
    (case fst r of
       None \<Rightarrow> spec = None
     | Some (Inl e) \<Rightarrow> True
     | Some (Inr v) \<Rightarrow> \<exists>q. spec = Some (v, q) \<and> (fine (snd r) \<longrightarrow> snd r = q))"

lemma chronological_next_answers:
  assumes "object_store db I (\<lambda>x v. v = m x)" and "cw_pending_error cw = None"
  shows "answers I (stepped (\<lambda>cw. cw_pending_error cw = None) (chron_step (meta_at db opts m) cw))
    (chronological_next db opts charge_visit cw)"
proof (cases "pop_max commit_key (cw_queue cw)")
  case None
  with assms(2) show ?thesis
    by (simp add: chronological_next_def chron_step_def stepped_def answers_sreturn)
next
  case (Some p)
  then obtain t q where pop: "pop_max commit_key (cw_queue cw) = Some (t, q)" by (cases p) auto
  have charge: "answers I (\<lambda>_. True) (sattempt (on_budget bop))" for bop :: "unit bop"
    by (rule answers_conseq [OF answers_sattempt [OF answers_on_budget]]) auto
  show ?thesis
    unfolding chronological_next_def pop using assms(2)
    by (auto simp: chron_step_def pop stepped_def walked_of_def split: sum.splits
        intro!: answers_sbind [OF charge] answers_sbind [OF push_parents_answers [OF assms(1)]] answers_sreturn)
qed

lemma walk_next_answers:
  assumes "object_store db I (\<lambda>x v. v = m x)" and "walk_inv (meta_at db opts m) start D w"
  shows "answers I (stepped untroubled (spec_step (meta_at db opts m) w)) (walk_next db opts charge_visit w)"
proof (cases w)
  case (ChronologicalWalk cw)
  with assms(2) have "cw_pending_error cw = None" by (simp add: chron_inv_def)
  from chronological_next_answers [OF assms(1) this, of opts charge_visit] show ?thesis
    unfolding ChronologicalWalk walk_next.simps
    by (rule answers_sbind) (auto simp: stepped_def split: option.splits sum.splits intro!: answers_sreturn)
next
  case (OrderedWalk ow)
  with assms(2) ordered_next_ok [of "meta_at db opts m" start D ow] show ?thesis
    by (cases "ordered_next ow")
       (auto simp: stepped_def ordered_step_def split: option.splits sum.splits if_splits intro!: answers_sreturn)
qed

lemma troubled_next:
  assumes "\<not> untroubled w"
  shows "answers I (\<lambda>r. \<exists>e. fst r = Some (Inl e)) (walk_next db opts charge_visit w)"
  using assms
  by (cases w) (auto simp: chronological_next_def intro!: answers_sbind [where Q = "\<lambda>r. \<exists>e. fst r = Some (Inl e)"] answers_sreturn)

lemma untroubled_take [simp]: "untroubled w \<Longrightarrow> take_pending_error w = (None, w)"
  by (cases w) auto

lemma troubled_take: "\<not> untroubled w \<Longrightarrow> \<exists>e w'. take_pending_error w = (Some e, w')"
  by (cases w) auto

section \<open>The loop\<close>

definition commit_shown :: "'w odb \<Rightarrow> (oid \<Rightarrow> object_read) \<Rightarrow> log_commit \<Rightarrow> walked_commit \<Rightarrow> bool" where
  "commit_shown db m c v \<longleftrightarrow> (\<exists>payload. m (wc_id v) = Some (Commit, payload)
    \<and> decode_log_commit (wc_id v) payload (is_shallow db (wc_id v)) = Inr c)"

text \<open>The commits of a sequence that a page still has to show.\<close>

definition after_resume :: "bool \<Rightarrow> oid option \<Rightarrow> walked_commit list \<Rightarrow> walked_commit list" where
  "after_resume found resume vs = (if found then vs else tl (dropWhile (\<lambda>v. Some (wc_id v) \<noteq> resume) vs))"

definition log_selection :: "log_options \<Rightarrow> bool \<Rightarrow> oid option \<Rightarrow> walked_commit list \<Rightarrow> walked_commit list" where
  "log_selection opts found resume vs = filter (\<lambda>v. within_time_bounds (wc_time v) opts) (after_resume found resume vs)"

definition log_post :: "'w odb \<Rightarrow> (oid \<Rightarrow> object_read) \<Rightarrow> log_options \<Rightarrow> oid option \<Rightarrow> bool \<Rightarrow> log_commit list
    \<Rightarrow> walked_commit list \<Rightarrow> bool \<Rightarrow> log_run option \<Rightarrow> bool" where
  "log_post db m opts resume found commits vs enough r \<longleftrightarrow>
    (case r of
       None \<Rightarrow> \<not> enough
     | Some (found', commits', stopped) \<Rightarrow>
         \<exists>new. commits' = commits @ new \<and> length commits' \<le> lo_limit opts
         \<and> length new \<le> length (log_selection opts found resume vs)
         \<and> list_all2 (commit_shown db m) new (take (length new) (log_selection opts found resume vs))
         \<and> (if stopped = None
            then length new = length (log_selection opts found resume vs)
              \<and> found' = (found \<or> (\<exists>v \<in> set vs. Some (wc_id v) = resume))
            else found' \<and> commits' \<noteq> []))"

lemma log_selection_simps [simp]:
  "log_selection opts found resume [] = []"
  "log_selection opts True resume (v # vs) =
    (if within_time_bounds (wc_time v) opts then v # log_selection opts True resume vs else log_selection opts True resume vs)"
  "log_selection opts False resume (v # vs) = log_selection opts (Some (wc_id v) = resume) resume vs"
  by (auto simp: log_selection_def after_resume_def)

lemma log_post_stop:
  "found \<Longrightarrow> commits \<noteq> [] \<Longrightarrow> length commits \<le> lo_limit opts \<Longrightarrow> log_post db m opts resume found commits vs enough (Some (found, commits, Some l))"
  by (simp add: log_post_def)

lemma log_post_enough:
  "log_post db m opts resume found commits vs enough r \<Longrightarrow> (enough' \<Longrightarrow> enough) \<Longrightarrow>
    log_post db m opts resume found commits vs enough' r"
  by (cases r) (auto simp only: log_post_def option.case)

lemma log_post_skip: "log_post db m opts resume False commits (v # vs) enough
    = log_post db m opts resume (Some (wc_id v) = resume) commits vs enough"
  by (rule ext) (simp add: log_post_def split: option.split)

lemma log_post_pass: "\<not> within_time_bounds (wc_time v) opts \<Longrightarrow>
    log_post db m opts resume True commits (v # vs) enough = log_post db m opts resume True commits vs enough"
  by (rule ext) (simp add: log_post_def split: option.split)

lemma log_post_emit:
  assumes "log_post db m opts resume True (commits @ [c]) vs enough' r" and "commit_shown db m c v"
    and "within_time_bounds (wc_time v) opts" and "enough \<Longrightarrow> enough'"
  shows "log_post db m opts resume True commits (v # vs) enough r"
proof (cases r)
  case None
  with assms(1,4) show ?thesis by (auto simp: log_post_def)
next
  case (Some t)
  obtain found' commits' stopped where t: "t = (found', commits', stopped)" by (cases t)
  from assms(1) obtain new where "commits' = (commits @ [c]) @ new" "length commits' \<le> lo_limit opts"
    "length new \<le> length (log_selection opts True resume vs)"
    "list_all2 (commit_shown db m) new (take (length new) (log_selection opts True resume vs))"
    "if stopped = None then length new = length (log_selection opts True resume vs) \<and> found' else found' \<and> commits' \<noteq> []"
    by (auto simp: log_post_def Some t)
  with assms(2,3) show ?thesis unfolding Some t log_post_def
    by simp
qed

lemma stop_or_fail_answers:
  "(\<not> found \<longrightarrow> commits = []) \<Longrightarrow> length commits \<le> lo_limit opts \<Longrightarrow>
    answers I (log_post db m opts resume found commits vs enough) (stop_or_fail found commits e)"
  by (auto simp: stop_or_fail_def intro!: answers_sreturn answers_sraise log_post_stop)

text \<open>A walk with an error waiting shows nothing more.\<close>

lemma troubled_loop:
  assumes "\<not> untroubled w" and "\<not> found \<longrightarrow> commits = []" and "length commits \<le> lo_limit opts"
  shows "answers I (log_post db m opts resume found commits vs (0 < fuel)) (log_loop fuel db opts resume found commits w)"
proof (cases fuel)
  case 0
  then show ?thesis by (auto simp: log_post_def intro!: answers_sreturn)
next
  case (Suc f)
  show ?thesis unfolding Suc log_loop.simps
    by (rule answers_sbind [OF answers_on_budget [where P = "\<lambda>_. True"] answers_sbind [OF troubled_next [OF assms(1)]]])
       (auto simp: log_turn_def intro!: stop_or_fail_answers assms(2,3))
qed
lemma show_commit_answers:
  assumes store: "object_store db I (\<lambda>x v. v = m x)"
    and room: "length commits < lo_limit opts" and bounds: "within_time_bounds (wc_time v) opts"
    and go_on: "\<And>c. untroubled w \<Longrightarrow>
      answers I (log_post db m opts resume True (commits @ [c]) vs enough') (go_on (commits @ [c]) w)"
    and enough: "enough \<Longrightarrow> enough'"
  shows "answers I (log_post db m opts resume True commits (v # vs) enough) (show_commit db opts go_on commits v w)"
proof -
  have emit: "answers I (log_post db m opts resume True commits (v # vs) enough) op"
    if "commit_shown db m c v" and "answers I (log_post db m opts resume True (commits @ [c]) vs enough') op" for c op
    using that(2) by (rule answers_conseq) (rule log_post_emit [OF _ that(1) bounds enough])
  have shown: "answers I (log_post db m opts resume True commits (v # vs) enough)
      (case take_pending_error w of
         (Some e, _) \<Rightarrow> stop_or_fail True (commits @ [c]) e
       | (None, w2) \<Rightarrow>
           if length (commits @ [c]) = lo_limit opts \<and> has_matching opts w2
           then sreturn (Some (True, commits @ [c], Some ''limit''))
           else go_on (commits @ [c]) w2)"
    if c: "commit_shown db m c v" for c
  proof (cases "untroubled w")
    case True
    show ?thesis unfolding untroubled_take [OF True] prod.case option.case
      by (rule emit [OF c]) (use room go_on [OF True] in \<open>auto intro!: answers_sreturn log_post_stop\<close>)
  next
    case False
    then obtain e w' where "take_pending_error w = (Some e, w')" using troubled_take by blast
    then show ?thesis using room stop_or_fail_answers [of True "commits @ [c]" opts] by (auto intro!: emit [OF c])
  qed
  show ?thesis unfolding show_commit_def Let_def
    by (rule answers_sbind [OF answers_sattempt [OF read_payload_answers [OF store]]])
       (use room in \<open>auto split: sum.split simp: commit_shown_def intro!: stop_or_fail_answers shown
          answers_sbind [OF answers_slift [where P = "\<lambda>c. commit_shown db m c v"]]\<close>)
qed

lemma log_loop_answers:
  assumes store: "object_store db I (\<lambda>x v. v = m x)" and limit: "0 < lo_limit opts"
    and "walk_inv (meta_at db opts m) start D w" and "walks (spec_step (meta_at db opts m)) w vs"
    and "\<not> found \<longrightarrow> commits = []" and "length commits \<le> lo_limit opts"
  shows "answers I (log_post db m opts resume found commits vs (length vs < fuel)) (log_loop fuel db opts resume found commits w)"
  using assms(3-6)
proof (induction fuel arbitrary: D w vs found commits)
  case 0
  show ?case by (auto simp: log_post_def intro!: answers_sreturn)
next
  case (Suc fuel)
  let ?N = "meta_at db opts m" and ?go_on = "\<lambda>found1 commits1 w1. log_loop fuel db opts resume found1 commits1 w1"
  have turn: "answers I (log_post db m opts resume found commits vs (length vs < Suc fuel))
      (log_turn db opts resume ?go_on found commits (r, w1))"
    if st: "stepped untroubled (spec_step ?N w) (r, w1)" for r w1
  proof (cases "\<exists>v. r = Some (Inr v)")
    case False
    have "vs = []" if "r = None" using st that Suc.prems(2) by (auto simp: stepped_def elim: walks.cases)
    then have "r = None \<Longrightarrow> log_post db m opts resume found commits vs (length vs < Suc fuel) (Some (found, commits, None))"
      using Suc.prems(4) by (simp add: log_post_def)
    with False Suc.prems(3,4) show ?thesis
      by (cases r) (auto simp: log_turn_def intro!: answers_sreturn stop_or_fail_answers split: sum.splits)
  next
    case True
    then obtain v where r: "r = Some (Inr v)" by blast
    from st r obtain w2 where step: "spec_step ?N w = Some (v, w2)" and w2: "untroubled w1 \<Longrightarrow> w1 = w2"
      by (auto simp: stepped_def)
    from Suc.prems(2) step obtain vs' where vs: "vs = v # vs'" "walks (spec_step ?N) w2 vs'"
      by (cases rule: walks.cases) auto
    have inv: "walk_inv ?N start (insert (wc_id v) D) w2" using walk.step_some [OF Suc.prems(1) step] by simp
    have loop: "answers I (log_post db m opts resume found1 commits1 vs' (length vs' < fuel)) (?go_on found1 commits1 w1)"
      if "\<not> found1 \<longrightarrow> commits1 = []" "length commits1 \<le> lo_limit opts" for found1 commits1
    proof (cases "untroubled w1")
      case True
      with w2 Suc.IH [OF inv vs(2) that] show ?thesis by simp
    next
      case False
      show ?thesis by (rule answers_conseq [OF troubled_loop [OF False that]]) (auto elim: log_post_enough)
    qed
    show ?thesis
    proof (cases found)
      case False
      with loop [of "Some (wc_id v) = resume" commits] Suc.prems(3,4) show ?thesis
        by (simp add: log_turn_def r vs(1) log_post_skip)
    next
      case True
      have skip: "answers I (log_post db m opts resume found commits vs (length vs < Suc fuel)) (?go_on found commits w1)"
        if "\<not> within_time_bounds (wc_time v) opts"
        using loop [OF Suc.prems(3,4)] True that by (simp add: vs(1) log_post_pass)
      have "answers I (log_post db m opts resume True commits (v # vs') (length (v # vs') < Suc fuel))
          (show_commit db opts (?go_on True) commits v w1)"
        if "within_time_bounds (wc_time v) opts" and "length commits < lo_limit opts"
        using that loop by (intro show_commit_answers [OF store, where enough' = "length vs' < fuel"]) auto
      with True skip Suc.prems(4) limit show ?thesis
        by (auto simp: log_turn_def r vs(1) intro!: answers_sreturn log_post_stop)
    qed
  qed
  show ?case unfolding log_loop.simps
    by (rule answers_sbind [OF answers_on_budget [where P = "\<lambda>_. True"] answers_sbind [OF walk_next_answers [OF store Suc.prems(1)]]])
       (auto intro!: turn)
qed

section \<open>A page\<close>

lemma walk_new_answers:
  assumes "object_store db I (\<lambda>x v. v = m x)"
  shows "answers I (\<lambda>r. r = walk_start fuel (meta_at db opts m) opts start) (walk_new fuel db opts start)"
proof (cases "lo_order opts = Chronological")
  case True
  then show ?thesis
    by (auto simp: walk_new_def chronological_new_def walk_start_def chron_start_def sbind_assoc
        intro!: answers_sbind [OF read_meta_answers [OF assms]] answers_sreturn)
       (auto simp: sbind_def sreturn_def intro!: answersI)
next
  case False
  let ?nodes = "known_nodes fuel (meta_at db opts m) [start] [] 0"
  let ?ow = "case ?nodes of None \<Rightarrow> None | Some nodes \<Rightarrow> (case ordered_of_nodes opts nodes of Inr ow \<Rightarrow> Some ow | Inl _ \<Rightarrow> None)"
  have "answers I (\<lambda>r. r = ?ow) (ordered_new fuel db opts start)"
    unfolding ordered_new_def
    by (rule answers_sbind [OF prepass_answers [of I "meta_at db opts m", OF read_meta_answers [OF assms]]])
       (auto split: option.split intro!: answers_sreturn
         answers_sbind [OF answers_slift [where P = "\<lambda>ow. ordered_of_nodes opts _ = Inr ow"]])
  then show ?thesis
    using False unfolding walk_new_def
    by (auto simp: walk_start_def split: option.splits sum.splits intro!: answers_sreturn elim!: answers_sbind)
qed

text \<open>The steps of a log that returned.\<close>

lemma commit_log_steps:
  assumes store: "object_store db I (\<lambda>x v. v = m x)" and w: "I w"
    and run: "commit_log fuel db snap opts (w, b) = (Inr p, s)"
  obtains resume where "resume_commit snap opts = Inr resume" and "0 < lo_limit opts"
    and "case walk_start fuel (meta_at db opts m) opts (commit_oid snap) of
        None \<Rightarrow> p = None
      | Some walk \<Rightarrow> \<exists>s1 r. I (fst s1) \<and> log_loop fuel db opts resume (resume = None) [] walk s1 = (Inr r, s)
          \<and> (case r of None \<Rightarrow> p = None | Some t \<Rightarrow> \<exists>page. p = Some page \<and> log_page_of db snap opts t s = Inr page)"
proof -
  from run have limit: "0 < lo_limit opts" by (auto simp: commit_log_def sr_inv split: if_splits)
  from run limit obtain s0 resume walk s1 where s0: "on_budget check (w, b) = (Inr (), s0)"
    and resume: "Inr resume = resume_commit snap opts"
    and walk: "walk_new fuel db opts (commit_oid snap) s0 = (Inr walk, s1)"
    and rest: "(case walk of None \<Rightarrow> sreturn None
      | Some walk \<Rightarrow> sbind (log_loop fuel db opts resume (resume = None) [] walk) (\<lambda>r s.
          case r of None \<Rightarrow> (Inr None, s) | Some run \<Rightarrow> (rbind (log_page_of db snap opts run s) (\<lambda>p. Inr (Some p)), s))) s1
        = (Inr p, s)"
    unfolding commit_log_def by (auto simp: sr_inv split: if_splits)
  have "I (fst s0)" using s0 w by (auto simp: on_budget_def split: prod.splits)
  with walk walk_new_answers [OF store, of fuel opts "commit_oid snap"]
  have "I (fst s1)" "walk = walk_start fuel (meta_at db opts m) opts (commit_oid snap)"
    by (auto dest: answersD answers_keeps)
  note s1 = this
  show thesis
  proof (intro that)
    show "case walk_start fuel (meta_at db opts m) opts (commit_oid snap) of
        None \<Rightarrow> p = None
      | Some walk \<Rightarrow> \<exists>s1 r. I (fst s1) \<and> log_loop fuel db opts resume (resume = None) [] walk s1 = (Inr r, s)
          \<and> (case r of None \<Rightarrow> p = None | Some t \<Rightarrow> \<exists>page. p = Some page \<and> log_page_of db snap opts t s = Inr page)"
    proof (cases walk)
      case None
      with rest s1(2) show ?thesis by (simp add: sr_inv)
    next
      case (Some wk)
      with rest obtain r s2 where r: "log_loop fuel db opts resume (resume = None) [] wk s1 = (Inr r, s2)"
        "(case r of None \<Rightarrow> (Inr None, s2) | Some run \<Rightarrow> (rbind (log_page_of db snap opts run s2) (\<lambda>p. Inr (Some p)), s2)) = (Inr p, s)"
        by (auto simp: sr_inv)
      then have "s2 = s" "case r of None \<Rightarrow> p = None | Some t \<Rightarrow> \<exists>page. p = Some page \<and> log_page_of db snap opts t s = Inr page"
        by (auto simp: rbind_Inr_iff split: option.splits)
      with r(1) s1(1) show ?thesis unfolding s1(2) [symmetric] Some option.case by blast
    qed
  qed (use resume limit in simp_all)
qed

definition log_page_shows :: "'w odb \<Rightarrow> (oid \<Rightarrow> object_read) \<Rightarrow> snapshot \<Rightarrow> log_options \<Rightarrow> log_page
    \<Rightarrow> walked_commit list \<Rightarrow> bool" where
  "log_page_shows db m snap opts page sel \<longleftrightarrow>
    (let n = length (lp_commits page) in
     n \<le> lo_limit opts \<and> n \<le> length sel \<and> list_all2 (commit_shown db m) (lp_commits page) (take n sel)
     \<and> (\<not> lp_truncated page \<longrightarrow> n = length sel \<and> lp_next_cursor page = None)
     \<and> (lp_truncated page \<longrightarrow> 0 < n \<and> lp_next_cursor page = Some (encode (log_cursor snap opts (wc_id (sel ! (n - 1)))))))"

lemma decode_log_commit_id: "decode_log_commit x payload shallow = Inr c \<Longrightarrow> lc_id c = x"
  by (auto simp: decode_log_commit_def rbind_Inr_iff Let_def split: prod.splits)

lemma commit_shown_id: "commit_shown db m c v \<Longrightarrow> lc_id c = wc_id v"
  by (auto simp: commit_shown_def dest: decode_log_commit_id)

lemma log_post_page:
  assumes post: "log_post db m opts resume found [] vs enough (Some t)" and page: "log_page_of db snap opts t s = Inr page"
  shows "log_page_shows db m snap opts page (log_selection opts found resume vs)
    \<and> (found \<or> \<not> lp_truncated page \<longrightarrow> found \<or> (\<exists>v \<in> set vs. Some (wc_id v) = resume))"
proof -
  obtain found' commits stopped where t: "t = (found', commits, stopped)" by (cases t)
  let ?sel = "log_selection opts found resume vs" and ?n = "length commits"
  have post': "?n \<le> lo_limit opts" "?n \<le> length ?sel" "list_all2 (commit_shown db m) commits (take ?n ?sel)"
    "if stopped = None then ?n = length ?sel \<and> found' = (found \<or> (\<exists>v \<in> set vs. Some (wc_id v) = resume))
     else found' \<and> commits \<noteq> []"
    using post by (auto simp: log_post_def t)
  have last: "lc_id (last commits) = wc_id (?sel ! (?n - 1))" if "commits \<noteq> []"
    using that post'(2) list_all2_nthD [OF post'(3), of "?n - 1"] by (simp add: last_conv_nth commit_shown_id)
  from page post' last show ?thesis
    by (auto simp: log_page_of_def t Let_def rbind_Inr_iff log_page_shows_def split: if_splits)
qed

lemma commit_log_page:
  assumes store: "object_store db I (\<lambda>x v. v = m x)" and w: "I w"
    and run: "commit_log fuel db snap opts (w, b) = (Inr (Some page), s)"
    and vs: "log_sequence (meta_at db opts m) opts (commit_oid snap) vs"
  shows "\<exists>resume. resume_commit snap opts = Inr resume \<and>
    log_page_shows db m snap opts page (log_selection opts (resume = None) resume vs)"
proof -
  let ?N = "meta_at db opts m"
  from store w run obtain resume where resume: "resume_commit snap opts = Inr resume" "0 < lo_limit opts"
    and steps: "case walk_start fuel ?N opts (commit_oid snap) of
        None \<Rightarrow> Some page = None
      | Some walk \<Rightarrow> \<exists>s1 r. I (fst s1) \<and> log_loop fuel db opts resume (resume = None) [] walk s1 = (Inr r, s)
          \<and> (case r of None \<Rightarrow> Some page = None | Some t \<Rightarrow> \<exists>page'. Some page = Some page' \<and> log_page_of db snap opts t s = Inr page')"
    by (rule commit_log_steps)
  from steps obtain walk s1 t where walk: "walk_start fuel ?N opts (commit_oid snap) = Some walk" and "I (fst s1)"
    and loop: "log_loop fuel db opts resume (resume = None) [] walk s1 = (Inr (Some t), s)"
    and page: "log_page_of db snap opts t s = Inr page" by (auto split: option.splits)
  from vs walk have "walks (spec_step ?N) walk vs" by (metis log_sequence_def walk_start_unique)
  note loop_ok = log_loop_answers [OF store resume(2) walk_start_inv [OF walk] this, of "resume = None" "[]" resume fuel]
  have "log_post db m opts resume (resume = None) [] vs (length vs < fuel) (Some t)"
    by (rule answersD [OF loop_ok \<open>I (fst s1)\<close> loop]) simp_all
  from log_post_page [OF this page] resume(1) show ?thesis by blast
qed

text \<open>
  C15. A page of the commit log shows the beginning of the selected history, in every order:
  over a store that answers from fixed contents in which finitely many commits are reachable,
  there is one sequence of the commits reachable from the snapshot's commit, each exactly once,
  such that the page holds in order the decoded commits of the part of it that lies after the
  cursor's commit and within the time bounds, at most as many as the limit; a page that is not
  truncated shows all of them, and a truncated page is not empty and carries the cursor of its
  last commit.
\<close>

theorem log_shows_history:
  assumes "object_store db I (\<lambda>x v. v = m x)" and "I w"
    and "commit_log fuel db snap opts (w, b) = (Inr (Some page), s)"
    and "finite (log_reach (meta_at db opts m) (commit_oid snap))"
  shows "\<exists>vs resume. log_sequence (meta_at db opts m) opts (commit_oid snap) vs
    \<and> distinct (map wc_id vs) \<and> wc_id ` set vs = log_reach (meta_at db opts m) (commit_oid snap)
    \<and> resume_commit snap opts = Inr resume
    \<and> log_page_shows db m snap opts page (log_selection opts (resume = None) resume vs)"
proof -
  from log_sequence_exists [OF assms(4)] obtain vs where vs: "log_sequence (meta_at db opts m) opts (commit_oid snap) vs" by blast
  from commit_log_page [OF assms(1-3) vs] log_sequence_all(1,2) [OF vs] vs show ?thesis by blast
qed

text \<open>Two commits of a page are two commits of the sequence, in the same order.\<close>

lemma sorted_wrt_filter: "sorted_wrt P xs \<Longrightarrow> sorted_wrt P (filter Q xs)"
  by (induction xs) auto

lemma sorted_wrt_after:
  assumes "sorted_wrt P vs"
  shows "sorted_wrt P (after_resume found resume vs) \<and> set (after_resume found resume vs) \<subseteq> set vs"
proof -
  let ?d = "dropWhile (\<lambda>v. Some (wc_id v) \<noteq> resume) vs"
  have "vs = takeWhile (\<lambda>v. Some (wc_id v) \<noteq> resume) vs @ ?d" by simp
  with assms have "sorted_wrt P ?d" "set ?d \<subseteq> set vs" by (metis sorted_wrt_append, auto dest: set_dropWhileD)
  moreover have "sorted_wrt P d \<Longrightarrow> sorted_wrt P (tl d)" "set (tl d) \<subseteq> set d" for d :: "walked_commit list"
    by (cases d; auto)+
  ultimately have "sorted_wrt P (tl ?d) \<and> set (tl ?d) \<subseteq> set vs" by blast
  with assms show ?thesis by (simp add: after_resume_def)
qed

lemma page_pair:
  assumes "log_page_shows db m snap opts page (log_selection opts found resume vs)" and "sorted_wrt P vs"
    and "i < j" and "j < length (lp_commits page)"
  shows "\<exists>u \<in> set vs. \<exists>v \<in> set vs. lc_id (lp_commits page ! i) = wc_id u \<and> lc_id (lp_commits page ! j) = wc_id v \<and> P u v"
proof -
  let ?sel = "log_selection opts found resume vs"
  have sel: "sorted_wrt P ?sel" "set ?sel \<subseteq> set vs"
    using sorted_wrt_after [OF assms(2), of found resume] sorted_wrt_filter by (auto simp: log_selection_def)
  have page: "length (lp_commits page) \<le> length ?sel"
    "list_all2 (commit_shown db m) (lp_commits page) (take (length (lp_commits page)) ?sel)"
    using assms(1) by (auto simp: log_page_shows_def Let_def)
  have ids: "lc_id (lp_commits page ! k) = wc_id (?sel ! k) \<and> k < length ?sel" if "k < length (lp_commits page)" for k
    using list_all2_nthD [OF page(2) that] page(1) that by (simp add: commit_shown_id)
  have "i < length (lp_commits page)" using assms(3,4) by simp
  note i = ids [OF this] and j = ids [OF assms(4)]
  have "P (?sel ! i) (?sel ! j)" using sorted_wrt_nth_less [OF sel(1) assms(3)] j by simp
  moreover have "?sel ! i \<in> set vs" "?sel ! j \<in> set vs" using sel(2) i j by auto
  ultimately show ?thesis using i j by blast
qed

text \<open>
  C16. Children come first: in topological and in date order, over a history without cycles, no
  commit of a page is listed before one of its children, where the children of a commit are
  those that name it as a parent the log follows.
\<close>

theorem log_lists_children_first:
  assumes "object_store db I (\<lambda>x v. v = m x)" and "I w"
    and "commit_log fuel db snap opts (w, b) = (Inr (Some page), s)"
    and "finite (log_reach (meta_at db opts m) (commit_oid snap))"
    and "acyclic (history_rel (meta_at db opts m))" and "lo_order opts \<noteq> Chronological"
    and "i < j" and "j < length (lp_commits page)"
  shows "(lc_id (lp_commits page ! j), lc_id (lp_commits page ! i)) \<notin> history_rel (meta_at db opts m)"
proof -
  let ?N = "meta_at db opts m"
  from log_sequence_exists [OF assms(4)] obtain vs where vs: "log_sequence ?N opts (commit_oid snap) vs" by blast
  from commit_log_page [OF assms(1-3) vs] obtain resume where
    page: "log_page_shows db m snap opts page (log_selection opts (resume = None) resume vs)" by blast
  from page_pair [OF page log_sequence_topological [OF vs assms(6,5)] assms(7,8)] show ?thesis by auto
qed

section \<open>Joining pages\<close>

definition next_log_options :: "log_options \<Rightarrow> bytes \<Rightarrow> nat \<Rightarrow> log_options" where
  "next_log_options opts c limit = opts\<lparr>lo_cursor := Some c, lo_limit := limit\<rparr>"

lemma next_log_options_same [simp]:
  "log_fingerprint (next_log_options opts c l) = log_fingerprint opts"
  "lo_order (next_log_options opts c l) = lo_order opts" "lo_cursor (next_log_options opts c l) = Some c"
  "within_time_bounds t (next_log_options opts c l) = within_time_bounds t opts"
  "log_cursor snap (next_log_options opts c l) = log_cursor snap opts"
  "log_selection (next_log_options opts c l) = log_selection opts"
  "meta_from_payload db (next_log_options opts c l) = meta_from_payload db opts"
  "ordered_of_nodes (next_log_options opts c l) = ordered_of_nodes opts"
  by (auto simp: next_log_options_def log_fingerprint_def within_time_bounds_def log_cursor_def log_selection_def
      meta_from_payload_def ordered_of_nodes_def fun_eq_iff)

lemma next_meta_at [simp]: "meta_at db (next_log_options opts c l) = meta_at db opts"
  unfolding meta_at_def next_log_options_same by (rule refl)

lemma next_log_sequence [simp]: "log_sequence N (next_log_options opts c l) start vs = log_sequence N opts start vs"
  unfolding log_sequence_def walk_start_def next_log_options_same by (rule refl)

lemma resume_of_cursor:
  assumes "resume_commit snap (next_log_options opts (encode (log_cursor snap opts x)) l) = Inr r"
    and "oid_wf x" and "oid_kind x = oid_kind (commit_oid snap)"
  shows "r = Some x"
proof -
  let ?c = "log_cursor snap opts x"
  let ?e = "\<lparr>exp_hash_kind = oid_kind (commit_oid snap), exp_snapshot_digest = as_bytes (commit_oid snap),
    exp_operation_tag = OPERATION_LOG, exp_option_fingerprint = log_fingerprint opts\<rparr>"
  from assms(1) obtain c y where c: "decode (encode ?c) ?e = Inr c" "oid_new (oid_kind (commit_oid snap)) (cur_position c) = Inr y" "r = Some y"
    by (auto simp: resume_commit_def decode_resume_def rbind_Inr_iff map_err_def split: if_splits sum.splits)
  then have "encode ?c = encode c" "cursor_wf c" "expects ?e c" by (simp_all add: decode_Inr)
  then have "cursor_wf ?c" "expects ?e ?c" by (auto simp: cursor_wf_def expects_def log_cursor_def)
  then have "decode (encode ?c) ?e = Inr ?c" by (simp add: decode_Inr)
  with c(1) have "c = ?c" by simp
  with c(2,3) oid_new_as_bytes [OF assms(2)] assms(3) show ?thesis by (simp add: log_cursor_def)
qed

lemma selection_split:
  assumes "distinct (map wc_id vs)" and "v \<in> set (after_resume found resume vs)"
  shows "\<exists>us. after_resume found resume vs = us @ v # after_resume False (Some (wc_id v)) vs"
proof -
  let ?A = "after_resume found resume vs"
  obtain pre where pre: "vs = pre @ ?A"
  proof (cases found)
    case True
    then show thesis by (intro that [of "[]"]) (simp add: after_resume_def)
  next
    case False
    let ?d = "dropWhile (\<lambda>v. Some (wc_id v) \<noteq> resume) vs"
    have d: "vs = takeWhile (\<lambda>v. Some (wc_id v) \<noteq> resume) vs @ ?d" by simp
    from False assms(2) have "tl ?d \<noteq> []" by (metis after_resume_def empty_iff list.set(1))
    then have "?d \<noteq> []" by (metis list.sel(2))
    then have "vs = (takeWhile (\<lambda>v. Some (wc_id v) \<noteq> resume) vs @ [hd ?d]) @ ?A"
      using d False by (simp add: after_resume_def)
    then show thesis by (rule that)
  qed
  from assms(2) obtain us rest where us: "?A = us @ v # rest" by (meson split_list)
  have "\<forall>u \<in> set (pre @ us). wc_id u \<noteq> wc_id v" using assms(1) by (subst (asm) pre) (auto simp: us, (metis imageI)+)
  then have "dropWhile (\<lambda>u. Some (wc_id u) \<noteq> Some (wc_id v)) ((pre @ us) @ v # rest) = v # rest"
    by (subst dropWhile_append2) auto
  moreover have "vs = (pre @ us) @ v # rest" using pre us by simp
  ultimately have "after_resume False (Some (wc_id v)) vs = rest" by (simp add: after_resume_def)
  with us show ?thesis by blast
qed

lemma distinct_sorted_wrt: "distinct xs \<longleftrightarrow> sorted_wrt (\<noteq>) xs"
  by (induction xs) auto

lemma selection_after_cursor:
  assumes "distinct (map wc_id vs)" and "0 < n" and "n \<le> length (log_selection opts found resume vs)"
  shows "log_selection opts False (Some (wc_id (log_selection opts found resume vs ! (n - 1)))) vs
    = drop n (log_selection opts found resume vs)"
proof -
  let ?P = "\<lambda>v. within_time_bounds (wc_time v) opts" and ?A = "after_resume found resume vs"
  let ?sel = "log_selection opts found resume vs"
  define v where "v = ?sel ! (n - 1)"
  have sel: "?sel = filter ?P ?A" by (simp add: log_selection_def)
  have "v \<in> set ?sel" using assms(2,3) by (simp add: v_def)
  then have v: "v \<in> set ?A" "?P v" by (simp_all add: sel)
  from selection_split [OF assms(1) v(1)] obtain us where us: "?A = us @ v # after_resume False (Some (wc_id v)) vs" by blast
  let ?rest = "filter ?P (after_resume False (Some (wc_id v)) vs)"
  have eq: "?sel = filter ?P us @ v # ?rest" using us v(2) sel by simp
  have dist: "distinct ?sel"
  proof -
    have "sorted_wrt (\<noteq>) vs" using assms(1) by (simp add: distinct_map distinct_sorted_wrt [symmetric])
    then have "sorted_wrt (\<noteq>) ?A" using sorted_wrt_after by blast
    then have "sorted_wrt (\<noteq>) ?sel" unfolding sel by (rule sorted_wrt_filter)
    then show ?thesis using distinct_sorted_wrt by blast
  qed
  have "n - 1 = length (filter ?P us)"
  proof (rule nth_eq_iff_index_eq [THEN iffD1, OF dist])
    show "n - 1 < length ?sel" using assms(2,3) by simp
    show "length (filter ?P us) < length ?sel" by (simp add: eq)
    show "?sel ! (n - 1) = ?sel ! length (filter ?P us)" unfolding v_def [symmetric] by (simp add: eq)
  qed
  then have "n = length (filter ?P us) + 1" using assms(2) by simp
  then have "drop n ?sel = ?rest" unfolding eq by simp
  then show ?thesis unfolding v_def [symmetric] by (simp add: log_selection_def)
qed

text \<open>Names read from commits are well formed and of the commit's own kind.\<close>

lemma parse_hex_wf: "parse_hex h = Inr x \<Longrightarrow> oid_wf x"
  by (auto simp: parse_hex_def rbind_Inr_iff dest: oid_new_wf split: if_splits)

lemma parse_oid_wf: "parse_oid raw k field obj = Inr x \<Longrightarrow> oid_wf x \<and> oid_kind x = k"
  by (auto simp: parse_oid_def dest: parse_hex_wf split: if_splits sum.splits)

lemma meta_lines_wf:
  "meta_lines x ls ps t = Inr (ps', t') \<Longrightarrow> \<forall>p \<in> set ps. oid_wf p \<and> oid_kind p = oid_kind x \<Longrightarrow>
    \<forall>p \<in> set ps'. oid_wf p \<and> oid_kind p = oid_kind x"
proof (induction ls arbitrary: ps t)
  case (Cons line rest)
  show ?case
  proof (cases "prefix [32] line")
    case True
    with Cons.prems(1) have "meta_lines x rest ps t = Inr (ps', t')" by simp
    from Cons.IH [OF this Cons.prems(2)] show ?thesis .
  next
    case False
    from Cons.prems(1) False obtain ps1 t1 where rest: "meta_lines x rest ps1 t1 = Inr (ps', t')"
      and ps1: "ps1 = ps \<or> (\<exists>p raw. parse_oid raw (oid_kind x) ''commit parent'' x = Inr p \<and> ps1 = ps @ [p])"
      by (auto simp: rbind_Inr_iff split: if_splits)
    from ps1 Cons.prems(2) have "\<forall>p \<in> set ps1. oid_wf p \<and> oid_kind p = oid_kind x" by (auto dest: parse_oid_wf)
    from Cons.IH [OF rest this] show ?thesis .
  qed
qed simp

lemma meta_at_wf:
  assumes "p \<in> set (cm_parents (meta_at db opts m x))"
  shows "oid_wf p \<and> oid_kind p = oid_kind x"
proof -
  from assms obtain payload meta where meta: "meta_from_payload db opts x payload = Inr meta" "p \<in> set (cm_parents meta)"
    by (auto simp: meta_at_def split: option.splits prod.splits object_kind.splits sum.splits)
  then obtain headers ps t where "meta_lines x (split_on 10 headers) [] None = Inr (ps, t)" "p \<in> set ps"
    by (auto simp: meta_from_payload_def rbind_Inr_iff Let_def split: prod.splits if_splits)
       (blast dest: in_set_takeD)
  with meta_lines_wf [OF this(1)] show ?thesis by simp
qed

lemma log_reach_wf:
  assumes "oid_wf start" and "x \<in> log_reach (meta_at db opts m) start"
  shows "oid_wf x \<and> oid_kind x = oid_kind start"
proof -
  have "log_reach (meta_at db opts m) start \<subseteq> {x. oid_wf x \<and> oid_kind x = oid_kind start}"
    using assms(1) meta_at_wf [of _ db opts m] by (intro log_reach_least) auto
  with assms(2) show ?thesis by auto
qed

text \<open>
  C17. Pages of the log join: the commits of a truncated page followed by those of the page its
  cursor leads to are together the beginning of the selected history, with none lost and none
  repeated, in every order and whatever the limit of the second page; if the second page is not
  truncated they are all of it.
\<close>

theorem log_pages_join:
  assumes "object_store db I (\<lambda>x v. v = m x)" and "I w" and "I w'" and "oid_wf (commit_oid snap)"
    and "commit_log fuel db snap opts (w, b) = (Inr (Some p1), s1)" and "lp_next_cursor p1 = Some c"
    and "commit_log fuel' db snap (next_log_options opts c l) (w', b') = (Inr (Some p2), s2)"
    and "finite (log_reach (meta_at db opts m) (commit_oid snap))"
  shows "\<exists>vs resume. log_sequence (meta_at db opts m) opts (commit_oid snap) vs \<and> resume_commit snap opts = Inr resume
    \<and> (let sel = log_selection opts (resume = None) resume vs; joined = lp_commits p1 @ lp_commits p2 in
       list_all2 (commit_shown db m) joined (take (length joined) sel) \<and> length joined \<le> length sel
       \<and> (\<not> lp_truncated p2 \<longrightarrow> length joined = length sel))"
proof -
  let ?N = "meta_at db opts m" and ?n = "length (lp_commits p1)" and ?opts = "next_log_options opts c l"
  from log_sequence_exists [OF assms(8)] obtain vs where vs: "log_sequence ?N opts (commit_oid snap) vs" by blast
  from commit_log_page [OF assms(1,2,5) vs] obtain resume where r: "resume_commit snap opts = Inr resume"
    "log_page_shows db m snap opts p1 (log_selection opts (resume = None) resume vs)" by blast
  let ?sel = "log_selection opts (resume = None) resume vs"
  let ?x = "wc_id (?sel ! (?n - 1))"
  from r(2) assms(6) have first: "0 < ?n" "?n \<le> length ?sel" "list_all2 (commit_shown db m) (lp_commits p1) (take ?n ?sel)"
    "c = encode (log_cursor snap opts ?x)"
    by (auto simp: log_page_shows_def Let_def)
  have "set ?sel \<subseteq> set vs"
    using sorted_wrt_after [of "\<lambda>_ _. True" vs "resume = None" resume] by (auto simp: log_selection_def sorted_wrt_true)
  moreover have "?sel ! (?n - 1) \<in> set ?sel" using first(1,2) by (intro nth_mem) linarith
  ultimately have "?x \<in> log_reach ?N (commit_oid snap)" using log_sequence_all(2) [OF vs] by blast
  note x = log_reach_wf [OF assms(4) this]
  from commit_log_page [OF assms(1,3,7), of vs] vs obtain resume' where
    r': "resume_commit snap ?opts = Inr resume'"
    "log_page_shows db m snap ?opts p2 (log_selection opts (resume' = None) resume' vs)" by auto
  have resume': "resume' = Some ?x" using resume_of_cursor x r'(1) unfolding first(4) by blast
  have sel: "log_selection opts (resume' = None) resume' vs = drop ?n ?sel"
    unfolding resume' using selection_after_cursor [OF log_sequence_all(1) [OF vs] first(1,2)] by simp
  with r'(2) have second: "length (lp_commits p2) \<le> length ?sel - ?n"
    "list_all2 (commit_shown db m) (lp_commits p2) (take (length (lp_commits p2)) (drop ?n ?sel))"
    "\<not> lp_truncated p2 \<longrightarrow> length (lp_commits p2) = length ?sel - ?n"
    by (auto simp: log_page_shows_def Let_def)
  have "list_all2 (commit_shown db m) (lp_commits p1 @ lp_commits p2) (take (length (lp_commits p1 @ lp_commits p2)) ?sel)"
    using list_all2_appendI [OF first(3) second(2)] by (simp add: take_add)
  with vs r(1) first(2) second(1,3) show ?thesis by (auto simp: Let_def)
qed

text \<open>
  C19. The log ends: when finitely many commits are reachable, as many steps as they are and as
  they have followed parents, and one more, are enough for the query to return a page or an error.
\<close>

theorem log_terminates:
  assumes "object_store db I (\<lambda>x v. v = m x)" and "I w"
    and "commit_log fuel db snap opts (w, b) = (Inr p, s)"
    and "finite (log_reach (meta_at db opts m) (commit_oid snap))"
    and "card (log_reach (meta_at db opts m) (commit_oid snap))
      + (\<Sum>x \<in> log_reach (meta_at db opts m) (commit_oid snap). length (cm_parents (meta_at db opts m x))) + 1 \<le> fuel"
  shows "p \<noteq> None"
proof -
  let ?N = "meta_at db opts m" and ?R = "log_reach (meta_at db opts m) (commit_oid snap)"
  from log_sequence_exists [OF assms(4)] obtain vs where vs: "log_sequence ?N opts (commit_oid snap) vs" by blast
  have "length vs = card ?R" using log_sequence_all(1,2) [OF vs] by (metis distinct_card length_map set_map)
  then have fuel: "length vs < fuel" "1 + (\<Sum>x \<in> ?R. length (cm_parents (?N x))) \<le> fuel" using assms(5) by auto
  from walk_start_enough [OF assms(4) fuel(2)] obtain walk where walk: "walk_start fuel ?N opts (commit_oid snap) = Some walk" by blast
  then have "walks (spec_step ?N) walk vs" using vs by (metis log_sequence_def walk_start_unique)
  note loop_ok = log_loop_answers [OF assms(1) _ walk_start_inv [OF walk] this]
  from assms(1-3) obtain resume where resume: "resume_commit snap opts = Inr resume" "0 < lo_limit opts"
    and steps: "case walk_start fuel ?N opts (commit_oid snap) of
        None \<Rightarrow> p = None
      | Some walk \<Rightarrow> \<exists>s1 r. I (fst s1) \<and> log_loop fuel db opts resume (resume = None) [] walk s1 = (Inr r, s)
          \<and> (case r of None \<Rightarrow> p = None | Some t \<Rightarrow> \<exists>page. p = Some page \<and> log_page_of db snap opts t s = Inr page)"
    by (rule commit_log_steps)
  from steps walk obtain s1 r where r: "I (fst s1)" "log_loop fuel db opts resume (resume = None) [] walk s1 = (Inr r, s)"
    "case r of None \<Rightarrow> p = None | Some t \<Rightarrow> \<exists>page. p = Some page \<and> log_page_of db snap opts t s = Inr page"
    by (auto simp del: split_paired_Ex)
  have "log_post db m opts resume (resume = None) [] vs (length vs < fuel) r"
    by (rule answersD [OF loop_ok r(1,2)]) (use resume(2) in simp_all)
  with fuel(1) have "r \<noteq> None" by (cases r) (simp_all add: log_post_def)
  with r(3) show ?thesis by auto
qed

end
