(* ===== verification/LogAnswers.thy ===== *)
theory LogAnswers
  imports LogPages LogDecode
begin

text \<open>
  The commit log answers: over a complete in-memory store, without ceilings, every query with a
  usable cursor returns a page, and it is truncated exactly when commits are left over.
\<close>

section \<open>Walks without ceilings\<close>

definition readable_commit :: "'w odb \<Rightarrow> log_options \<Rightarrow> (oid \<Rightarrow> object_read) \<Rightarrow> oid \<Rightarrow> bool" where
  "readable_commit db opts m x \<longleftrightarrow> oid_kind x = db_hash_kind db \<and> (\<exists>payload meta c. m x = Some (Commit, payload)
    \<and> meta_from_payload db opts x payload = Inr meta \<and> decode_log_commit x payload (is_shallow db x) = Inr c)"

definition readable_history :: "'w odb \<Rightarrow> log_options \<Rightarrow> (oid \<Rightarrow> object_read) \<Rightarrow> oid \<Rightarrow> bool" where
  "readable_history db opts m start \<longleftrightarrow> (\<forall>x \<in> log_reach (meta_at db opts m) start. readable_commit db opts m x)"

text \<open>A store that answers graph reads from fixed contents when nothing is limited.\<close>

locale graph_server =
  fixes db :: "'w odb" and m :: "oid \<Rightarrow> object_read"
  assumes graph_read: "oid_kind x = db_hash_kind db \<Longrightarrow> yields (db_try_find_graph db x) (m x)"
begin

lemma yields_read_payload:
  "readable_commit db opts m x \<Longrightarrow> m x = Some (Commit, payload) \<Longrightarrow>
    yields (read_payload db x i) payload"
  unfolding read_payload_def readable_commit_def
  by (auto intro!: yields_sbind [OF yields_smap_err [OF graph_read]] yields_sreturn)

lemma yields_read_meta:
  assumes "readable_commit db opts m x"
  shows "yields (read_meta db opts x i) (meta_at db opts m x)"
proof -
  from assms obtain payload meta where "m x = Some (Commit, payload)"
    "meta_from_payload db opts x payload = Inr meta" unfolding readable_commit_def by blast
  then show ?thesis
    unfolding read_meta_def by (auto simp: meta_at_def intro!: yields_sbind [OF yields_read_payload [OF assms]] yields_slift)
qed

lemma yields_push_parents:
  assumes "\<forall>p \<in> set ps. readable_commit db opts m p"
  shows "yields (push_parents db opts ps cw) (push_known (meta_at db opts m) ps cw)"
  using assms
proof (induction ps arbitrary: cw)
  case (Cons p ps)
  then show ?case
    by (auto simp: Let_def intro!: yields_sbind [OF yields_sattempt [OF yields_read_meta]])
qed (auto intro: yields_sreturn)

lemma yields_chronological_next:
  assumes inv: "chron_inv (meta_at db opts m) start D cw"
    and readable: "readable_history db opts m start"
  shows "yields (chronological_next db opts charge_visit cw)
    (case chron_step (meta_at db opts m) cw of
       None \<Rightarrow> (None, cw) | Some (v, cw') \<Rightarrow> (Some (Inr v), cw'))"
proof -
  let ?N = "meta_at db opts m"
  have none: "cw_pending_error cw = None" using inv by (simp add: chron_inv_def)
  show ?thesis
  proof (cases "pop_max commit_key (cw_queue cw)")
    case None
    with none show ?thesis by (simp add: chronological_next_def chron_step_def yields_sreturn)
  next
    case (Some p)
    then obtain t q where pop: "pop_max commit_key (cw_queue cw) = Some (t, q)" by (cases p) auto
    have "t \<in> set (cw_queue cw)" using heap.pop_Some [OF pop] by (metis set_mset_mset union_single_eq_member)
    then have t: "tc_meta t = ?N (tc_id t)" "tc_id t \<in> log_reach ?N start"
      using inv by (auto simp: chron_inv_def)
    have "\<forall>p \<in> set (cm_parents (tc_meta t)). readable_commit db opts m p"
      using readable log_reach_parent [OF t(2)] by (simp add: readable_history_def t(1))
    note parents = yields_push_parents [OF this, of "cw\<lparr>cw_queue := q\<rparr>"]
    have charge: "yields (on_budget (if charge_visit then charge_object_visit else check)) ()"
      by (simp add: yields_charge_object_visit yields_check)
    show ?thesis
      unfolding chronological_next_def none pop option.case prod.case
      by (rule yields_sbind [OF yields_sattempt [OF charge]])
         (auto simp: chron_step_def pop walked_of_def intro!: yields_sbind [OF parents] yields_sreturn)
  qed
qed

lemma yields_walk_next:
  assumes inv: "walk_inv (meta_at db opts m) start D w"
    and readable: "readable_history db opts m start"
  shows "\<exists>w1. yields (walk_next db opts charge_visit w)
    (case spec_step (meta_at db opts m) w of
       None \<Rightarrow> (None, w1) | Some (v, w') \<Rightarrow> (Some (Inr v), w'))"
proof (cases w)
  case (ChronologicalWalk cw)
  let ?N = "meta_at db opts m"
  have "chron_inv ?N start D cw" using inv ChronologicalWalk by simp
  from yields_chronological_next [OF this readable, of charge_visit] show ?thesis
    unfolding ChronologicalWalk walk_next.simps
    by (intro exI [of _ w], cases "chron_step ?N cw")
       (auto simp: ChronologicalWalk intro!: yields_sreturn elim!: yields_sbind split: prod.splits)
next
  case (OrderedWalk ow)
  let ?N = "meta_at db opts m"
  obtain r ow' where ow': "ordered_next ow = (r, ow')" by fastforce
  have "ordered_inv ?N start D ow" using inv OrderedWalk by simp
  from ordered_next_ok [OF this] ow' have "r = None \<or> (\<exists>v. r = Some (Inr v))" by (auto split: if_splits)
  then show ?thesis
    by (intro exI [of _ "OrderedWalk ow'"]) (auto simp: OrderedWalk ow' ordered_step_def intro!: yields_sreturn)
qed

lemma yields_prepass:
  assumes "\<forall>x \<in> set pending \<union> R. readable_commit db opts m x"
    and "\<And>x. x \<in> set pending \<union> R \<Longrightarrow> set (cm_parents (meta_at db opts m x)) \<subseteq> R"
  shows "yields (prepass fuel db opts start pending nodes d)
    (known_nodes fuel (meta_at db opts m) pending nodes d)"
  using assms
proof (induction fuel arbitrary: pending nodes d)
  case 0
  show ?case by (subst prepass.simps, subst known_nodes.simps) (auto intro!: yields_sreturn)
next
  case (Suc fuel)
  show ?case
  proof (cases pending rule: rev_cases)
    case Nil
    then show ?thesis by (subst prepass.simps) (auto intro!: yields_sreturn)
  next
    case (snoc rest x)
    have x: "readable_commit db opts m x"
      "set (cm_parents (meta_at db opts m x)) \<subseteq> R"
      using Suc.prems(1) Suc.prems(2) [of x] by (auto simp: snoc)
    have skip: "yields (prepass fuel db opts start rest nodes d)
        (known_nodes fuel (meta_at db opts m) rest nodes d)"
      using Suc.prems by (intro Suc.IH) (auto simp: snoc)
    let ?ps = "filter (\<lambda>p. p \<notin> fst ` set nodes) (rev (cm_parents (meta_at db opts m x)))"
    have visit: "yields (prepass fuel db opts start (rest @ ?ps) nodes' d')
        (known_nodes fuel (meta_at db opts m) (rest @ ?ps) nodes' d')" for nodes' d'
    proof (rule Suc.IH)
      have sub: "set (rest @ ?ps) \<subseteq> set pending \<union> R" using x(2) by (auto simp: snoc)
      then show "\<forall>x \<in> set (rest @ ?ps) \<union> R. readable_commit db opts m x"
        using Suc.prems(1) by blast
      show "set (cm_parents (meta_at db opts m y)) \<subseteq> R" if "y \<in> set (rest @ ?ps) \<union> R" for y
        using Suc.prems(2) sub that by blast
    qed
    show ?thesis unfolding snoc
      by (subst prepass.simps)
         (auto simp: Let_def intro!: skip visit yields_sbind [OF yields_smap_err [OF yields_charge_object_visit]]
           yields_sbind [OF yields_read_meta [OF x(1)]])
  qed
qed

end

interpretation static_server: graph_server "static_db so" "so_objects so" for so
  by unfold_locales (simp add: yields_static_find_graph)

section \<open>The loop without ceilings\<close>

text \<open>How a loop ends that starts with \<open>n\<close> commits collected and has \<open>k\<close> left to show.\<close>

definition loop_ends :: "nat \<Rightarrow> nat \<Rightarrow> nat \<Rightarrow> bool \<Rightarrow> log_run \<Rightarrow> bool" where
  "loop_ends limit n k met run \<longleftrightarrow> length (fst (snd run)) = min limit (n + k)
    \<and> (snd (snd run) \<noteq> None \<longleftrightarrow> limit < n + k) \<and> fst run = met"

context graph_server
begin

lemma yields_show_commit:
  assumes readable: "readable_commit db opts m (wc_id v)"
    and inv: "walk_inv (meta_at db opts m) start D w" and vs: "walks (spec_step (meta_at db opts m)) w vs"
    and room: "length commits < lo_limit opts"
    and go_on: "\<And>c. \<exists>run. yields (go_on (commits @ [c]) w) (Some run)
      \<and> loop_ends (lo_limit opts) (Suc (length commits)) (length (log_selection opts True resume vs)) True run"
  shows "\<exists>run. yields (show_commit db opts go_on commits v w) (Some run)
    \<and> loop_ends (lo_limit opts) (length commits) (Suc (length (log_selection opts True resume vs))) True run"
proof -
  from readable obtain payload c where payload: "m (wc_id v) = Some (Commit, payload)"
    and c: "decode_log_commit (wc_id v) payload (is_shallow db (wc_id v)) = Inr c"
    unfolding readable_commit_def by blast
  have "untroubled w" using inv by (cases w) (auto simp: chron_inv_def)
  then have body: "yields (show_commit db opts go_on commits v w) r"
    if "yields (if Suc (length commits) = lo_limit opts \<and> has_matching opts w
      then sreturn (Some (True, commits @ [c], Some ''limit'')) else go_on (commits @ [c]) w) r" for r
    unfolding show_commit_def Let_def using that c
    by (intro yields_sbind [OF yields_sattempt [OF yields_read_payload [OF readable payload]]])
       (auto intro!: yields_sbind [OF yields_slift])
  show ?thesis
  proof (cases "Suc (length commits) = lo_limit opts \<and> has_matching opts w")
    case True
    from has_matching_ahead [OF inv _ vs] True obtain u where "u \<in> set vs" "within_time_bounds (wc_time u) opts" by blast
    then have "log_selection opts True resume vs \<noteq> []" by (auto simp: log_selection_def after_resume_def filter_empty_conv)
    then have "loop_ends (lo_limit opts) (length commits) (Suc (length (log_selection opts True resume vs))) True
        (True, commits @ [c], Some ''limit'')"
      using True by (cases "log_selection opts True resume vs") (auto simp: loop_ends_def)
    moreover have "yields (show_commit db opts go_on commits v w) (Some (True, commits @ [c], Some ''limit''))"
      by (rule body) (use True in \<open>simp add: yields_sreturn\<close>)
    ultimately show ?thesis by blast
  next
    case False
    from go_on [of c] obtain run where run: "yields (go_on (commits @ [c]) w) (Some run)"
      "loop_ends (lo_limit opts) (Suc (length commits)) (length (log_selection opts True resume vs)) True run" by blast
    have "yields (show_commit db opts go_on commits v w) (Some run)" by (rule body) (unfold if_not_P [OF False], rule run(1))
    moreover have "loop_ends (lo_limit opts) (length commits) (Suc (length (log_selection opts True resume vs))) True run"
      using run(2) by (simp add: loop_ends_def)
    ultimately show ?thesis by blast
  qed
qed

lemma yields_log_loop:
  assumes readable: "readable_history db opts m start" and limit: "0 < lo_limit opts"
    and "walk_inv (meta_at db opts m) start D w" and "walks (spec_step (meta_at db opts m)) w vs"
    and "\<not> found \<longrightarrow> commits = []" and "length commits \<le> lo_limit opts" and "length vs < fuel"
  shows "\<exists>run. yields (log_loop fuel db opts resume found commits w) (Some run)
    \<and> loop_ends (lo_limit opts) (length commits) (length (log_selection opts found resume vs))
        (found \<or> (\<exists>v \<in> set vs. Some (wc_id v) = resume)) run"
  using assms(3-7)
proof (induction fuel arbitrary: D w vs found commits)
  case (Suc fuel)
  let ?N = "meta_at db opts m" and ?go_on = "\<lambda>found1 commits1 w1. log_loop fuel db opts resume found1 commits1 w1"
  let ?met = "found \<or> (\<exists>v \<in> set vs. Some (wc_id v) = resume)"
  from yields_walk_next [OF Suc.prems(1) readable, of found] obtain w1 where
    nx: "yields (walk_next db opts found w) (case spec_step ?N w of None \<Rightarrow> (None, w1) | Some (v, w') \<Rightarrow> (Some (Inr v), w'))" by blast
  have body: "yields (log_loop (Suc fuel) db opts resume found commits w) r"
    if "yields (log_turn db opts resume ?go_on found commits
      (case spec_step ?N w of None \<Rightarrow> (None, w1) | Some (v, w') \<Rightarrow> (Some (Inr v), w'))) r" for r
    unfolding log_loop.simps by (rule yields_sbind [OF yields_check], rule yields_sbind [OF nx], rule that)
  show ?case
  proof (cases vs)
    case Nil
    with Suc.prems(2) have "spec_step ?N w = None" by (auto elim: walks.cases)
    then have "yields (log_loop (Suc fuel) db opts resume found commits w) (Some (found, commits, None))"
      by (intro body) (auto simp: log_turn_def intro!: yields_sreturn)
    then show ?thesis using Nil Suc.prems(4) by (auto simp: loop_ends_def min_def)
  next
    case (Cons v vs')
    with Suc.prems(2) obtain w2 where step: "spec_step ?N w = Some (v, w2)" and vs': "walks (spec_step ?N) w2 vs'"
      by (auto elim: walks.cases)
    note v = walk.step_some [OF Suc.prems(1) step]
    have loop: "\<exists>run. yields (?go_on found1 commits1 w2) (Some run)
        \<and> loop_ends (lo_limit opts) (length commits1) (length (log_selection opts found1 resume vs'))
            (found1 \<or> (\<exists>v \<in> set vs'. Some (wc_id v) = resume)) run"
      if "\<not> found1 \<longrightarrow> commits1 = []" "length commits1 \<le> lo_limit opts" for found1 commits1
      using Suc.IH [OF _ vs' that] v Suc.prems(5) Cons by auto
    consider (seek) "\<not> found" | (pass) "found" "\<not> within_time_bounds (wc_time v) opts"
      | (full) "found" "within_time_bounds (wc_time v) opts" "length commits = lo_limit opts"
      | (shown) "found" "within_time_bounds (wc_time v) opts" "length commits < lo_limit opts"
      using Suc.prems(4) by linarith
    then show ?thesis
    proof cases
      case seek
      with loop [of "Some (wc_id v) = resume" commits] Suc.prems(3,4) body show ?thesis
        by (fastforce simp: step log_turn_def Cons)
    next
      case pass
      with loop [of True commits] Suc.prems(4) body show ?thesis by (fastforce simp: step log_turn_def Cons)
    next
      case full
      then have "yields (log_loop (Suc fuel) db opts resume found commits w) (Some (True, commits, Some ''limit''))"
        by (intro body) (auto simp: step log_turn_def intro!: yields_sreturn)
      then show ?thesis using full by (auto simp: loop_ends_def Cons)
    next
      case shown
      have readable_v: "readable_commit db opts m (wc_id v)" using readable v by (simp add: readable_history_def)
      have "\<exists>run. yields (show_commit db opts (?go_on True) commits v w2) (Some run)
          \<and> loop_ends (lo_limit opts) (length commits) (Suc (length (log_selection opts True resume vs'))) True run"
      proof (rule yields_show_commit [OF readable_v _ vs' shown(3)])
        show "walk_inv ?N start (insert (wc_id v) D) w2" using v by simp
        show "\<exists>run. yields (?go_on True (commits @ [c]) w2) (Some run)
          \<and> loop_ends (lo_limit opts) (Suc (length commits)) (length (log_selection opts True resume vs')) True run" for c
          using loop [of True "commits @ [c]"] shown(3) by simp
      qed
      with shown body show ?thesis by (fastforce simp: step log_turn_def Cons)
    qed
  qed
qed simp

end

lemma length_as_bytes_le: "length (as_bytes x) \<le> 32"
  by (cases "oid_kind x") (simp_all add: as_bytes_def)

lemma log_cursor_fits: "length (encode (log_cursor snap opts x)) \<le> MAX_CURSOR_BYTES"
  using length_as_bytes_le [of x] length_as_bytes_le [of "commit_oid snap"]
  by (simp add: encode_def length_encode_body log_cursor_def MAX_CURSOR_BYTES_def)

context graph_server
begin

lemma yields_walk_new:
  assumes readable: "readable_history db opts m start" and w: "walk_start fuel (meta_at db opts m) opts start = Some w"
  shows "yields (walk_new fuel db opts start) (Some w)"
proof (cases "lo_order opts = Chronological")
  case True
  have "readable_commit db opts m start" using readable by (simp add: readable_history_def)
  from yields_read_meta [OF this] have "yields (chronological_new db opts start) (chron_start (meta_at db opts m) start)"
    unfolding chronological_new_def chron_start_def by (rule yields_sbind) (rule yields_sreturn)
  then show ?thesis using True w by (auto simp: walk_new_def walk_start_def intro!: yields_sbind yields_sreturn)
next
  case False
  let ?N = "meta_at db opts m" and ?R = "log_reach (meta_at db opts m) start"
  from w False obtain nodes ow where nodes: "known_nodes fuel ?N [start] [] 0 = Some nodes"
    and ow: "ordered_of_nodes opts nodes = Inr ow" "w = OrderedWalk ow"
    by (auto simp: walk_start_def split: option.splits sum.splits)
  have "yields (prepass fuel db opts start [start] [] 0) (Some nodes)"
    unfolding nodes [symmetric]
    by (rule yields_prepass [of _ ?R]) (use readable log_reach_parent [of _ ?N start] log_reach_start [of start ?N] in \<open>auto simp: readable_history_def simp del: log_reach_start\<close>)
  then have "yields (ordered_new fuel db opts start) (Some ow)"
    unfolding ordered_new_def
    by (rule yields_sbind) (auto simp: ow(1) intro!: yields_sbind [OF yields_slift] yields_sreturn)
  then show ?thesis using False ow(2) by (auto simp: walk_new_def intro!: yields_sbind yields_sreturn)
qed

lemma log_answers_lemma:
  assumes hash: "db_hash_kind db = Sha1" "oid_kind (commit_oid snap) = Sha1" "oid_kind (tree_oid snap) = Sha1"
    and limit: "0 < lo_limit opts"
    and readable: "readable_history db opts m (commit_oid snap)"
    and fin: "finite (log_reach (meta_at db opts m) (commit_oid snap))"
    and vs: "log_sequence (meta_at db opts m) opts (commit_oid snap) vs"
    and resume: "resume_commit snap opts = Inr resume" "resume = None \<or> resume \<in> Some ` log_reach (meta_at db opts m) (commit_oid snap)"
    and fuel: "length vs + (\<Sum>x \<in> log_reach (meta_at db opts m) (commit_oid snap). length (cm_parents (meta_at db opts m x))) + 1 \<le> fuel"
    and b: "unlimited b"
  shows "\<exists>page b'. commit_log fuel db snap opts (w, b) = (Inr (Some page), (w, b')) \<and> unlimited b'
    \<and> length (lp_commits page) = min (lo_limit opts) (length (log_selection opts (resume = None) resume vs))
    \<and> (lp_truncated page \<longleftrightarrow> lo_limit opts < length (log_selection opts (resume = None) resume vs))"
proof -
  let ?N = "meta_at db opts m" and ?R = "log_reach (meta_at db opts m) (commit_oid snap)"
  let ?sel = "log_selection opts (resume = None) resume vs"
  from walk_start_enough [OF fin, of fuel opts] fuel obtain walk where walk: "walk_start fuel ?N opts (commit_oid snap) = Some walk"
    by fastforce
  then have walks: "walks (spec_step ?N) walk vs" using vs by (metis log_sequence_def walk_start_unique)
  have "length vs < fuel" using fuel by simp
  from yields_log_loop [OF readable limit walk_start_inv [OF walk] walks, of "resume = None" "[]" fuel resume] this
  obtain run where run: "yields (log_loop fuel db opts resume (resume = None) [] walk) (Some run)"
    and ends: "loop_ends (lo_limit opts) 0 (length ?sel) (resume = None \<or> (\<exists>v \<in> set vs. Some (wc_id v) = resume)) run" by auto
  have met: "resume = None \<or> (\<exists>v \<in> set vs. Some (wc_id v) = resume)"
    using resume(2) unfolding log_sequence_all(2) [OF vs, symmetric] by auto
  obtain commits stopped where t: "run = (True, commits, stopped)"
    "length commits = min (lo_limit opts) (length ?sel)" "stopped \<noteq> None \<longleftrightarrow> lo_limit opts < length ?sel"
    using ends met by (cases run) (auto simp: loop_ends_def)
  have ens: "ensure_sha1 db [commit_oid snap, tree_oid snap] = Inr ()" using hash by (simp add: ensure_sha1_def)
  from yields_run [OF yields_check b, of w] obtain b1 where b1: "on_budget check (w, b) = (Inr (), (w, b1))" "unlimited b1" by blast
  from yields_run [OF yields_walk_new [OF readable walk] b1(2), of w] obtain b2 where
    b2: "walk_new fuel db opts (commit_oid snap) (w, b1) = (Inr (Some walk), (w, b2))" "unlimited b2" by blast
  from yields_run [OF run b2(2), of w] obtain b3 where
    b3: "log_loop fuel db opts resume (resume = None) [] walk (w, b2) = (Inr (Some run), (w, b3))" "unlimited b3" by blast
  have log: "commit_log fuel db snap opts (w, b) = (rbind (log_page_of db snap opts run (w, b3)) (\<lambda>p. Inr (Some p)), (w, b3))"
    using ens limit b1(1) b2(1) b3(1) resume(1)
    by (simp add: commit_log_def sbind_def slift_def)
  have "\<exists>page. log_page_of db snap opts run (w, b3) = Inr page \<and> lp_commits page = commits \<and> lp_truncated page = (stopped \<noteq> None)"
  proof (cases "stopped = None")
    case True
    then show ?thesis by (simp add: log_page_of_def t(1))
  next
    case False
    then have "commits \<noteq> []" using t limit by auto
    with False log_cursor_fits [of snap opts "lc_id (last commits)"] show ?thesis by (auto simp: log_page_of_def t(1) Let_def)
  qed
  then obtain page where page: "log_page_of db snap opts run (w, b3) = Inr page" "lp_commits page = commits"
    "lp_truncated page = (stopped \<noteq> None)" by blast
  with log t(2,3) b3(2) show ?thesis by simp
qed

end

text \<open>
  C18. The log answers: over an in-memory store that holds every reachable commit in readable
  form, without ceilings, a query with a positive limit and no cursor, or the cursor of a
  reachable commit, returns a page with as many of the selected commits as the limit allows,
  truncated exactly when more are selected than the limit.
\<close>

theorem log_answers:
  assumes "so_hash so = Sha1" and "oid_kind (commit_oid snap) = Sha1" and "oid_kind (tree_oid snap) = Sha1"
    and "0 < lo_limit opts" and "N = meta_at (static_db so :: 'w odb) opts (so_objects so)"
    and "readable_history (static_db so :: 'w odb) opts (so_objects so) (commit_oid snap)"
    and "finite (log_reach N (commit_oid snap))" and "log_sequence N opts (commit_oid snap) vs"
    and "resume_commit snap opts = Inr resume" and "resume = None \<or> resume \<in> Some ` log_reach N (commit_oid snap)"
    and "length vs + (\<Sum>x \<in> log_reach N (commit_oid snap). length (cm_parents (N x))) + 1 \<le> fuel"
    and "unlimited b"
  shows "\<exists>page b'. commit_log fuel (static_db so) snap opts (w :: 'w, b) = (Inr (Some page), (w, b'))
    \<and> length (lp_commits page) = min (lo_limit opts) (length (log_selection opts (resume = None) resume vs))
    \<and> (lp_truncated page \<longleftrightarrow> lo_limit opts < length (log_selection opts (resume = None) resume vs))"
  using static_server.log_answers_lemma [where so = so and opts = opts and snap = snap and vs = vs and resume = resume
      and fuel = fuel and b = b and w = w] assms by fastforce

section \<open>Times and cursors of a page\<close>

lemma resume_at_cursor:
  assumes "oid_wf x" and "oid_wf (commit_oid snap)" and "oid_kind x = oid_kind (commit_oid snap)"
  shows "resume_commit snap (next_log_options opts (encode (log_cursor snap opts x)) l) = Inr (Some x)"
proof -
  let ?c = "log_cursor snap opts x"
  let ?e = "\<lparr>exp_hash_kind = oid_kind (commit_oid snap), exp_snapshot_digest = as_bytes (commit_oid snap),
    exp_operation_tag = OPERATION_LOG, exp_option_fingerprint = log_fingerprint opts\<rparr>"
  have "cursor_wf ?c" "expects ?e ?c"
    using length_as_bytes [OF assms(2)] log_cursor_fits [of snap opts x] by (simp_all add: cursor_wf_def expects_def log_cursor_def)
  then have "decode (encode ?c) ?e = Inr ?c" by (simp add: decode_Inr)
  then show ?thesis
    using oid_new_as_bytes [OF assms(1)] assms(3)
    by (simp add: resume_commit_def decode_resume_def map_err_def) (simp add: log_cursor_def)
qed

text \<open>Every shown commit carries the committer time that the walk ordered and bounded it by.\<close>

lemma shown_time:
  assumes "readable_history db opts m start" and "log_sequence (meta_at db opts m) opts start vs" and "v \<in> set vs"
    and "commit_shown db m c v"
  shows "li_time (lc_committer c) = wc_time v"
proof -
  have "wc_id v \<in> log_reach (meta_at db opts m) start" using log_sequence_all(2) [OF assms(2)] assms(3) by blast
  then obtain payload meta where meta: "m (wc_id v) = Some (Commit, payload)" "meta_from_payload db opts (wc_id v) payload = Inr meta"
    using assms(1) unfolding readable_history_def readable_commit_def by blast
  from assms(4) meta(1) have "decode_log_commit (wc_id v) payload (is_shallow db (wc_id v)) = Inr c"
    by (auto simp: commit_shown_def)
  from readers_agree [OF meta(2) this] have "li_time (lc_committer c) = cm_time meta" .
  also have "\<dots> = cm_time (meta_at db opts m (wc_id v))" by (simp add: meta_at_def meta)
  also have "\<dots> = wc_time v" using log_sequence_all(3) [OF assms(2,3)] by simp
  finally show ?thesis .
qed

text \<open>
  The times a page shows: over a readable history, every commit of a page has a committer
  time within the bounds of the query, and in chronological order, when no followed parent is
  newer than its child, the times never increase down the page.
\<close>

theorem log_shows_times_in_order:
  assumes "object_store db I (\<lambda>x v. v = m x)" and "I w"
    and "commit_log fuel db snap opts (w, b) = (Inr (Some page), s)"
    and "finite (log_reach (meta_at db opts m) (commit_oid snap))"
    and "readable_history db opts m (commit_oid snap)"
    and "monotone_times (meta_at db opts m) (commit_oid snap)" and "lo_order opts = Chronological"
  shows "(\<forall>c \<in> set (lp_commits page). within_time_bounds (li_time (lc_committer c)) opts)
    \<and> sorted_wrt (\<lambda>c d. li_time (lc_committer d) \<le> li_time (lc_committer c)) (lp_commits page)"
proof -
  let ?N = "meta_at db opts m" and ?cs = "lp_commits page"
  from log_sequence_exists [OF assms(4)] obtain vs where vs: "log_sequence ?N opts (commit_oid snap) vs" by blast
  from commit_log_page [OF assms(1-3) vs] obtain resume where
    page: "log_page_shows db m snap opts page (log_selection opts (resume = None) resume vs)" by blast
  let ?sel = "log_selection opts (resume = None) resume vs"
  have sorted: "sorted_wrt (\<lambda>u v. wc_time v \<le> wc_time u) vs"
    by (rule log_sequence_newest_first [OF vs assms(7,6)])
  have sel: "sorted_wrt (\<lambda>u v. wc_time v \<le> wc_time u) ?sel" "set ?sel \<subseteq> set vs" "\<forall>v \<in> set ?sel. within_time_bounds (wc_time v) opts"
    using sorted_wrt_after [OF sorted, of "resume = None" resume] sorted_wrt_filter by (auto simp: log_selection_def)
  have all2: "length ?cs \<le> length ?sel" "list_all2 (commit_shown db m) ?cs (take (length ?cs) ?sel)"
    using page by (auto simp: log_page_shows_def Let_def)
  have nth: "li_time (lc_committer (?cs ! i)) = wc_time (?sel ! i) \<and> i < length ?sel" if "i < length ?cs" for i
  proof -
    have i: "i < length ?sel" using that all2(1) by simp
    then have "?sel ! i \<in> set vs" using sel(2) by auto
    from shown_time [OF assms(5) vs this] list_all2_nthD [OF all2(2) that] i that show ?thesis by simp
  qed
  have "within_time_bounds (li_time (lc_committer c)) opts" if "c \<in> set ?cs" for c
    using that nth sel(3) by (metis in_set_conv_nth nth_mem)
  moreover have "li_time (lc_committer (?cs ! j)) \<le> li_time (lc_committer (?cs ! i))" if "i < j" "j < length ?cs" for i j
    using nth [of i] nth [of j] that sorted_wrt_nth_less [OF sel(1) that(1)] by simp
  ultimately show ?thesis by (simp add: sorted_wrt_iff_nth_less)
qed

end
