(* ===== verification/LogExamples.thy ===== *)
theory LogExamples
  imports LogAnswers
begin

text \<open>
  A history of three commits in an in-memory store, on which every property of the commit log
  is applied.
\<close>

section \<open>A small history\<close>

text \<open>Three commits: the second follows the first, the third merges the second and the first.\<close>

definition demo_commit :: "string \<Rightarrow> oid list \<Rightarrow> bytes" where
  "demo_commit time parents = print_commit (demo_oid 9) parents (demo_identity time) (demo_identity time) (ascii ''m'')"

definition demo_history :: static_odb where
  "demo_history = \<lparr>so_hash = Sha1, so_objects = map_of
     [(demo_oid 1, (Commit, demo_commit ''5'' [])), (demo_oid 2, (Commit, demo_commit ''6'' [demo_oid 1])),
      (demo_oid 3, (Commit, demo_commit ''7'' [demo_oid 2, demo_oid 1]))]\<rparr>"

definition demo_db :: "unit odb" where "demo_db = static_db demo_history"

definition demo_snap :: snapshot where "demo_snap = \<lparr>commit_oid = demo_oid 3, tree_oid = demo_oid 9\<rparr>"

definition demo_log :: "log_order \<Rightarrow> nat \<Rightarrow> bytes option \<Rightarrow> log_options" where
  "demo_log order limit cursor = \<lparr>lo_order = order, lo_first_parent = False, lo_since = None, lo_until = None,
     lo_limit = limit, lo_cursor = cursor\<rparr>"

abbreviation "demo_objects \<equiv> so_objects demo_history"
abbreviation "demo_graph order limit cursor \<equiv> meta_at demo_db (demo_log order limit cursor) demo_objects"

lemma demo_not_shallow [simp]: "\<not> is_shallow demo_db x"
  by (simp add: is_shallow_def demo_db_def static_db_def)

lemma demo_log_fields [simp]:
  "commit_oid demo_snap = demo_oid 3" "tree_oid demo_snap = demo_oid 9" "db_hash_kind demo_db = Sha1"
  "lo_limit (demo_log order limit cursor) = limit" "lo_order (demo_log order limit cursor) = order"
  "lo_cursor (demo_log order limit cursor) = cursor"
  by (simp_all add: demo_snap_def demo_db_def demo_history_def demo_log_def)

lemma demo_good:
  assumes "parse_i64 (ascii time) = Some t" and "\<forall>p \<in> set parents. oid_wf p \<and> oid_kind p = Sha1" and "oid_kind x = Sha1"
  shows "good_commit x (demo_oid 9) parents (demo_identity time) (demo_identity time) (demo_id t) (demo_id t)"
  using demo_identity_decodes [OF assms(1)] assms(2,3) by (auto simp: good_commit_def demo_id_def)

lemma demo_meta:
  assumes "demo_objects x = Some (Commit, demo_commit time parents)" and "parse_i64 (ascii time) = Some t"
    and "\<forall>p \<in> set parents. oid_wf p \<and> oid_kind p = Sha1" and "oid_kind x = Sha1"
  shows "demo_graph order limit cursor x = \<lparr>cm_parents = parents, cm_time = t\<rparr>"
    and "readable_commit demo_db (demo_log order limit cursor) demo_objects x"
proof -
  note good = demo_good [OF assms(2-4)]
  have meta: "meta_from_payload demo_db (demo_log order limit cursor) x (demo_commit time parents) = Inr \<lparr>cm_parents = parents, cm_time = t\<rparr>"
    unfolding demo_commit_def meta_printed [OF good] by (simp add: demo_log_def demo_id_def)
  then show "demo_graph order limit cursor x = \<lparr>cm_parents = parents, cm_time = t\<rparr>"
    using assms(1) by (simp add: meta_at_def)
  have kind: "oid_kind x = db_hash_kind demo_db" using assms(4) by (simp add: demo_db_def demo_history_def)
  show "readable_commit demo_db (demo_log order limit cursor) demo_objects x"
    unfolding readable_commit_def
    using kind assms(1) meta log_commit_printed [OF good] by (simp add: demo_commit_def)
qed

lemma demo_times: "parse_i64 (ascii ''5'') = Some 5" "parse_i64 (ascii ''6'') = Some 6" "parse_i64 (ascii ''7'') = Some 7"
  by code_simp+

lemma demo_objects_at:
  "demo_objects (demo_oid 1) = Some (Commit, demo_commit ''5'' [])"
  "demo_objects (demo_oid 2) = Some (Commit, demo_commit ''6'' [demo_oid 1])"
  "demo_objects (demo_oid 3) = Some (Commit, demo_commit ''7'' [demo_oid 2, demo_oid 1])"
  by (simp_all add: demo_history_def)

lemmas demo_metas = demo_meta [OF demo_objects_at(1) demo_times(1), simplified]
  demo_meta [OF demo_objects_at(2) demo_times(2), simplified] demo_meta [OF demo_objects_at(3) demo_times(3), simplified]

lemma demo_graph_at:
  "demo_graph order limit cursor (demo_oid 1) = \<lparr>cm_parents = [], cm_time = 5\<rparr>"
  "demo_graph order limit cursor (demo_oid 2) = \<lparr>cm_parents = [demo_oid 1], cm_time = 6\<rparr>"
  "demo_graph order limit cursor (demo_oid 3) = \<lparr>cm_parents = [demo_oid 2, demo_oid 1], cm_time = 7\<rparr>"
  by (rule demo_metas)+

lemma demo_readable_at:
  "readable_commit demo_db (demo_log order limit cursor) demo_objects (demo_oid 1)"
  "readable_commit demo_db (demo_log order limit cursor) demo_objects (demo_oid 2)"
  "readable_commit demo_db (demo_log order limit cursor) demo_objects (demo_oid 3)"
  by (rule demo_metas)+

lemma demo_reach: "log_reach (demo_graph order limit cursor) (demo_oid 3) = {demo_oid 1, demo_oid 2, demo_oid 3}"
proof
  show "log_reach (demo_graph order limit cursor) (demo_oid 3) \<subseteq> {demo_oid 1, demo_oid 2, demo_oid 3}"
    by (rule log_reach_least) (auto simp: demo_graph_at)
  show "{demo_oid 1, demo_oid 2, demo_oid 3} \<subseteq> log_reach (demo_graph order limit cursor) (demo_oid 3)"
    using log_reach_parent [OF log_reach_start, of _ "demo_graph order limit cursor" "demo_oid 3"] by (simp add: demo_graph_at)
qed

lemma demo_readable: "readable_history demo_db (demo_log order limit cursor) demo_objects (demo_oid 3)"
  unfolding readable_history_def demo_reach by (simp add: demo_readable_at)

lemma demo_store: "object_store demo_db (\<lambda>_. True) (\<lambda>x v. v = demo_objects x)"
  unfolding demo_db_def by (rule static_exact)

lemma demo_sum: "(\<Sum>x \<in> {demo_oid 1, demo_oid 2, demo_oid 3}. length (cm_parents (demo_graph order limit cursor x))) = 3"
  by (simp add: demo_graph_at)

lemma demo_hash [simp]: "so_hash demo_history = Sha1"
  by (simp add: demo_history_def)

lemma demo_sequence:
  assumes "log_sequence (demo_graph order limit cursor) (demo_log order limit cursor) (demo_oid 3) vs"
  shows "length vs = 3" and "wc_id ` set vs = {demo_oid 1, demo_oid 2, demo_oid 3}"
    and "log_selection (demo_log order limit cursor) True resume vs = vs"
proof -
  note all = log_sequence_all(1,2) [OF assms]
  have "length vs = card (wc_id ` set vs)" using all(1) by (metis distinct_card length_map list.set_map)
  then show "length vs = 3" using all(2) by (simp add: demo_reach)
  show "wc_id ` set vs = {demo_oid 1, demo_oid 2, demo_oid 3}" using all(2) by (simp add: demo_reach)
  show "log_selection (demo_log order limit cursor) True resume vs = vs"
    by (simp add: log_selection_def after_resume_def within_time_bounds_def demo_log_def)
qed

lemma demo_log_run:
  assumes "0 < limit" and "resume_commit demo_snap (demo_log order limit cursor) = Inr resume"
    and "resume = None \<or> resume \<in> Some ` {demo_oid 1, demo_oid 2, demo_oid 3}"
    and "log_sequence (demo_graph order limit cursor) (demo_log order limit cursor) (demo_oid 3) vs"
  shows "\<exists>page s. commit_log 7 demo_db demo_snap (demo_log order limit cursor) ((), budget_unlimited idle) = (Inr (Some page), s)
    \<and> length (lp_commits page) = min limit (length (log_selection (demo_log order limit cursor) (resume = None) resume vs))
    \<and> (lp_truncated page \<longleftrightarrow> limit < length (log_selection (demo_log order limit cursor) (resume = None) resume vs))"
proof -
  let ?opts = "demo_log order limit cursor"
  note len = demo_sequence(1) [OF assms(4)]
  have sum: "(\<Sum>x \<in> log_reach (demo_graph order limit cursor) (demo_oid 3). length (cm_parents (demo_graph order limit cursor x))) = 3"
    unfolding demo_reach by (simp add: demo_graph_at)
  have fin: "finite (log_reach (demo_graph order limit cursor) (demo_oid 3))" unfolding demo_reach by simp
  have "graph_server demo_db demo_objects" unfolding demo_db_def by (rule static_server.graph_server_axioms)
  from graph_server.log_answers_lemma [OF this, of demo_snap ?opts vs resume 7 "budget_unlimited idle" "()"] assms
    demo_readable fin len sum demo_reach [of order limit cursor]
  obtain page b' where "commit_log 7 demo_db demo_snap ?opts ((), budget_unlimited idle) = (Inr (Some page), ((), b'))"
    "length (lp_commits page) = min limit (length (log_selection ?opts (resume = None) resume vs))"
    "lp_truncated page \<longleftrightarrow> limit < length (log_selection ?opts (resume = None) resume vs)" by auto
  then show ?thesis by blast
qed

text \<open>The whole history in one page, in each order.\<close>

lemma demo_all: "\<exists>page s. commit_log 7 demo_db demo_snap (demo_log order 3 None) ((), budget_unlimited idle) = (Inr (Some page), s)
    \<and> length (lp_commits page) = 3 \<and> \<not> lp_truncated page"
proof -
  let ?opts = "demo_log order 3 None"
  obtain vs where vs: "log_sequence (demo_graph order 3 None) ?opts (demo_oid 3) vs"
    using log_sequence_exists [of "demo_graph order 3 None" "demo_oid 3" ?opts] by (auto simp: demo_reach)
  note demo_sequence(1,3) [OF vs]
  with demo_log_run [of 3 order None None vs] vs show ?thesis by (auto simp: resume_commit_def)
qed

theorem log_shows_history_witness:
  "\<exists>page s vs. commit_log 7 demo_db demo_snap (demo_log DateOrder 3 None) ((), budget_unlimited idle) = (Inr (Some page), s)
    \<and> wc_id ` set vs = {demo_oid 1, demo_oid 2, demo_oid 3}
    \<and> log_page_shows demo_db demo_objects demo_snap (demo_log DateOrder 3 None) page
        (log_selection (demo_log DateOrder 3 None) True None vs)"
proof -
  let ?opts = "demo_log DateOrder 3 None"
  from demo_all [of DateOrder] obtain page s where
    run: "commit_log 7 demo_db demo_snap ?opts ((), budget_unlimited idle) = (Inr (Some page), s)" by blast
  have fin: "finite (log_reach (meta_at demo_db ?opts demo_objects) (commit_oid demo_snap))" by (simp add: demo_reach)
  from log_shows_history [OF demo_store _ run fin] obtain vs resume where
    vs: "wc_id ` set vs = {demo_oid 1, demo_oid 2, demo_oid 3}" "resume_commit demo_snap ?opts = Inr resume"
    "log_page_shows demo_db demo_objects demo_snap ?opts page (log_selection ?opts (resume = None) resume vs)"
    by (auto simp: demo_reach)
  then have "resume = None" by (simp add: resume_commit_def)
  with run vs show ?thesis by (intro exI [of _ page] exI [of _ s] exI [of _ vs]) simp
qed

lemma demo_rel: "(x, y) \<in> history_rel (demo_graph order limit cursor) \<Longrightarrow> demo_objects x \<noteq> None"
  by (auto simp: history_rel_def meta_at_def split: option.splits)

lemma demo_edges: "(x, y) \<in> history_rel (demo_graph order limit cursor) \<Longrightarrow>
    (x, y) \<in> {(demo_oid 2, demo_oid 1), (demo_oid 3, demo_oid 2), (demo_oid 3, demo_oid 1)}"
proof -
  assume rel: "(x, y) \<in> history_rel (demo_graph order limit cursor)"
  from demo_rel [OF this] have "x = demo_oid 1 \<or> x = demo_oid 2 \<or> x = demo_oid 3"
    by (auto simp: demo_history_def split: if_splits)
  with rel show ?thesis by (auto simp: history_rel_def demo_graph_at)
qed

lemma demo_acyclic: "acyclic (history_rel (demo_graph order limit cursor))"
proof -
  have "acyclic {(demo_oid 2, demo_oid 1), (demo_oid 3, demo_oid 2), (demo_oid 3, demo_oid 1)}"
    by (simp add: acyclic_insert trancl_insert rtrancl_trancl_reflcl) (simp add: acyclic_def)
  then show ?thesis by (rule acyclic_subset) (rule subrelI, rule demo_edges)
qed

theorem log_lists_children_first_witness:
  "\<exists>page s. commit_log 7 demo_db demo_snap (demo_log Topological 3 None) ((), budget_unlimited idle) = (Inr (Some page), s)
    \<and> length (lp_commits page) = 3
    \<and> (lc_id (lp_commits page ! 2), lc_id (lp_commits page ! 0)) \<notin> history_rel (demo_graph Topological 3 None)"
proof -
  let ?opts = "demo_log Topological 3 None"
  from demo_all [of Topological] obtain page s where
    run: "commit_log 7 demo_db demo_snap ?opts ((), budget_unlimited idle) = (Inr (Some page), s)" "length (lp_commits page) = 3" by blast
  have fin: "finite (log_reach (meta_at demo_db ?opts demo_objects) (commit_oid demo_snap))" by (simp add: demo_reach)
  from log_lists_children_first [OF demo_store _ run(1) fin demo_acyclic, of 0 2] run(2)
  have "(lc_id (lp_commits page ! 2), lc_id (lp_commits page ! 0)) \<notin> history_rel (demo_graph Topological 3 None)" by simp
  with run show ?thesis by blast
qed

theorem log_terminates_witness:
  "\<exists>p s. commit_log 7 demo_db demo_snap (demo_log Topological 3 None) ((), budget_unlimited idle) = (Inr p, s) \<and> p \<noteq> None"
proof -
  let ?opts = "demo_log Topological 3 None"
  from demo_all [of Topological] obtain page s where
    run: "commit_log 7 demo_db demo_snap ?opts ((), budget_unlimited idle) = (Inr (Some page), s)" by blast
  have fin: "finite (log_reach (meta_at demo_db ?opts demo_objects) (commit_oid demo_snap))" by (simp add: demo_reach)
  from log_terminates [OF demo_store _ run fin] have "Some page \<noteq> None" by (auto simp: demo_reach demo_graph_at)
  with run show ?thesis by blast
qed

theorem log_answers_witness:
  "\<exists>page s. commit_log 7 (static_db demo_history) demo_snap (demo_log Chronological 2 None) ((), budget_unlimited idle) = (Inr (Some page), s)
    \<and> length (lp_commits page) = 2 \<and> lp_truncated page"
proof -
  let ?opts = "demo_log Chronological 2 None"
  obtain vs where vs: "log_sequence (demo_graph Chronological 2 None) ?opts (demo_oid 3) vs"
    using log_sequence_exists [of "demo_graph Chronological 2 None" "demo_oid 3" ?opts] by (auto simp: demo_reach)
  note len = demo_sequence(1) [OF vs] and sel = demo_sequence(3) [OF vs]
  have "\<exists>page b'. commit_log 7 (static_db demo_history) demo_snap ?opts ((), budget_unlimited idle) = (Inr (Some page), ((), b'))
    \<and> length (lp_commits page) = min (lo_limit ?opts) (length (log_selection ?opts (None = (None :: oid option)) None vs))
    \<and> (lp_truncated page \<longleftrightarrow> lo_limit ?opts < length (log_selection ?opts (None = (None :: oid option)) None vs))"
    by (rule log_answers [where resume = None and N = "demo_graph Chronological 2 None"])
       (use vs len demo_readable demo_reach [of Chronological 2 None] in
         \<open>simp_all add: demo_db_def [symmetric] resume_commit_def demo_graph_at demo_sum\<close>)
  with len sel show ?thesis by auto
qed

text \<open>Two pages of the history, the second at the cursor of the first.\<close>

theorem log_pages_join_witness:
  "\<exists>p1 s1 c p2 s2 vs. commit_log 7 demo_db demo_snap (demo_log Topological 2 None) ((), budget_unlimited idle) = (Inr (Some p1), s1)
    \<and> lp_next_cursor p1 = Some c
    \<and> commit_log 7 demo_db demo_snap (demo_log Topological 5 (Some c)) ((), budget_unlimited idle) = (Inr (Some p2), s2)
    \<and> list_all2 (commit_shown demo_db demo_objects) (lp_commits p1 @ lp_commits p2) (take (length (lp_commits p1 @ lp_commits p2)) vs)"
proof -
  let ?opts = "demo_log Topological 2 None" and ?N = "demo_graph Topological 2 None" and ?s = "((), budget_unlimited idle)"
  obtain vs where vs: "log_sequence ?N ?opts (demo_oid 3) vs"
    using log_sequence_exists [of ?N "demo_oid 3" ?opts] by (auto simp: demo_reach)
  note all = demo_sequence(1,2) [OF vs] and sel = demo_sequence(3) [OF vs]
  from demo_log_run [of 2 Topological None None vs] vs obtain p1 s1 where
    p1: "commit_log 7 demo_db demo_snap ?opts ?s = (Inr (Some p1), s1)" "length (lp_commits p1) = 2" "lp_truncated p1"
    using all(1) sel by (auto simp: resume_commit_def)
  from commit_log_page [OF demo_store _ p1(1), of vs] vs p1(2,3) sel
  have c: "lp_next_cursor p1 = Some (encode (log_cursor demo_snap ?opts (wc_id (vs ! 1))))"
    by (auto simp: log_page_shows_def resume_commit_def)
  define c where "c = encode (log_cursor demo_snap ?opts (wc_id (vs ! 1)))"
  have next_opts: "demo_log Topological 5 (Some c) = next_log_options ?opts c 5"
    by (simp add: demo_log_def next_log_options_def)
  have x: "wc_id (vs ! 1) \<in> {demo_oid 1, demo_oid 2, demo_oid 3}" using all(1,2) by (metis image_eqI nth_mem one_less_numeral_iff semiring_norm(77))
  then have "resume_commit demo_snap (demo_log Topological 5 (Some c)) = Inr (Some (wc_id (vs ! 1)))"
    unfolding next_opts unfolding c_def by (intro resume_at_cursor) auto
  from demo_log_run [OF _ this, of vs] x vs obtain p2 s2 where
    p2: "commit_log 7 demo_db demo_snap (next_log_options ?opts c 5) ?s = (Inr (Some p2), s2)"
    unfolding next_opts by auto
  have fin: "finite (log_reach (meta_at demo_db ?opts demo_objects) (commit_oid demo_snap))" by (simp add: demo_reach)
  from log_pages_join [OF demo_store _ _ _ p1(1) c [folded c_def] p2 fin] obtain us resume where
    us: "resume_commit demo_snap ?opts = Inr resume"
    "list_all2 (commit_shown demo_db demo_objects) (lp_commits p1 @ lp_commits p2)
      (take (length (lp_commits p1 @ lp_commits p2)) (log_selection ?opts (resume = None) resume us))"
    by (auto simp: Let_def)
  with p1(1) c [folded c_def] p2 show ?thesis unfolding next_opts [symmetric]
    by (intro exI conjI) (assumption | rule refl)+
qed

theorem log_shows_times_in_order_witness:
  "\<exists>page s. commit_log 7 demo_db demo_snap (demo_log Chronological 3 None) ((), budget_unlimited idle) = (Inr (Some page), s)
    \<and> length (lp_commits page) = 3
    \<and> sorted_wrt (\<lambda>c d. li_time (lc_committer d) \<le> li_time (lc_committer c)) (lp_commits page)"
proof -
  let ?opts = "demo_log Chronological 3 None"
  from demo_all [of Chronological] obtain page s where
    run: "commit_log 7 demo_db demo_snap ?opts ((), budget_unlimited idle) = (Inr (Some page), s)" "length (lp_commits page) = 3" by blast
  have fin: "finite (log_reach (meta_at demo_db ?opts demo_objects) (commit_oid demo_snap))" by (simp add: demo_reach)
  have "monotone_times (meta_at demo_db ?opts demo_objects) (commit_oid demo_snap)"
    by (auto simp: monotone_times_def demo_reach demo_graph_at)
  from log_shows_times_in_order [OF demo_store _ run(1) fin _ this] demo_readable
  have "sorted_wrt (\<lambda>c d. li_time (lc_committer d) \<le> li_time (lc_committer c)) (lp_commits page)" by simp
  with run show ?thesis by blast
qed

end
