(* ===== verification/OrderedMap.thy ===== *)
theory OrderedMap
  imports Prelude
begin

text \<open>
  The ordered maps of the standard library (\<open>BTreeMap\<close>) as association lists with strictly ascending keys:
  insertion, removal and iteration in the order of keys, and the contract that the components which use them rely on.
\<close>

fun bt_insert :: "'k::linorder \<Rightarrow> 'v \<Rightarrow> ('k \<times> 'v) list \<Rightarrow> ('k \<times> 'v) list" where
  "bt_insert k v [] = [(k, v)]"
| "bt_insert k v ((a, b) # m) =
    (if k < a then (k, v) # (a, b) # m else if k = a then (k, v) # m else (a, b) # bt_insert k v m)"

definition bt_remove :: "'k \<Rightarrow> ('k \<times> 'v) list \<Rightarrow> ('k \<times> 'v) list" where
  "bt_remove k m = filter (\<lambda>e. fst e \<noteq> k) m"

definition bt_ok :: "('k::linorder \<times> 'v) list \<Rightarrow> bool" where
  "bt_ok m \<longleftrightarrow> sorted_wrt (<) (map fst m)"

locale ordered_map =
  fixes insert :: "'k::linorder \<Rightarrow> 'v \<Rightarrow> 'm \<Rightarrow> 'm" and remove :: "'k \<Rightarrow> 'm \<Rightarrow> 'm"
    and lookup :: "'m \<Rightarrow> 'k \<Rightarrow> 'v option" and empty :: 'm and entries :: "'m \<Rightarrow> ('k \<times> 'v) list" and ok :: "'m \<Rightarrow> bool"
  assumes empty_law: "ok empty" "lookup empty = (\<lambda>_. None)"
    and insert_law: "ok m \<Longrightarrow> ok (insert k v m)" "ok m \<Longrightarrow> lookup (insert k v m) = (lookup m)(k := Some v)"
    and remove_law: "ok m \<Longrightarrow> ok (remove k m)" "ok m \<Longrightarrow> lookup (remove k m) = (lookup m)(k := None)"
    and entries_law: "ok m \<Longrightarrow> sorted_wrt (<) (map fst (entries m))" "ok m \<Longrightarrow> (k, v) \<in> set (entries m) \<longleftrightarrow> lookup m k = Some v"
begin

lemma fold_insert:
  assumes "ok m"
  shows "ok (fold (\<lambda>(k, v). insert k v) xs m)"
    and "lookup (fold (\<lambda>(k, v). insert k v) xs m) = lookup m ++ map_of (rev xs)"
  using assms
proof (induction xs arbitrary: m)
  case (Cons x xs)
  { case 1 then show ?case using Cons.IH(1) by (cases x) (auto simp: insert_law)
  next
    case 2 then show ?case using Cons.IH(2) by (cases x) (auto simp: insert_law fun_eq_iff map_add_def split: option.split) }
qed auto

lemma distinct_entries: "ok m \<Longrightarrow> distinct (map fst (entries m))"
  using entries_law(1) by (simp add: strict_sorted_iff)

end

lemma bt_ok_Nil [simp]: "bt_ok []"
  by (simp add: bt_ok_def)

lemma bt_insert_fst: "set (map fst (bt_insert k v m)) = insert k (set (map fst m))"
  by (induction k v m rule: bt_insert.induct) auto

lemma bt_insert_ok: "bt_ok m \<Longrightarrow> bt_ok (bt_insert k v m)"
proof (induction k v m rule: bt_insert.induct)
  case (2 k v a b m)
  then show ?case
    using bt_insert_fst [of k v m] by (fastforce simp: bt_ok_def)
qed (simp add: bt_ok_def)

lemma bt_insert_lookup: "bt_ok m \<Longrightarrow> map_of (bt_insert k v m) = (map_of m)(k := Some v)"
  by (induction k v m rule: bt_insert.induct) (auto simp: bt_ok_def fun_eq_iff)

interpretation btree: ordered_map bt_insert bt_remove map_of "[]" "\<lambda>m. m" bt_ok
proof unfold_locales
  fix m :: "('a \<times> 'b) list" and k :: 'a and v :: 'b
  assume m: "bt_ok m"
  then show "bt_ok (bt_remove k m)"
    by (auto simp: bt_ok_def bt_remove_def sorted_wrt_filter sorted_wrt_map)
  show "map_of (bt_remove k m) = (map_of m)(k := None)"
    by (induction m) (auto simp: bt_remove_def fun_eq_iff)
  show "sorted_wrt (<) (map fst m)"
    using m by (simp add: bt_ok_def)
  then show "(k, v) \<in> set m \<longleftrightarrow> map_of m k = Some v"
    by (simp add: strict_sorted_iff)
qed (auto simp: bt_insert_ok bt_insert_lookup)

end
