(* ===== verification/GitConfig.thy ===== *)
theory GitConfig
  imports Errors
begin

text \<open>
  The configuration parser for \<open>.gitmodules\<close> blobs (\<open>git_config.rs\<close>): characters with the
  folding of line ends and the byte that reads as the end of the input, section headers, keys, values
  with quotes, escapes, comments and continuation lines. The pairs handed to the visitor are collected in order.
  A configuration printed with quoted subsections and values parses to exactly what was printed.
\<close>

section \<open>Characters\<close>

text \<open>A character is an \<open>i16\<close> that holds the byte read as signed; \<open>-1\<close> is the end of the input.\<close>

definition to_byte :: "int \<Rightarrow> byte" where
  "to_byte c = word_of_int c"

definition is_alpha :: "int \<Rightarrow> bool" where
  "is_alpha c \<longleftrightarrow> 97 \<le> c \<and> c \<le> 122 \<or> 65 \<le> c \<and> c \<le> 90"

definition is_key_char :: "int \<Rightarrow> bool" where
  "is_key_char c \<longleftrightarrow> is_alpha c \<or> 48 \<le> c \<and> c \<le> 57 \<or> c = 45"

definition is_space :: "int \<Rightarrow> bool" where
  "is_space c \<longleftrightarrow> c = 9 \<or> c = 10 \<or> c = 13 \<or> c = 32"

definition ascii_lower :: "byte \<Rightarrow> byte" where
  "ascii_lower b = (if 65 \<le> b \<and> b \<le> 90 then b + 32 else b)"

definition c_string_len :: "bytes \<Rightarrow> nat" where
  "c_string_len bs = (case position (\<lambda>b. b = 0) bs of Some i \<Rightarrow> i | None \<Rightarrow> length bs)"

section \<open>The parser\<close>

text \<open>\<open>cp_rest\<close> is the input from \<open>position\<close> on, and \<open>cp_visited\<close> what the visitor was given.\<close>

record config_parser =
  cp_rest :: bytes
  cp_line :: u32
  cp_eof :: bool
  cp_name :: bytes
  cp_value :: bytes
  cp_base_len :: nat
  cp_visited :: "(bytes \<times> bytes option) list"

definition parser_new :: "bytes \<Rightarrow> config_parser" where
  "parser_new input = \<lparr>cp_rest = input, cp_line = 1, cp_eof = False, cp_name = [], cp_value = [], cp_base_len = 0,
     cp_visited = []\<rparr>"

definition raw_char :: "config_parser \<Rightarrow> int \<times> config_parser" where
  "raw_char p = (case cp_rest p of [] \<Rightarrow> (-1, p) | b # r \<Rightarrow> (sint b, p\<lparr>cp_rest := r\<rparr>))"

definition next_char :: "config_parser \<Rightarrow> int \<times> config_parser" where
  "next_char p =
    (let (c, p1) = raw_char p;
         (c, p1) = (if c = 13 then
                      let (c2, p2) = raw_char p1 in
                      if c2 \<noteq> 10 then (13, if c2 \<noteq> -1 then p1 else p2) else (c2, p2)
                    else (c, p1));
         p2 = (if c = 10 then p1\<lparr>cp_line := sat_add (cp_line p1) 1\<rparr> else p1)
     in if c = -1 then (10, p2\<lparr>cp_eof := True, cp_line := sat_add (cp_line p2) 1\<rparr>) else (c, p2))"

definition push_name :: "int \<Rightarrow> config_parser \<Rightarrow> config_parser" where
  "push_name c p = p\<lparr>cp_name := cp_name p @ [to_byte c]\<rparr>"

definition push_lower :: "int \<Rightarrow> config_parser \<Rightarrow> config_parser" where
  "push_lower c p = p\<lparr>cp_name := cp_name p @ [ascii_lower (to_byte c)]\<rparr>"

definition push_value :: "int \<Rightarrow> config_parser \<Rightarrow> config_parser" where
  "push_value c p = p\<lparr>cp_value := cp_value p @ [to_byte c]\<rparr>"

definition line_back :: "config_parser \<Rightarrow> config_parser" where
  "line_back p = p\<lparr>cp_line := sat_sub (cp_line p) 1\<rparr>"

lemma next_char_rest:
  assumes "next_char p = (c, p')"
  shows "length (cp_rest p') \<le> length (cp_rest p)" and "c \<noteq> 10 \<Longrightarrow> length (cp_rest p') < length (cp_rest p)"
    and "\<not> cp_eof p' \<Longrightarrow> length (cp_rest p') < length (cp_rest p)" and "cp_eof p \<Longrightarrow> cp_eof p'"
  using assms by (auto simp: next_char_def raw_char_def Let_def split: prod.splits if_splits list.splits)

lemma next_char_size: "(c, p') = next_char p \<Longrightarrow> length (cp_rest p') + (if c = 10 then 0 else 1) \<le> length (cp_rest p)"
  using next_char_rest(1,2) [of p c p'] by auto

lemma push_rest [simp]:
  "cp_rest (push_name c p) = cp_rest p" "cp_rest (push_lower c p) = cp_rest p" "cp_rest (push_value c p) = cp_rest p"
  by (simp_all add: push_name_def push_lower_def push_value_def)

text \<open>The loops of \<open>parse_entry\<close>: the rest of the key, then the blanks after it.\<close>

function key_chars :: "config_parser \<Rightarrow> int \<times> config_parser" where
  "key_chars p =
    (case next_char p of (c, p1) \<Rightarrow>
      if cp_eof p1 \<or> \<not> is_key_char c then (c, p1) else key_chars (push_lower c p1))"
  by pat_completeness auto
termination
  by (relation "measure (\<lambda>p. length (cp_rest p))") (auto dest: next_char_rest(3) [OF sym])

function skip_blanks :: "int \<Rightarrow> config_parser \<Rightarrow> int \<times> config_parser" where
  "skip_blanks c p =
    (if c = 32 \<or> c = 9 then (case next_char p of (c1, p1) \<Rightarrow> skip_blanks c1 p1) else (c, p))"
  by pat_completeness auto
termination
  by (relation "measure (\<lambda>(c, p). length (cp_rest p) + (if c = 10 then 0 else 1))")
    (auto dest: next_char_size [OF sym] split: if_splits prod.split)

text \<open>\<open>parse_value\<close>.\<close>

function value_chars :: "bool \<Rightarrow> bool \<Rightarrow> nat \<Rightarrow> config_parser \<Rightarrow> (unit + unit) \<times> config_parser" where
  "value_chars quoted comment trim_len p =
    (case next_char p of (c, p1) \<Rightarrow>
      if c = 10 then
        (if quoted then (Inl (), line_back p1)
         else (Inr (), if trim_len \<noteq> 0 then p1\<lparr>cp_value := take trim_len (cp_value p1)\<rparr> else p1))
      else if comment then value_chars quoted comment trim_len p1
      else if is_space c \<and> \<not> quoted then
        value_chars quoted comment (if trim_len = 0 then length (cp_value p1) else trim_len)
          (if cp_value p1 \<noteq> [] then push_value c p1 else p1)
      else if \<not> quoted \<and> (c = 59 \<or> c = 35) then value_chars quoted True trim_len p1
      else if c = 92 then
        (case next_char p1 of (c2, p2) \<Rightarrow>
          if c2 = 10 then value_chars quoted comment 0 p2
          else if c2 = 116 then value_chars quoted comment 0 (push_value 9 p2)
          else if c2 = 98 then value_chars quoted comment 0 (push_value 8 p2)
          else if c2 = 110 then value_chars quoted comment 0 (push_value 10 p2)
          else if c2 = 92 \<or> c2 = 34 then value_chars quoted comment 0 (push_value c2 p2)
          else (Inl (), p2))
      else if c = 34 then value_chars (\<not> quoted) comment 0 p1
      else value_chars quoted comment 0 (push_value c p1))"
  by pat_completeness auto
termination
  by (relation "measure (\<lambda>(_, _, _, p). length (cp_rest p))")
    (auto dest!: next_char_size split: if_splits)

definition parse_value :: "config_parser \<Rightarrow> (unit + unit) \<times> config_parser" where
  "parse_value p = value_chars False False 0 (p\<lparr>cp_value := []\<rparr>)"

definition visit :: "bool \<Rightarrow> config_parser \<Rightarrow> config_parser" where
  "visit has_value p =
    (let p1 = line_back p;
         p2 = p1\<lparr>cp_visited := cp_visited p1 @
           [(take (c_string_len (cp_name p1)) (cp_name p1),
             if has_value then Some (take (c_string_len (cp_value p1)) (cp_value p1)) else None)]\<rparr>
     in p2\<lparr>cp_line := sat_add (cp_line p2) 1\<rparr>)"

definition parse_entry :: "config_parser \<Rightarrow> (unit + unit) \<times> config_parser" where
  "parse_entry p =
    (case key_chars p of (c0, p0) \<Rightarrow>
     case skip_blanks c0 p0 of (c, p1) \<Rightarrow>
       if c = 10 then (Inr (), visit False p1)
       else if c \<noteq> 61 then (Inl (), p1)
       else (case parse_value p1 of
           (Inl u, p2) \<Rightarrow> (Inl u, p2)
         | (Inr _, p2) \<Rightarrow> (Inr (), visit True p2)))"

text \<open>\<open>parse_quoted_subsection\<close>: the blanks before the quote, then the quoted name.\<close>

function quote_start :: "int \<Rightarrow> config_parser \<Rightarrow> (unit + int) \<times> config_parser" where
  "quote_start c p =
    (if c = 10 then (Inl (), line_back p)
     else (case next_char p of (c1, p1) \<Rightarrow> if \<not> is_space c1 then (Inr c1, p1) else quote_start c1 p1))"
  by pat_completeness auto
termination
  by (relation "measure (\<lambda>(c, p). length (cp_rest p) + (if c = 10 then 0 else 1))")
    (auto dest: next_char_size [OF sym] split: if_splits prod.split)

function quoted_chars :: "config_parser \<Rightarrow> (unit + unit) \<times> config_parser" where
  "quoted_chars p =
    (case next_char p of (c, p1) \<Rightarrow>
      if c = 10 then (Inl (), line_back p1)
      else if c = 34 then (Inr (), p1)
      else if c = 92 then
        (case next_char p1 of (c2, p2) \<Rightarrow>
          if c2 = 10 then (Inl (), line_back p2) else quoted_chars (push_name c2 p2))
      else quoted_chars (push_name c p1))"
  by pat_completeness auto
termination
  by (relation "measure (\<lambda>p. length (cp_rest p))") (auto dest!: next_char_rest(2) [OF sym])

definition parse_quoted_subsection :: "int \<Rightarrow> config_parser \<Rightarrow> (unit + unit) \<times> config_parser" where
  "parse_quoted_subsection c p =
    (case quote_start c p of
       (Inl u, p1) \<Rightarrow> (Inl u, p1)
     | (Inr c1, p1) \<Rightarrow>
         if c1 \<noteq> 34 then (Inl (), p1)
         else (case quoted_chars (push_name 46 p1) of
             (Inl u, p2) \<Rightarrow> (Inl u, p2)
           | (Inr _, p2) \<Rightarrow>
               (case next_char p2 of (c3, p3) \<Rightarrow> if c3 \<noteq> 93 then (Inl (), p3) else (Inr (), p3))))"

function parse_section_header :: "config_parser \<Rightarrow> (unit + unit) \<times> config_parser" where
  "parse_section_header p =
    (case next_char p of (c, p1) \<Rightarrow>
      if cp_eof p1 then (Inl (), p1)
      else if c = 93 then (Inr (), p1)
      else if is_space c then parse_quoted_subsection c p1
      else if \<not> is_key_char c \<and> c \<noteq> 46 then (Inl (), p1)
      else parse_section_header (push_lower c p1))"
  by pat_completeness auto
termination
  by (relation "measure (\<lambda>p. length (cp_rest p))") (auto dest: next_char_rest(3) [OF sym])

declare key_chars.simps [simp del] skip_blanks.simps [simp del] value_chars.simps [simp del] quote_start.simps [simp del]
  quoted_chars.simps [simp del] parse_section_header.simps [simp del]

text \<open>Every part of the parser only moves forward.\<close>

lemma key_chars_rest: "key_chars p = (c, p') \<Longrightarrow> length (cp_rest p') \<le> length (cp_rest p)"
proof (induction p rule: key_chars.induct)
  case (1 p)
  obtain c1 p1 where n: "next_char p = (c1, p1)" by force
  show ?case
    using "1.IH" [OF n [symmetric]] "1.prems" n next_char_rest(1) [OF n] by (auto simp: key_chars.simps [of p] split: if_splits)
qed

lemma skip_blanks_rest: "skip_blanks c p = (c', p') \<Longrightarrow> length (cp_rest p') \<le> length (cp_rest p)"
proof (induction c p rule: skip_blanks.induct)
  case (1 c p)
  obtain c1 p1 where n: "next_char p = (c1, p1)" by force
  show ?case
    using "1.IH" [OF _ n [symmetric]] "1.prems" n next_char_rest(1) [OF n] by (auto simp: skip_blanks.simps [of c p] split: if_splits)
qed

lemma value_chars_rest: "value_chars q k t p = (r, p') \<Longrightarrow> length (cp_rest p') \<le> length (cp_rest p)"
proof (induction "length (cp_rest p)" arbitrary: q k t p rule: less_induct)
  case less
  obtain c p1 where n: "next_char p = (c, p1)" by force
  obtain c2 p2 where n2: "next_char p1 = (c2, p2)" by force
  have step: "length (cp_rest p') \<le> length (cp_rest p)"
    if "value_chars a b d x = (r, p')" and "length (cp_rest x) < length (cp_rest p)" for a b d x
    using less.hyps [OF that(2,1)] that(2) by simp
  show ?case
    using less.prems n n2 next_char_size [OF n [symmetric]] next_char_size [OF n2 [symmetric]]
    by (auto simp: value_chars.simps [of q k t p] line_back_def dest!: step split: if_splits)
qed

lemma quote_start_rest: "quote_start c p = (r, p') \<Longrightarrow> length (cp_rest p') \<le> length (cp_rest p)"
proof (induction c p rule: quote_start.induct)
  case (1 c p)
  obtain c1 p1 where n: "next_char p = (c1, p1)" by force
  show ?case
    using "1.IH" [OF _ n [symmetric]] "1.prems" n next_char_rest(1) [OF n]
    by (auto simp: quote_start.simps [of c p] line_back_def split: if_splits)
qed

lemma quoted_chars_rest: "quoted_chars p = (r, p') \<Longrightarrow> length (cp_rest p') \<le> length (cp_rest p)"
proof (induction p rule: quoted_chars.induct)
  case (1 p)
  obtain c p1 where n: "next_char p = (c, p1)" by force
  obtain c2 p2 where n2: "next_char p1 = (c2, p2)" by force
  show ?case
    using "1.IH"(1) [OF n [symmetric] _ _ _ n2 [symmetric]] "1.IH"(2) [OF n [symmetric]] "1.prems" n n2
      next_char_rest(1) [OF n] next_char_rest(1) [OF n2]
    by (auto simp: quoted_chars.simps [of p] line_back_def split: if_splits)
qed

lemma parse_quoted_subsection_rest:
  "parse_quoted_subsection c p = (r, p') \<Longrightarrow> length (cp_rest p') \<le> length (cp_rest p)"
  by (auto simp: parse_quoted_subsection_def split: prod.splits sum.splits if_splits
      dest!: quote_start_rest quoted_chars_rest next_char_rest(1))

lemma parse_section_header_rest: "parse_section_header p = (r, p') \<Longrightarrow> length (cp_rest p') \<le> length (cp_rest p)"
proof (induction p rule: parse_section_header.induct)
  case (1 p)
  obtain c1 p1 where n: "next_char p = (c1, p1)" by force
  show ?case
    using "1.IH" [OF n [symmetric]] "1.prems" n next_char_rest(1) [OF n]
    by (auto simp: parse_section_header.simps [of p] dest: parse_quoted_subsection_rest split: if_splits)
qed

lemma parse_entry_rest: "parse_entry p = (r, p') \<Longrightarrow> length (cp_rest p') \<le> length (cp_rest p)"
  by (auto simp: parse_entry_def parse_value_def visit_def line_back_def Let_def split: prod.splits sum.splits if_splits
      dest!: key_chars_rest skip_blanks_rest value_chars_rest)

text \<open>The loop of \<open>parse\<close>; an error carries the line.\<close>

function config_loop :: "bool \<Rightarrow> config_parser \<Rightarrow> (u32 + unit) \<times> config_parser" where
  "config_loop comment p =
    (case next_char p of (c, p1) \<Rightarrow>
      if c = 10 then (if cp_eof p1 then (Inr (), p1) else config_loop False p1)
      else if comment then config_loop comment p1
      else if is_space c then config_loop comment p1
      else if c = 35 \<or> c = 59 then config_loop True p1
      else if c = 91 then
        (case parse_section_header (p1\<lparr>cp_name := []\<rparr>) of (r, p2) \<Rightarrow>
          if isl r \<or> cp_name p2 = [] then (Inl (cp_line p2), p2)
          else config_loop comment (p2\<lparr>cp_name := cp_name p2 @ [46], cp_base_len := length (cp_name p2) + 1\<rparr>))
      else if \<not> is_alpha c then (Inl (cp_line p1), p1)
      else
        (case parse_entry (push_lower c (p1\<lparr>cp_name := take (cp_base_len p1) (cp_name p1)\<rparr>)) of (r, p2) \<Rightarrow>
          if isl r then (Inl (cp_line p2), p2) else config_loop comment p2))"
  by pat_completeness auto
termination
  by (relation "measure (\<lambda>(_, p). length (cp_rest p))")
    (fastforce dest: next_char_rest(3) [OF sym] next_char_size parse_section_header_rest [OF sym] parse_entry_rest [OF sym]
      split: if_splits)+

declare config_loop.simps [simp del]

definition git_config_parse :: "bytes \<Rightarrow> (u32 + unit) \<times> (bytes \<times> bytes option) list" where
  "git_config_parse input = (case config_loop False (parser_new input) of (r, p) \<Rightarrow> (r, cp_visited p))"

section \<open>Reading back a printed configuration\<close>

lemma sint_byte_eq: "-128 \<le> k \<Longrightarrow> k < 128 \<Longrightarrow> sint (b :: byte) = k \<longleftrightarrow> b = word_of_int k"
proof
  assume "-128 \<le> k" "k < 128" and "b = word_of_int k"
  then show "sint b = k"
    by (simp add: signed_of_int signed_take_bit_int_eq_self)
qed auto

lemma sint_lits [simp]:
  "sint (b :: byte) = 10 \<longleftrightarrow> b = 10" "sint (b :: byte) = 13 \<longleftrightarrow> b = 13" "sint (b :: byte) = -1 \<longleftrightarrow> b = -1"
  "sint (b :: byte) = 34 \<longleftrightarrow> b = 34" "sint (b :: byte) = 92 \<longleftrightarrow> b = 92" "sint (b :: byte) = 93 \<longleftrightarrow> b = 93"
  "sint (b :: byte) = 46 \<longleftrightarrow> b = 46" "sint (b :: byte) = 61 \<longleftrightarrow> b = 61"
  by (simp_all add: sint_byte_eq)

lemma to_byte_sint [simp]: "to_byte (sint b) = b"
  by (simp add: to_byte_def)

lemma same_rest: "cp_rest p = r \<Longrightarrow> p\<lparr>cp_rest := r\<rparr> = p"
  by (cases p) simp

lemma next_char_plain: "cp_rest p = b # r \<Longrightarrow> b \<notin> {10, 13, -1} \<Longrightarrow> next_char p = (sint b, p\<lparr>cp_rest := r\<rparr>)"
  by (simp add: next_char_def raw_char_def)

text \<open>A byte whose reading does not depend on what follows: no line feed, no end, and not a carriage return in front of one.\<close>

definition reads_alone :: "byte \<Rightarrow> bytes \<Rightarrow> bool" where
  "reads_alone b r \<longleftrightarrow> b \<noteq> 10 \<and> b \<noteq> -1 \<and> (b = 13 \<longrightarrow> (case r of [] \<Rightarrow> False | a # _ \<Rightarrow> a \<noteq> 10 \<and> a \<noteq> -1))"

lemma next_char_alone: "cp_rest p = b # r \<Longrightarrow> reads_alone b r \<Longrightarrow> next_char p = (sint b, p\<lparr>cp_rest := r\<rparr>)"
  by (cases "b = 13") (auto simp: next_char_def raw_char_def reads_alone_def split: list.splits)

lemma next_char_newline:
  "cp_rest p = 10 # r \<Longrightarrow> next_char p = (10, p\<lparr>cp_rest := r, cp_line := sat_add (cp_line p) 1\<rparr>)"
  by (simp add: next_char_def raw_char_def)

lemma next_char_end:
  "cp_rest p = [] \<Longrightarrow> next_char p = (10, p\<lparr>cp_eof := True, cp_line := sat_add (cp_line p) 1\<rparr>)"
  by (simp add: next_char_def raw_char_def)

text \<open>What can be written: keys and section names of key characters, subsections and values of any bytes but the
  zero byte, the byte that reads as the end of the input and, in subsections, the line feed.\<close>

definition key_byte :: "byte \<Rightarrow> bool" where "key_byte b \<longleftrightarrow> is_key_char (sint b)"

record config_section =
  cs_name :: bytes
  cs_subsection :: "bytes option"
  cs_entries :: "(bytes \<times> bytes option) list"

fun escape_value :: "byte \<Rightarrow> bytes" where
  "escape_value b = (if b = 10 then [92, 110] else if b = 34 \<or> b = 92 then [92, b] else [b])"

fun escape_name :: "byte \<Rightarrow> bytes" where
  "escape_name b = (if b = 34 \<or> b = 92 then [92, b] else [b])"

declare escape_value.simps [simp del] escape_name.simps [simp del]

definition print_setting :: "bytes \<times> bytes option \<Rightarrow> bytes" where
  "print_setting e = (case e of (k, v) \<Rightarrow> 9 # k @ (case v of
      None \<Rightarrow> [10]
    | Some t \<Rightarrow> [32, 61, 32, 34] @ concat (map escape_value t) @ [34, 10]))"

definition print_config_section :: "config_section \<Rightarrow> bytes" where
  "print_config_section s = 91 # cs_name s @ (case cs_subsection s of
      None \<Rightarrow> []
    | Some t \<Rightarrow> [32, 34] @ concat (map escape_name t) @ [34]) @ [93, 10] @ concat (map print_setting (cs_entries s))"

definition printable_setting :: "bytes \<times> bytes option \<Rightarrow> bool" where
  "printable_setting e \<longleftrightarrow> (case e of (k, v) \<Rightarrow>
     k \<noteq> [] \<and> is_alpha (sint (hd k)) \<and> list_all key_byte k \<and> (case v of None \<Rightarrow> True | Some t \<Rightarrow> 0 \<notin> set t \<and> -1 \<notin> set t))"

definition printable_section :: "config_section \<Rightarrow> bool" where
  "printable_section s \<longleftrightarrow> cs_name s \<noteq> [] \<and> list_all (\<lambda>b. key_byte b \<or> b = 46) (cs_name s)
     \<and> (case cs_subsection s of None \<Rightarrow> True | Some t \<Rightarrow> set t \<inter> {0, 10, -1} = {})
     \<and> list_all printable_setting (cs_entries s)"

definition section_prefix :: "config_section \<Rightarrow> bytes" where
  "section_prefix s = map ascii_lower (cs_name s) @ (case cs_subsection s of None \<Rightarrow> [] | Some t \<Rightarrow> 46 # t) @ [46]"

definition section_values :: "config_section \<Rightarrow> (bytes \<times> bytes option) list" where
  "section_values s = map (\<lambda>(k, v). (section_prefix s @ map ascii_lower k, v)) (cs_entries s)"

lemma key_byte_props:
  assumes "key_byte b"
  shows "reads_alone b r" and "b \<noteq> 0" and "b \<noteq> 34" and "b \<noteq> 93" and "\<not> is_space (sint b)"
proof -
  have "sint b \<noteq> 10 \<and> sint b \<noteq> -1 \<and> sint b \<noteq> 13 \<and> sint b \<noteq> 0 \<and> sint b \<noteq> 34 \<and> sint b \<noteq> 93 \<and> \<not> is_space (sint b)"
    using assms by (auto simp: key_byte_def is_key_char_def is_alpha_def is_space_def)
  then show "reads_alone b r" "b \<noteq> 0" "b \<noteq> 34" "b \<noteq> 93" "\<not> is_space (sint b)"
    by (auto simp: reads_alone_def)
qed

lemma key_chars_run:
  assumes "list_all key_byte k" and "cp_rest p = k @ r" and "\<not> cp_eof p"
    and "next_char (p\<lparr>cp_rest := r, cp_name := cp_name p @ map ascii_lower k\<rparr>) = (c, p')" and "cp_eof p' \<or> \<not> is_key_char c"
  shows "key_chars p = (c, p')"
  using assms
proof (induction k arbitrary: p)
  case Nil
  then show ?case by (simp add: key_chars.simps [of p] same_rest)
next
  case (Cons b k)
  have "next_char p = (sint b, p\<lparr>cp_rest := k @ r\<rparr>)"
    using Cons.prems key_byte_props(1) by (intro next_char_alone) auto
  moreover have "key_chars (push_lower (sint b) (p\<lparr>cp_rest := k @ r\<rparr>)) = (c, p')"
    using Cons.prems by (intro Cons.IH) (auto simp: push_lower_def)
  ultimately show ?case
    using Cons.prems by (simp add: key_chars.simps [of p] key_byte_def)
qed

lemma header_run:
  assumes "list_all (\<lambda>b. key_byte b \<or> b = 46) k" and "cp_rest p = k @ r" and "\<not> cp_eof p"
  shows "parse_section_header p = parse_section_header (p\<lparr>cp_rest := r, cp_name := cp_name p @ map ascii_lower k\<rparr>)"
  using assms
proof (induction k arbitrary: p)
  case (Cons b k)
  have alone: "reads_alone b (k @ r)" "b \<noteq> 93" "\<not> is_space (sint b)" "is_key_char (sint b) \<or> sint b = 46"
    using Cons.prems key_byte_props [of b] by (auto simp: reads_alone_def is_space_def key_byte_def sint_byte_eq)
  have "parse_section_header p = parse_section_header (push_lower (sint b) (p\<lparr>cp_rest := k @ r\<rparr>))"
    using Cons.prems alone next_char_alone [of p b "k @ r"] by (subst parse_section_header.simps) auto
  also have "\<dots> = parse_section_header (p\<lparr>cp_rest := r, cp_name := cp_name p @ map ascii_lower (b # k)\<rparr>)"
    using Cons.prems by (subst Cons.IH) (auto simp: push_lower_def)
  finally show ?case .
qed (simp add: same_rest)

lemma quoted_chars_run:
  assumes "set t \<inter> {0, 10, -1} = {}" and "cp_rest p = concat (map escape_name t) @ 34 # r"
  shows "quoted_chars p = (Inr (), p\<lparr>cp_rest := r, cp_name := cp_name p @ t\<rparr>)"
  using assms
proof (induction t arbitrary: p)
  case Nil
  then show ?case by (simp add: quoted_chars.simps [of p] next_char_plain)
next
  case (Cons b t)
  let ?r = "concat (map escape_name t) @ 34 # r"
  let ?p = "p\<lparr>cp_rest := ?r\<rparr>"
  have tail: "quoted_chars (push_name (sint b) ?p) = (Inr (), p\<lparr>cp_rest := r, cp_name := cp_name p @ b # t\<rparr>)"
    using Cons.prems by (subst Cons.IH) (auto simp: push_name_def)
  have "reads_alone b ?r"
    using Cons.prems by (cases t) (auto simp: reads_alone_def escape_name.simps)
  then show ?case
    using Cons.prems tail next_char_alone [of p b ?r] next_char_plain [of p 92 "b # ?r"]
      next_char_plain [of "p\<lparr>cp_rest := b # ?r\<rparr>" b ?r]
    by (auto simp: quoted_chars.simps [of p] escape_name.simps [of b] split: if_splits)
qed

lemma value_chars_run:
  assumes "-1 \<notin> set t" and "cp_rest p = concat (map escape_value t) @ 34 # r"
  shows "value_chars True False 0 p = value_chars False False 0 (p\<lparr>cp_rest := r, cp_value := cp_value p @ t\<rparr>)"
  using assms
proof (induction t arbitrary: p)
  case Nil
  then show ?case by (simp add: value_chars.simps [of True False 0 p] next_char_plain)
next
  case (Cons b t)
  let ?r = "concat (map escape_value t) @ 34 # r"
  have tail: "value_chars True False 0 (push_value (sint b) (p\<lparr>cp_rest := ?r\<rparr>))
      = value_chars False False 0 (p\<lparr>cp_rest := r, cp_value := cp_value p @ b # t\<rparr>)"
    using Cons.prems by (subst Cons.IH) (auto simp: push_value_def)
  have "b \<noteq> 10 \<Longrightarrow> reads_alone b ?r"
    using Cons.prems by (cases t) (auto simp: reads_alone_def escape_value.simps)
  then show ?case
    using Cons.prems tail next_char_alone [of p b ?r] next_char_plain [of p 92 "b # ?r"] next_char_plain [of p 92 "110 # ?r"]
      next_char_plain [of "p\<lparr>cp_rest := b # ?r\<rparr>" b ?r] next_char_plain [of "p\<lparr>cp_rest := 110 # ?r\<rparr>" 110 ?r]
    by (auto simp: value_chars.simps [of True False 0 p] escape_value.simps [of b] split: if_splits)
qed

lemma parse_value_run:
  assumes "-1 \<notin> set t" and "cp_rest p = [32, 34] @ concat (map escape_value t) @ [34, 10] @ r"
  shows "parse_value p = (Inr (), p\<lparr>cp_rest := r, cp_value := t, cp_line := sat_add (cp_line p) 1\<rparr>)"
proof -
  let ?q = "p\<lparr>cp_value := []\<rparr>"
  let ?e = "concat (map escape_value t) @ [34, 10] @ r"
  have "parse_value p = value_chars False False 0 (?q\<lparr>cp_rest := 34 # ?e\<rparr>)"
    using assms next_char_plain [of ?q 32 "34 # ?e"]
    by (simp add: parse_value_def value_chars.simps [of False False 0 ?q] is_space_def)
  also have "\<dots> = value_chars True False 0 (?q\<lparr>cp_rest := ?e\<rparr>)"
    using next_char_plain [of "?q\<lparr>cp_rest := 34 # ?e\<rparr>" 34 ?e]
    by (subst value_chars.simps) (simp add: is_space_def)
  also have "\<dots> = value_chars False False 0 (p\<lparr>cp_rest := 10 # r, cp_value := t\<rparr>)"
    using assms(1) by (subst value_chars_run [of t _ "10 # r"]) auto
  also have "\<dots> = (Inr (), p\<lparr>cp_rest := r, cp_value := t, cp_line := sat_add (cp_line p) 1\<rparr>)"
    using next_char_newline [of "p\<lparr>cp_rest := 10 # r, cp_value := t\<rparr>" r]
    by (simp add: value_chars.simps [of False False 0 "p\<lparr>cp_rest := 10 # r, cp_value := t\<rparr>"])
  finally show ?thesis .
qed

lemma c_string_len_whole [simp]: "0 \<notin> set bs \<Longrightarrow> c_string_len bs = length bs"
  by (auto simp: c_string_len_def position_None_iff split: option.split dest!: position_Some_iff [THEN iffD1] nth_mem)

lemma visit_fields [simp]:
  "cp_rest (visit h p) = cp_rest p" "cp_eof (visit h p) = cp_eof p" "cp_name (visit h p) = cp_name p"
  "cp_base_len (visit h p) = cp_base_len p"
  "cp_visited (visit h p) = cp_visited p @ [(take (c_string_len (cp_name p)) (cp_name p),
     if h then Some (take (c_string_len (cp_value p)) (cp_value p)) else None)]"
  by (simp_all add: visit_def line_back_def Let_def)

lemma parse_entry_run:
  assumes "list_all key_byte k" and "case v of None \<Rightarrow> True | Some t \<Rightarrow> 0 \<notin> set t \<and> -1 \<notin> set t"
    and "0 \<notin> set (cp_name p)" and "0 \<notin> set (map ascii_lower k)" and "\<not> cp_eof p"
    and "cp_rest p = k @ (case v of None \<Rightarrow> [10] | Some t \<Rightarrow> [32, 61, 32, 34] @ concat (map escape_value t) @ [34, 10]) @ r"
  shows "\<exists>p'. parse_entry p = (Inr (), p') \<and> cp_rest p' = r \<and> \<not> cp_eof p' \<and> cp_name p' = cp_name p @ map ascii_lower k
    \<and> cp_base_len p' = cp_base_len p \<and> cp_visited p' = cp_visited p @ [(cp_name p @ map ascii_lower k, v)]"
proof (cases v)
  case None
  let ?q = "p\<lparr>cp_rest := 10 # r, cp_name := cp_name p @ map ascii_lower k\<rparr>"
  have "key_chars p = (10, ?q\<lparr>cp_rest := r, cp_line := sat_add (cp_line p) 1\<rparr>)"
    using assms None next_char_newline [of ?q r] by (intro key_chars_run [of k _ "10 # r"]) (auto simp: is_key_char_def is_alpha_def)
  then show ?thesis
    using assms None by (simp add: parse_entry_def skip_blanks.simps)
next
  case (Some t)
  let ?w = "[32, 34] @ concat (map escape_value t) @ [34, 10] @ r"
  let ?q = "p\<lparr>cp_rest := 32 # 61 # ?w, cp_name := cp_name p @ map ascii_lower k\<rparr>"
  have "key_chars p = (32, ?q\<lparr>cp_rest := 61 # ?w\<rparr>)"
    using assms Some next_char_plain [of ?q 32 "61 # ?w"]
    by (intro key_chars_run [of k _ "32 # 61 # ?w"]) (auto simp: is_key_char_def is_alpha_def)
  moreover have "skip_blanks 32 (?q\<lparr>cp_rest := 61 # ?w\<rparr>) = (61, ?q\<lparr>cp_rest := ?w\<rparr>)"
    using next_char_plain [of "?q\<lparr>cp_rest := 61 # ?w\<rparr>" 61 ?w] by (simp add: skip_blanks.simps)
  moreover have "parse_value (?q\<lparr>cp_rest := ?w\<rparr>) = (Inr (), ?q\<lparr>cp_rest := r, cp_value := t, cp_line := sat_add (cp_line p) 1\<rparr>)"
    using assms Some by (subst parse_value_run [of t _ r]) auto
  ultimately show ?thesis
    using assms Some by (simp add: parse_entry_def)
qed

lemma header_sub_run:
  assumes "set t \<inter> {0, 10, -1} = {}" and "cp_rest p = [32, 34] @ concat (map escape_name t) @ [34, 93] @ r" and "\<not> cp_eof p"
  shows "parse_section_header p = (Inr (), p\<lparr>cp_rest := r, cp_name := cp_name p @ 46 # t\<rparr>)"
proof -
  let ?e = "concat (map escape_name t) @ [34, 93] @ r"
  have "parse_section_header p = parse_quoted_subsection 32 (p\<lparr>cp_rest := 34 # ?e\<rparr>)"
    using assms next_char_plain [of p 32 "34 # ?e"] by (subst parse_section_header.simps) (simp add: is_space_def)
  moreover have "quote_start 32 (p\<lparr>cp_rest := 34 # ?e\<rparr>) = (Inr 34, p\<lparr>cp_rest := ?e\<rparr>)"
    using next_char_plain [of "p\<lparr>cp_rest := 34 # ?e\<rparr>" 34 ?e] by (subst quote_start.simps) (simp add: is_space_def)
  moreover have "quoted_chars (push_name 46 (p\<lparr>cp_rest := ?e\<rparr>)) = (Inr (), p\<lparr>cp_rest := 93 # r, cp_name := cp_name p @ 46 # t\<rparr>)"
    using assms(1) by (subst quoted_chars_run [of t _ "93 # r"]) (auto simp: push_name_def to_byte_def)
  ultimately show ?thesis
    using next_char_plain [of "p\<lparr>cp_rest := 93 # r, cp_name := cp_name p @ 46 # t\<rparr>" 93 r]
    by (simp add: parse_quoted_subsection_def)
qed

lemma ascii_lower_zero [simp]: "ascii_lower b = 0 \<longleftrightarrow> b = 0"
proof -
  have "b + 32 \<noteq> 0" if "65 \<le> b" and "b \<le> 90"
    using that by (auto simp: eq_neg_iff_add_eq_0 [symmetric])
  then show ?thesis by (auto simp: ascii_lower_def)
qed

lemma section_header_run:
  assumes "printable_section s" and "\<not> cp_eof p" and "cp_name p = []"
    and "cp_rest p = cs_name s @ (case cs_subsection s of None \<Rightarrow> [] | Some t \<Rightarrow> [32, 34] @ concat (map escape_name t) @ [34]) @ 93 # r"
  shows "parse_section_header p = (Inr (), p\<lparr>cp_rest := r, cp_name := butlast (section_prefix s)\<rparr>)"
proof (cases "cs_subsection s")
  case None
  let ?q = "p\<lparr>cp_rest := 93 # r, cp_name := map ascii_lower (cs_name s)\<rparr>"
  have "parse_section_header p = parse_section_header ?q"
    using assms None header_run [of "cs_name s" p "93 # r"] by (auto simp: printable_section_def)
  also have "\<dots> = (Inr (), ?q\<lparr>cp_rest := r\<rparr>)"
    using assms(2) next_char_plain [of ?q 93 r] by (subst parse_section_header.simps) simp
  finally show ?thesis
    by (simp add: section_prefix_def None)
next
  case (Some t)
  let ?r = "[32, 34] @ concat (map escape_name t) @ [34, 93] @ r"
  have "parse_section_header p = parse_section_header (p\<lparr>cp_rest := ?r, cp_name := map ascii_lower (cs_name s)\<rparr>)"
    using assms Some header_run [of "cs_name s" p ?r] by (auto simp: printable_section_def)
  also have "\<dots> = (Inr (), p\<lparr>cp_rest := r, cp_name := map ascii_lower (cs_name s) @ 46 # t\<rparr>)"
    using assms Some by (subst header_sub_run [of t _ r]) (auto simp: printable_section_def)
  finally show ?thesis
    by (simp add: section_prefix_def Some butlast_append)
qed

text \<open>One printed entry, all entries of a section, a section, and a whole file.\<close>

definition in_section :: "bytes \<Rightarrow> bytes \<Rightarrow> (bytes \<times> bytes option) list \<Rightarrow> config_parser \<Rightarrow> bool" where
  "in_section key r seen p \<longleftrightarrow> cp_rest p = r \<and> \<not> cp_eof p \<and> cp_base_len p = length key \<and> take (length key) (cp_name p) = key
     \<and> cp_visited p = seen"

lemma entry_loop:
  assumes "printable_setting (k, v)" and "in_section key (print_setting (k, v) @ r) seen p" and "0 \<notin> set key"
  shows "\<exists>p'. config_loop False p = config_loop False p' \<and> in_section key r (seen @ [(key @ map ascii_lower k, v)]) p'"
proof -
  obtain b k' where k: "k = b # k'" and alpha: "is_alpha (sint b)" and keys: "list_all key_byte (b # k')"
    using assms(1) by (cases k) (auto simp: printable_setting_def)
  let ?e = "k' @ (case v of None \<Rightarrow> [10] | Some t \<Rightarrow> [32, 61, 32, 34] @ concat (map escape_value t) @ [34, 10]) @ r"
  let ?q = "p\<lparr>cp_rest := ?e, cp_name := key @ [ascii_lower b]\<rparr>"
  have b: "b \<notin> {10, 13, -1, 9, 32, 35, 59, 91}" "\<not> is_space (sint b)"
    using alpha by (auto simp: is_alpha_def is_space_def)
  have start: "config_loop False p = config_loop False (p\<lparr>cp_rest := b # ?e\<rparr>)"
    using assms(2) k next_char_plain [of p 9 "b # ?e"]
    by (subst config_loop.simps) (simp add: in_section_def print_setting_def is_space_def)
  have "list_all key_byte k'" "0 \<notin> set (cp_name ?q)" "0 \<notin> set (map ascii_lower k')"
    using keys assms(3) key_byte_props(2) by (auto simp: list_all_iff)
  then obtain p' where e: "parse_entry ?q = (Inr (), p')" and p': "cp_rest p' = r" "\<not> cp_eof p'"
    "cp_name p' = key @ map ascii_lower k" "cp_base_len p' = cp_base_len p" "cp_visited p' = seen @ [(key @ map ascii_lower k, v)]"
    using parse_entry_run [of k' v ?q r] assms k by (auto simp: printable_setting_def in_section_def)
  have "config_loop False (p\<lparr>cp_rest := b # ?e\<rparr>) = config_loop False p'"
    using assms(2) b alpha e next_char_plain [of "p\<lparr>cp_rest := b # ?e\<rparr>" b ?e]
    by (subst config_loop.simps) (auto simp: in_section_def push_lower_def sint_byte_eq)
  then show ?thesis
    using start p' assms(2) by (auto simp: in_section_def)
qed

lemma entries_loop:
  assumes "list_all printable_setting es" and "in_section key (concat (map print_setting es) @ r) seen p" and "0 \<notin> set key"
  shows "\<exists>p'. config_loop False p = config_loop False p'
    \<and> in_section key r (seen @ map (\<lambda>(k, v). (key @ map ascii_lower k, v)) es) p'"
  using assms
proof (induction es arbitrary: seen p)
  case (Cons e es)
  obtain k v where e: "e = (k, v)" by force
  obtain p1 where 1: "config_loop False p = config_loop False p1"
    "in_section key (concat (map print_setting es) @ r) (seen @ [(key @ map ascii_lower k, v)]) p1"
    using entry_loop [of k v key "concat (map print_setting es) @ r" seen p] Cons.prems e by auto
  then show ?case
    using Cons.IH [OF _ 1(2)] Cons.prems e by auto
qed auto

lemma section_loop:
  assumes "printable_section s" and "cp_rest p = print_config_section s @ r" and "\<not> cp_eof p"
  shows "\<exists>p'. config_loop False p = config_loop False p' \<and> cp_rest p' = r \<and> \<not> cp_eof p'
    \<and> cp_visited p' = cp_visited p @ section_values s"
proof -
  let ?e = "concat (map print_setting (cs_entries s)) @ r"
  let ?key = "section_prefix s"
  let ?h = "cs_name s @ (case cs_subsection s of None \<Rightarrow> [] | Some t \<Rightarrow> [32, 34] @ concat (map escape_name t) @ [34]) @ 93 # 10 # ?e"
  let ?p1 = "p\<lparr>cp_rest := 10 # ?e, cp_name := ?key, cp_base_len := length ?key\<rparr>"
  let ?p2 = "?p1\<lparr>cp_rest := ?e, cp_line := sat_add (cp_line p) 1\<rparr>"
  have key: "0 \<notin> set ?key" "butlast ?key @ [46] = ?key" "butlast ?key \<noteq> []" "Suc (length (butlast ?key)) = length ?key"
    using assms(1) key_byte_props(2)
    by (force simp: section_prefix_def printable_section_def list_all_iff butlast_append split: option.splits)+
  have header: "parse_section_header (p\<lparr>cp_rest := ?h, cp_name := []\<rparr>) = (Inr (), p\<lparr>cp_rest := 10 # ?e, cp_name := butlast ?key\<rparr>)"
    using assms by (subst section_header_run [of s _ "10 # ?e"]) auto
  have "config_loop False p = config_loop False ?p1"
    using assms header key next_char_plain [of p 91 ?h]
    by (subst config_loop.simps) (simp add: print_config_section_def is_space_def)
  also have "\<dots> = config_loop False ?p2"
    using assms(3) next_char_newline [of ?p1 ?e] by (subst config_loop.simps) simp
  finally have start: "config_loop False p = config_loop False ?p2" .
  have "in_section ?key ?e (cp_visited p) ?p2"
    using assms(3) by (simp add: in_section_def)
  from entries_loop [OF _ this key(1)] show ?thesis
    using start assms(1) by (auto simp: printable_section_def section_values_def in_section_def)
qed

lemma config_loop_end: "cp_rest p = [] \<Longrightarrow> config_loop False p = (Inr (), p\<lparr>cp_eof := True, cp_line := sat_add (cp_line p) 1\<rparr>)"
  using next_char_end [of p] by (subst config_loop.simps) simp

lemma sections_loop:
  assumes "list_all printable_section ss" and "cp_rest p = concat (map print_config_section ss)" and "\<not> cp_eof p"
  shows "\<exists>p'. config_loop False p = (Inr (), p') \<and> cp_visited p' = cp_visited p @ concat (map section_values ss)"
  using assms
proof (induction ss arbitrary: p)
  case Nil
  then show ?case using config_loop_end [of p] by simp
next
  case (Cons s ss)
  obtain p1 where p1: "config_loop False p = config_loop False p1" "cp_rest p1 = concat (map print_config_section ss)" "\<not> cp_eof p1"
    "cp_visited p1 = cp_visited p @ section_values s"
    using section_loop [of s p "concat (map print_config_section ss)"] Cons.prems by auto
  then show ?case
    using Cons.IH [OF _ p1(2,3)] Cons.prems by auto
qed

text \<open>
  C32. The parser reads back what was printed: for a configuration whose subsections and values are
  any bytes except the zero byte, the byte that reads as the end of the input and (in subsections) line feeds,
  parsing its printed form succeeds and visits, in order, every key with its exact value;
  section and key names are lowered, subsections keep their case.
\<close>

theorem config_reads_printed:
  assumes "list_all printable_section ss"
  shows "git_config_parse (concat (map print_config_section ss)) = (Inr (), concat (map section_values ss))"
  using sections_loop [of ss "parser_new (concat (map print_config_section ss))"] assms
  by (auto simp: git_config_parse_def parser_new_def)

definition demo_config :: "config_section list" where
  "demo_config = [\<lparr>cs_name = ascii ''SubModule'', cs_subsection = Some (ascii ''A b''),
     cs_entries = [(ascii ''Path'', Some (ascii ''d;e'' @ [10, 34])), (ascii ''url'', None)]\<rparr>]"

theorem config_reads_printed_witness:
  "list_all printable_section demo_config
    \<and> git_config_parse (concat (map print_config_section demo_config))
      = (Inr (), [(ascii ''submodule.A b.path'', Some (ascii ''d;e'' @ [10, 34])), (ascii ''submodule.A b.url'', None)])"
proof -
  have ok: "list_all printable_section demo_config"
    by code_simp
  have "concat (map section_values demo_config)
      = [(ascii ''submodule.A b.path'', Some (ascii ''d;e'' @ [10, 34])), (ascii ''submodule.A b.url'', None)]"
    by code_simp
  with config_reads_printed [OF ok] ok show ?thesis
    by simp
qed

end
