(* ===== verification/Submodules.thy ===== *)
theory Submodules
  imports TreeExamples GitConfig OrderedMap
begin

text \<open>
  Submodules of a snapshot (\<open>submodules.rs\<close>): the declarations of the root \<open>.gitmodules\<close> blob, the gitlinks of the whole tree,
  and their correlation by path.
\<close>

section \<open>Data\<close>

definition GITMODULES_PATH :: bytes where "GITMODULES_PATH = ascii ''.gitmodules''"
definition MAX_GITMODULES_BYTES :: nat where "MAX_GITMODULES_BYTES = 1024 * 1024"

datatype submodule_status = SmActive | SmUndeclared | SmOrphaned

record submodule =
  sm_name :: "bytes option"
  sm_path :: bytes
  sm_url :: "bytes option"
  sm_branch :: "bytes option"
  sm_commit_oid :: "oid option"
  sm_status :: submodule_status

record module_declaration =
  dc_name :: bytes
  dc_path :: bytes
  dc_url :: "bytes option"
  dc_branch :: "bytes option"

record pending_declaration =
  pd_path :: "bytes option"
  pd_url :: "bytes option"
  pd_branch :: "bytes option"

definition default_pending :: pending_declaration where
  "default_pending = \<lparr>pd_path = None, pd_url = None, pd_branch = None\<rparr>"

section \<open>Errors\<close>

definition name_gitmodules_error :: "error \<Rightarrow> error" where
  "name_gitmodules_error e =
    (if err_code e = MalformedObject \<or> err_code e = ObjectTooLarge then with_file Gitmodules e else e)"

definition malformed_gitmodules :: "string \<Rightarrow> error" where
  "malformed_gitmodules message = with_file Gitmodules (err_new MalformedObject message)"

definition missing_gitmodules :: "oid \<Rightarrow> error" where
  "missing_gitmodules x =
    with_oid x (err_retry MissingObject (''.gitmodules blob '' @ to_hex x @ '' is missing from the object store''))"

definition gitmodules_too_large :: error where
  "gitmodules_too_large = with_file Gitmodules (with_limit ''max_gitmodules_bytes''
    (err_new ObjectTooLarge ''snapshot .gitmodules exceeds the dedicated 1 MiB config limit''))"

section \<open>Declarations\<close>

datatype submodule_field = PathField | UrlField | BranchField

fun field_name :: "submodule_field \<Rightarrow> bytes" where
  "field_name PathField = ascii ''path''"
| "field_name UrlField = ascii ''url''"
| "field_name BranchField = ascii ''branch''"

definition field_suffix :: "bytes \<Rightarrow> submodule_field \<Rightarrow> bool" where
  "field_suffix rest f \<longleftrightarrow>
    (let field = field_name f; suffix_len = length field + 1 in
     suffix_len \<le> length rest \<and> rest ! (length rest - suffix_len) = 46 \<and> drop (length rest - length field) rest = field)"

definition submodule_key :: "bytes \<Rightarrow> (bytes \<times> submodule_field) option" where
  "submodule_key key =
    (case strip_prefix (ascii ''submodule.'') key of
       None \<Rightarrow> None
     | Some rest \<Rightarrow>
         map_option (\<lambda>f. (take (length rest - (length (field_name f) + 1)) rest, f))
           (find (field_suffix rest) [PathField, UrlField, BranchField]))"

fun set_field :: "submodule_field \<Rightarrow> bytes option \<Rightarrow> pending_declaration \<Rightarrow> pending_declaration" where
  "set_field PathField v d = d\<lparr>pd_path := v\<rparr>"
| "set_field UrlField v d = d\<lparr>pd_url := v\<rparr>"
| "set_field BranchField v d = d\<lparr>pd_branch := v\<rparr>"

text \<open>The visitor of \<open>parse_declarations\<close>.\<close>

definition entry_or_default :: "bytes \<Rightarrow> (bytes \<times> pending_declaration) list \<Rightarrow> pending_declaration" where
  "entry_or_default name ds = (case map_of ds name of Some d \<Rightarrow> d | None \<Rightarrow> default_pending)"

definition declare_value :: "bytes \<times> bytes option \<Rightarrow> (bytes \<times> pending_declaration) list \<Rightarrow> (bytes \<times> pending_declaration) list" where
  "declare_value kv ds =
    (case submodule_key (fst kv) of
       None \<Rightarrow> ds
     | Some (name, field) \<Rightarrow>
         bt_insert name (set_field field (snd kv) (entry_or_default name ds)) ds)"

definition declaration_of :: "bytes \<times> pending_declaration \<Rightarrow> module_declaration option" where
  "declaration_of e =
    (case e of (name, d) \<Rightarrow>
      map_option (\<lambda>path. \<lparr>dc_name = name, dc_path = path, dc_url = pd_url d, dc_branch = pd_branch d\<rparr>) (pd_path d))"

definition parse_declarations :: "bytes \<Rightarrow> error + module_declaration list" where
  "parse_declarations payload =
    (case git_config_parse payload of
       (Inl line, _) \<Rightarrow> Inl (with_line line (with_reason ''git_config_parse_error''
         (malformed_gitmodules ''snapshot .gitmodules is malformed'')))
     | (Inr _, visited) \<Rightarrow> Inr (List.map_filter declaration_of (fold declare_value visited [])))"

definition read_declarations :: "'w odb \<Rightarrow> owned_entry list \<Rightarrow> ('w, module_declaration list) op" where
  "read_declarations db root_entries =
    (case find (\<lambda>e. oe_name e = GITMODULES_PATH) root_entries of
       None \<Rightarrow> sreturn []
     | Some e \<Rightarrow>
         if oe_kind e \<noteq> KBlob then sreturn []
         else
           sbind (smap_err name_gitmodules_error (db_try_header db (oe_oid e))) (\<lambda>h.
           case h of
             None \<Rightarrow> sraise (missing_gitmodules (oe_oid e))
           | Some header \<Rightarrow>
               if hdr_kind header \<noteq> Blob then sreturn []
               else if of_nat MAX_GITMODULES_BYTES < hdr_size header then sraise gitmodules_too_large
               else
                 sbind (smap_err name_gitmodules_error (db_try_find db (oe_oid e))) (\<lambda>found.
                 case found of
                   None \<Rightarrow> sraise (missing_gitmodules (oe_oid e))
                 | Some (kind, payload) \<Rightarrow>
                     if kind \<noteq> Blob then sreturn []
                     else if MAX_GITMODULES_BYTES < length payload then sraise gitmodules_too_large
                     else slift (parse_declarations payload))))"

section \<open>Gitlinks\<close>

record link_frame =
  lf_entries :: "owned_entry list"
  lf_prefix :: bytes

text \<open>The loop of \<open>collect_gitlinks\<close>; the top of the stack is the head of the list.\<close>

fun gitlink_loop :: "gix \<Rightarrow> 'w odb \<Rightarrow> nat \<Rightarrow> link_frame list \<Rightarrow> (bytes \<times> oid) list \<Rightarrow> ('w, (bytes \<times> oid) list option) op" where
  "gitlink_loop G db fuel [] links = sreturn (Some links)"
| "gitlink_loop G db 0 (f # fs) links = sreturn None"
| "gitlink_loop G db (Suc fuel) (f # fs) links =
    sbind (on_budget check) (\<lambda>_.
    case lf_entries f of
      [] \<Rightarrow> gitlink_loop G db fuel fs links
    | e # rest \<Rightarrow>
        let path = join_path (lf_prefix f) (oe_name e); f' = f\<lparr>lf_entries := rest\<rparr> in
        (case oe_kind e of
           KTree \<Rightarrow>
             sbind (read_tree_entries_for_walk G db (oe_oid e) True) (\<lambda>es.
             gitlink_loop G db fuel (\<lparr>lf_entries = es, lf_prefix = path\<rparr> # f' # fs) links)
         | KGitlink \<Rightarrow>
             sbind (on_budget charge_tree_entry) (\<lambda>_.
             gitlink_loop G db fuel (f' # fs) (bt_insert path (oe_oid e) links))
         | _ \<Rightarrow> gitlink_loop G db fuel (f' # fs) links))"

definition collect_gitlinks :: "gix \<Rightarrow> 'w odb \<Rightarrow> nat \<Rightarrow> owned_entry list \<Rightarrow> ('w, (bytes \<times> oid) list option) op" where
  "collect_gitlinks G db fuel root_entries = gitlink_loop G db fuel [\<lparr>lf_entries = root_entries, lf_prefix = []\<rparr>] []"

section \<open>Correlation\<close>

text \<open>One turn of the loop over the declarations: the row, and the gitlinks left.\<close>

definition claim :: "module_declaration \<Rightarrow> submodule list \<times> (bytes \<times> oid) list \<Rightarrow> submodule list \<times> (bytes \<times> oid) list" where
  "claim d acc =
    (case acc of (rows, links) \<Rightarrow>
      let commit = map_of links (dc_path d) in
      (rows @ [\<lparr>sm_name = Some (dc_name d), sm_path = dc_path d, sm_url = dc_url d, sm_branch = dc_branch d,
         sm_commit_oid = commit, sm_status = (if commit \<noteq> None then SmActive else SmOrphaned)\<rparr>],
       bt_remove (dc_path d) links))"

definition undeclared :: "bytes \<times> oid \<Rightarrow> submodule" where
  "undeclared e = \<lparr>sm_name = None, sm_path = fst e, sm_url = None, sm_branch = None, sm_commit_oid = Some (snd e),
     sm_status = SmUndeclared\<rparr>"

definition correlate :: "module_declaration list \<Rightarrow> (bytes \<times> oid) list \<Rightarrow> submodule list" where
  "correlate ds links = (case fold claim ds ([], links) of (rows, left) \<Rightarrow> sort_key sm_path (rows @ map undeclared left))"

definition submodules :: "gix \<Rightarrow> nat \<Rightarrow> 'w odb \<Rightarrow> snapshot \<Rightarrow> ('w, submodule list option) op" where
  "submodules G fuel db snap =
    sbind (slift (ensure_query_compatible db snap)) (\<lambda>_.
    sbind (read_tree_entries_for_walk G db (tree_oid snap) True) (\<lambda>root_entries.
    sbind (read_declarations db root_entries) (\<lambda>ds.
    sbind (collect_gitlinks G db fuel root_entries) (\<lambda>links.
    sreturn (map_option (correlate ds) links)))))"

section \<open>What is declared\<close>

text \<open>The values that the visited pairs give to a field of a name, in order; the last one counts.\<close>

definition field_values :: "(bytes \<times> bytes option) list \<Rightarrow> bytes \<Rightarrow> submodule_field \<Rightarrow> bytes option list" where
  "field_values vs name f = map snd (filter (\<lambda>kv. submodule_key (fst kv) = Some (name, f)) vs)"

definition assigned :: "(bytes \<times> bytes option) list \<Rightarrow> bytes \<Rightarrow> submodule_field \<Rightarrow> bytes option" where
  "assigned vs name f = (if field_values vs name f = [] then None else last (field_values vs name f))"

definition module_declared :: "(bytes \<times> bytes option) list \<Rightarrow> module_declaration \<Rightarrow> bool" where
  "module_declared vs d \<longleftrightarrow> assigned vs (dc_name d) PathField = Some (dc_path d)
     \<and> assigned vs (dc_name d) UrlField = dc_url d \<and> assigned vs (dc_name d) BranchField = dc_branch d"

lemma assigned_snoc:
  "assigned (vs @ [kv]) name f = (if submodule_key (fst kv) = Some (name, f) then snd kv else assigned vs name f)"
  by (simp add: assigned_def field_values_def)

lemma declare_value_ok: "bt_ok ds \<Longrightarrow> bt_ok (declare_value kv ds)"
  by (auto simp: declare_value_def intro: bt_insert_ok split: option.splits)

lemma declare_values_ok: "bt_ok ds \<Longrightarrow> bt_ok (fold declare_value vs ds)"
  by (induction vs arbitrary: ds) (auto simp: declare_value_ok)

lemma declare_value_entry:
  assumes "bt_ok ds"
  shows "entry_or_default name (declare_value kv ds) = (case submodule_key (fst kv) of
      None \<Rightarrow> entry_or_default name ds
    | Some (n, f) \<Rightarrow> if n = name then set_field f (snd kv) (entry_or_default name ds) else entry_or_default name ds)"
  using bt_insert_lookup [OF assms]
  by (auto simp: declare_value_def entry_or_default_def [where name = name] split: option.split)

lemma declare_values_entry:
  "entry_or_default name (fold declare_value vs [])
    = \<lparr>pd_path = assigned vs name PathField, pd_url = assigned vs name UrlField, pd_branch = assigned vs name BranchField\<rparr>"
proof (induction vs rule: rev_induct)
  case Nil
  then show ?case by (simp add: entry_or_default_def default_pending_def assigned_def field_values_def)
next
  case (snoc kv vs)
  have "bt_ok (fold declare_value vs [])"
    by (simp add: declare_values_ok)
  moreover have "b = PathField \<or> b = UrlField \<or> b = BranchField" for b
    by (cases b) auto
  ultimately show ?case
    using snoc by (force simp: declare_value_entry assigned_snoc split: option.split)
qed

lemma declaration_of_name: "declaration_of e = Some d \<Longrightarrow> dc_name d = fst e"
  by (auto simp: declaration_of_def split: prod.splits)

lemma declarations_sorted:
  "sorted_wrt (\<lambda>e e'. fst e < fst e') m \<Longrightarrow> sorted_wrt (<) (map dc_name (List.map_filter declaration_of m))"
  by (induction m)
    (auto simp: map_filter_simps sorted_wrt_map map_filter_def declaration_of_name split: option.split)

lemma parse_declarations_Inr:
  assumes "parse_declarations payload = Inr ds"
  obtains vs where "git_config_parse payload = (Inr (), vs)" and "sorted_wrt (<) (map dc_name ds)"
    and "\<And>d. d \<in> set ds \<longleftrightarrow> module_declared vs d"
proof -
  obtain vs where parse: "git_config_parse payload = (Inr (), vs)" and ds: "ds = List.map_filter declaration_of (fold declare_value vs [])"
    using assms by (auto simp: parse_declarations_def split: prod.splits sum.splits)
  let ?m = "fold declare_value vs []"
  have ok: "bt_ok ?m" by (simp add: declare_values_ok)
  then have sorted: "sorted_wrt (<) (map dc_name ds)"
    using declarations_sorted [of ?m] by (simp add: ds bt_ok_def sorted_wrt_map)
  have mem: "d \<in> set ds \<longleftrightarrow> module_declared vs d" for d
  proof -
    have "d \<in> set ds \<longleftrightarrow> (\<exists>e \<in> set ?m. declaration_of e = Some d)"
      by (force simp: ds List.map_filter_def image_iff)
    also have "\<dots> \<longleftrightarrow> (\<exists>p. (dc_name d, p) \<in> set ?m \<and> declaration_of (dc_name d, p) = Some d)"
      using declaration_of_name by (metis prod.collapse)
    also have "\<dots> \<longleftrightarrow> (\<exists>p. map_of ?m (dc_name d) = Some p \<and> declaration_of (dc_name d, p) = Some d)"
      using btree.entries_law(2) [OF ok] by simp
    also have "\<dots> \<longleftrightarrow> declaration_of (dc_name d, entry_or_default (dc_name d) ?m) = Some d"
      by (auto simp: entry_or_default_def declaration_of_def default_pending_def split: option.split)
    also have "\<dots> \<longleftrightarrow> module_declared vs d"
      by (cases d) (auto simp: declare_values_entry declaration_of_def module_declared_def)
    finally show ?thesis .
  qed
  show thesis using that parse sorted mem by blast
qed

section \<open>What is correlated\<close>

definition module_row :: "module_declaration \<Rightarrow> oid option \<Rightarrow> submodule" where
  "module_row d commit = \<lparr>sm_name = Some (dc_name d), sm_path = dc_path d, sm_url = dc_url d, sm_branch = dc_branch d,
     sm_commit_oid = commit, sm_status = (if commit \<noteq> None then SmActive else SmOrphaned)\<rparr>"

fun claimed :: "module_declaration list \<Rightarrow> (bytes \<times> oid) list \<Rightarrow> submodule list" where
  "claimed [] links = []"
| "claimed (d # ds) links = module_row d (map_of links (dc_path d)) # claimed ds (bt_remove (dc_path d) links)"

lemma fold_claim:
  "fold claim ds (rows, links) = (rows @ claimed ds links, filter (\<lambda>e. fst e \<notin> dc_path ` set ds) links)"
  by (induction ds arbitrary: rows links)
    (auto simp: claim_def module_row_def bt_remove_def Let_def intro!: filter_cong)

definition row_declaration :: "submodule \<Rightarrow> module_declaration" where
  "row_declaration r = \<lparr>dc_name = the (sm_name r), dc_path = sm_path r, dc_url = sm_url r, dc_branch = sm_branch r\<rparr>"

lemma claimed_declarations: "map row_declaration (claimed ds links) = ds"
  by (induction ds arbitrary: links) (auto simp: row_declaration_def module_row_def)

lemma claimed_row: "r \<in> set (claimed ds links) \<Longrightarrow>
    sm_name r \<noteq> None \<and> sm_status r = (if sm_commit_oid r \<noteq> None then SmActive else SmOrphaned) \<and> sm_path r \<in> dc_path ` set ds"
  by (induction ds arbitrary: links) (auto simp: module_row_def)

lemma claimed_commits:
  assumes "bt_ok links"
  shows "(\<exists>r \<in> set (claimed ds links). sm_path r = p \<and> sm_commit_oid r = Some x) \<longleftrightarrow> p \<in> dc_path ` set ds \<and> map_of links p = Some x"
  using assms
proof (induction ds arbitrary: links)
  case (Cons d ds)
  then show ?case
    using btree.remove_law [OF Cons.prems, of "dc_path d"] by (auto simp: module_row_def)
qed simp

lemma claimed_once:
  assumes "bt_ok links"
  shows "distinct (map sm_path (filter (\<lambda>r. sm_commit_oid r \<noteq> None) (claimed ds links)))"
  using assms
proof (induction ds arbitrary: links)
  case (Cons d ds)
  note rest = btree.remove_law [OF Cons.prems, of "dc_path d"]
  have "sm_path r \<noteq> dc_path d" if "r \<in> set (claimed ds (bt_remove (dc_path d) links))" "sm_commit_oid r \<noteq> None" for r
    using that claimed_commits [OF rest(1), of ds "sm_path r"] rest(2) by auto
  then show ?case
    using Cons.IH [OF rest(1)] by (force simp: module_row_def)
qed simp

lemma claimed_first:
  assumes "bt_ok links" and "sorted_wrt (<) (map dc_name ds)"
    and "r \<in> set (claimed ds links)" and "r' \<in> set (claimed ds links)" and "sm_path r = sm_path r'" and "sm_commit_oid r \<noteq> None"
  shows "the (sm_name r) \<le> the (sm_name r')"
  using assms
proof (induction ds arbitrary: links)
  case (Cons d ds)
  note rest = btree.remove_law [OF Cons.prems(1), of "dc_path d"]
  let ?tail = "claimed ds (bt_remove (dc_path d) links)"
  have later: "dc_name d < the (sm_name q)" if "q \<in> set ?tail" for q
  proof -
    have "row_declaration q \<in> set ds"
      using that claimed_declarations [of ds "bt_remove (dc_path d) links"] by (metis image_eqI set_map)
    then show ?thesis
      using Cons.prems(2) by (force simp: row_declaration_def)
  qed
  have gone: "sm_commit_oid q = None" if "q \<in> set ?tail" "sm_path q = dc_path d" for q
    using that claimed_commits [OF rest(1), of ds "dc_path d"] rest(2) by (cases "sm_commit_oid q") auto
  show ?case
    using Cons.prems(3-6) later gone Cons.IH [OF rest(1)] Cons.prems(2)
    by (auto simp: module_row_def less_imp_le)
qed simp

definition correlated :: "module_declaration list \<Rightarrow> (bytes \<Rightarrow> oid option) \<Rightarrow> submodule list \<Rightarrow> bool" where
  "correlated ds link rows \<longleftrightarrow>
    sorted (map sm_path rows)
    \<and> mset (map row_declaration (filter (\<lambda>r. sm_name r \<noteq> None) rows)) = mset ds
    \<and> (\<forall>p x. link p = Some x \<longleftrightarrow> (\<exists>r \<in> set rows. sm_path r = p \<and> sm_commit_oid r = Some x))
    \<and> distinct (map sm_path (filter (\<lambda>r. sm_commit_oid r \<noteq> None) rows))
    \<and> (\<forall>r \<in> set rows. sm_status r = (if sm_name r = None then SmUndeclared else if sm_commit_oid r = None then SmOrphaned else SmActive)
         \<and> (sm_name r = None \<longrightarrow> sm_commit_oid r \<noteq> None \<and> sm_url r = None \<and> sm_branch r = None))
    \<and> (\<forall>r \<in> set rows. \<forall>r' \<in> set rows. sm_path r = sm_path r' \<longrightarrow> sm_status r = SmActive \<longrightarrow> sm_status r' = SmOrphaned \<longrightarrow>
         the (sm_name r) \<le> the (sm_name r'))"

lemma correlate_correlated:
  assumes ok: "bt_ok links" and names: "sorted_wrt (<) (map dc_name ds)"
  shows "correlated ds (map_of links) (correlate ds links)"
proof -
  let ?left = "filter (\<lambda>e. fst e \<notin> dc_path ` set ds) links"
  let ?rows = "claimed ds links @ map undeclared ?left"
  have rows: "correlate ds links = sort_key sm_path ?rows"
    by (simp add: correlate_def fold_claim)
  have named: "filter (\<lambda>r. sm_name r \<noteq> None) ?rows = claimed ds links"
    using claimed_row [of _ ds links] by (auto simp: undeclared_def filter_empty_conv intro!: filter_True)
  have left: "map_of ?left p = (if p \<in> dc_path ` set ds then None else map_of links p)" for p
    by (induction links) auto
  have "bt_ok ?left"
    using ok by (auto simp: bt_ok_def sorted_wrt_map sorted_wrt_filter)
  then have left_in: "(p, x) \<in> set ?left \<longleftrightarrow> p \<notin> dc_path ` set ds \<and> map_of links p = Some x" for p x
    using btree.entries_law(2) [of ?left p x] left by auto
  have decls: "mset (map row_declaration (filter (\<lambda>r. sm_name r \<noteq> None) (sort_key sm_path ?rows))) = mset ds"
    unfolding filter_sort named using claimed_declarations [of ds links] by (metis mset_map mset_sort)
  have commits: "map_of links p = Some x \<longleftrightarrow> (\<exists>r \<in> set ?rows. sm_path r = p \<and> sm_commit_oid r = Some x)" for p x
  proof -
    have "(\<exists>r \<in> set (map undeclared ?left). sm_path r = p \<and> sm_commit_oid r = Some x) \<longleftrightarrow> (p, x) \<in> set ?left"
      by (force simp: undeclared_def)
    then show ?thesis
      unfolding set_append bex_Un claimed_commits [OF ok] left_in by blast
  qed
  have "distinct (map sm_path (filter (\<lambda>r. sm_commit_oid r \<noteq> None) ?rows))"
    using claimed_once [OF ok, of ds] claimed_row [of _ ds links] btree.distinct_entries [OF \<open>bt_ok ?left\<close>]
    by (auto simp: undeclared_def comp_def)
  then have once: "distinct (map sm_path (filter (\<lambda>r. sm_commit_oid r \<noteq> None) (sort_key sm_path ?rows)))"
    unfolding filter_sort by (metis (no_types, lifting) distinct_map distinct_sort set_sort)
  have first: "the (sm_name r) \<le> the (sm_name r')" if "r \<in> set ?rows" "r' \<in> set ?rows" "sm_path r = sm_path r'"
      "sm_status r = SmActive" "sm_status r' = SmOrphaned" for r r'
  proof -
    have "r \<in> set (claimed ds links)" "r' \<in> set (claimed ds links)"
      using that by (auto simp: undeclared_def)
    then show ?thesis
      using claimed_first [OF ok names] claimed_row that by (metis submodule_status.distinct(3,5))
  qed
  have status: "\<forall>r \<in> set ?rows. sm_status r = (if sm_name r = None then SmUndeclared else if sm_commit_oid r = None then SmOrphaned else SmActive)
      \<and> (sm_name r = None \<longrightarrow> sm_commit_oid r \<noteq> None \<and> sm_url r = None \<and> sm_branch r = None)"
    by (auto simp: undeclared_def dest!: claimed_row)
  show ?thesis
    unfolding correlated_def rows set_sort
  proof (intro conjI decls once status)
    show "sorted (map sm_path (sort_key sm_path ?rows))" by (rule sorted_sort_key)
    show "\<forall>p x. map_of links p = Some x \<longleftrightarrow> (\<exists>r \<in> set ?rows. sm_path r = p \<and> sm_commit_oid r = Some x)"
      by (intro allI commits)
    show "\<forall>r \<in> set ?rows. \<forall>r' \<in> set ?rows. sm_path r = sm_path r' \<longrightarrow> sm_status r = SmActive \<longrightarrow> sm_status r' = SmOrphaned \<longrightarrow>
        the (sm_name r) \<le> the (sm_name r')"
      by (intro ballI impI first)
  qed
qed

section \<open>The walk over the gitlinks\<close>

abbreviation into_trees :: "bytes \<Rightarrow> u32 \<Rightarrow> owned_entry \<Rightarrow> bool" where
  "into_trees \<equiv> \<lambda>_ _ e. oe_kind e = KTree"

definition as_frame :: "link_frame \<Rightarrow> frame" where
  "as_frame f = \<lparr>fr_entries = lf_entries f, fr_prefix = lf_prefix f, fr_depth = 0\<rparr>"

definition gitlinks :: "(bytes \<times> owned_entry) list \<Rightarrow> (bytes \<times> oid) list" where
  "gitlinks xs = map (\<lambda>(p, e). (p, oe_oid e)) (filter (\<lambda>(_, e). oe_kind e = KGitlink) xs)"

definition gitlink_at :: "(bytes \<times> owned_entry) list \<Rightarrow> bytes \<Rightarrow> oid option" where
  "gitlink_at xs = map_of (rev (gitlinks xs))"

lemma walk_list_depth: "walk_list ents into_trees pre d es xs \<Longrightarrow> walk_list ents into_trees pre d' es xs"
  by (induction arbitrary: d' rule: walk_list.induct) (auto intro: walk_list.intros)

lemma stack_list_depth:
  assumes "stack_list ents into_trees (f # fs) xs"
  shows "stack_list ents into_trees (f\<lparr>fr_depth := d\<rparr> # fs) xs"
  using assms by (auto elim!: stack_list_ConsE intro!: stack_push intro: walk_list_depth)

lemma link_step:
  assumes "stack_list ents into_trees (map as_frame (f # fs)) xs" and "lf_entries f = e # rest"
  obtains (leaf) ys where "oe_kind e \<noteq> KTree" "xs = (join_path (lf_prefix f) (oe_name e), e) # ys"
    "stack_list ents into_trees (map as_frame (f\<lparr>lf_entries := rest\<rparr> # fs)) ys"
  | (down) sub ys where "oe_kind e = KTree" "ents (oe_oid e) = Some sub" "xs = (join_path (lf_prefix f) (oe_name e), e) # ys"
    "stack_list ents into_trees (map as_frame (\<lparr>lf_entries = sub, lf_prefix = join_path (lf_prefix f) (oe_name e)\<rparr>
       # f\<lparr>lf_entries := rest\<rparr> # fs)) ys"
proof -
  have frame: "as_frame (f\<lparr>lf_entries := rest\<rparr>) = (as_frame f)\<lparr>fr_entries := rest\<rparr>"
    by (simp add: as_frame_def)
  from assms have *: "stack_list ents into_trees (as_frame f # map as_frame fs) xs" "fr_entries (as_frame f) = e # rest"
    by (simp_all add: as_frame_def)
  then show thesis
  proof (cases rule: stack_step)
    case (leaf ys)
    then show thesis using that(1) [of ys] by (simp add: frame) (simp add: as_frame_def)
  next
    case (down sub ys)
    from stack_list_depth [OF down(4), of 0] down(1-3) show thesis
      using that(2) [of sub ys] by (simp add: frame) (simp add: as_frame_def)
  qed
qed

lemma link_pop:
  assumes "stack_list ents into_trees (map as_frame (f # fs)) xs" and "lf_entries f = []"
  shows "stack_list ents into_trees (map as_frame fs) xs"
  using assms by (auto simp: as_frame_def elim!: stack_list_ConsE walk_list_NilE)

definition links_found :: "nat \<Rightarrow> link_frame list \<Rightarrow> (bytes \<times> owned_entry) list \<Rightarrow> (bytes \<times> oid) list
    \<Rightarrow> (bytes \<times> oid) list option \<Rightarrow> bool" where
  "links_found fuel stack xs links r \<longleftrightarrow>
    (case r of None \<Rightarrow> fuel < 2 * length xs + length stack | Some m \<Rightarrow> m = fold (\<lambda>(p, x). bt_insert p x) (gitlinks xs) links)"

lemma gitlinks_Cons:
  "gitlinks ((p, e) # xs) = (if oe_kind e = KGitlink then [(p, oe_oid e)] else []) @ gitlinks xs"
  by (simp add: gitlinks_def)

lemma gitlink_loop_answers:
  assumes "object_store db I (\<lambda>x v. v = m x)" and "stack_list (entries_at G (db_hash_kind db) m) into_trees (map as_frame stack) xs"
  shows "answers I (links_found fuel stack xs links) (gitlink_loop G db fuel stack links)"
  using assms(2)
proof (induction fuel arbitrary: stack links xs)
  case 0
  then show ?case
    by (cases stack) (auto simp: links_found_def gitlinks_def intro!: answers_sreturn elim: stack_list_NilE)
next
  case (Suc fuel)
  note rules = answers_sbind [OF answers_on_budget [where P = "\<lambda>_. True"]]
  show ?case
  proof (cases stack)
    case Nil
    with Suc.prems show ?thesis
      by (auto simp: links_found_def gitlinks_def intro!: answers_sreturn elim: stack_list_NilE)
  next
    case (Cons f fs)
    show ?thesis
    proof (cases "lf_entries f")
      case Nil
      from link_pop Suc.prems Cons Nil have "stack_list (entries_at G (db_hash_kind db) m) into_trees (map as_frame fs) xs" by blast
      from Suc.IH [OF this, of links] have "answers I (links_found (Suc fuel) stack xs links) (gitlink_loop G db fuel fs links)"
        by (elim answers_conseq) (auto simp: Cons links_found_def split: option.splits)
      then show ?thesis
        by (auto simp: Cons Nil intro!: rules)
    next
      case entries: (Cons e rest)
      let ?path = "join_path (lf_prefix f) (oe_name e)"
      let ?f = "f\<lparr>lf_entries := rest\<rparr>"
      from Suc.prems [unfolded Cons] entries show ?thesis
      proof (cases rule: link_step)
        case (leaf ys)
        have step: "answers I (links_found (Suc fuel) stack xs links) (gitlink_loop G db fuel (?f # fs) links1)"
          if "links1 = (if oe_kind e = KGitlink then bt_insert ?path (oe_oid e) links else links)" for links1
          using Suc.IH [OF leaf(3), of links1] that leaf(2)
          by (elim answers_conseq) (auto simp: Cons links_found_def gitlinks_Cons split: option.splits)
        with leaf show ?thesis
          by (cases "oe_kind e") (auto simp: Cons entries intro!: rules)
      next
        case (down sub ys)
        have step: "answers I (links_found (Suc fuel) stack xs links)
            (gitlink_loop G db fuel (\<lparr>lf_entries = sub, lf_prefix = ?path\<rparr> # ?f # fs) links)"
          using Suc.IH [OF down(4), of links] down(1,3)
          by (elim answers_conseq) (auto simp: Cons links_found_def gitlinks_Cons split: option.splits)
        then show ?thesis
          using down by (auto simp: Cons entries intro!: rules answers_sbind [OF read_for_walk_answers [OF assms(1)]])
      qed
    qed
  qed
qed

section \<open>The query\<close>

text \<open>The declarations that a root tree leads to.\<close>

definition declared_in_root :: "(oid \<Rightarrow> object_read) \<Rightarrow> owned_entry list \<Rightarrow> module_declaration list \<Rightarrow> bool" where
  "declared_in_root m es ds \<longleftrightarrow>
    (case find (\<lambda>e. oe_name e = GITMODULES_PATH) es of
       None \<Rightarrow> ds = []
     | Some e \<Rightarrow>
         (if oe_kind e \<noteq> KBlob then ds = []
          else \<exists>kind payload. m (oe_oid e) = Some (kind, payload)
            \<and> (if kind \<noteq> Blob then ds = []
               else length payload \<le> MAX_GITMODULES_BYTES \<and> sorted_wrt (<) (map dc_name ds)
                 \<and> (\<exists>vs. git_config_parse payload = (Inr (), vs) \<and> (\<forall>d. d \<in> set ds \<longleftrightarrow> module_declared vs d)))))"

text \<open>A store with fixed contents, whose plain headers describe the object they announce.\<close>

locale exact_store = object_store db I "\<lambda>x v. v = m x" for db :: "'w odb" and I and m +
  assumes try_header_law: "answers I (\<lambda>h. \<forall>hd. h = Some hd \<longrightarrow> (\<exists>payload. m x = Some (hdr_kind hd, payload))) (db_try_header db x)"
begin

lemma read_declarations_answers: "answers I (declared_in_root m es) (read_declarations db es)"
proof (cases "find (\<lambda>e. oe_name e = GITMODULES_PATH) es")
  case None
  then show ?thesis by (simp add: read_declarations_def declared_in_root_def answers_sreturn)
next
  case (Some e)
  have parsed: "declared_in_root m es ds"
    if "m (oe_oid e) = Some (Blob, payload)" "oe_kind e = KBlob" "length payload \<le> MAX_GITMODULES_BYTES" "parse_declarations payload = Inr ds"
    for payload ds
    using that(1-3) Some by (auto simp: declared_in_root_def intro: parse_declarations_Inr [OF that(4)])
  have other: "declared_in_root m es []" if "m (oe_oid e) = Some (kind, payload)" "oe_kind e = KBlob" "kind \<noteq> Blob" for kind payload
    using that Some by (simp add: declared_in_root_def)
  have found: "answers I (declared_in_root m es) (case found of
        None \<Rightarrow> sraise (missing_gitmodules (oe_oid e))
      | Some (kind, payload) \<Rightarrow>
          if kind \<noteq> Blob then sreturn []
          else if MAX_GITMODULES_BYTES < length payload then sraise gitmodules_too_large
          else slift (parse_declarations payload))" if "found = m (oe_oid e)" "oe_kind e = KBlob" for found
    using that parsed other by (auto intro!: answers_sreturn answers_sraise answers_slift split: option.split)
  show ?thesis
  proof (cases "oe_kind e = KBlob")
    case False
    with Some show ?thesis by (simp add: read_declarations_def declared_in_root_def answers_sreturn)
  next
    case True
    show ?thesis
      unfolding read_declarations_def Some option.case
      using True Some other
      by (auto intro!: answers_sbind [OF answers_smap_err [OF try_header_law]] answers_sbind [OF answers_smap_err [OF find_law]]
          found answers_sraise answers_sreturn split: option.split)
  qed
qed

end

interpretation static_contents: exact_store "static_db so" "\<lambda>_. True" "so_objects so" for so
proof (intro exact_store.intro static_exact exact_store_axioms.intro)
  show "answers (\<lambda>_. True) (\<lambda>h. \<forall>hd. h = Some hd \<longrightarrow> (\<exists>payload. so_objects so x = Some (hdr_kind hd, payload))) (db_try_header (static_db so) x)" for x
    by (rule answersI) (auto simp: static_db_def static_try_header_def sr_inv split: option.splits)
qed

lemma declared_sorted: "declared_in_root m es ds \<Longrightarrow> sorted_wrt (<) (map dc_name ds)"
  by (auto simp: declared_in_root_def split: option.splits if_splits)

lemma gitlink_fold:
  "bt_ok (fold (\<lambda>(p, x). bt_insert p x) (gitlinks xs) [])"
  "map_of (fold (\<lambda>(p, x). bt_insert p x) (gitlinks xs) []) = gitlink_at xs"
  using btree.fold_insert [of "[]" "gitlinks xs"] by (simp_all add: gitlink_at_def)

context exact_store
begin

lemma submodules_answers:
  assumes "entries_at G (db_hash_kind db) m (tree_oid snap) = Some es"
    and "walk_list (entries_at G (db_hash_kind db) m) into_trees [] 0 es xs" and "2 * length xs + 1 \<le> fuel"
  shows "answers I (\<lambda>r. \<exists>rows ds. r = Some rows \<and> declared_in_root m es ds \<and> correlated ds (gitlink_at xs) rows) (submodules G fuel db snap)"
proof -
  have store: "object_store db I (\<lambda>x v. v = m x)" by unfold_locales
  have stack: "stack_list (entries_at G (db_hash_kind db) m) into_trees (map as_frame [\<lparr>lf_entries = es, lf_prefix = []\<rparr>]) xs"
    using stack_push [OF _ stack_nil, of _ _ "as_frame \<lparr>lf_entries = es, lf_prefix = []\<rparr>" xs] assms(2) by (simp add: as_frame_def)
  have links: "answers I (\<lambda>r. \<exists>links. r = Some links \<and> bt_ok links \<and> map_of links = gitlink_at xs) (collect_gitlinks G db fuel es)"
    unfolding collect_gitlinks_def
    by (rule answers_conseq [OF gitlink_loop_answers [OF store stack]])
      (use assms(3) gitlink_fold [of xs] in \<open>auto simp: links_found_def split: option.splits\<close>)
  have final: "answers I (\<lambda>r. \<exists>rows ds. r = Some rows \<and> declared_in_root m es ds \<and> correlated ds (gitlink_at xs) rows)
      (sreturn (map_option (correlate ds) links))" if "declared_in_root m es ds" "\<exists>l. links = Some l \<and> bt_ok l \<and> map_of l = gitlink_at xs" for ds links
    using that correlate_correlated [OF _ declared_sorted [OF that(1)]] by (intro answers_sreturn) fastforce
  show ?thesis
    unfolding submodules_def
    by (rule answers_sbind [OF answers_slift [where P = "\<lambda>_. True"]], simp,
        rule answers_sbind [OF read_for_walk_answers [OF store]],
        rule answers_sbind [OF read_declarations_answers], rule answers_sbind, use links assms(1) in simp, rule final, use assms(1) in auto)
qed

end


section \<open>Answers over an in-memory store\<close>

lemma yields_gitlink_loop:
  assumes "uniform so" and "stack_list (static_entries G so) into_trees (map as_frame stack) xs" and "2 * length xs + length stack \<le> fuel"
  shows "yields (gitlink_loop G (static_db so) fuel stack links) (Some (fold (\<lambda>(p, x). bt_insert p x) (gitlinks xs) links))"
  using assms(2,3)
proof (induction fuel arbitrary: stack links xs)
  case 0
  then have "stack = []" "xs = []" by (auto elim: stack_list_NilE)
  then show ?case by (simp add: gitlinks_def yields_sreturn)
next
  case (Suc fuel)
  show ?case
  proof (cases stack)
    case Nil
    with Suc.prems have "xs = []" by (auto elim: stack_list_NilE)
    with Nil show ?thesis by (simp add: gitlinks_def yields_sreturn)
  next
    case (Cons f fs)
    show ?thesis
    proof (cases "lf_entries f")
      case Nil
      with link_pop Suc.prems(1) Cons have "stack_list (static_entries G so) into_trees (map as_frame fs) xs" by blast
      from Suc.IH [OF this] Suc.prems(2) Cons Nil show ?thesis by (auto intro!: yields_sbind [OF yields_check])
    next
      case entries: (Cons e rest)
      from Suc.prems(1) [unfolded Cons] entries show ?thesis
      proof (cases rule: link_step)
        case (leaf ys)
        with Suc.IH [OF leaf(3)] Suc.prems(2) Cons entries show ?thesis
          by (cases "oe_kind e") (auto simp: gitlinks_Cons intro!: yields_sbind [OF yields_check] yields_sbind [OF yields_charge_tree_entry])
      next
        case (down sub ys)
        with Suc.IH [OF down(4)] Suc.prems(2) Cons entries show ?thesis
          by (auto simp: gitlinks_Cons intro!: yields_sbind [OF yields_check] yields_sbind [OF yields_entries_for_walk [OF assms(1) down(2)]])
      qed
    qed
  qed
qed

text \<open>A root tree without the file, with something else in its place, or with a file that parses.\<close>

definition readable_gitmodules :: "(oid \<Rightarrow> object_read) \<Rightarrow> owned_entry list \<Rightarrow> bool" where
  "readable_gitmodules m es \<longleftrightarrow> (\<forall>e. find (\<lambda>e. oe_name e = GITMODULES_PATH) es = Some e \<longrightarrow> oe_kind e = KBlob \<longrightarrow>
     (\<exists>kind payload. m (oe_oid e) = Some (kind, payload) \<and> length payload \<le> MAX_GITMODULES_BYTES \<and> (\<exists>vs. git_config_parse payload = (Inr (), vs))))"

lemma yields_plain_header:
  assumes "so_objects so x = Some (k, p)" and "oid_kind x = so_hash so"
  shows "yields (db_try_header (static_db so) x) (Some \<lparr>hdr_kind = k, hdr_size = byte_len p\<rparr>)"
  using assms
  by (auto simp: static_db_def static_try_header_def ensure_hash_def
      intro!: yields_sbind [OF yields_charge_header] yields_sbind [OF yields_slift] yields_sreturn)

lemma yields_read_declarations:
  assumes "uniform so" and "readable_gitmodules (so_objects so) es"
  shows "\<exists>ds. yields (read_declarations (static_db so :: 'w odb) es) ds"
proof (cases "\<exists>e. find (\<lambda>e. oe_name e = GITMODULES_PATH) es = Some e \<and> oe_kind e = KBlob")
  case False
  then show ?thesis
    by (auto simp: read_declarations_def intro!: exI yields_sreturn split: option.split)
next
  case True
  then obtain e where e: "find (\<lambda>e. oe_name e = GITMODULES_PATH) es = Some e" "oe_kind e = KBlob" by blast
  with assms(2) obtain kind payload vs where found: "so_objects so (oe_oid e) = Some (kind, payload)"
    "length payload \<le> MAX_GITMODULES_BYTES" "git_config_parse payload = (Inr (), vs)"
    by (auto simp: readable_gitmodules_def)
  from found(1) assms(1) have kind: "oid_kind (oe_oid e) = so_hash so" by (simp add: uniform_def)
  have small: "\<not> (of_nat MAX_GITMODULES_BYTES :: u64) < byte_len payload"
    using found(2) by (simp add: byte_len_def MAX_GITMODULES_BYTES_def word_less_nat_alt unat_of_nat)
  let ?rest = "if kind \<noteq> Blob then sreturn [] else if MAX_GITMODULES_BYTES < length payload then sraise gitmodules_too_large
      else slift (parse_declarations payload) :: ('w, module_declaration list) op"
  obtain ds where ds: "yields ?rest ds"
    using found(2,3) by (cases "kind = Blob") (auto simp: parse_declarations_def intro: yields_sreturn yields_slift)
  have "yields (read_declarations (static_db so :: 'w odb) es) (if kind \<noteq> Blob then [] else ds)"
    unfolding read_declarations_def e(1) option.case
    using e(2) found(1) small ds yields_static_find [OF kind]
    by (auto intro!: yields_sbind [OF yields_smap_err [OF yields_plain_header [OF found(1) kind]]]
        yields_sbind [OF yields_smap_err [OF yields_static_find [OF kind]]] yields_sreturn)
  then show ?thesis by blast
qed

lemma yields_submodules:
  assumes "uniform so" and "ensure_query_compatible (static_db so :: 'w odb) snap = Inr ()" and "static_entries G so (tree_oid snap) = Some es"
    and "walk_list (static_entries G so) into_trees [] 0 es xs" and "readable_gitmodules (so_objects so) es" and "2 * length xs + 1 \<le> fuel"
  shows "\<exists>rows. yields (submodules G fuel (static_db so :: 'w odb) snap) (Some rows)"
proof -
  obtain ds where ds: "yields (read_declarations (static_db so :: 'w odb) es) ds"
    using yields_read_declarations [OF assms(1,5)] by blast
  have stack: "stack_list (static_entries G so) into_trees (map as_frame [\<lparr>lf_entries = es, lf_prefix = []\<rparr>]) xs"
    using stack_push [OF _ stack_nil, of _ _ "as_frame \<lparr>lf_entries = es, lf_prefix = []\<rparr>" xs] assms(4) by (simp add: as_frame_def)
  have links: "yields (collect_gitlinks G (static_db so :: 'w odb) fuel es) (Some (fold (\<lambda>(p, x). bt_insert p x) (gitlinks xs) []))"
    unfolding collect_gitlinks_def using yields_gitlink_loop [OF assms(1) stack] assms(6) by simp
  show ?thesis
    unfolding submodules_def
    by (rule exI [of _ "correlate ds (fold (\<lambda>(p, x). bt_insert p x) (gitlinks xs) [])"], rule yields_sbind [OF yields_slift [OF assms(2)]], rule yields_sbind [OF yields_entries_for_walk [OF assms(1,3)]],
        rule yields_sbind [OF ds], rule yields_sbind [OF links]) (simp add: yields_sreturn)
qed

text \<open>
  Over a complete in-memory store and without ceilings the query returns its rows, unless the \<open>.gitmodules\<close> blob is missing, too large or malformed.
\<close>

theorem submodules_return:
  assumes "uniform so" and "ensure_query_compatible (static_db so :: unit odb) snap = Inr ()" and "static_entries G so (tree_oid snap) = Some es"
    and "walk_list (static_entries G so) into_trees [] 0 es xs" and "readable_gitmodules (so_objects so) es" and "2 * length xs + 1 \<le> fuel"
  shows "\<exists>rows ds s. submodules G fuel (static_db so) snap ((), budget_unlimited idle) = (Inr (Some rows), s)
    \<and> declared_in_root (so_objects so) es ds \<and> correlated ds (gitlink_at xs) rows"
proof -
  from yields_submodules [OF assms] obtain rows where "yields (submodules G fuel (static_db so :: unit odb) snap) (Some rows)" by blast
  from yields_run [OF this unlimited_start] obtain s where
    run: "submodules G fuel (static_db so) snap ((), budget_unlimited idle) = (Inr (Some rows), s)" by blast
  have "\<exists>rows' ds. Some rows = Some rows' \<and> declared_in_root (so_objects so) es ds \<and> correlated ds (gitlink_at xs) rows'"
    by (rule answersD [OF static_contents.submodules_answers [of G so snap es xs fuel] _ run]) (use assms in simp_all)
  with run show ?thesis by blast
qed

section \<open>A snapshot with one submodule\<close>

definition demo_modules :: "config_section list" where
  "demo_modules = [\<lparr>cs_name = ascii ''submodule'', cs_subsection = Some (ascii ''n''), cs_entries = [(ascii ''path'', Some (ascii ''m''))]\<rparr>]"

definition modules_payload :: bytes where
  "modules_payload = concat (map print_config_section demo_modules)"

definition modules_store :: static_odb where
  "modules_store = \<lparr>so_hash = Sha1, so_objects =
     [toy_oid 1 \<mapsto> (Tree, concat (map print_entry [(''100644'', ''.gitmodules'', 3), (''160000'', ''m'', 7)])),
      toy_oid 3 \<mapsto> (Blob, modules_payload)]\<rparr>"

definition link_entry :: owned_entry where
  "link_entry = \<lparr>oe_mode = 57344, oe_name = ascii ''m'', oe_oid = toy_oid 7, oe_kind = KGitlink\<rparr>"

definition modules_list :: "(bytes \<times> owned_entry) list" where
  "modules_list = [(ascii ''.gitmodules'', blob_entry ''.gitmodules'' 3), (ascii ''m'', link_entry)]"

lemma modules_parse: "git_config_parse modules_payload = (Inr (), concat (map section_values demo_modules))"
proof -
  have "list_all printable_section demo_modules" by code_simp
  then have "\<exists>p'. config_loop False (parser_new modules_payload) = (Inr (), p') \<and> cp_visited p' = concat (map section_values demo_modules)"
    using sections_loop [of demo_modules "parser_new modules_payload"] by (simp add: modules_payload_def parser_new_def)
  then show ?thesis by (auto simp: git_config_parse_def)
qed

lemma modules_entries: "static_entries tree_gix modules_store (toy_oid 1) = Some [blob_entry ''.gitmodules'' 3, link_entry]"
proof -
  have hash: "so_hash modules_store = Sha1" by (simp add: modules_store_def)
  have link: "owned_of (Inr (printed_entry (''160000'', ''m'', 7))) = Inr link_entry"
    by (simp add: owned_of_def printed_entry_def validate_tree_name_def kind_from_mode_def link_entry_def octal_value_def
        dot_segment_def ascii_def)
  show ?thesis
    unfolding hash by (rule entries_printed [where es = "[(''100644'', ''.gitmodules'', 3), (''160000'', ''m'', 7)]"])
      (simp_all add: printable_def owned_printed link dot_segment_def modules_store_def)
qed

lemma modules_ready:
  "uniform modules_store" "ensure_query_compatible (static_db modules_store) (order_snap 1) = Inr ()"
  "static_entries tree_gix modules_store (tree_oid (order_snap 1)) = Some [blob_entry ''.gitmodules'' 3, link_entry]"
  "walk_list (static_entries tree_gix modules_store) into_trees [] 0 [blob_entry ''.gitmodules'' 3, link_entry] modules_list"
  "readable_gitmodules (so_objects modules_store) [blob_entry ''.gitmodules'' 3, link_entry]"
  "2 * length modules_list + 1 \<le> 5" "gitlink_at modules_list (ascii ''m'') = Some (toy_oid 7)"
proof -
  have len: "length modules_payload = 28" by code_simp
  show "uniform modules_store" "ensure_query_compatible (static_db modules_store) (order_snap 1) = Inr ()"
    by (auto simp: uniform_def modules_store_def toy_oid_def ensure_query_compatible_def order_snap_def)
  show "static_entries tree_gix modules_store (tree_oid (order_snap 1)) = Some [blob_entry ''.gitmodules'' 3, link_entry]"
    using modules_entries by (simp add: order_snap_def)
  show "walk_list (static_entries tree_gix modules_store) into_trees [] 0 [blob_entry ''.gitmodules'' 3, link_entry] modules_list"
    unfolding modules_list_def
    using walk_leaf [of into_trees "[]" "blob_entry ''.gitmodules'' 3" 0 "static_entries tree_gix modules_store" "[link_entry]"]
      walk_leaf [of into_trees "[]" link_entry 0 "static_entries tree_gix modules_store" "[]" "[]"] walk_nil
    by (simp add: join_path_def blob_entry_def link_entry_def)
  show "readable_gitmodules (so_objects modules_store) [blob_entry ''.gitmodules'' 3, link_entry]"
    using modules_parse len by (simp add: readable_gitmodules_def modules_store_def blob_entry_def GITMODULES_PATH_def MAX_GITMODULES_BYTES_def)
  show "2 * length modules_list + 1 \<le> 5" "gitlink_at modules_list (ascii ''m'') = Some (toy_oid 7)"
    by (simp_all add: modules_list_def gitlink_at_def gitlinks_def blob_entry_def link_entry_def)
qed

theorem submodules_return_witness:
  "\<exists>rows s. submodules tree_gix 5 (static_db modules_store) (order_snap 1) ((), budget_unlimited idle) = (Inr (Some rows), s)
    \<and> (\<exists>r \<in> set rows. sm_path r = ascii ''m'' \<and> sm_commit_oid r = Some (toy_oid 7))"
  using submodules_return [OF modules_ready(1-6)] modules_ready(7) unfolding correlated_def by blast


end
