(* ===== verification/Rendezvous.thy ===== *)
theory Rendezvous
  imports Odb OrderedMap
begin

text \<open>
  The rendezvous between a waiting worker and the callbacks of the host (\<open>provider_odb.rs\<close>; \<open>provider_refs.rs\<close> and
  \<open>packfetch.rs\<close> use the same table): a table of senders from which each is taken once, and the worker's wait with its
  deadline. Replies, failures and the death of the provider are events of the environment; an environment is asked
  whenever the worker looks at the clock, at the liveness flag, at the transport or at its reply, and may act before each of them.
  Clock readings and deadlines are unbounded numbers, so the fallback of \<open>now.checked_add(timeout)\<close>, which an overflow of the clock
  would need, does not arise. Taking a sender under the lock and sending on it after the lock is released are one action of the table:
  the sender has left the table, so nothing else can reach its channel in between.
\<close>

section \<open>The table of pending requests\<close>

text \<open>
  A channel holds one message. \<open>pt_senders\<close> are the requests whose sender has not been taken, \<open>pt_slots\<close> the messages not yet
  received; a channel is named by its request.
\<close>

record 'r pending_table =
  pt_senders :: "(u64 \<times> unit) list"
  pt_slots :: "u64 \<Rightarrow> (error + 'r) option"

definition pt_default :: "'r pending_table" where
  "pt_default = \<lparr>pt_senders = [], pt_slots = (\<lambda>_. None)\<rparr>"

definition pt_insert :: "u64 \<Rightarrow> 'r pending_table \<Rightarrow> 'r pending_table" where
  "pt_insert i t = t\<lparr>pt_senders := bt_insert i () (pt_senders t), pt_slots := (pt_slots t)(i := None)\<rparr>"

text \<open>Taking a sender and sending on it; \<open>received\<close> is whether the receiving end still exists.\<close>

definition pt_send :: "bool \<Rightarrow> u64 \<Rightarrow> error + 'r \<Rightarrow> 'r pending_table \<Rightarrow> bool \<times> 'r pending_table" where
  "pt_send received i message t =
    (case map_of (pt_senders t) i of
       None \<Rightarrow> (False, t)
     | Some _ \<Rightarrow>
         (received, t\<lparr>pt_senders := bt_remove i (pt_senders t),
            pt_slots := (if received then (pt_slots t)(i := Some message) else pt_slots t)\<rparr>))"

definition pt_reply :: "bool \<Rightarrow> u64 \<Rightarrow> 'r \<Rightarrow> 'r pending_table \<Rightarrow> bool \<times> 'r pending_table" where
  "pt_reply received i payload = pt_send received i (Inr payload)"

definition pt_reply_error :: "bool \<Rightarrow> u64 \<Rightarrow> error \<Rightarrow> 'r pending_table \<Rightarrow> bool \<times> 'r pending_table" where
  "pt_reply_error received i e = pt_send received i (Inl e)"

definition pt_cancel :: "u64 \<Rightarrow> 'r pending_table \<Rightarrow> bool \<times> 'r pending_table" where
  "pt_cancel i t = (map_of (pt_senders t) i \<noteq> None, t\<lparr>pt_senders := bt_remove i (pt_senders t)\<rparr>)"

definition pt_fail_all :: "error \<Rightarrow> 'r pending_table \<Rightarrow> 'r pending_table" where
  "pt_fail_all e t = t\<lparr>pt_senders := [],
     pt_slots := (\<lambda>i. if map_of (pt_senders t) i \<noteq> None then Some (Inl e) else pt_slots t i)\<rparr>"

text \<open>\<open>recv_timeout\<close>, after the environment acted: a message, an expired slice, or no sender left.\<close>

datatype 'r received = Received "error + 'r" | SliceExpired | Disconnected

definition pt_recv :: "u64 \<Rightarrow> 'r pending_table \<Rightarrow> 'r received \<times> 'r pending_table" where
  "pt_recv i t =
    (case pt_slots t i of
       Some message \<Rightarrow> (Received message, t\<lparr>pt_slots := (pt_slots t)(i := None)\<rparr>)
     | None \<Rightarrow> (if map_of (pt_senders t) i \<noteq> None then SliceExpired else Disconnected, t))"

section \<open>The provider\<close>

datatype 'r provider_event = EvReply bool u64 'r | EvReplyError bool u64 error | EvDead | EvFailAll error

record 'r provider_obs =
  po_now :: nat
  po_events :: "'r provider_event list"
  po_sent :: "error + unit"

record ('q, 'r) provider =
  pv_pending :: "'r pending_table"
  pv_next_id :: u64
  pv_alive :: bool
  pv_requests :: "'q list"
  pv_env :: "nat \<Rightarrow> 'r provider_obs"
  pv_tick :: nat

text \<open>\<open>fail_all\<close> clears the liveness flag and then drains the table; between the two other threads may act.\<close>

fun apply_event :: "'r provider_event \<Rightarrow> ('q, 'r, 'm) provider_scheme \<Rightarrow> ('q, 'r, 'm) provider_scheme" where
  "apply_event (EvReply rc i payload) p = p\<lparr>pv_pending := snd (pt_reply rc i payload (pv_pending p))\<rparr>"
| "apply_event (EvReplyError rc i e) p = p\<lparr>pv_pending := snd (pt_reply_error rc i e (pv_pending p))\<rparr>"
| "apply_event EvDead p = p\<lparr>pv_alive := False\<rparr>"
| "apply_event (EvFailAll e) p = p\<lparr>pv_pending := pt_fail_all e (pv_pending p)\<rparr>"

text \<open>One look at the environment.\<close>

definition observe :: "('q, 'r, 'm) provider_scheme \<Rightarrow> 'r provider_obs \<times> ('q, 'r, 'm) provider_scheme" where
  "observe p =
    (let obs = pv_env p (pv_tick p)
     in (obs, fold apply_event (po_events obs) (p\<lparr>pv_tick := Suc (pv_tick p)\<rparr>)))"

definition on_provider :: "('p \<Rightarrow> 'a \<times> 'p) \<Rightarrow> ('p, 'a) op" where
  "on_provider f s = (case s of (p, b) \<Rightarrow> case f p of (a, p') \<Rightarrow> (Inr a, (p', b)))"

definition cancel_request :: "u64 \<Rightarrow> (('q, 'r, 'm) provider_scheme, unit) op" where
  "cancel_request i = on_provider (\<lambda>p. ((), p\<lparr>pv_pending := snd (pt_cancel i (pv_pending p))\<rparr>))"

text \<open>A failure that withdraws the request first.\<close>

definition withdraw :: "u64 \<Rightarrow> error \<Rightarrow> (('q, 'r, 'm) provider_scheme, 'a) op" where
  "withdraw i e = sbind (cancel_request i) (\<lambda>_. sraise e)"

definition ensure_alive :: "error \<Rightarrow> (('q, 'r, 'm) provider_scheme, unit) op" where
  "ensure_alive down = sbind (on_provider (\<lambda>p. (pv_alive p, p))) (\<lambda>alive. if alive then sreturn () else sraise down)"

definition budget_of_run :: "('p, budget) op" where
  "budget_of_run s = (case s of (p, b) \<Rightarrow> (Inr b, (p, b)))"

lemma answers_budget_of_run [answers_rules]: "answers I (\<lambda>_. True) budget_of_run"
  by (simp add: answers_def budget_of_run_def)

text \<open>The waiting loop of \<open>send_and_wait\<close>; \<open>None\<close> is a wait that did not end within the fuel.\<close>

fun await_reply :: "error \<Rightarrow> error \<Rightarrow> nat \<Rightarrow> u64 \<Rightarrow> nat \<Rightarrow> (('q, 'r, 'm) provider_scheme, 'r option) op" where
  "await_reply down late deadline i 0 = sreturn None"
| "await_reply down late deadline i (Suc fuel) =
    sbind (sattempt (on_budget check)) (\<lambda>ok.
    case ok of
      Inl e \<Rightarrow> withdraw i e
    | Inr _ \<Rightarrow>
        sbind (on_provider observe) (\<lambda>obs.
        if deadline \<le> po_now obs then
          sbind (cancel_request i) (\<lambda>_.
          sbind (on_budget (\<lambda>b. (Inr (b_deadline b), b))) (\<lambda>budget_deadline.
          if (case budget_deadline of None \<Rightarrow> False | Some d \<Rightarrow> d \<le> po_now obs) then
            sbind (on_budget check) (\<lambda>_. sraise timeout_error)
          else sraise late))
        else
          sbind (on_provider observe) (\<lambda>_.
          sbind (on_provider (\<lambda>p. case pt_recv i (pv_pending p) of (r, t) \<Rightarrow> (r, p\<lparr>pv_pending := t\<rparr>))) (\<lambda>r.
          case r of
            Received (Inr payload) \<Rightarrow> sreturn (Some payload)
          | Received (Inl e) \<Rightarrow> sraise e
          | SliceExpired \<Rightarrow> await_reply down late deadline i fuel
          | Disconnected \<Rightarrow> withdraw i down))))"

text \<open>
  \<open>send_and_wait\<close>: \<open>down\<close> and \<open>late\<close> are the caller's errors for a dead provider and an expired request, and \<open>request\<close> builds what the
  transport is given from the number of the request, its deadline and the provider bytes left.
\<close>

definition submit_request :: "error \<Rightarrow> error \<Rightarrow> nat \<Rightarrow> (u64 \<Rightarrow> nat \<Rightarrow> budget \<Rightarrow> 'q) \<Rightarrow> nat \<Rightarrow> u64
    \<Rightarrow> (('q, 'r, 'm) provider_scheme, 'r option) op" where
  "submit_request down late deadline request fuel i =
    sbind (on_provider observe) (\<lambda>_.
    sbind (sattempt (ensure_alive down)) (\<lambda>alive.
    case alive of
      Inl e \<Rightarrow> withdraw i e
    | Inr _ \<Rightarrow>
        sbind budget_of_run (\<lambda>b.
        sbind (on_provider observe) (\<lambda>sent.
        sbind (on_provider (\<lambda>p. ((), p\<lparr>pv_requests := pv_requests p @ [request i deadline b]\<rparr>))) (\<lambda>_.
        case po_sent sent of
          Inl e \<Rightarrow> withdraw i e
        | Inr _ \<Rightarrow> await_reply down late deadline i fuel)))))"

definition send_and_wait :: "error \<Rightarrow> error \<Rightarrow> nat \<Rightarrow> (u64 \<Rightarrow> nat \<Rightarrow> budget \<Rightarrow> 'q) \<Rightarrow> nat
    \<Rightarrow> (('q, 'r, 'm) provider_scheme, 'r option) op" where
  "send_and_wait down late timeout request fuel =
    sbind (on_budget charge_provider_request) (\<lambda>_.
    sbind (on_provider observe) (\<lambda>obs.
    sbind (on_budget (\<lambda>b. (Inr (b_deadline b), b))) (\<lambda>budget_deadline.
    let request_deadline = po_now obs + timeout;
        deadline = (case budget_deadline of None \<Rightarrow> request_deadline | Some d \<Rightarrow> min request_deadline d) in
    sbind (on_provider (\<lambda>p. (pv_next_id p, p\<lparr>pv_next_id := pv_next_id p + 1, pv_pending := pt_insert (pv_next_id p) (pv_pending p)\<rparr>))) (\<lambda>i.
    submit_request down late deadline request fuel i))))"

section \<open>One message per request\<close>

datatype 'r table_op = TInsert u64 | TSend bool u64 "error + 'r" | TCancel u64 | TFailAll error | TRecv u64

text \<open>One operation of some thread on the table, with the message that a receive returns.\<close>

fun table_step :: "'r table_op \<Rightarrow> 'r pending_table \<Rightarrow> (u64 \<times> (error + 'r)) option \<times> 'r pending_table" where
  "table_step (TInsert i) t = (None, pt_insert i t)"
| "table_step (TSend rc i message) t = (None, snd (pt_send rc i message t))"
| "table_step (TCancel i) t = (None, snd (pt_cancel i t))"
| "table_step (TFailAll e) t = (None, pt_fail_all e t)"
| "table_step (TRecv i) t = (case pt_recv i t of (Received m, t') \<Rightarrow> (Some (i, m), t') | (_, t') \<Rightarrow> (None, t'))"

fun table_run :: "'r table_op list \<Rightarrow> 'r pending_table \<Rightarrow> (u64 \<times> (error + 'r)) list \<times> 'r pending_table" where
  "table_run [] t = ([], t)"
| "table_run (x # xs) t =
    (case table_step x t of (r, t1) \<Rightarrow> case table_run xs t1 of (rs, t2) \<Rightarrow> ((case r of None \<Rightarrow> rs | Some m \<Rightarrow> m # rs), t2))"

text \<open>How many messages a request can still receive: one from its sender, or the one in its channel.\<close>

definition expected :: "u64 \<Rightarrow> 'r pending_table \<Rightarrow> nat" where
  "expected i t = (if map_of (pt_senders t) i \<noteq> None then 1 else 0) + (if pt_slots t i \<noteq> None then 1 else 0)"

definition pt_ok :: "'r pending_table \<Rightarrow> bool" where
  "pt_ok t \<longleftrightarrow> bt_ok (pt_senders t) \<and> (\<forall>i. expected i t \<le> 1)"

lemma pt_simps:
  assumes "bt_ok (pt_senders t)"
  shows "map_of (pt_senders (pt_insert i t)) = (map_of (pt_senders t))(i := Some ())"
    and "map_of (pt_senders (snd (pt_send rc i m t))) = (map_of (pt_senders t))(i := None)"
    and "map_of (pt_senders (snd (pt_cancel i t))) = (map_of (pt_senders t))(i := None)"
    and "bt_ok (pt_senders (pt_insert i t))" and "bt_ok (pt_senders (snd (pt_send rc i m t)))" and "bt_ok (pt_senders (snd (pt_cancel i t)))"
    and "pt_slots (snd (pt_send rc i m t)) = (if rc \<and> map_of (pt_senders t) i \<noteq> None then (pt_slots t)(i := Some m) else pt_slots t)"
  using btree.insert_law [OF assms, of i "()"] btree.remove_law [OF assms, of i] assms
  by (auto simp: pt_insert_def pt_send_def pt_cancel_def split: option.split)

lemma pt_okI: "bt_ok (pt_senders t') \<Longrightarrow> (\<And>j. expected j t' \<le> expected j t) \<Longrightarrow> pt_ok t \<Longrightarrow> pt_ok t'"
  unfolding pt_ok_def by (meson le_trans)

lemma insert_expected:
  assumes "pt_ok t"
  shows "pt_ok (pt_insert i t)" and "expected j (pt_insert i t) = (if j = i then 1 else expected j t)"
proof -
  have ok: "bt_ok (pt_senders t)" using assms by (simp add: pt_ok_def)
  show e: "expected j (pt_insert i t) = (if j = i then 1 else expected j t)" for j
    using pt_simps(1) [OF ok] by (auto simp: expected_def) (auto simp: pt_insert_def split: if_splits)
  show "pt_ok (pt_insert i t)"
    unfolding pt_ok_def using e assms pt_simps(4) [OF ok] by (simp add: pt_ok_def)
qed

lemma take_expected:
  assumes "pt_ok t"
  shows "pt_ok (snd (pt_send rc i m t))" and "expected j (snd (pt_send rc i m t)) \<le> expected j t"
    and "pt_ok (snd (pt_cancel i t))" and "expected j (snd (pt_cancel i t)) \<le> expected j t"
    and "pt_ok (pt_fail_all e t)" and "expected j (pt_fail_all e t) \<le> expected j t"
proof -
  have ok: "bt_ok (pt_senders t)" using assms by (simp add: pt_ok_def)
  show s: "expected j (snd (pt_send rc i m t)) \<le> expected j t" for j
    using pt_simps(2,7) [OF ok] by (auto simp: expected_def)
  show c: "expected j (snd (pt_cancel i t)) \<le> expected j t" for j
    using pt_simps(3) [OF ok] by (auto simp: expected_def) (auto simp: pt_cancel_def)
  show f: "expected j (pt_fail_all e t) \<le> expected j t" for j
    by (auto simp: expected_def pt_fail_all_def)
  show "pt_ok (snd (pt_send rc i m t))" "pt_ok (snd (pt_cancel i t))" "pt_ok (pt_fail_all e t)"
    using pt_okI [OF pt_simps(5) [OF ok] s assms] pt_okI [OF pt_simps(6) [OF ok] c assms] pt_okI [OF _ f assms]
    by (simp_all add: pt_fail_all_def)
qed

lemma recv_expected:
  assumes "pt_ok t" and "pt_recv i t = (r, t')"
  shows "pt_ok t'" and "expected j t' + (case r of Received _ \<Rightarrow> if j = i then 1 else 0 | _ \<Rightarrow> 0) \<le> expected j t"
proof -
  show e: "expected j t' + (case r of Received _ \<Rightarrow> if j = i then 1 else 0 | _ \<Rightarrow> 0) \<le> expected j t" for j
    using assms(2) by (auto simp: pt_recv_def expected_def split: option.splits if_splits)
  have "bt_ok (pt_senders t')"
    using assms by (auto simp: pt_ok_def pt_recv_def split: option.splits)
  then show "pt_ok t'"
    using e by (intro pt_okI [OF _ _ assms(1)]) (auto intro: le_trans [OF le_add1])
qed

lemma table_step_ok:
  assumes "pt_ok t" and "table_step x t = (r, t')"
  shows "pt_ok t'" and "x \<noteq> TInsert i \<Longrightarrow> expected i t' + (case r of Some m \<Rightarrow> if fst m = i then 1 else 0 | None \<Rightarrow> 0) \<le> expected i t"
proof -
  note laws = insert_expected [OF assms(1)] take_expected [OF assms(1)]
  show "pt_ok t'"
    using assms(2) laws recv_expected(1) [OF assms(1)] by (cases x) (auto split: prod.splits received.splits)
  show "expected i t' + (case r of Some m \<Rightarrow> if fst m = i then 1 else 0 | None \<Rightarrow> 0) \<le> expected i t" if "x \<noteq> TInsert i"
  proof (cases x)
    case (TRecv j)
    then show ?thesis
      using assms(2) recv_expected(2) [OF assms(1), of j _ _ i] by (fastforce split: prod.splits received.splits)
  qed (use assms(2) laws that in auto)
qed

lemma table_run_expected:
  assumes "pt_ok t" and "TInsert i \<notin> set xs" and "table_run xs t = (rs, t')"
  shows "length (filter (\<lambda>m. fst m = i) rs) + expected i t' \<le> expected i t"
  using assms
proof (induction xs arbitrary: t rs)
  case (Cons x xs)
  obtain r t1 where 1: "table_step x t = (r, t1)" by force
  obtain rs1 where 2: "table_run xs t1 = (rs1, t')" "rs = (case r of None \<Rightarrow> rs1 | Some m \<Rightarrow> m # rs1)"
    using Cons.prems(3) 1 by (auto split: prod.splits)
  show ?case
    using Cons.IH [OF table_step_ok(1) [OF Cons.prems(1) 1] _ 2(1)] table_step_ok(2) [OF Cons.prems(1) 1, of i] Cons.prems(2) 2(2)
    by (auto split: option.splits if_splits)
qed simp

text \<open>
  C9. A request receives at most one message: whatever replies, failures, cancellations, receives and other requests follow the insertion of a request
  in the table, in any order, at most one message is received for it, and none once it was cancelled with no message waiting.
\<close>

theorem one_reply_per_request:
  assumes "pt_ok t" and "TInsert i \<notin> set xs"
  shows "length (filter (\<lambda>m. fst m = i) (fst (table_run xs (pt_insert i t)))) \<le> 1
    \<and> (pt_slots t i = None \<longrightarrow> filter (\<lambda>m. fst m = i) (fst (table_run xs (snd (pt_cancel i t)))) = [])"
proof -
  have ok: "bt_ok (pt_senders t)" using assms(1) by (simp add: pt_ok_def)
  have "pt_ok (pt_insert i t)" "pt_ok (snd (pt_cancel i t))"
    using table_step_ok(1) [OF assms(1), of "TInsert i"] table_step_ok(1) [OF assms(1), of "TCancel i"] by simp_all
  note run = table_run_expected [OF this(1) assms(2)] table_run_expected [OF this(2) assms(2)]
  have "length (filter (\<lambda>m. fst m = i) (fst (table_run xs (pt_insert i t)))) \<le> 1"
    using run(1) [of "fst (table_run xs (pt_insert i t))"] pt_simps(1) [OF ok, of i]
    by (cases "table_run xs (pt_insert i t)") (auto simp: expected_def pt_insert_def split: if_splits)
  moreover have "filter (\<lambda>m. fst m = i) (fst (table_run xs (snd (pt_cancel i t)))) = []" if "pt_slots t i = None"
    using run(2) [of "fst (table_run xs (snd (pt_cancel i t)))"] pt_simps(3) [OF ok, of i] that
    by (cases "table_run xs (snd (pt_cancel i t))") (auto simp: expected_def pt_cancel_def split: if_splits)
  ultimately show ?thesis by blast
qed

section \<open>A wait ends and leaves nothing behind\<close>

abbreviation waiting :: "('q, 'r, 'm) provider_scheme \<Rightarrow> u64 set" where
  "waiting p \<equiv> dom (map_of (pt_senders (pv_pending p)))"

text \<open>What every step of a wait keeps: a table in order, no new pending requests, the same environment, and time that only advances.\<close>

definition follows :: "('q, 'r, 'm) provider_scheme \<Rightarrow> ('q, 'r, 'm) provider_scheme \<Rightarrow> bool" where
  "follows p p' \<longleftrightarrow> (pt_ok (pv_pending p) \<longrightarrow> pt_ok (pv_pending p') \<and> waiting p' \<subseteq> waiting p)
     \<and> pv_env p' = pv_env p \<and> pv_tick p \<le> pv_tick p' \<and> provider.more p' = provider.more p"

lemma follows_refl [simp]: "follows p p"
  by (simp add: follows_def)

lemma follows_trans: "follows p q \<Longrightarrow> follows q r \<Longrightarrow> follows p r"
  unfolding follows_def by (metis (no_types) order_trans)

lemma apply_event_follows: "follows p (apply_event e p)"
proof (cases e)
  case (EvFailAll x4)
  then show ?thesis
    using take_expected(5) [of "pv_pending p" x4] by (auto simp: follows_def pt_fail_all_def)
qed (auto simp: follows_def pt_ok_def [of "pv_pending p"] pt_reply_def pt_reply_error_def pt_simps(2)
    intro: take_expected(1) [unfolded pt_ok_def [of "pv_pending p"]] split: if_splits)

lemma events_follow: "follows p (fold apply_event es p)"
  by (induction es arbitrary: p) (auto intro: follows_trans apply_event_follows)

lemma observe_follows: "observe p = (obs, p') \<Longrightarrow> follows p p' \<and> pv_tick p < pv_tick p' \<and> obs = pv_env p (pv_tick p)"
  using events_follow [of "p\<lparr>pv_tick := Suc (pv_tick p)\<rparr>" "po_events (pv_env p (pv_tick p))"]
  by (auto simp: observe_def Let_def follows_def)

lemma cancel_follows:
  "follows p (p\<lparr>pv_pending := snd (pt_cancel i (pv_pending p))\<rparr>)"
  "pt_ok (pv_pending p) \<Longrightarrow> i \<notin> waiting (p\<lparr>pv_pending := snd (pt_cancel i (pv_pending p))\<rparr>)"
  using take_expected(3) [of "pv_pending p" i] by (auto simp: follows_def pt_ok_def [of "pv_pending p"] pt_simps(3) split: if_splits)

lemma recv_follows:
  assumes "pt_recv i (pv_pending p) = (r, t)"
  shows "follows p (p\<lparr>pv_pending := t\<rparr>)" and "pt_ok (pv_pending p) \<Longrightarrow> r = Received m \<Longrightarrow> i \<notin> waiting (p\<lparr>pv_pending := t\<rparr>)"
proof -
  have same: "pt_senders t = pt_senders (pv_pending p)"
    using assms by (auto simp: pt_recv_def split: option.splits)
  then show "follows p (p\<lparr>pv_pending := t\<rparr>)"
    using recv_expected(1) [OF _ assms] by (auto simp: follows_def)
  assume "pt_ok (pv_pending p)" and "r = Received m"
  then have "expected i (pv_pending p) \<le> 1" and "pt_slots (pv_pending p) i \<noteq> None"
    using assms by (auto simp: pt_ok_def pt_recv_def split: option.splits if_splits)
  then show "i \<notin> waiting (p\<lparr>pv_pending := t\<rparr>)"
    using same by (auto simp: expected_def split: if_splits)
qed

text \<open>A run that follows, and whose end leaves the request behind only when it ran out of fuel.\<close>

definition settles :: "u64 \<Rightarrow> (('q, 'r, 'm) provider_scheme, 'a option) op \<Rightarrow> bool" where
  "settles i m \<longleftrightarrow> (\<forall>p b r p' b'. m (p, b) = (r, (p', b')) \<longrightarrow> follows p p' \<and> (pt_ok (pv_pending p) \<longrightarrow> r \<noteq> Inr None \<longrightarrow> i \<notin> waiting p'))"

definition steps :: "(('q, 'r, 'm) provider_scheme, 'a) op \<Rightarrow> bool" where
  "steps m \<longleftrightarrow> (\<forall>p b r p' b'. m (p, b) = (r, (p', b')) \<longrightarrow> follows p p')"

lemma steps_on_budget: "steps (on_budget m)"
  by (auto simp: steps_def on_budget_def split: prod.splits)

lemma steps_sattempt: "steps m \<Longrightarrow> steps (sattempt m)"
  by (auto simp: steps_def sattempt_def split: prod.splits)

lemma steps_observe: "steps (on_provider observe)"
  by (auto simp: steps_def on_provider_def dest: observe_follows split: prod.splits)

lemma steps_ensure_alive: "steps (ensure_alive e)"
  by (auto simp: steps_def ensure_alive_def on_provider_def sbind_def sreturn_def sraise_def split: prod.splits if_splits)

lemma settles_withdraw: "settles i (withdraw i e)"
  using cancel_follows by (fastforce simp: settles_def withdraw_def cancel_request_def on_provider_def sbind_def sraise_def)

lemma settles_sbind:
  assumes "steps m" and "\<And>v. settles i (k v)" and "\<And>p b e p' b'. m (p, b) = (Inl e, (p', b')) \<Longrightarrow> False"
  shows "settles i (sbind m k)"
  unfolding settles_def
proof (intro allI impI)
  fix p b r p' b'
  assume run: "sbind m k (p, b) = (r, (p', b'))"
  obtain v p1 b1 where m: "m (p, b) = (Inr v, (p1, b1))"
    using assms(3) by (cases "m (p, b)") (metis obj_sumE prod.collapse)
  with run have k: "k v (p1, b1) = (r, (p', b'))" by (simp add: sbind_def)
  from assms(1) m have f: "follows p p1" unfolding steps_def by blast
  from assms(2) [of v] k have "follows p1 p'" "pt_ok (pv_pending p1) \<longrightarrow> r \<noteq> Inr None \<longrightarrow> i \<notin> waiting p'"
    unfolding settles_def by blast+
  with f show "follows p p' \<and> (pt_ok (pv_pending p) \<longrightarrow> r \<noteq> Inr None \<longrightarrow> i \<notin> waiting p')"
    by (auto intro: follows_trans) (auto simp: follows_def)
qed

lemma attempted: "sattempt m s = (Inl e, s') \<Longrightarrow> False"
  by (auto simp: sattempt_def split: prod.splits)

lemma looked: "on_provider f s = (Inl e, s') \<Longrightarrow> False"
  by (auto simp: on_provider_def split: prod.splits)

lemmas settle_step = settles_sbind [OF steps_sattempt [OF steps_on_budget] _ attempted] settles_sbind [OF steps_observe _ looked]

lemma late_run:
  "sbind (cancel_request i) (\<lambda>_. sbind (on_budget (\<lambda>b. (Inr (b_deadline b), b))) (\<lambda>d.
     if q d then sbind (on_budget check) (\<lambda>_. sraise timeout_error) else sraise late)) (p, b) = (r, (p', b'))
    \<Longrightarrow> p' = p\<lparr>pv_pending := snd (pt_cancel i (pv_pending p))\<rparr>"
  by (auto simp: cancel_request_def on_provider_def on_budget_def sbind_def sraise_def split: prod.splits sum.splits if_splits)

lemma settles_late:
  "settles i (sbind (cancel_request i) (\<lambda>_. sbind (on_budget (\<lambda>b. (Inr (b_deadline b), b))) (\<lambda>d.
     if q d then sbind (on_budget check) (\<lambda>_. sraise timeout_error) else sraise late)))"
  unfolding settles_def using late_run cancel_follows by blast

lemma settles_after:
  assumes "settles i m" and "follows p q" and "m (q, b) = (r, (p', b'))"
  shows "follows p p' \<and> (pt_ok (pv_pending p) \<longrightarrow> r \<noteq> Inr None \<longrightarrow> i \<notin> waiting p')"
proof -
  from assms(1,3) have "follows q p'" "pt_ok (pv_pending q) \<longrightarrow> r \<noteq> Inr None \<longrightarrow> i \<notin> waiting p'"
    unfolding settles_def by blast+
  moreover have "pt_ok (pv_pending p) \<longrightarrow> pt_ok (pv_pending q)"
    using assms(2) unfolding follows_def by blast
  ultimately show ?thesis using follows_trans [OF assms(2)] by blast
qed

lemma settles_recv:
  assumes "settles i again"
  shows "settles i (sbind (on_provider (\<lambda>p. case pt_recv i (pv_pending p) of (r, t) \<Rightarrow> (r, p\<lparr>pv_pending := t\<rparr>))) (\<lambda>r.
     case r of
       Received (Inr payload) \<Rightarrow> sreturn (Some payload)
     | Received (Inl e) \<Rightarrow> sraise e
     | SliceExpired \<Rightarrow> again
     | Disconnected \<Rightarrow> withdraw i down))"
  unfolding settles_def
proof (intro allI impI)
  fix p b r p' b'
  assume run: "sbind (on_provider (\<lambda>p. case pt_recv i (pv_pending p) of (r, t) \<Rightarrow> (r, p\<lparr>pv_pending := t\<rparr>))) (\<lambda>r.
     case r of Received (Inr payload) \<Rightarrow> sreturn (Some payload) | Received (Inl e) \<Rightarrow> sraise e | SliceExpired \<Rightarrow> again
     | Disconnected \<Rightarrow> withdraw i down) (p, b) = (r, (p', b'))"
  obtain x t where recv: "pt_recv i (pv_pending p) = (x, t)" by force
  let ?p = "p\<lparr>pv_pending := t\<rparr>"
  note f = recv_follows [OF recv]
  show "follows p p' \<and> (pt_ok (pv_pending p) \<longrightarrow> r \<noteq> Inr None \<longrightarrow> i \<notin> waiting p')"
  proof (cases x)
    case (Received m)
    with run recv have "p' = ?p"
      by (auto simp: sbind_def on_provider_def sreturn_def sraise_def split: sum.splits)
    with f Received show ?thesis by simp
  next
    case SliceExpired
    with run recv have "again (?p, b) = (r, (p', b'))" by (simp add: sbind_def on_provider_def)
    from settles_after [OF assms f(1) this] show ?thesis .
  next
    case Disconnected
    with run recv have "withdraw i down (?p, b) = (r, (p', b'))" by (simp add: sbind_def on_provider_def)
    from settles_after [OF settles_withdraw f(1) this] show ?thesis .
  qed
qed

lemma await_settles: "settles i (await_reply down late deadline i fuel)"
proof (induction fuel)
  case 0
  then show ?case by (simp add: settles_def sreturn_def)
next
  case (Suc fuel)
  show ?case
    unfolding await_reply.simps
    by (intro settle_step(1)) (auto intro!: settle_step(2) settles_withdraw settles_late settles_recv [OF Suc] split: sum.split)
qed

text \<open>The clock passes the deadline, so the wait ends.\<close>

lemma await_ends:
  assumes "\<forall>n \<ge> N. deadline \<le> po_now (pv_env p n)" and "N \<le> pv_tick p + fuel"
    and "await_reply down late deadline i (Suc fuel) (p, b) = (r, s)"
  shows "r \<noteq> Inr None"
  using assms
proof (induction fuel arbitrary: p b)
  case 0
  obtain c b1 where c: "check b = (c, b1)" by force
  obtain obs p1 where o: "observe p = (obs, p1)" by force
  have "deadline \<le> po_now obs" using observe_follows [OF o] 0 by auto
  with 0(3) c o show ?case
    by (auto simp: sbind_def sattempt_def on_budget_def on_provider_def withdraw_def cancel_request_def sraise_def
        split: sum.splits prod.splits if_splits)
next
  case (Suc fuel)
  obtain c b1 where c: "check b = (c, b1)" by force
  obtain obs p1 where o: "observe p = (obs, p1)" by force
  obtain obs2 p2 where o2: "observe p1 = (obs2, p2)" by force
  obtain x t where recv: "pt_recv i (pv_pending p2) = (x, t)" by force
  have env: "pv_env p2 = pv_env p" "pv_tick p < pv_tick p2"
    using observe_follows [OF o] observe_follows [OF o2] by (auto simp: follows_def)
  have again: "r \<noteq> Inr None" if "await_reply down late deadline i (Suc fuel) (p2\<lparr>pv_pending := t\<rparr>, b1) = (r, s)"
    using Suc.IH [OF _ _ that] Suc.prems(1,2) env by simp
  show ?case
    using Suc.prems(3) c o o2 recv again
    by (subst (asm) await_reply.simps)
      (auto simp: sbind_def sattempt_def on_budget_def on_provider_def withdraw_def cancel_request_def sraise_def sreturn_def
        simp del: await_reply.simps split: sum.splits prod.splits if_splits received.splits)
qed

lemma submit_settles: "settles i (submit_request down late deadline request fuel i)"
proof -
  have log: "steps (on_provider (\<lambda>p. ((), p\<lparr>pv_requests := pv_requests p @ [x]\<rparr>)))" for x
    by (auto simp: steps_def on_provider_def follows_def)
  have budget: "steps budget_of_run" "\<And>s e s'. budget_of_run s = (Inl e, s') \<Longrightarrow> False"
    by (auto simp: steps_def budget_of_run_def)
  show ?thesis
    unfolding submit_request_def
    by (intro settle_step(2) settles_sbind [OF steps_sattempt [OF steps_ensure_alive] _ attempted])
      (auto intro!: settles_withdraw settle_step(2) settles_sbind [OF budget(1) _ budget(2)] settles_sbind [OF log _ looked] await_settles
        split: sum.split)
qed

lemma submit_ends:
  assumes "\<forall>n \<ge> N. deadline \<le> po_now (pv_env p n)" and "N \<le> pv_tick p + fuel"
    and "submit_request down late deadline request (Suc fuel) i (p, b) = (r, s)"
  shows "r \<noteq> Inr None"
proof -
  obtain obs p1 where o: "observe p = (obs, p1)" by force
  obtain obs2 p2 where o2: "observe p1 = (obs2, p2)" by force
  have env: "pv_env p2 = pv_env p" "pv_tick p \<le> pv_tick p2"
    using observe_follows [OF o] observe_follows [OF o2] by (auto simp: follows_def)
  have again: "r \<noteq> Inr None" if "await_reply down late deadline i (Suc fuel) (p2\<lparr>pv_requests := q\<rparr>, b) = (r, s)" for q
    using await_ends [OF _ _ that] assms(1,2) env by simp
  show ?thesis
    using assms(3) o o2 again
    by (auto simp: submit_request_def sbind_def sattempt_def ensure_alive_def budget_of_run_def on_provider_def withdraw_def
        cancel_request_def sraise_def sreturn_def simp del: await_reply.simps split: sum.splits prod.splits if_splits)
qed

lemma send_and_wait_runs:
  assumes "send_and_wait down late timeout request fuel (p, b) = (r, (p', b'))"
  shows "provider.more p' = provider.more p"
    and "pt_ok (pv_pending p) \<Longrightarrow> pt_ok (pv_pending p') \<and> (r \<noteq> Inr None \<longrightarrow> waiting p' \<subseteq> waiting p)"
    and "\<forall>n \<ge> N. po_now (pv_env p (pv_tick p)) + timeout \<le> po_now (pv_env p n) \<Longrightarrow> N < fuel \<Longrightarrow> r \<noteq> Inr None"
proof -
  obtain c b1 where c: "charge_provider_request b = (c, b1)" by force
  obtain obs p1 where o: "observe p = (obs, p1)" by force
  note f = observe_follows [OF o]
  let ?i = "pv_next_id p1"
  let ?d = "case b_deadline b1 of None \<Rightarrow> po_now obs + timeout | Some d \<Rightarrow> min (po_now obs + timeout) d"
  let ?p = "p1\<lparr>pv_next_id := ?i + 1, pv_pending := pt_insert ?i (pv_pending p1)\<rparr>"
  have run: "(\<exists>e. c = Inl e \<and> p' = p \<and> r = Inl e) \<or> submit_request down late ?d request fuel ?i (?p, b1) = (r, (p', b'))"
    using assms c o by (cases c) (auto simp: send_and_wait_def sbind_def on_budget_def on_provider_def Let_def)
  have sub: "follows ?p p' \<and> (pt_ok (pv_pending ?p) \<longrightarrow> r \<noteq> Inr None \<longrightarrow> ?i \<notin> waiting p')"
    if "submit_request down late ?d request fuel ?i (?p, b1) = (r, (p', b'))"
    using submit_settles that unfolding settles_def by blast
  show "provider.more p' = provider.more p"
    using run sub f by (auto simp: follows_def)
  show "pt_ok (pv_pending p') \<and> (r \<noteq> Inr None \<longrightarrow> waiting p' \<subseteq> waiting p)" if ok: "pt_ok (pv_pending p)"
  proof -
    have ok1: "pt_ok (pv_pending p1)" "waiting p1 \<subseteq> waiting p" using f ok by (auto simp: follows_def)
    then have ok2: "pt_ok (pv_pending ?p)" "waiting ?p = insert ?i (waiting p1)"
      using insert_expected(1) [OF ok1(1), of ?i] pt_simps(1) [of "pv_pending p1" ?i] by (auto simp: pt_ok_def)
    show ?thesis using run
    proof
      assume "submit_request down late ?d request fuel ?i (?p, b1) = (r, (p', b'))"
      from sub [OF this] ok2 have "pt_ok (pv_pending p')" "waiting p' \<subseteq> insert ?i (waiting p1)" "r \<noteq> Inr None \<longrightarrow> ?i \<notin> waiting p'"
        unfolding follows_def by blast+
      with ok1(2) show ?thesis by blast
    qed (use ok in auto)
  qed
  show "r \<noteq> Inr None" if late: "\<forall>n \<ge> N. po_now (pv_env p (pv_tick p)) + timeout \<le> po_now (pv_env p n)" and en: "N < fuel"
    using run
  proof
    assume sub: "submit_request down late ?d request fuel ?i (?p, b1) = (r, (p', b'))"
    obtain fuel' where fuel: "fuel = Suc fuel'" using en by (cases fuel) auto
    have "\<forall>n \<ge> N. ?d \<le> po_now (pv_env ?p n)"
      using late f by (auto simp: follows_def min_def split: option.split)
    from submit_ends [OF this _ sub [unfolded fuel]] en fuel show ?thesis by simp
  qed auto
qed

text \<open>
  C10. Every request ends and leaves nothing behind: whatever the host does, once the clock passes the request's deadline a wait has
  returned a reply or an error, and no request of it is left in the table of pending requests.
\<close>

theorem request_ends:
  assumes "pt_ok (pv_pending p)" and "\<forall>n \<ge> N. po_now (pv_env p (pv_tick p)) + timeout \<le> po_now (pv_env p n)" and "N < fuel"
    and "send_and_wait down late timeout request fuel (p, b) = (r, (p', b'))"
  shows "r \<noteq> Inr None \<and> pt_ok (pv_pending p') \<and> waiting p' \<subseteq> waiting p"
  using send_and_wait_runs(2) [OF assms(4,1)] send_and_wait_runs(3) [OF assms(4,2,3)] by blast

section \<open>A provider that never answers\<close>

definition silent_obs :: "nat \<Rightarrow> unit provider_obs" where
  "silent_obs n = \<lparr>po_now = (if n = 0 then 0 else 10), po_events = [], po_sent = Inr ()\<rparr>"

definition silent_provider :: "(unit, unit) provider" where
  "silent_provider = \<lparr>pv_pending = pt_default, pv_next_id = 1, pv_alive = True, pv_requests = [], pv_env = silent_obs, pv_tick = 0\<rparr>"

lemma pt_default_ok: "pt_ok pt_default"
  by (simp add: pt_ok_def pt_default_def expected_def)

theorem one_reply_per_request_witness:
  "length (filter (\<lambda>m. fst m = 1) (fst (table_run [TSend True 1 (Inr ()), TFailAll timeout_error, TRecv 1, TRecv 1] (pt_insert 1 pt_default)))) \<le> 1
    \<and> filter (\<lambda>m. fst m = 1) (fst (table_run [TSend True 1 (Inr ()), TRecv 1] (snd (pt_cancel 1 pt_default)))) = []"
  using one_reply_per_request [OF pt_default_ok, of 1 "[TSend True 1 (Inr ()), TFailAll timeout_error, TRecv 1, TRecv 1]"]
    one_reply_per_request [OF pt_default_ok, of 1 "[TSend True 1 (Inr ()), TRecv 1]"]
  by (simp add: pt_default_def)

theorem request_ends_witness:
  "\<exists>r p' b'. send_and_wait timeout_error cancelled_error 5 (\<lambda>_ _ _. ()) 2 (silent_provider, budget_unlimited idle) = (r, (p', b'))
    \<and> r \<noteq> Inr None \<and> waiting p' \<subseteq> waiting silent_provider"
proof -
  obtain r p' b' where run: "send_and_wait timeout_error cancelled_error 5 (\<lambda>_ _ _. ()) 2 (silent_provider, budget_unlimited idle) = (r, (p', b'))"
    by (metis prod.collapse)
  have "r \<noteq> Inr None \<and> pt_ok (pv_pending p') \<and> waiting p' \<subseteq> waiting silent_provider"
    by (rule request_ends [OF _ _ _ run, of 1]) (auto simp: silent_provider_def silent_obs_def pt_default_ok)
  with run show ?thesis by blast
qed

end
