(* ===== verification/Resident.thy ===== *)
theory Resident
  imports Lru
begin

text \<open>
  What is resident in a recency cache: a property of its entries that lookups, insertions of entries with the property, removals and clearing keep.
  The provider store keeps verified objects this way, and the search its scans.
\<close>

definition resident :: "('k \<Rightarrow> 'v \<Rightarrow> bool) \<Rightarrow> ('k, 'v) lru \<Rightarrow> bool" where
  "resident P l \<longleftrightarrow> (\<exists>xs. lru_repr l xs \<and> (\<forall>(k, v, w) \<in> set xs. P k v))"

lemma resident_get: "resident P l \<Longrightarrow> \<exists>r l'. lru_get k l = Some (r, l') \<and> resident P l' \<and> (\<forall>v. r = Some v \<longrightarrow> P k v)"
  unfolding resident_def by (elim exE conjE) (drule (1) slab.get_keeps [where k = k], blast)

lemma resident_insert: "resident P l \<Longrightarrow> P k v \<Longrightarrow> \<exists>n l'. insert_counting_evictions k v w l = Some (n, l') \<and> resident P l'"
  unfolding resident_def by (elim exE conjE) (drule (2) slab.insert_keeps [where w = w], blast)

lemma resident_remove: "resident (\<lambda>_ _. True) l \<Longrightarrow> \<exists>r l'. lru_remove k l = Some (r, l') \<and> resident (\<lambda>_ _. True) l'"
  unfolding resident_def using lru_remove_refines by fastforce

lemma resident_clear: "resident (\<lambda>_ _. True) l \<Longrightarrow> resident (\<lambda>_ _. True) (lru_clear l)"
  unfolding resident_def using lru_clear_repr by fastforce

lemma resident_new: "cap < - 1 \<Longrightarrow> resident P (lru_new cap)"
  unfolding resident_def using lru_new_repr by fastforce

end
