(* ===== verification/Provider.thy ===== *)
theory Provider
  imports Layered Resident Rendezvous
begin

text \<open>
  The callback-backed object store (\<open>provider_odb.rs\<close>): requests to an untrusted host, validation and verification of its replies, and the
  bounded caches of objects, headers and absences. Every object that the store hands out was verified against its name.
\<close>

section \<open>Data\<close>

definition PROVIDER_HEADER_SIZE_CEILING :: u64 where "PROVIDER_HEADER_SIZE_CEILING = push_bit 40 1"
definition DEFAULT_NEGATIVE_ENTRIES :: u64 where "DEFAULT_NEGATIVE_ENTRIES = 4096"

datatype provider_kind = PkHeader | PkObject | PkPrefetch

datatype provider_value = PvNotFound | PvHeader object_header | PvObject object_kind bytes

datatype provider_payload = Results "(oid \<times> provider_value) list" | PvBackendError

record provider_request =
  rq_id :: u64
  rq_kind :: provider_kind
  rq_oids :: "oid list"
  rq_deadline :: nat
  rq_max_object_bytes :: u64
  rq_max_reply_bytes :: u64
  rq_max_result_bytes :: "u64 option"

text \<open>Durations are counted in a unit of the clock.\<close>

record provider_options =
  pr_request_timeout :: nat
  pr_object_bytes :: u64
  pr_header_entries :: u64
  pr_negative_ttl :: nat

record provider_caches =
  pc_objects :: "(oid, object_kind \<times> bytes) lru"
  pc_headers :: "(oid, header_read) lru"
  pc_negative :: "(oid, nat) lru"

definition caches_new :: "provider_options \<Rightarrow> provider_caches" where
  "caches_new opts = \<lparr>pc_objects = lru_new (pr_object_bytes opts), pc_headers = lru_new (pr_header_entries opts),
     pc_negative = lru_new DEFAULT_NEGATIVE_ENTRIES\<rparr>"

record provider_store = "(provider_request, provider_payload) provider" +
  ps_caches :: provider_caches

record provider_odb =
  pd_hash :: hash_kind
  pd_options :: provider_options

definition provider_new :: "provider_options \<Rightarrow> (nat \<Rightarrow> provider_payload provider_obs) \<Rightarrow> provider_store" where
  "provider_new opts env = \<lparr>pv_pending = pt_default, pv_next_id = 1, pv_alive = True, pv_requests = [], pv_env = env, pv_tick = 0,
     ps_caches = caches_new opts\<rparr>"

section \<open>Errors\<close>

definition provider_down :: error where "provider_down = err_retry ProviderDown ''provider process is down''"
definition provider_timeout :: error where "provider_timeout = err_retry ProviderTimeout ''provider request deadline expired''"
definition protocol_error :: "string \<Rightarrow> error" where "protocol_error = err_new ProviderProtocolError"

text \<open>Stands for a wait that has not ended within the fuel.\<close>

definition still_waiting :: error where "still_waiting = err_new InternalError ''the wait did not end within the fuel''"

section \<open>Requests\<close>

definition provider_ensure_oid :: "provider_odb \<Rightarrow> oid \<Rightarrow> error + unit" where
  "provider_ensure_oid P x =
    (if oid_kind x = pd_hash P then Inr () else Inl (err_new InvalidOid ''object ID hash does not match the provider store''))"

definition provider_request_of :: "provider_kind \<Rightarrow> oid list \<Rightarrow> read_many_budget \<Rightarrow> u64 \<Rightarrow> nat \<Rightarrow> budget \<Rightarrow> provider_request" where
  "provider_request_of kind xs rb i deadline b =
    \<lparr>rq_id = i, rq_kind = kind, rq_oids = xs, rq_deadline = deadline, rq_max_object_bytes = max_object_bytes (b_limits b),
     rq_max_reply_bytes = sat_sub (max_provider_bytes (b_limits b)) (b_provider_bytes b), rq_max_result_bytes = rm_max_total_bytes rb\<rparr>"

fun shape_ok :: "provider_kind \<Rightarrow> provider_value \<Rightarrow> bool" where
  "shape_ok PkHeader _ = True"
| "shape_ok PkObject (PvHeader _) = False"
| "shape_ok PkObject _ = True"
| "shape_ok PkPrefetch _ = False"

text \<open>The loop over the results of a reply: the decoded results and the payload bytes.\<close>

fun check_results :: "provider_kind \<Rightarrow> oid list \<Rightarrow> budget_limits \<Rightarrow> read_many_budget \<Rightarrow> (oid \<times> provider_value) list
    \<Rightarrow> (oid \<times> provider_value) list \<Rightarrow> u64 \<Rightarrow> error + (oid \<times> provider_value) list \<times> u64" where
  "check_results kind asked limits rb [] decoded reply_bytes = Inr (decoded, reply_bytes)"
| "check_results kind asked limits rb ((x, v) # rest) decoded reply_bytes =
    (if x \<notin> set asked \<or> map_of decoded x \<noteq> None then
       Inl (protocol_error ''provider reply contains an unexpected or duplicate object ID'')
     else if \<not> shape_ok kind v then Inl (protocol_error ''provider reply result has the wrong shape'')
     else (case v of
         PvObject _ data \<Rightarrow>
           let bytes = byte_len data; total = sat_add reply_bytes bytes in
           if max_object_bytes limits < bytes then
             Inl (with_limit ''max_object_bytes'' (err_new ObjectTooLarge (''provider object of '' @ show_nat (unat bytes)
               @ '' bytes exceeds max_object_bytes '' @ show_nat (unat (max_object_bytes limits)))))
           else if max_provider_bytes limits < total then
             Inl (with_limit ''max_provider_bytes'' (err_new BudgetExceeded ''max_provider_bytes exceeded''))
           else rbind (enforce_read_many_budget total rb) (\<lambda>_.
             check_results kind asked limits rb rest (decoded @ [(x, v)]) total)
       | PvHeader h \<Rightarrow>
           if PROVIDER_HEADER_SIZE_CEILING < hdr_size h then
             Inl (protocol_error ''provider header size exceeds the 2^40 sanity ceiling'')
           else check_results kind asked limits rb rest (decoded @ [(x, v)]) reply_bytes
       | PvNotFound \<Rightarrow> check_results kind asked limits rb rest (decoded @ [(x, v)]) reply_bytes))"

fun verify_results :: "hash_engine \<Rightarrow> (oid \<times> provider_value) list \<Rightarrow> error + unit" where
  "verify_results H [] = Inr ()"
| "verify_results H ((x, v) # rest) =
    rbind (case v of PvObject kind data \<Rightarrow> verify H x kind data | _ \<Rightarrow> Inr ()) (\<lambda>_. verify_results H rest)"

definition request_results :: "hash_engine \<Rightarrow> provider_odb \<Rightarrow> nat \<Rightarrow> provider_kind \<Rightarrow> oid list \<Rightarrow> read_many_budget
    \<Rightarrow> (provider_store, (oid \<times> provider_value) list) op" where
  "request_results H P fuel kind asked rb =
    sbind (send_and_wait provider_down provider_timeout (pr_request_timeout (pd_options P)) (provider_request_of kind asked rb) fuel) (\<lambda>payload.
    case payload of
      None \<Rightarrow> sraise still_waiting
    | Some PvBackendError \<Rightarrow> sraise (err_retry BackendError ''provider callback failed'')
    | Some (Results results) \<Rightarrow>
        sbind budget_of_run (\<lambda>b.
        sbind (slift (check_results kind asked (b_limits b) rb results [] 0)) (\<lambda>(decoded, reply_bytes).
        if length decoded \<noteq> card (set asked) then sraise (protocol_error ''provider reply omitted a requested object ID'')
        else
          sbind (on_budget (charge_provider_bytes reply_bytes)) (\<lambda>_.
          sbind (slift (verify_results H decoded)) (\<lambda>_. sreturn decoded)))))"

section \<open>Caches\<close>

text \<open>An operation on the caches; a broken slab is a panic.\<close>

definition on_caches :: "(provider_caches \<Rightarrow> ('a \<times> provider_caches) option) \<Rightarrow> (provider_store, 'a) op" where
  "on_caches f s =
    (case s of (p, b) \<Rightarrow>
      (case f (ps_caches p) of None \<Rightarrow> (Inl panicked, s) | Some (a, c) \<Rightarrow> (Inr a, (p\<lparr>ps_caches := c\<rparr>, b))))"

definition header_get :: "oid \<Rightarrow> provider_caches \<Rightarrow> (header_read option \<times> provider_caches) option" where
  "header_get x c = map_option (\<lambda>(r, l). (r, c\<lparr>pc_headers := l\<rparr>)) (lru_get x (pc_headers c))"

definition object_get :: "oid \<Rightarrow> provider_caches \<Rightarrow> ((object_kind \<times> bytes) option \<times> provider_caches) option" where
  "object_get x c = map_option (\<lambda>(r, l). (r, c\<lparr>pc_objects := l\<rparr>)) (lru_get x (pc_objects c))"

definition header_insert :: "oid \<Rightarrow> header_read \<Rightarrow> provider_caches \<Rightarrow> (unit \<times> provider_caches) option" where
  "header_insert x h c = map_option (\<lambda>(_, l). ((), c\<lparr>pc_headers := l\<rparr>)) (insert_counting_evictions x h 1 (pc_headers c))"

definition object_insert :: "oid \<Rightarrow> object_kind \<Rightarrow> bytes \<Rightarrow> provider_caches \<Rightarrow> (unit \<times> provider_caches) option" where
  "object_insert x kind data c =
    map_option (\<lambda>(_, l). ((), c\<lparr>pc_objects := l\<rparr>)) (insert_counting_evictions x (kind, data) (byte_len data) (pc_objects c))"

definition negative_get :: "oid \<Rightarrow> provider_caches \<Rightarrow> (nat option \<times> provider_caches) option" where
  "negative_get x c = map_option (\<lambda>(r, l). (r, c\<lparr>pc_negative := l\<rparr>)) (lru_get x (pc_negative c))"

definition negative_remove :: "oid \<Rightarrow> provider_caches \<Rightarrow> (unit \<times> provider_caches) option" where
  "negative_remove x c = map_option (\<lambda>(_, l). ((), c\<lparr>pc_negative := l\<rparr>)) (lru_remove x (pc_negative c))"

definition contains_fresh :: "provider_odb \<Rightarrow> oid \<Rightarrow> (provider_store, bool) op" where
  "contains_fresh P x =
    (if pr_negative_ttl (pd_options P) = 0 then sreturn False
     else
       sbind (on_caches (negative_get x)) (\<lambda>found.
       sbind (case found of
           None \<Rightarrow> sreturn False
         | Some inserted \<Rightarrow> sbind (on_provider observe) (\<lambda>obs. sreturn (po_now obs - inserted < pr_negative_ttl (pd_options P)))) (\<lambda>fresh.
       if fresh then sreturn True else sbind (on_caches (negative_remove x)) (\<lambda>_. sreturn False))))"

definition negative_insert :: "provider_odb \<Rightarrow> oid \<Rightarrow> (provider_store, unit) op" where
  "negative_insert P x =
    (if pr_negative_ttl (pd_options P) = 0 then sreturn ()
     else
       sbind (on_provider observe) (\<lambda>obs.
       on_caches (\<lambda>c. map_option (\<lambda>(_, l). ((), c\<lparr>pc_negative := l\<rparr>)) (insert_counting_evictions x (po_now obs) 1 (pc_negative c)))))"

definition clear_negative_cache :: "(provider_store, unit) op" where
  "clear_negative_cache = on_caches (\<lambda>c. Some ((), c\<lparr>pc_negative := lru_clear (pc_negative c)\<rparr>))"

definition provider_header :: "object_kind \<Rightarrow> bytes \<Rightarrow> header_read" where
  "provider_header kind data = \<lparr>hr_header = \<lparr>hdr_kind = kind, hdr_size = byte_len data\<rparr>, hr_provenance = Verified\<rparr>"

section \<open>Reads\<close>

definition try_header_read :: "hash_engine \<Rightarrow> provider_odb \<Rightarrow> nat \<Rightarrow> oid \<Rightarrow> (provider_store, header_read option) op" where
  "try_header_read H P fuel x =
    sbind (slift (provider_ensure_oid P x)) (\<lambda>_.
    sbind (ensure_alive provider_down) (\<lambda>_.
    sbind (on_caches (header_get x)) (\<lambda>h.
    case h of
      Some header \<Rightarrow> sbind (on_budget charge_header) (\<lambda>_. sreturn (Some header))
    | None \<Rightarrow>
        sbind (on_caches (object_get x)) (\<lambda>found.
        case found of
          Some (kind, data) \<Rightarrow> sbind (on_budget charge_header) (\<lambda>_. sreturn (Some (provider_header kind data)))
        | None \<Rightarrow>
            sbind (contains_fresh P x) (\<lambda>absent.
            if absent then sbind (on_budget check) (\<lambda>_. sreturn None)
            else
              sbind (request_results H P fuel PkHeader [x] default_read_many) (\<lambda>results.
              case map_of results x of
                None \<Rightarrow> sraise panicked
              | Some PvNotFound \<Rightarrow>
                  sbind (negative_insert P x) (\<lambda>_. sbind (on_budget check) (\<lambda>_. sreturn None))
              | Some (PvHeader header) \<Rightarrow>
                  let read = \<lparr>hr_header = header, hr_provenance = UnverifiedProvider\<rparr> in
                  sbind (on_caches (header_insert x read)) (\<lambda>_. sbind (on_budget charge_header) (\<lambda>_. sreturn (Some read)))
              | Some (PvObject kind data) \<Rightarrow>
                  sbind (on_caches (object_insert x kind data)) (\<lambda>_.
                  sbind (on_caches (header_insert x (provider_header kind data))) (\<lambda>_.
                  sbind (on_budget charge_header) (\<lambda>_. sreturn (Some (provider_header kind data)))))))))))"

text \<open>The first pass of a batch read: what the caches know, the names they miss, and the resident bytes.\<close>

fun cached_pass :: "provider_odb \<Rightarrow> read_many_budget \<Rightarrow> oid list \<Rightarrow> (oid \<times> object_read) list \<Rightarrow> oid list \<Rightarrow> u64
    \<Rightarrow> (provider_store, (oid \<times> object_read) list \<times> oid list \<times> u64) op" where
  "cached_pass P rb [] found misses held = sreturn (found, misses, held)"
| "cached_pass P rb (x # xs) found misses held =
    (if map_of found x \<noteq> None then cached_pass P rb xs found misses held
     else
       sbind (on_caches (object_get x)) (\<lambda>hit.
       case hit of
         Some value \<Rightarrow>
           let held1 = sat_add held (byte_len (snd value)) in
           sbind (slift (enforce_read_many_budget held1 rb)) (\<lambda>_.
           cached_pass P rb xs (found @ [(x, Some value)]) misses held1)
       | None \<Rightarrow>
           sbind (contains_fresh P x) (\<lambda>absent.
           if absent then cached_pass P rb xs (found @ [(x, None)]) misses held
           else cached_pass P rb xs found (misses @ [x]) held)))"

text \<open>The answers of a reply enter the caches.\<close>

fun store_results :: "provider_odb \<Rightarrow> (oid \<times> provider_value) list \<Rightarrow> oid list \<Rightarrow> (oid \<times> object_read) list
    \<Rightarrow> (provider_store, (oid \<times> object_read) list) op" where
  "store_results P results [] found = sreturn found"
| "store_results P results (x # xs) found =
    (case map_of results x of
       Some PvNotFound \<Rightarrow> sbind (negative_insert P x) (\<lambda>_. store_results P results xs ((x, None) # found))
     | Some (PvObject kind data) \<Rightarrow>
         sbind (on_caches (object_insert x kind data)) (\<lambda>_.
         sbind (on_caches (header_insert x (provider_header kind data))) (\<lambda>_.
         store_results P results xs ((x, Some (kind, data)) # found)))
     | _ \<Rightarrow> sraise panicked)"

fun charge_answers :: "oid list \<Rightarrow> (oid \<times> object_read) list \<Rightarrow> (provider_store, object_read list) op" where
  "charge_answers [] found = sreturn []"
| "charge_answers (x # xs) found =
    (case map_of found x of
       None \<Rightarrow> sraise panicked
     | Some v \<Rightarrow>
         sbind (case v of Some (_, data) \<Rightarrow> on_budget (charge_object (byte_len data)) | None \<Rightarrow> on_budget check) (\<lambda>_.
         sbind (charge_answers xs found) (\<lambda>vs. sreturn (v # vs))))"

definition try_find_many_with_budget :: "hash_engine \<Rightarrow> provider_odb \<Rightarrow> nat \<Rightarrow> oid list \<Rightarrow> read_many_budget
    \<Rightarrow> (provider_store, object_read list) op" where
  "try_find_many_with_budget H P fuel xs rb =
    sbind (ensure_alive provider_down) (\<lambda>_.
    sbind (slift (case find (\<lambda>x. oid_kind x \<noteq> pd_hash P) xs of Some x \<Rightarrow> provider_ensure_oid P x | None \<Rightarrow> Inr ())) (\<lambda>_.
    sbind (cached_pass P rb xs [] [] 0) (\<lambda>(found, misses, held).
    sbind (if misses = [] then sreturn found
           else
             let remaining = \<lparr>rm_max_total_bytes = map_option (\<lambda>maximum. sat_sub maximum held) (rm_max_total_bytes rb)\<rparr> in
             sbind (request_results H P fuel PkObject misses remaining) (\<lambda>results. store_results P results misses found)) (\<lambda>found1.
    charge_answers xs found1))))"

definition provider_try_find :: "hash_engine \<Rightarrow> provider_odb \<Rightarrow> nat \<Rightarrow> oid \<Rightarrow> (provider_store, object_read) op" where
  "provider_try_find H P fuel x =
    sbind (try_find_many_with_budget H P fuel [x] default_read_many) (\<lambda>values.
    case rev values of [] \<Rightarrow> sraise panicked | v # _ \<Rightarrow> sreturn v)"

definition provider_prefetch :: "provider_odb \<Rightarrow> oid list \<Rightarrow> (provider_store, unit) op" where
  "provider_prefetch P xs =
    (if xs = [] then sreturn ()
     else
       sbind (ensure_alive provider_down) (\<lambda>_.
       sbind (slift (case find (\<lambda>x. oid_kind x \<noteq> pd_hash P) xs of Some x \<Rightarrow> provider_ensure_oid P x | None \<Rightarrow> Inr ())) (\<lambda>_.
       sbind (on_budget charge_provider_request) (\<lambda>_.
       sbind (on_provider observe) (\<lambda>obs.
       sbind budget_of_run (\<lambda>b.
       let request_deadline = po_now obs + pr_request_timeout (pd_options P);
           deadline = (case b_deadline b of None \<Rightarrow> request_deadline | Some d \<Rightarrow> min request_deadline d) in
       sbind (on_provider (\<lambda>p. (pv_next_id p, p\<lparr>pv_next_id := pv_next_id p + 1\<rparr>))) (\<lambda>i.
       sbind (on_provider observe) (\<lambda>sent.
       sbind (on_provider (\<lambda>p. ((), p\<lparr>pv_requests := pv_requests p @
         [\<lparr>rq_id = i, rq_kind = PkPrefetch, rq_oids = xs, rq_deadline = deadline, rq_max_object_bytes = 0, rq_max_reply_bytes = 0,
           rq_max_result_bytes = None\<rparr>]\<rparr>))) (\<lambda>_.
       slift (po_sent sent))))))))))"

definition provider_refresh :: "(provider_store, unit) op" where
  "provider_refresh = sbind (on_budget check) (\<lambda>_. clear_negative_cache)"

text \<open>The store as an object database; graph reads, shallow roots and cache statistics are the defaults of the interface.\<close>

definition provider_db :: "hash_engine \<Rightarrow> provider_odb \<Rightarrow> nat \<Rightarrow> provider_store odb" where
  "provider_db H P fuel =
    \<lparr>db_hash_kind = pd_hash P, db_shallow_roots = None,
     db_try_header = (\<lambda>x. sbind (try_header_read H P fuel x) (\<lambda>r. sreturn (map_option hr_header r))),
     db_try_header_with_provenance = try_header_read H P fuel,
     db_try_find = provider_try_find H P fuel,
     db_try_find_graph = default_find_graph (provider_try_find H P fuel),
     db_try_find_many_bounded = try_find_many_with_budget H P fuel,
     db_prefetch = provider_prefetch P, db_supports_prefetch = True,
     db_cache_stats = (\<lambda>_. default_cache_stats),
     db_refresh = provider_refresh\<rparr>"

section \<open>Only verified objects\<close>

text \<open>Every resident object verifies under its name, every header recorded as verified belongs to such an object, and the slabs are in order.\<close>

definition caches_ok :: "hash_engine \<Rightarrow> provider_caches \<Rightarrow> bool" where
  "caches_ok H c \<longleftrightarrow> resident (\<lambda>x v. verified_answer H x (Some v)) (pc_objects c)
     \<and> resident (\<lambda>x h. header_admitted (verified_answer H) x (Some h)) (pc_headers c)
     \<and> resident (\<lambda>_ _. True) (pc_negative c)"

abbreviation provider_ok :: "hash_engine \<Rightarrow> provider_store \<Rightarrow> bool" where
  "provider_ok H p \<equiv> caches_ok H (ps_caches p)"

lemma provider_new_ok:
  assumes "pr_object_bytes opts < - 1" and "pr_header_entries opts < - 1"
  shows "provider_ok H (provider_new opts env)"
  using assms by (auto simp: provider_new_def caches_new_def caches_ok_def DEFAULT_NEGATIVE_ENTRIES_def intro!: resident_new)

lemma provider_header_admitted: "verified_answer H x (Some (kind, data)) \<Longrightarrow> header_admitted (verified_answer H) x (Some (provider_header kind data))"
  by (auto simp: header_admitted_def provider_header_def)

text \<open>The rules of the judgement for a provider.\<close>

named_theorems provider_rules "what the steps of a provider answer"

lemma answers_on_caches:
  assumes "\<And>c. caches_ok H c \<Longrightarrow> \<exists>a c'. f c = Some (a, c') \<and> caches_ok H c' \<and> Q a"
  shows "answers (provider_ok H) Q (on_caches f)"
  using assms by (fastforce simp: answers_def on_caches_def)

lemma answers_object_get [provider_rules]:
  "answers (provider_ok H) (\<lambda>r. \<forall>v. r = Some v \<longrightarrow> verified_answer H x (Some v)) (on_caches (object_get x))"
  by (rule answers_on_caches)
     (use resident_get [of "\<lambda>x v. verified_answer H x (Some v)" _ x] in \<open>fastforce simp: object_get_def caches_ok_def\<close>)

lemma answers_header_get [provider_rules]:
  "answers (provider_ok H) (\<lambda>r. \<forall>h. r = Some h \<longrightarrow> header_admitted (verified_answer H) x (Some h)) (on_caches (header_get x))"
  by (rule answers_on_caches)
     (use resident_get [of "\<lambda>x h. header_admitted (verified_answer H) x (Some h)" _ x] in \<open>fastforce simp: header_get_def caches_ok_def\<close>)

lemma answers_object_insert [provider_rules]:
  "verified_answer H x (Some (kind, data)) \<Longrightarrow> answers (provider_ok H) (\<lambda>_. True) (on_caches (object_insert x kind data))"
  by (rule answers_on_caches)
     (use resident_insert [of "\<lambda>x v. verified_answer H x (Some v)" _ x "(kind, data)" "byte_len data"] in
       \<open>fastforce simp: object_insert_def caches_ok_def\<close>)

lemma answers_header_insert [provider_rules]:
  "header_admitted (verified_answer H) x (Some h) \<Longrightarrow> answers (provider_ok H) (\<lambda>_. True) (on_caches (header_insert x h))"
  by (rule answers_on_caches)
     (use resident_insert [of "\<lambda>x h. header_admitted (verified_answer H) x (Some h)" _ x h 1] in
       \<open>fastforce simp: header_insert_def caches_ok_def\<close>)

lemma answers_negative_get [provider_rules]: "answers (provider_ok H) (\<lambda>_. True) (on_caches (negative_get x))"
  by (rule answers_on_caches)
     (use resident_get [of "\<lambda>_ _. True" _ x] in \<open>fastforce simp: negative_get_def caches_ok_def\<close>)

lemma answers_negative_remove [provider_rules]: "answers (provider_ok H) (\<lambda>_. True) (on_caches (negative_remove x))"
  by (rule answers_on_caches)
     (use resident_remove [of _ x] in \<open>fastforce simp: negative_remove_def caches_ok_def\<close>)

lemma answers_on_provider:
  assumes "\<And>p a p'. f p = (a, p') \<Longrightarrow> provider.more p' = provider.more p"
  shows "answers (provider_ok H) (\<lambda>_. True) (on_provider f)"
proof (rule answersI)
  fix w :: provider_store and b r w' b'
  assume "provider_ok H w" and "on_provider f (w, b) = (r, (w', b'))"
  moreover have "ps_caches w' = ps_caches w" if "provider.more w' = provider.more w"
    using that by (cases w; cases w') simp
  ultimately show "provider_ok H w'"
    using assms by (auto simp: on_provider_def split: prod.splits)
qed simp

lemma answers_observe [provider_rules]: "answers (provider_ok H) (\<lambda>_. True) (on_provider observe)"
  by (rule answers_on_provider) (simp add: observe_follows [unfolded follows_def])

lemma answers_ensure_alive [provider_rules]: "answers (provider_ok H) (\<lambda>_. True) (ensure_alive e)"
  unfolding ensure_alive_def
  by (rule answers_sbind [OF answers_on_provider]) (auto intro: answers_rules)

lemma answers_send_and_wait [provider_rules]:
  "answers (provider_ok H) (\<lambda>_. True) (send_and_wait down late timeout request fuel)"
proof (rule answersI)
  fix w :: provider_store and b r w' b'
  assume "provider_ok H w" and "send_and_wait down late timeout request fuel (w, b) = (r, (w', b'))"
  moreover have "ps_caches w' = ps_caches w" if "provider.more w' = provider.more w"
    using that by (cases w; cases w') simp
  ultimately show "provider_ok H w'" using send_and_wait_runs(1) by metis
qed simp

text \<open>A decoded reply has only values of the requested shape, and its objects verify.\<close>

definition reply_ok :: "hash_engine \<Rightarrow> provider_kind \<Rightarrow> (oid \<times> provider_value) list \<Rightarrow> bool" where
  "reply_ok H kind rs \<longleftrightarrow> (\<forall>(x, v) \<in> set rs. shape_ok kind v \<and> (\<forall>k data. v = PvObject k data \<longrightarrow> verified_answer H x (Some (k, data))))"

lemma check_results_shape:
  "check_results kind asked limits rb rs decoded n = Inr (ds, m) \<Longrightarrow> \<forall>(x, v) \<in> set decoded. shape_ok kind v \<Longrightarrow> \<forall>(x, v) \<in> set ds. shape_ok kind v"
  by (induction kind asked limits rb rs decoded n rule: check_results.induct)
     (auto simp: Let_def rbind_Inr_iff split: if_splits provider_value.splits)

lemma verify_results_Inr: "verify_results H rs = Inr () \<Longrightarrow> (x, PvObject k data) \<in> set rs \<Longrightarrow> verified_answer H x (Some (k, data))"
  by (induction H rs rule: verify_results.induct) (auto simp: verified_answer_def rbind_Inr_iff)

lemma answers_request_results [provider_rules]: "answers (provider_ok H) (reply_ok H kind) (request_results H P fuel kind asked rb)"
proof -
  have checked: "reply_ok H kind ds"
    if "check_results kind asked limits rb rs [] 0 = Inr (ds, m)" and "verify_results H ds = Inr ()" for limits rs ds m
    using check_results_shape [OF that(1)] verify_results_Inr [OF that(2)] by (auto simp: reply_ok_def)
  have rest: "answers (provider_ok H) (reply_ok H kind)
      (if length ds \<noteq> card (set asked) then sraise (protocol_error ''provider reply omitted a requested object ID'')
       else sbind (on_budget (charge_provider_bytes m)) (\<lambda>_. sbind (slift (verify_results H ds)) (\<lambda>_. sreturn ds)))"
    if "check_results kind asked limits rb rs [] 0 = Inr (ds, m)" for limits rs ds m
    using checked [OF that]
    by (auto intro!: answers_sraise answers_sbind [OF answers_on_budget [where P = "\<lambda>_. True"]]
        answers_sbind [OF answers_slift [where P = "\<lambda>_. verify_results H ds = Inr ()"]] answers_sreturn)
  show ?thesis
    unfolding request_results_def
    apply (rule answers_sbind [OF answers_send_and_wait])
    apply (auto intro!: answers_sraise answers_sbind [OF answers_budget_of_run] split: option.split provider_payload.split)
    apply (rule answers_sbind [OF answers_slift [where P = "\<lambda>r. check_results kind asked (b_limits b) rb rs [] 0 = Inr r" for b rs]])
     apply (auto intro: rest)
    done
qed

lemma answers_contains_fresh [provider_rules]: "answers (provider_ok H) (\<lambda>_. True) (contains_fresh P x)"
  unfolding contains_fresh_def
  by (auto intro!: answers_sreturn answers_sbind [OF answers_negative_get] answers_sbind [where Q = "\<lambda>_. True"] provider_rules split: option.split)

lemma answers_negative_insert [provider_rules]: "answers (provider_ok H) (\<lambda>_. True) (negative_insert P x)"
proof -
  have "answers (provider_ok H) (\<lambda>_. True)
      (on_caches (\<lambda>c. map_option (\<lambda>(_, l). ((), c\<lparr>pc_negative := l\<rparr>)) (insert_counting_evictions x now 1 (pc_negative c))))" for now
    by (rule answers_on_caches)
       (use resident_insert [of "\<lambda>_ _. True" _ x now 1] in \<open>fastforce simp: caches_ok_def\<close>)
  then show ?thesis
    unfolding negative_insert_def by (auto intro!: answers_sreturn answers_sbind [OF answers_observe])
qed

lemma answers_clear_negative [provider_rules]: "answers (provider_ok H) (\<lambda>_. True) clear_negative_cache"
  unfolding clear_negative_cache_def by (rule answers_on_caches) (simp add: caches_ok_def resident_clear)

lemma reply_ok_object: "reply_ok H kind rs \<Longrightarrow> map_of rs x = Some (PvObject k data) \<Longrightarrow> verified_answer H x (Some (k, data))"
  by (drule map_of_SomeD) (auto simp: reply_ok_def)

lemma verified_absent [simp]: "verified_answer H x None" "header_admitted (verified_answer H) x None"
  by (simp_all add: verified_answer_def header_admitted_def)

lemma unverified_header_admitted [simp]: "header_admitted a x (Some \<lparr>hr_header = h, hr_provenance = UnverifiedProvider\<rparr>)"
  by (simp add: header_admitted_def)

lemmas answers_steps = answers_sraise answers_sreturn answers_sbind [OF answers_on_budget [where P = "\<lambda>_. True"]]
  answers_sbind [OF answers_slift [where P = "\<lambda>_. True"]] answers_sbind [OF answers_ensure_alive]
  answers_sbind [OF answers_object_get] answers_sbind [OF answers_header_get] answers_sbind [OF answers_contains_fresh]
  answers_sbind [OF answers_request_results] answers_sbind [OF answers_negative_insert]
  answers_sbind [OF answers_object_insert] answers_sbind [OF answers_header_insert]

lemma answers_header_read [provider_rules]:
  "answers (provider_ok H) (header_admitted (verified_answer H) x) (try_header_read H P fuel x)"
  unfolding try_header_read_def Let_def
  by (auto intro!: answers_steps provider_header_admitted split: option.split provider_value.split)
     (blast intro: reply_ok_object)+

abbreviation known_ok :: "hash_engine \<Rightarrow> (oid \<times> object_read) list \<Rightarrow> bool" where
  "known_ok H found \<equiv> \<forall>(x, v) \<in> set found. verified_answer H x v"

lemma answers_cached_pass:
  "known_ok H found \<Longrightarrow> answers (provider_ok H) (\<lambda>(found, misses, n). known_ok H found) (cached_pass P rb xs found misses n)"
proof (induction P rb xs found misses n rule: cached_pass.induct)
  case (2 P rb x xs found misses n)
  show ?case
    using "2.IH" "2.prems" by (auto simp: Let_def intro!: answers_steps split: option.split)
qed (simp add: answers_sreturn)

lemma answers_store_results:
  "reply_ok H kind rs \<Longrightarrow> known_ok H found \<Longrightarrow> answers (provider_ok H) (known_ok H) (store_results P rs xs found)"
proof (induction P rs xs found rule: store_results.induct)
  case (2 P rs x xs found)
  show ?case
    using "2.IH" "2.prems"
    by (auto intro!: answers_steps provider_header_admitted dest: reply_ok_object split: option.split provider_value.split)
qed (simp add: answers_sreturn)

lemma answers_charge_answers: "known_ok H found \<Longrightarrow> answers I (list_all2 (verified_answer H) xs) (charge_answers xs found)"
proof (induction xs found rule: charge_answers.induct)
  case (2 x xs found)
  show ?case
    using "2.prems"
    by (auto intro!: answers_sraise answers_sbind [OF answers_on_budget [where P = "\<lambda>_. True"]] answers_sbind [OF "2.IH"] answers_sreturn
        dest: map_of_SomeD split: option.split)
qed (simp add: answers_sreturn)

lemma answers_find_many [provider_rules]:
  "answers (provider_ok H) (list_all2 (verified_answer H) xs) (try_find_many_with_budget H P fuel xs rb)"
  unfolding try_find_many_with_budget_def Let_def
  by (auto intro!: answers_steps answers_sbind [OF answers_cached_pass] answers_sbind [where Q = "known_ok H"]
      answers_store_results answers_charge_answers)

lemma answers_provider_find [provider_rules]: "answers (provider_ok H) (verified_answer H x) (provider_try_find H P fuel x)"
  unfolding provider_try_find_def
  by (rule answers_sbind [OF answers_find_many])
     (auto intro!: answers_sraise answers_sreturn simp: list_all2_Cons1 split: list.split)

lemma answers_provider_prefetch: "answers (provider_ok H) (\<lambda>_. True) (provider_prefetch P xs)"
  unfolding provider_prefetch_def Let_def
  by (auto intro!: answers_steps answers_sbind [OF answers_observe] answers_sbind [OF answers_budget_of_run]
      answers_sbind [OF answers_on_provider] answers_slift)

interpretation provider: verified_store "provider_db H P fuel" "provider_ok H" "verified_answer H" H for H P fuel
proof unfold_locales
  fix x xs rb v
  show "answers (provider_ok H) (verified_answer H x) (db_try_find_graph (provider_db H P fuel) x)"
    using default_find_graph_answers [of "provider_ok H" "verified_answer H" x "provider_try_find H P fuel", OF answers_provider_find] by (simp add: provider_db_def)
  show "answers (provider_ok H) (\<lambda>_. True) (db_refresh (provider_db H P fuel))"
    by (auto simp: provider_db_def provider_refresh_def intro!: answers_steps provider_rules)
qed (simp_all add: provider_db_def answers_provider_find answers_find_many answers_header_read answers_provider_prefetch)

text \<open>
  C6. An untrusted provider cannot serve a wrong object: whatever the host replies, and in every state that calls bring a new provider store into,
  each object that a single, graph or batch read returns verifies under the name asked for, each batch answers every position, and each header
  reported as verified is that of an object that verifies.
\<close>

theorem provider_serves_only_verified:
  assumes "pr_object_bytes (pd_options P) < - 1" and "pr_header_entries (pd_options P) < - 1"
    and "served (provider_db H P fuel) (provider_new (pd_options P) env) p"
  shows "(db_try_find (provider_db H P fuel) x (p, b) = (Inr v, s) \<longrightarrow> verified_answer H x v)
    \<and> (db_try_find_graph (provider_db H P fuel) x (p, b) = (Inr v, s) \<longrightarrow> verified_answer H x v)
    \<and> (db_try_find_many_bounded (provider_db H P fuel) xs rb (p, b) = (Inr vs, s) \<longrightarrow> list_all2 (verified_answer H) xs vs)
    \<and> (db_try_header_with_provenance (provider_db H P fuel) x (p, b) = (Inr (Some h), s) \<and> hr_provenance h = Verified \<longrightarrow>
         (\<exists>payload. verify H x (hdr_kind (hr_header h)) payload = Inr () \<and> hdr_size (hr_header h) = byte_len payload))"
proof -
  have ok: "provider_ok H (fst (p, b))"
    using provider.served_keeps [OF assms(3) provider_new_ok [OF assms(1,2)]] by simp
  note reads = answersD [OF provider.find_law ok] answersD [OF provider.find_graph_law ok] answersD [OF provider.find_many_law ok]
  have "\<exists>payload. verify H x (hdr_kind (hr_header h)) payload = Inr () \<and> hdr_size (hr_header h) = byte_len payload"
    if "db_try_header_with_provenance (provider_db H P fuel) x (p, b) = (Inr (Some h), s)" and "hr_provenance h = Verified"
    using answersD [OF provider.header_law ok that(1)] that(2) by (auto simp: header_admitted_def verified_answer_def)
  then show ?thesis using reads by blast
qed

section \<open>A provider that answers\<close>

text \<open>It replies to its first request, with the object \<open>data\<close> under the name \<open>toy_blob\<close>.\<close>

definition replying :: "bytes \<Rightarrow> nat \<Rightarrow> provider_payload provider_obs" where
  "replying data n = \<lparr>po_now = n, po_events = (if n = 3 then [EvReply True 1 (Results [(toy_blob, PvObject Blob data)])] else []), po_sent = Inr ()\<rparr>"

definition toy_provider :: provider_odb where
  "toy_provider = \<lparr>pd_hash = Sha256,
     pd_options = \<lparr>pr_request_timeout = 15, pr_object_bytes = 100, pr_header_entries = 10, pr_negative_ttl = 0\<rparr>\<rparr>"



lemmas wait_eval = send_and_wait_def submit_request_def observe_def on_provider_def ensure_alive_def 
  cancel_request_def budget_of_run_def pt_insert_def pt_reply_def pt_send_def pt_recv_def bt_remove_def 
  charge_provider_request_def provider_request_of_def sattempt_def

lemma toy_wait:
  "\<exists>p b. send_and_wait down late 15 request (Suc 0) (provider_new opts (replying data), budget_unlimited idle)
      = (Inr (Some (Results [(toy_blob, PvObject Blob data)])), (p, b))
    \<and> unlimited b \<and> ps_caches p = caches_new opts"
  by (simp add: provider_new_def replying_def pt_default_def wait_eval layered_eval unlimited_def)

lemma toy_request:
  "\<exists>p b. request_results toy_engine toy_provider (Suc 0) PkObject [toy_blob] default_read_many
        (provider_new (pd_options toy_provider) (replying [5]), budget_unlimited idle)
      = (Inr [(toy_blob, PvObject Blob [5])], (p, b))
    \<and> unlimited b \<and> ps_caches p = caches_new (pd_options toy_provider)"
proof -
  obtain p b where wait: "send_and_wait provider_down provider_timeout 15 (provider_request_of PkObject [toy_blob] default_read_many) (Suc 0)
      (provider_new (pd_options toy_provider) (replying [5]), budget_unlimited idle)
      = (Inr (Some (Results [(toy_blob, PvObject Blob [5])])), (p, b))" "unlimited b" "ps_caches p = caches_new (pd_options toy_provider)"
    using toy_wait by blast
  obtain b1 where charge: "charge_provider_bytes 1 b = (Inr (), b1)" "unlimited b1"
    using charge_provider_unlimited [OF wait(2)] by blast
  have "pr_request_timeout (pd_options toy_provider) = 15" by (simp add: toy_provider_def)
  moreover have "max_object_bytes (b_limits b) = - 1" "max_provider_bytes (b_limits b) = - 1"
    using wait(2) by (simp_all add: unlimited_def budget_unlimited_def budget_new_def)
  ultimately show ?thesis
    using wait(1,3) charge
    by (simp add: request_results_def sbind_def budget_of_run_def slift_def on_budget_def sreturn_def Let_def byte_len_def sat_add_def
        enforce_read_many_budget_def default_read_many_def rbind_def verify_toy_blob)
qed

lemma toy_pass:
  "cached_pass toy_provider rb [toy_blob] [] [] 0 (provider_new (pd_options toy_provider) env, b)
    = (Inr ([], [toy_blob], 0), (provider_new (pd_options toy_provider) env, b))"
  by (simp add: sr_defs on_caches_def object_get_def contains_fresh_def toy_provider_def provider_new_def caches_new_def toy_cache_miss)

lemma toy_find:
  "\<exists>s. db_try_find (provider_db toy_engine toy_provider (Suc 0)) toy_blob
      (provider_new (pd_options toy_provider) (replying [5]), budget_unlimited idle) = (Inr (Some (Blob, [5])), s)"
proof -
  let ?p0 = "provider_new (pd_options toy_provider) (replying [5])"
  obtain p b where req: "request_results toy_engine toy_provider (Suc 0) PkObject [toy_blob] default_read_many (?p0, budget_unlimited idle)
      = (Inr [(toy_blob, PvObject Blob [5])], (p, b))" "unlimited b" "ps_caches p = caches_new (pd_options toy_provider)"
    using toy_request by blast
  have ok: "verified_answer toy_engine toy_blob (Some (Blob, [5]))" by (simp add: verified_answer_def verify_toy_blob)
  have "caches_ok toy_engine (ps_caches p)"
    using provider_new_ok [of "pd_options toy_provider" toy_engine "replying [5]"] req(3) by (simp add: toy_provider_def provider_new_def)
  then obtain c1 where c1: "object_insert toy_blob Blob [5] (ps_caches p) = Some ((), c1)" "resident (\<lambda>x h. header_admitted (verified_answer toy_engine) x (Some h)) (pc_headers c1)"
    using resident_insert [of "\<lambda>x v. verified_answer toy_engine x (Some v)" "pc_objects (ps_caches p)" toy_blob "(Blob, [5])" "byte_len [5]"] ok
    by (auto simp: object_insert_def caches_ok_def)
  then obtain c2 where c2: "header_insert toy_blob (provider_header Blob [5]) c1 = Some ((), c2)"
    using resident_insert [OF c1(2) provider_header_admitted [OF ok], of 1] by (auto simp: header_insert_def)
  obtain b1 where charge: "charge_object 1 b = (Inr (), b1)" using charge_object_unlimited [OF req(2)] by blast
  have alive: "pv_alive ?p0" and kind: "oid_kind toy_blob = pd_hash toy_provider"
    by (simp_all add: provider_new_def toy_provider_def toy_blob_def)
  have "request_results toy_engine toy_provider (Suc 0) PkObject [toy_blob] \<lparr>rm_max_total_bytes = None\<rparr> (?p0, budget_unlimited idle)
      = (Inr [(toy_blob, PvObject Blob [5])], (p, b))"
    using req(1) by (simp add: default_read_many_def)
  then show ?thesis
    using toy_pass c1(1) c2 charge alive kind
    by (simp add: provider_db_def provider_try_find_def try_find_many_with_budget_def sr_defs ensure_alive_def on_provider_def on_budget_def
        on_caches_def byte_len_def default_read_many_def)
qed

theorem provider_serves_only_verified_witness:
  "\<exists>s. db_try_find (provider_db toy_engine toy_provider (Suc 0)) toy_blob
      (provider_new (pd_options toy_provider) (replying [5]), budget_unlimited idle) = (Inr (Some (Blob, [5])), s)
    \<and> verified_answer toy_engine toy_blob (Some (Blob, [5]))"
proof -
  from toy_find obtain s where run: "db_try_find (provider_db toy_engine toy_provider (Suc 0)) toy_blob
      (provider_new (pd_options toy_provider) (replying [5]), budget_unlimited idle) = (Inr (Some (Blob, [5])), s)" by blast
  have "verified_answer toy_engine toy_blob (Some (Blob, [5]))"
    using provider_serves_only_verified [OF _ _ served_start, of toy_provider] run by (auto simp: toy_provider_def)
  with run show ?thesis by blast
qed

end
