(* ===== verification/RefProvider.thy ===== *)
theory RefProvider
  imports Refs Rendezvous
begin

text \<open>
  The callback-backed reference store (\<open>provider_refs.rs\<close>): requests to the host over the rendezvous of \<open>Rendezvous\<close>, and the validation of
  its replies. A page that the store hands out is in strict byte order, of valid names under the requested prefix, within the limit,
  and consistent in its truncation and its cursor.
\<close>

section \<open>Data\<close>

datatype ref_provider_kind = RkResolve | RkList

datatype ref_provider_payload = RpResolve "ref_target option" | RpList ref_page | RpUnsupportedOperation | RpBackendError

record ref_provider_request =
  rr_id :: u64
  rr_kind :: ref_provider_kind
  rr_name :: "bytes option"
  rr_query :: "ref_query option"
  rr_deadline :: nat
  rr_max_reply_bytes :: u64

type_synonym ref_provider = "(ref_provider_request, ref_provider_payload) provider"

definition ref_provider_new :: "(nat \<Rightarrow> ref_provider_payload provider_obs) \<Rightarrow> ref_provider" where
  "ref_provider_new env = \<lparr>pv_pending = pt_default, pv_next_id = 1, pv_alive = True, pv_requests = [], pv_env = env, pv_tick = 0\<rparr>"

section \<open>Errors\<close>

definition ref_provider_down :: error where "ref_provider_down = err_retry ProviderDown ''ref provider process is down''"
definition ref_provider_timeout :: error where
  "ref_provider_timeout = err_retry ProviderTimeout ''ref provider request deadline expired''"
definition ref_protocol_error :: "string \<Rightarrow> error" where "ref_protocol_error = err_new ProviderProtocolError"

text \<open>Stands for a wait that has not ended within the fuel.\<close>

definition ref_still_waiting :: error where "ref_still_waiting = err_new InternalError ''the wait did not end within the fuel''"

section \<open>Validation\<close>

definition validate_target :: "ref_rules \<Rightarrow> ref_target \<Rightarrow> error + unit" where
  "validate_target R t =
    (case t of
       Symbolic name \<Rightarrow>
         (case validate_full_ref_name R name of
            Inl _ \<Rightarrow> Inl (ref_protocol_error ''ref provider returned an invalid symbolic target name'')
          | Inr _ \<Rightarrow> Inr ())
     | Direct x peeled \<Rightarrow>
         (case peeled of
            Some y \<Rightarrow>
              if oid_kind x \<noteq> oid_kind y then
                Inl (ref_protocol_error ''ref provider returned direct and peeled IDs with different hash algorithms'')
              else Inr ()
          | None \<Rightarrow> Inr ()))"

fun validate_refs :: "ref_rules \<Rightarrow> bytes option \<Rightarrow> bytes option \<Rightarrow> (bytes \<times> ref_target) list \<Rightarrow> error + unit" where
  "validate_refs R pre previous [] = Inr ()"
| "validate_refs R pre previous ((name, target) # refs) =
    (case validate_full_ref_name R name of
       Inl _ \<Rightarrow> Inl (ref_protocol_error ''ref provider returned an invalid full ref name'')
     | Inr _ \<Rightarrow>
         if (case pre of None \<Rightarrow> False | Some p \<Rightarrow> \<not> prefix p name) then
           Inl (ref_protocol_error ''ref provider returned a name outside the requested prefix'')
         else if (case previous of None \<Rightarrow> False | Some q \<Rightarrow> name \<le> q) then
           Inl (ref_protocol_error ''ref provider returned names outside strict byte order'')
         else rbind (validate_target R target) (\<lambda>_. validate_refs R pre (Some name) refs))"

definition validate_page :: "ref_rules \<Rightarrow> ref_page \<Rightarrow> ref_query \<Rightarrow> error + unit" where
  "validate_page R page q =
    (if rq_limit q < length (rp_refs page) then
       Inl (ref_protocol_error ''ref provider returned more references than the requested limit'')
     else if (case rp_next_cursor page of None \<Rightarrow> False | Some c \<Rightarrow> MAX_CURSOR_BYTES < length c) then
       Inl (ref_protocol_error ''ref provider returned a cursor larger than 4096 bytes'')
     else if rp_truncated page \<noteq> (rp_next_cursor page \<noteq> None) then
       Inl (ref_protocol_error ''ref provider page truncation and cursor fields disagree'')
     else if rp_refs page = [] \<and> rp_truncated page then
       Inl (ref_protocol_error ''ref provider returned an empty truncated page'')
     else validate_refs R (rq_prefix q) None (rp_refs page))"

fun ref_target_size :: "ref_target \<Rightarrow> u64" where
  "ref_target_size (Symbolic name) = byte_len name"
| "ref_target_size (Direct x peeled) = byte_len (as_bytes x) + (case peeled of None \<Rightarrow> 0 | Some y \<Rightarrow> byte_len (as_bytes y))"

definition page_size :: "ref_page \<Rightarrow> u64" where
  "page_size page =
    fold (\<lambda>(name, target) total. sat_add (sat_add total (byte_len name)) (ref_target_size target)) (rp_refs page)
      (case rp_next_cursor page of None \<Rightarrow> 0 | Some c \<Rightarrow> byte_len c)"

section \<open>Operations\<close>

definition ref_request_of :: "ref_provider_kind \<Rightarrow> bytes option \<Rightarrow> ref_query option \<Rightarrow> u64 \<Rightarrow> nat \<Rightarrow> budget \<Rightarrow> ref_provider_request" where
  "ref_request_of kind name q i deadline b =
    \<lparr>rr_id = i, rr_kind = kind, rr_name = name, rr_query = q, rr_deadline = deadline,
     rr_max_reply_bytes = sat_sub (max_provider_bytes (b_limits b)) (b_provider_bytes b)\<rparr>"

definition ref_send_and_wait :: "nat \<Rightarrow> nat \<Rightarrow> ref_provider_kind \<Rightarrow> bytes option \<Rightarrow> ref_query option \<Rightarrow> (ref_provider, ref_provider_payload) op" where
  "ref_send_and_wait timeout fuel kind name q =
    sbind (send_and_wait ref_provider_down ref_provider_timeout timeout (ref_request_of kind name q) fuel) (\<lambda>payload.
    slift (ok_or ref_still_waiting payload))"

definition provider_ref_resolve :: "ref_rules \<Rightarrow> nat \<Rightarrow> nat \<Rightarrow> bytes \<Rightarrow> (ref_provider, ref_target option) op" where
  "provider_ref_resolve R timeout fuel name =
    sbind (slift (case validate_full_ref_name R name of
        Inl _ \<Rightarrow> Inl (err_new InvalidArgument ''reference lookup requires a valid full ref name'') | Inr _ \<Rightarrow> Inr ())) (\<lambda>_.
    sbind (ref_send_and_wait timeout fuel RkResolve (Some name) None) (\<lambda>payload.
    case payload of
      RpResolve target \<Rightarrow>
        sbind (case target of
            None \<Rightarrow> sreturn ()
          | Some t \<Rightarrow> sbind (slift (validate_target R t)) (\<lambda>_. on_budget (charge_provider_bytes (ref_target_size t)))) (\<lambda>_.
        sreturn target)
    | RpBackendError \<Rightarrow> sraise (err_retry BackendError ''ref provider callback failed'')
    | _ \<Rightarrow> sraise (ref_protocol_error ''ref provider resolve reply has the wrong shape'')))"

definition provider_ref_list :: "ref_rules \<Rightarrow> nat \<Rightarrow> nat \<Rightarrow> ref_query \<Rightarrow> (ref_provider, ref_page) op" where
  "provider_ref_list R timeout fuel q =
    (if rq_limit q = 0 then sraise (err_new InvalidArgument ''reference page limit must be positive'')
     else if (case rq_cursor q of None \<Rightarrow> False | Some c \<Rightarrow> MAX_CURSOR_BYTES < length c) then
       sraise (ref_protocol_error ''ref provider received a cursor larger than 4096 bytes'')
     else
       sbind (ref_send_and_wait timeout fuel RkList None (Some q)) (\<lambda>payload.
       case payload of
         RpUnsupportedOperation \<Rightarrow> sraise (err_new UnsupportedOperation ''ref provider does not support listing references'')
       | RpBackendError \<Rightarrow> sraise (err_retry BackendError ''ref provider callback failed'')
       | RpList page \<Rightarrow>
           sbind (slift (validate_page R page q)) (\<lambda>_.
           sbind budget_of_run (\<lambda>b.
           let bytes = page_size page in
           if sat_sub (max_provider_bytes (b_limits b)) (b_provider_bytes b) < bytes then
             sraise (with_limit ''max_provider_bytes'' (err_new BudgetExceeded ''max_provider_bytes exceeded''))
           else sbind (on_budget (charge_provider_bytes bytes)) (\<lambda>_. sreturn page)))
       | RpResolve _ \<Rightarrow> sraise (ref_protocol_error ''ref provider list reply has the wrong shape'')))"

text \<open>The store; following symbolic references and refreshing are the defaults of the interface.\<close>

definition provider_ref_db :: "ref_rules \<Rightarrow> nat \<Rightarrow> nat \<Rightarrow> ref_provider ref_db" where
  "provider_ref_db R timeout fuel = \<lparr>rd_resolve = provider_ref_resolve R timeout fuel, rd_list = provider_ref_list R timeout fuel,
    rd_resolve_following = default_resolve_following R (provider_ref_resolve R timeout fuel), rd_refresh = default_ref_refresh\<rparr>"

section \<open>What a reference store promises\<close>

definition target_ok :: "ref_rules \<Rightarrow> ref_target \<Rightarrow> bool" where
  "target_ok R t \<longleftrightarrow> (case t of Symbolic name \<Rightarrow> validate_full_ref_name R name = Inr ()
     | Direct x peeled \<Rightarrow> \<forall>y. peeled = Some y \<longrightarrow> oid_kind y = oid_kind x)"

definition page_ok :: "ref_rules \<Rightarrow> ref_query \<Rightarrow> ref_page \<Rightarrow> bool" where
  "page_ok R q page \<longleftrightarrow> length (rp_refs page) \<le> rq_limit q
     \<and> sorted_wrt (<) (map fst (rp_refs page))
     \<and> (\<forall>(name, t) \<in> set (rp_refs page). validate_full_ref_name R name = Inr () \<and> target_ok R t \<and> (\<forall>p. rq_prefix q = Some p \<longrightarrow> prefix p name))
     \<and> (rp_truncated page \<longleftrightarrow> rp_next_cursor page \<noteq> None) \<and> (rp_truncated page \<longrightarrow> rp_refs page \<noteq> [])
     \<and> (\<forall>c. rp_next_cursor page = Some c \<longrightarrow> length c \<le> MAX_CURSOR_BYTES)"

text \<open>Whatever its state, a store that keeps this contract hands out only checked targets and pages, and follows chains to checked targets.\<close>

locale checked_ref_store =
  fixes R :: ref_rules and store :: "'w ref_db"
  assumes resolve_law: "answers (\<lambda>_. True) (\<lambda>r. \<forall>t. r = Some t \<longrightarrow> target_ok R t) (rd_resolve store name)"
    and list_law: "answers (\<lambda>_. True) (page_ok R q) (rd_list store q)"
    and following_law: "rd_resolve_following store = default_resolve_following R (rd_resolve store)"
begin

text \<open>A followed reference is direct, and its peeled commit has the hash kind of the object.\<close>

lemma hops_direct:
  "answers (\<lambda>_. True) (\<lambda>r. \<forall>t. r = Some t \<longrightarrow> target_ok R t \<and> (\<exists>x peeled. t = Direct x peeled))
     (resolve_hops R (rd_resolve store) hops name seen chain)"
proof (induction hops arbitrary: name seen chain)
  case (Suc hops)
  show ?case
    unfolding resolve_hops.simps
    by (auto intro!: answers_sbind [OF answers_on_budget [where P = "\<lambda>_. True"]] answers_sraise answers_sbind [OF resolve_law]
        answers_sreturn answers_sbind [OF answers_slift [where P = "\<lambda>_. True"]] Suc.IH split: option.split ref_target.split)
qed (simp add: answers_sraise)

lemma followed_direct:
  "answers (\<lambda>_. True) (\<lambda>r. \<forall>t. r = Some t \<longrightarrow> target_ok R t \<and> (\<exists>x peeled. t = Direct x peeled)) (resolve_symbolic store name)"
  unfolding resolve_symbolic_def following_law default_resolve_following_def resolve_with_def
  by (auto intro!: answers_sbind [OF answers_slift [where P = "\<lambda>_. True"]] hops_direct)

end

lemma validate_target_Inr: "validate_target R t = Inr () \<longleftrightarrow> target_ok R t"
  by (auto simp: validate_target_def target_ok_def split: ref_target.split option.split sum.split)

lemma validate_refs_Inr:
  "validate_refs R pre previous refs = Inr () \<longleftrightarrow>
    sorted_wrt (<) ((case previous of None \<Rightarrow> [] | Some q \<Rightarrow> [q]) @ map fst refs)
    \<and> (\<forall>(name, t) \<in> set refs. validate_full_ref_name R name = Inr () \<and> target_ok R t \<and> (\<forall>p. pre = Some p \<longrightarrow> prefix p name))"
proof (induction refs arbitrary: previous)
  case (Cons r refs)
  obtain name target where r: "r = (name, target)" by force
  have step: "validate_refs R pre previous (r # refs) = Inr () \<longleftrightarrow>
      validate_full_ref_name R name = Inr () \<and> (\<forall>p. pre = Some p \<longrightarrow> prefix p name) \<and> (\<forall>q. previous = Some q \<longrightarrow> q < name)
      \<and> target_ok R target \<and> validate_refs R pre (Some name) refs = Inr ()"
    by (auto simp: r rbind_Inr_iff validate_target_Inr not_le split: sum.split option.split)
  have order: "sorted_wrt (<) ((case previous of None \<Rightarrow> [] | Some q \<Rightarrow> [q]) @ name # map fst refs)
      \<longleftrightarrow> (\<forall>q. previous = Some q \<longrightarrow> q < name) \<and> sorted_wrt (<) (name # map fst refs)"
    by (cases previous) (simp_all add: sorted_wrt2 del: sorted_wrt.simps(2))
  show ?case
    unfolding step Cons.IH using order by (auto simp: r)
qed (auto split: option.split)

lemma validate_page_Inr: "validate_page R page q = Inr () \<longleftrightarrow> page_ok R q page"
  by (auto simp: validate_page_def page_ok_def validate_refs_Inr split: option.splits)

interpretation ref_provider: checked_ref_store R "provider_ref_db R timeout fuel" for R timeout fuel
proof unfold_locales
  fix name q
  show "answers (\<lambda>_. True) (\<lambda>r. \<forall>t. r = Some t \<longrightarrow> target_ok R t) (rd_resolve (provider_ref_db R timeout fuel) name)"
  proof -
    have checked: "answers (\<lambda>_. True) (\<lambda>_. \<forall>t. target = Some t \<longrightarrow> target_ok R t)
      (case target of None \<Rightarrow> sreturn () | Some t \<Rightarrow> sbind (slift (validate_target R t)) (\<lambda>_. on_budget (charge_provider_bytes (ref_target_size t))))"
      for target :: "ref_target option"
      by (cases target) (auto intro!: answers_sreturn answers_sbind [OF answers_slift [where P = "\<lambda>_. target_ok R (the target)"]] answers_on_budget
          simp: validate_target_Inr)
    show ?thesis
      by (auto simp: provider_ref_db_def provider_ref_resolve_def intro!: answers_sbind [OF answers_slift [where P = "\<lambda>_. True"]]
          answers_sbind [OF answers_True [of "ref_send_and_wait timeout fuel RkResolve (Some name) None"]]
          answers_sbind [OF checked] answers_sraise answers_sreturn split: ref_provider_payload.split)
  qed
  show "answers (\<lambda>_. True) (page_ok R q) (rd_list (provider_ref_db R timeout fuel) q)"
  proof -
    have checked: "answers (\<lambda>_. True) (page_ok R q) (sbind (slift (validate_page R page q)) (\<lambda>_. m))" if "page_ok R q page \<Longrightarrow> answers (\<lambda>_. True) (page_ok R q) m"
      for page and m :: "(ref_provider, ref_page) op"
      using that by (auto intro!: answers_sbind [OF answers_slift [where P = "\<lambda>_. page_ok R q page"]] simp: validate_page_Inr)
    show ?thesis
      by (auto simp: provider_ref_db_def provider_ref_list_def Let_def intro!: checked
          answers_sbind [OF answers_True [of "ref_send_and_wait timeout fuel RkList None (Some q)"]] answers_sbind [OF answers_budget_of_run]
          answers_sbind [OF answers_on_budget [where P = "\<lambda>_. True"]] answers_sraise answers_sreturn split: ref_provider_payload.split)
  qed
qed (simp add: provider_ref_db_def)

text \<open>
  C28. References from an untrusted host are checked: a page passes validation exactly when it is within the limit, in strict byte order, of valid
  names under the prefix with valid targets, and consistent in truncation and cursor; whatever the host replies, every page that a listing returns
  is such a page, and a followed name ends in a direct target whose peeled commit has the same hash kind.
\<close>

theorem provider_refs_checked:
  shows "(validate_page R page q = Inr () \<longleftrightarrow> page_ok R q page)
    \<and> (rd_list (provider_ref_db R timeout fuel) q (p, b) = (Inr page, s) \<longrightarrow> page_ok R q page)
    \<and> (resolve_symbolic (provider_ref_db R timeout fuel) name (p, b) = (Inr (Some t), s)
      \<longrightarrow> target_ok R t \<and> (\<exists>x peeled. t = Direct x peeled))"
proof -
  have "page_ok R q page" if "rd_list (provider_ref_db R timeout fuel) q (p, b) = (Inr page, s)"
    by (rule answersD [OF ref_provider.list_law _ that]) simp
  moreover have "target_ok R t \<and> (\<exists>x peeled. t = Direct x peeled)"
    if "resolve_symbolic (provider_ref_db R timeout fuel) name (p, b) = (Inr (Some t), s)"
    using answersD [OF ref_provider.followed_direct _ that] by simp
  ultimately show ?thesis using validate_page_Inr by blast
qed

section \<open>A host with one branch\<close>

definition one_branch :: ref_page where
  "one_branch = \<lparr>rp_refs = [(ascii ''refs/heads/main'', Direct toy_blob None)], rp_next_cursor = None, rp_truncated = False, rp_warnings = []\<rparr>"

definition branch_host :: "nat \<Rightarrow> ref_provider_payload provider_obs" where
  "branch_host n = \<lparr>po_now = n, po_events = (if n = 3 then [EvReply True 1 (RpList one_branch)] else []), po_sent = Inr ()\<rparr>"

definition any_name :: ref_rules where "any_name = letter_rules\<lparr>rr_valid := (\<lambda>_. True)\<rparr>"

definition heads_query :: ref_query where "heads_query = \<lparr>rq_prefix = Some (ascii ''refs/heads/''), rq_limit = 1, rq_cursor = None\<rparr>"

lemma one_branch_valid: "validate_page any_name one_branch heads_query = Inr ()"
  by (simp add: validate_page_def one_branch_def heads_query_def validate_full_ref_name_def any_name_def MAX_REF_NAME_BYTES_def ascii_def
      validate_target_def rbind_def)

lemma branch_host_wait:
  "\<exists>p b. ref_send_and_wait 15 (Suc 0) RkList None (Some heads_query) (ref_provider_new branch_host, budget_unlimited idle)
      = (Inr (RpList one_branch), (p, b)) \<and> unlimited b \<and> b_provider_bytes b = 0"
  by (simp add: ref_send_and_wait_def ref_provider_new_def branch_host_def pt_default_def send_and_wait_def submit_request_def observe_def
      on_provider_def ensure_alive_def budget_of_run_def pt_insert_def pt_reply_def pt_send_def pt_recv_def bt_remove_def sr_defs
      charge_provider_request_def static_eval ok_or_def Let_def unlimited_def)

theorem provider_refs_checked_witness:
  "\<exists>s. rd_list (provider_ref_db any_name 15 (Suc 0)) heads_query (ref_provider_new branch_host, budget_unlimited idle) = (Inr one_branch, s)
    \<and> page_ok any_name heads_query one_branch"
proof -
  obtain p b where wait: "ref_send_and_wait 15 (Suc 0) RkList None (Some heads_query) (ref_provider_new branch_host, budget_unlimited idle)
      = (Inr (RpList one_branch), (p, b))" "unlimited b" "b_provider_bytes b = 0"
    using branch_host_wait by blast
  obtain b1 where charge: "charge_provider_bytes (page_size one_branch) b = (Inr (), b1)"
    using charge_provider_unlimited [OF wait(2)] by blast
  have "max_provider_bytes (b_limits b) = - 1" using wait(2) by (simp add: unlimited_def budget_unlimited_def budget_new_def)
  then have run: "rd_list (provider_ref_db any_name 15 (Suc 0)) heads_query (ref_provider_new branch_host, budget_unlimited idle) = (Inr one_branch, (p, b1))"
    using wait(1,3) charge one_branch_valid
    by (simp add: provider_ref_db_def provider_ref_list_def sr_defs budget_of_run_def on_budget_def Let_def sat_sub_def) (simp add: heads_query_def)
  from provider_refs_checked [of any_name one_branch heads_query 15 "Suc 0"] run show ?thesis by blast
qed

end
