(* ===== verification/PackFetch.thy ===== *)
theory PackFetch
  imports Odb
begin

text \<open>
  Pack fetching (\<open>packfetch.rs\<close>): validation of a pack manifest, the checked sums of its bytes, the options, the fetch of an artifact by ranges in windows, and the
  verification of a pack and its index before they are written. The transport is the parameter \<open>read_window\<close>. The file system, the reopening of the
  local store and the callback transport are not modelled. Sizes are lengths of byte lists: on a 64-bit platform every \<open>u64\<close> size is a \<open>usize\<close>, so the
  failure of that conversion does not arise.
\<close>

section \<open>Manifests\<close>

record pack_descriptor =
  pk_id :: string
  pk_pack_key :: string
  pk_index_key :: string
  pk_pack_size :: u64
  pk_index_size :: u64
  pk_etag :: "string option"

record pack_manifest =
  pm_version :: u32
  pm_generation :: string
  pm_hash :: hash_kind
  pm_packs :: "pack_descriptor list"
  pm_loose :: "string list"

definition pack_protocol_error :: "string \<Rightarrow> error" where
  "pack_protocol_error message = err_new ProviderProtocolError message"

fun validate_packs :: "hash_kind \<Rightarrow> oid set \<Rightarrow> pack_descriptor list \<Rightarrow> error + unit" where
  "validate_packs hk ids [] = Inr ()"
| "validate_packs hk ids (p # ps) =
    (if pk_pack_key p = [] \<or> pk_index_key p = [] then Inl (pack_protocol_error ''pack manifest keys must not be empty'')
     else if pk_pack_size p = 0 \<or> pk_index_size p = 0 then Inl (pack_protocol_error ''pack manifest sizes must be greater than zero'')
     else case parse_hex (pk_id p) of
         Inl _ \<Rightarrow> Inl (pack_protocol_error ''pack manifest ID is not a full hex digest'')
       | Inr x \<Rightarrow>
           if oid_kind x \<noteq> hk then Inl (pack_protocol_error ''pack manifest ID length does not match its hash kind'')
           else if x \<in> ids then Inl (pack_protocol_error ''pack manifest contains a duplicate pack ID'')
           else validate_packs hk (insert x ids) ps)"

definition manifest_validate :: "pack_manifest \<Rightarrow> hash_kind \<Rightarrow> error + unit" where
  "manifest_validate M expected_hash =
    (if pm_version M \<noteq> 1 then Inl (pack_protocol_error ''pack manifest version must be 1'')
     else if pm_hash M \<noteq> expected_hash then Inl (pack_protocol_error ''pack manifest hash does not match the PackFetch store'')
     else if pm_generation M = [] then Inl (pack_protocol_error ''pack manifest generation must not be empty'')
     else if pm_loose M \<noteq> [] then Inl (pack_protocol_error ''PackFetch 0.2 manifests must not contain loose objects'')
     else validate_packs (pm_hash M) {} (pm_packs M))"

text \<open>\<open>checked_add\<close>, and a chain of them.\<close>

definition checked_add :: "u64 \<Rightarrow> u64 \<Rightarrow> u64 option" where
  "checked_add a b = (if unat a + unat b < 2 ^ 64 then Some (a + b) else None)"

fun checked_sum :: "u64 \<Rightarrow> u64 list \<Rightarrow> u64 option" where
  "checked_sum acc [] = Some acc"
| "checked_sum acc (n # ns) = (case checked_add acc n of None \<Rightarrow> None | Some t \<Rightarrow> checked_sum t ns)"

fun sum_packs :: "string \<Rightarrow> (pack_descriptor \<Rightarrow> u64 list) \<Rightarrow> u64 \<Rightarrow> pack_descriptor list \<Rightarrow> error + u64" where
  "sum_packs overflow amounts acc [] = Inr acc"
| "sum_packs overflow amounts acc (p # ps) =
    (case checked_sum acc (amounts p) of
       None \<Rightarrow> Inl (pack_protocol_error overflow)
     | Some t \<Rightarrow> sum_packs overflow amounts t ps)"

definition described_bytes :: "pack_manifest \<Rightarrow> error + u64" where
  "described_bytes M = sum_packs ''pack manifest byte total overflows u64'' (\<lambda>p. [pk_pack_size p, pk_index_size p]) 0 (pm_packs M)"

definition text_len :: "string \<Rightarrow> u64" where
  "text_len s = of_nat (length s)"

definition reply_bytes :: "pack_manifest \<Rightarrow> error + u64" where
  "reply_bytes M =
    (let overflow = ''pack manifest reply byte total overflows u64'' in
     case checked_add 16 (text_len (pm_generation M)) of
       None \<Rightarrow> Inl (pack_protocol_error overflow)
     | Some acc \<Rightarrow>
         rbind (sum_packs overflow (\<lambda>p. [text_len (pk_id p), text_len (pk_pack_key p), text_len (pk_index_key p),
             (case pk_etag p of None \<Rightarrow> 0 | Some e \<Rightarrow> text_len e), 32]) acc (pm_packs M)) (\<lambda>t.
         case checked_sum t (map text_len (pm_loose M)) of
           None \<Rightarrow> Inl (pack_protocol_error overflow)
         | Some t \<Rightarrow> Inr t))"

record pack_fetch_options =
  po_destination :: string
  po_chunk_bytes :: u64
  po_concurrency :: nat
  po_max_hydration_bytes :: u64
  po_max_bytes :: "u64 option"

definition options_validate :: "pack_fetch_options \<Rightarrow> error + unit" where
  "options_validate opts =
    (if po_chunk_bytes opts = 0 then Inl (err_new InvalidArgument ''chunk_bytes must be greater than zero'')
     else if po_concurrency opts = 0 then Inl (err_new InvalidArgument ''concurrency must be greater than zero'')
     else if po_destination opts = [] then Inl (err_new InvalidArgument ''PackFetch destination must not be empty'')
     else if po_max_hydration_bytes opts = 0 then Inl (err_new InvalidArgument ''max_hydration_bytes must be greater than zero'')
     else Inr ())"

section \<open>Fetching an artifact\<close>

record byte_range =
  br_key :: string
  br_offset :: u64
  br_length :: u64

text \<open>The loop that cuts an artifact into ranges; with chunks of no bytes it would not end.\<close>

partial_function (option) cut_ranges :: "string \<Rightarrow> u64 \<Rightarrow> u64 \<Rightarrow> u64 \<Rightarrow> byte_range list option" where
  "cut_ranges key full chunk_bytes offset =
    (if offset < full then
       (let len = min chunk_bytes (full - offset) in
        Option.bind (cut_ranges key full chunk_bytes (offset + len)) (\<lambda>rs.
        Some (\<lparr>br_key = key, br_offset = offset, br_length = len\<rparr> # rs)))
     else Some [])"

fun charge_requests :: "'a list \<Rightarrow> ('w, unit) op" where
  "charge_requests [] = sreturn ()"
| "charge_requests (_ # rs) = sbind (on_budget charge_provider_request) (\<lambda>_. charge_requests rs)"

fun take_ranges :: "byte_range list \<Rightarrow> bytes list \<Rightarrow> bytes \<Rightarrow> ('w, bytes) op" where
  "take_ranges (r # rs) (bs # bss) output =
    (if byte_len bs \<noteq> br_length r then sraise (pack_protocol_error ''range backend returned a short or over-long range'')
     else sbind (on_budget (charge_provider_bytes (byte_len bs))) (\<lambda>_. take_ranges rs bss (output @ bs)))"
| "take_ranges _ _ output = sreturn output"

fun take_replies :: "byte_range list list \<Rightarrow> bytes list list \<Rightarrow> bytes \<Rightarrow> ('w, bytes) op" where
  "take_replies (batch # batches) (reply # replies) output =
    (if length reply \<noteq> length batch then sraise (pack_protocol_error ''range backend returned the wrong number of range replies'')
     else sbind (take_ranges batch reply output) (\<lambda>output. take_replies batches replies output))"
| "take_replies _ _ output = sreturn output"

type_synonym 'w read_window = "byte_range list list \<Rightarrow> ('w, bytes list list) op"

fun fetch_windows :: "'w read_window \<Rightarrow> byte_range list list \<Rightarrow> bytes \<Rightarrow> ('w, bytes) op" where
  "fetch_windows read_window [] output = sreturn output"
| "fetch_windows read_window (window # windows) output =
    sbind (charge_requests window) (\<lambda>_.
    let batches = map (\<lambda>range. [range]) window in
    sbind (read_window batches) (\<lambda>replies.
    if length replies \<noteq> length batches then sraise (pack_protocol_error ''range backend omitted a read_ranges callback reply'')
    else sbind (take_replies batches replies output) (\<lambda>output. fetch_windows read_window windows output)))"

text \<open>The outer option is the end of the loop that cuts the ranges. Windows of no ranges are a panic.\<close>

definition fetch_artifact :: "'w read_window \<Rightarrow> nat \<Rightarrow> string \<Rightarrow> u64 \<Rightarrow> u64 \<Rightarrow> ('w, bytes option) op" where
  "fetch_artifact read_window concurrency key full chunk_bytes =
    (case cut_ranges key full chunk_bytes 0 of
       None \<Rightarrow> sreturn None
     | Some ranges \<Rightarrow>
         if concurrency = 0 then sraise panicked else
         sbind (fetch_windows read_window (chunks concurrency ranges) []) (\<lambda>output.
         if byte_len output \<noteq> full then sraise (pack_protocol_error ''range backend artifact length does not match the manifest'')
         else sreturn (Some output)))"

section \<open>Verification of a pair\<close>

definition checksum_error :: "error_code \<Rightarrow> string \<Rightarrow> error" where
  "checksum_error code detail = err_new code (''hydrated '' @ (if code = IndexChecksumMismatch then ''index'' else ''pack'') @ '' '' @ detail)"

definition hash_bytes :: "hash_engine \<Rightarrow> hash_kind \<Rightarrow> bytes \<Rightarrow> error_code \<Rightarrow> error + oid" where
  "hash_bytes H hk bs code =
    (case hasher_finalize H (hasher_update (hasher_new hk) bs) of
       Inl _ \<Rightarrow> Inl (checksum_error code ''collision detected while hashing'')
     | Inr x \<Rightarrow> Inr x)"

definition verify_pair_bytes :: "hash_engine \<Rightarrow> bytes \<Rightarrow> bytes \<Rightarrow> pack_descriptor \<Rightarrow> hash_kind \<Rightarrow> error + unit" where
  "verify_pair_bytes H pack index d hk =
    (case parse_hex (pk_id d) of
       Inl _ \<Rightarrow> Inl (pack_protocol_error ''validated pack ID could not be parsed'')
     | Inr x \<Rightarrow>
         let n = digest_len hk in
         if length pack < n then Inl (checksum_error PackChecksumMismatch ''is shorter than its checksum'')
         else
           let pack_trailer = drop (length pack - n) pack in
           rbind (hash_bytes H hk (take (length pack - n) pack) PackChecksumMismatch) (\<lambda>actual_pack.
           if as_bytes actual_pack \<noteq> pack_trailer \<or> pack_trailer \<noteq> as_bytes x then
             Inl (checksum_error PackChecksumMismatch ''checksum does not match its trailer or manifest ID'')
           else if length index < n * 2 then Inl (checksum_error IndexChecksumMismatch ''is shorter than its checksums'')
           else
             let a = length index - n * 2; b = length index - n in
             if take (b - a) (drop a index) \<noteq> as_bytes x then
               Inl (checksum_error PackChecksumMismatch ''index refers to a different pack checksum'')
             else
               rbind (hash_bytes H hk (take b index) IndexChecksumMismatch) (\<lambda>actual_index.
               if as_bytes actual_index \<noteq> drop b index then Inl (checksum_error IndexChecksumMismatch ''checksum does not match'')
               else Inr ())))"

section \<open>Sums and validation\<close>

lemma checked_sum_Some: "checked_sum t ns = Some s \<Longrightarrow> unat s = unat t + sum_list (map unat ns)"
proof (induction ns arbitrary: t)
  case (Cons n ns)
  then have "unat t + unat n < 2 ^ 64" "checked_sum (t + n) ns = Some s" by (auto simp: checked_add_def split: if_splits)
  moreover from this(1) have "unat (t + n) = unat t + unat n" by (simp add: unat_word_ariths)
  ultimately show ?case using Cons.IH by simp
qed simp

lemma sum_packs_Inr:
  "sum_packs overflow amounts t ps = Inr s \<Longrightarrow> unat s = unat t + sum_list (map (\<lambda>p. sum_list (map unat (amounts p))) ps)"
  by (induction ps arbitrary: t) (auto dest!: checked_sum_Some split: option.splits)

text \<open>The bytes a manifest describes are counted without wrap-around.\<close>

lemma described_bytes_exact: "described_bytes M = Inr n \<Longrightarrow> unat n = sum_list (map (\<lambda>p. unat (pk_pack_size p) + unat (pk_index_size p)) (pm_packs M))"
  unfolding described_bytes_def by (drule sum_packs_Inr) simp

definition pack_ok :: "hash_kind \<Rightarrow> pack_descriptor \<Rightarrow> bool" where
  "pack_ok hk p \<longleftrightarrow> pk_pack_key p \<noteq> [] \<and> pk_index_key p \<noteq> [] \<and> pk_pack_size p \<noteq> 0 \<and> pk_index_size p \<noteq> 0
     \<and> (\<exists>x. parse_hex (pk_id p) = Inr x \<and> oid_kind x = hk)"

definition pack_name :: "pack_descriptor \<Rightarrow> oid" where
  "pack_name p = projr (parse_hex (pk_id p))"

lemma validate_packs_Inr:
  "validate_packs hk ids ps = Inr () \<longleftrightarrow> (\<forall>p \<in> set ps. pack_ok hk p \<and> pack_name p \<notin> ids) \<and> distinct (map pack_name ps)"
  by (induction ps arbitrary: ids) (auto simp: pack_ok_def pack_name_def split: sum.splits)

lemma manifest_validate_Inr:
  "manifest_validate M hk = Inr () \<longleftrightarrow> pm_version M = 1 \<and> pm_hash M = hk \<and> pm_generation M \<noteq> [] \<and> pm_loose M = []
     \<and> (\<forall>p \<in> set (pm_packs M). pack_ok hk p) \<and> distinct (map pack_name (pm_packs M))"
  by (auto simp: manifest_validate_def validate_packs_Inr)

section \<open>Ranges\<close>

definition range_bytes :: "(string \<Rightarrow> bytes) \<Rightarrow> byte_range \<Rightarrow> bytes" where
  "range_bytes A r = take (unat (br_length r)) (drop (unat (br_offset r)) (A (br_key r)))"

definition inside :: "(string \<Rightarrow> bytes) \<Rightarrow> byte_range \<Rightarrow> bool" where
  "inside A r \<longleftrightarrow> unat (br_offset r) + unat (br_length r) \<le> length (A (br_key r))"

text \<open>Ranges in order that cover the rest of an artifact.\<close>

lemma cut_ranges_cover:
  assumes "0 < chunk" and "offset \<le> full" and "unat full = length (A key)"
  shows "\<exists>rs. cut_ranges key full chunk offset = Some rs \<and> (\<forall>r \<in> set rs. inside A r) \<and> concat (map (range_bytes A) rs) = drop (unat offset) (A key)"
  using assms(2)
proof (induction "unat full - unat offset" arbitrary: offset rule: less_induct)
  case less
  show ?case
  proof (cases "offset < full")
    case False
    with less.prems assms(3) show ?thesis by (subst cut_ranges.simps) (simp add: word_le_nat_alt word_less_nat_alt)
  next
    case True
    define len where "len = min chunk (full - offset)"
    have left: "unat (full - offset) = unat full - unat offset" using True by (simp add: unat_sub word_le_nat_alt word_less_nat_alt)
    have pos: "0 < unat len" using True assms(1) left by (auto simp: len_def min_def word_less_nat_alt unat_gt_0)
    have le: "unat len \<le> unat full - unat offset" using left by (auto simp: len_def min_def word_le_nat_alt)
    have bound: "unat full < 2 ^ 64" using unsigned_less [of full, where ?'a = nat] by simp
    have off: "unat (offset + len) = unat offset + unat len"
      using le bound True by (auto simp: unat_word_ariths word_less_nat_alt)
    have smaller: "unat full - unat (offset + len) < unat full - unat offset" "offset + len \<le> full"
      using off le pos True by (auto simp: word_le_nat_alt word_less_nat_alt)
    from less.hyps [OF smaller] obtain rs where rs: "cut_ranges key full chunk (offset + len) = Some rs" "\<forall>r \<in> set rs. inside A r"
      "concat (map (range_bytes A) rs) = drop (unat (offset + len)) (A key)" by blast
    let ?r = "\<lparr>br_key = key, br_offset = offset, br_length = len\<rparr>"
    have "inside A ?r" using le True assms(3) by (auto simp: inside_def word_less_nat_alt)
    moreover have "concat (map (range_bytes A) (?r # rs)) = drop (unat offset) (A key)"
      using rs(3) [unfolded off] append_take_drop_id [of "unat len" "drop (unat offset) (A key)"] by (simp add: range_bytes_def add.commute)
    moreover have "cut_ranges key full chunk offset = Some (?r # rs)"
      using True rs(1) by (subst cut_ranges.simps) (simp add: Let_def len_def [symmetric])
    ultimately show ?thesis using rs(2) by (intro exI [of _ "?r # rs"]) simp
  qed
qed

section \<open>Exact transports\<close>

text \<open>A transport that answers every range inside an artifact with its bytes.\<close>

definition serves :: "('w \<Rightarrow> bool) \<Rightarrow> (string \<Rightarrow> bytes) \<Rightarrow> 'w read_window \<Rightarrow> bool" where
  "serves I A read_window \<longleftrightarrow> (\<forall>batches. (\<forall>batch \<in> set batches. \<forall>r \<in> set batch. inside A r) \<longrightarrow>
     answers I (\<lambda>replies. replies = map (map (range_bytes A)) batches) (read_window batches))"

lemma byte_len_range: "inside A r \<Longrightarrow> byte_len (range_bytes A r) = br_length r"
  by (simp add: inside_def range_bytes_def byte_len_def)

lemma take_replies_run:
  assumes "\<forall>r \<in> set rs. inside A r"
  shows "answers I (\<lambda>out. out = start @ concat (map (range_bytes A) rs))
      (take_replies (map (\<lambda>r. [r]) rs) (map (map (range_bytes A)) (map (\<lambda>r. [r]) rs)) start :: ('w, bytes) op)
    \<and> yields (take_replies (map (\<lambda>r. [r]) rs) (map (map (range_bytes A)) (map (\<lambda>r. [r]) rs)) start :: ('w, bytes) op) (start @ concat (map (range_bytes A) rs))"
  using assms
proof (induction rs arbitrary: start)
  case Nil
  then show ?case by (simp add: answers_sreturn yields_sreturn)
next
  case (Cons r rs)
  let ?more = "take_replies (map (\<lambda>r. [r]) rs) (map (map (range_bytes A)) (map (\<lambda>r. [r]) rs)) :: bytes \<Rightarrow> ('w, bytes) op"
  let ?charge = "on_budget (charge_provider_bytes (byte_len (range_bytes A r))) :: ('w, unit) op"
  have charge: "yields ?charge ()" by (rule yields_charge_provider)
  have step: "take_replies (map (\<lambda>r. [r]) (r # rs)) (map (map (range_bytes A)) (map (\<lambda>r. [r]) (r # rs))) start
      = sbind (sbind ?charge (\<lambda>_. sreturn (start @ range_bytes A r))) ?more"
    using byte_len_range [of A r] Cons.prems by simp
  from Cons.IH [of "start @ range_bytes A r"] Cons.prems
  have more: "answers I (\<lambda>out. out = start @ concat (map (range_bytes A) (r # rs))) (?more (start @ range_bytes A r))"
    "yields (?more (start @ range_bytes A r)) (start @ concat (map (range_bytes A) (r # rs)))" by simp_all
  have one: "answers I (\<lambda>out. out = start @ range_bytes A r) (sbind ?charge (\<lambda>_. sreturn (start @ range_bytes A r)))"
    by (rule answers_sbind [OF answers_on_budget [where P = "\<lambda>_. True"]]) (simp_all add: answers_sreturn)
  have one_yields: "yields (sbind ?charge (\<lambda>_. sreturn (start @ range_bytes A r))) (start @ range_bytes A r)"
    by (rule yields_sbind [OF charge]) (rule yields_sreturn)
  show ?case
    unfolding step
    by (rule conjI, rule answers_sbind [OF one], hypsubst, rule more(1), rule yields_sbind [OF one_yields], rule more(2))
qed

lemma charge_requests_run: "answers I (\<lambda>_. True) (charge_requests rs :: ('w, unit) op) \<and> yields (charge_requests rs :: ('w, unit) op) ()"
proof (induction rs)
  case (Cons r rs)
  have "yields (on_budget charge_provider_request :: ('w, unit) op) ()"
    by (auto simp: yields_def on_budget_def unlimited_def charge_provider_request_def check_def charge_def budget_unlimited_def budget_new_def idle_def sr_defs Let_def)
  with Cons show ?case by (auto intro!: answers_sbind [OF answers_on_budget [where P = "\<lambda>_. True"]] yields_sbind)
qed (simp add: answers_sreturn yields_sreturn)

lemma fetch_windows_run:
  fixes read_window :: "'w read_window"
  assumes "\<forall>r \<in> set (concat windows). inside A r"
  shows "(serves I A read_window \<longrightarrow>
      answers I (\<lambda>out. out = start @ concat (map (range_bytes A) (concat windows))) (fetch_windows read_window windows start))
    \<and> ((\<forall>batches. (\<forall>batch \<in> set batches. \<forall>r \<in> set batch. inside A r) \<longrightarrow> yields (read_window batches) (map (map (range_bytes A)) batches)) \<longrightarrow>
      yields (fetch_windows read_window windows start) (start @ concat (map (range_bytes A) (concat windows))))"
  using assms
proof (induction windows arbitrary: start)
  case Nil
  then show ?case by (simp add: answers_sreturn yields_sreturn)
next
  case (Cons window windows)
  let ?batches = "map (\<lambda>range. [range]) window"
  have ins: "\<forall>r \<in> set window. inside A r" "\<forall>r \<in> set (concat windows). inside A r" using Cons.prems by auto
  then have batch: "\<forall>batch \<in> set ?batches. \<forall>r \<in> set batch. inside A r" by auto
  note more = Cons.IH [OF ins(2), of "start @ concat (map (range_bytes A) window)"]
  have taken: "answers I (\<lambda>out. out = start @ concat (map (range_bytes A) window))
      (take_replies ?batches (map (map (range_bytes A)) ?batches) start :: ('w, bytes) op)"
    "yields (take_replies ?batches (map (map (range_bytes A)) ?batches) start :: ('w, bytes) op) (start @ concat (map (range_bytes A) window))"
    using take_replies_run [OF ins(1), of I start] by blast+
  let ?out = "start @ concat (map (range_bytes A) (concat (window # windows)))"
  let ?rest = "\<lambda>replies. if length replies \<noteq> length ?batches then sraise (pack_protocol_error ''range backend omitted a read_ranges callback reply'')
    else sbind (take_replies ?batches replies start) (\<lambda>out. fetch_windows read_window windows out)"
  have rest: "answers I (\<lambda>out. out = ?out) (?rest (map (map (range_bytes A)) ?batches))" if "serves I A read_window"
  proof -
    have "answers I (\<lambda>out. out = ?out) (sbind (take_replies ?batches (map (map (range_bytes A)) ?batches) start) (\<lambda>out. fetch_windows read_window windows out))"
      by (rule answers_sbind [OF taken(1)]) (use more that in simp)
    then show ?thesis by simp
  qed
  have rest_yields: "yields (?rest (map (map (range_bytes A)) ?batches)) ?out"
    if "\<forall>batches. (\<forall>batch \<in> set batches. \<forall>r \<in> set batch. inside A r) \<longrightarrow> yields (read_window batches) (map (map (range_bytes A)) batches)"
    using yields_sbind [OF taken(2), of "\<lambda>out. fetch_windows read_window windows out"] more that by simp
  have ask: "answers I (\<lambda>replies. replies = map (map (range_bytes A)) ?batches) (read_window ?batches)" if "serves I A read_window"
    using that batch unfolding serves_def by blast
  show ?case
    unfolding fetch_windows.simps Let_def
  proof (intro conjI impI)
    assume s: "serves I A read_window"
    show "answers I (\<lambda>out. out = ?out) (sbind (charge_requests window) (\<lambda>_. sbind (read_window ?batches) ?rest))"
      by (rule answers_sbind [OF conjunct1 [OF charge_requests_run]], rule answers_sbind [OF ask [OF s]], hypsubst, rule rest [OF s])
  next
    assume y: "\<forall>batches. (\<forall>batch \<in> set batches. \<forall>r \<in> set batch. inside A r) \<longrightarrow> yields (read_window batches) (map (map (range_bytes A)) batches)"
    then have reply: "yields (read_window ?batches) (map (map (range_bytes A)) ?batches)" using batch by blast
    show "yields (sbind (charge_requests window) (\<lambda>_. sbind (read_window ?batches) ?rest)) ?out"
      by (rule yields_sbind [OF conjunct2 [OF charge_requests_run]], rule yields_sbind [OF reply], rule rest_yields [OF y])
  qed
qed

section \<open>Properties\<close>

text \<open>
  C29. A fetched artifact is exact: over a transport that answers ranges inside an artifact with its bytes, with chunks and windows of positive size, cutting the artifact into
  ranges ends and a successful fetch returns the artifact, whatever the chunk size and the number of requests in flight; when the transport answers and there are no ceilings, the fetch returns.
\<close>

theorem fetched_artifact_exact:
  fixes read_window :: "'w read_window"
  assumes "serves I A read_window" and "unat full = length (A key)" and "0 < chunk_bytes" and "0 < concurrency" and "I w"
  shows "(fetch_artifact read_window concurrency key full chunk_bytes (w, b) = (Inr r, s) \<longrightarrow> r = Some (A key))
    \<and> (unlimited b \<and> (\<forall>batches. (\<forall>batch \<in> set batches. \<forall>r \<in> set batch. inside A r) \<longrightarrow> yields (read_window batches) (map (map (range_bytes A)) batches)) \<longrightarrow>
       (\<exists>s. fetch_artifact read_window concurrency key full chunk_bytes (w, b) = (Inr (Some (A key)), s)))"
proof -
  from cut_ranges_cover [where A = A and key = key, OF assms(3) _ assms(2), of 0] obtain rs where rs: "cut_ranges key full chunk_bytes 0 = Some rs"
    "\<forall>r \<in> set rs. inside A r" "concat (map (range_bytes A) rs) = A key" by auto
  have windows: "\<forall>r \<in> set (concat (chunks concurrency rs)). inside A r" using rs(2) by (simp only: concat_chunks [OF assms(4)])
  note run = fetch_windows_run [OF windows, of I read_window "[]", unfolded concat_chunks [OF assms(4)] rs(3)]
  have len: "byte_len (A key) = full" using assms(2) by (simp add: byte_len_def flip: assms(2))
  let ?check = "\<lambda>out. if byte_len out \<noteq> full then sraise (pack_protocol_error ''range backend artifact length does not match the manifest'')
    else sreturn (Some out) :: ('w, bytes option) op"
  have unfolded: "fetch_artifact read_window concurrency key full chunk_bytes = sbind (fetch_windows read_window (chunks concurrency rs) []) ?check"
    using assms(4) by (simp add: fetch_artifact_def rs(1))
  have "answers I (\<lambda>r. r = Some (A key)) (fetch_artifact read_window concurrency key full chunk_bytes)"
  proof -
    have "answers I (\<lambda>out. out = A key) (fetch_windows read_window (chunks concurrency rs) [])" using run assms(1) by simp
    then show ?thesis unfolding unfolded by (rule answers_sbind) (simp add: len answers_sreturn)
  qed
  moreover have "yields (fetch_artifact read_window concurrency key full chunk_bytes) (Some (A key))"
    if "\<forall>batches. (\<forall>batch \<in> set batches. \<forall>r \<in> set batch. inside A r) \<longrightarrow> yields (read_window batches) (map (map (range_bytes A)) batches)"
  proof -
    have "yields (fetch_windows read_window (chunks concurrency rs) []) (A key)" using run that by simp
    then show ?thesis unfolding unfolded by (rule yields_sbind) (simp add: len yields_sreturn)
  qed
  ultimately have exact: "answers I (\<lambda>r. r = Some (A key)) (fetch_artifact read_window concurrency key full chunk_bytes)"
    and served: "(\<forall>batches. (\<forall>batch \<in> set batches. \<forall>r \<in> set batch. inside A r) \<longrightarrow> yields (read_window batches) (map (map (range_bytes A)) batches))
      \<Longrightarrow> yields (fetch_artifact read_window concurrency key full chunk_bytes) (Some (A key))" by blast+
  show ?thesis
  proof (intro conjI impI)
    assume "fetch_artifact read_window concurrency key full chunk_bytes (w, b) = (Inr r, s)"
    with answersD [OF exact _ this] assms(5) show "r = Some (A key)" by simp
  next
    assume "unlimited b \<and> (\<forall>batches. (\<forall>batch \<in> set batches. \<forall>r \<in> set batch. inside A r) \<longrightarrow> yields (read_window batches) (map (map (range_bytes A)) batches))"
    then show "\<exists>s. fetch_artifact read_window concurrency key full chunk_bytes (w, b) = (Inr (Some (A key)), s)"
      using yields_run [OF served, of b w] by blast
  qed
qed

lemma hash_bytes_Inr: "hash_bytes H hk bs code = Inr x \<Longrightarrow> digest_of H hk bs = Some (as_bytes x)"
  by (cases hk) (auto simp: hash_bytes_def hasher_new_def digest_of_def dest: oid_new_wf split: sum.splits option.splits)

lemma hash_bytes_digest: "digest_of H hk bs = Some d \<Longrightarrow> length d = digest_len hk \<Longrightarrow> \<exists>x. hash_bytes H hk bs code = Inr x \<and> as_bytes x = d"
  by (cases hk) (auto simp: hash_bytes_def hasher_new_def digest_of_def oid_new_def as_bytes_def split: sum.splits option.splits if_splits)

text \<open>
  C30. A pair is accepted exactly when it is verified: the pack ends with the digest of what comes before, which is the name in the manifest, and the index ends with that name and the
  digest of everything before its own checksum.
\<close>

theorem pack_pair_verified:
  "verify_pair_bytes H pack index d hk = Inr () \<longleftrightarrow>
    (\<exists>x body entries check. parse_hex (pk_id d) = Inr x \<and> length (as_bytes x) = digest_len hk \<and> length check = digest_len hk
      \<and> pack = body @ as_bytes x \<and> digest_of H hk body = Some (as_bytes x)
      \<and> index = entries @ as_bytes x @ check \<and> digest_of H hk (entries @ as_bytes x) = Some check)"
proof
  let ?n = "digest_len hk"
  assume ok: "verify_pair_bytes H pack index d hk = Inr ()"
  then obtain x where x: "parse_hex (pk_id d) = Inr x" by (auto simp: verify_pair_bytes_def split: sum.splits)
  let ?a = "length index - ?n * 2" let ?b = "length index - ?n"
  from ok x obtain ap ai where len: "?n \<le> length pack" "?n * 2 \<le> length index"
    and pk: "hash_bytes H hk (take (length pack - ?n) pack) PackChecksumMismatch = Inr ap" "as_bytes ap = as_bytes x" "drop (length pack - ?n) pack = as_bytes x"
    and ix: "take (?b - ?a) (drop ?a index) = as_bytes x" "hash_bytes H hk (take ?b index) IndexChecksumMismatch = Inr ai" "as_bytes ai = drop ?b index"
    unfolding verify_pair_bytes_def x sum.case Let_def by (auto simp: rbind_Inr_iff not_less split: if_splits)
  have b: "?b = ?a + ?n" "?b - ?a = ?n" using len(2) by linarith+
  have split: "take ?b index = take ?a index @ as_bytes x" using take_add [of ?a ?n index] ix(1) unfolding b(2) b(1) [symmetric] by (simp only:)
  have "length (as_bytes x) = ?n" unfolding pk(3) [symmetric] using len(1) by simp
  moreover have "length (drop ?b index) = ?n" using len(2) by simp
  moreover have "pack = take (length pack - ?n) pack @ as_bytes x" unfolding pk(3) [symmetric] by (rule append_take_drop_id [symmetric])
  moreover have "index = take ?a index @ as_bytes x @ drop ?b index"
    using append_take_drop_id [of ?b index] unfolding split append_assoc by (rule sym)
  moreover note hash_bytes_Inr [OF pk(1), unfolded pk(2)] hash_bytes_Inr [OF ix(2), unfolded ix(3) split]
  ultimately show "\<exists>x body entries check. parse_hex (pk_id d) = Inr x \<and> length (as_bytes x) = digest_len hk \<and> length check = digest_len hk
      \<and> pack = body @ as_bytes x \<and> digest_of H hk body = Some (as_bytes x)
      \<and> index = entries @ as_bytes x @ check \<and> digest_of H hk (entries @ as_bytes x) = Some check"
    using x by (intro exI [of _ x] exI [of _ "take (length pack - ?n) pack"] exI [of _ "take ?a index"] exI [of _ "drop ?b index"] conjI)
next
  assume "\<exists>x body entries check. parse_hex (pk_id d) = Inr x \<and> length (as_bytes x) = digest_len hk \<and> length check = digest_len hk
      \<and> pack = body @ as_bytes x \<and> digest_of H hk body = Some (as_bytes x)
      \<and> index = entries @ as_bytes x @ check \<and> digest_of H hk (entries @ as_bytes x) = Some check"
  then obtain x body entries check where p: "parse_hex (pk_id d) = Inr x" "length (as_bytes x) = digest_len hk" "length check = digest_len hk"
    "pack = body @ as_bytes x" "digest_of H hk body = Some (as_bytes x)"
    "index = entries @ as_bytes x @ check" "digest_of H hk (entries @ as_bytes x) = Some check" by blast
  from hash_bytes_digest [OF p(5,2), of PackChecksumMismatch] hash_bytes_digest [OF p(7,3), of IndexChecksumMismatch]
  obtain ap ai where h: "hash_bytes H hk body PackChecksumMismatch = Inr ap" "as_bytes ap = as_bytes x"
    "hash_bytes H hk (entries @ as_bytes x) IndexChecksumMismatch = Inr ai" "as_bytes ai = check" by blast
  show "verify_pair_bytes H pack index d hk = Inr ()"
    unfolding verify_pair_bytes_def p(1) sum.case Let_def by (simp add: p(2,3,4,6) h)
qed

section \<open>A small artifact\<close>

definition small_artifact :: "string \<Rightarrow> bytes" where
  "small_artifact key = [1, 2, 3, 4, 5]"

definition small_window :: "unit read_window" where
  "small_window batches = sreturn (map (map (range_bytes small_artifact)) batches)"

theorem fetched_artifact_exact_witness:
  "\<exists>s. fetch_artifact small_window 2 ''p'' 5 2 ((), budget_unlimited idle) = (Inr (Some [1, 2, 3, 4, 5]), s)"
proof -
  have "serves (\<lambda>_. True) small_artifact small_window" by (simp add: serves_def small_window_def answers_sreturn)
  moreover have "yields (small_window batches) (map (map (range_bytes small_artifact)) batches)" for batches
    by (simp add: small_window_def yields_sreturn)
  ultimately show ?thesis
    using fetched_artifact_exact [of "\<lambda>_. True" small_artifact small_window 5 "''p''" 2 2 "()" "budget_unlimited idle"] unlimited_start
    by (simp add: small_artifact_def)
qed

end
