(* ===== verification/Search.thy ===== *)
theory Search
  imports FileRead Layered
begin

text \<open>
  Content search over a snapshot (\<open>search.rs\<close>): the compiled matcher with its windowed literal search, the walk over blobs, the scan of a
  payload into matching lines, the cache of scans, emission within the ceilings of a page, and the cursor. The regular-expression
  engine and the byte-slice search of \<open>bstr\<close> are parameters. The loops of the walk and of the query run with a bound on their steps;
  \<open>None\<close> marks a bound that was too small.
\<close>

section \<open>Options and results\<close>

definition PREVIEW_BYTES :: nat where "PREVIEW_BYTES = 1024"
definition SCAN_CHECK_BYTES :: nat where "SCAN_CHECK_BYTES = 64 * 1024"
definition MAX_SUBMATCHES :: nat where "MAX_SUBMATCHES = 256"
definition BLOB_PREFETCH_WINDOW :: nat where "BLOB_PREFETCH_WINDOW = 64"
definition SCAN_CACHE_MATCH_CAP :: u64 where "SCAN_CACHE_MATCH_CAP = 64 * 1024"
definition MAX_CONTEXT_LINES :: u32 where "MAX_CONTEXT_LINES = 32"

datatype search_mode = SmLiteral | SmRegex
datatype search_binary_mode = SbSkip | SbText

record search_options =
  sq_mode :: search_mode
  sq_case_sensitive :: bool
  sq_path :: bytes
  sq_pathspecs :: "bytes list"
  sq_binary :: search_binary_mode
  sq_context_lines :: u32
  sq_limit :: nat
  sq_max_result_bytes :: u64
  sq_cursor :: "bytes option"

definition default_search_options :: search_options where
  "default_search_options = \<lparr>sq_mode = SmLiteral, sq_case_sensitive = True, sq_path = [], sq_pathspecs = [], sq_binary = SbSkip,
     sq_context_lines = 0, sq_limit = 1000, sq_max_result_bytes = 8 * 1024 * 1024, sq_cursor = None\<rparr>"

record search_submatch =
  sm_start :: u32
  sm_length :: u32

record search_match =
  sx_commit_oid :: oid
  sx_blob_oid :: oid
  sx_path :: bytes
  sx_line :: u32
  sx_column :: u32
  sx_preview :: bytes
  sx_preview_truncated :: bool
  sx_submatches :: "search_submatch list"
  sx_submatches_truncated :: bool
  sx_context_before :: "bytes list"
  sx_context_after :: "bytes list"

text \<open>Lengths are natural numbers, so the saturating sums of the source are sums; the result saturates at 64 bits.\<close>

definition match_payload_bytes :: "search_match \<Rightarrow> u64" where
  "match_payload_bytes m =
    (let byte_vectors = length (sx_preview m) + length (sx_path m) + sum_list (map length (sx_context_before m @ sx_context_after m));
         fixed = length (as_bytes (sx_commit_oid m)) + length (as_bytes (sx_blob_oid m)) + 16 + length (sx_submatches m) * 32
     in clamp_word (byte_vectors + fixed))"

record search_page =
  sp_matches :: "search_match list"
  sp_next_cursor :: "bytes option"
  sp_truncated :: bool
  sp_stats :: query_stats

record byte_span =
  bs_start :: u32
  bs_end :: u32

definition result_too_large :: error where
  "result_too_large = with_limit ''max_result_bytes'' (err_new ResultTooLarge ''search match position exceeds the supported result range'')"

definition position_u32 :: "nat \<Rightarrow> error + u32" where
  "position_u32 n = (if n < 2 ^ 32 then Inr (of_nat n) else Inl result_too_large)"

definition byte_span_new :: "nat \<Rightarrow> nat \<Rightarrow> error + byte_span" where
  "byte_span_new first end = rbind (position_u32 first) (\<lambda>a. rbind (position_u32 end) (\<lambda>b. Inr \<lparr>bs_start = a, bs_end = b\<rparr>))"

definition span_slice :: "bytes \<Rightarrow> byte_span \<Rightarrow> error + bytes" where
  "span_slice payload span = slice payload (unat (bs_start span)) (unat (bs_end span))"

record cached_line_match =
  cl_line :: u32
  cl_column :: u32
  cl_preview :: byte_span
  cl_line_end :: u32
  cl_context_before :: "byte_span option"
  cl_context_after :: "byte_span option"

datatype cached_scan = ScMatches "cached_line_match list" | ScBinarySkipped | ScOversizeSkipped

definition cache_weight :: "cached_scan \<Rightarrow> u64" where
  "cache_weight s = (case s of ScMatches ms \<Rightarrow> max (clamp_word (length ms)) 1 | _ \<Rightarrow> 1)"

section \<open>The matcher\<close>

text \<open>
  What the search crates provide: the first occurrence of a needle in a slice, the compilation of a pattern (with case folding or not, or the
  text of its error), the first match of a regular expression, and its successive matches.
\<close>

record 'r search_engine =
  se_find :: "bytes \<Rightarrow> bytes \<Rightarrow> nat option"
  se_build :: "bytes \<Rightarrow> bool \<Rightarrow> string + 'r"
  se_regex_find :: "'r \<Rightarrow> bytes \<Rightarrow> (nat \<times> nat) option"
  se_find_iter :: "'r \<Rightarrow> bytes \<Rightarrow> (nat \<times> nat) list"

datatype 'r compiled_matcher = MLiteral bytes | MRegex 'r

definition unsupported_regex :: "string \<Rightarrow> error" where
  "unsupported_regex reason = with_reason reason (err_new UnsupportedRegex ''regular expression is unsupported'')"

text \<open>
  The validation of \<open>std::str::from_utf8\<close>: after the first byte of a sequence, each byte that is missing ends it as incomplete, and each that does
  not continue it makes it invalid after the bytes before.
\<close>

definition second_byte_ok :: "nat \<Rightarrow> nat \<Rightarrow> bool" where
  "second_byte_ok a b \<longleftrightarrow>
    (if a = 224 then 160 \<le> b \<and> b < 192 else if a = 237 then 128 \<le> b \<and> b < 160 else if a = 240 then 144 \<le> b \<and> b < 192
     else if a = 244 then 128 \<le> b \<and> b < 144 else 128 \<le> b \<and> b < 192)"

definition utf8_width :: "nat \<Rightarrow> nat" where
  "utf8_width a = (if a < 128 then 1 else if 194 \<le> a \<and> a < 224 then 2 else if 224 \<le> a \<and> a < 240 then 3 else if 240 \<le> a \<and> a < 245 then 4 else 0)"

definition invalid_sequence :: "nat \<Rightarrow> nat \<Rightarrow> string" where
  "invalid_sequence n i = ''invalid utf-8 sequence of '' @ show_nat n @ '' bytes from index '' @ show_nat i"

definition incomplete_sequence :: "nat \<Rightarrow> string" where
  "incomplete_sequence i = ''incomplete utf-8 byte sequence from index '' @ show_nat i"

fun utf8_error :: "nat \<Rightarrow> bytes \<Rightarrow> string option" where
  "utf8_error i [] = None"
| "utf8_error i (a # r) =
    (let w = utf8_width (unat a) in
     if w = 0 then Some (invalid_sequence 1 i)
     else if w = 1 then utf8_error (i + 1) r
     else case r of
         [] \<Rightarrow> Some (incomplete_sequence i)
       | b # r2 \<Rightarrow>
           if \<not> second_byte_ok (unat a) (unat b) then Some (invalid_sequence 1 i)
           else if w = 2 then utf8_error (i + 2) r2
           else case r2 of
               [] \<Rightarrow> Some (incomplete_sequence i)
             | c # r3 \<Rightarrow>
                 if \<not> utf8_cont c then Some (invalid_sequence 2 i)
                 else if w = 3 then utf8_error (i + 3) r3
                 else case r3 of
                     [] \<Rightarrow> Some (incomplete_sequence i)
                   | d # r4 \<Rightarrow> if \<not> utf8_cont d then Some (invalid_sequence 3 i) else utf8_error (i + 4) r4)"

text \<open>\<open>{:02X}\<close>.\<close>

definition upper_hex_digit :: "nat \<Rightarrow> byte" where
  "upper_hex_digit n = of_nat (if n < 10 then 48 + n else 55 + n)"

definition escaped_literal :: "bytes \<Rightarrow> bytes" where
  "escaped_literal q = concat (map (\<lambda>b. [92, 120, upper_hex_digit (unat b div 16), upper_hex_digit (unat b mod 16)]) q)"

definition matcher_compile :: "'r search_engine \<Rightarrow> bytes \<Rightarrow> search_options \<Rightarrow> error + 'r compiled_matcher" where
  "matcher_compile E q opts =
    (if sq_mode opts = SmLiteral \<and> sq_case_sensitive opts then Inr (MLiteral q)
     else
       rbind (case sq_mode opts of
           SmLiteral \<Rightarrow> Inr (escaped_literal q)
         | SmRegex \<Rightarrow>
             (case utf8_error 0 q of
                None \<Rightarrow> Inr q
              | Some e \<Rightarrow> Inl (unsupported_regex (''regex pattern is not UTF-8: '' @ e)))) (\<lambda>pattern.
       case se_build E pattern (\<not> sq_case_sensitive opts) of
         Inl e \<Rightarrow> Inl (unsupported_regex e)
       | Inr r \<Rightarrow> Inr (MRegex r)))"

text \<open>
  \<open>literal_occurrences\<close>. A visitor takes its state and a range, and may break with a value. The inner loop searches one window from \<open>offset\<close>
  and returns the value it broke with, the new \<open>next_allowed\<close> and the visitor's state. Only a non-empty needle reaches it.
\<close>

type_synonym ('v, 'b) visitor = "nat \<times> nat \<Rightarrow> 'v \<Rightarrow> 'b option \<times> 'v"

function window_loop :: "'r search_engine \<Rightarrow> bytes \<Rightarrow> bytes \<Rightarrow> ('v, 'b) visitor \<Rightarrow> nat \<Rightarrow> nat \<Rightarrow> nat \<Rightarrow> nat \<Rightarrow> 'v
    \<Rightarrow> error + 'b option \<times> nat \<times> 'v" where
  "window_loop E line q visit core_end window_end offset next_allowed v =
    (if q \<noteq> [] \<and> offset \<le> window_end - length q then
       rbind (slice line offset window_end) (\<lambda>rest.
       case se_find E rest q of
         None \<Rightarrow> Inr (None, next_allowed, v)
       | Some relative \<Rightarrow>
           let start = offset + relative; end = start + length q in
           if core_end \<le> start \<and> core_end < length line then Inr (None, next_allowed, v)
           else case visit (start, end) v of
               (Some b, v1) \<Rightarrow> Inr (Some b, next_allowed, v1)
             | (None, v1) \<Rightarrow> window_loop E line q visit core_end window_end end end v1)
     else Inr (None, next_allowed, v))"
  by pat_completeness auto
termination
  by (relation "measure (\<lambda>(E, line, q, visit, core_end, window_end, offset, next_allowed, v). Suc window_end - offset)")
     (auto simp flip: length_greater_0_conv)

declare window_loop.simps [simp del]

function window_scan :: "'r search_engine \<Rightarrow> bytes \<Rightarrow> bytes \<Rightarrow> ('v, 'b) visitor \<Rightarrow> nat \<Rightarrow> nat \<Rightarrow> 'v \<Rightarrow> ('w, 'b option \<times> 'v) op" where
  "window_scan E line q visit core_start next_allowed v =
    (if core_start < length line then
       sbind (on_budget check) (\<lambda>_.
       let core_end = min (core_start + SCAN_CHECK_BYTES) (length line);
           window_end = min (core_end + (length q - 1)) (length line) in
       sbind (slift (window_loop E line q visit core_end window_end (max next_allowed core_start) next_allowed v)) (\<lambda>(broke, next1, v1).
       case broke of
         Some b \<Rightarrow> sreturn (Some b, v1)
       | None \<Rightarrow> window_scan E line q visit core_end next1 v1))
     else sreturn (None, v))"
  by pat_completeness auto
termination
  by (relation "measure (\<lambda>(E, line, q, visit, core_start, next_allowed, v). length line - core_start)")
     (auto simp: SCAN_CHECK_BYTES_def)

declare window_scan.simps [simp del]

definition literal_occurrences :: "'r search_engine \<Rightarrow> bytes \<Rightarrow> bytes \<Rightarrow> ('v, 'b) visitor \<Rightarrow> 'v \<Rightarrow> ('w, 'b option \<times> 'v) op" where
  "literal_occurrences E line q visit v =
    (if q = [] \<or> length line < length q then sbind (on_budget check) (\<lambda>_. sreturn (None, v))
     else window_scan E line q visit 0 0 v)"

fun first_occurrence :: "'r search_engine \<Rightarrow> 'r compiled_matcher \<Rightarrow> bytes \<Rightarrow> ('w, (nat \<times> nat) option) op" where
  "first_occurrence E (MLiteral q) line =
    (if q = [] then sreturn (Some (0, 0))
     else sbind (literal_occurrences E line q (\<lambda>found v. (Some found, v)) ()) (\<lambda>(r, _). sreturn r))"
| "first_occurrence E (MRegex re) line = sbind (on_budget check) (\<lambda>_. sreturn (se_regex_find E re line))"

definition retain :: "nat \<Rightarrow> (search_submatch list \<times> bool, unit) visitor" where
  "retain preview_len span st =
    (case span of (start, end) \<Rightarrow> case st of (subs, truncated) \<Rightarrow>
      if preview_len \<le> start \<or> length subs = MAX_SUBMATCHES then (Some (), (subs, True))
      else (None, (subs @ [\<lparr>sm_start = clamp_word start, sm_length = clamp_word (min end preview_len - start)\<rparr>], truncated)))"

fun retain_found :: "nat \<Rightarrow> (nat \<times> nat) list \<Rightarrow> search_submatch list \<times> bool \<Rightarrow> ('w, search_submatch list \<times> bool) op" where
  "retain_found preview_len [] st = sreturn st"
| "retain_found preview_len (found # rest) st =
    sbind (on_budget check) (\<lambda>_.
    case retain preview_len found st of
      (Some _, st1) \<Rightarrow> sreturn st1
    | (None, st1) \<Rightarrow> retain_found preview_len rest st1)"

fun preview_submatches :: "'r search_engine \<Rightarrow> 'r compiled_matcher \<Rightarrow> bytes \<Rightarrow> nat \<Rightarrow> ('w, search_submatch list \<times> bool) op" where
  "preview_submatches E (MLiteral q) line preview_len =
    (if q = [] then
       let retained = min preview_len MAX_SUBMATCHES in
       sreturn (map (\<lambda>start. \<lparr>sm_start = of_nat start, sm_length = 0\<rparr>) [0..<retained], retained < length line + 1)
     else sbind (literal_occurrences E line q (retain preview_len) ([], False)) (\<lambda>(_, st). sreturn st))"
| "preview_submatches E (MRegex re) line preview_len =
    sbind (on_budget check) (\<lambda>_. retain_found preview_len (se_find_iter E re line) ([], False))"

section \<open>The scan of a payload\<close>

text \<open>The lines without their newlines; the loop over one chunk, then the chunks with a budget check each.\<close>

fun chunk_lines :: "nat \<Rightarrow> bytes \<Rightarrow> nat \<Rightarrow> (nat \<times> nat) list \<Rightarrow> nat \<times> (nat \<times> nat) list" where
  "chunk_lines index [] start spans = (start, spans)"
| "chunk_lines index (b # bs) start spans =
    (if b = 10 then chunk_lines (index + 1) bs (index + 1) (spans @ [(start, index)])
     else chunk_lines (index + 1) bs start spans)"

function chunk_loop :: "bytes \<Rightarrow> nat \<Rightarrow> nat \<Rightarrow> (nat \<times> nat) list \<Rightarrow> ('w, nat \<times> (nat \<times> nat) list) op" where
  "chunk_loop payload chunk_start start spans =
    (if chunk_start < length payload then
       sbind (on_budget check) (\<lambda>_.
       let chunk_end = min (chunk_start + SCAN_CHECK_BYTES) (length payload) in
       case chunk_lines chunk_start (take (chunk_end - chunk_start) (drop chunk_start payload)) start spans of
         (start1, spans1) \<Rightarrow> chunk_loop payload chunk_end start1 spans1)
     else sreturn (start, spans))"
  by pat_completeness auto
termination
  by (relation "measure (\<lambda>(payload, chunk_start, start, spans). length payload - chunk_start)") (auto simp: SCAN_CHECK_BYTES_def)

declare chunk_loop.simps [simp del]

definition search_line_spans :: "bytes \<Rightarrow> ('w, (nat \<times> nat) list) op" where
  "search_line_spans payload =
    sbind (chunk_loop payload 0 0 []) (\<lambda>(start, spans).
    sreturn (if start < length payload then spans @ [(start, length payload)] else spans))"

definition span_lookup :: "(nat \<times> nat) list \<Rightarrow> nat \<Rightarrow> error + nat \<times> nat" where
  "span_lookup spans i = (if i < length spans then Inr (spans ! i) else Inl slice_panic)"

definition context_span :: "(nat \<times> nat) list \<Rightarrow> nat \<Rightarrow> nat \<Rightarrow> error + byte_span option" where
  "context_span spans i j =
    rbind (span_lookup spans i) (\<lambda>a. rbind (span_lookup spans j) (\<lambda>b.
    rbind (byte_span_new (fst a) (snd b)) (\<lambda>s. Inr (Some s))))"

text \<open>The record of one matching line.\<close>

definition line_match :: "(nat \<times> nat) list \<Rightarrow> nat \<Rightarrow> nat \<Rightarrow> nat \<Rightarrow> nat \<Rightarrow> nat \<Rightarrow> error + cached_line_match" where
  "line_match spans context index start end first_start =
    (let preview_end = min (end - start) PREVIEW_BYTES; before_start = index - context;
         after_end = min (index + 1 + context) (length spans) in
     rbind (position_u32 (index + 1)) (\<lambda>line.
     rbind (position_u32 first_start) (\<lambda>column.
     rbind (byte_span_new start (start + preview_end)) (\<lambda>preview.
     rbind (position_u32 end) (\<lambda>line_end.
     rbind (if before_start < index then context_span spans before_start (index - 1) else Inr None) (\<lambda>before.
     rbind (if index + 1 < after_end then context_span spans (index + 1) (after_end - 1) else Inr None) (\<lambda>after.
     Inr \<lparr>cl_line = line, cl_column = column, cl_preview = preview, cl_line_end = line_end,
          cl_context_before = before, cl_context_after = after\<rparr>)))))))"

fun scan_lines :: "'r search_engine \<Rightarrow> bytes \<Rightarrow> 'r compiled_matcher \<Rightarrow> nat \<Rightarrow> (nat \<times> nat) list \<Rightarrow> nat \<Rightarrow> (nat \<times> nat) list
    \<Rightarrow> cached_line_match list \<Rightarrow> ('w, cached_line_match list) op" where
  "scan_lines E payload M context spans index [] results = sreturn results"
| "scan_lines E payload M context spans index ((start, end) # rest) results =
    sbind (on_budget check) (\<lambda>_.
    sbind (slift (slice payload start end)) (\<lambda>line.
    sbind (first_occurrence E M line) (\<lambda>found.
    case found of
      None \<Rightarrow> scan_lines E payload M context spans (index + 1) rest results
    | Some (first_start, _) \<Rightarrow>
        sbind (slift (line_match spans context index start end first_start)) (\<lambda>m.
        scan_lines E payload M context spans (index + 1) rest (results @ [m])))))"

definition scan_payload :: "'r search_engine \<Rightarrow> bytes \<Rightarrow> 'r compiled_matcher \<Rightarrow> u32 \<Rightarrow> ('w, cached_line_match list) op" where
  "scan_payload E payload M context_lines =
    sbind (search_line_spans payload) (\<lambda>spans. scan_lines E payload M (unat context_lines) spans 0 spans [])"

definition is_binary_payload :: "bytes \<Rightarrow> bool" where
  "is_binary_payload payload \<longleftrightarrow> 0 \<in> set (take BINARY_PROBE_BYTES payload)"

definition search_missing_blob :: "oid \<Rightarrow> error" where
  "search_missing_blob x = with_oid x (err_retry MissingObject (''blob object '' @ to_hex x @ '' is missing from the object store''))"

definition not_a_blob :: "oid \<Rightarrow> error" where
  "not_a_blob x = with_oid x (err_new MalformedObject (''tree blob '' @ to_hex x @ '' addresses a non-blob object''))"

definition read_blob_payload :: "'w odb \<Rightarrow> oid \<Rightarrow> ('w, bytes option) op" where
  "read_blob_payload db x =
    sbind (sattempt (db_try_find_graph db x)) (\<lambda>r.
    case r of
      Inl e \<Rightarrow> if err_code e = ObjectTooLarge then sreturn None else sraise e
    | Inr None \<Rightarrow> sraise (search_missing_blob x)
    | Inr (Some (kind, payload)) \<Rightarrow> if kind \<noteq> Blob then sraise (not_a_blob x) else sreturn (Some payload))"

record scanned_blob =
  sb_scan :: cached_scan
  sb_payload :: "bytes option"

definition scan_blob :: "'r search_engine \<Rightarrow> 'w odb \<Rightarrow> oid \<Rightarrow> 'r compiled_matcher \<Rightarrow> search_options \<Rightarrow> ('w, scanned_blob) op" where
  "scan_blob E db x M opts =
    sbind (on_budget check) (\<lambda>_.
    sbind (db_try_header_with_provenance db x) (\<lambda>found.
    case found of
      None \<Rightarrow> sraise (search_missing_blob x)
    | Some h \<Rightarrow>
        if hdr_kind (hr_header h) \<noteq> Blob then
          sraise (case hr_provenance h of
              UnverifiedProvider \<Rightarrow> with_oid x (err_new ProviderProtocolError ''provider header contradicts tree entry kind'')
            | Verified \<Rightarrow> not_a_blob x)
        else
          sbind (on_budget (\<lambda>b. (Inr (max_object_bytes (b_limits b)), b))) (\<lambda>ceiling.
          if ceiling < hdr_size (hr_header h) then sreturn \<lparr>sb_scan = ScOversizeSkipped, sb_payload = None\<rparr>
          else
            sbind (read_blob_payload db x) (\<lambda>read.
            case read of
              None \<Rightarrow> sreturn \<lparr>sb_scan = ScOversizeSkipped, sb_payload = None\<rparr>
            | Some payload \<Rightarrow>
                sbind (on_budget check) (\<lambda>_.
                if sq_binary opts = SbSkip \<and> is_binary_payload payload then
                  sreturn \<lparr>sb_scan = ScBinarySkipped, sb_payload = Some payload\<rparr>
                else
                  sbind (scan_payload E payload M (sq_context_lines opts)) (\<lambda>ms.
                  sreturn \<lparr>sb_scan = ScMatches ms, sb_payload = Some payload\<rparr>))))))"

section \<open>The walk over blobs\<close>

record blob_candidate =
  bc_path :: bytes
  bc_oid :: oid

record walk_frame =
  wf_entries :: "owned_entry list"
  wf_prefix :: bytes

record blob_walk =
  bw_stack :: "walk_frame list"
  bw_replaying :: bool
  bw_prefetched :: "oid set"

fun prefetch_windows :: "'w odb \<Rightarrow> oid list list \<Rightarrow> ('w, unit) op" where
  "prefetch_windows db [] = sreturn ()"
| "prefetch_windows db (xs # xss) = sbind (db_prefetch db xs) (\<lambda>_. prefetch_windows db xss)"

definition wanted_blobs :: "gix \<Rightarrow> search_options \<Rightarrow> bytes option \<Rightarrow> bytes \<Rightarrow> owned_entry list \<Rightarrow> oid list" where
  "wanted_blobs G opts resume_path pre es =
    map oe_oid (filter (\<lambda>e. oe_kind e = KBlob
      \<and> (let path = join_path pre (oe_name e) in
           matcher_matches G (sq_pathspecs opts) (relative_to_scope path (sq_path opts))
           \<and> (case resume_path of None \<Rightarrow> True | Some r \<Rightarrow> r \<le> path))) es)"

definition walk_read_entries :: "gix \<Rightarrow> 'w odb \<Rightarrow> search_options \<Rightarrow> bytes option \<Rightarrow> blob_walk \<Rightarrow> oid \<Rightarrow> bytes
    \<Rightarrow> ('w, owned_entry list \<times> blob_walk) op" where
  "walk_read_entries G db opts resume_path walk x pre =
    sbind (if bw_replaying walk then read_tree_entries_for_graph_walk G db x else read_tree_entries_for_walk G db x True) (\<lambda>es.
    if db_supports_prefetch db then
      let wanted = wanted_blobs G opts resume_path pre es; pending = first_appearances (bw_prefetched walk) wanted in
      sbind (prefetch_windows db (chunks BLOB_PREFETCH_WINDOW pending)) (\<lambda>_.
      sreturn (es, walk\<lparr>bw_prefetched := bw_prefetched walk \<union> set wanted\<rparr>))
    else sreturn (es, walk))"

definition blob_walk_new :: "gix \<Rightarrow> 'w odb \<Rightarrow> search_options \<Rightarrow> bytes option \<Rightarrow> oid \<Rightarrow> ('w, blob_walk) op" where
  "blob_walk_new G db opts resume_path tree =
    sbind (walk_read_entries G db opts resume_path \<lparr>bw_stack = [], bw_replaying = (resume_path \<noteq> None), bw_prefetched = {}\<rparr> tree (sq_path opts)) (\<lambda>(es, walk).
    sreturn (walk\<lparr>bw_stack := [\<lparr>wf_entries = es, wf_prefix = sq_path opts\<rparr>]\<rparr>))"

text \<open>\<open>next\<close>; the outer option is the bound on the steps, the inner one the end of the walk.\<close>

fun blob_next :: "nat \<Rightarrow> gix \<Rightarrow> 'w odb \<Rightarrow> search_options \<Rightarrow> bytes option \<Rightarrow> blob_walk
    \<Rightarrow> ('w, (blob_candidate option \<times> blob_walk) option) op" where
  "blob_next 0 G db opts resume_path walk = sreturn None"
| "blob_next (Suc fuel) G db opts resume_path walk =
    sbind (on_budget check) (\<lambda>_.
    case bw_stack walk of
      [] \<Rightarrow> sreturn (Some (None, walk))
    | f # fs \<Rightarrow>
        (case wf_entries f of
           [] \<Rightarrow> blob_next fuel G db opts resume_path (walk\<lparr>bw_stack := fs\<rparr>)
         | e # rest \<Rightarrow>
             let path = join_path (wf_prefix f) (oe_name e); walk1 = walk\<lparr>bw_stack := f\<lparr>wf_entries := rest\<rparr> # fs\<rparr> in
             if oe_kind e = KTree then
               sbind (walk_read_entries G db opts resume_path walk1 (oe_oid e) path) (\<lambda>(es, walk2).
               blob_next fuel G db opts resume_path (walk2\<lparr>bw_stack := \<lparr>wf_entries = es, wf_prefix = path\<rparr> # bw_stack walk2\<rparr>))
             else if oe_kind e \<noteq> KBlob \<or> \<not> matcher_matches G (sq_pathspecs opts) (relative_to_scope path (sq_path opts)) then
               blob_next fuel G db opts resume_path walk1
             else
               let reached = (case resume_path of None \<Rightarrow> False | Some r \<Rightarrow> r \<le> path) in
               sreturn (Some (Some \<lparr>bc_path = path, bc_oid = oe_oid e\<rparr>, walk1\<lparr>bw_replaying := bw_replaying walk1 \<and> \<not> reached\<rparr>))))"

section \<open>Emission\<close>

definition materialize_lines :: "bytes \<Rightarrow> byte_span option \<Rightarrow> error + bytes list" where
  "materialize_lines payload span =
    (case span of
       None \<Rightarrow> Inr []
     | Some s \<Rightarrow> rbind (span_slice payload s) (\<lambda>bs. Inr (map (take PREVIEW_BYTES) (split_on 10 bs))))"

datatype emit_outcome = EmitComplete | EmitStopped string

text \<open>What a page has collected: the matches, the positions of their cursors and the bytes counted.\<close>

record collected =
  co_matches :: "search_match list"
  co_positions :: "(bytes \<times> u32) list"
  co_bytes :: u64

definition match_of :: "'r search_engine \<Rightarrow> snapshot \<Rightarrow> blob_candidate \<Rightarrow> bytes \<Rightarrow> 'r compiled_matcher \<Rightarrow> cached_line_match
    \<Rightarrow> ('w, search_match) op" where
  "match_of E snap cand payload M c =
    sbind (slift (span_slice payload (cl_preview c))) (\<lambda>preview.
    sbind (slift (slice payload (unat (bs_start (cl_preview c))) (unat (cl_line_end c)))) (\<lambda>line.
    sbind (preview_submatches E M line (length preview)) (\<lambda>(subs, subs_truncated).
    sbind (slift (materialize_lines payload (cl_context_before c))) (\<lambda>before.
    sbind (slift (materialize_lines payload (cl_context_after c))) (\<lambda>after.
    sreturn \<lparr>sx_commit_oid = commit_oid snap, sx_blob_oid = bc_oid cand, sx_path = bc_path cand, sx_line = cl_line c,
      sx_column = cl_column c, sx_preview = preview, sx_preview_truncated = bs_end (cl_preview c) < cl_line_end c,
      sx_submatches = subs, sx_submatches_truncated = subs_truncated, sx_context_before = before, sx_context_after = after\<rparr>)))))"

definition collect_match :: "search_match \<Rightarrow> bytes \<Rightarrow> u32 \<Rightarrow> collected \<Rightarrow> collected" where
  "collect_match m path ordinal acc =
    \<lparr>co_matches = co_matches acc @ [m], co_positions = co_positions acc @ [(path, ordinal)],
     co_bytes = sat_add (co_bytes acc) (match_payload_bytes m)\<rparr>"

fun emit_loop :: "'r search_engine \<Rightarrow> snapshot \<Rightarrow> blob_candidate \<Rightarrow> bytes \<Rightarrow> 'r compiled_matcher \<Rightarrow> search_options \<Rightarrow> nat
    \<Rightarrow> cached_line_match list \<Rightarrow> collected \<Rightarrow> ('w, emit_outcome \<times> collected) op" where
  "emit_loop E snap cand payload M opts ordinal [] acc = sreturn (EmitComplete, acc)"
| "emit_loop E snap cand payload M opts ordinal (c # cs) acc =
    sbind (on_budget check) (\<lambda>_.
    if length (co_matches acc) = sq_limit opts then sreturn (EmitStopped ''limit'', acc)
    else
      sbind (match_of E snap cand payload M c) (\<lambda>item.
      sbind (slift (if ordinal < 2 ^ 32 then Inr (of_nat ordinal)
          else Inl (with_limit ''max_result_bytes'' (err_new ResultTooLarge ''one file has too many matching lines for a search cursor'')))) (\<lambda>position.
      if sq_max_result_bytes opts < sat_add (co_bytes acc) (match_payload_bytes item) then
        sreturn (EmitStopped ''max_result_bytes'', if co_matches acc = [] then collect_match item (bc_path cand) position acc else acc)
      else emit_loop E snap cand payload M opts (ordinal + 1) cs (collect_match item (bc_path cand) position acc))))"

definition start_index :: "u32 option \<Rightarrow> nat \<Rightarrow> error + nat" where
  "start_index start_ordinal n =
    (case start_ordinal of
       None \<Rightarrow> Inr 0
     | Some start \<Rightarrow>
         if n \<le> unat (sat_sub start 1) then Inl (invalid_cursor ''position check failed: match ordinal is outside the file'')
         else Inr (unat start))"

definition emit_matches :: "'r search_engine \<Rightarrow> snapshot \<Rightarrow> blob_candidate \<Rightarrow> cached_line_match list \<Rightarrow> bytes \<Rightarrow> 'r compiled_matcher
    \<Rightarrow> u32 option \<Rightarrow> search_options \<Rightarrow> collected \<Rightarrow> ('w, emit_outcome \<times> collected) op" where
  "emit_matches E snap cand cs payload M start_ordinal opts acc =
    sbind (slift (start_index start_ordinal (length cs))) (\<lambda>start.
    emit_loop E snap cand payload M opts start (drop start cs) acc)"

section \<open>The cursor\<close>

definition search_cursor :: "snapshot \<Rightarrow> u64 \<Rightarrow> bytes \<Rightarrow> u32 \<Rightarrow> cursor" where
  "search_cursor snap fingerprint path ordinal =
    \<lparr>cur_hash_kind = oid_kind (commit_oid snap), cur_snapshot_digest = as_bytes (commit_oid snap), cur_operation_tag = OPERATION_SEARCH,
     cur_option_fingerprint = fingerprint, cur_generation = [], cur_position = u32_le ordinal @ path\<rparr>"

definition no_progress :: "string \<Rightarrow> error" where
  "no_progress limit = with_limit limit (err_new BudgetExceeded ''budget exhausted before any search pagination progress'')"

text \<open>The matches and the positions are popped together; a missing match would be a panic.\<close>

definition drop_last :: "collected \<Rightarrow> error + collected" where
  "drop_last acc =
    (if co_matches acc = [] then Inl panicked
     else Inr \<lparr>co_matches = butlast (co_matches acc), co_positions = butlast (co_positions acc),
               co_bytes = sat_sub (co_bytes acc) (match_payload_bytes (last (co_matches acc)))\<rparr>)"

function fit_cursor :: "snapshot \<Rightarrow> u64 \<Rightarrow> u64 \<Rightarrow> collected \<Rightarrow> string option \<Rightarrow> error + bytes \<times> collected \<times> string option" where
  "fit_cursor snap fingerprint max_result_bytes acc stopped_by =
    (if co_positions acc = [] then Inl (no_progress (case stopped_by of None \<Rightarrow> ''budget'' | Some l \<Rightarrow> l))
     else
       let encoded = encode (search_cursor snap fingerprint (fst (last (co_positions acc))) (snd (last (co_positions acc)))) in
       if MAX_CURSOR_BYTES < length encoded then
         (if length (co_matches acc) = 1 then Inl (err_new ResultTooLarge ''search continuation path exceeds the cursor size limit'')
          else case drop_last acc of
              Inl e \<Rightarrow> Inl e
            | Inr acc1 \<Rightarrow> fit_cursor snap fingerprint max_result_bytes acc1 (Some ''max_result_bytes''))
       else if (length (co_matches acc) = 1 \<and> max_result_bytes < co_bytes acc) \<or> sat_add (co_bytes acc) (byte_len encoded) \<le> max_result_bytes
         then Inr (encoded, acc, stopped_by)
       else if length (co_matches acc) = 1 then Inl (no_progress ''max_result_bytes'')
       else case drop_last acc of
           Inl e \<Rightarrow> Inl e
         | Inr acc1 \<Rightarrow> fit_cursor snap fingerprint max_result_bytes acc1 (Some ''max_result_bytes''))"
  by pat_completeness auto
termination
  by (relation "measure (\<lambda>(snap, fingerprint, n, acc, stopped_by). length (co_positions acc))") (auto simp: drop_last_def split: if_splits)

declare fit_cursor.simps [simp del]

definition validate_options :: "search_options \<Rightarrow> error + unit" where
  "validate_options opts =
    rbind (validate_path (sq_path opts)) (\<lambda>_.
    if sq_limit opts = 0 then Inl (err_new InvalidArgument ''search page limit must be greater than zero'')
    else if sq_max_result_bytes opts = 0 then Inl (err_new InvalidArgument ''search max_result_bytes must be greater than zero'')
    else if MAX_CONTEXT_LINES < sq_context_lines opts then
      Inl (err_new InvalidArgument (''context_lines must not exceed '' @ show_nat (unat MAX_CONTEXT_LINES)))
    else Inr ())"

definition search_fingerprint :: "bytes \<Rightarrow> search_options \<Rightarrow> u64" where
  "search_fingerprint q opts =
    fnv1a_64 (ascii ''gitility:search:options:v1'' @ [0] @ push_bytes q
      @ [case sq_mode opts of SmLiteral \<Rightarrow> 0 | SmRegex \<Rightarrow> 1] @ [if sq_case_sensitive opts then 1 else 0]
      @ push_bytes (sq_path opts) @ u32_le (clamp_word (length (sq_pathspecs opts)))
      @ concat (map push_bytes (sort (sq_pathspecs opts)))
      @ [case sq_binary opts of SbSkip \<Rightarrow> 0 | SbText \<Rightarrow> 1] @ u32_le (sq_context_lines opts))"

definition search_resume :: "snapshot \<Rightarrow> search_options \<Rightarrow> u64 \<Rightarrow> error + (bytes \<times> u32) option" where
  "search_resume snap opts fingerprint =
    (case sq_cursor opts of
       None \<Rightarrow> Inr None
     | Some bs \<Rightarrow>
         rbind (decode bs \<lparr>exp_hash_kind = oid_kind (commit_oid snap), exp_snapshot_digest = as_bytes (commit_oid snap),
                  exp_operation_tag = OPERATION_SEARCH, exp_option_fingerprint = fingerprint\<rparr>) (\<lambda>c.
         if cur_generation c \<noteq> [] then Inl (invalid_cursor ''generation check failed for this object store'')
         else if length (cur_position c) < 4 then Inl (invalid_cursor ''position is missing its match ordinal'')
         else
           let path = drop 4 (cur_position c); base = sq_path opts in
           if path = [] then Inl (invalid_cursor ''position is missing its path'')
           else case validate_path path of
               Inl _ \<Rightarrow> Inl (invalid_cursor ''position path check failed'')
             | Inr _ \<Rightarrow>
                 if base \<noteq> [] \<and> \<not> (prefix base path \<and> length base < length path \<and> path ! length base = 47 \<and> length base + 1 < length path)
                 then Inl (invalid_cursor ''position path is outside the searched tree'')
                 else Inr (Some (path, of_nat (le_nat (take 4 (cur_position c)))))))"

section \<open>The query\<close>

definition search_truncatable :: "error \<Rightarrow> bool" where
  "search_truncatable e \<longleftrightarrow> err_code e = BudgetExceeded
     \<and> \<not> (err_limit e = Some ''max_provider_requests'' \<or> err_limit e = Some ''max_provider_bytes'')"

record search_run =
  sn_walk :: blob_walk
  sn_cache :: "(oid, cached_scan) lru"
  sn_acc :: collected
  sn_found_resume :: bool
  sn_files_scanned :: u64
  sn_blobs_deduped :: u64
  sn_binary_skipped :: u64
  sn_oversize_skipped :: u64
  sn_payload_rereads :: u64
  sn_visited :: "oid set"
  sn_payload_reads :: "oid set"

text \<open>The end of the walk: what stopped it, and what it had collected.\<close>

type_synonym search_end = "string option \<times> search_run"

definition stop_search :: "search_run \<Rightarrow> error \<Rightarrow> ('w, search_end option) op" where
  "stop_search run e =
    (if search_truncatable e \<and> co_matches (sn_acc run) \<noteq> [] then
       sreturn (Some (Some (case err_limit e of None \<Rightarrow> ''budget'' | Some l \<Rightarrow> l), run))
     else sraise e)"

definition bump :: "bool \<Rightarrow> u64 \<Rightarrow> u64" where
  "bump b n = (if b then sat_add n 1 else n)"

text \<open>The candidate's place relative to the cursor: \<open>None\<close> skips it.\<close>

definition resume_step :: "(bytes \<times> u32) option \<Rightarrow> bool \<Rightarrow> bytes \<Rightarrow> error + (u32 option \<times> bool) option" where
  "resume_step resume found path =
    (case resume of
       None \<Rightarrow> Inr (Some (None, found))
     | Some (resume_path, resume_ordinal) \<Rightarrow>
         if found then Inr (Some (None, found))
         else if path < resume_path then Inr None
         else if resume_path < path then Inl (invalid_cursor ''position check failed: path is not in this traversal'')
         else Inr (Some (Some (sat_add resume_ordinal 1), True)))"

definition no_emitted :: error where
  "no_emitted = invalid_cursor ''position check failed: cursor path has no emitted matches''"

definition note_payload_read :: "oid \<Rightarrow> search_run \<Rightarrow> search_run" where
  "note_payload_read x run =
    run\<lparr>sn_payload_rereads := bump (x \<in> sn_payload_reads run) (sn_payload_rereads run), sn_payload_reads := insert x (sn_payload_reads run)\<rparr>"

definition emit_into :: "'r search_engine \<Rightarrow> snapshot \<Rightarrow> blob_candidate \<Rightarrow> cached_line_match list \<Rightarrow> bytes \<Rightarrow> 'r compiled_matcher
    \<Rightarrow> u32 option \<Rightarrow> search_options \<Rightarrow> search_run \<Rightarrow> (search_run \<Rightarrow> ('w, search_end option) op) \<Rightarrow> ('w, search_end option) op" where
  "emit_into E snap cand cs payload M start_ordinal opts run k =
    sbind (emit_matches E snap cand cs payload M start_ordinal opts (sn_acc run)) (\<lambda>(out, acc).
    case out of
      EmitComplete \<Rightarrow> k (run\<lparr>sn_acc := acc\<rparr>)
    | EmitStopped l \<Rightarrow> sreturn (Some (Some l, run\<lparr>sn_acc := acc\<rparr>)))"

definition visit_cached :: "'r search_engine \<Rightarrow> 'w odb \<Rightarrow> snapshot \<Rightarrow> 'r compiled_matcher \<Rightarrow> search_options \<Rightarrow> blob_candidate \<Rightarrow> u32 option
    \<Rightarrow> bool \<Rightarrow> cached_scan \<Rightarrow> (search_run \<Rightarrow> ('w, search_end option) op) \<Rightarrow> search_run \<Rightarrow> ('w, search_end option) op" where
  "visit_cached E db snap M opts cand start_ordinal first_visit scan again run =
    sbind (sattempt (on_budget charge_object_visit)) (\<lambda>charged.
    case charged of
      Inl e \<Rightarrow> stop_search run e
    | Inr _ \<Rightarrow>
        (case scan of
           ScMatches cs \<Rightarrow>
             sbind (read_blob_payload db (bc_oid cand)) (\<lambda>read.
             case read of
               None \<Rightarrow> again (run\<lparr>sn_oversize_skipped := bump first_visit (sn_oversize_skipped run)\<rparr>)
             | Some payload \<Rightarrow> emit_into E snap cand cs payload M start_ordinal opts (note_payload_read (bc_oid cand) run) again)
         | _ \<Rightarrow> if start_ordinal \<noteq> None then sraise no_emitted else again run))"

definition count_scan :: "cached_scan \<Rightarrow> bool \<Rightarrow> search_run \<Rightarrow> search_run" where
  "count_scan scan first_visit run =
    (case scan of
       ScMatches _ \<Rightarrow> run\<lparr>sn_files_scanned := bump first_visit (sn_files_scanned run)\<rparr>
     | ScBinarySkipped \<Rightarrow> run\<lparr>sn_binary_skipped := bump first_visit (sn_binary_skipped run)\<rparr>
     | ScOversizeSkipped \<Rightarrow> run\<lparr>sn_oversize_skipped := bump first_visit (sn_oversize_skipped run)\<rparr>)"

definition remember_scan :: "oid \<Rightarrow> cached_scan \<Rightarrow> (search_run \<Rightarrow> ('w, search_end option) op) \<Rightarrow> search_run \<Rightarrow> ('w, search_end option) op" where
  "remember_scan x scan again run =
    (case insert_counting_evictions x scan (cache_weight scan) (sn_cache run) of
       None \<Rightarrow> sraise panicked
     | Some (_, cache) \<Rightarrow> again (run\<lparr>sn_cache := cache\<rparr>))"

definition visit_fresh :: "'r search_engine \<Rightarrow> 'w odb \<Rightarrow> snapshot \<Rightarrow> 'r compiled_matcher \<Rightarrow> search_options \<Rightarrow> blob_candidate \<Rightarrow> u32 option
    \<Rightarrow> bool \<Rightarrow> (search_run \<Rightarrow> ('w, search_end option) op) \<Rightarrow> search_run \<Rightarrow> ('w, search_end option) op" where
  "visit_fresh E db snap M opts cand start_ordinal first_visit again run =
    sbind (sattempt (scan_blob E db (bc_oid cand) M opts)) (\<lambda>scanned.
    case scanned of
      Inl e \<Rightarrow> stop_search run e
    | Inr s \<Rightarrow>
        let run1 = count_scan (sb_scan s) first_visit (if sb_payload s \<noteq> None then note_payload_read (bc_oid cand) run else run) in
        (case sb_scan s of
           ScMatches cs \<Rightarrow>
             (case sb_payload s of
                None \<Rightarrow> sraise panicked
              | Some payload \<Rightarrow> emit_into E snap cand cs payload M start_ordinal opts run1 (remember_scan (bc_oid cand) (sb_scan s) again))
         | _ \<Rightarrow> if start_ordinal \<noteq> None then sraise no_emitted else remember_scan (bc_oid cand) (sb_scan s) again run1))"

definition visit_blob :: "'r search_engine \<Rightarrow> 'w odb \<Rightarrow> snapshot \<Rightarrow> 'r compiled_matcher \<Rightarrow> search_options \<Rightarrow> blob_candidate \<Rightarrow> u32 option
    \<Rightarrow> (search_run \<Rightarrow> ('w, search_end option) op) \<Rightarrow> search_run \<Rightarrow> ('w, search_end option) op" where
  "visit_blob E db snap M opts cand start_ordinal again run =
    (let x = bc_oid cand; first_visit = (x \<notin> sn_visited run);
         run1 = run\<lparr>sn_visited := insert x (sn_visited run), sn_blobs_deduped := bump (\<not> first_visit) (sn_blobs_deduped run)\<rparr> in
     case lru_get x (sn_cache run1) of
       None \<Rightarrow> sraise panicked
     | Some (Some scan, cache) \<Rightarrow> visit_cached E db snap M opts cand start_ordinal first_visit scan again (run1\<lparr>sn_cache := cache\<rparr>)
     | Some (None, cache) \<Rightarrow> visit_fresh E db snap M opts cand start_ordinal first_visit again (run1\<lparr>sn_cache := cache\<rparr>))"

fun search_loop :: "nat \<Rightarrow> 'r search_engine \<Rightarrow> gix \<Rightarrow> 'w odb \<Rightarrow> snapshot \<Rightarrow> 'r compiled_matcher \<Rightarrow> search_options \<Rightarrow> (bytes \<times> u32) option
    \<Rightarrow> search_run \<Rightarrow> ('w, search_end option) op" where
  "search_loop 0 E G db snap M opts resume run = sreturn None"
| "search_loop (Suc fuel) E G db snap M opts resume run =
    sbind (on_budget check) (\<lambda>_.
    sbind (sattempt (blob_next (Suc fuel) G db opts (map_option fst resume) (sn_walk run))) (\<lambda>next.
    case next of
      Inl e \<Rightarrow> stop_search run e
    | Inr None \<Rightarrow> sreturn None
    | Inr (Some (None, walk)) \<Rightarrow> sreturn (Some (None, run\<lparr>sn_walk := walk\<rparr>))
    | Inr (Some (Some cand, walk)) \<Rightarrow>
        let run1 = run\<lparr>sn_walk := walk\<rparr> in
        sbind (slift (resume_step resume (sn_found_resume run1) (bc_path cand))) (\<lambda>place.
        case place of
          None \<Rightarrow> search_loop fuel E G db snap M opts resume run1
        | Some (start_ordinal, found) \<Rightarrow>
            visit_blob E db snap M opts cand start_ordinal (search_loop fuel E G db snap M opts resume) (run1\<lparr>sn_found_resume := found\<rparr>))))"

definition search_run_new :: "blob_walk \<Rightarrow> u64 \<Rightarrow> bool \<Rightarrow> search_run" where
  "search_run_new walk capacity found =
    \<lparr>sn_walk = walk, sn_cache = lru_new capacity, sn_acc = \<lparr>co_matches = [], co_positions = [], co_bytes = 0\<rparr>, sn_found_resume = found,
     sn_files_scanned = 0, sn_blobs_deduped = 0, sn_binary_skipped = 0, sn_oversize_skipped = 0, sn_payload_rereads = 0,
     sn_visited = {}, sn_payload_reads = {}\<rparr>"

definition search_page_of :: "'w odb \<Rightarrow> snapshot \<Rightarrow> u64 \<Rightarrow> search_options \<Rightarrow> search_end \<Rightarrow> 'w \<times> budget \<Rightarrow> error + search_page" where
  "search_page_of db snap fingerprint opts e s =
    (case e of (stopped_by, run) \<Rightarrow>
      if \<not> sn_found_resume run then Inl (invalid_cursor ''position check failed: path is not in this traversal'')
      else
        rbind (if stopped_by \<noteq> None then
            rbind (fit_cursor snap fingerprint (sq_max_result_bytes opts) (sn_acc run) stopped_by) (\<lambda>(c, acc, by). Inr (Some c, acc, by))
          else Inr (None, sn_acc run, stopped_by)) (\<lambda>(next_cursor, acc, by).
        Inr \<lparr>sp_matches = co_matches acc, sp_next_cursor = next_cursor, sp_truncated = (by \<noteq> None),
             sp_stats = (query_stats_of db (of_nat (length (co_matches acc))) by s)
               \<lparr>qs_files_scanned := sn_files_scanned run, qs_blobs_deduped := sn_blobs_deduped run, qs_binary_skipped := sn_binary_skipped run,
                qs_oversize_skipped := sn_oversize_skipped run, qs_payload_rereads := sn_payload_rereads run\<rparr>\<rparr>))"

definition search_with_cache_capacity :: "nat \<Rightarrow> 'r search_engine \<Rightarrow> gix \<Rightarrow> 'w odb \<Rightarrow> snapshot \<Rightarrow> bytes \<Rightarrow> search_options \<Rightarrow> u64
    \<Rightarrow> ('w, search_page option) op" where
  "search_with_cache_capacity fuel E G db snap q opts capacity =
    sbind (slift (ensure_query_compatible db snap)) (\<lambda>_.
    sbind (slift (validate_options opts)) (\<lambda>_.
    sbind (on_budget check) (\<lambda>_.
    sbind (slift (matcher_compile E q opts)) (\<lambda>M.
    let fingerprint = search_fingerprint q opts in
    sbind (slift (search_resume snap opts fingerprint)) (\<lambda>resume.
    sbind (if resume \<noteq> None then resolve_path_for_graph_walk G db snap (sq_path opts) else resolve_path G db snap (sq_path opts)) (\<lambda>resolved.
    sbind (slift (listed_tree resolved)) (\<lambda>tree.
    sbind (blob_walk_new G db opts (map_option fst resume) tree) (\<lambda>walk.
    sbind (search_loop fuel E G db snap M opts resume (search_run_new walk capacity (resume = None))) (\<lambda>ended.
    case ended of
      None \<Rightarrow> sreturn None
    | Some e \<Rightarrow> (\<lambda>s. (rbind (search_page_of db snap fingerprint opts e s) (\<lambda>p. Inr (Some p)), s)))))))))))"

definition search :: "nat \<Rightarrow> 'r search_engine \<Rightarrow> gix \<Rightarrow> 'w odb \<Rightarrow> snapshot \<Rightarrow> bytes \<Rightarrow> search_options \<Rightarrow> ('w, search_page option) op" where
  "search fuel E G db snap q opts = search_with_cache_capacity fuel E G db snap q opts SCAN_CACHE_MATCH_CAP"

end
