(* ===== verification/SearchScan.thy ===== *)
theory SearchScan
  imports Search
begin

text \<open>
  What a scan finds: the windowed literal search visits the occurrences that a direct search visits, the spans are the lines of the payload,
  and a scanned payload has one record for each line that contains the query, with its number, column, preview and context.
\<close>

section \<open>The windowed search\<close>

text \<open>The first position at which a needle occurs, and its successive occurrences without overlap.\<close>

fun first_at :: "'a list \<Rightarrow> 'a list \<Rightarrow> nat option" where
  "first_at q [] = (if q = [] then Some 0 else None)"
| "first_at q (x # xs) = (if prefix q (x # xs) then Some 0 else map_option Suc (first_at q xs))"

text \<open>\<open>ByteSlice::find\<close> returns the first occurrence.\<close>

definition find_law :: "'r search_engine \<Rightarrow> bool" where
  "find_law E \<longleftrightarrow> (\<forall>h q. se_find E h q = first_at q h)"

function occurrences :: "'a list \<Rightarrow> 'a list \<Rightarrow> nat \<Rightarrow> (nat \<times> nat) list" where
  "occurrences q line offset =
    (if q = [] then []
     else case first_at q (drop offset line) of
         None \<Rightarrow> []
       | Some r \<Rightarrow> (offset + r, offset + r + length q) # occurrences q line (offset + r + length q))"
  by pat_completeness auto

text \<open>The needle occurs at a position.\<close>

abbreviation occurs :: "'a list \<Rightarrow> 'a list \<Rightarrow> nat \<Rightarrow> bool" where
  "occurs q xs i \<equiv> prefix q (drop i xs)"

lemma first_at_Some: "first_at q xs = Some i \<longleftrightarrow> occurs q xs i \<and> (\<forall>j < i. \<not> occurs q xs j)"
proof (induction xs arbitrary: i)
  case (Cons x xs)
  show ?case
  proof (cases i)
    case (Suc k)
    have "(\<forall>j < Suc k. \<not> occurs q (x # xs) j) \<longleftrightarrow> \<not> prefix q (x # xs) \<and> (\<forall>j < k. \<not> occurs q xs j)"
      by (auto simp: less_Suc_eq_0_disj)
    then show ?thesis unfolding Suc using Cons.IH [of k] by auto
  qed auto
qed (cases q; auto)

lemma first_at_None: "first_at q xs = None \<longleftrightarrow> (\<forall>i. \<not> occurs q xs i)"
proof (induction xs)
  case (Cons x xs)
  have "(\<forall>i. \<not> occurs q (x # xs) i) \<longleftrightarrow> \<not> prefix q (x # xs) \<and> (\<forall>i. \<not> occurs q xs i)"
    by (metis drop0 drop_Suc_Cons not0_implies_Suc)
  with Cons.IH show ?case by auto
qed auto

lemma first_at_bound: "first_at q xs = Some i \<Longrightarrow> i \<le> length xs"
  by (induction xs arbitrary: i) (auto split: if_splits)

lemma occurs_length: "q \<noteq> [] \<Longrightarrow> occurs q xs i \<Longrightarrow> i + length q \<le> length xs"
  by (cases "i \<le> length xs") (use prefix_length_le in fastforce)+

lemma occurs_drop: "occurs q (drop a xs) i \<longleftrightarrow> occurs q xs (a + i)"
  by (simp add: add.commute)

lemma occurs_take: "q \<noteq> [] \<Longrightarrow> occurs q (take n xs) i \<longleftrightarrow> occurs q xs i \<and> i + length q \<le> n"
proof -
  assume q: "q \<noteq> []"
  have "prefix q (take m ys) \<longleftrightarrow> prefix q ys \<and> length q \<le> m" for m and ys :: "'a list"
    by (metis append_eq_conv_conj length_take min.bounded_iff prefix_def prefix_length_le prefix_order.trans take_is_prefix take_take min.absorb1)
  with q show ?thesis by (auto simp: drop_take simp flip: length_greater_0_conv)
qed

termination occurrences
proof (relation "measure (\<lambda>(q, line, offset). Suc (length line) - offset)")
  fix q line :: "'a list" and offset r
  assume q: "q \<noteq> []" and f: "first_at q (drop offset line) = Some r"
  then have "offset + r + length q \<le> length line"
    using occurs_length [OF q, of "offset + r" line] by (simp add: first_at_Some add.commute)
  moreover have "0 < length q" using q by simp
  ultimately have "Suc (length line) - (offset + r + length q) < Suc (length line) - offset" by linarith
  then show "((q, line, offset + r + length q), (q, line, offset)) \<in> measure (\<lambda>(q, line, offset). Suc (length line) - offset)" by simp
qed simp

declare occurrences.simps [simp del]

fun visit_all :: "('v, 'b) visitor \<Rightarrow> (nat \<times> nat) list \<Rightarrow> 'v \<Rightarrow> 'b option \<times> 'v" where
  "visit_all visit [] v = (None, v)"
| "visit_all visit (x # xs) v = (case visit x v of (Some b, v1) \<Rightarrow> (Some b, v1) | (None, v1) \<Rightarrow> visit_all visit xs v1)"

text \<open>Positions at which nothing starts can be skipped.\<close>

lemma first_at_skip:
  assumes "\<forall>i. a \<le> i \<and> i < a + k \<longrightarrow> \<not> occurs q xs i"
  shows "first_at q (drop a xs) = map_option (\<lambda>r. r + k) (first_at q (drop (a + k) xs))"
proof -
  have before: "\<not> occurs q (drop a xs) j" if "j < k" for j
    using assms that by (simp add: occurs_drop)
  have after: "occurs q (drop a xs) (k + j) = occurs q (drop (a + k) xs) j" for j
    by (simp add: add.commute add.left_commute)
  show ?thesis
  proof (cases "first_at q (drop (a + k) xs)")
    case None
    then have "\<not> occurs q (drop a xs) i" for i
      unfolding first_at_None by (metis after before le_add_diff_inverse not_less)
    with None show ?thesis using first_at_None by fastforce
  next
    case (Some r)
    then have "occurs q (drop a xs) (r + k)" "\<forall>j < r + k. \<not> occurs q (drop a xs) j"
      unfolding first_at_Some by (metis add.commute after, metis add.commute add_less_cancel_left after before le_add_diff_inverse not_less)
    then have "first_at q (drop a xs) = Some (r + k)" by (simp only: first_at_Some simp_thms)
    with Some show ?thesis by simp
  qed
qed

lemma occurrences_skip:
  assumes "\<forall>i. a \<le> i \<and> i < c \<longrightarrow> \<not> occurs q line i" and "a \<le> c"
  shows "occurrences q line a = occurrences q line c"
proof -
  obtain k where k: "c = a + k" using \<open>a \<le> c\<close> le_Suc_ex by blast
  have "first_at q (drop a line) = map_option (\<lambda>r. r + k) (first_at q (drop (a + k) line))"
    by (rule first_at_skip) (use assms(1) k in auto)
  then show ?thesis
    unfolding k occurrences.simps [of q line a] occurrences.simps [of q line "a + k"]
    by (cases "first_at q (drop (a + k) line)") (simp_all add: add.commute add.left_commute)
qed

lemma occurrences_end: "q \<noteq> [] \<Longrightarrow> length line < a + length q \<Longrightarrow> occurrences q line a = []"
proof -
  assume q: "q \<noteq> []" "length line < a + length q"
  have "\<not> occurs q (drop a line) i" for i
    using occurs_length [OF q(1), of "i + a" line] q(2) by auto
  then have "first_at q (drop a line) = None" using first_at_None by blast
  then show ?thesis by (subst occurrences.simps) simp
qed

text \<open>A search in a window finds what starts and ends in it.\<close>

lemma first_at_window:
  assumes "q \<noteq> []"
  shows "first_at q (take n xs) = (case first_at q xs of Some r \<Rightarrow> if r + length q \<le> n then Some r else None | None \<Rightarrow> None)"
proof (cases "first_at q (take n xs)")
  case None
  then have "\<not> (occurs q xs i \<and> i + length q \<le> n)" for i
    unfolding first_at_None occurs_take [OF assms] by blast
  with None show ?thesis by (auto simp: first_at_Some split: option.split)
next
  case (Some r)
  then have "occurs q xs r \<and> r + length q \<le> n \<and> (\<forall>j < r. \<not> occurs q xs j)"
    unfolding first_at_Some occurs_take [OF assms] by auto
  moreover from this have "first_at q xs = Some r" unfolding first_at_Some by blast
  ultimately show ?thesis using Some by simp
qed

lemma window_step:
  assumes "q \<noteq> []" and "window_end \<le> length line" and "offset \<le> window_end"
  shows "first_at q (take (window_end - offset) (drop offset line)) =
    (case occurrences q line offset of (s, e) # _ \<Rightarrow> if e \<le> window_end then Some (s - offset) else None | [] \<Rightarrow> None)"
  using assms by (subst occurrences.simps) (auto simp: first_at_window split: option.split)

text \<open>One window: the visitor sees the occurrences before its end, and the rest starts at the next window or after the last occurrence.\<close>

text \<open>The steps of the inner loop.\<close>

lemma window_loop_stops:
  assumes "\<not> offset \<le> window_end - length q \<or> (window_end \<le> length line \<and> offset \<le> window_end \<and> find_law E
      \<and> (case first_at q (take (window_end - offset) (drop offset line)) of None \<Rightarrow> True | Some r \<Rightarrow> core_end \<le> offset + r \<and> core_end < length line))"
  shows "window_loop E line q visit core_end window_end offset next_allowed v = Inr (None, next_allowed, v)"
  using assms by (subst window_loop.simps) (auto simp: slice_def find_law_def Let_def split: option.splits)

lemma window_loop_goes:
  assumes "q \<noteq> []" and "offset \<le> window_end - length q" and "window_end \<le> length line" and "find_law E"
    and "first_at q (take (window_end - offset) (drop offset line)) = Some r" and "\<not> (core_end \<le> offset + r \<and> core_end < length line)"
  shows "window_loop E line q visit core_end window_end offset next_allowed v =
    (case visit (offset + r, offset + r + length q) v of
       (Some b, v1) \<Rightarrow> Inr (Some b, next_allowed, v1)
     | (None, v1) \<Rightarrow> window_loop E line q visit core_end window_end (offset + r + length q) (offset + r + length q) v1)"
proof -
  have "slice line offset window_end = Inr (take (window_end - offset) (drop offset line))"
    using assms(2,3) by (simp add: slice_def)
  then show ?thesis
    using assms by (subst window_loop.simps) (auto simp: find_law_def Let_def)
qed

lemma window_loop_visits:
  assumes E: "find_law E" and q: "q \<noteq> []" and "core_end \<le> length line" and we: "window_end = min (core_end + (length q - 1)) (length line)"
    and "next_allowed \<le> offset" and "offset \<le> core_end \<or> offset = next_allowed"
  shows "\<exists>broke next1 v1. window_loop E line q visit core_end window_end offset next_allowed v = Inr (broke, next1, v1)
    \<and> visit_all visit (occurrences q line offset) v =
        (case broke of Some b \<Rightarrow> (Some b, v1) | None \<Rightarrow> visit_all visit (occurrences q line (max next1 core_end)) v1)"
  using assms(5,6)
proof (induction "Suc window_end - offset" arbitrary: offset next_allowed v rule: less_induct)
  case less
  let ?here = "first_at q (take (window_end - offset) (drop offset line))"
  have wl: "window_end \<le> length line" using we by simp
  have fits: "i + length q \<le> window_end" if "occurs q line i" "i < core_end" for i
    using occurs_length [OF q that(1)] that(2) we by auto
  have stop: ?case if "window_loop E line q visit core_end window_end offset next_allowed v = Inr (None, next_allowed, v)"
    and none: "\<And>i. offset \<le> i \<Longrightarrow> i < core_end \<Longrightarrow> \<not> occurs q line i"
  proof -
    have "occurrences q line offset = occurrences q line (max next_allowed core_end)"
      using occurrences_skip [of offset core_end q line] none less.prems by (cases "offset \<le> core_end") (auto simp: max_def)
    with that(1) show ?thesis by simp
  qed
  show ?case
  proof (cases "offset \<le> window_end - length q")
    case False
    show ?thesis
    proof (rule stop)
      show "window_loop E line q visit core_end window_end offset next_allowed v = Inr (None, next_allowed, v)"
        using False by (intro window_loop_stops) simp
      show "\<not> occurs q line i" if "offset \<le> i" "i < core_end" for i using fits [of i] that False by linarith
    qed
  next
    case True
    have shift: "\<exists>j. i = offset + j" if "offset \<le> i" for i using that le_Suc_ex by blast
    show ?thesis
    proof (cases ?here)
      case None
      show ?thesis
      proof (rule stop)
        show "window_loop E line q visit core_end window_end offset next_allowed v = Inr (None, next_allowed, v)"
          using None True wl E by (intro window_loop_stops) auto
        show "\<not> occurs q line i" if i: "offset \<le> i" "i < core_end" for i
        proof
          assume o: "occurs q line i"
          from shift [OF i(1)] obtain j where j: "i = offset + j" by blast
          then have "occurs q (drop offset line) j" using o by (simp add: add.commute)
          moreover have "j + length q \<le> window_end - offset" using fits [OF o i(2)] j by simp
          ultimately have "occurs q (take (window_end - offset) (drop offset line)) j" using occurs_take [OF q] by blast
          with None show False unfolding first_at_None by blast
        qed
      qed
    next
      case (Some r)
      let ?e = "offset + r + length q"
      from Some have first: "first_at q (drop offset line) = Some r"
        by (simp add: first_at_window [OF q] split: option.splits if_splits)
      then have occ: "occurrences q line offset = (offset + r, ?e) # occurrences q line ?e"
        using q by (subst occurrences.simps) simp
      show ?thesis
      proof (cases "core_end \<le> offset + r \<and> core_end < length line")
        case past: True
        show ?thesis
        proof (rule stop)
          show "window_loop E line q visit core_end window_end offset next_allowed v = Inr (None, next_allowed, v)"
            using Some True wl E past by (intro window_loop_stops) auto
          show "\<not> occurs q line i" if i: "offset \<le> i" "i < core_end" for i
          proof -
            from shift [OF i(1)] obtain j where j: "i = offset + j" by blast
            with i past have "j < r" by simp
            with first have "\<not> occurs q (drop offset line) j" unfolding first_at_Some by blast
            with j show ?thesis by (simp add: add.commute)
          qed
        qed
      next
        case here: False
        note go = window_loop_goes [OF q True wl E Some here, of visit next_allowed v]
        obtain broke v1 where visit: "visit (offset + r, ?e) v = (broke, v1)" by force
        show ?thesis
        proof (cases broke)
          case (Some b)
          with go visit occ show ?thesis by simp
        next
          case None
          have "Suc window_end - ?e < Suc window_end - offset" using True q by (simp flip: length_greater_0_conv)
          from less.hyps [OF this, of ?e v1] None go visit occ show ?thesis by simp
        qed
      qed
    qed
  qed
qed

text \<open>All windows together visit all occurrences, in order, until the visitor breaks.\<close>

lemma sbind_slift: "sbind (slift (Inr x)) k = k x"
  by (rule ext) (simp add: sbind_def slift_def)

lemma window_scan_step:
  assumes "find_law E" and "q \<noteq> []" and "c < length line"
  obtains c1 next1 v1 broke where "c < c1" "c1 \<le> length line"
    and "visit_all visit (occurrences q line (max next_allowed c)) v =
      (case broke of Some b \<Rightarrow> (Some b, v1) | None \<Rightarrow> visit_all visit (occurrences q line (max next1 c1)) v1)"
    and "window_scan E line q visit c next_allowed v = sbind (on_budget check) (\<lambda>_.
      case broke of Some b \<Rightarrow> sreturn (Some b, v1) | None \<Rightarrow> window_scan E line q visit c1 next1 v1)"
proof -
  let ?c1 = "min (c + SCAN_CHECK_BYTES) (length line)"
  let ?we = "min (?c1 + (length q - 1)) (length line)"
  have c1: "c < ?c1" "?c1 \<le> length line" using assms(3) by (simp_all add: SCAN_CHECK_BYTES_def)
  then have inv: "next_allowed \<le> max next_allowed c" "max next_allowed c \<le> ?c1 \<or> max next_allowed c = next_allowed" by auto
  from window_loop_visits [OF assms(1,2) c1(2) refl inv, of visit v] obtain broke next1 v1 where
    loop: "window_loop E line q visit ?c1 ?we (max next_allowed c) next_allowed v = Inr (broke, next1, v1)"
      "visit_all visit (occurrences q line (max next_allowed c)) v =
        (case broke of Some b \<Rightarrow> (Some b, v1) | None \<Rightarrow> visit_all visit (occurrences q line (max next1 ?c1)) v1)" by blast
  have "window_scan E line q visit c next_allowed v = sbind (on_budget check) (\<lambda>_.
      case broke of Some b \<Rightarrow> sreturn (Some b, v1) | None \<Rightarrow> window_scan E line q visit ?c1 next1 v1)"
    using assms(3) loop(1) by (subst window_scan.simps) (simp add: Let_def sbind_slift)
  with that c1 loop(2) show thesis by blast
qed

lemma window_scan_visits:
  assumes "find_law E" and "q \<noteq> []"
  shows "answers I (\<lambda>r. r = visit_all visit (occurrences q line (max next_allowed c)) v) (window_scan E line q visit c next_allowed v :: ('w, 'b option \<times> 'v) op)
    \<and> yields (window_scan E line q visit c next_allowed v :: ('w, 'b option \<times> 'v) op) (visit_all visit (occurrences q line (max next_allowed c)) v)"
proof (induction "length line - c" arbitrary: c next_allowed v rule: less_induct)
  case less
  show ?case
  proof (cases "c < length line")
    case False
    then have "occurrences q line (max next_allowed c) = []"
      using assms(2) by (intro occurrences_end) (auto simp flip: length_greater_0_conv)
    with False show ?thesis by (subst (1 2) window_scan.simps) (auto intro: answers_sreturn yields_sreturn)
  next
    case True
    obtain c1 next1 v1 broke where step: "c < c1" "c1 \<le> length line"
      "visit_all visit (occurrences q line (max next_allowed c)) v =
        (case broke of Some b \<Rightarrow> (Some b, v1) | None \<Rightarrow> visit_all visit (occurrences q line (max next1 c1)) v1)"
      "(window_scan E line q visit c next_allowed v :: ('w, 'b option \<times> 'v) op) = sbind (on_budget check) (\<lambda>_.
        case broke of Some b \<Rightarrow> sreturn (Some b, v1) | None \<Rightarrow> window_scan E line q visit c1 next1 v1)"
      by (rule window_scan_step [OF assms True])
    have "length line - c1 < length line - c" using step(1) True by simp
    note rest = less.hyps [OF this]
    show ?thesis
      unfolding step(3,4) using rest
      by (cases broke) (auto intro!: answers_sbind [OF answers_on_budget [where P = "\<lambda>_. True"]] yields_sbind [OF yields_check] answers_sreturn yields_sreturn)
  qed
qed

lemma literal_visits:
  assumes "find_law E"
  shows "answers I (\<lambda>r. r = visit_all visit (occurrences q line 0) v) (literal_occurrences E line q visit v :: ('w, 'b option \<times> 'v) op)
    \<and> yields (literal_occurrences E line q visit v :: ('w, 'b option \<times> 'v) op) (visit_all visit (occurrences q line 0) v)"
proof (cases "q = [] \<or> length line < length q")
  case True
  then have "occurrences q line 0 = []"
    using occurrences_end [of q line 0] by (auto simp: occurrences.simps)
  with True show ?thesis
    by (auto simp: literal_occurrences_def intro!: answers_sbind [OF answers_on_budget [where P = "\<lambda>_. True"]] yields_sbind [OF yields_check]
        answers_sreturn yields_sreturn)
next
  case False
  then show ?thesis using window_scan_visits [OF assms, of q I visit line 0 0 v] by (simp add: literal_occurrences_def)
qed

lemma first_occurrence_literal:
  assumes "find_law E"
  shows "answers I (\<lambda>r. map_option fst r = first_at q line) (first_occurrence E (MLiteral q) line :: ('w, (nat \<times> nat) option) op)
    \<and> yields (first_occurrence E (MLiteral q) line :: ('w, (nat \<times> nat) option) op) (map_option (\<lambda>i. (i, i + length q)) (first_at q line))"
proof (cases "q = []")
  case True
  then have "first_at q line = Some 0" by (cases line) auto
  with True show ?thesis by (auto intro: answers_sreturn yields_sreturn)
next
  case False
  let ?visit = "\<lambda>found v :: unit. (Some found, v)"
  have first: "visit_all ?visit (occurrences q line 0) () = (map_option (\<lambda>i. (i, i + length q)) (first_at q line), ())"
    using False by (subst occurrences.simps) (auto split: option.split)
  from literal_visits [OF assms, of I ?visit q line "()"] False first show ?thesis
    by (auto intro!: answers_sbind [where Q = "\<lambda>r. r = visit_all ?visit (occurrences q line 0) ()"] answers_sreturn
        yields_sbind [where v = "visit_all ?visit (occurrences q line 0) ()"] yields_sreturn simp: option.map_comp comp_def option.map_ident)
qed

section \<open>Lines\<close>

text \<open>The lines of a text without their newlines; a newline at the end starts no line.\<close>

definition text_lines :: "bytes \<Rightarrow> bytes list" where
  "text_lines bs = (let ls = split_on 10 bs in if last ls = [] then butlast ls else ls)"

fun line_offsets :: "nat \<Rightarrow> bytes list \<Rightarrow> (nat \<times> nat) list" where
  "line_offsets i [] = []"
| "line_offsets i (l # ls) = (i, i + length l) # line_offsets (i + length l + 1) ls"

lemma text_lines_Nil [simp]: "text_lines [] = []"
  by (simp add: text_lines_def)

lemma text_lines_last: "10 \<notin> set cur \<Longrightarrow> cur \<noteq> [] \<Longrightarrow> text_lines cur = [cur]"
  by (simp add: text_lines_def split_on_single)

lemma text_lines_sep: "10 \<notin> set cur \<Longrightarrow> text_lines (cur @ 10 # bs) = cur # text_lines bs"
  by (simp add: text_lines_def split_on_append Let_def)

lemma chunk_lines_append:
  "chunk_lines i (xs @ ys) start spans = (case chunk_lines i xs start spans of (s, sp) \<Rightarrow> chunk_lines (i + length xs) ys s sp)"
  by (induction i xs start spans rule: chunk_lines.induct) auto

text \<open>The state of the loop: the spans so far, and a line that has begun.\<close>

lemma chunk_lines_spans:
  assumes "10 \<notin> set cur" and "i = start + length cur"
  shows "(case chunk_lines i bs start spans of (s, sp) \<Rightarrow> if s < i + length bs then sp @ [(s, i + length bs)] else sp)
    = spans @ line_offsets start (text_lines (cur @ bs))"
  using assms
proof (induction i bs start spans arbitrary: cur rule: chunk_lines.induct)
  case (1 i start spans)
  then show ?case by (cases "cur = []") (auto simp: text_lines_last)
next
  case (2 i b bs start spans)
  show ?case
  proof (cases "b = 10")
    case True
    with "2.IH"(1) [OF True, of "[]"] "2.prems" show ?thesis by (auto simp: text_lines_sep split: prod.splits)
  next
    case False
    with "2.IH"(2) [OF False, of "cur @ [b]"] "2.prems" show ?thesis by (auto split: prod.splits)
  qed
qed

lemma chunk_loop_runs:
  "answers I (\<lambda>r. r = chunk_lines c (drop c payload) start spans) (chunk_loop payload c start spans :: ('w, nat \<times> (nat \<times> nat) list) op)
    \<and> yields (chunk_loop payload c start spans :: ('w, nat \<times> (nat \<times> nat) list) op) (chunk_lines c (drop c payload) start spans)"
proof (induction "length payload - c" arbitrary: c start spans rule: less_induct)
  case less
  show ?case
  proof (cases "c < length payload")
    case False
    then show ?thesis by (subst (1 2) chunk_loop.simps) (auto intro: answers_sreturn yields_sreturn)
  next
    case True
    let ?c1 = "min (c + SCAN_CHECK_BYTES) (length payload)"
    obtain s1 sp1 where step: "chunk_lines c (take (?c1 - c) (drop c payload)) start spans = (s1, sp1)" by force
    have c1: "c < ?c1" "?c1 \<le> length payload" using True by (simp_all add: SCAN_CHECK_BYTES_def)
    have "drop c payload = take (?c1 - c) (drop c payload) @ drop ?c1 payload"
      using c1 by (metis append_take_drop_id drop_drop le_add_diff_inverse2 less_imp_le_nat)
    then have all: "chunk_lines c (drop c payload) start spans = chunk_lines ?c1 (drop ?c1 payload) s1 sp1"
      using chunk_lines_append [of c "take (?c1 - c) (drop c payload)" "drop ?c1 payload" start spans] step c1 by simp
    have "length payload - ?c1 < length payload - c" using c1 True by simp
    note rest = less.hyps [OF this, of s1 sp1]
    have unfold: "(chunk_loop payload c start spans :: ('w, nat \<times> (nat \<times> nat) list) op) = sbind (on_budget check) (\<lambda>_. chunk_loop payload ?c1 s1 sp1)"
      using True step by (subst chunk_loop.simps) (simp add: Let_def)
    show ?thesis
      unfolding unfold all using rest
      by (auto intro!: answers_sbind [OF answers_on_budget [where P = "\<lambda>_. True"]] yields_sbind [OF yields_check])
  qed
qed

lemma line_spans_run:
  "answers I (\<lambda>r. r = line_offsets 0 (text_lines payload)) (search_line_spans payload :: ('w, (nat \<times> nat) list) op)
    \<and> yields (search_line_spans payload :: ('w, (nat \<times> nat) list) op) (line_offsets 0 (text_lines payload))"
proof -
  obtain s sp where loop: "chunk_lines 0 payload 0 [] = (s, sp)" by force
  then have spans: "(if s < length payload then sp @ [(s, length payload)] else sp) = line_offsets 0 (text_lines payload)"
    using chunk_lines_spans [of "[]" 0 0 payload "[]"] by (auto split: if_splits)
  from chunk_loop_runs [of I 0 payload 0 "[]"] loop
  have run: "answers I (\<lambda>r. r = (s, sp)) (chunk_loop payload 0 0 [] :: ('w, nat \<times> (nat \<times> nat) list) op)"
    "yields (chunk_loop payload 0 0 [] :: ('w, nat \<times> (nat \<times> nat) list) op) (s, sp)" by simp_all
  show ?thesis
    unfolding search_line_spans_def spans [symmetric]
    by (auto intro!: answers_sbind [OF run(1)] yields_sbind [OF run(2)] answers_sreturn yields_sreturn)
qed

text \<open>A span cuts its line out of the payload, and a run of spans the lines between.\<close>

lemma line_offsets_length [simp]: "length (line_offsets i ls) = length ls"
  by (induction i ls rule: line_offsets.induct) auto

lemma text_lines_no_newline: "l \<in> set (text_lines bs) \<Longrightarrow> 10 \<notin> set l"
  by (auto simp: text_lines_def Let_def split: if_splits dest: in_set_butlastD split_on_no_sep)

definition with_newlines :: "bytes list \<Rightarrow> bytes" where
  "with_newlines ls = concat (map (\<lambda>l. l @ [10]) ls)"

lemma with_newlines_simps [simp]: "with_newlines [] = []" "with_newlines (l # ls) = l @ 10 # with_newlines ls"
  "with_newlines (ls @ ms) = with_newlines ls @ with_newlines ms"
  by (simp_all add: with_newlines_def)

lemma join_with_append: "ms \<noteq> [] \<Longrightarrow> join_with 10 (ls @ ms) = with_newlines ls @ join_with 10 ms"
  by (induction ls) (simp_all add: join_with_Cons_ne)

lemma with_newlines_join: "ls \<noteq> [] \<Longrightarrow> with_newlines ls = join_with 10 ls @ [10]"
proof (induction ls)
  case (Cons l ls)
  then show ?case by (cases ls) auto
qed simp

lemma text_lines_text: "\<exists>end. bs = join_with 10 (text_lines bs) @ end"
proof (cases "last (split_on 10 bs) = []")
  case True
  let ?ls = "butlast (split_on 10 bs)"
  have "bs = join_with 10 (?ls @ [[]])" using True by (metis append_butlast_last_id join_split_on split_on_not_Nil)
  then have "bs = with_newlines ?ls" using join_with_append [of "[[]]" ?ls] by simp
  then show ?thesis using True with_newlines_join [of ?ls] by (cases "?ls = []") (auto simp: text_lines_def Let_def)
qed (simp add: text_lines_def Let_def)

lemma line_offsets_append: "line_offsets i (ls @ ms) = line_offsets i ls @ line_offsets (i + length (with_newlines ls)) ms"
  by (induction i ls rule: line_offsets.induct) (simp_all add: add.assoc)

lemma line_offsets_ends: "ls \<noteq> [] \<Longrightarrow> fst (hd (line_offsets i ls)) = i \<and> snd (last (line_offsets i ls)) = i + length (join_with 10 ls)"
proof (induction i ls rule: line_offsets.induct)
  case (2 i l ls)
  then show ?case by (cases ls) auto
qed simp

lemma line_offsets_nth: "i < length ls \<Longrightarrow> snd (line_offsets k ls ! i) = fst (line_offsets k ls ! i) + length (ls ! i)"
  by (induction k ls arbitrary: i rule: line_offsets.induct) (auto simp: nth_Cons split: nat.split)

lemma join_parts: "mid \<noteq> [] \<Longrightarrow> \<exists>rest. join_with 10 (pre @ mid @ post) @ e = with_newlines pre @ join_with 10 mid @ rest"
  by (cases "post = []") (auto simp: join_with_append with_newlines_join)

lemma cut_lines:
  assumes lines: "ls = text_lines payload" and ij: "i \<le> j" "j < length ls"
  shows "slice payload (fst (line_offsets 0 ls ! i)) (snd (line_offsets 0 ls ! j)) = Inr (join_with 10 (take (j + 1 - i) (drop i ls)))"
    and "snd (line_offsets 0 ls ! j) \<le> length payload"
proof -
  let ?pre = "take i ls" and ?mid = "take (j + 1 - i) (drop i ls)" and ?post = "drop (j + 1) ls"
  have parts: "ls = ?pre @ ?mid @ ?post"
    using ij by (metis append_take_drop_id drop_drop le_add_diff_inverse2 le_SucI Suc_eq_plus1)
  have mid: "?mid \<noteq> []" "length ?mid = j + 1 - i" "length ?pre = i" using ij by auto
  let ?a = "length (with_newlines ?pre)"
  have offs: "line_offsets 0 ls = line_offsets 0 ?pre @ line_offsets ?a ?mid @ line_offsets (?a + length (with_newlines ?mid)) ?post"
    using line_offsets_append [of 0 ?pre "?mid @ ?post"] line_offsets_append [of ?a ?mid ?post] parts by simp
  have ne: "line_offsets ?a ?mid \<noteq> []" using mid(1) by (metis length_0_conv line_offsets_length)
  have at: "line_offsets 0 ls ! i = hd (line_offsets ?a ?mid)" "line_offsets 0 ls ! j = last (line_offsets ?a ?mid)"
    unfolding offs hd_conv_nth [OF ne] last_conv_nth [OF ne] using mid ij by (auto simp: nth_append Suc_diff_le)
  then have ends: "fst (line_offsets 0 ls ! i) = ?a" "snd (line_offsets 0 ls ! j) = ?a + length (join_with 10 ?mid)"
    using line_offsets_ends [OF mid(1), of ?a] by simp_all
  obtain rest0 where "payload = join_with 10 (?pre @ ?mid @ ?post) @ rest0" using text_lines_text [of payload] lines parts by metis
  then have "\<exists>rest. payload = with_newlines ?pre @ join_with 10 ?mid @ rest"
    using join_parts [OF mid(1), of ?pre ?post rest0] by simp
  then obtain rest where whole: "payload = with_newlines ?pre @ join_with 10 ?mid @ rest" by blast
  have len: "length payload = ?a + length (join_with 10 ?mid) + length rest" by (subst whole) simp
  have "take (length (join_with 10 ?mid)) (drop ?a payload) = join_with 10 ?mid" by (subst whole) simp
  with ends len show "slice payload (fst (line_offsets 0 ls ! i)) (snd (line_offsets 0 ls ! j)) = Inr (join_with 10 ?mid)"
    and "snd (line_offsets 0 ls ! j) \<le> length payload"
    by (simp_all add: slice_def)
qed

lemma cut_line:
  assumes "ls = text_lines payload" and "i < length ls"
  shows "slice payload (fst (line_offsets 0 ls ! i)) (snd (line_offsets 0 ls ! i)) = Inr (ls ! i)"
  using cut_lines [OF assms(1) order_refl assms(2)] assms(2)
  by (auto simp: slice_def take_Suc_conv_app_nth hd_drop_conv_nth take_Suc Cons_nth_drop_Suc [symmetric] split: if_splits)

section \<open>Matching lines\<close>

text \<open>The lines in which the query occurs, each with the column of its first occurrence.\<close>

definition line_hits :: "bytes \<Rightarrow> bytes list \<Rightarrow> (nat \<times> nat) list" where
  "line_hits q ls = concat (map (\<lambda>i. case first_at q (ls ! i) of None \<Rightarrow> [] | Some c \<Rightarrow> [(i, c)]) [0..<length ls])"

text \<open>What the record of a matching line says: its number, column, preview, extent and context.\<close>

definition records_line :: "bytes \<Rightarrow> nat \<Rightarrow> cached_line_match \<Rightarrow> nat \<times> nat \<Rightarrow> bool" where
  "records_line payload context m hit =
    (let ls = text_lines payload; i = fst hit; line = ls ! i in
     unat (cl_line m) = i + 1 \<and> unat (cl_column m) = snd hit
     \<and> span_slice payload (cl_preview m) = Inr (take PREVIEW_BYTES line)
     \<and> slice payload (unat (bs_start (cl_preview m))) (unat (cl_line_end m)) = Inr line
     \<and> (bs_end (cl_preview m) < cl_line_end m \<longleftrightarrow> PREVIEW_BYTES < length line)
     \<and> materialize_lines payload (cl_context_before m) = Inr (map (take PREVIEW_BYTES) (drop (i - context) (take i ls)))
     \<and> materialize_lines payload (cl_context_after m) = Inr (map (take PREVIEW_BYTES) (take context (drop (i + 1) ls))))"

lemma position_u32_Inr: "position_u32 n = Inr w \<longleftrightarrow> n < 2 ^ 32 \<and> w = of_nat n"
  by (auto simp: position_u32_def)

lemma position_u32_unat: "position_u32 n = Inr w \<Longrightarrow> unat w = n"
  by (auto simp: position_u32_Inr unat_of_nat take_bit_nat_eq_self unsigned_of_nat)

lemma byte_span_new_Inr: "byte_span_new a b = Inr s \<Longrightarrow> unat (bs_start s) = a \<and> unat (bs_end s) = b"
  by (auto simp: byte_span_new_def rbind_Inr_iff position_u32_unat)

lemma context_span_lines:
  assumes "ls = text_lines payload" and "i \<le> j" and "j < length ls" and "context_span (line_offsets 0 ls) i j = Inr s"
  shows "materialize_lines payload s = Inr (map (take PREVIEW_BYTES) (take (j + 1 - i) (drop i ls)))"
proof -
  let ?mid = "take (j + 1 - i) (drop i ls)"
  from assms(2-4) obtain sp where s: "s = Some sp" "unat (bs_start sp) = fst (line_offsets 0 ls ! i)" "unat (bs_end sp) = snd (line_offsets 0 ls ! j)"
    by (auto simp: context_span_def span_lookup_def rbind_Inr_iff dest: byte_span_new_Inr)
  have "?mid \<noteq> []" "\<forall>l \<in> set ?mid. 10 \<notin> set l"
    using assms(1-3) by (auto dest!: in_set_takeD in_set_dropD text_lines_no_newline)
  then have "split_on 10 (join_with 10 ?mid) = ?mid" by (rule split_join_with)
  with cut_lines(1) [OF assms(1-3)] s show ?thesis by (simp add: materialize_lines_def span_slice_def)
qed

lemma line_match_records:
  assumes ls: "ls = text_lines payload" and i: "i < length ls"
    and m: "line_match (line_offsets 0 ls) context i (fst (line_offsets 0 ls ! i)) (snd (line_offsets 0 ls ! i)) c = Inr m"
  shows "records_line payload context m (i, c)"
proof -
  let ?s = "fst (line_offsets 0 ls ! i)" and ?e = "snd (line_offsets 0 ls ! i)" and ?n = "min (i + 1 + context) (length ls)"
  have e: "?e = ?s + length (ls ! i)" by (rule line_offsets_nth [OF i])
  from m have f: "unat (cl_line m) = i + 1" "unat (cl_column m) = c" "unat (bs_start (cl_preview m)) = ?s"
    "unat (bs_end (cl_preview m)) = ?s + min (length (ls ! i)) PREVIEW_BYTES" "unat (cl_line_end m) = ?e"
    and before: "(if i - context < i then context_span (line_offsets 0 ls) (i - context) (i - 1) else Inr None) = Inr (cl_context_before m)"
    and after: "(if i + 1 < ?n then context_span (line_offsets 0 ls) (i + 1) (?n - 1) else Inr None) = Inr (cl_context_after m)"
    by (auto simp: line_match_def Let_def rbind_Inr_iff e dest: position_u32_unat byte_span_new_Inr)
  have line: "slice payload ?s ?e = Inr (ls ! i)" by (rule cut_line [OF ls i])
  have preview: "span_slice payload (cl_preview m) = Inr (take PREVIEW_BYTES (ls ! i))"
  proof -
    have "take (length (ls ! i)) (drop ?s payload) = ls ! i" "?s + length (ls ! i) \<le> length payload"
      using line by (auto simp: slice_def e split: if_splits)
    moreover from this(1) have "take (min (length (ls ! i)) PREVIEW_BYTES) (drop ?s payload) = take PREVIEW_BYTES (ls ! i)"
      by (metis min.commute take_take)
    ultimately show ?thesis by (auto simp: span_slice_def slice_def f(3,4))
  qed
  have cut: "bs_end (cl_preview m) < cl_line_end m \<longleftrightarrow> PREVIEW_BYTES < length (ls ! i)"
    by (simp add: word_less_nat_alt f(4,5) e min_def)
  have "materialize_lines payload (cl_context_before m) = Inr (map (take PREVIEW_BYTES) (drop (i - context) (take i ls)))"
  proof (cases "i - context < i")
    case True
    have "take (i - 1 + 1 - (i - context)) (drop (i - context) ls) = drop (i - context) (take i ls)"
      using True by (simp add: drop_take)
    with context_span_lines [OF ls, of "i - context" "i - 1"] before True i show ?thesis by simp
  next
    case False
    then have "drop (i - context) (take i ls) = []" by simp
    with before False show ?thesis by (auto simp: materialize_lines_def)
  qed
  moreover have "materialize_lines payload (cl_context_after m) = Inr (map (take PREVIEW_BYTES) (take context (drop (i + 1) ls)))"
  proof (cases "i + 1 < ?n")
    case True
    have eq: "take (?n - 1 + 1 - (i + 1)) (drop (i + 1) ls) = take context (drop (i + 1) ls)"
      using True by (auto simp: min_def)
    have "i + 1 \<le> ?n - 1" "?n - 1 < length ls" using True by linarith+
    moreover have "context_span (line_offsets 0 ls) (i + 1) (?n - 1) = Inr (cl_context_after m)" using after True by (simp only: if_True)
    ultimately have "materialize_lines payload (cl_context_after m) = Inr (map (take PREVIEW_BYTES) (take (?n - 1 + 1 - (i + 1)) (drop (i + 1) ls)))"
      by (rule context_span_lines [OF ls])
    then show ?thesis by (simp only: eq)
  next
    case False
    then have "take context (drop (i + 1) ls) = []" by auto
    with after False show ?thesis by (auto simp: materialize_lines_def)
  qed
  ultimately show ?thesis
    using f(1,2) preview cut line f(3,5) by (simp add: records_line_def Let_def flip: ls)
qed

text \<open>Everything fits when the payload is shorter than four gibibytes.\<close>

lemma split_on_length: "length (split_on c xs) = Suc (length (filter (\<lambda>x. x = c) xs))"
  by (induction xs) auto

lemma split_on_subset: "s \<in> set (split_on c xs) \<Longrightarrow> set s \<subseteq> set xs"
proof (induction xs arbitrary: s)
  case (Cons x xs)
  have hd: "set (hd (split_on c xs)) \<subseteq> set xs" using Cons.IH by (metis list.set_sel(1) split_on_not_Nil)
  have tl: "set t \<subseteq> set xs" if "t \<in> set (tl (split_on c xs))" for t using Cons.IH that by (metis list.set_sel(2) split_on_not_Nil)
  from Cons.prems consider "s = []" | "s \<in> set (split_on c xs)" | "s = x # hd (split_on c xs)" | "s \<in> set (tl (split_on c xs))"
    by (auto split: if_splits)
  then show ?case using hd tl [of s] Cons.IH [of s] by cases auto
qed simp

lemma length_text_lines: "length (text_lines bs) \<le> length bs"
proof (cases "last (split_on 10 bs) = []")
  case True
  then show ?thesis using length_split_on_le [of 10 bs] by (simp add: text_lines_def Let_def)
next
  case False
  then obtain b where b: "b \<in> set (last (split_on 10 bs))" by (meson last_in_set)
  have last: "last (split_on 10 bs) \<in> set (split_on 10 bs)" by simp
  have "b \<in> set bs" "b \<noteq> 10" using split_on_subset [OF last] split_on_no_sep [OF last] b by blast+
  then have "length (filter (\<lambda>x. x = 10) bs) < length bs" by (intro length_filter_less)
  with False show ?thesis by (simp add: text_lines_def Let_def split_on_length)
qed

lemma position_u32_fits: "n < 2 ^ 32 \<Longrightarrow> \<exists>w. position_u32 n = Inr w"
  by (simp add: position_u32_def)

lemma byte_span_fits: "a < 2 ^ 32 \<Longrightarrow> b < 2 ^ 32 \<Longrightarrow> \<exists>s. byte_span_new a b = Inr s"
  by (simp add: byte_span_new_def position_u32_def)

lemma line_offsets_bound:
  assumes "ls = text_lines payload" and "i < length ls" and "length payload < 2 ^ 32"
  shows "fst (line_offsets 0 ls ! i) < 2 ^ 32" and "snd (line_offsets 0 ls ! i) < 2 ^ 32"
  using cut_lines(2) [OF assms(1) order_refl assms(2)] line_offsets_nth [OF assms(2), of 0] assms(3) by auto

lemma context_span_fits:
  assumes "ls = text_lines payload" and "i < length ls" and "j < length ls" and "length payload < 2 ^ 32"
  shows "\<exists>s. context_span (line_offsets 0 ls) i j = Inr s"
  using line_offsets_bound [OF assms(1,2,4)] line_offsets_bound [OF assms(1,3,4)] assms(2,3)
    byte_span_fits [of "fst (line_offsets 0 ls ! i)" "snd (line_offsets 0 ls ! j)"]
  by (auto simp: context_span_def span_lookup_def)

lemma line_match_fits:
  assumes ls: "ls = text_lines payload" and i: "i < length ls" and small: "length payload < 2 ^ 32" and c: "c \<le> length (ls ! i)"
  shows "\<exists>m. line_match (line_offsets 0 ls) context i (fst (line_offsets 0 ls ! i)) (snd (line_offsets 0 ls ! i)) c = Inr m"
proof -
  let ?s = "fst (line_offsets 0 ls ! i)" and ?e = "snd (line_offsets 0 ls ! i)" and ?n = "min (i + 1 + context) (length ls)"
  have e: "?e = ?s + length (ls ! i)" by (rule line_offsets_nth [OF i])
  note b = line_offsets_bound [OF ls i small]
  have "i + 1 \<le> length payload" using length_text_lines [of payload] ls i by simp
  with small have "i + 1 < 2 ^ 32" by linarith
  then obtain line where 1: "position_u32 (i + 1) = Inr line" using position_u32_fits by blast
  from b(2) c e obtain column where 2: "position_u32 c = Inr column" using position_u32_fits [of c] by auto
  have "?s + min (?e - ?s) PREVIEW_BYTES < 2 ^ 32" using b(2) e by simp
  with b(1) obtain preview where 3: "byte_span_new ?s (?s + min (?e - ?s) PREVIEW_BYTES) = Inr preview" using byte_span_fits by blast
  from b(2) obtain line_end where 4: "position_u32 ?e = Inr line_end" using position_u32_fits by blast
  have "\<exists>x. (if i - context < i then context_span (line_offsets 0 ls) (i - context) (i - 1) else Inr None) = Inr x"
    using context_span_fits [OF ls _ _ small, of "i - context" "i - 1"] i by auto
  moreover have "\<exists>x. (if i + 1 < ?n then context_span (line_offsets 0 ls) (i + 1) (?n - 1) else Inr None) = Inr x"
    using context_span_fits [OF ls _ _ small, of "i + 1" "?n - 1"] by auto
  ultimately show ?thesis
    using 1 2 3 4 by (auto simp: line_match_def Let_def)
qed

text \<open>The hits from a line on.\<close>

abbreviation hits_from :: "bytes \<Rightarrow> bytes list \<Rightarrow> nat \<Rightarrow> (nat \<times> nat) list" where
  "hits_from q ls k \<equiv> concat (map (\<lambda>i. case first_at q (ls ! i) of None \<Rightarrow> [] | Some c \<Rightarrow> [(i, c)]) [k..<length ls])"

lemma hits_from_step: "k < length ls \<Longrightarrow> hits_from q ls k = (case first_at q (ls ! k) of None \<Rightarrow> [] | Some c \<Rightarrow> [(k, c)]) @ hits_from q ls (Suc k)"
  by (simp add: upt_conv_Cons)

lemma scan_lines_records:
  assumes E: "find_law E" and ls: "ls = text_lines payload"
  shows "answers I (\<lambda>r. \<exists>ms. r = results @ ms \<and> list_all2 (records_line payload context) ms (hits_from q ls k))
      (scan_lines E payload (MLiteral q) context (line_offsets 0 ls) k (drop k (line_offsets 0 ls)) results)"
proof (induction "length ls - k" arbitrary: k results)
  case 0
  then show ?case by (simp add: answers_sreturn)
next
  case (Suc n)
  then have k: "k < length ls" by simp
  let ?s = "fst (line_offsets 0 ls ! k)" and ?e = "snd (line_offsets 0 ls ! k)"
  have drop: "drop k (line_offsets 0 ls) = (?s, ?e) # drop (Suc k) (line_offsets 0 ls)"
    using k by (metis Cons_nth_drop_Suc line_offsets_length prod.collapse)
  have rest: "answers I (\<lambda>r. \<exists>ms. r = rs @ ms \<and> list_all2 (records_line payload context) ms (hits_from q ls (Suc k)))
      (scan_lines E payload (MLiteral q) context (line_offsets 0 ls) (Suc k) (drop (Suc k) (line_offsets 0 ls)) rs)" for rs
    using Suc by (intro Suc.hyps(1)) simp
  have first: "answers I (\<lambda>r. map_option fst r = first_at q (ls ! k)) (first_occurrence E (MLiteral q) (ls ! k))"
    using first_occurrence_literal [OF E] by blast
  show ?case
    unfolding drop scan_lines.simps
  proof (rule answers_sbind [OF answers_on_budget [where P = "\<lambda>_. True"]]; simp only: sbind_slift cut_line [OF ls k] simp_thms)
    show "answers I (\<lambda>r. \<exists>ms. r = results @ ms \<and> list_all2 (records_line payload context) ms (hits_from q ls k))
      (sbind (first_occurrence E (MLiteral q) (ls ! k)) (\<lambda>found. case found of
          None \<Rightarrow> scan_lines E payload (MLiteral q) context (line_offsets 0 ls) (k + 1) (drop (Suc k) (line_offsets 0 ls)) results
        | Some (first_start, _) \<Rightarrow> sbind (slift (line_match (line_offsets 0 ls) context k ?s ?e first_start)) (\<lambda>m.
            scan_lines E payload (MLiteral q) context (line_offsets 0 ls) (k + 1) (drop (Suc k) (line_offsets 0 ls)) (results @ [m]))))"
    proof (rule answers_sbind [OF first])
      fix found assume found: "map_option fst found = first_at q (ls ! k)"
      show "answers I (\<lambda>r. \<exists>ms. r = results @ ms \<and> list_all2 (records_line payload context) ms (hits_from q ls k))
       (case found of
          None \<Rightarrow> scan_lines E payload (MLiteral q) context (line_offsets 0 ls) (k + 1) (drop (Suc k) (line_offsets 0 ls)) results
        | Some (first_start, _) \<Rightarrow> sbind (slift (line_match (line_offsets 0 ls) context k ?s ?e first_start)) (\<lambda>m.
            scan_lines E payload (MLiteral q) context (line_offsets 0 ls) (k + 1) (drop (Suc k) (line_offsets 0 ls)) (results @ [m])))"
      proof (cases found)
        case None
        with found rest [of results] show ?thesis by (simp add: hits_from_step [OF k])
      next
        case (Some p)
        obtain c e where p: "p = (c, e)" by force
        with found Some have c: "first_at q (ls ! k) = Some c" by simp
        have "answers I (\<lambda>r. \<exists>ms. r = results @ ms \<and> list_all2 (records_line payload context) ms (hits_from q ls k))
            (scan_lines E payload (MLiteral q) context (line_offsets 0 ls) (Suc k) (drop (Suc k) (line_offsets 0 ls)) (results @ [m]))"
          if "records_line payload context m (k, c)" for m
          using that by (intro answers_conseq [OF rest [of "results @ [m]"]]) (auto simp: hits_from_step [OF k] c)
        with Some p line_match_records [OF ls k] show ?thesis
          by (auto intro!: answers_sbind [OF answers_slift [where P = "\<lambda>m. records_line payload context m (k, c)"]])
      qed
    qed
  qed
qed

lemma scan_payload_records:
  assumes "find_law E"
  shows "answers I (\<lambda>ms. list_all2 (records_line payload (unat context)) ms (line_hits q (text_lines payload))) (scan_payload E payload (MLiteral q) context)"
proof -
  have spans: "answers I (\<lambda>r. r = line_offsets 0 (text_lines payload)) (search_line_spans payload)" using line_spans_run by blast
  show ?thesis
    unfolding scan_payload_def
    by (rule answers_sbind [OF spans])
       (use answers_conseq [OF scan_lines_records [OF assms refl, of I "[]" payload "unat context" q 0]] in \<open>simp add: line_hits_def\<close>)
qed

lemma scan_lines_yields:
  assumes E: "find_law E" and ls: "ls = text_lines payload" and small: "length payload < 2 ^ 32"
  shows "\<exists>ms. yields (scan_lines E payload (MLiteral q) context (line_offsets 0 ls) k (drop k (line_offsets 0 ls)) results
      :: ('w, cached_line_match list) op) ms"
proof (induction "length ls - k" arbitrary: k results)
  case 0
  then show ?case by (auto intro: yields_sreturn)
next
  case (Suc n)
  then have k: "k < length ls" by simp
  let ?s = "fst (line_offsets 0 ls ! k)" and ?e = "snd (line_offsets 0 ls ! k)"
  have drop: "drop k (line_offsets 0 ls) = (?s, ?e) # drop (Suc k) (line_offsets 0 ls)"
    using k by (metis Cons_nth_drop_Suc line_offsets_length prod.collapse)
  have rest: "\<exists>ms. yields (scan_lines E payload (MLiteral q) context (line_offsets 0 ls) (Suc k) (drop (Suc k) (line_offsets 0 ls)) rs
      :: ('w, cached_line_match list) op) ms" for rs
    using Suc by (intro Suc.hyps(1)) simp
  have first: "yields (first_occurrence E (MLiteral q) (ls ! k)) (map_option (\<lambda>i. (i, i + length q)) (first_at q (ls ! k)))"
    using first_occurrence_literal [OF E] by blast
  show ?case
  proof (cases "first_at q (ls ! k)")
    case None
    from rest [of results] obtain ms where "yields (scan_lines E payload (MLiteral q) context (line_offsets 0 ls) (Suc k) (drop (Suc k) (line_offsets 0 ls)) results
      :: ('w, cached_line_match list) op) ms" by blast
    with None first cut_line [OF ls k] show ?thesis
      unfolding drop scan_lines.simps
      by (intro exI [of _ ms] yields_sbind [OF yields_check]) (auto simp: sbind_slift intro!: yields_sbind [where v = None])
  next
    case (Some c)
    then have "c \<le> length (ls ! k)" by (rule first_at_bound)
    from line_match_fits [OF ls k small this] obtain m where m: "line_match (line_offsets 0 ls) context k ?s ?e c = Inr m" by blast
    from rest [of "results @ [m]"] obtain ms where
      "yields (scan_lines E payload (MLiteral q) context (line_offsets 0 ls) (Suc k) (drop (Suc k) (line_offsets 0 ls)) (results @ [m])
        :: ('w, cached_line_match list) op) ms" by blast
    with Some first cut_line [OF ls k] m show ?thesis
      unfolding drop scan_lines.simps
      by (intro exI [of _ ms] yields_sbind [OF yields_check]) (auto simp: sbind_slift intro!: yields_sbind [where v = "Some (c, c + length q)"])
  qed
qed

lemma scan_payload_yields:
  assumes "find_law E" and "length payload < 2 ^ 32"
  shows "\<exists>ms. yields (scan_payload E payload (MLiteral q) context :: ('w, cached_line_match list) op) ms"
proof -
  obtain ms where "yields (scan_lines E payload (MLiteral q) (unat context) (line_offsets 0 (text_lines payload)) 0
      (line_offsets 0 (text_lines payload)) [] :: ('w, cached_line_match list) op) ms"
    using scan_lines_yields [OF assms(1) refl assms(2), of q "unat context" 0 "[]"] by auto
  moreover have "yields (search_line_spans payload :: ('w, (nat \<times> nat) list) op) (line_offsets 0 (text_lines payload))"
    using line_spans_run by blast
  ultimately show ?thesis unfolding scan_payload_def by (intro exI [of _ ms]) (rule yields_sbind)
qed

section \<open>Properties\<close>

text \<open>
  C22. The windowed search is a direct search: over lines of any length, with any visitor and any budget, the literal search that works in overlapped windows
  visits the successive occurrences of the query that a direct search from the start of the line finds, in order, until the visitor breaks;
  without ceilings it returns.
\<close>

theorem windowed_search_is_direct:
  assumes "find_law E"
  shows "(literal_occurrences E line q visit v (w, b) = (Inr r, s) \<longrightarrow> r = visit_all visit (occurrences q line 0) v)
    \<and> (unlimited b \<longrightarrow> (\<exists>s. literal_occurrences E line q visit v (w, b) = (Inr (visit_all visit (occurrences q line 0) v), s)))"
proof -
  have "r = visit_all visit (occurrences q line 0) v" if "literal_occurrences E line q visit v (w, b) = (Inr r, s)"
    using answersD [OF conjunct1 [OF literal_visits [OF assms, of "\<lambda>_. True" visit q line v]] _ that] by simp
  moreover have "\<exists>s. literal_occurrences E line q visit v (w, b) = (Inr (visit_all visit (occurrences q line 0) v), s)" if "unlimited b"
    using yields_run [OF conjunct2 [OF literal_visits [OF assms, of "\<lambda>_. True" visit q line v]] that, of w] by blast
  ultimately show ?thesis by blast
qed

text \<open>
  A scan finds exactly the matching lines: for a case-sensitive literal query the scan of a payload has, in order, one record for each line in which the query
  occurs, with the number of the line, the column of the first occurrence, the preview, the end of the line, and the lines of context around it;
  for payloads below four gibibytes it returns when there are no ceilings.
\<close>

theorem scan_finds_matching_lines:
  assumes "find_law E"
  shows "(scan_payload E payload (MLiteral q) context (w, b) = (Inr ms, s) \<longrightarrow>
      list_all2 (records_line payload (unat context)) ms (line_hits q (text_lines payload)))
    \<and> (length payload < 2 ^ 32 \<and> unlimited b \<longrightarrow> (\<exists>ms s. scan_payload E payload (MLiteral q) context (w, b) = (Inr ms, s)))"
proof -
  have "list_all2 (records_line payload (unat context)) ms (line_hits q (text_lines payload))"
    if "scan_payload E payload (MLiteral q) context (w, b) = (Inr ms, s)"
    using answersD [OF scan_payload_records [OF assms, of "\<lambda>_. True"] _ that] by simp
  moreover have "\<exists>ms s. scan_payload E payload (MLiteral q) context (w, b) = (Inr ms, s)" if "length payload < 2 ^ 32" "unlimited b"
    using scan_payload_yields [OF assms that(1)] yields_run that(2) by metis
  ultimately show ?thesis by blast
qed

section \<open>A small search\<close>

definition direct_engine :: "unit search_engine" where
  "direct_engine = \<lparr>se_find = (\<lambda>h q. first_at q h), se_build = (\<lambda>_ _. Inl ''no regular expressions''), se_regex_find = (\<lambda>_ _. None),
     se_find_iter = (\<lambda>_ _. [])\<rparr>"

lemma direct_engine_finds: "find_law direct_engine"
  by (simp add: find_law_def direct_engine_def)

definition collect_visitor :: "((nat \<times> nat) list, unit) visitor" where
  "collect_visitor found acc = (None, acc @ [found])"

theorem windowed_search_is_direct_witness:
  "\<exists>s. literal_occurrences direct_engine (ascii ''aaaba'') (ascii ''a'') collect_visitor [] ((), budget_unlimited idle)
    = (Inr (None, [(0, 1), (1, 2), (2, 3), (4, 5)]), s)"
proof -
  have "visit_all collect_visitor (occurrences (ascii ''a'') (ascii ''aaaba'') 0) [] = (None, [(0, 1), (1, 2), (2, 3), (4, 5)])"
    by (simp add: occurrences.simps collect_visitor_def)
  with windowed_search_is_direct [OF direct_engine_finds, of "ascii ''aaaba''" "ascii ''a''" collect_visitor "[]" "()" "budget_unlimited idle"]
  show ?thesis by simp
qed

theorem scan_finds_matching_lines_witness:
  "\<exists>ms s. scan_payload direct_engine (ascii ''ab'' @ 10 # ascii ''cb'') (MLiteral (ascii ''c'')) 1 ((), budget_unlimited idle) = (Inr ms, s)
    \<and> list_all2 (records_line (ascii ''ab'' @ 10 # ascii ''cb'') 1) ms [(1, 0)]"
proof -
  let ?p = "ascii ''ab'' @ 10 # ascii ''cb''"
  have hits: "line_hits (ascii ''c'') (text_lines ?p) = [(1, 0)]"
    by (simp add: line_hits_def text_lines_def upt_rec)
  note scan = scan_finds_matching_lines [OF direct_engine_finds, of ?p "ascii ''c''" 1 "()" "budget_unlimited idle"]
  have "length ?p < 2 ^ 32" by simp
  with scan obtain ms s where run: "scan_payload direct_engine ?p (MLiteral (ascii ''c'')) 1 ((), budget_unlimited idle) = (Inr ms, s)"
    by (metis unlimited_start)
  with scan [of ms s] hits show ?thesis by auto
qed

end
