(* ===== verification/SearchPages.thy ===== *)
theory SearchPages
  imports SearchScan
begin

text \<open>
  Pages of a search: what a page has collected stays within its ceilings through emission and through fitting the cursor, for every store, matcher and budget.
\<close>

section \<open>The ceilings of a page\<close>

definition total_bytes :: "search_match list \<Rightarrow> nat" where
  "total_bytes ms = sum_list (map (\<lambda>m. unat (match_payload_bytes m)) ms)"

lemma total_bytes_simps [simp]: "total_bytes [] = 0" "total_bytes (ms @ ns) = total_bytes ms + total_bytes ns"
  "total_bytes (m # ms) = unat (match_payload_bytes m) + total_bytes ms"
  by (simp_all add: total_bytes_def)

text \<open>The bytes counted are those of the matches, and they fit unless there is a single match.\<close>

definition within :: "search_options \<Rightarrow> collected \<Rightarrow> bool" where
  "within opts acc \<longleftrightarrow> length (co_matches acc) \<le> sq_limit opts \<and> length (co_positions acc) = length (co_matches acc)
     \<and> unat (co_bytes acc) = total_bytes (co_matches acc)
     \<and> (total_bytes (co_matches acc) \<le> unat (sq_max_result_bytes opts) \<or> length (co_matches acc) = 1)"

lemma sat_add_exact: "sat_add a b \<le> c \<Longrightarrow> c < - 1 \<Longrightarrow> unat (sat_add a b) = unat a + unat (b :: u64)"
  by (auto simp: sat_add_def unat_word_ariths split: if_splits)

lemma collect_first: "within opts acc \<Longrightarrow> co_matches acc = [] \<Longrightarrow> 0 < sq_limit opts \<Longrightarrow> within opts (collect_match m p i acc)"
  using unsigned_less [of "match_payload_bytes m", where ?'a = nat]
  by (auto simp: within_def collect_match_def sat_add_def unat_eq_0)

lemma collect_fits:
  assumes "within opts acc" and "length (co_matches acc) \<noteq> sq_limit opts" and "sq_max_result_bytes opts < - 1"
    and "sat_add (co_bytes acc) (match_payload_bytes m) \<le> sq_max_result_bytes opts"
  shows "within opts (collect_match m p i acc)"
  using assms sat_add_exact [OF assms(4,3)] by (auto simp: within_def collect_match_def word_le_nat_alt)

lemma emit_loop_within:
  assumes "0 < sq_limit opts" and "sq_max_result_bytes opts < - 1" and "within opts acc"
  shows "answers (\<lambda>_. True) (\<lambda>(out, acc). within opts acc) (emit_loop E snap cand payload M opts n cs acc :: ('w, emit_outcome \<times> collected) op)"
  using assms(3)
proof (induction cs arbitrary: n acc)
  case (Cons c cs)
  have rest: "answers (\<lambda>_. True) (\<lambda>(out, acc). within opts acc) 
      (emit_loop E snap cand payload M opts (Suc n) cs (collect_match m p i acc) :: ('w, emit_outcome \<times> collected) op)"
    if "sat_add (co_bytes acc) (match_payload_bytes m) \<le> sq_max_result_bytes opts" "length (co_matches acc) \<noteq> sq_limit opts" for m p i
    using collect_fits [OF Cons.prems that(2) assms(2) that(1)] by (rule Cons.IH)
  show ?case
    unfolding emit_loop.simps
    by (intro any_step) (auto intro!: any_step answers_sreturn rest collect_first Cons.prems assms(1) simp: not_less)
qed (simp add: answers_sreturn)

lemma emit_matches_within:
  assumes "0 < sq_limit opts" and "sq_max_result_bytes opts < - 1" and "within opts acc"
  shows "answers (\<lambda>_. True) (\<lambda>(out, acc). within opts acc) (emit_matches E snap cand cs payload M start opts acc)"
  unfolding emit_matches_def by (rule any_step) (rule emit_loop_within [OF assms])

text \<open>The end of a walk has collected a page that is within the ceilings.\<close>

abbreviation end_within :: "search_options \<Rightarrow> search_end option \<Rightarrow> bool" where
  "end_within opts e \<equiv> \<forall>by run. e = Some (by, run) \<longrightarrow> within opts (sn_acc run)"

lemma count_scan_acc [simp]: "sn_acc (count_scan scan first run) = sn_acc run" "sn_acc (note_payload_read x run) = sn_acc run"
  by (simp_all add: count_scan_def note_payload_read_def split: cached_scan.split)

lemma search_loop_within:
  assumes opts: "0 < sq_limit opts" "sq_max_result_bytes opts < - 1" and "within opts (sn_acc run)"
  shows "answers (\<lambda>_. True) (end_within opts) (search_loop fuel E G db snap M opts resume run)"
  using assms(3)
proof (induction fuel arbitrary: run)
  case (Suc fuel)
  let ?again = "search_loop fuel E G db snap M opts resume"
  have stop: "answers (\<lambda>_. True) (end_within opts) (stop_search run e)" if "within opts (sn_acc run)" for run e
    using that by (auto simp: stop_search_def intro!: answers_sreturn answers_sraise)
  have emit: "answers (\<lambda>_. True) (end_within opts) (emit_into E snap cand cs payload M start opts run k)"
    if "within opts (sn_acc run)" and "\<And>run. within opts (sn_acc run) \<Longrightarrow> answers (\<lambda>_. True) (end_within opts) (k run)" for cand cs payload start run k
    unfolding emit_into_def
    by (rule answers_sbind [OF emit_matches_within [OF opts that(1)]]) (auto intro!: answers_sreturn that(2) split: emit_outcome.split)
  have remember: "answers (\<lambda>_. True) (end_within opts) (remember_scan x scan ?again run)" if "within opts (sn_acc run)" for x scan run
    using that by (auto simp: remember_scan_def intro!: answers_sraise Suc.IH split: option.split prod.split)
  have cached: "answers (\<lambda>_. True) (end_within opts) (visit_cached E db snap M opts cand start first scan ?again run)"
    if "within opts (sn_acc run)" for cand start first scan run
    using that unfolding visit_cached_def
    by (auto intro!: any_step stop answers_sraise Suc.IH emit split: sum.split cached_scan.split option.split)
  have fresh: "answers (\<lambda>_. True) (end_within opts) (visit_fresh E db snap M opts cand start first ?again run)"
    if "within opts (sn_acc run)" for cand start first run
    using that unfolding visit_fresh_def Let_def
    by (auto intro!: any_step stop answers_sraise emit remember split: sum.split cached_scan.split option.split)
  have visit: "answers (\<lambda>_. True) (end_within opts) (visit_blob E db snap M opts cand start ?again run)"
    if "within opts (sn_acc run)" for cand start run
    using that unfolding visit_blob_def Let_def
    by (auto intro!: answers_sraise cached fresh split: option.split prod.split)
  show ?case
    unfolding search_loop.simps Let_def
    using Suc.prems by (intro any_step) (auto intro!: any_step stop answers_sreturn visit Suc.IH split: sum.split option.split prod.split)
qed (simp add: answers_sreturn)

text \<open>Fitting the cursor only drops matches from the end.\<close>

lemma drop_last_within:
  assumes "within opts acc" and "drop_last acc = Inr acc'" and "length (co_matches acc) \<noteq> 1"
  shows "within opts acc' \<and> co_matches acc' = butlast (co_matches acc) \<and> co_positions acc' = butlast (co_positions acc)"
proof -
  from assms(2) obtain ms m where ms: "co_matches acc = ms @ [m]"
    by (auto simp: drop_last_def split: if_splits) (metis append_butlast_last_id)
  with assms have acc': "acc' = \<lparr>co_matches = ms, co_positions = butlast (co_positions acc), co_bytes = sat_sub (co_bytes acc) (match_payload_bytes m)\<rparr>"
    and bytes: "unat (co_bytes acc) = total_bytes ms + unat (match_payload_bytes m)" "total_bytes (ms @ [m]) \<le> unat (sq_max_result_bytes opts)"
    by (auto simp: drop_last_def within_def)
  from bytes(1) have "unat (sat_sub (co_bytes acc) (match_payload_bytes m)) = total_bytes ms"
    by (auto simp: sat_sub_def word_less_nat_alt unat_sub word_le_nat_alt)
  with acc' ms assms(1) bytes(2) show ?thesis by (auto simp: within_def)
qed

definition fitted :: "search_options \<Rightarrow> snapshot \<Rightarrow> u64 \<Rightarrow> collected \<Rightarrow> bytes \<times> collected \<times> string option \<Rightarrow> bool" where
  "fitted opts snap fp acc r = (case r of (c, acc', by') \<Rightarrow>
     within opts acc' \<and> by' \<noteq> None \<and> co_matches acc' \<noteq> [] \<and> length c \<le> MAX_CURSOR_BYTES
     \<and> (total_bytes (co_matches acc') + length c \<le> unat (sq_max_result_bytes opts) \<or> length (co_matches acc') = 1)
     \<and> c = encode (search_cursor snap fp (fst (last (co_positions acc'))) (snd (last (co_positions acc'))))
     \<and> (\<exists>k. co_matches acc' = take k (co_matches acc) \<and> co_positions acc' = take k (co_positions acc)))"

lemma take_butlast_min: "take k (butlast xs) = take (min k (length xs - 1)) xs"
  by (simp add: butlast_conv_take)

lemma fitted_drop:
  assumes "fitted opts snap fp acc1 r" and "within opts acc"
    and "co_matches acc1 = butlast (co_matches acc)" and "co_positions acc1 = butlast (co_positions acc)"
  shows "fitted opts snap fp acc r"
proof -
  obtain c acc' by' where r: "r = (c, acc', by')" by (cases r) auto
  have len: "length (co_positions acc) = length (co_matches acc)" using assms(2) by (simp add: within_def)
  from assms(1) r obtain k where "co_matches acc' = take k (co_matches acc1)" "co_positions acc' = take k (co_positions acc1)"
    by (auto simp: fitted_def)
  then have "co_matches acc' = take (min k (length (co_matches acc) - 1)) (co_matches acc)
    \<and> co_positions acc' = take (min k (length (co_matches acc) - 1)) (co_positions acc)"
    unfolding assms(3,4) take_butlast_min len by blast
  then show ?thesis using assms(1) unfolding fitted_def r by blast
qed

lemma fitted_here:
  assumes "within opts acc" and "co_positions acc \<noteq> []" and "by \<noteq> None" and "sq_max_result_bytes opts < - 1"
    and enc: "enc = encode (search_cursor snap fp (fst (last (co_positions acc))) (snd (last (co_positions acc))))" "length enc \<le> MAX_CURSOR_BYTES"
    and fits: "length (co_matches acc) = 1 \<or> sat_add (co_bytes acc) (byte_len enc) \<le> sq_max_result_bytes opts"
  shows "fitted opts snap fp acc (enc, acc, by)"
proof -
  have len: "unat (byte_len enc) = length enc"
    using enc(2) by (simp add: byte_len_def MAX_CURSOR_BYTES_def unsigned_of_nat take_bit_nat_eq_self)
  have "total_bytes (co_matches acc) + length enc \<le> unat (sq_max_result_bytes opts)"
    if "sat_add (co_bytes acc) (byte_len enc) \<le> sq_max_result_bytes opts"
    using sat_add_exact [OF that assms(4)] that len assms(1) by (simp add: within_def word_le_nat_alt)
  moreover have "co_matches acc \<noteq> []" using assms(1,2) by (auto simp: within_def)
  moreover have "\<exists>k. co_matches acc = take k (co_matches acc) \<and> co_positions acc = take k (co_positions acc)"
    using assms(1) by (intro exI [of _ "length (co_matches acc)"]) (simp add: within_def)
  ultimately show ?thesis using assms by (auto simp: fitted_def)
qed

lemma fit_cursor_within:
  assumes "fit_cursor snap fp (sq_max_result_bytes opts) acc by = Inr r" and "within opts acc" and "by \<noteq> None"
    and "sq_max_result_bytes opts < - 1"
  shows "fitted opts snap fp acc r"
  using assms(1-3)
proof (induction "length (co_positions acc)" arbitrary: acc "by" rule: less_induct)
  case less
  let ?max = "sq_max_result_bytes opts"
  let ?enc = "encode (search_cursor snap fp (fst (last (co_positions acc))) (snd (last (co_positions acc))))"
  have run: "(if co_positions acc = [] then Inl (no_progress (case by of None \<Rightarrow> ''budget'' | Some l \<Rightarrow> l))
     else let encoded = ?enc in
       if MAX_CURSOR_BYTES < length encoded then
         (if length (co_matches acc) = 1 then Inl (err_new ResultTooLarge ''search continuation path exceeds the cursor size limit'')
          else case drop_last acc of Inl e \<Rightarrow> Inl e | Inr acc1 \<Rightarrow> fit_cursor snap fp ?max acc1 (Some ''max_result_bytes''))
       else if (length (co_matches acc) = 1 \<and> ?max < co_bytes acc) \<or> sat_add (co_bytes acc) (byte_len encoded) \<le> ?max
         then Inr (encoded, acc, by)
       else if length (co_matches acc) = 1 then Inl (no_progress ''max_result_bytes'')
       else case drop_last acc of Inl e \<Rightarrow> Inl e | Inr acc1 \<Rightarrow> fit_cursor snap fp ?max acc1 (Some ''max_result_bytes'')) = Inr r"
    using less.prems(1) by (subst (asm) fit_cursor.simps)
  then have ne: "co_positions acc \<noteq> []" by (auto split: if_splits)
  from run ne consider (drop) "length (co_matches acc) \<noteq> 1"
      "(case drop_last acc of Inl e \<Rightarrow> Inl e | Inr acc1 \<Rightarrow> fit_cursor snap fp ?max acc1 (Some ''max_result_bytes'')) = Inr r"
    | (fits) "r = (?enc, acc, by)" "length ?enc \<le> MAX_CURSOR_BYTES" "length (co_matches acc) = 1 \<or> sat_add (co_bytes acc) (byte_len ?enc) \<le> ?max"
    unfolding Let_def by (metis Inl_Inr_False not_less sum.inject(2))
  then show ?case
  proof cases
    case drop
    from drop(2) obtain acc1 where acc1: "drop_last acc = Inr acc1"
      and rest: "fit_cursor snap fp ?max acc1 (Some ''max_result_bytes'') = Inr r" by (auto split: sum.splits)
    note dropped = drop_last_within [OF less.prems(2) acc1 drop(1)]
    have "length (co_positions acc1) < length (co_positions acc)" using dropped ne by simp
    then have "fitted opts snap fp acc1 r" using less.hyps [OF _ rest] dropped by blast
    with fitted_drop [OF _ less.prems(2)] dropped show ?thesis by blast
  next
    case fits
    with fitted_here [OF less.prems(2) ne less.prems(3) assms(4) refl] show ?thesis by blast
  qed
qed

text \<open>What every page promises about its size.\<close>

definition page_bounded :: "search_options \<Rightarrow> search_page \<Rightarrow> bool" where
  "page_bounded opts page \<longleftrightarrow> length (sp_matches page) \<le> sq_limit opts
     \<and> (sp_truncated page \<longleftrightarrow> sp_next_cursor page \<noteq> None) \<and> (sp_truncated page \<longrightarrow> sp_matches page \<noteq> [])
     \<and> (\<forall>c. sp_next_cursor page = Some c \<longrightarrow> length c \<le> MAX_CURSOR_BYTES)
     \<and> (total_bytes (sp_matches page) + (case sp_next_cursor page of None \<Rightarrow> 0 | Some c \<Rightarrow> length c) \<le> unat (sq_max_result_bytes opts)
         \<or> length (sp_matches page) = 1)"

lemma page_of_bounded:
  assumes "search_page_of db snap fp opts (by, run) s = Inr page" and "within opts (sn_acc run)" and "sq_max_result_bytes opts < - 1"
  shows "page_bounded opts page"
proof (cases "by")
  case None
  with assms show ?thesis by (auto simp: search_page_of_def page_bounded_def within_def split: if_splits)
next
  case (Some l)
  with assms(1) obtain c acc by' where fit: "fit_cursor snap fp (sq_max_result_bytes opts) (sn_acc run) by = Inr (c, acc, by')"
    and page: "sp_matches page = co_matches acc" "sp_next_cursor page = Some c" "sp_truncated page \<longleftrightarrow> by' \<noteq> None"
    by (auto simp: search_page_of_def rbind_Inr_iff split: if_splits prod.splits)
  from fit_cursor_within [OF fit assms(2) _ assms(3)] Some page show ?thesis
    by (auto simp: page_bounded_def within_def fitted_def)
qed

lemma search_run_new_within: "within opts (sn_acc (search_run_new walk capacity found))"
  by (simp add: within_def search_run_new_def)

lemma search_answers_bounded:
  assumes "sq_max_result_bytes opts < - 1"
  shows "answers (\<lambda>_. True) (\<lambda>p. \<forall>page. p = Some page \<longrightarrow> page_bounded opts page) (search_with_cache_capacity fuel E G db snap q opts capacity)"
proof -
  have valid: "answers (\<lambda>_. True) (\<lambda>_. 0 < sq_limit opts) (slift (validate_options opts))"
    by (rule answers_slift) (auto simp: validate_options_def rbind_Inr_iff split: if_splits)
  have final: "answers (\<lambda>_. True) (\<lambda>p. \<forall>page. p = Some page \<longrightarrow> page_bounded opts page)
      (case ended of None \<Rightarrow> sreturn None | Some e \<Rightarrow> (\<lambda>s. (rbind (search_page_of db snap fp opts e s) (\<lambda>p. Inr (Some p)), s)))"
    if "end_within opts ended" for ended fp
    using that page_of_bounded [OF _ _ assms]
    by (cases ended) (auto simp: answers_def rbind_Inr_iff sreturn_def)
  show ?thesis
    unfolding search_with_cache_capacity_def Let_def
    by (intro any_step answers_sbind [OF valid] answers_sbind [OF search_loop_within [OF _ assms search_run_new_within]]) (auto intro!: final)
qed

end
