(* ===== verification/SearchShows.thy ===== *)
theory SearchShows
  imports SearchPages Resident Submodules "HOL-Library.Sublist"
begin

text \<open>
  What a page of a case-sensitive literal search shows: the matching lines of the selected blobs in the order of the walk. For any exact store and any budget the
  matches are true hits in the order of the walk, after the position of the cursor.
\<close>

section \<open>What a search should show\<close>

definition payload_of :: "(oid \<Rightarrow> object_read) \<Rightarrow> oid \<Rightarrow> bytes" where
  "payload_of C x = (case C x of Some (_, p) \<Rightarrow> p | None \<Rightarrow> [])"

text \<open>A hit: the path and name of a blob, its ordinal among the hits of the blob, the index of the line and the column of the first occurrence.\<close>

type_synonym hit = "bytes \<times> oid \<times> nat \<times> nat \<times> nat"

definition file_hits :: "(oid \<Rightarrow> object_read) \<Rightarrow> bytes \<Rightarrow> search_options \<Rightarrow> bytes \<times> oid \<Rightarrow> hit list" where
  "file_hits C q opts f =
    (case f of (path, x) \<Rightarrow>
      if sq_binary opts = SbSkip \<and> is_binary_payload (payload_of C x) then []
      else map (\<lambda>(n, i, c). (path, x, n, i, c)) (enumerate 0 (line_hits q (text_lines (payload_of C x)))))"

definition shown_submatches :: "bytes \<Rightarrow> bytes \<Rightarrow> search_submatch list \<times> bool" where
  "shown_submatches q line =
    (let n = min (length line) PREVIEW_BYTES in
     if q = [] then (map (\<lambda>i. \<lparr>sm_start = of_nat i, sm_length = 0\<rparr>) [0..<min n MAX_SUBMATCHES], min n MAX_SUBMATCHES < length line + 1)
     else snd (visit_all (retain n) (occurrences q line 0) ([], False)))"

definition match_shows :: "(oid \<Rightarrow> object_read) \<Rightarrow> snapshot \<Rightarrow> bytes \<Rightarrow> search_options \<Rightarrow> search_match \<Rightarrow> hit \<Rightarrow> bool" where
  "match_shows C snap q opts m h =
    (case h of (path, x, n, i, c) \<Rightarrow>
      let ls = text_lines (payload_of C x); line = ls ! i; context = unat (sq_context_lines opts) in
      sx_commit_oid m = commit_oid snap \<and> sx_blob_oid m = x \<and> sx_path m = path \<and> unat (sx_line m) = i + 1 \<and> unat (sx_column m) = c
      \<and> sx_preview m = take PREVIEW_BYTES line \<and> (sx_preview_truncated m \<longleftrightarrow> PREVIEW_BYTES < length line)
      \<and> (sx_submatches m, sx_submatches_truncated m) = shown_submatches q line
      \<and> sx_context_before m = map (take PREVIEW_BYTES) (drop (i - context) (take i ls))
      \<and> sx_context_after m = map (take PREVIEW_BYTES) (take context (drop (i + 1) ls)))"

section \<open>Emission\<close>

lemma preview_submatches_literal:
  assumes "find_law E"
  shows "answers I (\<lambda>r. r = shown_submatches q line) (preview_submatches E (MLiteral q) line (min (length line) PREVIEW_BYTES) :: ('w, search_submatch list \<times> bool) op)
    \<and> yields (preview_submatches E (MLiteral q) line (min (length line) PREVIEW_BYTES) :: ('w, search_submatch list \<times> bool) op) (shown_submatches q line)"
proof (cases "q = []")
  case True
  then show ?thesis by (auto simp: shown_submatches_def Let_def intro!: answers_sreturn yields_sreturn)
next
  case False
  let ?v = "visit_all (retain (min (length line) PREVIEW_BYTES)) (occurrences q line 0) ([], False)"
  from literal_visits [OF assms, of I "retain (min (length line) PREVIEW_BYTES)" q line "([], False)"]
  have run: "answers I (\<lambda>r. r = ?v) (literal_occurrences E line q (retain (min (length line) PREVIEW_BYTES)) ([], False) :: ('w, unit option \<times> search_submatch list \<times> bool) op)"
    "yields (literal_occurrences E line q (retain (min (length line) PREVIEW_BYTES)) ([], False) :: ('w, unit option \<times> search_submatch list \<times> bool) op) ?v"
    by blast+
  show ?thesis
    unfolding preview_submatches.simps if_not_P [OF False]
    by (intro conjI answers_sbind [OF run(1)] yields_sbind [OF run(2)])
       (auto simp: False shown_submatches_def Let_def split: prod.split intro!: answers_sreturn yields_sreturn)
qed

lemma match_of_shows:
  assumes E: "find_law E" and m: "records_line (payload_of C (bc_oid cand)) (unat (sq_context_lines opts)) cm (i, c)"
  shows "answers I (\<lambda>m. match_shows C snap q opts m (bc_path cand, bc_oid cand, n, i, c))
      (match_of E snap cand (payload_of C (bc_oid cand)) (MLiteral q) cm :: ('w, search_match) op)
    \<and> (\<exists>m. yields (match_of E snap cand (payload_of C (bc_oid cand)) (MLiteral q) cm :: ('w, search_match) op) m)"
proof -
  let ?p = "payload_of C (bc_oid cand)" and ?ctx = "unat (sq_context_lines opts)"
  let ?ls = "text_lines ?p" let ?line = "?ls ! i"
  from m have f: "unat (cl_line cm) = i + 1" "unat (cl_column cm) = c" "span_slice ?p (cl_preview cm) = Inr (take PREVIEW_BYTES ?line)"
    "slice ?p (unat (bs_start (cl_preview cm))) (unat (cl_line_end cm)) = Inr ?line"
    "bs_end (cl_preview cm) < cl_line_end cm \<longleftrightarrow> PREVIEW_BYTES < length ?line"
    "materialize_lines ?p (cl_context_before cm) = Inr (map (take PREVIEW_BYTES) (drop (i - ?ctx) (take i ?ls)))"
    "materialize_lines ?p (cl_context_after cm) = Inr (map (take PREVIEW_BYTES) (take ?ctx (drop (i + 1) ?ls)))"
    by (simp_all add: records_line_def Let_def)
  have len: "length (take PREVIEW_BYTES ?line) = min (length ?line) PREVIEW_BYTES" by simp
  note subs = preview_submatches_literal [OF E, of I q ?line]
  obtain sl st where sh: "shown_submatches q ?line = (sl, st)" by force
  show ?thesis
    unfolding match_of_def f(3,4,6,7) sbind_slift len
  proof (intro conjI)
    show "answers I (\<lambda>m. match_shows C snap q opts m (bc_path cand, bc_oid cand, n, i, c))
      (sbind (preview_submatches E (MLiteral q) ?line (min (length ?line) PREVIEW_BYTES)) (\<lambda>(subs, subs_truncated).
        sreturn \<lparr>sx_commit_oid = commit_oid snap, sx_blob_oid = bc_oid cand, sx_path = bc_path cand, sx_line = cl_line cm,
          sx_column = cl_column cm, sx_preview = take PREVIEW_BYTES ?line, sx_preview_truncated = bs_end (cl_preview cm) < cl_line_end cm,
          sx_submatches = subs, sx_submatches_truncated = subs_truncated,
          sx_context_before = map (take PREVIEW_BYTES) (drop (i - ?ctx) (take i ?ls)),
          sx_context_after = map (take PREVIEW_BYTES) (take ?ctx (drop (i + 1) ?ls))\<rparr>) :: ('w, search_match) op)"
      by (rule answers_sbind [OF conjunct1 [OF subs]]) (auto simp: match_shows_def Let_def f sh intro!: answers_sreturn)
  qed (rule exI, rule yields_sbind [OF conjunct2 [OF subs]], simp only: sh prod.case, rule yields_sreturn)
qed

text \<open>What emission adds: matches that show hits, with the positions of the hits.\<close>

definition hit_position :: "hit \<Rightarrow> bytes \<times> u32" where
  "hit_position h = (case h of (path, x, n, i, c) \<Rightarrow> (path, of_nat n))"

definition collects :: "(search_match \<Rightarrow> hit \<Rightarrow> bool) \<Rightarrow> collected \<Rightarrow> hit list \<Rightarrow> collected \<Rightarrow> bool" where
  "collects shows acc hs acc' \<longleftrightarrow> (\<exists>ms. co_matches acc' = co_matches acc @ ms \<and> list_all2 shows ms hs
     \<and> co_positions acc' = co_positions acc @ map hit_position hs)"

lemma collects_refl [simp]: "collects shows acc [] acc"
  by (simp add: collects_def)

lemma collects_trans: "collects shows acc hs acc1 \<Longrightarrow> collects shows acc1 ks acc2 \<Longrightarrow> collects shows acc (hs @ ks) acc2"
  by (auto simp: collects_def intro: list_all2_appendI)

lemma collects_match: "shows m (path, x, n, i, c) \<Longrightarrow> collects shows acc [(path, x, n, i, c)] (collect_match m path (of_nat n) acc)"
  by (simp add: collects_def collect_match_def hit_position_def)

text \<open>Emission shows a beginning of the hits of a blob, all of them when it completes.\<close>

definition emits :: "(search_match \<Rightarrow> hit \<Rightarrow> bool) \<Rightarrow> collected \<Rightarrow> hit list \<Rightarrow> emit_outcome \<times> collected \<Rightarrow> bool" where
  "emits shows acc hs r \<longleftrightarrow> (\<exists>k. collects shows acc (take k hs) (snd r) \<and> (fst r = EmitComplete \<longrightarrow> k = length hs))"

lemma emits_more: "collects shows acc [h] acc1 \<Longrightarrow> emits shows acc1 hs r \<Longrightarrow> emits shows acc (h # hs) r"
proof -
  assume h: "collects shows acc [h] acc1" and "emits shows acc1 hs r"
  then obtain k where k: "collects shows acc1 (take k hs) (snd r)" "fst r = EmitComplete \<longrightarrow> k = length hs"
    by (auto simp: emits_def)
  from collects_trans [OF h k(1)] k(2) show ?thesis unfolding emits_def by (intro exI [of _ "Suc k"]) simp
qed

lemma emit_loop_shows:
  assumes E: "find_law E" and "list_all2 (records_line (payload_of C (bc_oid cand)) (unat (sq_context_lines opts))) cs ics"
  shows "answers I (emits (match_shows C snap q opts) acc (map (\<lambda>(n, i, c). (bc_path cand, bc_oid cand, n, i, c)) (enumerate n ics)))
    (emit_loop E snap cand (payload_of C (bc_oid cand)) (MLiteral q) opts n cs acc :: ('w, emit_outcome \<times> collected) op)"
  using assms(2)
proof (induction cs ics arbitrary: n acc rule: list_all2_induct)
  case Nil
  then show ?case by (simp add: answers_sreturn emits_def)
next
  case (Cons cm cs ic ics)
  obtain i c where ic: "ic = (i, c)" by force
  let ?shows = "match_shows C snap q opts" and ?h = "(bc_path cand, bc_oid cand, n, i, c)"
  let ?hs = "map (\<lambda>(n, i, c). (bc_path cand, bc_oid cand, n, i, c)) (enumerate (Suc n) ics)"
  have item: "answers I (\<lambda>m. ?shows m ?h) (match_of E snap cand (payload_of C (bc_oid cand)) (MLiteral q) cm :: ('w, search_match) op)"
    using match_of_shows [OF E] Cons.hyps(1) ic by blast
  have stop: "emits ?shows acc (?h # ?hs) (EmitStopped l, acc)" for l
    by (auto simp: emits_def intro: exI [of _ 0])
  have new: "collects ?shows acc [?h] (collect_match m (bc_path cand) (of_nat n) acc)" if "?shows m ?h" for m
    using collects_match [of ?shows m "bc_path cand" "bc_oid cand" n i c acc] that by simp
  then have one: "emits ?shows acc (?h # ?hs) (EmitStopped l, collect_match m (bc_path cand) (of_nat n) acc)" if "?shows m ?h" for m l
    unfolding emits_def using that by (intro exI [of _ "Suc 0"]) simp
  have rest: "answers I (emits ?shows acc (?h # ?hs))
      (emit_loop E snap cand (payload_of C (bc_oid cand)) (MLiteral q) opts (Suc n) cs (collect_match m (bc_path cand) (of_nat n) acc)
        :: ('w, emit_outcome \<times> collected) op)" if "?shows m ?h" for m
    by (rule answers_conseq [OF Cons.IH]) (rule emits_more [OF new [OF that]])
  show ?case
    unfolding emit_loop.simps ic enumerate_simps list.map prod.case
    by (rule answers_sbind [OF answers_on_budget [where P = "\<lambda>_. True"]])
       (auto intro!: answers_sreturn stop answers_sbind [OF item] answers_sbind [OF answers_slift [where P = "\<lambda>v. v = of_nat n"]] one rest)
qed

section \<open>Scans\<close>

abbreviation hidden :: "(oid \<Rightarrow> object_read) \<Rightarrow> search_options \<Rightarrow> oid \<Rightarrow> bool" where
  "hidden C opts x \<equiv> sq_binary opts = SbSkip \<and> is_binary_payload (payload_of C x)"

text \<open>What a scan of a blob may be; only the scan of a blob that was too large to read says nothing about the blob.\<close>

definition scan_ok :: "(oid \<Rightarrow> object_read) \<Rightarrow> bytes \<Rightarrow> search_options \<Rightarrow> oid \<Rightarrow> cached_scan \<Rightarrow> bool" where
  "scan_ok C q opts x s =
    (case s of
       ScMatches cs \<Rightarrow> \<not> hidden C opts x
         \<and> list_all2 (records_line (payload_of C x) (unat (sq_context_lines opts))) cs (line_hits q (text_lines (payload_of C x)))
     | ScBinarySkipped \<Rightarrow> hidden C opts x
     | ScOversizeSkipped \<Rightarrow> True)"

lemma read_blob_payload_answers:
  assumes "object_store db I (\<lambda>x v. v = C x)"
  shows "answers I (\<lambda>r. \<forall>p. r = Some p \<longrightarrow> p = payload_of C x) (read_blob_payload db x)"
proof -
  have "answers I (\<lambda>r. \<forall>v. r = Inr v \<longrightarrow> v = C x) (sattempt (db_try_find_graph db x))"
    by (rule answers_sattempt [OF object_store.find_graph_law [OF assms]])
  then show ?thesis
    unfolding read_blob_payload_def
    by (rule answers_sbind) (auto simp: payload_of_def intro!: answers_sreturn answers_sraise split: sum.split option.split)
qed

lemma scan_blob_answers:
  assumes E: "find_law E" and db: "object_store db I (\<lambda>x v. v = C x)"
  shows "answers I (\<lambda>s. scan_ok C q opts x (sb_scan s) \<and> (\<forall>cs. sb_scan s = ScMatches cs \<longrightarrow> sb_payload s = Some (payload_of C x)))
    (scan_blob E db x (MLiteral q) opts)"
proof -
  note scan = scan_payload_records [OF E, of I "payload_of C x" "sq_context_lines opts" q]
  show ?thesis
    unfolding scan_blob_def
    by (rule answers_sbind [OF answers_on_budget [where P = "\<lambda>_. True"]], simp, rule answers_sbind [OF object_store.header_law [OF db]])
       (auto simp: scan_ok_def intro!: answers_sraise answers_sreturn answers_sbind [OF answers_on_budget [where P = "\<lambda>_. True"]]
          answers_sbind [OF read_blob_payload_answers [OF db]] answers_sbind [OF scan] split: option.split)
qed

section \<open>Emission of a blob\<close>

lemma drop_enumerate: "drop k (enumerate n xs) = enumerate (n + k) (drop k xs)"
  by (cases "k \<le> length xs") (simp_all add: enumerate_eq_zip drop_zip)

lemma emit_matches_shows:
  assumes E: "find_law E" and scan: "scan_ok C q opts (bc_oid cand) (ScMatches cs)"
  shows "answers I (emits (match_shows C snap q opts) acc (drop (case start of None \<Rightarrow> 0 | Some k \<Rightarrow> unat k) (file_hits C q opts (bc_path cand, bc_oid cand))))
    (emit_matches E snap cand cs (payload_of C (bc_oid cand)) (MLiteral q) start opts acc)"
proof -
  let ?hs = "line_hits q (text_lines (payload_of C (bc_oid cand)))" and ?ctx = "unat (sq_context_lines opts)"
  from scan have cs: "list_all2 (records_line (payload_of C (bc_oid cand)) ?ctx) cs ?hs" and shown: "\<not> hidden C opts (bc_oid cand)"
    by (simp_all add: scan_ok_def)
  have hits: "drop k (file_hits C q opts (bc_path cand, bc_oid cand)) = map (\<lambda>(n, i, c). (bc_path cand, bc_oid cand, n, i, c)) (enumerate k (drop k ?hs))" for k
    using shown by (auto simp: file_hits_def drop_map drop_enumerate)
  have start: "answers I (\<lambda>k. k = (case start of None \<Rightarrow> 0 | Some k \<Rightarrow> unat k)) (slift (start_index start (length cs)))"
    by (rule answers_slift) (auto simp: start_index_def split: option.splits if_splits)
  show ?thesis
    unfolding emit_matches_def hits
    by (rule answers_sbind [OF start]) (use emit_loop_shows [OF E list_all2_dropI [OF cs]] in simp)
qed

section \<open>The walk\<close>

definition as_link :: "walk_frame \<Rightarrow> link_frame" where
  "as_link f = \<lparr>lf_entries = wf_entries f, lf_prefix = wf_prefix f\<rparr>"

lemma as_link_simps [simp]: "lf_entries (as_link f) = wf_entries f" "lf_prefix (as_link f) = wf_prefix f"
  "as_link (f\<lparr>wf_entries := es\<rparr>) = (as_link f)\<lparr>lf_entries := es\<rparr>"
  "as_link \<lparr>wf_entries = es, wf_prefix = p\<rparr> = \<lparr>lf_entries = es, lf_prefix = p\<rparr>"
  by (simp_all add: as_link_def)

text \<open>The entries that a walk has yet to visit, and the blobs among them that the query selects.\<close>

abbreviation left_to_visit :: "(oid \<Rightarrow> owned_entry list option) \<Rightarrow> walk_frame list \<Rightarrow> (bytes \<times> owned_entry) list \<Rightarrow> bool" where
  "left_to_visit ents fs xs \<equiv> stack_list ents into_trees (map as_frame (map as_link fs)) xs"

lemma visit_step:
  assumes "left_to_visit ents (f # fs) xs" and "wf_entries f = e # rest"
  obtains (leaf) ys where "oe_kind e \<noteq> KTree" "xs = (join_path (wf_prefix f) (oe_name e), e) # ys"
    "left_to_visit ents (f\<lparr>wf_entries := rest\<rparr> # fs) ys"
  | (down) sub ys where "oe_kind e = KTree" "ents (oe_oid e) = Some sub" "xs = (join_path (wf_prefix f) (oe_name e), e) # ys"
    "left_to_visit ents (\<lparr>wf_entries = sub, wf_prefix = join_path (wf_prefix f) (oe_name e)\<rparr> # f\<lparr>wf_entries := rest\<rparr> # fs) ys"
  using assms link_step [of ents "as_link f" "map as_link fs" xs e rest thesis] by simp

lemma visit_pop: "left_to_visit ents (f # fs) xs \<Longrightarrow> wf_entries f = [] \<Longrightarrow> left_to_visit ents fs xs"
  using link_pop [of ents "as_link f" "map as_link fs" xs] by simp

definition selected :: "gix \<Rightarrow> search_options \<Rightarrow> bytes \<times> owned_entry \<Rightarrow> bool" where
  "selected G opts pe \<longleftrightarrow> oe_kind (snd pe) = KBlob \<and> matcher_matches G (sq_pathspecs opts) (relative_to_scope (fst pe) (sq_path opts))"

definition candidates :: "gix \<Rightarrow> search_options \<Rightarrow> (bytes \<times> owned_entry) list \<Rightarrow> (bytes \<times> oid) list" where
  "candidates G opts xs = map (\<lambda>(p, e). (p, oe_oid e)) (filter (selected G opts) xs)"

lemma candidates_simps [simp]: "candidates G opts [] = []"
  "candidates G opts ((p, e) # xs) = (if selected G opts (p, e) then [(p, oe_oid e)] else []) @ candidates G opts xs"
  by (simp_all add: candidates_def)

definition visits :: "(oid \<Rightarrow> owned_entry list option) \<Rightarrow> gix \<Rightarrow> search_options \<Rightarrow> (bytes \<times> owned_entry) list
    \<Rightarrow> (blob_candidate option \<times> blob_walk) option \<Rightarrow> bool" where
  "visits ents G opts xs r =
    (case r of
       None \<Rightarrow> True
     | Some (None, walk) \<Rightarrow> candidates G opts xs = []
     | Some (Some c, walk) \<Rightarrow> \<exists>ys. candidates G opts xs = (bc_path c, bc_oid c) # candidates G opts ys \<and> left_to_visit ents (bw_stack walk) ys)"

lemma visits_skip: "\<not> selected G opts (p, e) \<Longrightarrow> visits ents G opts ((p, e) # xs) = visits ents G opts xs"
  by (rule ext) (auto simp: visits_def split: option.split)

lemma prefetch_windows_answers:
  assumes "object_store db I admits"
  shows "answers I (\<lambda>_. True) (prefetch_windows db xss)"
  by (induction xss) (auto intro!: answers_sreturn answers_sbind [OF object_store.prefetch_law [OF assms]])

lemma walk_read_entries_answers:
  assumes db: "object_store db I (\<lambda>x v. v = C x)"
  shows "answers I (\<lambda>(es, walk'). entries_at G (db_hash_kind db) C x = Some es \<and> bw_stack walk' = bw_stack walk)
    (walk_read_entries G db opts resume walk x pre)"
proof -
  have read: "answers I (\<lambda>es. entries_at G (db_hash_kind db) C x = Some es)
      (if bw_replaying walk then read_tree_entries_for_graph_walk G db x else read_tree_entries_for_walk G db x True)"
    by (simp add: read_for_walk_answers [OF db] read_for_graph_walk_answers [OF db])
  show ?thesis
    unfolding walk_read_entries_def Let_def
    by (rule answers_sbind [OF read]) (auto intro!: answers_sreturn answers_sbind [OF prefetch_windows_answers [OF db]])
qed

lemma blob_next_answers:
  assumes db: "object_store db I (\<lambda>x v. v = C x)" and "left_to_visit (entries_at G (db_hash_kind db) C) (bw_stack walk) xs"
  shows "answers I (visits (entries_at G (db_hash_kind db) C) G opts xs) (blob_next fuel G db opts resume walk)"
  using assms(2)
proof (induction fuel arbitrary: walk xs)
  case 0
  then show ?case by (simp add: visits_def answers_sreturn)
next
  case (Suc fuel)
  let ?ents = "entries_at G (db_hash_kind db) C"
  note check = answers_sbind [OF answers_on_budget [where P = "\<lambda>_. True"]]
  show ?case
  proof (cases "bw_stack walk")
    case Nil
    with Suc.prems show ?thesis by (auto simp: visits_def intro!: check answers_sreturn elim: stack_list_NilE)
  next
    case (Cons f fs)
    show ?thesis
    proof (cases "wf_entries f")
      case Nil
      with visit_pop [of ?ents f fs xs] Suc.prems Cons have "left_to_visit ?ents fs xs" by simp
      with Suc.IH [of "walk\<lparr>bw_stack := fs\<rparr>" xs] Cons Nil show ?thesis by (auto intro!: check)
    next
      case entries: (Cons e rest)
      let ?path = "join_path (wf_prefix f) (oe_name e)"
      let ?walk = "walk\<lparr>bw_stack := f\<lparr>wf_entries := rest\<rparr> # fs\<rparr>"
      from Suc.prems [unfolded Cons] entries show ?thesis
      proof (cases rule: visit_step)
        case (leaf ys)
        show ?thesis
        proof (cases "selected G opts (?path, e)")
          case True
          with leaf Cons entries show ?thesis
            by (auto simp: visits_def selected_def Let_def intro!: check answers_sreturn)
        next
          case False
          with Suc.IH [of ?walk ys] leaf have "answers I (visits ?ents G opts xs) (blob_next fuel G db opts resume ?walk)"
            by (simp add: visits_skip)
          with False leaf Cons entries show ?thesis by (auto simp: selected_def Let_def intro!: check)
        qed
      next
        case (down sub ys)
        have step: "answers I (visits ?ents G opts xs) (blob_next fuel G db opts resume (walk'\<lparr>bw_stack := \<lparr>wf_entries = sub, wf_prefix = ?path\<rparr> # bw_stack walk'\<rparr>))"
          if "bw_stack walk' = bw_stack ?walk" for walk'
          using Suc.IH [of "walk'\<lparr>bw_stack := \<lparr>wf_entries = sub, wf_prefix = ?path\<rparr> # bw_stack walk'\<rparr>" ys] down that
          by (simp add: visits_skip selected_def)
        show ?thesis
          using Cons entries down step
          by (auto simp: Let_def intro!: check answers_sbind [OF walk_read_entries_answers [OF db]])
      qed
    qed
  qed
qed

section \<open>The query\<close>

definition hits_of :: "(oid \<Rightarrow> object_read) \<Rightarrow> bytes \<Rightarrow> search_options \<Rightarrow> (bytes \<times> oid) list \<Rightarrow> hit list" where
  "hits_of C q opts fs = concat (map (file_hits C q opts) fs)"

lemma hits_of_simps [simp]: "hits_of C q opts [] = []" "hits_of C q opts (f # fs) = file_hits C q opts f @ hits_of C q opts fs"
  by (simp_all add: hits_of_def)

text \<open>A query that continues from a position leaves out the hits up to it.\<close>

abbreviation hits_skipped :: "u32 option \<Rightarrow> nat" where
  "hits_skipped k \<equiv> (case k of None \<Rightarrow> 0 | Some k \<Rightarrow> unat k)"

definition remaining_hits :: "(oid \<Rightarrow> object_read) \<Rightarrow> bytes \<Rightarrow> search_options \<Rightarrow> (bytes \<times> u32) option \<Rightarrow> (bytes \<times> oid) list \<Rightarrow> hit list" where
  "remaining_hits C q opts resume fs =
    (case resume of
       None \<Rightarrow> hits_of C q opts fs
     | Some (p, n) \<Rightarrow>
         (case dropWhile (\<lambda>f. fst f < p) fs of
            [] \<Rightarrow> []
          | f # rest \<Rightarrow> drop (unat (sat_add n 1)) (file_hits C q opts f) @ hits_of C q opts rest))"

definition finds :: "(search_match \<Rightarrow> hit \<Rightarrow> bool) \<Rightarrow> collected \<Rightarrow> hit list \<Rightarrow> search_end option \<Rightarrow> bool" where
  "finds shows acc todo e \<longleftrightarrow> (\<forall>by run. e = Some (by, run) \<longrightarrow> (\<exists>hs. collects shows acc hs (sn_acc run) \<and> subseq hs todo))"

lemma finds_after: "collects shows acc hs acc1 \<Longrightarrow> finds shows acc1 todo e \<Longrightarrow> finds shows acc (hs @ todo) e"
  unfolding finds_def using collects_trans list_emb_append_mono by (metis subseq_order.refl)

lemma finds_less: "finds shows acc todo e \<Longrightarrow> subseq todo todo' \<Longrightarrow> finds shows acc todo' e"
  unfolding finds_def using subseq_order.trans by blast

lemma finds_here: "collects shows acc (take k hs) (sn_acc run) \<Longrightarrow> finds shows acc (hs @ todo) (Some (by, run))"
  unfolding finds_def by (metis Pair_inject option.inject subseq_order.refl list_emb_append2 append_take_drop_id list_emb_prefix)

text \<open>Between two blobs the walk and the place of the cursor stay, and the cached scans are those of the blobs.\<close>

abbreviation scans_ok :: "(oid \<Rightarrow> object_read) \<Rightarrow> bytes \<Rightarrow> search_options \<Rightarrow> search_run \<Rightarrow> bool" where
  "scans_ok C q opts run \<equiv> resident (scan_ok C q opts) (sn_cache run)"

definition run_at :: "(oid \<Rightarrow> object_read) \<Rightarrow> bytes \<Rightarrow> search_options \<Rightarrow> blob_walk \<times> bool \<Rightarrow> search_run \<Rightarrow> bool" where
  "run_at C q opts place run \<longleftrightarrow> scans_ok C q opts run \<and> sn_walk run = fst place \<and> sn_found_resume run = snd place"

lemma run_at_updates [simp]:
  "run_at C q opts place (run\<lparr>sn_acc := acc\<rparr>) = run_at C q opts place run"
  "run_at C q opts place (run\<lparr>sn_oversize_skipped := n\<rparr>) = run_at C q opts place run"
  "run_at C q opts place (count_scan scan first run) = run_at C q opts place run"
  "run_at C q opts place (note_payload_read x run) = run_at C q opts place run"
  by (simp_all add: run_at_def count_scan_def note_payload_read_def split: cached_scan.split)

lemma stop_search_finds: "answers I (finds shows (sn_acc run) todo) (stop_search run e)"
  by (auto simp: stop_search_def finds_def intro!: answers_sreturn answers_sraise exI [of _ "[]"])

lemma emit_into_finds:
  assumes E: "find_law E" and scan: "scan_ok C q opts (bc_oid cand) (ScMatches cs)" and run: "run_at C q opts place run"
    and k: "\<And>run. run_at C q opts place run \<Longrightarrow> answers I (finds (match_shows C snap q opts) (sn_acc run) todo) (k run)"
  shows "answers I (finds (match_shows C snap q opts) (sn_acc run) (drop (hits_skipped start) (file_hits C q opts (bc_path cand, bc_oid cand)) @ todo))
    (emit_into E snap cand cs (payload_of C (bc_oid cand)) (MLiteral q) start opts run k)"
proof -
  let ?hs = "drop (hits_skipped start) (file_hits C q opts (bc_path cand, bc_oid cand))" and ?shows = "match_shows C snap q opts"
  show ?thesis
    unfolding emit_into_def
  proof (rule answers_sbind [OF emit_matches_shows [OF E scan]])
    fix r assume "emits ?shows (sn_acc run) ?hs r"
    then obtain out acc n where r: "r = (out, acc)" "collects ?shows (sn_acc run) (take n ?hs) acc" "out = EmitComplete \<longrightarrow> n = length ?hs"
      by (cases r) (auto simp: emits_def)
    have "answers I (finds ?shows (sn_acc run) (?hs @ todo)) (k (run\<lparr>sn_acc := acc\<rparr>))" if "out = EmitComplete"
      using k [of "run\<lparr>sn_acc := acc\<rparr>"] run r that by (auto elim!: answers_conseq intro: finds_after)
    then show "answers I (finds ?shows (sn_acc run) (?hs @ todo)) (case r of (out, acc) \<Rightarrow>
        case out of EmitComplete \<Rightarrow> k (run\<lparr>sn_acc := acc\<rparr>) | EmitStopped l \<Rightarrow> sreturn (Some (Some l, run\<lparr>sn_acc := acc\<rparr>)))"
      using r(1,2) by (auto intro!: answers_sreturn finds_here [where k = n] split: emit_outcome.split)
  qed
qed

lemma remember_scan_finds:
  assumes "scan_ok C q opts x scan" and "run_at C q opts place run"
    and k: "\<And>run. run_at C q opts place run \<Longrightarrow> answers I (finds shows (sn_acc run) todo) (k run)"
  shows "answers I (finds shows (sn_acc run) todo) (remember_scan x scan k run)"
proof -
  obtain n cache where "insert_counting_evictions x scan (cache_weight scan) (sn_cache run) = Some (n, cache)" "resident (scan_ok C q opts) cache"
    using resident_insert [of "scan_ok C q opts" "sn_cache run" x scan] assms(2,1) unfolding run_at_def by blast
  then show ?thesis using assms(2) k [of "run\<lparr>sn_cache := cache\<rparr>"] by (simp add: remember_scan_def run_at_def)
qed

lemma answers_case_sum:
  "(\<And>e. r = Inl e \<Longrightarrow> answers I P (f e)) \<Longrightarrow> (\<And>v. r = Inr v \<Longrightarrow> answers I P (g v)) \<Longrightarrow> answers I P (case r of Inl e \<Rightarrow> f e | Inr v \<Rightarrow> g v)"
  by (cases r) simp_all

lemma visit_blob_finds:
  assumes E: "find_law E" and db: "object_store db I (\<lambda>x v. v = C x)" and run: "run_at C q opts place run"
    and k: "\<And>run. run_at C q opts place run \<Longrightarrow> answers I (finds (match_shows C snap q opts) (sn_acc run) todo) (k run)"
  shows "answers I (finds (match_shows C snap q opts) (sn_acc run) (drop (hits_skipped start) (file_hits C q opts (bc_path cand, bc_oid cand)) @ todo))
    (visit_blob E db snap (MLiteral q) opts cand start k run)"
proof -
  let ?shows = "match_shows C snap q opts"
  define todo' where "todo' = drop (hits_skipped start) (file_hits C q opts (bc_path cand, bc_oid cand)) @ todo"
  have less: "subseq todo todo'" unfolding todo'_def by (rule list_emb_append2) (rule subseq_order.refl)
  let ?P = "\<lambda>acc. finds ?shows acc todo'"
  have skip: "answers I (?P acc) (k run)" if "run_at C q opts place run" "sn_acc run = acc" for run acc
    using answers_conseq [OF k [OF that(1)] finds_less [OF _ less]] that(2) by simp
  have keep: "answers I (?P acc) (remember_scan x scan k run)" if "scan_ok C q opts x scan" "run_at C q opts place run" "sn_acc run = acc" for x scan run acc
    using answers_conseq [OF remember_scan_finds [OF that(1,2) k] finds_less [OF _ less]] that(3) by simp
  have stop: "answers I (?P acc) (stop_search run e)" if "sn_acc run = acc" for run e acc
    using stop_search_finds [of I ?shows run todo' e] that by simp
  have emit: "answers I (?P acc) (emit_into E snap cand cs (payload_of C (bc_oid cand)) (MLiteral q) st opts run j)"
    if "scan_ok C q opts (bc_oid cand) (ScMatches cs)" "run_at C q opts place run" "sn_acc run = acc" "st = start"
      "\<And>run. run_at C q opts place run \<Longrightarrow> answers I (finds ?shows (sn_acc run) todo) (j run)" for cs run j acc st
    using emit_into_finds [OF E that(1,2,5)] that(3,4) by (simp add: todo'_def)
  have cached: "answers I (?P (sn_acc run)) (visit_cached E db snap (MLiteral q) opts cand start first scan k run)"
    if "scan_ok C q opts (bc_oid cand) scan" "run_at C q opts place run" for first scan run
  proof -
    have "answers I (?P (sn_acc run)) (case read of
          None \<Rightarrow> k (run\<lparr>sn_oversize_skipped := bump first (sn_oversize_skipped run)\<rparr>)
        | Some payload \<Rightarrow> emit_into E snap cand cs payload (MLiteral q) start opts (note_payload_read (bc_oid cand) run) k)"
      if "\<forall>p. read = Some p \<longrightarrow> p = payload_of C (bc_oid cand)" "scan = ScMatches cs" for read cs
      using that \<open>run_at C q opts place run\<close> \<open>scan_ok C q opts (bc_oid cand) scan\<close>
      by (cases read) (simp_all add: skip emit k)
    then have "answers I (?P (sn_acc run)) (case scan of
           ScMatches cs \<Rightarrow>
             sbind (read_blob_payload db (bc_oid cand)) (\<lambda>read.
             case read of
               None \<Rightarrow> k (run\<lparr>sn_oversize_skipped := bump first (sn_oversize_skipped run)\<rparr>)
             | Some payload \<Rightarrow> emit_into E snap cand cs payload (MLiteral q) start opts (note_payload_read (bc_oid cand) run) k)
         | _ \<Rightarrow> if start \<noteq> None then sraise no_emitted else k run)"
      using that by (cases scan) (auto simp: answers_sraise skip intro!: answers_sbind [OF read_blob_payload_answers [OF db]])
    then show ?thesis
      unfolding visit_cached_def
      by (intro answers_sbind [OF answers_sattempt [OF answers_on_budget [where P = "\<lambda>_. True"]]] answers_case_sum stop) simp_all
  qed
  have fresh: "answers I (?P (sn_acc run)) (visit_fresh E db snap (MLiteral q) opts cand start first k run)"
    if run: "run_at C q opts place run" for first run
  proof -
    let ?run = "\<lambda>s. count_scan (sb_scan s) first (if sb_payload s \<noteq> None then note_payload_read (bc_oid cand) run else run)"
    have at: "run_at C q opts place (?run s)" "sn_acc (?run s) = sn_acc run" for s using run by simp_all
    have step: "answers I (?P (sn_acc run)) (case sb_scan s of
           ScMatches cs \<Rightarrow>
             (case sb_payload s of
                None \<Rightarrow> sraise panicked
              | Some payload \<Rightarrow> emit_into E snap cand cs payload (MLiteral q) start opts (?run s) (remember_scan (bc_oid cand) (sb_scan s) k))
         | _ \<Rightarrow> if start \<noteq> None then sraise no_emitted else remember_scan (bc_oid cand) (sb_scan s) k (?run s))"
      if s: "scan_ok C q opts (bc_oid cand) (sb_scan s)" "\<forall>cs. sb_scan s = ScMatches cs \<longrightarrow> sb_payload s = Some (payload_of C (bc_oid cand))" for s
    proof (cases "sb_scan s")
      case (ScMatches cs)
      with s at [of s] show ?thesis
        by (simp add: emit remember_scan_finds [where C = C and q = q and opts = opts and place = place] k)
    qed (use keep [OF s(1) at(1) [of s] at(2) [of s]] in \<open>simp_all add: answers_sraise\<close>)
    show ?thesis
      unfolding visit_fresh_def Let_def
      by (rule answers_sbind [OF answers_sattempt [OF scan_blob_answers [OF E db, of q opts "bc_oid cand"]]], rule answers_case_sum, rule stop, rule refl, rule step) auto
  qed
  let ?run = "\<lambda>cache. run\<lparr>sn_visited := insert (bc_oid cand) (sn_visited run),
      sn_blobs_deduped := bump (\<not> bc_oid cand \<notin> sn_visited run) (sn_blobs_deduped run), sn_cache := cache\<rparr>"
  obtain r cache where get: "lru_get (bc_oid cand) (sn_cache run) = Some (r, cache)" "resident (scan_ok C q opts) cache"
      "\<forall>s. r = Some s \<longrightarrow> scan_ok C q opts (bc_oid cand) s"
    using resident_get [of "scan_ok C q opts" "sn_cache run" "bc_oid cand"] run by (auto simp: run_at_def)
  then have at: "run_at C q opts place (?run cache)" using run by (simp add: run_at_def)
  have acc: "sn_acc (?run cache) = sn_acc run" by simp
  show ?thesis
  proof (cases r)
    case None
    with fresh [OF at] get(1) show ?thesis unfolding acc todo'_def [symmetric] by (simp add: visit_blob_def Let_def)
  next
    case (Some scan)
    with cached [OF _ at] get(1,3) show ?thesis unfolding acc todo'_def [symmetric] by (simp add: visit_blob_def Let_def)
  qed
qed

lemma search_loop_finds:
  assumes E: "find_law E" and db: "object_store db I (\<lambda>x v. v = C x)" and "scans_ok C q opts run"
    and "left_to_visit (entries_at G (db_hash_kind db) C) (bw_stack (sn_walk run)) xs"
  shows "answers I (finds (match_shows C snap q opts) (sn_acc run) (remaining_hits C q opts (if sn_found_resume run then None else resume) (candidates G opts xs)))
    (search_loop fuel E G db snap (MLiteral q) opts resume run)"
  using assms(3-)
proof (induction fuel arbitrary: run xs)
  case 0
  then show ?case by (simp add: finds_def answers_sreturn)
next
  case (Suc fuel)
  let ?shows = "match_shows C snap q opts"
  let ?loop = "search_loop fuel E G db snap (MLiteral q) opts resume"
  let ?todo = "remaining_hits C q opts (if sn_found_resume run then None else resume) (candidates G opts xs)"
  have walk: "answers I (\<lambda>r. \<forall>v. r = Inr v \<longrightarrow> visits (entries_at G (db_hash_kind db) C) G opts xs v)
      (sattempt (blob_next (Suc fuel) G db opts (map_option fst resume) (sn_walk run)))"
    by (rule answers_sattempt [OF blob_next_answers [OF db Suc.prems(2)]])
  have cand: "answers I (finds ?shows (sn_acc run) ?todo)
      (sbind (slift (resume_step resume (sn_found_resume run) (bc_path cand))) (\<lambda>place.
        case place of None \<Rightarrow> ?loop (run\<lparr>sn_walk := walk\<rparr>)
        | Some (start, found) \<Rightarrow> visit_blob E db snap (MLiteral q) opts cand start ?loop (run\<lparr>sn_walk := walk, sn_found_resume := found\<rparr>)))"
    if cs: "candidates G opts xs = (bc_path cand, bc_oid cand) # candidates G opts ys"
      "left_to_visit (entries_at G (db_hash_kind db) C) (bw_stack walk) ys" for cand walk ys
  proof -
    let ?file = "(bc_path cand, bc_oid cand)"
    have loop: "answers I (finds ?shows (sn_acc run1) (remaining_hits C q opts (if found then None else resume) (candidates G opts ys))) (?loop run1)"
      if "run_at C q opts (walk, found) run1" for run1 found
      using Suc.IH [of run1 ys] that cs(2) by (simp add: run_at_def)
    have visit: "answers I (finds ?shows (sn_acc run) (drop (hits_skipped start) (file_hits C q opts ?file) @ hits_of C q opts (candidates G opts ys)))
        (visit_blob E db snap (MLiteral q) opts cand start ?loop (run\<lparr>sn_walk := walk, sn_found_resume := found\<rparr>))" if "found \<or> resume = None" for start found
    proof -
      have "(if found then None else resume) = None" using that by auto
      then have "answers I (finds ?shows (sn_acc run1) (hits_of C q opts (candidates G opts ys))) (?loop run1)" if "run_at C q opts (walk, found) run1" for run1
        using loop [OF that] by (simp add: remaining_hits_def)
      moreover have "run_at C q opts (walk, found) (run\<lparr>sn_walk := walk, sn_found_resume := found\<rparr>)"
        using Suc.prems(1) by (simp add: run_at_def)
      ultimately show ?thesis using visit_blob_finds [OF E db] by fastforce
    qed
    have skip: "answers I (finds ?shows (sn_acc run) (remaining_hits C q opts resume (candidates G opts ys))) (?loop (run\<lparr>sn_walk := walk\<rparr>))"
      if "\<not> sn_found_resume run"
      using loop [of False "run\<lparr>sn_walk := walk\<rparr>"] that Suc.prems(1) by (simp add: run_at_def)
    show ?thesis
    proof (cases "sn_found_resume run \<or> resume = None")
      case True
      then have "resume_step resume (sn_found_resume run) (bc_path cand) = Inr (Some (None, sn_found_resume run))"
        by (auto simp: resume_step_def split: option.split)
      with visit [OF True, of None] True cs show ?thesis
        by (auto simp: sbind_slift remaining_hits_def)
    next
      case False
      then obtain p n where res: "resume = Some (p, n)" by (cases resume) auto
      show ?thesis
        using False visit [of True "Some (sat_add n 1)"] skip cs res
        by (cases "bc_path cand" p rule: linorder_cases)
           (auto simp: resume_step_def sbind_slift remaining_hits_def intro: answers_sbind [OF answers_slift [where P = "\<lambda>_. False"]])
    qed
  qed
  show ?case
    unfolding search_loop.simps Let_def
  proof (rule answers_sbind [OF answers_on_budget [where P = "\<lambda>_. True"]], simp, rule answers_sbind [OF walk])
    fix r :: "error + (blob_candidate option \<times> blob_walk) option" assume r: "\<forall>v. r = Inr v \<longrightarrow> visits (entries_at G (db_hash_kind db) C) G opts xs v"
    have ended: "finds ?shows (sn_acc run) ?todo (Some (None, run\<lparr>sn_walk := walk\<rparr>))" for walk
      by (auto simp: finds_def intro: exI [of _ "[]"])
    show "answers I (finds ?shows (sn_acc run) ?todo) (case r of Inl e \<Rightarrow> stop_search run e | Inr None \<Rightarrow> sreturn None
      | Inr (Some (None, walk)) \<Rightarrow> sreturn (Some (None, run\<lparr>sn_walk := walk\<rparr>))
      | Inr (Some (Some cand, walk)) \<Rightarrow>
        sbind (slift (resume_step resume (sn_found_resume (run\<lparr>sn_walk := walk\<rparr>)) (bc_path cand))) (\<lambda>place.
        case place of None \<Rightarrow> ?loop (run\<lparr>sn_walk := walk\<rparr>)
        | Some (start, found) \<Rightarrow> visit_blob E db snap (MLiteral q) opts cand start ?loop (run\<lparr>sn_walk := walk, sn_found_resume := found\<rparr>)))"
    proof (cases r)
      case (Inl e)
      then show ?thesis by (simp add: stop_search_finds)
    next
      case (Inr v)
      with r have v: "visits (entries_at G (db_hash_kind db) C) G opts xs v" by blast
      show ?thesis
      proof (cases v)
        case None
        with Inr show ?thesis by (simp add: finds_def answers_sreturn)
      next
        case (Some c)
        obtain nx walk where c: "c = (nx, walk)" by force
        show ?thesis
        proof (cases nx)
          case None
          with Inr Some c show ?thesis by (simp add: ended answers_sreturn)
        next
          case cc: (Some cand)
          with v Some c obtain ys where "candidates G opts xs = (bc_path cand, bc_oid cand) # candidates G opts ys"
            "left_to_visit (entries_at G (db_hash_kind db) C) (bw_stack walk) ys" by (auto simp: visits_def)
          from cand [OF this] Inr Some c cc show ?thesis by simp
        qed
      qed
    qed
  qed
qed

section \<open>Pages\<close>

text \<open>The entries in the scope of a query, and what a page of hits is.\<close>

definition in_scope :: "(oid \<Rightarrow> owned_entry list option) \<Rightarrow> snapshot \<Rightarrow> search_options \<Rightarrow> (bytes \<times> owned_entry) list \<Rightarrow> bool" where
  "in_scope ents snap opts xs \<longleftrightarrow>
    (\<exists>t es. scope_tree ents snap (sq_path opts) t \<and> ents t = Some es \<and> walk_list ents into_trees (sq_path opts) 0 es xs)"

definition page_finds :: "(oid \<Rightarrow> object_read) \<Rightarrow> snapshot \<Rightarrow> bytes \<Rightarrow> search_options \<Rightarrow> search_page \<Rightarrow> hit list \<Rightarrow> bool" where
  "page_finds C snap q opts page hs \<longleftrightarrow> list_all2 (match_shows C snap q opts) (sp_matches page) hs
     \<and> (\<forall>c. sp_next_cursor page = Some c \<longrightarrow> hs \<noteq> [] \<and> (case hit_position (last hs) of (path, n) \<Rightarrow>
          c = encode (search_cursor snap (search_fingerprint q opts) path n)))"

lemma answers_both: "answers I P m \<Longrightarrow> answers (\<lambda>_. True) Q m \<Longrightarrow> answers I (\<lambda>v. P v \<and> Q v) m"
proof (rule answersI)
  fix w b r w' b' assume m: "answers I P m" "I w" "m (w, b) = (r, (w', b'))"
  then show "I w'" by (rule answers_run(1))
next
  fix w b v w' b' assume m: "answers I P m" "answers (\<lambda>_. True) Q m" "I w" "m (w, b) = (Inr v, (w', b'))"
  show "P v \<and> Q v" using answers_run(2) [OF m(1,3,4) refl] answers_run(2) [OF m(2) TrueI m(4) refl] by (rule conjI)
qed

lemma page_of_finds:
  assumes "search_page_of db snap (search_fingerprint q opts) opts (by, run) s = Inr page" and "within opts (sn_acc run)"
    and "sq_max_result_bytes opts < - 1" and "collects (match_shows C snap q opts) \<lparr>co_matches = [], co_positions = [], co_bytes = 0\<rparr> hs (sn_acc run)"
  shows "\<exists>k. page_finds C snap q opts page (take k hs) \<and> (sp_next_cursor page = None \<longrightarrow> by = None \<and> k = length hs)"
proof -
  from assms(4) have acc: "list_all2 (match_shows C snap q opts) (co_matches (sn_acc run)) hs" "co_positions (sn_acc run) = map hit_position hs"
    by (auto simp: collects_def)
  show ?thesis
  proof (cases "by")
    case None
    with assms(1) acc(1) show ?thesis
      by (intro exI [of _ "length hs"]) (auto simp: search_page_of_def page_finds_def split: if_splits)
  next
    case (Some l)
    with assms(1) obtain c acc by' where fit: "fit_cursor snap (search_fingerprint q opts) (sq_max_result_bytes opts) (sn_acc run) by = Inr (c, acc, by')"
      and page: "sp_matches page = co_matches acc" "sp_next_cursor page = Some c"
      by (auto simp: search_page_of_def rbind_Inr_iff split: if_splits prod.splits)
    have "by \<noteq> None" using Some by simp
    from fit_cursor_within [OF fit assms(2) this assms(3)] obtain k where k: "co_matches acc = take k (co_matches (sn_acc run))"
      "co_positions acc = take k (co_positions (sn_acc run))" "co_matches acc \<noteq> []"
      "c = encode (search_cursor snap (search_fingerprint q opts) (fst (last (co_positions acc))) (snd (last (co_positions acc))))"
      unfolding fitted_def prod.case by blast
    have shown: "list_all2 (match_shows C snap q opts) (sp_matches page) (take k hs)"
      unfolding page(1) k(1) by (rule list_all2_takeI [OF acc(1)])
    with page(1) k(3) have ne: "take k hs \<noteq> []" by (metis list_all2_Nil2)
    then have "last (co_positions acc) = hit_position (last (take k hs))"
      unfolding k(2) acc(2) take_map by (simp add: last_map)
    with shown page(2) k(4) ne show ?thesis by (intro exI [of _ k]) (auto simp: page_finds_def split: prod.split)
  qed
qed

lemma resolved_scope: "resolves ents snap path r \<Longrightarrow> listed_tree r = Inr t \<Longrightarrow> scope_tree ents snap path t"
  by (auto simp: resolves_def scope_tree_def listed_tree_def resolved_of_def split: if_splits)

lemma fresh_scans: "scans_ok C q opts (search_run_new walk SCAN_CACHE_MATCH_CAP found)"
  by (simp add: search_run_new_def SCAN_CACHE_MATCH_CAP_def resident_new)

lemma blob_walk_new_answers:
  assumes db: "object_store db I (\<lambda>x v. v = C x)" and "entries_at G (db_hash_kind db) C t = Some es"
    and "walk_list (entries_at G (db_hash_kind db) C) into_trees (sq_path opts) 0 es xs"
  shows "answers I (\<lambda>walk. left_to_visit (entries_at G (db_hash_kind db) C) (bw_stack walk) xs) (blob_walk_new G db opts resume t)"
proof -
  have "left_to_visit (entries_at G (db_hash_kind db) C) [\<lparr>wf_entries = es, wf_prefix = sq_path opts\<rparr>] xs"
    using stack_push [OF _ stack_nil, of _ _ "as_frame \<lparr>lf_entries = es, lf_prefix = sq_path opts\<rparr>" xs] assms(3) by (simp add: as_frame_def)
  then show ?thesis
    unfolding blob_walk_new_def
    by (intro answers_sbind [OF walk_read_entries_answers [OF db]]) (use assms(2) in \<open>auto intro!: answers_sreturn\<close>)
qed

lemma search_finds:
  assumes E: "find_law E" and db: "object_store db I (\<lambda>x v. v = C x)" and opts: "sq_mode opts = SmLiteral" "sq_case_sensitive opts" "sq_max_result_bytes opts < - 1"
    and scope: "in_scope (entries_at G (db_hash_kind db) C) snap opts xs" and resume: "search_resume snap opts (search_fingerprint q opts) = Inr resume"
  shows "answers I (\<lambda>p. \<forall>page. p = Some page \<longrightarrow> (\<exists>hs. subseq hs (remaining_hits C q opts resume (candidates G opts xs)) \<and> page_finds C snap q opts page hs))
    (search fuel E G db snap q opts)"
proof -
  let ?ents = "entries_at G (db_hash_kind db) C" and ?shows = "match_shows C snap q opts"
  let ?post = "\<lambda>p. \<forall>page. p = Some page \<longrightarrow> (\<exists>hs. subseq hs (remaining_hits C q opts resume (candidates G opts xs)) \<and> page_finds C snap q opts page hs)"
  let ?none = "\<lparr>co_matches = [], co_positions = [], co_bytes = 0\<rparr>"
  obtain t es where t: "scope_tree ?ents snap (sq_path opts) t" "?ents t = Some es" "walk_list ?ents into_trees (sq_path opts) 0 es xs"
    using scope by (auto simp: in_scope_def)
  have valid: "answers I (\<lambda>_. 0 < sq_limit opts) (slift (validate_options opts))"
    by (rule answers_slift) (auto simp: validate_options_def rbind_Inr_iff split: if_splits)
  have matcher: "answers I (\<lambda>M. M = MLiteral q) (slift (matcher_compile E q opts))"
    by (rule answers_slift) (simp add: matcher_compile_def opts)
  have place: "answers I (\<lambda>r. r = resume) (slift (search_resume snap opts (search_fingerprint q opts)))"
    by (rule answers_slift) (simp add: resume)
  have path: "answers I (resolves ?ents snap (sq_path opts))
      (if r \<noteq> None then resolve_path_for_graph_walk G db snap (sq_path opts) else resolve_path G db snap (sq_path opts))" for r :: "(bytes \<times> u32) option"
    by (simp add: resolve_path_answers [OF db])
  have tree: "answers I (\<lambda>u. u = t) (slift (listed_tree r))" if "resolves ?ents snap (sq_path opts) r" for r
    by (rule answers_slift) (use resolved_scope [OF that] scope_tree_unique t(1) in blast)
  have loop: "answers I (\<lambda>e. finds ?shows ?none (remaining_hits C q opts resume (candidates G opts xs)) e \<and> end_within opts e)
      (search_loop fuel E G db snap (MLiteral q) opts resume (search_run_new walk SCAN_CACHE_MATCH_CAP (resume = None)))"
    if "0 < sq_limit opts" "left_to_visit ?ents (bw_stack walk) xs" for walk
    using answers_both [OF search_loop_finds [OF E db fresh_scans [of C q opts walk "resume = None"], where G = G and xs = xs and snap = snap and resume = resume and fuel = fuel]
        search_loop_within [OF that(1) opts(3) search_run_new_within [of opts walk SCAN_CACHE_MATCH_CAP "resume = None"],
          where fuel = fuel and E = E and G = G and db = db and snap = snap and M = "MLiteral q" and resume = resume]] that(2)
    by (auto simp: search_run_new_def)
  have final: "answers I ?post (case e of None \<Rightarrow> sreturn None
      | Some e \<Rightarrow> (\<lambda>s. (rbind (search_page_of db snap (search_fingerprint q opts) opts e s) (\<lambda>p. Inr (Some p)), s)))"
    if "finds ?shows ?none (remaining_hits C q opts resume (candidates G opts xs)) e \<and> end_within opts e" for e
  proof (cases e)
    case None
    then show ?thesis by (simp add: answers_sreturn)
  next
    case (Some r)
    obtain "by" run where r: "r = (by, run)" by force
    from that Some r obtain hs where hs: "collects ?shows ?none hs (sn_acc run)" "subseq hs (remaining_hits C q opts resume (candidates G opts xs))"
      and "within opts (sn_acc run)" by (auto simp: finds_def)
    have "\<exists>hs. subseq hs (remaining_hits C q opts resume (candidates G opts xs)) \<and> page_finds C snap q opts page hs"
      if "search_page_of db snap (search_fingerprint q opts) opts (by, run) s = Inr page" for page s
      using page_of_finds [OF that \<open>within opts (sn_acc run)\<close> opts(3) hs(1)] subseq_order.trans [OF prefix_imp_subseq [OF take_is_prefix] hs(2)] by blast
    then show ?thesis using Some r by (auto simp: answers_def rbind_Inr_iff)
  qed
  have run: "answers I ?post (sbind (blob_walk_new G db opts (map_option fst resume) t) (\<lambda>walk.
      sbind (search_loop fuel E G db snap (MLiteral q) opts resume (search_run_new walk SCAN_CACHE_MATCH_CAP (resume = None))) (\<lambda>e.
      case e of None \<Rightarrow> sreturn None
      | Some e \<Rightarrow> (\<lambda>s. (rbind (search_page_of db snap (search_fingerprint q opts) opts e s) (\<lambda>p. Inr (Some p)), s)))))"
    if "0 < sq_limit opts"
    by (rule answers_sbind [OF blob_walk_new_answers [OF db t(2,3)]], rule answers_sbind [OF loop [OF that]], assumption, rule final)
  show ?thesis
    unfolding search_def search_with_cache_capacity_def Let_def
    by (rule answers_sbind [OF answers_slift [where P = "\<lambda>_. True"]], simp, rule answers_sbind [OF valid],
        rule answers_sbind [OF answers_on_budget [where P = "\<lambda>_. True"]], simp, rule answers_sbind [OF matcher], hypsubst,
        rule answers_sbind [OF place], hypsubst, rule answers_sbind [OF path], rule answers_sbind [OF tree], assumption, hypsubst, rule run)
qed

end
