(* ===== verification/SearchAnswers.thy ===== *)
theory SearchAnswers
  imports SearchShows TreeExamples
begin

text \<open>
  Searches that answer: over a complete in-memory store without ceilings the query returns, and what its page collects is computed from the hits alone;
  with room for the hits on one page it shows every hit. The properties of pages, and a small store with files.
\<close>

section \<open>Emission\<close>

definition shown_match :: "(oid \<Rightarrow> object_read) \<Rightarrow> snapshot \<Rightarrow> bytes \<Rightarrow> search_options \<Rightarrow> hit \<Rightarrow> search_match" where
  "shown_match C snap q opts h =
    (case h of (path, x, n, i, c) \<Rightarrow>
      let ls = text_lines (payload_of C x); line = ls ! i; context = unat (sq_context_lines opts) in
      \<lparr>sx_commit_oid = commit_oid snap, sx_blob_oid = x, sx_path = path, sx_line = of_nat (i + 1), sx_column = of_nat c,
       sx_preview = take PREVIEW_BYTES line, sx_preview_truncated = (PREVIEW_BYTES < length line),
       sx_submatches = fst (shown_submatches q line), sx_submatches_truncated = snd (shown_submatches q line),
       sx_context_before = map (take PREVIEW_BYTES) (drop (i - context) (take i ls)),
       sx_context_after = map (take PREVIEW_BYTES) (take context (drop (i + 1) ls))\<rparr>)"

lemma unat_is: "unat (w :: 'a::len word) = n \<Longrightarrow> w = of_nat n"
  by auto

lemma match_shows_unique: "match_shows C snap q opts m h \<Longrightarrow> m = shown_match C snap q opts h"
  unfolding match_shows_def shown_match_def Let_def
  by (cases h) (auto dest!: unat_is intro!: search_match.equality simp: fst_def snd_def split: prod.splits)

lemma yields_answers:
  fixes m :: "('w, 'a) op"
  assumes "yields m v" and "answers (\<lambda>_. True) P m"
  shows "P v"
proof -
  fix w :: 'w
  from yields_run [OF assms(1) unlimited_start] obtain b' where "m (w, budget_unlimited idle) = (Inr v, (w, b'))" by blast
  from answers_run(2) [OF assms(2) TrueI this refl] show "P v" .
qed

lemma match_of_yields:
  assumes "find_law E" and "records_line (payload_of C (bc_oid cand)) (unat (sq_context_lines opts)) cm (i, c)"
  shows "yields (match_of E snap cand (payload_of C (bc_oid cand)) (MLiteral q) cm :: ('w, search_match) op)
    (shown_match C snap q opts (bc_path cand, bc_oid cand, n, i, c))"
proof -
  have shown: "answers (\<lambda>_. True) (\<lambda>m. match_shows C snap q opts m (bc_path cand, bc_oid cand, n, i, c))
      (match_of E snap cand (payload_of C (bc_oid cand)) (MLiteral q) cm :: ('w, search_match) op)
    \<and> (\<exists>m. yields (match_of E snap cand (payload_of C (bc_oid cand)) (MLiteral q) cm :: ('w, search_match) op) m)"
    by (rule match_of_shows [OF assms])
  then obtain m where m: "yields (match_of E snap cand (payload_of C (bc_oid cand)) (MLiteral q) cm :: ('w, search_match) op) m" by blast
  with yields_answers [OF m conjunct1 [OF shown]] match_shows_unique show ?thesis by metis
qed

definition collect_hit :: "(hit \<Rightarrow> search_match) \<Rightarrow> hit \<Rightarrow> collected \<Rightarrow> collected" where
  "collect_hit shown h acc = collect_match (shown h) (fst (hit_position h)) (snd (hit_position h)) acc"

text \<open>
  What a page collects of the hits to come: it stops at the requested number of matches and at the first match that exceeds the requested bytes, which it still
  takes when it is the first of the page.
\<close>

fun fill :: "(hit \<Rightarrow> search_match) \<Rightarrow> search_options \<Rightarrow> collected \<Rightarrow> hit list \<Rightarrow> string option \<times> collected" where
  "fill shown opts acc [] = (None, acc)"
| "fill shown opts acc (h # hs) =
    (if length (co_matches acc) = sq_limit opts then (Some ''limit'', acc)
     else if sq_max_result_bytes opts < sat_add (co_bytes acc) (match_payload_bytes (shown h)) then
       (Some ''max_result_bytes'', if co_matches acc = [] then collect_hit shown h acc else acc)
     else fill shown opts (collect_hit shown h acc) hs)"

lemma fill_append:
  "fill shown opts acc (hs @ ks) = (case fill shown opts acc hs of (None, acc') \<Rightarrow> fill shown opts acc' ks | (Some l, acc') \<Rightarrow> (Some l, acc'))"
  by (induction hs arbitrary: acc) simp_all

definition outcome_of :: "string option \<times> collected \<Rightarrow> emit_outcome \<times> collected" where
  "outcome_of r = (case fst r of None \<Rightarrow> EmitComplete | Some l \<Rightarrow> EmitStopped l, snd r)"

definition hit_at :: "blob_candidate \<Rightarrow> nat \<times> nat \<times> nat \<Rightarrow> hit" where
  "hit_at cand r = (bc_path cand, bc_oid cand, r)"

lemma hit_at_simp: "hit_at cand (n, i, c) = (bc_path cand, bc_oid cand, n, i, c)"
  by (simp add: hit_at_def)

lemma emit_loop_yields:
  assumes E: "find_law E" and "list_all2 (records_line (payload_of C (bc_oid cand)) (unat (sq_context_lines opts))) cs ics"
    and "n + length ics \<le> 2 ^ 32"
  shows "yields (emit_loop E snap cand (payload_of C (bc_oid cand)) (MLiteral q) opts n cs acc :: ('w, emit_outcome \<times> collected) op)
    (outcome_of (fill (shown_match C snap q opts) opts acc (map (hit_at cand) (enumerate n ics))))"
  using assms(2-)
proof (induction cs ics arbitrary: n acc rule: list_all2_induct)
  case Nil
  then show ?case by (simp add: outcome_of_def yields_sreturn)
next
  case (Cons cm cs ic ics)
  obtain i c where ic: "ic = (i, c)" by force
  let ?h = "(bc_path cand, bc_oid cand, n, i, c)" and ?shown = "shown_match C snap q opts"
  have hit: "collect_hit ?shown ?h acc = collect_match (?shown ?h) (bc_path cand) (of_nat n) acc"
    by (simp add: collect_hit_def hit_position_def)
  have match: "yields (match_of E snap cand (payload_of C (bc_oid cand)) (MLiteral q) cm :: ('w, search_match) op) (?shown ?h)"
    using match_of_yields [OF E] Cons.hyps(1) by (simp add: ic)
  have small: "n < 2 ^ 32" using Cons.prems by simp
  have rest: "yields (emit_loop E snap cand (payload_of C (bc_oid cand)) (MLiteral q) opts (n + 1) cs (collect_match (?shown ?h) (bc_path cand) (of_nat n) acc)
      :: ('w, emit_outcome \<times> collected) op)
    (outcome_of (fill ?shown opts (collect_hit ?shown ?h acc) (map (hit_at cand) (enumerate (Suc n) ics))))"
    using Cons.IH Cons.prems by (simp add: hit)
  show ?case
    unfolding emit_loop.simps ic enumerate_simps list.map hit_at_simp fill.simps
    by (rule yields_sbind [OF yields_check])
      (auto simp: outcome_of_def hit small [simplified] intro!: yields_sreturn yields_sbind [OF match] yields_sbind [OF yields_slift [OF refl]]
        rest [unfolded outcome_of_def hit, simplified])
qed

section \<open>A blob\<close>

text \<open>Files a store can show: blobs of its hash kind below four gibibytes.\<close>

definition readable :: "static_odb \<Rightarrow> oid \<Rightarrow> bool" where
  "readable so x \<longleftrightarrow> (\<exists>payload. so_objects so x = Some (Blob, payload) \<and> length payload < 2 ^ 32)"

lemma length_line_hits: "length (line_hits q ls) \<le> length ls"
proof -
  have "length (concat (map (\<lambda>i. case first_at q (ls ! i) of None \<Rightarrow> [] | Some c \<Rightarrow> [(i, c)]) is)) \<le> length is" for "is"
    by (induction "is") (auto split: option.split)
  from this [of "[0..<length ls]"] show ?thesis by (simp add: line_hits_def)
qed

lemma readable_hits: "readable so x \<Longrightarrow> length (line_hits q (text_lines (payload_of (so_objects so) x))) \<le> 2 ^ 32"
  using length_line_hits [of q "text_lines (payload_of (so_objects so) x)"] length_text_lines [of "payload_of (so_objects so) x"]
  by (auto simp: readable_def payload_of_def)

lemma yields_read_blob:
  assumes "uniform so" and "readable so x"
  shows "yields (read_blob_payload (static_db so) x) (Some (payload_of (so_objects so) x))"
proof -
  from assms obtain p where p: "so_objects so x = Some (Blob, p)" "oid_kind x = so_hash so" by (auto simp: readable_def uniform_def)
  show ?thesis
    unfolding read_blob_payload_def
    by (rule yields_sbind [OF yields_sattempt [OF yields_static_find_graph [OF p(2)]]]) (simp add: p(1) payload_of_def yields_sreturn)
qed

lemma yields_ceiling: "yields (on_budget (\<lambda>b. (Inr (max_object_bytes (b_limits b)), b))) (- 1)"
  by (auto simp: yields_def on_budget_def unlimited_def budget_unlimited_def budget_new_def)

lemma yields_scan_blob:
  assumes E: "find_law E" and so: "uniform so" "readable so x"
  shows "\<exists>s. yields (scan_blob E (static_db so :: 'w odb) x (MLiteral q) opts) s \<and> scan_ok (so_objects so) q opts x (sb_scan s)
    \<and> sb_scan s \<noteq> ScOversizeSkipped \<and> sb_payload s = Some (payload_of (so_objects so) x)"
proof -
  let ?p = "payload_of (so_objects so) x"
  from so obtain p where p: "so_objects so x = Some (Blob, p)" "oid_kind x = so_hash so" "length p < 2 ^ 32" "?p = p"
    by (auto simp: readable_def uniform_def payload_of_def)
  obtain ms where ms: "yields (scan_payload E p (MLiteral q) (sq_context_lines opts) :: ('w, cached_line_match list) op) ms"
    using scan_payload_yields [OF E p(3)] by blast
  define s where "s = (if hidden (so_objects so) opts x then \<lparr>sb_scan = ScBinarySkipped, sb_payload = Some p\<rparr>
    else \<lparr>sb_scan = ScMatches ms, sb_payload = Some p\<rparr>)"
  have "yields (scan_blob E (static_db so :: 'w odb) x (MLiteral q) opts) s"
    unfolding scan_blob_def
    by (rule yields_sbind [OF yields_check], rule yields_sbind [OF yields_static_header [OF p(1,2)]])
       (auto simp: p(4) s_def intro!: yields_sbind [OF yields_ceiling] yields_sbind [OF yields_read_blob [OF so]] yields_sbind [OF yields_check]
         yields_sreturn yields_sbind [OF ms])
  moreover from yields_answers [OF this scan_blob_answers [OF E static_exact]] have "scan_ok (so_objects so) q opts x (sb_scan s)" by blast
  ultimately show ?thesis by (intro exI [of _ s]) (auto simp: s_def p(4))
qed

lemma yields_emit:
  assumes E: "find_law E" and scan: "scan_ok (so_objects so) q opts (bc_oid cand) (ScMatches cs)" and "readable so (bc_oid cand)"
  shows "yields (emit_matches E snap cand cs (payload_of (so_objects so) (bc_oid cand)) (MLiteral q) None opts acc :: ('w, emit_outcome \<times> collected) op)
    (outcome_of (fill (shown_match (so_objects so) snap q opts) opts acc (file_hits (so_objects so) q opts (bc_path cand, bc_oid cand))))"
proof -
  let ?hs = "line_hits q (text_lines (payload_of (so_objects so) (bc_oid cand)))"
  from scan have cs: "list_all2 (records_line (payload_of (so_objects so) (bc_oid cand)) (unat (sq_context_lines opts))) cs ?hs"
    and shown: "\<not> hidden (so_objects so) opts (bc_oid cand)" by (simp_all add: scan_ok_def)
  have hits: "file_hits (so_objects so) q opts (bc_path cand, bc_oid cand) = map (hit_at cand) (enumerate 0 ?hs)"
    using shown by (auto simp: file_hits_def hit_at_def)
  show ?thesis
    unfolding emit_matches_def start_index_def option.case sbind_slift
    using emit_loop_yields [OF E cs, of 0] readable_hits [OF assms(3)] by (simp add: hits)
qed

section \<open>The walk returns\<close>

lemma yields_walk_read:
  assumes "uniform so" and "static_entries G so x = Some es" and "\<not> bw_replaying walk"
  shows "yields (walk_read_entries G (static_db so) opts resume walk x pre) (es, walk)"
  unfolding walk_read_entries_def
  using assms by (auto intro!: yields_sbind [OF yields_entries_for_walk [OF assms(1,2)]] yields_sreturn)

definition steps_left :: "walk_frame list \<Rightarrow> (bytes \<times> owned_entry) list \<Rightarrow> nat" where
  "steps_left fs xs = 2 * length xs + length fs"

text \<open>The next blob, with the entries after it, or the end of the walk.\<close>

definition next_blob :: "gix \<Rightarrow> static_odb \<Rightarrow> search_options \<Rightarrow> (bytes \<times> owned_entry) list \<Rightarrow> nat \<Rightarrow> blob_candidate option \<times> blob_walk \<Rightarrow> bool" where
  "next_blob G so opts xs n r \<longleftrightarrow> \<not> bw_replaying (snd r) \<and>
    (case fst r of
       None \<Rightarrow> candidates G opts xs = []
     | Some c \<Rightarrow> \<exists>ys. candidates G opts xs = (bc_path c, bc_oid c) # candidates G opts ys
         \<and> left_to_visit (static_entries G so) (bw_stack (snd r)) ys \<and> steps_left (bw_stack (snd r)) ys < n)"

lemma next_blob_skip: "\<not> selected G opts (p, e) \<Longrightarrow> next_blob G so opts xs n r \<Longrightarrow> n \<le> m \<Longrightarrow> next_blob G so opts ((p, e) # xs) m r"
  by (fastforce simp: next_blob_def split: option.splits)

lemma yields_blob_next:
  assumes "uniform so" and "left_to_visit (static_entries G so) (bw_stack walk) xs" and "\<not> bw_replaying walk"
    and "steps_left (bw_stack walk) xs < fuel"
  shows "\<exists>r. yields (blob_next fuel G (static_db so :: 'w odb) opts None walk) (Some r) \<and> next_blob G so opts xs (steps_left (bw_stack walk) xs) r"
  using assms(2-)
proof (induction fuel arbitrary: walk xs)
  case 0
  then show ?case by simp
next
  case (Suc fuel)
  let ?ents = "static_entries G so" and ?n = "steps_left (bw_stack walk) xs"
  have step: "\<exists>r. yields (blob_next (Suc fuel) G (static_db so :: 'w odb) opts None walk) (Some r) \<and> next_blob G so opts xs ?n r"
    if ih: "left_to_visit ?ents (bw_stack walk') ys \<Longrightarrow> \<not> bw_replaying walk' \<Longrightarrow> steps_left (bw_stack walk') ys < fuel \<Longrightarrow>
        \<exists>r. yields (blob_next fuel G (static_db so :: 'w odb) opts None walk') (Some r) \<and> next_blob G so opts ys (steps_left (bw_stack walk') ys) r"
      and "left_to_visit ?ents (bw_stack walk') ys" "\<not> bw_replaying walk'" "steps_left (bw_stack walk') ys < ?n"
      and same: "\<And>r. next_blob G so opts ys (steps_left (bw_stack walk') ys) r \<Longrightarrow> next_blob G so opts xs ?n r"
      and run: "\<And>r. yields (blob_next fuel G (static_db so :: 'w odb) opts None walk') (Some r)
        \<Longrightarrow> yields (blob_next (Suc fuel) G (static_db so :: 'w odb) opts None walk) (Some r)" for walk' ys
    using ih [OF that(2,3)] that(4) Suc.prems(3) same run by fastforce
  show ?case
  proof (cases "bw_stack walk")
    case Nil
    with Suc.prems have "next_blob G so opts xs ?n (None, walk)" by (auto simp: next_blob_def elim: stack_list_NilE)
    moreover have "yields (blob_next (Suc fuel) G (static_db so :: 'w odb) opts None walk) (Some (None, walk))"
      using Nil by (auto intro!: yields_sbind [OF yields_check] yields_sreturn)
    ultimately show ?thesis by blast
  next
    case (Cons f fs)
    show ?thesis
    proof (cases "wf_entries f")
      case Nil
      show ?thesis
        by (rule step [OF Suc.IH, where walk' = "walk\<lparr>bw_stack := fs\<rparr>" and ys = xs])
           (use Suc.prems Cons Nil visit_pop [of ?ents f fs xs] in
             \<open>auto simp: steps_left_def next_blob_def intro!: yields_sbind [OF yields_check] split: option.splits\<close>)
    next
      case entries: (Cons e rest)
      let ?path = "join_path (wf_prefix f) (oe_name e)"
      let ?walk = "walk\<lparr>bw_stack := f\<lparr>wf_entries := rest\<rparr> # fs\<rparr>"
      from Suc.prems(1) [unfolded Cons] entries show ?thesis
      proof (cases rule: visit_step)
        case (leaf ys)
        show ?thesis
        proof (cases "selected G opts (?path, e)")
          case True
          let ?r = "(Some \<lparr>bc_path = ?path, bc_oid = oe_oid e\<rparr>, ?walk\<lparr>bw_replaying := False\<rparr>)"
          have "next_blob G so opts xs ?n ?r" using leaf True Cons by (auto simp: next_blob_def steps_left_def)
          moreover have "yields (blob_next (Suc fuel) G (static_db so :: 'w odb) opts None walk) (Some ?r)"
            using True leaf(1) Cons entries Suc.prems(2) by (auto simp: selected_def Let_def intro!: yields_sbind [OF yields_check] yields_sreturn)
          ultimately show ?thesis by blast
        next
          case False
          show ?thesis
            by (rule step [OF Suc.IH, where walk' = ?walk and ys = ys])
               (use Suc.prems Cons entries leaf False next_blob_skip [OF False, where xs = ys] in
                 \<open>auto simp: steps_left_def selected_def Let_def intro!: yields_sbind [OF yields_check]\<close>)
        qed
      next
        case (down sub ys)
        have unsel: "\<not> selected G opts (?path, e)" using down(1) by (simp add: selected_def)
        show ?thesis
          by (rule step [OF Suc.IH, where walk' = "?walk\<lparr>bw_stack := \<lparr>wf_entries = sub, wf_prefix = ?path\<rparr> # bw_stack ?walk\<rparr>" and ys = ys])
             (use Suc.prems Cons entries down next_blob_skip [OF unsel, where xs = ys] in
               \<open>auto simp: steps_left_def Let_def intro!: yields_sbind [OF yields_check] yields_sbind [OF yields_walk_read [OF assms(1) down(2)]]\<close>)
      qed
    qed
  qed
qed

section \<open>The query returns\<close>

definition scan_exact :: "static_odb \<Rightarrow> bytes \<Rightarrow> search_options \<Rightarrow> oid \<Rightarrow> cached_scan \<Rightarrow> bool" where
  "scan_exact so q opts x s \<longleftrightarrow> scan_ok (so_objects so) q opts x s \<and> s \<noteq> ScOversizeSkipped"

text \<open>A run between two blobs: the walk, a cache of exact scans, and what has been collected.\<close>

definition stands :: "static_odb \<Rightarrow> bytes \<Rightarrow> search_options \<Rightarrow> blob_walk \<Rightarrow> collected \<Rightarrow> search_run \<Rightarrow> bool" where
  "stands so q opts walk acc run \<longleftrightarrow> resident (scan_exact so q opts) (sn_cache run) \<and> sn_walk run = walk \<and> sn_found_resume run \<and> sn_acc run = acc"

lemma stands_updates [simp]:
  "stands so q opts walk acc (run\<lparr>sn_oversize_skipped := n\<rparr>) = stands so q opts walk acc run"
  "stands so q opts walk acc (count_scan scan first run) = stands so q opts walk acc run"
  "stands so q opts walk acc (note_payload_read x run) = stands so q opts walk acc run"
  by (simp_all add: stands_def count_scan_def note_payload_read_def split: cached_scan.split)

abbreviation returns :: "('w, 'a) op \<Rightarrow> ('a \<Rightarrow> bool) \<Rightarrow> bool" where
  "returns m Q \<equiv> \<exists>v. yields m v \<and> Q v"

lemma returns_after: "yields m u \<Longrightarrow> returns (k u) Q \<Longrightarrow> returns (sbind m k) Q"
  by (elim exE conjE) (intro exI conjI yields_sbind)

lemma remember_returns:
  assumes "scan_exact so q opts x scan" and "stands so q opts walk acc run" and k: "\<And>run. stands so q opts walk acc run \<Longrightarrow> returns (k run) Q"
  shows "returns (remember_scan x scan k run) Q"
proof -
  have "resident (scan_exact so q opts) (sn_cache run)" using assms(2) by (simp add: stands_def)
  from resident_insert [OF this assms(1), of "cache_weight scan"] obtain n cache
    where cache: "insert_counting_evictions x scan (cache_weight scan) (sn_cache run) = Some (n, cache)" "resident (scan_exact so q opts) cache" by blast
  have "stands so q opts walk acc (run\<lparr>sn_cache := cache\<rparr>)" using assms(2) cache(2) by (simp add: stands_def)
  from k [OF this] show ?thesis by (simp add: remember_scan_def cache(1))
qed

lemma visit_returns:
  fixes k :: "search_run \<Rightarrow> ('w, search_end option) op" and so :: static_odb and snap :: snapshot and q :: bytes and opts :: search_options
    and acc :: collected and cand :: blob_candidate
  defines "filled \<equiv> fill (shown_match (so_objects so) snap q opts) opts acc (file_hits (so_objects so) q opts (bc_path cand, bc_oid cand))"
  assumes E: "find_law E" and so: "uniform so" "readable so (bc_oid cand)" and run: "stands so q opts walk acc run"
    and k: "\<And>run acc'. filled = (None, acc') \<Longrightarrow> stands so q opts walk acc' run \<Longrightarrow> returns (k run) Q"
    and stop: "\<And>run l acc'. filled = (Some l, acc') \<Longrightarrow> stands so q opts walk acc' run \<Longrightarrow> Q (Some (Some l, run))"
  shows "returns (visit_blob E (static_db so) snap (MLiteral q) opts cand None k run) Q"
proof -
  let ?x = "bc_oid cand" let ?p = "payload_of (so_objects so) ?x"
  have emit: "returns (emit_into E snap cand cs ?p (MLiteral q) None opts run1 j) Q"
    if scan: "scan_ok (so_objects so) q opts ?x (ScMatches cs)" and run1: "stands so q opts walk acc run1"
      and j: "\<And>run acc'. filled = (None, acc') \<Longrightarrow> stands so q opts walk acc' run \<Longrightarrow> returns (j run) Q"
    for cs run1 and j :: "search_run \<Rightarrow> ('w, search_end option) op"
  proof -
    obtain r acc' where r: "filled = (r, acc')" by fastforce
    have acc: "sn_acc run1 = acc" using run1 by (simp add: stands_def)
    have at: "stands so q opts walk acc' (run1\<lparr>sn_acc := acc'\<rparr>)" using run1 by (simp add: stands_def)
    note emitted = yields_emit [OF E scan so(2), of snap acc, folded filled_def, unfolded r]
    show ?thesis
      unfolding emit_into_def acc
      by (rule returns_after [OF emitted]) (use j [OF _ at] stop [OF _ at] r in \<open>auto simp: outcome_of_def intro: yields_sreturn split: option.split\<close>)
  qed
  have same: "filled = (None, acc)" if "scan_exact so q opts ?x scan" "\<And>cs. scan \<noteq> ScMatches cs" for scan
    using that by (cases scan) (auto simp: filled_def scan_exact_def scan_ok_def file_hits_def)
  have cached: "returns (visit_cached E (static_db so) snap (MLiteral q) opts cand None first scan k run1) Q"
    if scan: "scan_exact so q opts ?x scan" and run1: "stands so q opts walk acc run1" for first scan run1
  proof -
    have "returns (case scan of
           ScMatches cs \<Rightarrow>
             sbind (read_blob_payload (static_db so) ?x) (\<lambda>read.
             case read of
               None \<Rightarrow> k (run1\<lparr>sn_oversize_skipped := bump first (sn_oversize_skipped run1)\<rparr>)
             | Some payload \<Rightarrow> emit_into E snap cand cs payload (MLiteral q) None opts (note_payload_read ?x run1) k)
         | _ \<Rightarrow> if None \<noteq> (None :: u32 option) then sraise no_emitted else k run1) Q"
    proof (cases scan)
      case (ScMatches cs)
      with scan run1 show ?thesis
        by (auto simp: scan_exact_def intro!: returns_after [OF yields_read_blob [OF so]] emit k)
    qed (use scan same [OF scan] run1 k [of acc run1] in \<open>simp_all add: scan_exact_def\<close>)
    then show ?thesis
      unfolding visit_cached_def by (intro returns_after [OF yields_sattempt [OF yields_charge_object_visit]]) simp
  qed
  have fresh: "returns (visit_fresh E (static_db so) snap (MLiteral q) opts cand None first k run1) Q"
    if run1: "stands so q opts walk acc run1" for first run1
  proof -
    obtain s where s: "yields (scan_blob E (static_db so :: 'w odb) ?x (MLiteral q) opts) s" "scan_exact so q opts ?x (sb_scan s)" "sb_payload s = Some ?p"
      using yields_scan_blob [OF E so, where ?'w = 'w] by (auto simp: scan_exact_def)
    have run2: "stands so q opts walk acc (count_scan (sb_scan s) first (note_payload_read ?x run1))" using run1 by simp
    have keep: "returns (remember_scan ?x (sb_scan s) k (count_scan (sb_scan s) first (note_payload_read ?x run1))) Q" if "filled = (None, acc)"
      by (rule remember_returns [OF s(2) run2]) (use k that in simp)
    have "returns (case sb_scan s of
           ScMatches cs \<Rightarrow> emit_into E snap cand cs ?p (MLiteral q) None opts (count_scan (sb_scan s) first (note_payload_read ?x run1)) (remember_scan ?x (sb_scan s) k)
         | _ \<Rightarrow> remember_scan ?x (sb_scan s) k (count_scan (sb_scan s) first (note_payload_read ?x run1))) Q"
    proof (cases "sb_scan s")
      case (ScMatches cs)
      with s(2) run2 show ?thesis
        by (auto simp: scan_exact_def intro!: emit intro: remember_returns [where so = so and q = q and opts = opts and walk = walk] k)
    qed (use keep same [OF s(2)] in simp_all)
    then show ?thesis
      unfolding visit_fresh_def Let_def
      by (intro returns_after [OF yields_sattempt [OF s(1)]]) (cases "sb_scan s"; simp add: s(3))
  qed
  let ?run = "\<lambda>cache. run\<lparr>sn_visited := insert ?x (sn_visited run), sn_blobs_deduped := bump (\<not> ?x \<notin> sn_visited run) (sn_blobs_deduped run), sn_cache := cache\<rparr>"
  obtain r cache where get: "lru_get ?x (sn_cache run) = Some (r, cache)" "resident (scan_exact so q opts) cache"
      "\<forall>s. r = Some s \<longrightarrow> scan_exact so q opts ?x s"
    using resident_get [of "scan_exact so q opts" "sn_cache run" ?x] run by (auto simp: stands_def)
  then have at: "stands so q opts walk acc (?run cache)" using run by (simp add: stands_def)
  show ?thesis
  proof (cases r)
    case None
    with fresh [OF at] get(1) show ?thesis by (simp add: visit_blob_def Let_def)
  next
    case (Some scan)
    with cached [OF _ at] get(1,3) show ?thesis by (simp add: visit_blob_def Let_def)
  qed
qed

lemma search_loop_returns:
  assumes E: "find_law E" and so: "uniform so" and walk: "left_to_visit (static_entries G so) (bw_stack (sn_walk run)) xs" "\<not> bw_replaying (sn_walk run)"
    and files: "\<forall>(p, x) \<in> set (candidates G opts xs). readable so x" and run: "stands so q opts (sn_walk run) acc run"
    and fuel: "steps_left (bw_stack (sn_walk run)) xs < fuel"
  shows "returns (search_loop fuel E G (static_db so :: 'w odb) snap (MLiteral q) opts None run)
    (\<lambda>e. \<exists>l run'. e = Some (l, run') \<and> sn_found_resume run'
       \<and> fill (shown_match (so_objects so) snap q opts) opts acc (hits_of (so_objects so) q opts (candidates G opts xs)) = (l, sn_acc run'))"
  using assms(3-)
proof (induction fuel arbitrary: run xs acc)
  case 0
  then show ?case by simp
next
  case (Suc fuel)
  let ?hits = "hits_of (so_objects so) q opts" and ?shown = "shown_match (so_objects so) snap q opts"
  let ?Q = "\<lambda>e. \<exists>l run'. e = Some (l, run') \<and> sn_found_resume run' \<and> fill ?shown opts acc (?hits (candidates G opts xs)) = (l, sn_acc run')"
  let ?loop = "search_loop fuel E G (static_db so :: 'w odb) snap (MLiteral q) opts None"
  from yields_blob_next [OF so Suc.prems(1,2,5), of opts] obtain nx walk where
    next_yields: "yields (blob_next (Suc fuel) G (static_db so :: 'w odb) opts None (sn_walk run)) (Some (nx, walk))"
    and nx: "next_blob G so opts xs (steps_left (bw_stack (sn_walk run)) xs) (nx, walk)" by auto
  have "returns (case nx of
        None \<Rightarrow> sreturn (Some (None, run\<lparr>sn_walk := walk\<rparr>))
      | Some cand \<Rightarrow> visit_blob E (static_db so :: 'w odb) snap (MLiteral q) opts cand None ?loop (run\<lparr>sn_walk := walk, sn_found_resume := True\<rparr>)) ?Q"
  proof (cases nx)
    case None
    with nx have "candidates G opts xs = []" by (simp add: next_blob_def)
    with None Suc.prems(4) show ?thesis
      by (auto simp: stands_def intro!: exI [of _ "Some (None, run\<lparr>sn_walk := walk\<rparr>)"] yields_sreturn)
  next
    case (Some cand)
    let ?file = "(bc_path cand, bc_oid cand)"
    from nx Some obtain ys where cs: "candidates G opts xs = ?file # candidates G opts ys"
      and ys: "left_to_visit (static_entries G so) (bw_stack walk) ys" "steps_left (bw_stack walk) ys < steps_left (bw_stack (sn_walk run)) xs" "\<not> bw_replaying walk"
      by (auto simp: next_blob_def)
    have readable: "readable so (bc_oid cand)" "\<forall>(p, x) \<in> set (candidates G opts ys). readable so x"
      using Suc.prems(3) by (simp_all add: cs)
    have filled: "fill ?shown opts acc (?hits (candidates G opts xs)) =
        (case fill ?shown opts acc (file_hits (so_objects so) q opts ?file) of
           (None, acc') \<Rightarrow> fill ?shown opts acc' (?hits (candidates G opts ys)) | (Some l, acc') \<Rightarrow> (Some l, acc'))"
      by (simp add: cs fill_append)
    have at: "stands so q opts walk acc (run\<lparr>sn_walk := walk, sn_found_resume := True\<rparr>)" using Suc.prems(4) by (simp add: stands_def)
    have again: "returns (?loop run1) ?Q"
      if one: "fill ?shown opts acc (file_hits (so_objects so) q opts ?file) = (None, acc')" and run1: "stands so q opts walk acc' run1" for run1 acc'
    proof -
      have w: "sn_walk run1 = walk" using run1 by (simp add: stands_def)
      show ?thesis
        using Suc.IH [of run1 ys acc'] ys readable(2) run1 Suc.prems(5) by (simp add: w filled one)
    qed
    have stop: "?Q (Some (Some l, run1))"
      if "fill ?shown opts acc (file_hits (so_objects so) q opts ?file) = (Some l, acc')" "stands so q opts walk acc' run1" for run1 l acc'
      using that by (simp add: filled stands_def)
    show ?thesis
      using visit_returns [where k = ?loop and Q = ?Q, OF E so readable(1) at again stop] Some by simp
  qed
  then show ?case
    unfolding search_loop.simps Let_def option.map(1)
    by (intro returns_after [OF yields_check] returns_after [OF yields_sattempt [OF next_yields]])
      (use Suc.prems(4) in \<open>cases nx; simp add: resume_step_def sbind_slift stands_def\<close>)
qed

text \<open>A case-sensitive literal search for its first page, over a complete store.\<close>

definition search_posed :: "static_odb \<Rightarrow> gix \<Rightarrow> snapshot \<Rightarrow> search_options \<Rightarrow> (bytes \<times> owned_entry) list \<Rightarrow> bool" where
  "search_posed so G snap opts xs \<longleftrightarrow> uniform so \<and> ensure_query_compatible (static_db so :: unit odb) snap = Inr () \<and> validate_options opts = Inr ()
     \<and> sq_mode opts = SmLiteral \<and> sq_case_sensitive opts \<and> sq_cursor opts = None \<and> in_scope (static_entries G so) snap opts xs
     \<and> (\<forall>(p, x) \<in> set (candidates G opts xs). readable so x)"

lemma ensure_static: "ensure_query_compatible (static_db so :: 'w odb) snap = ensure_query_compatible (static_db so :: unit odb) snap"
  by (simp add: ensure_query_compatible_def)

lemma yields_blob_walk:
  assumes "uniform so" and "static_entries G so t = Some es"
  shows "yields (blob_walk_new G (static_db so) opts None t) \<lparr>bw_stack = [\<lparr>wf_entries = es, wf_prefix = sq_path opts\<rparr>], bw_replaying = False, bw_prefetched = {}\<rparr>"
  unfolding blob_walk_new_def by (rule yields_sbind [OF yields_walk_read [OF assms]]) (simp_all add: yields_sreturn)

text \<open>Without ceilings an operation goes on as another, with some other budget.\<close>

definition goes_on :: "('w, 'a) op \<Rightarrow> ('w, 'a) op \<Rightarrow> bool" where
  "goes_on m k \<longleftrightarrow> (\<forall>w b. unlimited b \<longrightarrow> (\<exists>b'. unlimited b' \<and> m (w, b) = k (w, b')))"

lemma goes_on_refl: "goes_on m m"
  by (auto simp: goes_on_def)

lemma goes_on_after: "yields m v \<Longrightarrow> goes_on (k v) j \<Longrightarrow> goes_on (sbind m k) j"
  unfolding goes_on_def yields_def sbind_def by (metis (mono_tags, lifting) prod.case sum.case(2))

definition no_hits :: collected where
  "no_hits = \<lparr>co_matches = [], co_positions = [], co_bytes = 0\<rparr>"

text \<open>The query returns, and its page is made of what the hits fill.\<close>

lemma search_fills:
  fixes w :: 'w
  assumes "find_law E" and posed: "search_posed so G snap opts xs" and "2 * length xs + 2 \<le> fuel" and b: "unlimited b"
    and filled: "fill (shown_match (so_objects so) snap q opts) opts no_hits (hits_of (so_objects so) q opts (candidates G opts xs)) = (l, acc)"
  shows "\<exists>run s. search fuel E G (static_db so) snap q opts (w, b)
      = (rbind (search_page_of (static_db so) snap (search_fingerprint q opts) opts (l, run) s) (\<lambda>p. Inr (Some p)), s)
    \<and> sn_found_resume run \<and> sn_acc run = acc"
proof -
  have so: "uniform so" and opts: "validate_options opts = Inr ()" "sq_mode opts = SmLiteral" "sq_case_sensitive opts" "sq_cursor opts = None"
    and files: "\<forall>(p, x) \<in> set (candidates G opts xs). readable so x"
    using posed by (simp_all add: search_posed_def)
  have compat: "ensure_query_compatible (static_db so :: 'w odb) snap = Inr ()"
    using posed ensure_static [of so snap, where ?'w = 'w] by (simp add: search_posed_def)
  from posed obtain t es where t: "scope_tree (static_entries G so) snap (sq_path opts) t" "static_entries G so t = Some es"
    "walk_list (static_entries G so) into_trees (sq_path opts) 0 es xs" by (auto simp: search_posed_def in_scope_def)
  have path: "validate_path (sq_path opts) = Inr ()" using opts(1) by (simp add: validate_options_def rbind_Inr_iff)
  obtain r where r: "yields (resolve_path G (static_db so :: 'w odb) snap (sq_path opts)) r" "listed_tree r = Inr t"
    using yields_resolve_path [OF so path t(1)] by blast
  let ?walk = "\<lparr>bw_stack = [\<lparr>wf_entries = es, wf_prefix = sq_path opts\<rparr>], bw_replaying = False, bw_prefetched = {}\<rparr>"
  let ?run = "search_run_new ?walk SCAN_CACHE_MATCH_CAP True"
  let ?loop = "search_loop fuel E G (static_db so :: 'w odb) snap (MLiteral q) opts None ?run"
  have start: "sn_walk ?run = ?walk" by (simp add: search_run_new_def)
  have stack: "left_to_visit (static_entries G so) (bw_stack ?walk) xs"
    using stack_push [OF _ stack_nil, of _ _ "as_frame \<lparr>lf_entries = es, lf_prefix = sq_path opts\<rparr>" xs] t(3) by (simp add: as_frame_def)
  have stands: "stands so q opts ?walk no_hits ?run"
    by (simp add: stands_def search_run_new_def SCAN_CACHE_MATCH_CAP_def resident_new no_hits_def)
  from search_loop_returns [OF assms(1) so, of G ?run xs opts q no_hits fuel snap] stack files stands assms(3) filled
  obtain run where loop: "yields ?loop (Some (l, run))" "sn_found_resume run" "sn_acc run = acc"
    by (auto simp: start steps_left_def)
  let ?final = "\<lambda>s. (rbind (search_page_of (static_db so) snap (search_fingerprint q opts) opts (l, run) s) (\<lambda>p. Inr (Some p)), s)"
  have "goes_on (search fuel E G (static_db so :: 'w odb) snap q opts) ?final"
    unfolding search_def search_with_cache_capacity_def Let_def
    by (rule goes_on_after [OF yields_slift [OF compat]], rule goes_on_after [OF yields_slift [OF opts(1)]], rule goes_on_after [OF yields_check],
        rule goes_on_after [OF yields_slift [where v = "MLiteral q"]], simp add: matcher_compile_def opts,
        rule goes_on_after [OF yields_slift [where v = None]], simp add: search_resume_def opts,
        simp, rule goes_on_after [OF r(1)], rule goes_on_after [OF yields_slift [OF r(2)]],
        rule goes_on_after [OF yields_blob_walk [OF so t(2)]], rule goes_on_after [OF loop(1)], simp add: goes_on_refl)
  then obtain b' where "search fuel E G (static_db so) snap q opts (w, b) = ?final (w, b')" using b unfolding goes_on_def by blast
  with loop(2,3) show ?thesis by blast
qed

section \<open>Room for the hits\<close>

text \<open>A page with room for more hits: the number and the bytes of its matches and of the matches to come stay within the ceilings.\<close>

definition room :: "(hit \<Rightarrow> search_match) \<Rightarrow> search_options \<Rightarrow> collected \<Rightarrow> hit list \<Rightarrow> bool" where
  "room shown opts acc hs \<longleftrightarrow> length (co_matches acc) + length hs \<le> sq_limit opts
     \<and> unat (co_bytes acc) + total_bytes (map shown hs) \<le> unat (sq_max_result_bytes opts)"

lemma sat_add_fits: "unat a + unat b \<le> unat c \<Longrightarrow> unat (sat_add a b) = unat a + unat (b :: u64)" for c :: u64
  using unsigned_less [of c, where ?'a = nat] by (auto simp: sat_add_def unat_word_ariths word_less_nat_alt)

lemma room_step:
  assumes "room shown opts acc (h # hs)"
  shows "room shown opts (collect_hit shown h acc) hs" and "length (co_matches acc) \<noteq> sq_limit opts"
    and "\<not> sq_max_result_bytes opts < sat_add (co_bytes acc) (match_payload_bytes (shown h))"
proof -
  from assms have "unat (co_bytes acc) + unat (match_payload_bytes (shown h)) \<le> unat (sq_max_result_bytes opts)"
    by (simp add: room_def)
  from sat_add_fits [OF this] assms show "room shown opts (collect_hit shown h acc) hs" "length (co_matches acc) \<noteq> sq_limit opts"
    "\<not> sq_max_result_bytes opts < sat_add (co_bytes acc) (match_payload_bytes (shown h))"
    by (auto simp: room_def collect_hit_def collect_match_def not_less word_le_nat_alt)
qed

lemma fill_room:
  assumes "room shown opts acc hs"
  shows "\<exists>acc'. fill shown opts acc hs = (None, acc') \<and> co_matches acc' = co_matches acc @ map shown hs"
  using assms
proof (induction hs arbitrary: acc)
  case (Cons h hs)
  from Cons.IH [OF room_step(1) [OF Cons.prems]] room_step(2,3) [OF Cons.prems] show ?case
    by (auto simp: collect_hit_def collect_match_def)
qed simp

definition search_ready :: "static_odb \<Rightarrow> gix \<Rightarrow> snapshot \<Rightarrow> bytes \<Rightarrow> search_options \<Rightarrow> (bytes \<times> owned_entry) list \<Rightarrow> bool" where
  "search_ready so G snap q opts xs \<longleftrightarrow> search_posed so G snap opts xs
     \<and> length (hits_of (so_objects so) q opts (candidates G opts xs)) \<le> sq_limit opts
     \<and> total_bytes (map (shown_match (so_objects so) snap q opts) (hits_of (so_objects so) q opts (candidates G opts xs))) \<le> unat (sq_max_result_bytes opts)"

lemma search_returns:
  assumes "find_law E" and ready: "search_ready so G snap q opts xs" and "2 * length xs + 2 \<le> fuel" and "unlimited b"
  shows "\<exists>page s. search fuel E G (static_db so) snap q opts (w, b) = (Inr (Some page), s)
    \<and> sp_matches page = map (shown_match (so_objects so) snap q opts) (hits_of (so_objects so) q opts (candidates G opts xs))
    \<and> sp_next_cursor page = None \<and> \<not> sp_truncated page"
proof -
  let ?hits = "hits_of (so_objects so) q opts (candidates G opts xs)" and ?shown = "shown_match (so_objects so) snap q opts"
  have "room ?shown opts no_hits ?hits" using ready by (simp add: search_ready_def room_def no_hits_def)
  from fill_room [OF this] obtain acc where acc: "fill ?shown opts no_hits ?hits = (None, acc)" "co_matches acc = map ?shown ?hits"
    by (auto simp: no_hits_def)
  from search_fills [OF assms(1) _ assms(3,4) acc(1), of w] ready obtain run s where
    run: "search fuel E G (static_db so) snap q opts (w, b)
      = (rbind (search_page_of (static_db so) snap (search_fingerprint q opts) opts (None, run) s) (\<lambda>p. Inr (Some p)), s)"
      "sn_found_resume run" "sn_acc run = acc" by (auto simp: search_ready_def)
  then show ?thesis using acc(2) by (simp add: search_page_of_def)
qed

section \<open>A page with one match\<close>

text \<open>The bytes with which a page of one match can go on: below the match's own, or enough for the match and its cursor.\<close>

lemma fit_one:
  assumes "co_matches acc = [m]" and "co_positions acc = [(path, n)]" and "co_bytes acc = match_payload_bytes m"
    and "c = encode (search_cursor snap fp path n)" and "length c \<le> MAX_CURSOR_BYTES" and "ceiling < - 1"
  shows "fit_cursor snap fp ceiling acc (Some l) =
    (if unat (match_payload_bytes m) \<le> unat ceiling \<and> unat ceiling < unat (match_payload_bytes m) + length c
     then Inl (no_progress ''max_result_bytes'') else Inr (c, acc, Some l))"
proof -
  have len: "unat (byte_len c) = length c"
    using assms(5) by (simp add: byte_len_def MAX_CURSOR_BYTES_def unsigned_of_nat take_bit_nat_eq_self)
  have "sat_add (match_payload_bytes m) (byte_len c) \<le> ceiling \<longleftrightarrow> unat (match_payload_bytes m) + length c \<le> unat ceiling"
    using sat_add_exact [OF _ assms(6), of "match_payload_bytes m" "byte_len c"]
      sat_add_fits [of "match_payload_bytes m" "byte_len c" ceiling] len by (auto simp: word_le_nat_alt)
  then show ?thesis using assms(1-5) by (simp add: fit_cursor.simps [of snap fp ceiling acc] word_less_nat_alt not_le not_less)
qed

lemma fill_one:
  assumes "sq_limit opts = 1"
  shows "\<exists>l. fill shown opts no_hits (h # h' # hs) = (Some l, collect_hit shown h no_hits)"
  using assms by (simp add: no_hits_def collect_hit_def collect_match_def)

lemma sat_add_zero [simp]: "sat_add 0 (b :: u64) = b"
  using unsigned_less [of b, where ?'a = nat] by (simp add: sat_add_def)

section \<open>Properties\<close>

text \<open>
  C20. A search shows true hits in order. For case-sensitive literal searches with a byte limit below the largest 64-bit number (regular expressions and searches that
  ignore case are outside this property), over any store with fixed contents and any budget: the matches of a page are, in the order
  of the walk and without repetition, hits of the selected blobs after the position of the cursor. Each match names the commit, the blob and its path, and has the number of the
  line, the column of the first occurrence, the preview, the occurrences within it and the lines around; the cursor of a page is the position of its last match.
\<close>

theorem search_shows_hits:
  assumes "find_law E" and "object_store db I (\<lambda>x v. v = C x)" and "I w" and "sq_mode opts = SmLiteral" and "sq_case_sensitive opts"
    and "sq_max_result_bytes opts < - 1" and "in_scope (entries_at G (db_hash_kind db) C) snap opts xs"
    and "search_resume snap opts (search_fingerprint q opts) = Inr resume"
    and "search fuel E G db snap q opts (w, b) = (Inr (Some page), s)"
  shows "\<exists>hs. subseq hs (remaining_hits C q opts resume (candidates G opts xs)) \<and> page_finds C snap q opts page hs"
  using answersD [OF search_finds [OF assms(1,2,4-8)] _ assms(9)] assms(3) by simp

text \<open>
  C21. A search answers. For a case-sensitive literal search without an input cursor, over a complete in-memory store whose selected blobs are below four gibibytes, without
  ceilings and with room for the hits on one page (the limit on matches and the requested bytes): the query returns a page that shows every hit of every selected blob in the order of the walk, without a cursor. Twice the entries of the tree and two more steps are enough.
\<close>

theorem search_answers:
  assumes "find_law E" and "search_ready so G snap q opts xs" and "2 * length xs + 2 \<le> fuel" and "unlimited b"
  shows "\<exists>page s. search fuel E G (static_db so) snap q opts (w, b) = (Inr (Some page), s)
    \<and> sp_matches page = map (shown_match (so_objects so) snap q opts) (hits_of (so_objects so) q opts (candidates G opts xs))
    \<and> sp_next_cursor page = None \<and> \<not> sp_truncated page"
  using assms by (rule search_returns)

text \<open>
  C23. A page of a search keeps its ceilings: whatever the store, the matcher and the budget do, and for any byte limit below the largest 64-bit number, a page has at most the requested number of matches, has a cursor of at most
  4096 bytes exactly when it is truncated, is never truncated without a match, and its matches and cursor together fit the requested bytes unless it has a single match.
\<close>

theorem search_pages_bounded:
  assumes "sq_max_result_bytes opts < - 1" and "search fuel E G db snap q opts (w, b) = (Inr (Some page), s)"
  shows "page_bounded opts page"
  using answersD [OF search_answers_bounded [OF assms(1)] _ assms(2) [unfolded search_def]] by simp

text \<open>
  C40. A search can stall. Over a complete in-memory store without ceilings, take a case-sensitive literal search for one match, without an input cursor and with a byte limit below the largest 64-bit number, that has more than one hit, and
  let its cursor after the first hit be at most 4096 bytes long. When the requested bytes hold the match but not the match and its cursor together, the search fails for want
  of progress; with fewer bytes than the match itself, and with enough bytes for both, it returns the match with that cursor.
\<close>

theorem search_page_stalls:
  assumes "find_law E" and "search_posed so G snap opts xs" and "2 * length xs + 2 \<le> fuel" and "unlimited b"
    and "sq_limit opts = 1" and "sq_max_result_bytes opts < - 1"
    and hits: "hits_of (so_objects so) q opts (candidates G opts xs) = h # h' # hs"
    and m: "m = shown_match (so_objects so) snap q opts h"
    and c: "c = encode (search_cursor snap (search_fingerprint q opts) (fst (hit_position h)) (snd (hit_position h)))"
    and "length c \<le> MAX_CURSOR_BYTES"
  shows "\<exists>r s. search fuel E G (static_db so) snap q opts (w, b) = (r, s)
    \<and> (if unat (match_payload_bytes m) \<le> unat (sq_max_result_bytes opts)
          \<and> unat (sq_max_result_bytes opts) < unat (match_payload_bytes m) + length c
        then r = Inl (no_progress ''max_result_bytes'')
        else \<exists>page. r = Inr (Some page) \<and> sp_matches page = [m] \<and> sp_next_cursor page = Some c)"
proof -
  let ?shown = "shown_match (so_objects so) snap q opts" let ?acc = "collect_hit ?shown h no_hits"
  obtain l where "fill ?shown opts no_hits (h # h' # hs) = (Some l, ?acc)" using fill_one [OF assms(5)] by blast
  from search_fills [OF assms(1-4), of q "Some l" ?acc w] this hits obtain run s where
    run: "search fuel E G (static_db so) snap q opts (w, b)
      = (rbind (search_page_of (static_db so) snap (search_fingerprint q opts) opts (Some l, run) s) (\<lambda>p. Inr (Some p)), s)"
      "sn_found_resume run" "sn_acc run = ?acc" by auto
  have acc: "co_matches ?acc = [m]" "co_positions ?acc = [(fst (hit_position h), snd (hit_position h))]" "co_bytes ?acc = match_payload_bytes m"
    by (simp_all add: collect_hit_def collect_match_def no_hits_def m)
  from run acc(1) show ?thesis by (auto simp: search_page_of_def fit_one [OF acc c assms(10,6)])
qed

section \<open>A store with files\<close>

text \<open>Tree 1 has the same blob under two names; its second line has the query.\<close>

definition found_store :: static_odb where
  "found_store = \<lparr>so_hash = Sha1, so_objects =
     [toy_oid 1 \<mapsto> (Tree, concat (map print_entry [(''100644'', ''x'', 4), (''100644'', ''y'', 4)])),
      toy_oid 4 \<mapsto> (Blob, ascii ''ab'' @ 10 # ascii ''cb'')]\<rparr>"

definition found_query :: bytes where
  "found_query = ascii ''c''"

definition found_list :: "(bytes \<times> owned_entry) list" where
  "found_list = [(ascii ''x'', blob_entry ''x'' 4), (ascii ''y'', blob_entry ''y'' 4)]"

lemma found_entries: "static_entries tree_gix found_store (toy_oid 1) = Some [blob_entry ''x'' 4, blob_entry ''y'' 4]"
proof -
  have hash: "so_hash found_store = Sha1" by (simp add: found_store_def)
  show ?thesis
    unfolding hash by (rule entries_printed [where es = "[(''100644'', ''x'', 4), (''100644'', ''y'', 4)]"])
      (simp_all add: printable_def owned_printed dot_segment_def found_store_def)
qed

text \<open>The default options with other ceilings.\<close>

definition paged_options :: "nat \<Rightarrow> u64 \<Rightarrow> search_options" where
  "paged_options limit bytes = default_search_options\<lparr>sq_limit := limit, sq_max_result_bytes := bytes\<rparr>"

lemma paged_simps [simp]:
  "sq_limit (paged_options l n) = l" "sq_max_result_bytes (paged_options l n) = n" "sq_mode (paged_options l n) = SmLiteral"
  "sq_case_sensitive (paged_options l n)" "sq_cursor (paged_options l n) = None" "sq_path (paged_options l n) = []"
  "sq_pathspecs (paged_options l n) = []" "sq_binary (paged_options l n) = SbSkip" "sq_context_lines (paged_options l n) = 0"
  by (simp_all add: paged_options_def default_search_options_def)

lemma default_paged: "default_search_options = paged_options 1000 8388608"
  by (simp add: paged_options_def default_search_options_def)

lemma found_scope: "in_scope (static_entries tree_gix found_store) (order_snap 1) (paged_options l n) found_list"
proof -
  let ?ents = "static_entries tree_gix found_store"
  have "walk_list ?ents into_trees [] 0 [blob_entry ''y'' 4] [(ascii ''y'', blob_entry ''y'' 4)]"
    using walk_leaf [of into_trees "[]" "blob_entry ''y'' 4" 0 ?ents "[]" "[]"] walk_nil by (simp add: order_simps)
  then have "walk_list ?ents into_trees [] 0 [blob_entry ''x'' 4, blob_entry ''y'' 4] found_list"
    using walk_leaf [of into_trees "[]" "blob_entry ''x'' 4" 0 ?ents "[blob_entry ''y'' 4]"] by (simp add: found_list_def order_simps)
  then show ?thesis using found_entries order_scope [of ?ents 1] by (auto simp: in_scope_def)
qed

lemma found_payload: "payload_of (so_objects found_store) (toy_oid 4) = ascii ''ab'' @ 10 # ascii ''cb''"
  by (simp add: payload_of_def found_store_def)

lemma found_hits: "hits_of (so_objects found_store) found_query (paged_options l n) (candidates tree_gix (paged_options l n) found_list)
    = [(ascii ''x'', toy_oid 4, 0, 1, 0), (ascii ''y'', toy_oid 4, 0, 1, 0)]"
proof -
  have lines: "line_hits found_query (text_lines [97, 98, 10, 99, 98]) = [(1, 0)]"
    by (simp add: line_hits_def text_lines_def upt_rec found_query_def)
  have "file_hits (so_objects found_store) found_query (paged_options l n) (p, toy_oid 4) = [(p, toy_oid 4, 0, 1, 0)]" for p
    by (simp add: file_hits_def found_payload lines is_binary_payload_def BINARY_PROBE_BYTES_def)
  then show ?thesis
    by (simp add: found_list_def selected_def order_select blob_entry_def)
qed

lemma found_bytes: "match_payload_bytes (shown_match (so_objects found_store) (order_snap 1) found_query (paged_options l n) (ascii [ch], toy_oid 4, 0, 1, 0)) = 91"
proof -
  have ls: "text_lines (ascii ''ab'' @ 10 # ascii ''cb'') ! 1 = ascii ''cb''" by (simp add: text_lines_def)
  have subs: "shown_submatches found_query (ascii ''cb'') = ([\<lparr>sm_start = 0, sm_length = 1\<rparr>], False)"
    by (simp add: found_query_def shown_submatches_def occurrences.simps retain_def PREVIEW_BYTES_def MAX_SUBMATCHES_def clamp_word_def)
  have "shown_match (so_objects found_store) (order_snap 1) found_query (paged_options l n) (ascii [ch], toy_oid 4, 0, 1, 0)
      = \<lparr>sx_commit_oid = toy_oid 0, sx_blob_oid = toy_oid 4, sx_path = ascii [ch], sx_line = 2, sx_column = 0, sx_preview = ascii ''cb'',
         sx_preview_truncated = False, sx_submatches = [\<lparr>sm_start = 0, sm_length = 1\<rparr>], sx_submatches_truncated = False,
         sx_context_before = [], sx_context_after = []\<rparr>"
    unfolding shown_match_def prod.case found_payload Let_def ls subs
    by (simp add: PREVIEW_BYTES_def order_snap_def)
  then show ?thesis by (simp add: match_payload_bytes_def clamp_word_def as_bytes_def toy_oid_def)
qed

lemma found_posed: "0 < l \<Longrightarrow> 0 < n \<Longrightarrow> search_posed found_store tree_gix (order_snap 1) (paged_options l n) found_list"
proof -
  assume "0 < l" "0 < n"
  then have "validate_options (paged_options l n) = Inr ()"
    by (simp add: validate_options_def validate_path_def MAX_CONTEXT_LINES_def)
  moreover have "uniform found_store" "ensure_query_compatible (static_db found_store :: unit odb) (order_snap 1) = Inr ()"
    by (simp_all add: uniform_def found_store_def ensure_query_compatible_def order_snap_def)
  moreover have "\<forall>(p, x) \<in> set (candidates tree_gix (paged_options l n) found_list). readable found_store x"
    by (auto simp: found_list_def blob_entry_def readable_def found_store_def)
  ultimately show ?thesis using found_scope unfolding search_posed_def by simp
qed

lemma found_ready: "search_ready found_store tree_gix (order_snap 1) found_query default_search_options found_list"
  using found_bytes [where ch = "CHR ''x''"] found_bytes [where ch = "CHR ''y''"] found_posed
  unfolding search_ready_def default_paged found_hits by simp

theorem search_answers_witness:
  "\<exists>page s. search 6 direct_engine tree_gix (static_db found_store) (order_snap 1) found_query default_search_options ((), budget_unlimited idle) = (Inr (Some page), s)
    \<and> map sx_path (sp_matches page) = [ascii ''x'', ascii ''y''] \<and> map sx_line (sp_matches page) = [2, 2] \<and> sp_next_cursor page = None"
proof -
  have "2 * length found_list + 2 \<le> 6" by (simp add: found_list_def)
  from search_answers [OF direct_engine_finds found_ready this unlimited_start, of "()"] show ?thesis
    unfolding default_paged found_hits by (auto simp: shown_match_def Let_def)
qed

lemma found_page:
  obtains page s where "search 6 direct_engine tree_gix (static_db found_store) (order_snap 1) found_query default_search_options ((), budget_unlimited idle)
      = (Inr (Some page), s)"
    "sp_matches page = map (shown_match (so_objects found_store) (order_snap 1) found_query default_search_options)
      [(ascii ''x'', toy_oid 4, 0, 1, 0), (ascii ''y'', toy_oid 4, 0, 1, 0)]"
proof -
  have "2 * length found_list + 2 \<le> 6" by (simp add: found_list_def)
  from search_returns [OF direct_engine_finds found_ready this unlimited_start, of "()"] show thesis
    unfolding default_paged found_hits using that [unfolded default_paged] by blast
qed

lemma default_bytes: "sq_max_result_bytes default_search_options < - 1"
  by (simp add: default_search_options_def)

theorem search_pages_bounded_witness:
  "\<exists>page s. search 6 direct_engine tree_gix (static_db found_store) (order_snap 1) found_query default_search_options ((), budget_unlimited idle) = (Inr (Some page), s)
    \<and> length (sp_matches page) = 2 \<and> page_bounded default_search_options page"
proof -
  obtain page s where run: "search 6 direct_engine tree_gix (static_db found_store) (order_snap 1) found_query default_search_options ((), budget_unlimited idle)
      = (Inr (Some page), s)" "length (sp_matches page) = 2" using found_page by (metis (no_types) length_map length_Cons list.size(3) numeral_2_eq_2)
  with search_pages_bounded [OF default_bytes run(1)] show ?thesis by blast
qed

theorem search_shows_hits_witness:
  "\<exists>page s hs. search 6 direct_engine tree_gix (static_db found_store) (order_snap 1) found_query default_search_options ((), budget_unlimited idle) = (Inr (Some page), s)
    \<and> length hs = 2 \<and> subseq hs [(ascii ''x'', toy_oid 4, 0, 1, 0), (ascii ''y'', toy_oid 4, 0, 1, 0)]
    \<and> page_finds (so_objects found_store) (order_snap 1) found_query default_search_options page hs"
proof -
  obtain page s where run: "search 6 direct_engine tree_gix (static_db found_store) (order_snap 1) found_query default_search_options ((), budget_unlimited idle)
      = (Inr (Some page), s)" "length (sp_matches page) = 2" using found_page by (metis (no_types) length_map length_Cons list.size(3) numeral_2_eq_2)
  have first: "search_resume (order_snap 1) default_search_options (search_fingerprint found_query default_search_options) = Inr None"
    "sq_mode default_search_options = SmLiteral" "sq_case_sensitive default_search_options"
    by (simp_all add: search_resume_def default_search_options_def)
  have scope: "in_scope (entries_at tree_gix (db_hash_kind (static_db found_store :: unit odb)) (so_objects found_store)) (order_snap 1) default_search_options found_list"
    unfolding default_paged using found_scope by simp
  from search_shows_hits [OF direct_engine_finds static_exact TrueI first(2,3) default_bytes scope first(1) run(1)]
  obtain hs where hs: "subseq hs (remaining_hits (so_objects found_store) found_query default_search_options None (candidates tree_gix default_search_options found_list))"
    "page_finds (so_objects found_store) (order_snap 1) found_query default_search_options page hs" by blast
  have "length hs = 2" using hs(2) run(2) by (auto simp: page_finds_def dest: list_all2_lengthD)
  with run(1) hs show ?thesis unfolding remaining_hits_def option.case default_paged found_hits by blast
qed

theorem search_page_stalls_witness:
  "(\<exists>s. search 6 direct_engine tree_gix (static_db found_store) (order_snap 1) found_query (paged_options 1 91) ((), budget_unlimited idle)
      = (Inl (no_progress ''max_result_bytes''), s))
   \<and> (\<exists>page s. search 6 direct_engine tree_gix (static_db found_store) (order_snap 1) found_query (paged_options 1 90) ((), budget_unlimited idle)
      = (Inr (Some page), s) \<and> length (sp_matches page) = 1)"
proof -
  define c where "c n = encode (search_cursor (order_snap 1) (search_fingerprint found_query (paged_options 1 n)) (ascii ''x'') 0)" for n
  have len: "0 < length (c n)" "length (c n) \<le> MAX_CURSOR_BYTES" for n
    by (simp_all add: c_def encode_def length_encode_body MAX_CURSOR_BYTES_def search_cursor_def order_snap_def toy_oid_def as_bytes_def)
  have fuel: "2 * length found_list + 2 \<le> 6" by (simp add: found_list_def)
  have run: "\<exists>r s. search 6 direct_engine tree_gix (static_db found_store) (order_snap 1) found_query (paged_options 1 n) ((), budget_unlimited idle) = (r, s)
    \<and> (if 91 \<le> unat n \<and> unat n < 91 + length (c n) then r = Inl (no_progress ''max_result_bytes'')
        else \<exists>page. r = Inr (Some page) \<and> length (sp_matches page) = 1)" if "0 < n" "n < - 1" for n
    using search_page_stalls [OF direct_engine_finds found_posed [of 1 n] fuel unlimited_start _ _ found_hits refl refl, of "()"] that len [of n]
    unfolding found_bytes by (auto simp: c_def hit_position_def split: if_splits)
  from run [of 91] run [of 90] len [of 91] show ?thesis by auto
qed

end
