(* ===== verification/Spec2Isabelle.thy ===== *)
theory Spec2Isabelle
  imports Budget Lru Cursor Odb Layered Decode Snapshot Ancestry Pathspec Tree TreeWalk TreeAnswers TreeExamples
    FileRead FileContent RefNames Refs ThreadBudget Runtime RuntimeJobs RuntimeInv
    CommitLog LogWalks LogDecode LogPages LogAnswers LogExamples
    OrderedMap GitConfig Submodules Rendezvous Resident Provider RefProvider PackFetch
    Search SearchScan SearchPages SearchShows SearchAnswers
begin

text \<open>
  Gitility answers queries about Git repositories from an object store, under a resource budget,
  one page at a time. This development models the Rust crate \<open>src/crates/gitility-core\<close>; the
  paths below are relative to its \<open>src\<close> directory.

  \<^bold>\<open>The parts and how they interact.\<close>
  A job carries a budget (\<open>budget.rs\<close>) and runs on the runtime (\<open>runtime/mod.rs\<close>), whose threads are
  reserved from a process-wide budget (\<open>runtime/thread_budget.rs\<close>). Its query opens a snapshot
  (\<open>snapshot.rs\<close>) and reads objects through the interface of \<open>odb.rs\<close>, which the in-memory store
  (\<open>static_odb.rs\<close>), the layered store (\<open>layered_odb.rs\<close>, with the cache of \<open>lru.rs\<close>) and the store behind a host
  (\<open>provider_odb.rs\<close>, with its references in \<open>provider_refs.rs\<close>) provide. Payloads
  are decoded (\<open>decode.rs\<close>), names are checked against contents (\<open>object.rs\<close>, \<open>verify.rs\<close>), and the
  queries - trees (\<open>tree.rs\<close> with \<open>pathspec.rs\<close>), files (\<open>file.rs\<close>), references (\<open>refs.rs\<close>), ancestry
  (\<open>ancestry.rs\<close>, \<open>commit_graph.rs\<close>), the commit log (\<open>log.rs\<close>), submodules (\<open>submodules.rs\<close> with \<open>git_config.rs\<close>) and
  content search (\<open>search.rs\<close>) - return rows or pages that end with a cursor
  (\<open>cursor.rs\<close>) from which the next page resumes.

  \<^bold>\<open>Style of the model.\<close>
  A struct is a record, an enum a datatype, an integer a word of its width (lengths and indices, which
  are bounded by memory, are natural numbers), a byte vector a list of 8-bit words. An operation on a store
  is a function from the state of the store and the budget to a result (\<open>error + 'a\<close>) and the new
  state (\<open>op\<close>, with \<open>sbind\<close>, \<open>slift\<close>, \<open>sattempt\<close> of Prelude). A panic of the source is an error value of
  its own or \<open>None\<close>. Cancellation and the clock are observations that a budget takes from the environment, one per
  look.

  \<^bold>\<open>Theories.\<close>
  \<^item> Prelude: types, the result and state operators, byte strings, splitting and joining.
  \<^item> Errors (\<open>error.rs\<close>), Objects (\<open>object.rs\<close>, \<open>verify.rs\<close>): error codes; object names, printing and parsing in
    hexadecimal, headers and verification. The digest functions are the parameter \<open>hash_engine\<close>.
  \<^item> Budget (\<open>budget.rs\<close>): limits, charges by one wrapping addition and a comparison, suspended charges. The
    locale \<open>meter\<close> states what one counter owes; each counter is an interpretation.
  \<^item> Lru (\<open>lru.rs\<close>): the slab with its links and free list, refined to a plain recency list
    (\<open>lru_repr\<close>); the locale \<open>recency_cache\<close> is what its clients use.
  \<^item> Cursor (\<open>cursor.rs\<close>): the wire format, CRC-32 and FNV-1a.
  \<^item> Odb (\<open>odb.rs\<close>, \<open>static_odb.rs\<close>): the interface as a record of operations; the locales
    \<open>object_store\<close> and \<open>verified_store\<close> are its contract. Layered (\<open>layered_odb.rs\<close>) relies on the contract of
    its stores and provides it again.
  \<^item> Decode (\<open>decode.rs\<close>), Snapshot (\<open>snapshot.rs\<close>): commits, tags, trees and identities around the syntax
    accepted by the gix crates (parameter \<open>gix\<close>); tag peeling within sixteen hops.
  \<^item> Ancestry (\<open>ancestry.rs\<close>, \<open>commit_graph.rs\<close>): reachability; the adapter that shows an engine the
    store with its shallow boundary.
  \<^item> Pathspec (\<open>pathspec.rs\<close>), Tree, TreeWalk, TreeAnswers, TreeExamples (\<open>tree.rs\<close>): matching and pruning; path resolution and
    walks; their specification by depth-first listings; pages; a concrete store.
  \<^item> FileRead, FileContent (\<open>file.rs\<close>): slicing by bytes and by lines, and whole reads.
  \<^item> RefNames, Refs (\<open>refs.rs\<close>): name validation, compact cursors in base 215, symbolic resolution, listing. The
    name rules and the file store of gix are the parameters \<open>ref_rules\<close> and \<open>ref_files\<close>.
  \<^item> ThreadBudget (\<open>runtime/thread_budget.rs\<close>), Runtime, RuntimeJobs, RuntimeInv (\<open>runtime/mod.rs\<close>): interleaved atomic
    actions. A thread is a list of pending actions; the invariants are about the shared state and the multiset of
    pending actions. Job names are natural numbers, the publication of a result (under one lock) is one action,
    counters are equal modulo 2 to the 64.
  \<^item> CommitLog, LogWalks, LogDecode, LogPages, LogAnswers, LogExamples (\<open>log.rs\<close>): the byte-level readers of commits, the
    chronological and topological walks (locales \<open>walk_order\<close> and \<open>topological_walk\<close>), pages and their cursors. The
    binary heap is a list from which the greatest entry is taken, the hash maps are
    association lists; entries of equal key are equal, so the choice is not observable.
  \<^item> GitConfig (\<open>git_config.rs\<close>): the grammar of configuration blobs. OrderedMap: the sorted maps of the library
    (locale \<open>ordered_map\<close>). Submodules (\<open>submodules.rs\<close>): declarations, the walk over gitlinks and their
    correlation; its locale \<open>exact_store\<close> is a store with fixed contents.
  \<^item> Rendezvous (the pending requests of \<open>provider_odb.rs\<close>): replies, failures, cancellation and the wait with its deadline as steps of
    the environment. Provider (\<open>provider_odb.rs\<close>): caches, validation and verification of replies; it provides the contract
    \<open>verified_store\<close>. RefProvider (\<open>provider_refs.rs\<close>): checked references over the same rendezvous. Resident: what
    stays in a recency cache, for the caches of the provider and of the search.
  \<^item> Search, SearchScan, SearchPages, SearchShows, SearchAnswers (\<open>search.rs\<close>): the query; its windowed literal search and the scan
    into matching lines against direct definitions; the ceilings of a page; the hits a page shows; searches that return, and a
    store with files. The regular-expression engine and the byte search are the parameter \<open>search_engine\<close>.
  \<^item> PackFetch (\<open>packfetch.rs\<close>): manifests, checked sums, artifacts fetched by ranges, and the verification of a pack and its index.
  \<^bold>\<open>What is shown.\<close>
  Budgets: accepted charges stay within every ceiling in any order of calls, as long as all that is asked for is below 2 to the 64. Caches: every run agrees with the recency list. Cursors:
  decoding accepts exactly the encodings of the expected query, and no single corrupted byte. Stores: reads through any
  composition return the first answer, and only verified objects. Queries: a page shows the beginning of what its
  specification selects, complete unless truncated; a page and its successor show nothing twice and miss nothing
  (under the stated order for trees: TreeExamples shows the case where it fails); over a complete store without ceilings a page is returned,
  unless a tree page would end after a path too long for a cursor. A pathspec whose fixed part has an escape loses the directory it selects.
  Runtime: in every interleaving a task runs at most once, its result is published once, no wake-up is
  lost, and shutdown leaves nothing behind.
  Providers: whatever a host replies, only verified objects and checked references are served, each request has at most one reply, and a
  wait ends once the clock passes its deadline. Submodules: rows are exactly the declarations and gitlinks. Configuration: printed
  configurations are read back. Search, for case-sensitive literal queries: matches are true hits in order, every hit is shown where there
  is room, and a first match that fits the requested bytes only without its cursor stalls the stream. Search, for every query: pages keep
  their ceilings, a single match excepted from the byte limit.
  Packs: an artifact fetched by ranges is the artifact, and a pair is accepted exactly when its digests agree with its name.

  \<^bold>\<open>Bounds on loops.\<close>
  Loops that follow stored data take fuel and answer \<open>None\<close> when it is used up; each has a theorem that
  a named amount is enough. Tree walks: twice the entries of the listing and one more.
  Ancestry: the parents of all reachable commits and one more. The log: the reachable commits, their parents and one more. Tree decoding consumes
  its payload, so its length is enough. Symbolic references and tags are bounded by sixteen in the source itself.
  The gitlink walk: twice the entries and one more. The search: twice the entries and two more. Waits take the number of
  wake-ups, and return at the first reading of the clock past the deadline.

  \<^bold>\<open>Not modelled.\<close>
  \<^item> In \<open>packfetch.rs\<close>: hydration of packs on the file system, the callback transport, and the local store it opens.
  \<^item> \<open>diff.rs\<close>, \<open>blame.rs\<close>, \<open>path_history.rs\<close>: built on the diff and blame engines of gix, whose results
    the sources only reshape.
  \<^item> \<open>local_odb.rs\<close>, \<open>fetch.rs\<close>, \<open>repo_admin.rs\<close>, \<open>rewrite.rs\<close>: file-system and network calls of gix.
  \<^item> The bindings in \<open>src/native/gitility\<close>: translation of terms.
  \<^item> Opening of reference stores, and the limit that the thread budget reads from the environment.
\<close>


end
